(* ===== verification/Prelude.thy ===== *)
theory Prelude
  imports Main "HOL-Library.FSet" "HOL-Library.Finite_Map" "HOL-Library.List_Lexorder"
    "HOL-Library.Char_ord" "HOL-Library.Product_Lexorder"
begin

text \<open>
  Shared vocabulary of the development. The Rust sources use the ordered containers of the
  standard library: a \<open>BTreeMap\<close> is a finite map \<open>('k, 'v) fmap\<close>, a \<open>BTreeSet\<close> a finite set
  \<open>'a fset\<close>; both have one representation per content, so \<open>==\<close> of the source is equality here.
  Iteration of a \<open>BTreeMap\<close> visits the keys in ascending order (\<open>bt_entries\<close>). Dense run-local
  identifiers (newtypes over \<open>u64\<close>, compared and ordered only) are natural numbers. A string is
  a byte list and is ordered lexicographically, as \<open>str\<close> is.
\<close>

named_theorems trait_simps
  \<open>selectors of the operation dictionaries that stand for trait implementations\<close>
named_theorems place_simps
  \<open>point-wise behaviour of the operations on place-indexed maps\<close>

type_synonym place_id = nat
type_synonym mir_body_id = nat
type_synonym mir_op_id = nat
type_synonym mir_value_id = nat
type_synonym mir_predicate_id = nat
type_synonym call_site_id = nat
type_synonym unsupported_id = nat
type_synonym function_id = nat
type_synonym basic_block_id = nat
type_synonym cfg_node_id = nat
type_synonym cfg_function_id = nat
type_synonym stable_key_id = nat

definition bt_entries :: "('k::linorder, 'v) fmap \<Rightarrow> ('k \<times> 'v) list" where
  "bt_entries m = map (\<lambda>k. (k, the (fmlookup m k))) (sorted_list_of_fset (fmdom m))"

definition bt_values :: "('k::linorder, 'v) fmap \<Rightarrow> 'v list" where
  "bt_values m = map snd (bt_entries m)"

definition bt_elems :: "'a::linorder fset \<Rightarrow> 'a list" where
  "bt_elems s = sorted_list_of_fset s"

definition fm_get_or :: "'v \<Rightarrow> ('k, 'v) fmap \<Rightarrow> 'k \<Rightarrow> 'v" where
  "fm_get_or d m k = (case fmlookup m k of Some v \<Rightarrow> v | None \<Rightarrow> d)"

text \<open>\<open>entry(k).or_insert(v)\<close>: the value is stored only where the key is absent.\<close>

definition fm_or_insert :: "'k \<Rightarrow> 'v \<Rightarrow> ('k, 'v) fmap \<Rightarrow> ('k, 'v) fmap" where
  "fm_or_insert k v m = (case fmlookup m k of Some _ \<Rightarrow> m | None \<Rightarrow> fmupd k v m)"

text \<open>\<open>entry(k).or_default().push(v)\<close> on a map of vectors.\<close>

definition fm_push :: "'k \<Rightarrow> 'v \<Rightarrow> ('k, 'v list) fmap \<Rightarrow> ('k, 'v list) fmap" where
  "fm_push k v m = fmupd k (fm_get_or [] m k @ [v]) m"

text \<open>\<open>entry(k).or_default().insert(v)\<close> on a map of sets.\<close>

definition fm_add :: "'k \<Rightarrow> 'v \<Rightarrow> ('k, 'v fset) fmap \<Rightarrow> ('k, 'v fset) fmap" where
  "fm_add k v m = fmupd k (finsert v (fm_get_or {||} m k)) m"

text \<open>\<open>collect()\<close> of an iterator of pairs into a map: a later pair wins.\<close>

definition fm_collect :: "('k \<times> 'v) list \<Rightarrow> ('k, 'v) fmap" where
  "fm_collect ps = fold (\<lambda>(k, v) m. fmupd k v m) ps fmempty"

text \<open>\<open>Vec::dedup\<close>: consecutive repetitions are removed.\<close>

fun vec_dedup :: "'a list \<Rightarrow> 'a list" where
  "vec_dedup [] = []"
| "vec_dedup [x] = [x]"
| "vec_dedup (x # y # ys) = (if x = y then vec_dedup (y # ys) else x # vec_dedup (y # ys))"

text \<open>A loop whose body can fail: it stops at the first failure.\<close>

fun try_fold :: "('a \<Rightarrow> 's \<Rightarrow> 's option) \<Rightarrow> 'a list \<Rightarrow> 's \<Rightarrow> 's option" where
  "try_fold f [] s = Some s"
| "try_fold f (x # xs) s = Option.bind (f x s) (try_fold f xs)"

text \<open>A loop that appends what a function that may fail returns for each element.\<close>

fun try_append :: "('a \<Rightarrow> 'b list option) \<Rightarrow> 'a list \<Rightarrow> 'b list option" where
  "try_append f [] = Some []"
| "try_append f (x # xs) =
     (case f x of None \<Rightarrow> None | Some ys \<Rightarrow> map_option ((@) ys) (try_append f xs))"

text \<open>Decimal rendering of an unsigned integer, as \<open>Display\<close> prints it.\<close>

fun show_nat :: "nat \<Rightarrow> string" where
  "show_nat n = (if n < 10 then [char_of (48 + n)]
                 else show_nat (n div 10) @ [char_of (48 + n mod 10)])"

declare show_nat.simps [simp del]


section \<open>Ordered iteration\<close>

lemma set_bt_elems [simp]: "set (bt_elems s) = fset s"
  by (simp add: bt_elems_def sorted_list_of_fset.rep_eq)

lemma fcard_singleton [simp]: "fcard {|x|} = 1"
  by (simp add: fcard_finsert_disjoint)

lemma distinct_bt_elems [simp]: "distinct (bt_elems s)"
  by (simp add: bt_elems_def sorted_list_of_fset.rep_eq)

lemma sorted_bt_elems [simp]: "sorted (bt_elems s)"
  by (simp add: bt_elems_def sorted_list_of_fset.rep_eq)

lemma distinct_keys_bt_entries [simp]: "distinct (map fst (bt_entries m))"
  by (simp add: bt_entries_def comp_def sorted_list_of_fset.rep_eq)

lemma set_keys_bt_entries [simp]: "fst ` set (bt_entries m) = fset (fmdom m)"
  by (simp add: bt_entries_def image_image sorted_list_of_fset.rep_eq)

lemma in_bt_entries_iff: "(k, v) \<in> set (bt_entries m) \<longleftrightarrow> fmlookup m k = Some v"
  by (auto simp: bt_entries_def sorted_list_of_fset.rep_eq fmlookup_dom_iff)

lemma map_of_bt_entries [simp]: "map_of (bt_entries m) k = fmlookup m k"
proof (cases "fmlookup m k")
  case None
  then have "k \<notin> fst ` set (bt_entries m)" by (simp add: fmdom_notI)
  then show ?thesis using None by (simp add: map_of_eq_None_iff)
next
  case (Some v)
  then show ?thesis by (simp add: in_bt_entries_iff)
qed

lemma in_bt_values_iff: "v \<in> set (bt_values m) \<longleftrightarrow> (\<exists>k. fmlookup m k = Some v)"
proof
  assume "v \<in> set (bt_values m)"
  then show "\<exists>k. fmlookup m k = Some v"
    by (auto simp: bt_values_def in_bt_entries_iff)
next
  assume "\<exists>k. fmlookup m k = Some v"
  then obtain k where "(k, v) \<in> set (bt_entries m)" by (auto simp: in_bt_entries_iff)
  then show "v \<in> set (bt_values m)" by (force simp: bt_values_def)
qed


section \<open>Point-wise lookups of the map idioms\<close>

lemma fm_get_or_Some [simp]: "fmlookup m k = Some v \<Longrightarrow> fm_get_or d m k = v"
  by (simp add: fm_get_or_def)

lemma fm_get_or_None [simp]: "fmlookup m k = None \<Longrightarrow> fm_get_or d m k = d"
  by (simp add: fm_get_or_def)

lemma fm_get_or_fmupd: "fm_get_or d (fmupd k v m) j = (if j = k then v else fm_get_or d m j)"
  by (simp add: fm_get_or_def)

lemma lookup_fm_or_insert:
  "fmlookup (fm_or_insert k v m) j =
     (if j = k \<and> fmlookup m k = None then Some v else fmlookup m j)"
  by (auto simp: fm_or_insert_def split: option.splits)

lemma fm_get_or_push:
  "fm_get_or [] (fm_push k v m) j = (if j = k then fm_get_or [] m j @ [v] else fm_get_or [] m j)"
  by (simp add: fm_push_def fm_get_or_fmupd)

lemma fm_get_or_add:
  "fm_get_or {||} (fm_add k v m) j =
     (if j = k then finsert v (fm_get_or {||} m j) else fm_get_or {||} m j)"
  by (simp add: fm_add_def fm_get_or_fmupd)

lemma lookup_fm_collect_aux:
  "fmlookup (fold (\<lambda>(k, v) m. fmupd k v m) ps m) j =
     (case map_of (rev ps) j of Some v \<Rightarrow> Some v | None \<Rightarrow> fmlookup m j)"
proof (induction ps arbitrary: m)
  case Nil
  show ?case by simp
next
  case (Cons p ps)
  obtain a b where p: "p = (a, b)" by force
  show ?case
    by (simp add: Cons.IH p map_add_def split: option.split)
qed

lemma lookup_fm_collect: "fmlookup (fm_collect ps) j = map_of (rev ps) j"
  by (simp add: fm_collect_def lookup_fm_collect_aux split: option.split)

lemma fm_collect_SomeD: "fmlookup (fm_collect ps) j = Some v \<Longrightarrow> (j, v) \<in> set ps"
  by (auto simp: lookup_fm_collect dest: map_of_SomeD)

lemma fm_collect_NoneD: "fmlookup (fm_collect ps) j = None \<Longrightarrow> (j, v) \<notin> set ps"
  by (force simp: lookup_fm_collect map_of_eq_None_iff)

lemma lookup_fm_collect_distinct:
  "distinct (map fst ps) \<Longrightarrow> fmlookup (fm_collect ps) j = Some v \<longleftrightarrow> (j, v) \<in> set ps"
  using map_of_eq_Some_iff [of "rev ps" j v] by (simp add: lookup_fm_collect rev_map [symmetric])

lemma try_append_set:
  "(\<And>x. x \<in> set xs \<Longrightarrow> \<exists>ys. f x = Some ys \<and> set ys = S x) \<Longrightarrow>
     \<exists>ys. try_append f xs = Some ys \<and> set ys = (\<Union>x \<in> set xs. S x)"
proof (induction xs)
  case (Cons x xs)
  obtain ys where "f x = Some ys" "set ys = S x" using Cons.prems [of x] by auto
  moreover obtain zs where "try_append f xs = Some zs" "set zs = (\<Union>x \<in> set xs. S x)"
    using Cons.IH Cons.prems by auto
  ultimately show ?case by simp
qed simp

lemma try_fold_invariant:
  "try_fold f xs s = Some s' \<Longrightarrow> P s \<Longrightarrow>
   (\<And>x s t. x \<in> set xs \<Longrightarrow> P s \<Longrightarrow> f x s = Some t \<Longrightarrow> P t) \<Longrightarrow> P s'"
proof (induction xs arbitrary: s)
  case (Cons x xs)
  then obtain t where "f x s = Some t" "try_fold f xs t = Some s'"
    by (auto simp: bind_eq_Some_conv)
  with Cons show ?case by (metis list.set_intros)
qed simp

lemma try_fold_relation:
  assumes "try_fold f xs s = Some t"
    and "\<And>x s t. x \<in> set xs \<Longrightarrow> f x s = Some t \<Longrightarrow> R s t"
    and "\<And>s. R s s" and "\<And>s t u. R s t \<Longrightarrow> R t u \<Longrightarrow> R s u"
  shows "R s t"
  using assms(1,2)
proof (induction xs arbitrary: s)
  case Nil
  then show ?case using assms(3) by simp
next
  case (Cons x xs)
  then obtain u where "f x s = Some u" "try_fold f xs u = Some t" by (auto simp: bind_eq_Some_conv)
  with Cons assms(4) show ?case by (metis list.set_intros)
qed

text \<open>What each step establishes, and later steps keep, holds for every element after the loop.\<close>

lemma try_fold_establishes:
  assumes "try_fold f xs s = Some t" and "x \<in> set xs"
    and "\<And>x s t. x \<in> set xs \<Longrightarrow> f x s = Some t \<Longrightarrow> R s t \<and> Q x t"
    and "\<And>s. R s s" and "\<And>s t u. R s t \<Longrightarrow> R t u \<Longrightarrow> R s u"
    and "\<And>x s t. Q x s \<Longrightarrow> R s t \<Longrightarrow> Q x t"
  shows "Q x t"
  using assms(1-3)
proof (induction xs arbitrary: s)
  case (Cons y ys)
  then obtain u where u: "f y s = Some u" "try_fold f ys u = Some t" by (auto simp: bind_eq_Some_conv)
  show ?case
  proof (cases "x \<in> set ys")
    case True
    show ?thesis by (rule Cons.IH [OF u(2) True]) (rule Cons.prems(3), simp_all)
  next
    case False
    with Cons.prems(2) have "x = y" by simp
    with Cons.prems(3) u(1) have "Q x u" by simp
    moreover have "R u t"
    proof (rule try_fold_relation [OF u(2)])
      show "R s t" if "x \<in> set ys" "f x s = Some t" for x s t
        by (rule conjunct1 [OF Cons.prems(3)]) (use that in simp_all)
    qed (fact assms(4,5))+
    ultimately show ?thesis by (rule assms(6))
  qed
qed simp

lemma try_fold_total: "try_fold (\<lambda>x s. Some (f x s)) xs s = Some (fold f xs s)"
  by (induction xs arbitrary: s) simp_all

lemma try_fold_defined:
  assumes "P s" and "\<And>x s. x \<in> set xs \<Longrightarrow> P s \<Longrightarrow> \<exists>t. f x s = Some t \<and> P t"
  shows "\<exists>t. try_fold f xs s = Some t \<and> P t"
  using assms
proof (induction xs arbitrary: s)
  case (Cons x xs)
  have "\<exists>t. f x s = Some t \<and> P t" by (rule Cons.prems(2)) (simp_all add: Cons.prems(1))
  then obtain u where u: "f x s = Some u" "P u" by blast
  have "\<exists>t. try_fold f xs u = Some t \<and> P t"
    by (rule Cons.IH [OF u(2)]) (rule Cons.prems(2), simp_all)
  with u show ?case by simp
qed simp


section \<open>Inclusion of maps\<close>

definition fm_le :: "('k, 'v) fmap \<Rightarrow> ('k, 'v) fmap \<Rightarrow> bool" where
  "fm_le m n \<longleftrightarrow> (\<forall>k v. fmlookup m k = Some v \<longrightarrow> fmlookup n k = Some v)"

lemma fm_le_refl [simp]: "fm_le m m"
  by (simp add: fm_le_def)

lemma fm_le_trans: "fm_le m n \<Longrightarrow> fm_le n k \<Longrightarrow> fm_le m k"
  by (simp add: fm_le_def)

lemma fm_leD: "fm_le m n \<Longrightarrow> fmlookup m k = Some v \<Longrightarrow> fmlookup n k = Some v"
  by (simp add: fm_le_def)

lemma fm_le_fmupd: "fmlookup m k = None \<Longrightarrow> fm_le m (fmupd k v m)"
  by (auto simp: fm_le_def)


section \<open>Vectors\<close>

lemma set_map_filter_iff: "y \<in> set (List.map_filter f xs) \<longleftrightarrow> (\<exists>x \<in> set xs. f x = Some y)"
  by (induction xs) (auto simp: List.map_filter_simps split: option.split)

lemma set_vec_dedup [simp]: "set (vec_dedup xs) = set xs"
  by (induction xs rule: vec_dedup.induct) auto

lemma sorted_vec_dedup: "sorted xs \<Longrightarrow> sorted (vec_dedup xs)"
  by (induction xs rule: vec_dedup.induct) auto

lemma distinct_vec_dedup: "sorted xs \<Longrightarrow> distinct (vec_dedup (xs :: 'a::linorder list))"
proof (induction xs rule: vec_dedup.induct)
  case (3 x y ys)
  show ?case
  proof (cases "x = y")
    case True
    with 3 show ?thesis by simp
  next
    case False
    with "3.prems" have "x \<notin> set (y # ys)" by auto
    with False 3 show ?thesis by simp
  qed
qed auto

lemma sorted_distinct_map_vec_dedup:
  fixes f :: "'a \<Rightarrow> 'b::linorder"
  assumes inj: "\<And>a b. f a = f b \<longleftrightarrow> a = b"
  shows "sorted (map f xs) \<Longrightarrow> sorted (map f (vec_dedup xs)) \<and> distinct (vec_dedup xs)"
proof (induction xs rule: vec_dedup.induct)
  case (3 x y ys)
  show ?case
  proof (cases "x = y")
    case False
    with "3.prems" inj have "f x < f y" by (simp add: order_less_le)
    with "3.prems" have "x \<notin> set (y # ys)" by auto
    with False 3 show ?thesis by simp
  qed (use 3 in simp)
qed auto

end
