(* ===== verification/Facts.thy ===== *)
theory Facts
  imports Prelude
begin

text \<open>
  The relational facts the analyses exchange: source spans, MIR bodies, operations and places
  (\<open>ir/body.rs\<close>, \<open>ir/op.rs\<close>, \<open>ir/places.rs\<close>), control-flow facts (\<open>analysis_neutral/cfg/facts.rs\<close>),
  call facts (\<open>analysis_neutral/calls/facts.rs\<close>, \<open>analysis_neutral/refined_calls/facts.rs\<close>) and
  data-flow facts (\<open>analysis_neutral/data_flow/facts.rs\<close>). A struct is a record with the fields of
  the source, prefixed by the struct; an enum is a datatype whose constructors carry the enum's
  name where the variants of two enums coincide. Dense identifiers and \<open>u32\<close> coordinates are natural
  numbers: the code compares and orders them and does no arithmetic on them here.
\<close>

section \<open>Spans and languages\<close>

type_synonym file_id = nat
type_synonym symbol_id = nat
type_synonym reference_id = nat
type_synonym package_id = nat
type_synonym module_node_id = nat
type_synonym call_target_id = nat
type_synonym refined_call_edge_id = nat
type_synonym cfg_edge_id = nat
type_synonym data_flow_node_id = nat
type_synonym data_flow_edge_id = nat
type_synonym data_flow_model_id = nat
type_synonym data_flow_budget_id = nat
type_synonym data_flow_path_id = nat

record span =
  span_file :: file_id
  start_byte :: nat
  end_byte :: nat
  start_line :: nat
  start_col :: nat
  end_line :: nat
  end_col :: nat

datatype language =
  Lang_Go | Lang_TypeScript | Lang_Tsx | Lang_JavaScript | Lang_Jsx | Lang_Unknown


section \<open>MIR\<close>

datatype mir_status = Mir_Resolved | Mir_Partial | Mir_Unknown | Mir_Unsupported

record mir_body =
  body_id :: mir_body_id
  body_language :: language
  body_file :: file_id
  body_function :: function_id
  body_package :: "package_id option"
  body_module :: "module_node_id option"
  body_owner_stable_key :: stable_key_id
  body_span :: span
  body_stable_key :: stable_key_id
  body_status :: mir_status

datatype mir_aggregate_kind = Agg_Array | Agg_Object | Agg_Composite

datatype mir_value =
    Val_Literal string
  | Val_Place place_id
  | Val_Temporary mir_value_id
  | Val_CallReturn call_site_id
  | Val_BinOp string mir_value mir_value
  | Val_Aggregate mir_aggregate_kind "mir_aggregate_field list"
  | Val_Closure mir_body_id "place_id list"
  | Val_Unknown string
and mir_aggregate_field = MirAggregateField "string option" mir_value

datatype assign_mode =
    DeclarationBinding
  | Overwrite
  | PartialWrite
  | Simultaneous
  | ProjectionMutation
  | UnknownWrite

datatype branch_nil_test = Exhaustive bool | NilEdgeOnly bool

fun nil_on_true :: "branch_nil_test \<Rightarrow> bool" where
  "nil_on_true (Exhaustive b) = b"
| "nil_on_true (NilEdgeOnly b) = b"

fun proves_non_nil :: "branch_nil_test \<Rightarrow> bool" where
  "proves_non_nil (Exhaustive _) = True"
| "proves_non_nil (NilEdgeOnly _) = False"

datatype mir_operation_kind =
    StorageLive place_id
  | Bind place_id mir_value
  | Assign place_id mir_value assign_mode
  | Read place_id
  | Write place_id mir_value
  | Branch mir_predicate_id "place_id option" "branch_nil_test option"
  | Call call_site_id mir_value "place_id list" place_id
  | Return "mir_value option"
  | Unsupported unsupported_id

record mir_operation =
  op_id :: mir_op_id
  op_body :: mir_body_id
  op_ordinal :: nat
  op_span :: span
  op_kind :: mir_operation_kind
  op_stable_key :: stable_key_id
  op_status :: mir_status

datatype unsupported_domain =
  Dom_Mir | Dom_Cfg | Dom_Calls | Dom_Domains | Dom_Summaries | Dom_DataFlow | Dom_Aliases

datatype conservative_action =
  SkipOperation | HavocAffectedPlaces | PreserveWithUnknownValue | StopLowering

datatype unsupported_precision = Uns_Partial | Uns_Unknown | Uns_Unsupported

record unsupported_semantic_fact =
  uns_id :: unsupported_id
  uns_body :: "mir_body_id option"
  uns_operation :: "mir_op_id option"
  uns_language :: language
  uns_file :: file_id
  uns_span :: span
  uns_construct :: string
  uns_source_evidence :: string
  affected_places :: "place_id list"
  affected_domains :: "unsupported_domain list"
  uns_conservative_action :: conservative_action
  uns_precision :: unsupported_precision
  uns_status :: mir_status
  uns_stable_key :: stable_key_id


section \<open>Places\<close>

datatype place_root =
    Root_Local function_id string
  | Root_Parameter function_id nat "string option"
  | Root_Global "symbol_id option" string
  | Root_Temporary mir_body_id nat
  | Root_CallReturn call_site_id
  | Root_Unknown string

datatype place_projection =
    Proj_Field string
  | Proj_Property string
  | Proj_IndexKnown string
  | Proj_IndexUnknown string
  | Proj_Deref
  | Proj_AwaitResult
  | Proj_CallReturn call_site_id
  | Proj_Unknown string

datatype place_status = Place_Resolved | Place_Partial | Place_Unknown | Place_Unsupported

record place_fact =
  place_fact_id :: place_id
  place_language :: language
  place_file :: "file_id option"
  place_function :: "function_id option"
  place_root_of :: place_root
  projections :: "place_projection list"
  place_stable_key :: stable_key_id
  place_status_of :: place_status


section \<open>Control flow\<close>

datatype cfg_node_kind =
    Node_Entry | Node_ExitNormal | Node_ExitExceptional | Node_Operation | Node_Condition
  | Node_CallSite | Node_Return | Node_Throw | Node_Panic | Node_Break | Node_Continue | Node_Goto
  | Node_Yield | Node_Await | Node_Defer | Node_RunDefers | Node_FinallyEnter | Node_FinallyExit
  | Node_Synthetic | Node_Unsupported

datatype basic_block_kind =
    Block_Entry | Block_ExitNormal | Block_ExitExceptional | Block_StraightLine | Block_Branch
  | Block_LoopHeader | Block_LoopBody | Block_Join | Block_Cleanup | Block_Unreachable
  | Block_Synthetic

datatype cfg_edge_kind =
    Edge_Normal | Edge_True | Edge_False | Edge_SwitchCase | Edge_DefaultCase | Edge_LoopEnter
  | Edge_LoopBack | Edge_LoopExit | Edge_Break | Edge_Continue | Edge_Goto | Edge_Return
  | Edge_Throw | Edge_ImplicitThrow | Edge_Panic | Edge_Recover | Edge_Finally | Edge_Cleanup
  | Edge_Defer | Edge_ShortCircuit | Edge_OptionalChain | Edge_Nullish | Edge_YieldSuspend
  | Edge_YieldResume | Edge_AwaitSuspend | Edge_AwaitResume | Edge_Spawn | Edge_Unreachable
  | Edge_Unknown | Edge_Synthetic | Edge_Extension

datatype cfg_view = NormalControl | AbruptAware | ExceptionConservative

datatype cfg_status = Cfg_Resolved | Cfg_Partial | Cfg_Unknown | Cfg_Unsupported

datatype cfg_precision =
    Cfg_ExactSyntax | Cfg_ExactLowered | Cfg_SetupAware | Cfg_Conservative | Cfg_Heuristic
  | Cfg_PrecisionUnknown | Cfg_PrecisionUnsupported

record cfg_function_fact =
  cfgf_id :: cfg_function_id
  cfgf_body :: mir_body_id
  cfgf_function :: function_id
  cfgf_language :: language
  cfgf_file :: file_id
  cfgf_span :: span
  entry_node :: cfg_node_id
  normal_exit_node :: cfg_node_id
  exceptional_exit_node :: "cfg_node_id option"
  cfgf_stable_key :: stable_key_id
  cfgf_status :: cfg_status
  cfgf_precision :: cfg_precision

record cfg_node_fact =
  node_id :: cfg_node_id
  node_cfg_function :: cfg_function_id
  node_body :: mir_body_id
  node_operation :: "mir_op_id option"
  node_block :: basic_block_id
  node_kind :: cfg_node_kind
  node_span :: "span option"
  node_generated :: bool
  operation_ordinal :: nat
  node_stable_key :: stable_key_id
  node_status :: cfg_status
  node_precision :: cfg_precision

record basic_block_fact =
  block_id :: basic_block_id
  block_cfg_function :: cfg_function_id
  block_kind :: basic_block_kind
  first_node :: "cfg_node_id option"
  last_node :: "cfg_node_id option"
  block_reachable :: bool
  reverse_postorder :: nat
  block_stable_key :: stable_key_id
  block_status :: cfg_status
  block_precision :: cfg_precision

record cfg_edge_fact =
  cfge_id :: cfg_edge_id
  cfge_cfg_function :: cfg_function_id
  cfge_view :: cfg_view
  cfge_from :: cfg_node_id
  cfge_to :: cfg_node_id
  cfge_from_block :: basic_block_id
  cfge_to_block :: basic_block_id
  cfge_kind :: cfg_edge_kind
  cfge_label :: "string option"
  cfge_stable_key :: stable_key_id
  cfge_status :: cfg_status
  cfge_precision :: cfg_precision


section \<open>Calls\<close>

datatype call_syntax_kind =
    Syn_Function | Syn_Method | Syn_Constructor | Syn_StaticMember | Syn_Member | Syn_Index
  | Syn_Super | Syn_Import | Syn_New | Syn_TaggedTemplate | Syn_GoRoutine | Syn_Deferred
  | Syn_DynamicImport | Syn_Require | Syn_FunctionValue | Syn_Unknown

datatype unresolved_call_reason =
    Unres_FunctionValue | Unres_DynamicProperty | Unres_InterfaceDispatch | Unres_Eval
  | Unres_CallApplyBind | Unres_FrameworkDispatch | Unres_Reflection | Unres_GoroutineBoundary
  | Unres_DynamicImport | Unres_ProxyOrAccessor | Unres_MissingSemanticReference
  | Unres_MissingImportResolution | Unres_SetupMissing | Unres_UnsupportedSyntax
  | Unres_BudgetExceeded | Unres_UnknownCallee | Unres_Unknown

datatype call_callee =
    Callee_Identifier "reference_id option" string
  | Callee_Member place_id string
  | Callee_Index place_id "place_id option"
  | Callee_Super
  | Callee_Import
  | Callee_FunctionValue place_id
  | Callee_Constructor "reference_id option" "string option"
  | Callee_Unknown unresolved_call_reason

datatype call_edge_kind =
    CEdge_Direct | CEdge_Constructor | CEdge_StaticMember | CEdge_MethodDirect | CEdge_Method
  | CEdge_FunctionValue | CEdge_Synthetic | CEdge_Spawn | CEdge_Deferred | CEdge_Unknown

datatype call_algorithm =
    SyntaxOnly | DirectReference | ImportBinding | ConstructorBinding | StaticMember
  | DirectMember | GoStatic | GoCha | GoRta | GoVta | TypeHierarchy | PointsTo | SummaryAssisted
  | FrameworkModel | RepoModel | AlgorithmUnsupported

datatype call_target_status =
    Target_Resolved | Target_Ambiguous | Target_Unresolved | Target_Unsupported
  | Target_SetupMissing | Target_BudgetExceeded | Target_Rejected | Target_Unreachable

datatype call_precision =
    CPrec_Exact | CPrec_SetupAware | CPrec_Conservative | CPrec_Heuristic | CPrec_Ambiguous
  | CPrec_Unknown | CPrec_Unsupported

datatype call_provenance =
    CProv_NativeDirect | CProv_Native | CProv_SemanticReference | CProv_ImportBinding
  | CProv_MirShape | CProv_Topology | CProv_Extension | CProv_Model

record call_site_fact =
  site_id :: call_site_id
  site_language :: language
  site_file :: file_id
  site_caller :: function_id
  site_owner_symbol :: "symbol_id option"
  site_body :: mir_body_id
  site_operation :: mir_op_id
  site_span :: span
  site_kind :: call_syntax_kind
  site_callee :: call_callee
  site_receiver :: "place_id option"
  site_arguments :: "place_id list"
  site_result :: "place_id option"
  site_status :: call_target_status
  site_precision :: call_precision
  site_in_throw :: bool
  site_key :: stable_key_id

record unresolved_call_fact =
  unres_site :: call_site_id
  unres_caller :: function_id
  unres_status :: call_target_status
  unres_reason :: unresolved_call_reason
  unres_algorithm :: call_algorithm
  unres_provenance :: call_provenance
  unres_precision :: call_precision
  unres_stable_key :: stable_key_id

datatype refined_call_tier =
    Tier_DirectOnly | Tier_DirectPlusFramework | Tier_TypeDirected | Tier_TypeValueFunctionToken
  | Tier_SummaryAssisted | Tier_PointsToAssisted | Tier_ExtensionModel | Tier_AllAccepted

datatype refined_call_validation =
  RVal_Native | RVal_ReferentiallyValidated | RVal_ExtensionValidated | RVal_Rejected

datatype refined_call_confidence = RConf_High | RConf_Medium | RConf_Low

record refined_call_edge_fact =
  refined_id :: refined_call_edge_id
  refined_site :: call_site_id
  refined_base_target :: "call_target_id option"
  refined_caller :: function_id
  refined_target_function :: "function_id option"
  refined_target_symbol :: "symbol_id option"
  refined_synthetic_target :: "string option"
  refined_language :: language
  refined_edge_kind :: call_edge_kind
  refined_algorithm :: call_algorithm
  refined_tier :: refined_call_tier
  refined_status :: call_target_status
  refined_reason :: "unresolved_call_reason option"
  refined_provenance :: call_provenance
  refined_precision :: call_precision
  refined_validation :: refined_call_validation
  refined_confidence :: refined_call_confidence
  refined_evidence :: "string list"
  refined_input_stable_keys :: "string list"
  refined_stable_key :: stable_key_id


section \<open>Data flow\<close>

datatype data_flow_node_kind =
    DNode_Place | DNode_Value | DNode_CallArgument | DNode_CallReceiver | DNode_CallReturn
  | DNode_SummaryInput | DNode_SummaryOutput | DNode_Source | DNode_Sink | DNode_Sanitizer
  | DNode_Barrier | DNode_Synthetic

datatype data_flow_edge_kind =
    DEdge_LocalBinding | DEdge_LocalAssignment | DEdge_LocalUse | DEdge_LocalRead
  | DEdge_LocalWrite | DEdge_ReturnValue | DEdge_FieldProjection | DEdge_IndexProjection
  | DEdge_Dereference | DEdge_AddressOf | DEdge_CallArgumentToParameter
  | DEdge_CallArgumentToReturn | DEdge_CallReturnToUse | DEdge_ReceiverToMethod
  | DEdge_SummaryTito | DEdge_SummaryProjected | DEdge_UnknownFlow | DEdge_HavocFlow
  | DEdge_BudgetTruncated | DEdge_SourceIntroduction | DEdge_Sanitizer | DEdge_Barrier
  | DEdge_Model

datatype data_flow_algorithm =
  DAlg_LocalMir | DAlg_DirectCall | DAlg_SummaryProjection | DAlg_ExtensionModel | DAlg_QuerySearch

datatype data_flow_status =
    Flow_Present | Flow_Unknown | Flow_Unsupported | Flow_SetupMissing | Flow_BudgetExceeded
  | Flow_Rejected

datatype data_flow_precision =
    DPrec_Exact | DPrec_SetupAware | DPrec_Syntax | DPrec_Conservative | DPrec_Heuristic
  | DPrec_Unknown

datatype data_flow_validation =
    DVal_Native | DVal_ReferentiallyValidated | DVal_ExtensionValidated | DVal_BudgetValidated
  | DVal_Rejected

datatype data_flow_confidence = DConf_High | DConf_Medium | DConf_Low

datatype data_flow_provenance = DProv_Native | DProv_Summary | DProv_Extension | DProv_Model | DProv_Query

datatype data_flow_model_kind =
  DModel_Source | DModel_Sink | DModel_Sanitizer | DModel_Barrier | DModel_Tito

datatype data_flow_budget_reason = NodeLimit | EdgeLimit | PathDepth | PathCount

record data_flow_node_fact =
  dfn_id :: data_flow_node_id
  dfn_kind :: data_flow_node_kind
  dfn_language :: language
  dfn_file :: "file_id option"
  dfn_function :: "function_id option"
  dfn_body :: "mir_body_id option"
  dfn_operation :: "mir_op_id option"
  dfn_cfg_node :: "cfg_node_id option"
  dfn_place :: "place_id option"
  dfn_symbol :: "symbol_id option"
  dfn_reference :: "reference_id option"
  dfn_call_site :: "call_site_id option"
  dfn_model :: "data_flow_model_id option"
  dfn_span :: "span option"
  dfn_stable_key :: stable_key_id

record data_flow_edge_fact =
  dfe_id :: data_flow_edge_id
  dfe_from :: data_flow_node_id
  dfe_to :: data_flow_node_id
  dfe_kind :: data_flow_edge_kind
  dfe_algorithm :: data_flow_algorithm
  dfe_status :: data_flow_status
  dfe_precision :: data_flow_precision
  dfe_validation :: data_flow_validation
  dfe_confidence :: data_flow_confidence
  dfe_provenance :: data_flow_provenance
  dfe_call_site :: "call_site_id option"
  dfe_call_target :: "call_target_id option"
  dfe_refined_call :: "refined_call_edge_id option"
  dfe_model :: "data_flow_model_id option"
  dfe_budget :: "data_flow_budget_id option"
  dfe_evidence :: "string list"
  dfe_input_stable_keys :: "string list"
  dfe_stable_key :: stable_key_id

record data_flow_model_fact =
  dfm_id :: data_flow_model_id
  dfm_kind :: data_flow_model_kind
  dfm_language :: language
  dfm_provider_id :: string
  dfm_model_id :: "string option"
  dfm_source_stable_key :: "string option"
  dfm_status :: data_flow_status
  dfm_precision :: data_flow_precision
  dfm_validation :: data_flow_validation
  dfm_confidence :: data_flow_confidence
  dfm_provenance :: data_flow_provenance
  dfm_evidence :: "string list"
  dfm_payload_labels :: "string list"
  dfm_stable_key :: stable_key_id

end
