(* ===== verification/Lattice.thy ===== *)
theory Lattice
  imports Prelude
begin

text \<open>
  The abstract-domain contract of \<open>analysis_neutral/domains/lattice.rs\<close>: the \<open>Changed\<close> flag, the
  reasons an abstract value is top, and the trait \<open>AbstractDomain\<close>. A trait implementation is a
  dictionary of its functions (\<open>'d abstract_domain_ops\<close>); the laws the clients rely on are the
  locales \<open>abstract_domain\<close>, \<open>lub_domain\<close> and \<open>finite_height_domain\<close>, which
  \<open>Core_Domains\<close> interprets on the six domains of the code.
\<close>

datatype changed = Changed_Yes | Changed_No

definition is_yes :: "changed \<Rightarrow> bool" where
  "is_yes c = (case c of Changed_Yes \<Rightarrow> True | Changed_No \<Rightarrow> False)"

definition changed_bitor :: "changed \<Rightarrow> changed \<Rightarrow> changed" where
  "changed_bitor self rhs = (if is_yes self \<or> is_yes rhs then Changed_Yes else Changed_No)"

datatype top_reason =
    UnknownValue
  | UnsupportedSemantic
  | DynamicWrite
  | UnresolvedCall
  | SetupMissing
  | BudgetExceeded
  | Widened
  | ConflictingFacts

fun top_reason_as_str :: "top_reason \<Rightarrow> string" where
  "top_reason_as_str UnknownValue = ''unknown_value''"
| "top_reason_as_str UnsupportedSemantic = ''unsupported_semantic''"
| "top_reason_as_str DynamicWrite = ''dynamic_write''"
| "top_reason_as_str UnresolvedCall = ''unresolved_call''"
| "top_reason_as_str SetupMissing = ''setup_missing''"
| "top_reason_as_str BudgetExceeded = ''budget_exceeded''"
| "top_reason_as_str Widened = ''widened''"
| "top_reason_as_str ConflictingFacts = ''conflicting_facts''"

record widen_site =
  site_stable_key :: stable_key_id

record widen_fuel =
  remaining :: nat

record 'd abstract_domain_ops =
  ad_bottom :: 'd
  ad_top :: "top_reason \<Rightarrow> 'd"
  ad_is_bottom :: "'d \<Rightarrow> bool"
  ad_is_top :: "'d \<Rightarrow> bool"
  ad_leq :: "'d \<Rightarrow> 'd \<Rightarrow> bool"
  ad_join :: "'d \<Rightarrow> 'd \<Rightarrow> 'd"
  ad_widen :: "'d \<Rightarrow> 'd \<Rightarrow> widen_site \<Rightarrow> widen_fuel \<Rightarrow> 'd"
  ad_stable_digest_parts :: "'d \<Rightarrow> string list"

text \<open>The provided methods of the trait.\<close>

definition domain_join_into :: "'d abstract_domain_ops \<Rightarrow> 'd \<Rightarrow> 'd \<Rightarrow> changed \<times> 'd" where
  "domain_join_into D self incoming =
     (let joined = ad_join D self incoming in
      if joined = self then (Changed_No, self) else (Changed_Yes, joined))"

definition default_widen ::
  "('d \<Rightarrow> 'd \<Rightarrow> 'd) \<Rightarrow> 'd \<Rightarrow> 'd \<Rightarrow> widen_site \<Rightarrow> widen_fuel \<Rightarrow> 'd" where
  "default_widen join self next_value site fuel = join self next_value"

definition sorted_digest_parts :: "string list \<Rightarrow> string list" where
  "sorted_digest_parts parts = bt_elems (fset_of_list parts)"

text \<open>What the clients of the trait rely on, as one predicate over a dictionary.\<close>

definition sound_join :: "'d abstract_domain_ops \<Rightarrow> ('d \<Rightarrow> bool) \<Rightarrow> bool" where
  "sound_join D ok \<longleftrightarrow>
     (\<forall>x y. ad_leq D x (ad_join D x y) \<and> ad_leq D y (ad_join D x y)
        \<and> ad_join D x y = ad_join D y x
        \<and> (ok x \<longrightarrow> ad_leq D y x = (ad_join D x y = x)))"

definition least_join :: "'d abstract_domain_ops \<Rightarrow> bool" where
  "least_join D \<longleftrightarrow>
     (\<forall>x y z. (ad_leq D x z \<and> ad_leq D y z) = ad_leq D (ad_join D x y) z)"


section \<open>The changed flag\<close>

lemma is_yes_simps [simp]: "is_yes Changed_Yes" "\<not> is_yes Changed_No"
  by (simp_all add: is_yes_def)

lemma is_yes_eq: "is_yes c \<longleftrightarrow> c = Changed_Yes"
  by (cases c) simp_all

lemma changed_bitor_simps [simp]:
  "changed_bitor Changed_No c = c"
  "changed_bitor c Changed_No = c"
  "changed_bitor Changed_Yes c = Changed_Yes"
  "changed_bitor c Changed_Yes = Changed_Yes"
  by (cases c; simp add: changed_bitor_def)+

lemma changed_bitor_Yes_iff:
  "changed_bitor a b = Changed_Yes \<longleftrightarrow> a = Changed_Yes \<or> b = Changed_Yes"
  by (cases a; cases b) (simp_all add: changed_bitor_def)

lemma changed_neq_Yes [simp]: "c \<noteq> Changed_Yes \<longleftrightarrow> c = Changed_No"
  by (cases c) simp_all

lemma changed_neq_No [simp]: "c \<noteq> Changed_No \<longleftrightarrow> c = Changed_Yes"
  by (cases c) simp_all

lemma top_reason_as_str_inject: "top_reason_as_str a = top_reason_as_str b \<longleftrightarrow> a = b"
  by (cases a; cases b) simp_all


section \<open>The contract of an abstract domain\<close>

text \<open>
  The predicate \<open>wf\<close> carries the size limit of the set-valued domains; it is trivial for the
  finite ones.
\<close>

locale abstract_domain =
  fixes D :: "'d abstract_domain_ops" and wf :: "'d \<Rightarrow> bool"
  assumes leq_refl: "ad_leq D x x"
    and leq_trans: "ad_leq D x y \<Longrightarrow> ad_leq D y z \<Longrightarrow> ad_leq D x z"
    and leq_antisym: "ad_leq D x y \<Longrightarrow> ad_leq D y x \<Longrightarrow> x = y"
    and bottom_least: "ad_leq D (ad_bottom D) x"
    and is_bottom_iff: "ad_is_bottom D x \<longleftrightarrow> x = ad_bottom D"
    and is_top_top: "ad_is_top D (ad_top D r)"
    and top_above: "\<not> ad_is_top D x \<Longrightarrow> ad_leq D x (ad_top D r)"
    and join_upper: "ad_leq D x (ad_join D x y)"
    and join_comm: "ad_join D x y = ad_join D y x"
    and join_bottom: "ad_join D x (ad_bottom D) = x"
    and join_absorb: "wf x \<Longrightarrow> ad_leq D y x \<Longrightarrow> ad_join D x y = x"
    and wf_bottom: "wf (ad_bottom D)"
    and wf_top: "wf (ad_top D r)"
    and wf_join: "wf x \<Longrightarrow> wf y \<Longrightarrow> wf (ad_join D x y)"
begin

lemma join_upper_right: "ad_leq D y (ad_join D x y)"
  using join_upper [of y x] by (simp add: join_comm)

lemma join_bottom_left: "ad_join D (ad_bottom D) x = x"
  using join_bottom [of x] by (simp add: join_comm)

lemma leq_iff_join: "wf x \<Longrightarrow> ad_leq D y x \<longleftrightarrow> ad_join D x y = x"
  using join_absorb join_upper_right by metis

lemma domain_sound_join: "sound_join D wf"
  using join_upper join_upper_right join_comm leq_iff_join unfolding sound_join_def by blast

lemma join_twice: "wf x \<Longrightarrow> wf y \<Longrightarrow> ad_join D (ad_join D x y) y = ad_join D x y"
  by (rule join_absorb) (simp_all add: wf_join join_upper_right)

lemma leq_bottom_iff: "ad_leq D x (ad_bottom D) \<longleftrightarrow> x = ad_bottom D"
  using leq_antisym bottom_least leq_refl by metis

lemma join_bottom_iff: "ad_join D x y = ad_bottom D \<longleftrightarrow> x = ad_bottom D \<and> y = ad_bottom D"
  using join_upper join_upper_right leq_bottom_iff join_bottom by metis

lemma join_into_snd: "snd (domain_join_into D x y) = ad_join D x y"
  by (simp add: domain_join_into_def Let_def)

lemma join_into_No_iff:
  "wf x \<Longrightarrow> fst (domain_join_into D x y) = Changed_No \<longleftrightarrow> ad_leq D y x"
  by (simp add: domain_join_into_def Let_def leq_iff_join)

lemma join_into_Yes_iff: "fst (domain_join_into D x y) = Changed_Yes \<longleftrightarrow> ad_join D x y \<noteq> x"
  by (simp add: domain_join_into_def Let_def)

end

text \<open>Where the join is the least upper bound, it is also associative and monotone.\<close>

locale lub_domain = abstract_domain +
  assumes always_wf: "wf x"
    and join_least: "ad_leq D x z \<Longrightarrow> ad_leq D y z \<Longrightarrow> ad_leq D (ad_join D x y) z"
begin

lemma join_assoc: "ad_join D (ad_join D x y) z = ad_join D x (ad_join D y z)"
proof (rule leq_antisym)
  show "ad_leq D (ad_join D (ad_join D x y) z) (ad_join D x (ad_join D y z))"
    by (meson join_least join_upper join_upper_right leq_trans)
  show "ad_leq D (ad_join D x (ad_join D y z)) (ad_join D (ad_join D x y) z)"
    by (meson join_least join_upper join_upper_right leq_trans)
qed

lemma domain_least_join: "least_join D"
  unfolding least_join_def by (meson join_least join_upper join_upper_right leq_trans)

lemma join_mono:
  "ad_leq D a x \<Longrightarrow> ad_leq D b y \<Longrightarrow> ad_leq D (ad_join D a b) (ad_join D x y)"
  by (meson join_least join_upper join_upper_right leq_trans)

end

text \<open>A bounded height: a value that grows strictly can do so only \<open>H\<close> times.\<close>

locale finite_height_domain = abstract_domain +
  fixes h :: "'a \<Rightarrow> nat" and H :: nat
  assumes h_bottom: "h (ad_bottom D) = 0"
    and h_strict: "wf x \<Longrightarrow> wf y \<Longrightarrow> ad_leq D x y \<Longrightarrow> x \<noteq> y \<Longrightarrow> h x < h y"
    and h_bound: "wf x \<Longrightarrow> h x \<le> H"
begin

lemma h_join_strict: "wf x \<Longrightarrow> wf y \<Longrightarrow> ad_join D x y \<noteq> x \<Longrightarrow> h x < h (ad_join D x y)"
  using h_strict [of x "ad_join D x y"] wf_join [of x y] join_upper [of x y] by auto

lemma h_join_mono: "wf x \<Longrightarrow> wf y \<Longrightarrow> h x \<le> h (ad_join D x y)"
  using h_join_strict [of x y] by (cases "ad_join D x y = x") auto

lemma h_pos: "wf x \<Longrightarrow> x \<noteq> ad_bottom D \<Longrightarrow> 0 < h x"
  using h_strict [of "ad_bottom D" x] wf_bottom bottom_least h_bottom by metis

end

text \<open>
  Two domains of the same shape: the laws move along a surjective renaming that preserves the
  order, the join and the predicates.
\<close>

lemma lub_domain_transport:
  fixes f :: "'a \<Rightarrow> 'b"
  assumes D: "lub_domain D (\<lambda>_. True)" and surj: "surj f"
    and leq: "\<And>x y. ad_leq E (f x) (f y) \<longleftrightarrow> ad_leq D x y"
    and join: "\<And>x y. ad_join E (f x) (f y) = f (ad_join D x y)"
    and bottom: "ad_bottom E = f (ad_bottom D)"
    and top: "\<And>r. ad_top E r = f (ad_top D r)"
    and is_bottom: "\<And>x. ad_is_bottom E (f x) \<longleftrightarrow> ad_is_bottom D x"
    and is_top: "\<And>x. ad_is_top E (f x) \<longleftrightarrow> ad_is_top D x"
  shows "lub_domain E (\<lambda>_. True)"
proof -
  note laws = lub_domain.axioms(1) [OF D]
  note transfer = leq join bottom top is_bottom is_top
  have antisym: "x = y" if "ad_leq D x y" "ad_leq D y x" for x y
    using that by (rule abstract_domain.leq_antisym [OF laws])
  have inj: "x = y" if "f x = f y" for x y
  proof (rule antisym)
    show "ad_leq D x y"
      using leq [of x x] leq [of x y] abstract_domain.leq_refl [OF laws, of x] that by simp
    show "ad_leq D y x"
      using leq [of y y] leq [of y x] abstract_domain.leq_refl [OF laws, of y] that by simp
  qed
  have ex: "\<exists>x. b = f x" for b using surj by (auto simp: surj_def)
  show ?thesis
  proof
    fix a b c r
    obtain x where a: "a = f x" using ex by blast
    obtain y where b: "b = f y" using ex by blast
    obtain z where c: "c = f z" using ex by blast
    note xyz = a b c
    show "ad_leq E a a"
      by (simp add: xyz transfer abstract_domain.leq_refl [OF laws])
    show "ad_leq E a b \<Longrightarrow> ad_leq E b c \<Longrightarrow> ad_leq E a c"
      using abstract_domain.leq_trans [OF laws, of x y z] by (simp add: xyz transfer)
    show "ad_leq E a b \<Longrightarrow> ad_leq E b a \<Longrightarrow> a = b"
      using antisym [of x y] by (simp add: xyz transfer)
    show "ad_leq E (ad_bottom E) a"
      by (simp add: xyz transfer abstract_domain.bottom_least [OF laws])
    show "ad_is_bottom E a \<longleftrightarrow> a = ad_bottom E"
      using inj by (auto simp: xyz transfer abstract_domain.is_bottom_iff [OF laws])
    show "ad_is_top E (ad_top E r)"
      by (simp add: transfer abstract_domain.is_top_top [OF laws])
    show "\<not> ad_is_top E a \<Longrightarrow> ad_leq E a (ad_top E r)"
      by (simp add: xyz transfer abstract_domain.top_above [OF laws])
    show "ad_leq E a (ad_join E a b)"
      by (simp add: xyz transfer abstract_domain.join_upper [OF laws])
    show "ad_join E a b = ad_join E b a"
      using abstract_domain.join_comm [OF laws, of x y] by (simp add: xyz transfer)
    show "ad_join E a (ad_bottom E) = a"
      by (simp add: xyz transfer abstract_domain.join_bottom [OF laws])
    show "ad_leq E b a \<Longrightarrow> ad_join E a b = a"
      by (simp add: xyz transfer abstract_domain.join_absorb [OF laws])
    show "ad_leq E a c \<Longrightarrow> ad_leq E b c \<Longrightarrow> ad_leq E (ad_join E a b) c"
      by (simp add: xyz transfer lub_domain.join_least [OF D])
  qed simp_all
qed

end
