(* ===== verification/Core_Domains.thy ===== *)
theory Core_Domains
  imports Lattice
begin

text \<open>
  The six core domains of \<open>analysis_neutral/domains/core.rs\<close> (reachability, nilness, truthiness,
  constants, strings, initializedness) with their orders, joins, widenings and digest parts, and
  the proof that each of them meets the contract of \<open>Lattice\<close>: the four finite domains are
  join semilattices, the two capped literal domains are not (their join can exceed the literal
  cap) but still bound both arguments from above.
\<close>

definition LITERAL_SET_CAP :: nat where
  "LITERAL_SET_CAP = 4"

datatype reachability_domain = Unreachable | Reachable | Ambiguous | ReachTop top_reason

datatype nilness_domain = NilBottom | IsNil | NonNil | MaybeNil | NilTop top_reason

datatype truthiness_domain = TruthBottom | Truthy | Falsy | TruthMaybe | TruthTop top_reason

datatype constant_literal =
    LBool bool
  | LNull
  | LUndefined
  | LNil
  | LString string
  | LNumber string
  | LUnknown string

datatype constant_domain =
  ConstBottom | ConstValues "constant_literal fset" | ConstTop top_reason

datatype string_domain = StrBottom | StrValues "string fset" | StrTop top_reason

datatype initializedness_domain =
  InitBottom | Initialized | Uninitialized | MaybeUninitialized | InitTop top_reason

text \<open>
  The derived order of \<open>ConstantLiteral\<close>: the variants in their order, then their payload.
\<close>

fun literal_key :: "constant_literal \<Rightarrow> nat \<times> string" where
  "literal_key (LBool b) = (0, if b then ''1'' else ''0'')"
| "literal_key LNull = (1, [])"
| "literal_key LUndefined = (2, [])"
| "literal_key LNil = (3, [])"
| "literal_key (LString v) = (4, v)"
| "literal_key (LNumber v) = (5, v)"
| "literal_key (LUnknown v) = (6, v)"

lemma literal_key_inject: "literal_key a = literal_key b \<longleftrightarrow> a = b"
  by (cases a; cases b) auto

instantiation constant_literal :: linorder
begin

definition less_eq_constant_literal :: "constant_literal \<Rightarrow> constant_literal \<Rightarrow> bool" where
  "less_eq_constant_literal a b = (literal_key a \<le> literal_key b)"

definition less_constant_literal :: "constant_literal \<Rightarrow> constant_literal \<Rightarrow> bool" where
  "less_constant_literal a b = (literal_key a < literal_key b)"

instance
proof
  fix x y z :: constant_literal
  show "x < y \<longleftrightarrow> x \<le> y \<and> \<not> y \<le> x"
    unfolding less_constant_literal_def less_eq_constant_literal_def by (rule less_le_not_le)
  show "x \<le> x"
    by (simp add: less_eq_constant_literal_def)
  show "x \<le> y \<Longrightarrow> y \<le> z \<Longrightarrow> x \<le> z"
    unfolding less_eq_constant_literal_def by (rule order_trans)
  show "x \<le> y \<Longrightarrow> y \<le> x \<Longrightarrow> x = y"
    using literal_key_inject by (auto simp: less_eq_constant_literal_def)
  show "x \<le> y \<or> y \<le> x"
    unfolding less_eq_constant_literal_def by (rule linear)
qed

end


section \<open>Top reasons and shared helpers\<close>

definition join_top_reasons :: "top_reason \<Rightarrow> top_reason \<Rightarrow> top_reason" where
  "join_top_reasons left right = (if left = right then left else ConflictingFacts)"

definition top_reason_leq :: "top_reason \<Rightarrow> top_reason \<Rightarrow> bool" where
  "top_reason_leq left right \<longleftrightarrow> left = right \<or> right = ConflictingFacts"

definition top_digest_part :: "string \<Rightarrow> top_reason \<Rightarrow> string" where
  "top_digest_part domain reason = domain @ ''=top:'' @ top_reason_as_str reason"

definition join_chain :: "'t \<Rightarrow> 't \<Rightarrow> 't list \<Rightarrow> 't" where
  "join_chain left right order =
     (if left = right then left
      else case find (\<lambda>candidate. candidate = left \<or> candidate = right) (rev order) of
             Some c \<Rightarrow> c
           | None \<Rightarrow> right)"


section \<open>Reachability\<close>

fun reachability_is_top :: "reachability_domain \<Rightarrow> bool" where
  "reachability_is_top (ReachTop _) = True"
| "reachability_is_top _ = False"

definition reachability_is_bottom :: "reachability_domain \<Rightarrow> bool" where
  "reachability_is_bottom x \<longleftrightarrow> x = Unreachable"

definition reachability_leq :: "reachability_domain \<Rightarrow> reachability_domain \<Rightarrow> bool" where
  "reachability_leq self other =
     (if self = other then True
      else case (self, other) of
        (ReachTop left, ReachTop right) \<Rightarrow> top_reason_leq left right
      | (Unreachable, _) \<Rightarrow> True
      | (_, ReachTop _) \<Rightarrow> \<not> reachability_is_top self
      | (Reachable, Ambiguous) \<Rightarrow> True
      | _ \<Rightarrow> False)"

definition reachability_join ::
  "reachability_domain \<Rightarrow> reachability_domain \<Rightarrow> reachability_domain" where
  "reachability_join self other =
     (if self = other then self
      else case (self, other) of
        (ReachTop left, ReachTop right) \<Rightarrow> ReachTop (join_top_reasons left right)
      | (ReachTop reason, _) \<Rightarrow> ReachTop reason
      | (_, ReachTop reason) \<Rightarrow> ReachTop reason
      | _ \<Rightarrow> join_chain self other [Unreachable, Reachable, Ambiguous])"

fun reachability_digest_parts :: "reachability_domain \<Rightarrow> string list" where
  "reachability_digest_parts Unreachable = [''reachability=unreachable'']"
| "reachability_digest_parts Reachable = [''reachability=reachable'']"
| "reachability_digest_parts Ambiguous = [''reachability=ambiguous'']"
| "reachability_digest_parts (ReachTop reason) = [top_digest_part ''reachability'' reason]"

definition reachability_ops :: "reachability_domain abstract_domain_ops" where
  "reachability_ops =
     \<lparr> ad_bottom = Unreachable, ad_top = ReachTop, ad_is_bottom = reachability_is_bottom,
       ad_is_top = reachability_is_top, ad_leq = reachability_leq, ad_join = reachability_join,
       ad_widen = default_widen reachability_join,
       ad_stable_digest_parts = reachability_digest_parts \<rparr>"


section \<open>Nilness\<close>

fun nilness_is_top :: "nilness_domain \<Rightarrow> bool" where
  "nilness_is_top (NilTop _) = True"
| "nilness_is_top _ = False"

definition nilness_is_bottom :: "nilness_domain \<Rightarrow> bool" where
  "nilness_is_bottom x \<longleftrightarrow> x = NilBottom"

definition nilness_leq :: "nilness_domain \<Rightarrow> nilness_domain \<Rightarrow> bool" where
  "nilness_leq self other =
     (if self = other then True
      else case (self, other) of
        (NilTop left, NilTop right) \<Rightarrow> top_reason_leq left right
      | (NilBottom, _) \<Rightarrow> True
      | (_, NilTop _) \<Rightarrow> \<not> nilness_is_top self
      | (IsNil, MaybeNil) \<Rightarrow> True
      | (NonNil, MaybeNil) \<Rightarrow> True
      | _ \<Rightarrow> False)"

definition nilness_join :: "nilness_domain \<Rightarrow> nilness_domain \<Rightarrow> nilness_domain" where
  "nilness_join self other =
     (if self = other then self
      else case (self, other) of
        (IsNil, IsNil) \<Rightarrow> IsNil
      | (NonNil, NonNil) \<Rightarrow> NonNil
      | (NilTop left, NilTop right) \<Rightarrow> NilTop (join_top_reasons left right)
      | (NilTop reason, _) \<Rightarrow> NilTop reason
      | (_, NilTop reason) \<Rightarrow> NilTop reason
      | (NilBottom, v) \<Rightarrow> v
      | (v, NilBottom) \<Rightarrow> v
      | (IsNil, NonNil) \<Rightarrow> MaybeNil
      | (NonNil, IsNil) \<Rightarrow> MaybeNil
      | (MaybeNil, _) \<Rightarrow> MaybeNil
      | (_, MaybeNil) \<Rightarrow> MaybeNil)"

fun nilness_digest_parts :: "nilness_domain \<Rightarrow> string list" where
  "nilness_digest_parts NilBottom = [''nilness=bottom'']"
| "nilness_digest_parts IsNil = [''nilness=nil'']"
| "nilness_digest_parts NonNil = [''nilness=non_nil'']"
| "nilness_digest_parts MaybeNil = [''nilness=maybe_nil'']"
| "nilness_digest_parts (NilTop reason) = [top_digest_part ''nilness'' reason]"

definition nilness_ops :: "nilness_domain abstract_domain_ops" where
  "nilness_ops =
     \<lparr> ad_bottom = NilBottom, ad_top = NilTop, ad_is_bottom = nilness_is_bottom,
       ad_is_top = nilness_is_top, ad_leq = nilness_leq, ad_join = nilness_join,
       ad_widen = default_widen nilness_join,
       ad_stable_digest_parts = nilness_digest_parts \<rparr>"


section \<open>Truthiness\<close>

fun truthiness_is_top :: "truthiness_domain \<Rightarrow> bool" where
  "truthiness_is_top (TruthTop _) = True"
| "truthiness_is_top _ = False"

definition truthiness_is_bottom :: "truthiness_domain \<Rightarrow> bool" where
  "truthiness_is_bottom x \<longleftrightarrow> x = TruthBottom"

definition truthiness_leq :: "truthiness_domain \<Rightarrow> truthiness_domain \<Rightarrow> bool" where
  "truthiness_leq self other =
     (if self = other then True
      else case (self, other) of
        (TruthTop left, TruthTop right) \<Rightarrow> top_reason_leq left right
      | (TruthBottom, _) \<Rightarrow> True
      | (_, TruthTop _) \<Rightarrow> \<not> truthiness_is_top self
      | (Truthy, TruthMaybe) \<Rightarrow> True
      | (Falsy, TruthMaybe) \<Rightarrow> True
      | _ \<Rightarrow> False)"

definition truthiness_join :: "truthiness_domain \<Rightarrow> truthiness_domain \<Rightarrow> truthiness_domain" where
  "truthiness_join self other =
     (if self = other then self
      else case (self, other) of
        (Truthy, Truthy) \<Rightarrow> Truthy
      | (Falsy, Falsy) \<Rightarrow> Falsy
      | (TruthTop left, TruthTop right) \<Rightarrow> TruthTop (join_top_reasons left right)
      | (TruthTop reason, _) \<Rightarrow> TruthTop reason
      | (_, TruthTop reason) \<Rightarrow> TruthTop reason
      | (TruthBottom, v) \<Rightarrow> v
      | (v, TruthBottom) \<Rightarrow> v
      | (Truthy, Falsy) \<Rightarrow> TruthMaybe
      | (Falsy, Truthy) \<Rightarrow> TruthMaybe
      | (TruthMaybe, _) \<Rightarrow> TruthMaybe
      | (_, TruthMaybe) \<Rightarrow> TruthMaybe)"

fun truthiness_digest_parts :: "truthiness_domain \<Rightarrow> string list" where
  "truthiness_digest_parts TruthBottom = [''truthiness=bottom'']"
| "truthiness_digest_parts Truthy = [''truthiness=truthy'']"
| "truthiness_digest_parts Falsy = [''truthiness=falsy'']"
| "truthiness_digest_parts TruthMaybe = [''truthiness=maybe'']"
| "truthiness_digest_parts (TruthTop reason) = [top_digest_part ''truthiness'' reason]"

definition truthiness_ops :: "truthiness_domain abstract_domain_ops" where
  "truthiness_ops =
     \<lparr> ad_bottom = TruthBottom, ad_top = TruthTop, ad_is_bottom = truthiness_is_bottom,
       ad_is_top = truthiness_is_top, ad_leq = truthiness_leq, ad_join = truthiness_join,
       ad_widen = default_widen truthiness_join,
       ad_stable_digest_parts = truthiness_digest_parts \<rparr>"


section \<open>Constants\<close>

definition constant_from_literal :: "constant_literal \<Rightarrow> constant_domain" where
  "constant_from_literal literal = ConstValues {|literal|}"

definition constant_from_literals :: "constant_literal list \<Rightarrow> constant_domain" where
  "constant_from_literals literals =
     (let values = fset_of_list literals in
      if LITERAL_SET_CAP < fcard values then ConstTop BudgetExceeded else ConstValues values)"

definition capped_constant_union ::
  "constant_literal fset \<Rightarrow> constant_literal fset \<Rightarrow> constant_domain" where
  "capped_constant_union left right =
     (let values = left |\<union>| right in
      if LITERAL_SET_CAP < fcard values then ConstTop BudgetExceeded else ConstValues values)"

fun constant_literal_count :: "constant_domain \<Rightarrow> nat" where
  "constant_literal_count (ConstValues values) = fcard values"
| "constant_literal_count ConstBottom = 0"
| "constant_literal_count (ConstTop _) = 0"

fun constant_is_top :: "constant_domain \<Rightarrow> bool" where
  "constant_is_top (ConstTop _) = True"
| "constant_is_top _ = False"

definition constant_is_bottom :: "constant_domain \<Rightarrow> bool" where
  "constant_is_bottom x \<longleftrightarrow> x = ConstBottom"

definition constant_leq :: "constant_domain \<Rightarrow> constant_domain \<Rightarrow> bool" where
  "constant_leq self other =
     (if self = other then True
      else case (self, other) of
        (ConstTop left, ConstTop right) \<Rightarrow> top_reason_leq left right
      | (ConstBottom, _) \<Rightarrow> True
      | (_, ConstTop _) \<Rightarrow> \<not> constant_is_top self
      | (ConstValues left, ConstValues right) \<Rightarrow> left |\<subseteq>| right
      | _ \<Rightarrow> False)"

definition constant_join :: "constant_domain \<Rightarrow> constant_domain \<Rightarrow> constant_domain" where
  "constant_join self other =
     (if self = other then self
      else case (self, other) of
        (ConstTop left, ConstTop right) \<Rightarrow> ConstTop (join_top_reasons left right)
      | (ConstTop reason, _) \<Rightarrow> ConstTop reason
      | (_, ConstTop reason) \<Rightarrow> ConstTop reason
      | (ConstBottom, v) \<Rightarrow> v
      | (v, ConstBottom) \<Rightarrow> v
      | (ConstValues left, ConstValues right) \<Rightarrow> capped_constant_union left right)"

definition constant_widen ::
  "constant_domain \<Rightarrow> constant_domain \<Rightarrow> widen_site \<Rightarrow> widen_fuel \<Rightarrow> constant_domain" where
  "constant_widen self next_value site fuel =
     (if LITERAL_SET_CAP < constant_literal_count next_value
         \<or> (remaining fuel = 0 \<and> self \<noteq> next_value)
      then ConstTop Widened else constant_join self next_value)"

fun literal_digest_part :: "constant_literal \<Rightarrow> string" where
  "literal_digest_part (LBool v) = ''constant:bool:'' @ (if v then ''true'' else ''false'')"
| "literal_digest_part LNull = ''constant:null''"
| "literal_digest_part LUndefined = ''constant:undefined''"
| "literal_digest_part LNil = ''constant:nil''"
| "literal_digest_part (LString v) = ''constant:string:'' @ v"
| "literal_digest_part (LNumber v) = ''constant:number:'' @ v"
| "literal_digest_part (LUnknown v) = ''constant:unknown:'' @ v"

fun constant_digest_parts :: "constant_domain \<Rightarrow> string list" where
  "constant_digest_parts ConstBottom = [''kind=bottom'']"
| "constant_digest_parts (ConstValues values) =
     sorted_digest_parts (''kind=values'' # map literal_digest_part (bt_elems values))"
| "constant_digest_parts (ConstTop reason) = [top_digest_part ''constants'' reason]"

definition constant_ops :: "constant_domain abstract_domain_ops" where
  "constant_ops =
     \<lparr> ad_bottom = ConstBottom, ad_top = ConstTop, ad_is_bottom = constant_is_bottom,
       ad_is_top = constant_is_top, ad_leq = constant_leq, ad_join = constant_join,
       ad_widen = constant_widen,
       ad_stable_digest_parts = constant_digest_parts \<rparr>"


section \<open>Strings\<close>

definition string_from_literal :: "string \<Rightarrow> string_domain" where
  "string_from_literal literal = StrValues {|literal|}"

definition string_from_literals :: "string list \<Rightarrow> string_domain" where
  "string_from_literals literals =
     (let values = fset_of_list literals in
      if LITERAL_SET_CAP < fcard values then StrTop BudgetExceeded else StrValues values)"

definition capped_string_union :: "string fset \<Rightarrow> string fset \<Rightarrow> string_domain" where
  "capped_string_union left right =
     (let values = left |\<union>| right in
      if LITERAL_SET_CAP < fcard values then StrTop BudgetExceeded else StrValues values)"

fun string_literal_count :: "string_domain \<Rightarrow> nat" where
  "string_literal_count (StrValues values) = fcard values"
| "string_literal_count StrBottom = 0"
| "string_literal_count (StrTop _) = 0"

fun string_is_top :: "string_domain \<Rightarrow> bool" where
  "string_is_top (StrTop _) = True"
| "string_is_top _ = False"

definition string_is_bottom :: "string_domain \<Rightarrow> bool" where
  "string_is_bottom x \<longleftrightarrow> x = StrBottom"

definition string_leq :: "string_domain \<Rightarrow> string_domain \<Rightarrow> bool" where
  "string_leq self other =
     (if self = other then True
      else case (self, other) of
        (StrTop left, StrTop right) \<Rightarrow> top_reason_leq left right
      | (StrBottom, _) \<Rightarrow> True
      | (_, StrTop _) \<Rightarrow> \<not> string_is_top self
      | (StrValues left, StrValues right) \<Rightarrow> left |\<subseteq>| right
      | _ \<Rightarrow> False)"

definition string_join :: "string_domain \<Rightarrow> string_domain \<Rightarrow> string_domain" where
  "string_join self other =
     (if self = other then self
      else case (self, other) of
        (StrTop left, StrTop right) \<Rightarrow> StrTop (join_top_reasons left right)
      | (StrTop reason, _) \<Rightarrow> StrTop reason
      | (_, StrTop reason) \<Rightarrow> StrTop reason
      | (StrBottom, v) \<Rightarrow> v
      | (v, StrBottom) \<Rightarrow> v
      | (StrValues left, StrValues right) \<Rightarrow> capped_string_union left right)"

definition string_widen ::
  "string_domain \<Rightarrow> string_domain \<Rightarrow> widen_site \<Rightarrow> widen_fuel \<Rightarrow> string_domain" where
  "string_widen self next_value site fuel =
     (if LITERAL_SET_CAP < string_literal_count next_value
         \<or> (remaining fuel = 0 \<and> self \<noteq> next_value)
      then StrTop Widened else string_join self next_value)"

fun string_digest_parts :: "string_domain \<Rightarrow> string list" where
  "string_digest_parts StrBottom = [''kind=bottom'']"
| "string_digest_parts (StrValues values) =
     sorted_digest_parts (''kind=values'' # map (\<lambda>v. ''string:'' @ v) (bt_elems values))"
| "string_digest_parts (StrTop reason) = [top_digest_part ''strings'' reason]"

definition string_ops :: "string_domain abstract_domain_ops" where
  "string_ops =
     \<lparr> ad_bottom = StrBottom, ad_top = StrTop, ad_is_bottom = string_is_bottom,
       ad_is_top = string_is_top, ad_leq = string_leq, ad_join = string_join,
       ad_widen = string_widen,
       ad_stable_digest_parts = string_digest_parts \<rparr>"


section \<open>Initializedness\<close>

fun initializedness_is_top :: "initializedness_domain \<Rightarrow> bool" where
  "initializedness_is_top (InitTop _) = True"
| "initializedness_is_top _ = False"

definition initializedness_is_bottom :: "initializedness_domain \<Rightarrow> bool" where
  "initializedness_is_bottom x \<longleftrightarrow> x = InitBottom"

definition initializedness_leq ::
  "initializedness_domain \<Rightarrow> initializedness_domain \<Rightarrow> bool" where
  "initializedness_leq self other =
     (if self = other then True
      else case (self, other) of
        (InitTop left, InitTop right) \<Rightarrow> top_reason_leq left right
      | (InitBottom, _) \<Rightarrow> True
      | (_, InitTop _) \<Rightarrow> \<not> initializedness_is_top self
      | (Initialized, MaybeUninitialized) \<Rightarrow> True
      | (Uninitialized, MaybeUninitialized) \<Rightarrow> True
      | _ \<Rightarrow> False)"

definition initializedness_join ::
  "initializedness_domain \<Rightarrow> initializedness_domain \<Rightarrow> initializedness_domain" where
  "initializedness_join self other =
     (if self = other then self
      else case (self, other) of
        (Initialized, Initialized) \<Rightarrow> Initialized
      | (Uninitialized, Uninitialized) \<Rightarrow> Uninitialized
      | (InitTop left, InitTop right) \<Rightarrow> InitTop (join_top_reasons left right)
      | (InitTop reason, _) \<Rightarrow> InitTop reason
      | (_, InitTop reason) \<Rightarrow> InitTop reason
      | (InitBottom, v) \<Rightarrow> v
      | (v, InitBottom) \<Rightarrow> v
      | (Initialized, Uninitialized) \<Rightarrow> MaybeUninitialized
      | (Uninitialized, Initialized) \<Rightarrow> MaybeUninitialized
      | (MaybeUninitialized, _) \<Rightarrow> MaybeUninitialized
      | (_, MaybeUninitialized) \<Rightarrow> MaybeUninitialized)"

fun initializedness_digest_parts :: "initializedness_domain \<Rightarrow> string list" where
  "initializedness_digest_parts InitBottom = [''initializedness=bottom'']"
| "initializedness_digest_parts Initialized = [''initializedness=initialized'']"
| "initializedness_digest_parts Uninitialized = [''initializedness=uninitialized'']"
| "initializedness_digest_parts MaybeUninitialized = [''initializedness=maybe_uninitialized'']"
| "initializedness_digest_parts (InitTop reason) = [top_digest_part ''initializedness'' reason]"

definition initializedness_ops :: "initializedness_domain abstract_domain_ops" where
  "initializedness_ops =
     \<lparr> ad_bottom = InitBottom, ad_top = InitTop, ad_is_bottom = initializedness_is_bottom,
       ad_is_top = initializedness_is_top, ad_leq = initializedness_leq,
       ad_join = initializedness_join, ad_widen = default_widen initializedness_join,
       ad_stable_digest_parts = initializedness_digest_parts \<rparr>"


section \<open>The dictionaries select the domain functions\<close>

lemma reachability_ops_simps [simp, trait_simps]:
  "ad_bottom reachability_ops = Unreachable" "ad_top reachability_ops = ReachTop"
  "ad_is_bottom reachability_ops = reachability_is_bottom"
  "ad_is_top reachability_ops = reachability_is_top"
  "ad_leq reachability_ops = reachability_leq" "ad_join reachability_ops = reachability_join"
  "ad_widen reachability_ops = default_widen reachability_join"
  "ad_stable_digest_parts reachability_ops = reachability_digest_parts"
  by (simp_all add: reachability_ops_def)

lemma nilness_ops_simps [simp, trait_simps]:
  "ad_bottom nilness_ops = NilBottom" "ad_top nilness_ops = NilTop"
  "ad_is_bottom nilness_ops = nilness_is_bottom" "ad_is_top nilness_ops = nilness_is_top"
  "ad_leq nilness_ops = nilness_leq" "ad_join nilness_ops = nilness_join"
  "ad_widen nilness_ops = default_widen nilness_join"
  "ad_stable_digest_parts nilness_ops = nilness_digest_parts"
  by (simp_all add: nilness_ops_def)

lemma truthiness_ops_simps [simp, trait_simps]:
  "ad_bottom truthiness_ops = TruthBottom" "ad_top truthiness_ops = TruthTop"
  "ad_is_bottom truthiness_ops = truthiness_is_bottom"
  "ad_is_top truthiness_ops = truthiness_is_top"
  "ad_leq truthiness_ops = truthiness_leq" "ad_join truthiness_ops = truthiness_join"
  "ad_widen truthiness_ops = default_widen truthiness_join"
  "ad_stable_digest_parts truthiness_ops = truthiness_digest_parts"
  by (simp_all add: truthiness_ops_def)

lemma constant_ops_simps [simp, trait_simps]:
  "ad_bottom constant_ops = ConstBottom" "ad_top constant_ops = ConstTop"
  "ad_is_bottom constant_ops = constant_is_bottom" "ad_is_top constant_ops = constant_is_top"
  "ad_leq constant_ops = constant_leq" "ad_join constant_ops = constant_join"
  "ad_widen constant_ops = constant_widen"
  "ad_stable_digest_parts constant_ops = constant_digest_parts"
  by (simp_all add: constant_ops_def)

lemma string_ops_simps [simp, trait_simps]:
  "ad_bottom string_ops = StrBottom" "ad_top string_ops = StrTop"
  "ad_is_bottom string_ops = string_is_bottom" "ad_is_top string_ops = string_is_top"
  "ad_leq string_ops = string_leq" "ad_join string_ops = string_join"
  "ad_widen string_ops = string_widen"
  "ad_stable_digest_parts string_ops = string_digest_parts"
  by (simp_all add: string_ops_def)

lemma initializedness_ops_simps [simp, trait_simps]:
  "ad_bottom initializedness_ops = InitBottom" "ad_top initializedness_ops = InitTop"
  "ad_is_bottom initializedness_ops = initializedness_is_bottom"
  "ad_is_top initializedness_ops = initializedness_is_top"
  "ad_leq initializedness_ops = initializedness_leq"
  "ad_join initializedness_ops = initializedness_join"
  "ad_widen initializedness_ops = default_widen initializedness_join"
  "ad_stable_digest_parts initializedness_ops = initializedness_digest_parts"
  by (simp_all add: initializedness_ops_def)


section \<open>The contract holds for the four finite domains\<close>

lemmas top_reason_defs = join_top_reasons_def top_reason_leq_def

text \<open>The height of a top value: conflicting reasons are above every single reason.\<close>

definition top_height :: "top_reason \<Rightarrow> nat" where
  "top_height r = (if r = ConflictingFacts then 1 else 0)"

fun reachability_height :: "reachability_domain \<Rightarrow> nat" where
  "reachability_height Unreachable = 0"
| "reachability_height Reachable = 1"
| "reachability_height Ambiguous = 2"
| "reachability_height (ReachTop r) = 3 + top_height r"

fun nilness_height :: "nilness_domain \<Rightarrow> nat" where
  "nilness_height NilBottom = 0"
| "nilness_height IsNil = 1"
| "nilness_height NonNil = 1"
| "nilness_height MaybeNil = 2"
| "nilness_height (NilTop r) = 3 + top_height r"

fun truthiness_height :: "truthiness_domain \<Rightarrow> nat" where
  "truthiness_height TruthBottom = 0"
| "truthiness_height Truthy = 1"
| "truthiness_height Falsy = 1"
| "truthiness_height TruthMaybe = 2"
| "truthiness_height (TruthTop r) = 3 + top_height r"

fun initializedness_height :: "initializedness_domain \<Rightarrow> nat" where
  "initializedness_height InitBottom = 0"
| "initializedness_height Initialized = 1"
| "initializedness_height Uninitialized = 1"
| "initializedness_height MaybeUninitialized = 2"
| "initializedness_height (InitTop r) = 3 + top_height r"

lemmas reachability_defs =
  reachability_leq_def reachability_join_def reachability_is_bottom_def join_chain_def
  top_reason_defs

lemmas nilness_defs = nilness_leq_def nilness_join_def nilness_is_bottom_def top_reason_defs

lemmas truthiness_defs =
  truthiness_leq_def truthiness_join_def truthiness_is_bottom_def top_reason_defs

lemmas initializedness_defs =
  initializedness_leq_def initializedness_join_def initializedness_is_bottom_def top_reason_defs

interpretation reachability: lub_domain reachability_ops "\<lambda>_. True"
proof
  fix x y z r
  show "ad_leq reachability_ops x x" by (simp add: reachability_defs)
  show "ad_leq reachability_ops x y \<Longrightarrow> ad_leq reachability_ops y z \<Longrightarrow> ad_leq reachability_ops x z"
    by (cases x; cases y; cases z) (auto simp: reachability_defs split: if_splits)
  show "ad_leq reachability_ops x y \<Longrightarrow> ad_leq reachability_ops y x \<Longrightarrow> x = y"
    by (cases x; cases y) (auto simp: reachability_defs split: if_splits)
  show "ad_leq reachability_ops (ad_bottom reachability_ops) x"
    by (cases x) (simp_all add: reachability_defs)
  show "ad_is_bottom reachability_ops x \<longleftrightarrow> x = ad_bottom reachability_ops"
    by (simp add: reachability_defs)
  show "ad_is_top reachability_ops (ad_top reachability_ops r)" by simp
  show "\<not> ad_is_top reachability_ops x \<Longrightarrow> ad_leq reachability_ops x (ad_top reachability_ops r)"
    by (cases x) (simp_all add: reachability_defs)
  show "ad_leq reachability_ops x (ad_join reachability_ops x y)"
    by (cases x; cases y) (auto simp: reachability_defs)
  show "ad_join reachability_ops x y = ad_join reachability_ops y x"
    by (cases x; cases y) (auto simp: reachability_defs)
  show "ad_join reachability_ops x (ad_bottom reachability_ops) = x"
    by (cases x) (auto simp: reachability_defs)
  show "ad_leq reachability_ops y x \<Longrightarrow> ad_join reachability_ops x y = x"
    by (cases x; cases y) (auto simp: reachability_defs split: if_splits)
  show "ad_leq reachability_ops x z \<Longrightarrow> ad_leq reachability_ops y z \<Longrightarrow>
      ad_leq reachability_ops (ad_join reachability_ops x y) z"
    by (cases x; cases y; cases z) (auto simp: reachability_defs split: if_splits)
qed simp_all


interpretation nilness: lub_domain nilness_ops "\<lambda>_. True"
proof
  fix x y z r
  show "ad_leq nilness_ops x x" by (simp add: nilness_defs)
  show "ad_leq nilness_ops x y \<Longrightarrow> ad_leq nilness_ops y z \<Longrightarrow> ad_leq nilness_ops x z"
    by (cases x; cases y; cases z) (auto simp: nilness_defs split: if_splits)
  show "ad_leq nilness_ops x y \<Longrightarrow> ad_leq nilness_ops y x \<Longrightarrow> x = y"
    by (cases x; cases y) (auto simp: nilness_defs split: if_splits)
  show "ad_leq nilness_ops (ad_bottom nilness_ops) x"
    by (cases x) (simp_all add: nilness_defs)
  show "ad_is_bottom nilness_ops x \<longleftrightarrow> x = ad_bottom nilness_ops"
    by (simp add: nilness_defs)
  show "ad_is_top nilness_ops (ad_top nilness_ops r)" by simp
  show "\<not> ad_is_top nilness_ops x \<Longrightarrow> ad_leq nilness_ops x (ad_top nilness_ops r)"
    by (cases x) (simp_all add: nilness_defs)
  show "ad_leq nilness_ops x (ad_join nilness_ops x y)"
    by (cases x; cases y) (auto simp: nilness_defs)
  show "ad_join nilness_ops x y = ad_join nilness_ops y x"
    by (cases x; cases y) (auto simp: nilness_defs)
  show "ad_join nilness_ops x (ad_bottom nilness_ops) = x"
    by (cases x) (auto simp: nilness_defs)
  show "ad_leq nilness_ops y x \<Longrightarrow> ad_join nilness_ops x y = x"
    by (cases x; cases y) (auto simp: nilness_defs split: if_splits)
  show "ad_leq nilness_ops x z \<Longrightarrow> ad_leq nilness_ops y z \<Longrightarrow>
      ad_leq nilness_ops (ad_join nilness_ops x y) z"
    by (cases x; cases y; cases z) (auto simp: nilness_defs split: if_splits)
qed simp_all

text \<open>
  Truthiness and initializedness have the shape of nilness: two incomparable facts under one
  undecided value.
\<close>

fun truthiness_of_nilness :: "nilness_domain \<Rightarrow> truthiness_domain" where
  "truthiness_of_nilness NilBottom = TruthBottom"
| "truthiness_of_nilness IsNil = Falsy"
| "truthiness_of_nilness NonNil = Truthy"
| "truthiness_of_nilness MaybeNil = TruthMaybe"
| "truthiness_of_nilness (NilTop r) = TruthTop r"

fun initializedness_of_nilness :: "nilness_domain \<Rightarrow> initializedness_domain" where
  "initializedness_of_nilness NilBottom = InitBottom"
| "initializedness_of_nilness IsNil = Uninitialized"
| "initializedness_of_nilness NonNil = Initialized"
| "initializedness_of_nilness MaybeNil = MaybeUninitialized"
| "initializedness_of_nilness (NilTop r) = InitTop r"

lemma surj_truthiness_of_nilness: "surj truthiness_of_nilness"
proof (rule surjI)
  fix t
  show "truthiness_of_nilness (case t of TruthBottom \<Rightarrow> NilBottom | Falsy \<Rightarrow> IsNil
      | Truthy \<Rightarrow> NonNil | TruthMaybe \<Rightarrow> MaybeNil | TruthTop r \<Rightarrow> NilTop r) = t"
    by (cases t) simp_all
qed

lemma surj_initializedness_of_nilness: "surj initializedness_of_nilness"
proof (rule surjI)
  fix t
  show "initializedness_of_nilness (case t of InitBottom \<Rightarrow> NilBottom | Uninitialized \<Rightarrow> IsNil
      | Initialized \<Rightarrow> NonNil | MaybeUninitialized \<Rightarrow> MaybeNil | InitTop r \<Rightarrow> NilTop r) = t"
    by (cases t) simp_all
qed

interpretation truthiness: lub_domain truthiness_ops "\<lambda>_. True"
proof (rule lub_domain_transport [OF nilness.lub_domain_axioms surj_truthiness_of_nilness])
  fix x y r
  show "ad_leq truthiness_ops (truthiness_of_nilness x) (truthiness_of_nilness y) \<longleftrightarrow>
      ad_leq nilness_ops x y"
    by (cases x; cases y) (simp_all add: nilness_defs truthiness_defs)
  show "ad_join truthiness_ops (truthiness_of_nilness x) (truthiness_of_nilness y) =
      truthiness_of_nilness (ad_join nilness_ops x y)"
    by (cases x; cases y) (simp_all add: nilness_defs truthiness_defs)
  show "ad_is_bottom truthiness_ops (truthiness_of_nilness x) \<longleftrightarrow> ad_is_bottom nilness_ops x"
    by (cases x) (simp_all add: nilness_defs truthiness_defs)
  show "ad_is_top truthiness_ops (truthiness_of_nilness x) \<longleftrightarrow> ad_is_top nilness_ops x"
    by (cases x) simp_all
qed simp_all

interpretation initializedness: lub_domain initializedness_ops "\<lambda>_. True"
proof (rule lub_domain_transport [OF nilness.lub_domain_axioms surj_initializedness_of_nilness])
  fix x y r
  show "ad_leq initializedness_ops (initializedness_of_nilness x) (initializedness_of_nilness y) \<longleftrightarrow>
      ad_leq nilness_ops x y"
    by (cases x; cases y) (simp_all add: nilness_defs initializedness_defs)
  show "ad_join initializedness_ops (initializedness_of_nilness x) (initializedness_of_nilness y) =
      initializedness_of_nilness (ad_join nilness_ops x y)"
    by (cases x; cases y) (simp_all add: nilness_defs initializedness_defs)
  show "ad_is_bottom initializedness_ops (initializedness_of_nilness x) \<longleftrightarrow>
      ad_is_bottom nilness_ops x"
    by (cases x) (simp_all add: nilness_defs initializedness_defs)
  show "ad_is_top initializedness_ops (initializedness_of_nilness x) \<longleftrightarrow> ad_is_top nilness_ops x"
    by (cases x) simp_all
qed simp_all


section \<open>The contract holds for the capped literal domains\<close>

lemmas constant_defs =
  constant_leq_def constant_join_def constant_is_bottom_def capped_constant_union_def
  top_reason_defs Let_def

lemmas string_defs =
  string_leq_def string_join_def string_is_bottom_def capped_string_union_def
  top_reason_defs Let_def

text \<open>Both domains hold at most \<open>LITERAL_SET_CAP\<close> literals.\<close>

definition constant_wf :: "constant_domain \<Rightarrow> bool" where
  "constant_wf x \<longleftrightarrow> constant_literal_count x \<le> LITERAL_SET_CAP"

definition string_wf :: "string_domain \<Rightarrow> bool" where
  "string_wf x \<longleftrightarrow> string_literal_count x \<le> LITERAL_SET_CAP"

fun constant_height :: "constant_domain \<Rightarrow> nat" where
  "constant_height ConstBottom = 0"
| "constant_height (ConstValues vs) = Suc (fcard vs)"
| "constant_height (ConstTop r) = LITERAL_SET_CAP + 2 + top_height r"

fun string_height :: "string_domain \<Rightarrow> nat" where
  "string_height StrBottom = 0"
| "string_height (StrValues vs) = Suc (fcard vs)"
| "string_height (StrTop r) = LITERAL_SET_CAP + 2 + top_height r"

lemma fsubset_union_absorb: "left |\<subseteq>| right \<Longrightarrow> right |\<union>| left = right"
  by auto

interpretation constants: abstract_domain constant_ops constant_wf
proof
  fix x y z r
  show "ad_leq constant_ops x x" by (simp add: constant_defs)
  show "ad_leq constant_ops x y \<Longrightarrow> ad_leq constant_ops y z \<Longrightarrow> ad_leq constant_ops x z"
    by (cases x; cases y; cases z) (auto simp: constant_defs split: if_splits)
  show "ad_leq constant_ops x y \<Longrightarrow> ad_leq constant_ops y x \<Longrightarrow> x = y"
    by (cases x; cases y) (auto simp: constant_defs split: if_splits)
  show "ad_leq constant_ops (ad_bottom constant_ops) x"
    by (cases x) (simp_all add: constant_defs)
  show "ad_is_bottom constant_ops x \<longleftrightarrow> x = ad_bottom constant_ops"
    by (simp add: constant_defs)
  show "ad_is_top constant_ops (ad_top constant_ops r)" by simp
  show "\<not> ad_is_top constant_ops x \<Longrightarrow> ad_leq constant_ops x (ad_top constant_ops r)"
    by (cases x) (simp_all add: constant_defs)
  show "ad_leq constant_ops x (ad_join constant_ops x y)"
    by (cases x; cases y) (auto simp: constant_defs)
  show "ad_join constant_ops x y = ad_join constant_ops y x"
    by (cases x; cases y) (auto simp: constant_defs ac_simps)
  show "ad_join constant_ops x (ad_bottom constant_ops) = x"
    by (cases x) (simp_all add: constant_defs)
  show "constant_wf x \<Longrightarrow> ad_leq constant_ops y x \<Longrightarrow> ad_join constant_ops x y = x"
    by (cases x; cases y)
      (auto simp: constant_defs constant_wf_def fsubset_union_absorb split: if_splits)
  show "constant_wf (ad_bottom constant_ops)" "constant_wf (ad_top constant_ops r)"
    by (simp_all add: constant_wf_def)
  show "constant_wf x \<Longrightarrow> constant_wf y \<Longrightarrow> constant_wf (ad_join constant_ops x y)"
    by (cases x; cases y) (auto simp: constant_defs constant_wf_def)
qed

interpretation strings: abstract_domain string_ops string_wf
proof
  fix x y z r
  show "ad_leq string_ops x x" by (simp add: string_defs)
  show "ad_leq string_ops x y \<Longrightarrow> ad_leq string_ops y z \<Longrightarrow> ad_leq string_ops x z"
    by (cases x; cases y; cases z) (auto simp: string_defs split: if_splits)
  show "ad_leq string_ops x y \<Longrightarrow> ad_leq string_ops y x \<Longrightarrow> x = y"
    by (cases x; cases y) (auto simp: string_defs split: if_splits)
  show "ad_leq string_ops (ad_bottom string_ops) x"
    by (cases x) (simp_all add: string_defs)
  show "ad_is_bottom string_ops x \<longleftrightarrow> x = ad_bottom string_ops"
    by (simp add: string_defs)
  show "ad_is_top string_ops (ad_top string_ops r)" by simp
  show "\<not> ad_is_top string_ops x \<Longrightarrow> ad_leq string_ops x (ad_top string_ops r)"
    by (cases x) (simp_all add: string_defs)
  show "ad_leq string_ops x (ad_join string_ops x y)"
    by (cases x; cases y) (auto simp: string_defs)
  show "ad_join string_ops x y = ad_join string_ops y x"
    by (cases x; cases y) (auto simp: string_defs ac_simps)
  show "ad_join string_ops x (ad_bottom string_ops) = x"
    by (cases x) (simp_all add: string_defs)
  show "string_wf x \<Longrightarrow> ad_leq string_ops y x \<Longrightarrow> ad_join string_ops x y = x"
    by (cases x; cases y)
      (auto simp: string_defs string_wf_def fsubset_union_absorb split: if_splits)
  show "string_wf (ad_bottom string_ops)" "string_wf (ad_top string_ops r)"
    by (simp_all add: string_wf_def)
  show "string_wf x \<Longrightarrow> string_wf y \<Longrightarrow> string_wf (ad_join string_ops x y)"
    by (cases x; cases y) (auto simp: string_defs string_wf_def)
qed


section \<open>Every domain has bounded height\<close>

interpretation reachability_h:
  finite_height_domain reachability_ops "\<lambda>_. True" reachability_height 4
proof
  fix x y
  show "reachability_height (ad_bottom reachability_ops) = 0" by simp
  show "ad_leq reachability_ops x y \<Longrightarrow> x \<noteq> y \<Longrightarrow> reachability_height x < reachability_height y"
    by (cases x; cases y) (auto simp: reachability_defs top_height_def split: if_splits)
  show "reachability_height x \<le> 4" by (cases x) (simp_all add: top_height_def)
qed

interpretation nilness_h: finite_height_domain nilness_ops "\<lambda>_. True" nilness_height 4
proof
  fix x y
  show "nilness_height (ad_bottom nilness_ops) = 0" by simp
  show "ad_leq nilness_ops x y \<Longrightarrow> x \<noteq> y \<Longrightarrow> nilness_height x < nilness_height y"
    by (cases x; cases y) (auto simp: nilness_defs top_height_def split: if_splits)
  show "nilness_height x \<le> 4" by (cases x) (simp_all add: top_height_def)
qed

interpretation truthiness_h:
  finite_height_domain truthiness_ops "\<lambda>_. True" truthiness_height 4
proof
  fix x y
  show "truthiness_height (ad_bottom truthiness_ops) = 0" by simp
  show "ad_leq truthiness_ops x y \<Longrightarrow> x \<noteq> y \<Longrightarrow> truthiness_height x < truthiness_height y"
    by (cases x; cases y) (auto simp: truthiness_defs top_height_def split: if_splits)
  show "truthiness_height x \<le> 4" by (cases x) (simp_all add: top_height_def)
qed

interpretation initializedness_h:
  finite_height_domain initializedness_ops "\<lambda>_. True" initializedness_height 4
proof
  fix x y
  show "initializedness_height (ad_bottom initializedness_ops) = 0" by simp
  show "ad_leq initializedness_ops x y \<Longrightarrow> x \<noteq> y \<Longrightarrow>
      initializedness_height x < initializedness_height y"
    by (cases x; cases y) (auto simp: initializedness_defs top_height_def split: if_splits)
  show "initializedness_height x \<le> 4" by (cases x) (simp_all add: top_height_def)
qed

lemma fcard_strict_mono: "a |\<subseteq>| b \<Longrightarrow> a \<noteq> b \<Longrightarrow> fcard a < fcard b"
  by (rule pfsubset_fcard_mono) auto

interpretation constants_h: finite_height_domain constant_ops constant_wf constant_height 7
proof
  fix x y
  show "constant_height (ad_bottom constant_ops) = 0" by simp
  show "constant_wf x \<Longrightarrow> constant_wf y \<Longrightarrow> ad_leq constant_ops x y \<Longrightarrow> x \<noteq> y \<Longrightarrow>
      constant_height x < constant_height y"
    by (cases x; cases y)
      (auto simp: constant_defs constant_wf_def top_height_def fcard_strict_mono split: if_splits)
  show "constant_wf x \<Longrightarrow> constant_height x \<le> 7"
    by (cases x) (simp_all add: constant_wf_def top_height_def LITERAL_SET_CAP_def)
qed

interpretation strings_h: finite_height_domain string_ops string_wf string_height 7
proof
  fix x y
  show "string_height (ad_bottom string_ops) = 0" by simp
  show "string_wf x \<Longrightarrow> string_wf y \<Longrightarrow> ad_leq string_ops x y \<Longrightarrow> x \<noteq> y \<Longrightarrow>
      string_height x < string_height y"
    by (cases x; cases y)
      (auto simp: string_defs string_wf_def top_height_def fcard_strict_mono split: if_splits)
  show "string_wf x \<Longrightarrow> string_height x \<le> 7"
    by (cases x) (simp_all add: string_wf_def top_height_def LITERAL_SET_CAP_def)
qed


section \<open>Digest parts identify the value\<close>

lemma literal_digest_part_inject: "literal_digest_part a = literal_digest_part b \<longleftrightarrow> a = b"
  by (cases a; cases b) auto

lemma literal_digest_part_kind: "literal_digest_part a \<noteq> ''kind=values''"
  by (cases a) auto

lemma set_sorted_digest_parts: "set (sorted_digest_parts parts) = set parts"
  by (simp add: sorted_digest_parts_def fset_of_list.rep_eq)

lemma set_constant_digest_values:
  "set (constant_digest_parts (ConstValues vs)) =
     insert ''kind=values'' (literal_digest_part ` fset vs)"
  by (simp add: set_sorted_digest_parts)

lemma set_string_digest_values:
  "set (string_digest_parts (StrValues vs)) = insert ''kind=values'' ((@) ''string:'' ` fset vs)"
  by (simp add: set_sorted_digest_parts)

lemma constant_digest_kind_iff:
  "''kind=values'' \<in> set (constant_digest_parts x) \<longleftrightarrow> (\<exists>vs. x = ConstValues vs)"
  by (cases x) (simp_all add: set_sorted_digest_parts top_digest_part_def)

lemma string_digest_kind_iff:
  "''kind=values'' \<in> set (string_digest_parts x) \<longleftrightarrow> (\<exists>vs. x = StrValues vs)"
  by (cases x) (simp_all add: set_sorted_digest_parts top_digest_part_def)

lemma constant_digest_inject:
  assumes eq: "constant_digest_parts x = constant_digest_parts y"
  shows "x = y"
proof (cases "\<exists>vs. x = ConstValues vs")
  case True
  then obtain vs ws where xy: "x = ConstValues vs" "y = ConstValues ws"
    using constant_digest_kind_iff [of x] constant_digest_kind_iff [of y] eq by metis
  have kind: "''kind=values'' \<notin> literal_digest_part ` A" for A
    using literal_digest_part_kind by (metis imageE)
  have "insert ''kind=values'' (literal_digest_part ` fset vs) =
      insert ''kind=values'' (literal_digest_part ` fset ws)"
    using eq unfolding xy by (metis set_constant_digest_values)
  then have "literal_digest_part ` fset vs = literal_digest_part ` fset ws"
    using kind by (simp add: insert_ident)
  moreover have "inj literal_digest_part" by (simp add: inj_def literal_digest_part_inject)
  ultimately have "fset vs = fset ws" by (simp add: inj_image_eq_iff)
  then show ?thesis by (simp add: xy fset_inject)
next
  case False
  then have "\<nexists>ws. y = ConstValues ws"
    using constant_digest_kind_iff [of x] constant_digest_kind_iff [of y] eq by metis
  with False eq show ?thesis
    by (cases x; cases y) (simp_all add: top_digest_part_def top_reason_as_str_inject)
qed

lemma string_digest_inject:
  assumes eq: "string_digest_parts x = string_digest_parts y"
  shows "x = y"
proof (cases "\<exists>vs. x = StrValues vs")
  case True
  then obtain vs ws where xy: "x = StrValues vs" "y = StrValues ws"
    using string_digest_kind_iff [of x] string_digest_kind_iff [of y] eq by metis
  have kind: "''kind=values'' \<notin> (@) ''string:'' ` A" for A by auto
  have "insert ''kind=values'' ((@) ''string:'' ` fset vs) =
      insert ''kind=values'' ((@) ''string:'' ` fset ws)"
    using eq unfolding xy by (metis set_string_digest_values)
  then have "(@) ''string:'' ` fset vs = (@) ''string:'' ` fset ws"
    using kind by (simp add: insert_ident)
  moreover have "inj ((@) ''string:'')" by (simp add: inj_def)
  ultimately have "fset vs = fset ws" by (metis inj_image_eq_iff)
  then show ?thesis by (simp add: xy fset_inject)
next
  case False
  then have "\<nexists>ws. y = StrValues ws"
    using string_digest_kind_iff [of x] string_digest_kind_iff [of y] eq by metis
  with False eq show ?thesis
    by (cases x; cases y) (simp_all add: top_digest_part_def top_reason_as_str_inject)
qed

lemmas flat_digest_defs = top_digest_part_def top_reason_as_str_inject


section \<open>Properties of the core domains\<close>

text \<open>
  C25: in each of the six core domains the join of two values is above both of them and does not
  depend on their order, and a join changes the current value exactly when the incoming one is
  not already below it (for the literal domains, below the literal cap). In the four finite
  domains the join is moreover the least upper bound.
\<close>
theorem core_joins_are_upper_bounds:
  "sound_join reachability_ops (\<lambda>_. True) \<and> least_join reachability_ops
   \<and> sound_join nilness_ops (\<lambda>_. True) \<and> least_join nilness_ops
   \<and> sound_join truthiness_ops (\<lambda>_. True) \<and> least_join truthiness_ops
   \<and> sound_join initializedness_ops (\<lambda>_. True) \<and> least_join initializedness_ops
   \<and> sound_join constant_ops constant_wf
   \<and> sound_join string_ops string_wf"
  by (intro conjI reachability.domain_sound_join nilness.domain_sound_join
      truthiness.domain_sound_join initializedness.domain_sound_join
      constants.domain_sound_join strings.domain_sound_join
      reachability.domain_least_join nilness.domain_least_join
      truthiness.domain_least_join initializedness.domain_least_join)

text \<open>
  Stable digest parts are faithful: two values of a core domain with the same digest parts
  are equal, so a cache keyed by the digest never confuses two abstract values.
\<close>
theorem core_digest_parts_injective:
  "(reachability_digest_parts a = reachability_digest_parts b \<longleftrightarrow> a = b)
   \<and> (nilness_digest_parts c = nilness_digest_parts d \<longleftrightarrow> c = d)
   \<and> (truthiness_digest_parts e = truthiness_digest_parts f \<longleftrightarrow> e = f)
   \<and> (initializedness_digest_parts g = initializedness_digest_parts i \<longleftrightarrow> g = i)
   \<and> (constant_digest_parts j = constant_digest_parts k \<longleftrightarrow> j = k)
   \<and> (string_digest_parts l = string_digest_parts m \<longleftrightarrow> l = m)"
proof (intro conjI)
  show "reachability_digest_parts a = reachability_digest_parts b \<longleftrightarrow> a = b"
    by (cases a; cases b) (simp_all add: flat_digest_defs)
  show "nilness_digest_parts c = nilness_digest_parts d \<longleftrightarrow> c = d"
    by (cases c; cases d) (simp_all add: flat_digest_defs)
  show "truthiness_digest_parts e = truthiness_digest_parts f \<longleftrightarrow> e = f"
    by (cases e; cases f) (simp_all add: flat_digest_defs)
  show "initializedness_digest_parts g = initializedness_digest_parts i \<longleftrightarrow> g = i"
    by (cases g; cases i) (simp_all add: flat_digest_defs)
  show "constant_digest_parts j = constant_digest_parts k \<longleftrightarrow> j = k"
    using constant_digest_inject by auto
  show "string_digest_parts l = string_digest_parts m \<longleftrightarrow> l = m"
    using string_digest_inject by auto
qed

text \<open>
  The literal cap is an invariant: literal constructors, joins and widenings of the constant
  and string domains never hold more than \<open>LITERAL_SET_CAP\<close> literals.
\<close>
theorem literal_cap_invariant:
  assumes "constant_wf x" "constant_wf y" "string_wf u" "string_wf v"
  shows "constant_wf (constant_from_literal q) \<and> constant_wf (constant_from_literals qs)
     \<and> constant_wf (constant_join x y) \<and> constant_wf (constant_widen x y site fuel)
     \<and> string_wf (string_from_literal t) \<and> string_wf (string_from_literals ts)
     \<and> string_wf (string_join u v) \<and> string_wf (string_widen u v site fuel)"
proof -
  have "constant_wf (constant_join x y)" "string_wf (string_join u v)"
    using constants.wf_join [of x y] strings.wf_join [of u v] assms by simp_all
  moreover from this have "constant_wf (constant_widen x y site fuel)"
      "string_wf (string_widen u v site fuel)"
    using constants.wf_top [of Widened] strings.wf_top [of Widened]
    by (simp_all add: constant_widen_def string_widen_def)
  ultimately show ?thesis
    by (simp add: constant_wf_def string_wf_def constant_from_literal_def string_from_literal_def
        constant_from_literals_def string_from_literals_def Let_def LITERAL_SET_CAP_def)
qed

theorem literal_cap_invariant_witness:
  "constant_wf (constant_from_literal LNil) \<and> string_wf (StrTop Widened)
   \<and> constant_wf (constant_join (constant_from_literal LNil) (constant_from_literal LNull))"
proof -
  have "constant_wf (constant_from_literal LNil)" "constant_wf (constant_from_literal LNull)"
    "string_wf (StrTop Widened)"
    by (simp_all add: constant_wf_def string_wf_def constant_from_literal_def LITERAL_SET_CAP_def)
  then show ?thesis
    using literal_cap_invariant
      [of "constant_from_literal LNil" "constant_from_literal LNull" "StrTop Widened" "StrTop Widened"]
    by blast
qed

text \<open>
  Without fuel the widening of the literal domains settles in one step: it keeps the current
  value or moves to the widened top, and the widened top stays where it is.
\<close>
theorem exhausted_widening_settles:
  "remaining fuel = 0 \<Longrightarrow>
     constant_widen x y site fuel \<in> {x, ConstTop Widened}
     \<and> constant_widen (ConstTop Widened) y site fuel = ConstTop Widened
     \<and> string_widen u v site fuel \<in> {u, StrTop Widened}
     \<and> string_widen (StrTop Widened) v site fuel = StrTop Widened"
  by (auto simp: constant_widen_def string_widen_def constant_join_def string_join_def)

theorem exhausted_widening_settles_witness:
  "constant_widen (constant_from_literal LNil) (constant_from_literal LNull)
       \<lparr>site_stable_key = 0\<rparr> \<lparr>remaining = 0\<rparr> = ConstTop Widened
   \<and> constant_widen (ConstTop Widened) (constant_from_literal LNull)
       \<lparr>site_stable_key = 0\<rparr> \<lparr>remaining = 0\<rparr> = ConstTop Widened"
  using exhausted_widening_settles
    [of "\<lparr>remaining = 0\<rparr>" "constant_from_literal LNil" "constant_from_literal LNull"
        "\<lparr>site_stable_key = 0\<rparr>" "StrBottom" "StrBottom"]
  by (simp add: constant_widen_def constant_from_literal_def)

text \<open>
  The capped join is not associative. Joining four literals with a fifth gives the
  budget top, and joining that with a widened top gives the conflicting top; in the other
  order the result is the widened top. The reason a value reports can depend on the order
  in which facts arrive.
\<close>
theorem constant_join_order_dependent:
  "let four = constant_from_literals [LNull, LUndefined, LNil, LBool True];
       fifth = constant_from_literal (LBool False);
       widened = ConstTop Widened
   in constant_join (constant_join four fifth) widened = ConstTop ConflictingFacts
      \<and> constant_join four (constant_join fifth widened) = ConstTop Widened"
  by code_simp

end
