(* ===== verification/Product_State.thy ===== *)
theory Product_State
  imports Core_Domains
begin

text \<open>
  The abstract state of the domain solver, \<open>analysis_neutral/domains/state.rs\<close>: a product of the
  reachability domain and one place-indexed map per value domain, with its join, order, widening,
  the reduction of constants into the other value domains, and the digest parts. The lemmas on one
  place map are proved once, over the contract \<open>abstract_domain\<close>, and used for the five maps.
\<close>

section \<open>State\<close>

record core_domains =
  reachability :: reachability_domain
  nilness :: "(place_id, nilness_domain) fmap"
  truthiness :: "(place_id, truthiness_domain) fmap"
  constants :: "(place_id, constant_domain) fmap"
  strings :: "(place_id, string_domain) fmap"
  initializedness :: "(place_id, initializedness_domain) fmap"

datatype extension_domain_slots = ExtensionDomainSlots

record product_state =
  core :: core_domains
  extension_slots :: extension_domain_slots

definition core_domains_bottom :: core_domains where
  "core_domains_bottom =
     \<lparr> reachability = ad_bottom reachability_ops, nilness = fmempty, truthiness = fmempty,
       constants = fmempty, strings = fmempty, initializedness = fmempty \<rparr>"

definition core_domains_entry :: core_domains where
  "core_domains_entry = core_domains_bottom \<lparr> reachability := Reachable \<rparr>"

definition state_bottom :: product_state where
  "state_bottom = \<lparr> core = core_domains_bottom, extension_slots = ExtensionDomainSlots \<rparr>"

definition state_entry :: product_state where
  "state_entry = \<lparr> core = core_domains_entry, extension_slots = ExtensionDomainSlots \<rparr>"


section \<open>One place map\<close>

definition join_single ::
  "'d abstract_domain_ops \<Rightarrow> (place_id, 'd) fmap \<Rightarrow> place_id \<Rightarrow> 'd
     \<Rightarrow> changed \<times> (place_id, 'd) fmap" where
  "join_single D target place incoming =
     (if ad_is_bottom D incoming then (Changed_No, target)
      else case fmlookup target place of
        Some current \<Rightarrow>
          (let (c, joined) = domain_join_into D current incoming in (c, fmupd place joined target))
      | None \<Rightarrow> (Changed_Yes, fmupd place incoming target))"

definition join_place_step ::
  "'d abstract_domain_ops \<Rightarrow> place_id \<times> 'd \<Rightarrow> changed \<times> (place_id, 'd) fmap
     \<Rightarrow> changed \<times> (place_id, 'd) fmap" where
  "join_place_step D entry acc =
     (let (c, target) = join_single D (snd acc) (fst entry) (snd entry)
      in (changed_bitor (fst acc) c, target))"

definition join_place_map ::
  "'d abstract_domain_ops \<Rightarrow> (place_id, 'd) fmap \<Rightarrow> (place_id, 'd) fmap
     \<Rightarrow> changed \<times> (place_id, 'd) fmap" where
  "join_place_map D target incoming =
     fold (join_place_step D) (bt_entries incoming) (Changed_No, target)"

definition copy_slot ::
  "(place_id, 'd) fmap \<Rightarrow> (place_id, 'd) fmap \<Rightarrow> place_id \<Rightarrow> place_id \<Rightarrow> (place_id, 'd) fmap" where
  "copy_slot target_map source_map target source =
     (case fmlookup source_map source of
        Some v \<Rightarrow> fmupd target v target_map
      | None \<Rightarrow> target_map)"

definition place_map_leq ::
  "'d abstract_domain_ops \<Rightarrow> (place_id, 'd) fmap \<Rightarrow> (place_id, 'd) fmap \<Rightarrow> bool" where
  "place_map_leq D left right =
     list_all (\<lambda>(place, left_value). ad_leq D left_value (fm_get_or (ad_bottom D) right place))
       (bt_entries left)"

definition widen_place_step ::
  "'d abstract_domain_ops \<Rightarrow> (place_id, 'd) fmap \<Rightarrow> widen_site \<Rightarrow> widen_fuel
     \<Rightarrow> place_id \<times> 'd \<Rightarrow> (place_id, 'd) fmap \<Rightarrow> (place_id, 'd) fmap" where
  "widen_place_step D current site fuel entry output =
     (let current_value = fm_get_or (ad_bottom D) current (fst entry);
          widened = ad_widen D current_value (snd entry) site fuel
      in if ad_is_bottom D widened then fmdrop (fst entry) output
         else fmupd (fst entry) widened output)"

definition widen_place_map ::
  "'d abstract_domain_ops \<Rightarrow> (place_id, 'd) fmap \<Rightarrow> (place_id, 'd) fmap \<Rightarrow> widen_site
     \<Rightarrow> widen_fuel \<Rightarrow> (place_id, 'd) fmap" where
  "widen_place_map D current next_map site fuel =
     fold (widen_place_step D current site fuel) (bt_entries next_map) current"

definition push_map_parts ::
  "'d abstract_domain_ops \<Rightarrow> string \<Rightarrow> (place_id, 'd) fmap \<Rightarrow> string list \<Rightarrow> string list" where
  "push_map_parts D slot values parts =
     parts @ concat (map (\<lambda>(place, domain).
       map (\<lambda>part. ''slot='' @ slot @ '';place='' @ show_nat place @ '';'' @ part)
         (ad_stable_digest_parts D domain)) (bt_entries values))"


section \<open>Operations of the product state\<close>

definition join_into :: "product_state \<Rightarrow> product_state \<Rightarrow> changed \<times> product_state" where
  "join_into self incoming =
     (let (c1, r) = domain_join_into reachability_ops (reachability (core self))
                      (reachability (core incoming));
          (c2, n) = join_place_map nilness_ops (nilness (core self)) (nilness (core incoming));
          (c3, t) = join_place_map truthiness_ops (truthiness (core self))
                      (truthiness (core incoming));
          (c4, k) = join_place_map constant_ops (constants (core self)) (constants (core incoming));
          (c5, s) = join_place_map string_ops (strings (core self)) (strings (core incoming));
          (c6, i) = join_place_map initializedness_ops (initializedness (core self))
                      (initializedness (core incoming))
      in (changed_bitor (changed_bitor (changed_bitor (changed_bitor (changed_bitor c1 c2) c3) c4) c5)
            c6,
          self \<lparr> core := \<lparr> reachability = r, nilness = n, truthiness = t, constants = k,
                           strings = s, initializedness = i \<rparr> \<rparr>))"

definition state_leq :: "product_state \<Rightarrow> product_state \<Rightarrow> bool" where
  "state_leq self other \<longleftrightarrow>
     reachability_leq (reachability (core self)) (reachability (core other))
     \<and> place_map_leq nilness_ops (nilness (core self)) (nilness (core other))
     \<and> place_map_leq truthiness_ops (truthiness (core self)) (truthiness (core other))
     \<and> place_map_leq constant_ops (constants (core self)) (constants (core other))
     \<and> place_map_leq string_ops (strings (core self)) (strings (core other))
     \<and> place_map_leq initializedness_ops (initializedness (core self))
         (initializedness (core other))"

definition mark_reachability_top :: "top_reason \<Rightarrow> product_state \<Rightarrow> product_state" where
  "mark_reachability_top reason self =
     self \<lparr> core := (core self) \<lparr> reachability := ReachTop reason \<rparr> \<rparr>"

definition mark_place_top :: "place_id \<Rightarrow> top_reason \<Rightarrow> product_state \<Rightarrow> product_state" where
  "mark_place_top place reason self =
     self \<lparr> core := (core self)
       \<lparr> nilness := fmupd place (NilTop reason) (nilness (core self)),
         truthiness := fmupd place (TruthTop reason) (truthiness (core self)),
         constants := fmupd place (ConstTop reason) (constants (core self)),
         strings := fmupd place (StrTop reason) (strings (core self)),
         initializedness := fmupd place (InitTop reason) (initializedness (core self)) \<rparr> \<rparr>"

definition observed_places :: "product_state \<Rightarrow> place_id fset" where
  "observed_places self =
     fmdom (nilness (core self)) |\<union>| fmdom (truthiness (core self))
     |\<union>| fmdom (constants (core self)) |\<union>| fmdom (strings (core self))
     |\<union>| fmdom (initializedness (core self))"

definition retain_places_where :: "(place_id \<Rightarrow> bool) \<Rightarrow> product_state \<Rightarrow> product_state" where
  "retain_places_where keep self =
     self \<lparr> core := (core self)
       \<lparr> nilness := fmfilter keep (nilness (core self)),
         truthiness := fmfilter keep (truthiness (core self)),
         constants := fmfilter keep (constants (core self)),
         strings := fmfilter keep (strings (core self)),
         initializedness := fmfilter keep (initializedness (core self)) \<rparr> \<rparr>"

definition retain_places :: "place_id fset \<Rightarrow> product_state \<Rightarrow> product_state" where
  "retain_places places self = retain_places_where (\<lambda>place. place |\<in>| places) self"

definition copy_place_from ::
  "product_state \<Rightarrow> place_id \<Rightarrow> place_id \<Rightarrow> product_state \<Rightarrow> product_state" where
  "copy_place_from source_state target source self =
     self \<lparr> core := (core self)
       \<lparr> nilness := copy_slot (fmdrop target (nilness (core self)))
                     (nilness (core source_state)) target source,
         truthiness := copy_slot (fmdrop target (truthiness (core self)))
                     (truthiness (core source_state)) target source,
         constants := copy_slot (fmdrop target (constants (core self)))
                     (constants (core source_state)) target source,
         strings := copy_slot (fmdrop target (strings (core self)))
                     (strings (core source_state)) target source,
         initializedness := copy_slot (fmdrop target (initializedness (core self)))
                     (initializedness (core source_state)) target source \<rparr> \<rparr>"

definition state_widen ::
  "product_state \<Rightarrow> product_state \<Rightarrow> widen_site \<Rightarrow> widen_fuel \<Rightarrow> product_state" where
  "state_widen self next_state site fuel =
     self \<lparr> core := (core self)
       \<lparr> reachability := ad_widen reachability_ops (reachability (core self))
                         (reachability (core next_state)) site fuel,
         nilness := widen_place_map nilness_ops (nilness (core self))
                         (nilness (core next_state)) site fuel,
         truthiness := widen_place_map truthiness_ops (truthiness (core self))
                         (truthiness (core next_state)) site fuel,
         constants := widen_place_map constant_ops (constants (core self))
                         (constants (core next_state)) site fuel,
         strings := widen_place_map string_ops (strings (core self))
                         (strings (core next_state)) site fuel,
         initializedness := widen_place_map initializedness_ops (initializedness (core self))
                         (initializedness (core next_state)) site fuel \<rparr> \<rparr>"


section \<open>Reduction\<close>

definition is_zero_number_label :: "string \<Rightarrow> bool" where
  "is_zero_number_label s \<longleftrightarrow> s = ''0'' \<or> s = ''0.0'' \<or> s = ''-0'' \<or> s = ''-0.0''"

fun nilness_from_literal :: "constant_literal \<Rightarrow> nilness_domain option" where
  "nilness_from_literal LNull = Some IsNil"
| "nilness_from_literal LUndefined = Some IsNil"
| "nilness_from_literal LNil = Some IsNil"
| "nilness_from_literal (LBool _) = Some NonNil"
| "nilness_from_literal (LString _) = Some NonNil"
| "nilness_from_literal (LNumber _) = Some NonNil"
| "nilness_from_literal (LUnknown _) = None"

fun truthiness_from_literal :: "constant_literal \<Rightarrow> truthiness_domain option" where
  "truthiness_from_literal LNull = Some Falsy"
| "truthiness_from_literal LUndefined = Some Falsy"
| "truthiness_from_literal LNil = Some Falsy"
| "truthiness_from_literal (LBool v) = Some (if v then Truthy else Falsy)"
| "truthiness_from_literal (LString v) = Some (if v = [] then Falsy else Truthy)"
| "truthiness_from_literal (LNumber v) = Some (if is_zero_number_label v then Falsy else Truthy)"
| "truthiness_from_literal (LUnknown _) = Some (TruthTop UnknownValue)"

text \<open>The loop over the literals of a constant, one accumulator per derived domain.\<close>

definition reduce_literal ::
  "constant_literal \<Rightarrow> nilness_domain \<times> truthiness_domain \<times> string_domain
     \<Rightarrow> nilness_domain \<times> truthiness_domain \<times> string_domain" where
  "reduce_literal literal acc =
     (let (n, t, s) = acc;
          n' = (case nilness_from_literal literal of
                  Some v \<Rightarrow> snd (domain_join_into nilness_ops n v) | None \<Rightarrow> n);
          t' = (case truthiness_from_literal literal of
                  Some v \<Rightarrow> snd (domain_join_into truthiness_ops t v) | None \<Rightarrow> t);
          s' = (case literal of
                  LString v \<Rightarrow> snd (domain_join_into string_ops s (string_from_literal v))
                | _ \<Rightarrow> s)
      in (n', t', s'))"

definition derived_values ::
  "constant_domain \<Rightarrow> nilness_domain \<times> truthiness_domain \<times> string_domain" where
  "derived_values constant =
     (case constant of
        ConstValues values \<Rightarrow>
          fold reduce_literal (bt_elems values)
            (ad_bottom nilness_ops, ad_bottom truthiness_ops, ad_bottom string_ops)
      | _ \<Rightarrow> (ad_bottom nilness_ops, ad_bottom truthiness_ops, ad_bottom string_ops))"

definition reduce_constant ::
  "place_id \<Rightarrow> constant_domain \<Rightarrow> product_state \<Rightarrow> changed \<times> product_state" where
  "reduce_constant place constant self =
     (case constant of
        ConstValues _ \<Rightarrow>
          (let (n, t, s) = derived_values constant;
               (c1, nmap) = join_single nilness_ops (nilness (core self)) place n;
               (c2, tmap) = join_single truthiness_ops (truthiness (core self)) place t;
               (c3, smap) = join_single string_ops (strings (core self)) place s
           in (changed_bitor (changed_bitor c1 c2) c3,
               self \<lparr> core := (core self)
                 \<lparr> nilness := nmap, truthiness := tmap, strings := smap \<rparr> \<rparr>))
      | _ \<Rightarrow> (Changed_No, self))"

definition reduce_round_step ::
  "place_id \<times> constant_domain \<Rightarrow> changed \<times> product_state \<Rightarrow> changed \<times> product_state" where
  "reduce_round_step entry acc =
     (let (c, self) = reduce_constant (fst entry) (snd entry) (snd acc)
      in (changed_bitor (fst acc) c, self))"

definition reduce_round :: "product_state \<Rightarrow> changed \<times> product_state" where
  "reduce_round self =
     fold reduce_round_step (bt_entries (constants (core self))) (Changed_No, self)"

fun reduce_value_only :: "nat \<Rightarrow> product_state \<Rightarrow> changed \<times> product_state" where
  "reduce_value_only 0 self = (Changed_No, self)"
| "reduce_value_only (Suc rounds) self =
     (let (round_changed, self') = reduce_round self in
      if round_changed = Changed_No then (Changed_No, self')
      else let (rest_changed, self'') = reduce_value_only rounds self'
           in (changed_bitor round_changed rest_changed, self''))"

definition extension_digest_parts :: "extension_domain_slots \<Rightarrow> string list" where
  "extension_digest_parts slots = [''slot=extensions;kind=empty'']"

definition state_digest_parts :: "product_state \<Rightarrow> string list" where
  "state_digest_parts self =
     (let parts = map (\<lambda>part. ''slot=reachability;'' @ part)
                    (ad_stable_digest_parts reachability_ops (reachability (core self)));
          parts = push_map_parts nilness_ops ''nilness'' (nilness (core self)) parts;
          parts = push_map_parts truthiness_ops ''truthiness'' (truthiness (core self)) parts;
          parts = push_map_parts constant_ops ''constants'' (constants (core self)) parts;
          parts = push_map_parts string_ops ''strings'' (strings (core self)) parts;
          parts = push_map_parts initializedness_ops ''initializedness''
                    (initializedness (core self)) parts
      in parts @ extension_digest_parts (extension_slots self))"


section \<open>A place map behaves point-wise\<close>

text \<open>An absent place stands for the bottom of its domain.\<close>

abbreviation slot :: "'d abstract_domain_ops \<Rightarrow> (place_id, 'd) fmap \<Rightarrow> place_id \<Rightarrow> 'd" where
  "slot D m p \<equiv> fm_get_or (ad_bottom D) m p"

definition map_wf :: "('d \<Rightarrow> bool) \<Rightarrow> (place_id, 'd) fmap \<Rightarrow> bool" where
  "map_wf ok m \<longleftrightarrow> fmpred (\<lambda>_. ok) m"

lemma map_wf_empty [simp]: "map_wf ok fmempty"
  by (simp add: map_wf_def)

lemma map_wf_upd [simp]: "ok v \<Longrightarrow> map_wf ok m \<Longrightarrow> map_wf ok (fmupd p v m)"
  by (simp add: map_wf_def fmpred_upd)

lemma map_wf_drop [simp]: "map_wf ok m \<Longrightarrow> map_wf ok (fmdrop p m)"
  by (simp add: map_wf_def fmpred_drop)

lemma map_wf_filter [simp]: "map_wf ok m \<Longrightarrow> map_wf ok (fmfilter keep m)"
  by (simp add: map_wf_def fmpred_filter)

lemma map_wf_lookup: "map_wf ok m \<Longrightarrow> fmlookup m p = Some v \<Longrightarrow> ok v"
  by (auto simp: map_wf_def dest: fmpredD)

lemma map_wf_trivial [simp]: "map_wf (\<lambda>_. True) m"
  by (simp add: map_wf_def fmpred_iff)

lemma join_place_step_apply:
  "join_place_step D e (c, t) =
     (changed_bitor c (fst (join_single D t (fst e) (snd e))), snd (join_single D t (fst e) (snd e)))"
  by (simp add: join_place_step_def case_prod_beta)

context abstract_domain
begin

lemma lookup_join_single:
  "fmlookup (snd (join_single D t p v)) q =
     (if q = p \<and> v \<noteq> ad_bottom D then Some (ad_join D (slot D t p) v) else fmlookup t q)"
  by (auto simp: join_single_def is_bottom_iff join_into_snd case_prod_beta join_bottom_left
      split: option.split)

lemma join_single_changed:
  "fst (join_single D t p v) = Changed_Yes \<longleftrightarrow> ad_join D (slot D t p) v \<noteq> slot D t p"
  by (auto simp: join_single_def is_bottom_iff case_prod_beta join_bottom join_bottom_left
      join_into_Yes_iff split: option.split)

lemma slot_join_single:
  "slot D (snd (join_single D t p v)) q =
     (if q = p then ad_join D (slot D t p) v else slot D t q)"
  by (auto simp: fm_get_or_def lookup_join_single join_bottom split: option.split)

lemma join_single_No: "fst (join_single D t p v) = Changed_No \<Longrightarrow> snd (join_single D t p v) = t"
proof (rule fmap_ext)
  fix q
  assume No: "fst (join_single D t p v) = Changed_No"
  then have same: "ad_join D (slot D t p) v = slot D t p"
    using join_single_changed [of t p v] by simp
  show "fmlookup (snd (join_single D t p v)) q = fmlookup t q"
  proof (cases "fmlookup t p")
    case None
    with same show ?thesis by (simp add: lookup_join_single join_bottom_left)
  next
    case (Some c)
    with same show ?thesis by (simp add: lookup_join_single)
  qed
qed

lemma slot_join_fold:
  "distinct (map fst es) \<Longrightarrow>
   slot D (snd (fold (join_place_step D) es (c, t))) q =
     (case map_of es q of Some v \<Rightarrow> ad_join D (slot D t q) v | None \<Rightarrow> slot D t q)"
proof (induction es arbitrary: c t)
  case (Cons e es)
  obtain p v where e: "e = (p, v)" by force
  have "map_of es p = None" using Cons.prems e by (simp add: map_of_eq_None_iff)
  with Cons e show ?case
    by (simp add: join_place_step_apply slot_join_single split: option.split)
qed simp

lemma join_fold_changed:
  "distinct (map fst es) \<Longrightarrow>
   fst (fold (join_place_step D) es (c, t)) = Changed_Yes \<longleftrightarrow>
     c = Changed_Yes \<or> (\<exists>(p, v)\<in>set es. ad_join D (slot D t p) v \<noteq> slot D t p)"
proof (induction es arbitrary: c t)
  case (Cons e es)
  obtain p v where e: "e = (p, v)" by force
  have other: "\<And>a b. (a, b) \<in> set es \<Longrightarrow> a \<noteq> p" using Cons.prems e by force
  have "(\<exists>(a, b)\<in>set es. ad_join D (slot D (snd (join_single D t p v)) a) b
             \<noteq> slot D (snd (join_single D t p v)) a) \<longleftrightarrow>
        (\<exists>(a, b)\<in>set es. ad_join D (slot D t a) b \<noteq> slot D t a)"
    by (rule bex_cong) (auto simp: slot_join_single dest: other)
  then show ?case
    using Cons e by (simp add: join_place_step_apply changed_bitor_Yes_iff join_single_changed)
qed simp

lemma join_fold_No:
  "fst (fold (join_place_step D) es (c, t)) = Changed_No \<Longrightarrow>
   snd (fold (join_place_step D) es (c, t)) = t"
proof (induction es arbitrary: c t)
  case (Cons e es)
  let ?j = "join_single D t (fst e) (snd e)"
  let ?c = "changed_bitor c (fst ?j)"
  have IH: "snd (fold (join_place_step D) es (?c, snd ?j)) = snd ?j"
    and sticky: "?c = Changed_No"
  proof -
    show "snd (fold (join_place_step D) es (?c, snd ?j)) = snd ?j"
      using Cons by (simp add: join_place_step_apply)
    have yes: "fst (fold (join_place_step D) es (Changed_Yes, x)) = Changed_Yes" for x
      by (induction es arbitrary: x) (simp_all add: join_place_step_apply)
    show "?c = Changed_No"
      using Cons.prems yes by (cases ?c) (auto simp: join_place_step_apply)
  qed
  from sticky have "fst ?j = Changed_No" by (cases "fst ?j") simp_all
  then show ?case
    using IH join_single_No [of t "fst e" "snd e"]
    by (simp add: join_place_step_apply)
qed simp

lemma slot_join_place_map:
  "slot D (snd (join_place_map D t i)) q = ad_join D (slot D t q) (slot D i q)"
  by (cases "fmlookup i q") (simp_all add: join_place_map_def slot_join_fold join_bottom)

lemma join_fold_No_iff:
  assumes "distinct (map fst es)"
  shows "fst (fold (join_place_step D) es (Changed_No, t)) = Changed_No \<longleftrightarrow>
    (\<forall>p. ad_join D (slot D t p) (case map_of es p of Some v \<Rightarrow> v | None \<Rightarrow> ad_bottom D)
           = slot D t p)"
proof -
  have "fst (fold (join_place_step D) es (Changed_No, t)) = Changed_No \<longleftrightarrow>
      (\<forall>p v. (p, v) \<in> set es \<longrightarrow> ad_join D (slot D t p) v = slot D t p)"
    using join_fold_changed [OF assms, of Changed_No t]
    by (cases "fst (fold (join_place_step D) es (Changed_No, t))") auto
  also have "\<dots> \<longleftrightarrow> (\<forall>p v. map_of es p = Some v \<longrightarrow> ad_join D (slot D t p) v = slot D t p)"
    by (simp add: assms)
  also have "\<dots> \<longleftrightarrow> (\<forall>p. ad_join D (slot D t p)
      (case map_of es p of Some v \<Rightarrow> v | None \<Rightarrow> ad_bottom D) = slot D t p)"
    by (intro all_cong1) (simp add: join_bottom split: option.split)
  finally show ?thesis .
qed

lemma join_place_map_changed:
  "fst (join_place_map D t i) = Changed_Yes \<longleftrightarrow>
     (\<exists>q. ad_join D (slot D t q) (slot D i q) \<noteq> slot D t q)"
  using join_fold_No_iff [of "bt_entries i" t]
  by (cases "fst (join_place_map D t i)") (auto simp: join_place_map_def fm_get_or_def)

lemma join_place_map_unchanged_iff:
  "fst (join_place_map D t i) = Changed_No \<longleftrightarrow> snd (join_place_map D t i) = t"
proof
  assume "fst (join_place_map D t i) = Changed_No"
  then show "snd (join_place_map D t i) = t"
    by (simp add: join_place_map_def join_fold_No)
next
  assume eq: "snd (join_place_map D t i) = t"
  have "\<not> (\<exists>q. ad_join D (slot D t q) (slot D i q) \<noteq> slot D t q)"
    using slot_join_place_map [of t i] by (simp add: eq)
  then show "fst (join_place_map D t i) = Changed_No"
    using join_place_map_changed [of t i] by simp
qed

lemma place_map_leq_slots: "place_map_leq D l r \<longleftrightarrow> (\<forall>p. ad_leq D (slot D l p) (slot D r p))"
proof
  assume leq: "place_map_leq D l r"
  show "\<forall>p. ad_leq D (slot D l p) (slot D r p)"
  proof
    fix p
    show "ad_leq D (slot D l p) (slot D r p)"
    proof (cases "fmlookup l p")
      case None
      then show ?thesis by (simp add: bottom_least)
    next
      case (Some v)
      then have "(p, v) \<in> set (bt_entries l)" by (simp add: in_bt_entries_iff)
      with leq Some show ?thesis by (auto simp: place_map_leq_def list_all_iff)
    qed
  qed
next
  assume "\<forall>p. ad_leq D (slot D l p) (slot D r p)"
  then show "place_map_leq D l r"
    by (auto simp: place_map_leq_def list_all_iff in_bt_entries_iff)
      (metis fm_get_or_Some)
qed

lemma slot_wf: "map_wf wf m \<Longrightarrow> wf (slot D m p)"
  by (cases "fmlookup m p") (auto simp: wf_bottom dest: map_wf_lookup)

lemma join_place_map_leq_iff:
  "map_wf wf t \<Longrightarrow> fst (join_place_map D t i) = Changed_No \<longleftrightarrow> place_map_leq D i t"
  using join_place_map_changed [of t i]
  by (auto simp: place_map_leq_slots leq_iff_join slot_wf)

lemma join_place_map_upper:
  "place_map_leq D t (snd (join_place_map D t i))"
  "place_map_leq D i (snd (join_place_map D t i))"
  by (simp_all add: place_map_leq_slots slot_join_place_map join_upper join_upper_right)

lemma place_map_leq_refl: "place_map_leq D m m"
  by (simp add: place_map_leq_slots leq_refl)

lemma place_map_leq_trans: "place_map_leq D a b \<Longrightarrow> place_map_leq D b c \<Longrightarrow> place_map_leq D a c"
  unfolding place_map_leq_slots using leq_trans by blast

lemma map_wf_join_single: "map_wf wf t \<Longrightarrow> wf v \<Longrightarrow> map_wf wf (snd (join_single D t p v))"
  unfolding map_wf_def
  by (auto simp: fmpred_iff lookup_join_single slot_wf [unfolded map_wf_def] wf_join
      split: if_splits)

lemma map_wf_join_place_map:
  "map_wf wf t \<Longrightarrow> map_wf wf i \<Longrightarrow> map_wf wf (snd (join_place_map D t i))"
proof -
  have fold: "map_wf wf t \<Longrightarrow> (\<And>p v. (p, v) \<in> set es \<Longrightarrow> wf v) \<Longrightarrow>
      map_wf wf (snd (fold (join_place_step D) es (c, t)))" for es c t
  proof (induction es arbitrary: c t)
    case (Cons e es)
    have "wf (snd e)" by (rule Cons.prems(2) [of "fst e"]) simp
    moreover have "\<And>p v. (p, v) \<in> set es \<Longrightarrow> wf v"
      by (erule Cons.prems(2) [OF list.set_intros(2)])
    ultimately show ?case
      using Cons.IH Cons.prems(1) by (simp add: join_place_step_apply map_wf_join_single)
  qed simp
  assume "map_wf wf t" "map_wf wf i"
  then show ?thesis
    unfolding join_place_map_def
    by (intro fold) (auto simp: in_bt_entries_iff dest: map_wf_lookup)
qed

end


section \<open>The product state\<close>

definition state_wf :: "product_state \<Rightarrow> bool" where
  "state_wf s \<longleftrightarrow> map_wf constant_wf (constants (core s)) \<and> map_wf string_wf (strings (core s))"

lemmas slot_joins =
  nilness.slot_join_place_map [simplified trait_simps]
  truthiness.slot_join_place_map [simplified trait_simps]
  constants.slot_join_place_map [simplified trait_simps]
  strings.slot_join_place_map [simplified trait_simps]
  initializedness.slot_join_place_map [simplified trait_simps]

lemma core_join_into:
  "core (snd (join_into s i)) =
     \<lparr> reachability = reachability_join (reachability (core s)) (reachability (core i)),
       nilness = snd (join_place_map nilness_ops (nilness (core s)) (nilness (core i))),
       truthiness = snd (join_place_map truthiness_ops (truthiness (core s)) (truthiness (core i))),
       constants = snd (join_place_map constant_ops (constants (core s)) (constants (core i))),
       strings = snd (join_place_map string_ops (strings (core s)) (strings (core i))),
       initializedness = snd (join_place_map initializedness_ops (initializedness (core s))
                                (initializedness (core i))) \<rparr>"
  by (simp add: join_into_def case_prod_beta Let_def domain_join_into_def)

lemma extension_slots_join_into [simp]:
  "extension_slots (snd (join_into s i)) = extension_slots s"
  by (simp add: join_into_def case_prod_beta Let_def)

lemma fst_join_into:
  "fst (join_into s i) = Changed_No \<longleftrightarrow>
     fst (domain_join_into reachability_ops (reachability (core s)) (reachability (core i)))
       = Changed_No
     \<and> fst (join_place_map nilness_ops (nilness (core s)) (nilness (core i))) = Changed_No
     \<and> fst (join_place_map truthiness_ops (truthiness (core s)) (truthiness (core i)))
         = Changed_No
     \<and> fst (join_place_map constant_ops (constants (core s)) (constants (core i))) = Changed_No
     \<and> fst (join_place_map string_ops (strings (core s)) (strings (core i))) = Changed_No
     \<and> fst (join_place_map initializedness_ops (initializedness (core s))
              (initializedness (core i))) = Changed_No"
  by (auto simp: join_into_def case_prod_beta Let_def changed_bitor_def is_yes_eq)

lemma state_eq_iff: "(s :: product_state) = t \<longleftrightarrow>
    core s = core t \<and> extension_slots s = extension_slots t"
  by auto

lemma join_into_unchanged_iff: "fst (join_into s i) = Changed_No \<longleftrightarrow> snd (join_into s i) = s"
proof -
  have reach: "fst (domain_join_into reachability_ops (reachability (core s))
      (reachability (core i))) = Changed_No \<longleftrightarrow>
    reachability_join (reachability (core s)) (reachability (core i)) = reachability (core s)"
    by (simp add: domain_join_into_def Let_def)
  show ?thesis
    unfolding fst_join_into reach nilness.join_place_map_unchanged_iff
      truthiness.join_place_map_unchanged_iff constants.join_place_map_unchanged_iff
      strings.join_place_map_unchanged_iff initializedness.join_place_map_unchanged_iff
      state_eq_iff
    by (subst core_join_into) (cases s, cases "core s", auto)
qed

lemma join_into_upper:
  "state_leq s (snd (join_into s i))" "state_leq i (snd (join_into s i))"
  using reachability.join_upper reachability.join_upper_right
    nilness.join_place_map_upper truthiness.join_place_map_upper
    constants.join_place_map_upper strings.join_place_map_upper
    initializedness.join_place_map_upper
  by (simp_all add: state_leq_def core_join_into)

lemma join_into_leq_iff:
  assumes "state_wf s"
  shows "fst (join_into s i) = Changed_No \<longleftrightarrow> state_leq i s"
proof -
  have "fst (domain_join_into reachability_ops (reachability (core s))
      (reachability (core i))) = Changed_No \<longleftrightarrow>
    reachability_leq (reachability (core i)) (reachability (core s))"
    using reachability.join_into_No_iff by simp
  then show ?thesis
    using assms
    by (simp add: fst_join_into state_leq_def state_wf_def nilness.join_place_map_leq_iff
        truthiness.join_place_map_leq_iff constants.join_place_map_leq_iff
        strings.join_place_map_leq_iff initializedness.join_place_map_leq_iff)
qed

lemma state_leq_refl: "state_leq s s"
  using reachability.leq_refl
  by (simp add: state_leq_def nilness.place_map_leq_refl truthiness.place_map_leq_refl
      constants.place_map_leq_refl strings.place_map_leq_refl initializedness.place_map_leq_refl)

lemma state_leq_trans: "state_leq a b \<Longrightarrow> state_leq b c \<Longrightarrow> state_leq a c"
  using reachability.leq_trans
  by (simp add: state_leq_def)
    (meson nilness.place_map_leq_trans truthiness.place_map_leq_trans
      constants.place_map_leq_trans strings.place_map_leq_trans
      initializedness.place_map_leq_trans)

lemma state_leq_bottom: "state_leq state_bottom s"
  using reachability.bottom_least
  by (simp add: state_leq_def state_bottom_def core_domains_bottom_def
      nilness.place_map_leq_slots truthiness.place_map_leq_slots constants.place_map_leq_slots
      strings.place_map_leq_slots initializedness.place_map_leq_slots
      nilness.bottom_least [simplified] truthiness.bottom_least [simplified]
      constants.bottom_least [simplified] strings.bottom_least [simplified]
      initializedness.bottom_least [simplified])

lemma state_wf_join_into: "state_wf s \<Longrightarrow> state_wf i \<Longrightarrow> state_wf (snd (join_into s i))"
  by (simp add: state_wf_def core_join_into constants.map_wf_join_place_map
      strings.map_wf_join_place_map)

lemma state_wf_bottom [simp]: "state_wf state_bottom"
  by (simp add: state_wf_def state_bottom_def core_domains_bottom_def)

lemma state_wf_entry [simp]: "state_wf state_entry"
  by (simp add: state_wf_def state_entry_def core_domains_entry_def core_domains_bottom_def)


section \<open>Only boundedly many joins change a state\<close>

definition map_height ::
  "'d abstract_domain_ops \<Rightarrow> ('d \<Rightarrow> nat) \<Rightarrow> place_id set \<Rightarrow> (place_id, 'd) fmap \<Rightarrow> nat" where
  "map_height D h P m = (\<Sum>p\<in>P. h (slot D m p))"

context finite_height_domain
begin

lemma map_height_bound: "finite P \<Longrightarrow> map_wf wf m \<Longrightarrow> map_height D h P m \<le> H * card P"
  unfolding map_height_def
  using sum_bounded_above [of P "\<lambda>p. h (slot D m p)" H] by (simp add: h_bound slot_wf mult.commute)

lemma map_height_mono:
  "map_wf wf t \<Longrightarrow> map_wf wf i \<Longrightarrow>
   map_height D h P t \<le> map_height D h P (snd (join_place_map D t i))"
  unfolding map_height_def slot_join_place_map by (intro sum_mono h_join_mono slot_wf)

lemma map_height_strict:
  assumes P: "finite P" "fset (fmdom i) \<subseteq> P" and wf: "map_wf wf t" "map_wf wf i"
    and yes: "fst (join_place_map D t i) = Changed_Yes"
  shows "map_height D h P t < map_height D h P (snd (join_place_map D t i))"
proof -
  obtain q where q: "ad_join D (slot D t q) (slot D i q) \<noteq> slot D t q"
    using yes join_place_map_changed [of t i] by blast
  then have "fmlookup i q \<noteq> None" by (cases "fmlookup i q") (simp_all add: join_bottom)
  then have "q \<in> P" using P(2) by (auto simp: fmlookup_dom_iff)
  moreover have "h (slot D t q) < h (ad_join D (slot D t q) (slot D i q))"
    using q wf by (intro h_join_strict slot_wf)
  ultimately show ?thesis
    unfolding map_height_def slot_join_place_map using P(1) wf
    by (intro sum_strict_mono_ex1) (auto intro: h_join_mono slot_wf)
qed

end

definition state_height :: "place_id set \<Rightarrow> product_state \<Rightarrow> nat" where
  "state_height P s =
     reachability_height (reachability (core s))
     + map_height nilness_ops nilness_height P (nilness (core s))
     + map_height truthiness_ops truthiness_height P (truthiness (core s))
     + map_height constant_ops constant_height P (constants (core s))
     + map_height string_ops string_height P (strings (core s))
     + map_height initializedness_ops initializedness_height P (initializedness (core s))"

lemma state_height_bound:
  assumes "finite P" "state_wf s"
  shows "state_height P s \<le> 4 + 26 * card P"
proof -
  have "reachability_height (reachability (core s)) \<le> 4"
    using reachability_h.h_bound by simp
  moreover have "map_height nilness_ops nilness_height P (nilness (core s)) \<le> 4 * card P"
    "map_height truthiness_ops truthiness_height P (truthiness (core s)) \<le> 4 * card P"
    "map_height initializedness_ops initializedness_height P (initializedness (core s))
       \<le> 4 * card P"
    using assms(1) by (simp_all add: nilness_h.map_height_bound truthiness_h.map_height_bound
        initializedness_h.map_height_bound)
  moreover have "map_height constant_ops constant_height P (constants (core s)) \<le> 7 * card P"
    "map_height string_ops string_height P (strings (core s)) \<le> 7 * card P"
    using assms by (simp_all add: state_wf_def constants_h.map_height_bound
        strings_h.map_height_bound)
  ultimately show ?thesis unfolding state_height_def by simp
qed

lemma reachability_height_join:
  "reachability_height r \<le> reachability_height (reachability_join r q)"
  "reachability_join r q \<noteq> r \<Longrightarrow> reachability_height r < reachability_height (reachability_join r q)"
  using reachability_h.h_join_mono [of r q] reachability_h.h_join_strict [of r q] by simp_all

lemma state_height_strict:
  assumes P: "finite P" "fset (observed_places i) \<subseteq> P" and wf: "state_wf s" "state_wf i"
    and yes: "fst (join_into s i) = Changed_Yes"
  shows "state_height P s < state_height P (snd (join_into s i))"
proof -
  let ?d = "\<lambda>f. fset (fmdom (f (core i))) \<subseteq> P"
  have dom: "?d nilness" "?d truthiness" "?d constants" "?d strings" "?d initializedness"
    using P(2) by (auto simp: observed_places_def)
  have wfs: "map_wf constant_wf (constants (core s))" "map_wf constant_wf (constants (core i))"
    "map_wf string_wf (strings (core s))" "map_wf string_wf (strings (core i))"
    using wf by (simp_all add: state_wf_def)
  note mono = reachability_height_join(1) [of "reachability (core s)" "reachability (core i)"]
    nilness_h.map_height_mono [OF map_wf_trivial map_wf_trivial, of P "nilness (core s)" "nilness (core i)"]
    truthiness_h.map_height_mono [OF map_wf_trivial map_wf_trivial, of P "truthiness (core s)" "truthiness (core i)"]
    initializedness_h.map_height_mono [OF map_wf_trivial map_wf_trivial, of P "initializedness (core s)" "initializedness (core i)"]
    constants_h.map_height_mono [OF wfs(1,2), of P] strings_h.map_height_mono [OF wfs(3,4), of P]
  note strict = nilness_h.map_height_strict [OF P(1) dom(1) map_wf_trivial map_wf_trivial]
    truthiness_h.map_height_strict [OF P(1) dom(2) map_wf_trivial map_wf_trivial]
    constants_h.map_height_strict [OF P(1) dom(3) wfs(1,2)]
    strings_h.map_height_strict [OF P(1) dom(4) wfs(3,4)]
    initializedness_h.map_height_strict [OF P(1) dom(5) map_wf_trivial map_wf_trivial]
  have reach: "fst (domain_join_into reachability_ops (reachability (core s))
      (reachability (core i))) = Changed_Yes \<Longrightarrow>
    reachability_height (reachability (core s))
      < reachability_height (reachability_join (reachability (core s)) (reachability (core i)))"
    using reachability_height_join(2) by (simp add: domain_join_into_def Let_def split: if_splits)
  have "fst (join_into s i) \<noteq> Changed_No" using yes by simp
  then consider
      "fst (domain_join_into reachability_ops (reachability (core s)) (reachability (core i)))
         = Changed_Yes"
    | "fst (join_place_map nilness_ops (nilness (core s)) (nilness (core i))) = Changed_Yes"
    | "fst (join_place_map truthiness_ops (truthiness (core s)) (truthiness (core i)))
         = Changed_Yes"
    | "fst (join_place_map constant_ops (constants (core s)) (constants (core i))) = Changed_Yes"
    | "fst (join_place_map string_ops (strings (core s)) (strings (core i))) = Changed_Yes"
    | "fst (join_place_map initializedness_ops (initializedness (core s))
         (initializedness (core i))) = Changed_Yes"
    unfolding fst_join_into by fastforce
  then show ?thesis
  proof cases
    case 1
    from reach [OF this] mono show ?thesis by (simp add: state_height_def core_join_into)
  next
    case 2
    from strict(1) [OF this] mono show ?thesis by (simp add: state_height_def core_join_into)
  next
    case 3
    from strict(2) [OF this] mono show ?thesis by (simp add: state_height_def core_join_into)
  next
    case 4
    from strict(3) [OF this] mono show ?thesis by (simp add: state_height_def core_join_into)
  next
    case 5
    from strict(4) [OF this] mono show ?thesis by (simp add: state_height_def core_join_into)
  next
    case 6
    from strict(5) [OF this] mono show ?thesis by (simp add: state_height_def core_join_into)
  qed
qed


text \<open>Joining a sequence of states into one accumulator, as the solver does at a block.\<close>

fun join_flags :: "product_state \<Rightarrow> product_state list \<Rightarrow> changed list" where
  "join_flags s [] = []"
| "join_flags s (i # is) = fst (join_into s i) # join_flags (snd (join_into s i)) is"

lemma join_flags_bound:
  assumes "finite P"
  shows "state_wf s \<Longrightarrow> \<forall>i\<in>set is. state_wf i \<and> fset (observed_places i) \<subseteq> P \<Longrightarrow>
    state_height P s + length (filter is_yes (join_flags s is)) \<le> 4 + 26 * card P"
proof (induction "is" arbitrary: s)
  case Nil
  then show ?case using state_height_bound [OF assms] by simp
next
  case (Cons i "is")
  have IH: "state_height P (snd (join_into s i))
      + length (filter is_yes (join_flags (snd (join_into s i)) is)) \<le> 4 + 26 * card P"
    using Cons by (simp add: state_wf_join_into)
  show ?case
  proof (cases "fst (join_into s i)")
    case Changed_Yes
    then have "state_height P s < state_height P (snd (join_into s i))"
      using Cons.prems by (intro state_height_strict [OF assms]) simp_all
    with IH Changed_Yes show ?thesis by simp
  next
    case Changed_No
    then have "snd (join_into s i) = s" using join_into_unchanged_iff by blast
    with IH Changed_No show ?thesis by simp
  qed
qed


section \<open>Reduction settles in one round\<close>

lemma derived_values_other [simp]:
  "derived_values ConstBottom = (NilBottom, TruthBottom, StrBottom)"
  "derived_values (ConstTop r) = (NilBottom, TruthBottom, StrBottom)"
  by (simp_all add: derived_values_def)

lemma reduce_constant_joins:
  "reduce_constant p c s =
     (changed_bitor (changed_bitor
        (fst (join_single nilness_ops (nilness (core s)) p (fst (derived_values c))))
        (fst (join_single truthiness_ops (truthiness (core s)) p (fst (snd (derived_values c))))))
        (fst (join_single string_ops (strings (core s)) p (snd (snd (derived_values c))))),
      s \<lparr> core := (core s)
        \<lparr> nilness := snd (join_single nilness_ops (nilness (core s)) p (fst (derived_values c))),
          truthiness := snd (join_single truthiness_ops (truthiness (core s)) p
                               (fst (snd (derived_values c)))),
          strings := snd (join_single string_ops (strings (core s)) p
                            (snd (snd (derived_values c)))) \<rparr> \<rparr>)"
  by (cases c) (simp_all add: reduce_constant_def join_single_def nilness_is_bottom_def
      truthiness_is_bottom_def string_is_bottom_def case_prod_beta Let_def)

definition derived_entries ::
  "(nilness_domain \<times> truthiness_domain \<times> string_domain \<Rightarrow> 'd) \<Rightarrow> (place_id \<times> constant_domain) list
     \<Rightarrow> (place_id \<times> 'd) list" where
  "derived_entries f es = map (\<lambda>(p, c). (p, f (derived_values c))) es"

lemma derived_entries_simps [simp]:
  "derived_entries f [] = []"
  "derived_entries f (e # es) = (fst e, f (derived_values (snd e))) # derived_entries f es"
  "map fst (derived_entries f es) = map fst es"
  by (simp_all add: derived_entries_def case_prod_beta comp_def)

lemma map_of_derived_entries:
  "map_of (derived_entries f es) p = map_option (\<lambda>c. f (derived_values c)) (map_of es p)"
  by (induction es) (auto simp: derived_entries_def case_prod_beta)

lemma reduce_round_step_apply:
  "reduce_round_step e (c, s) =
     (changed_bitor c (fst (reduce_constant (fst e) (snd e) s)),
      snd (reduce_constant (fst e) (snd e) s))"
  by (simp add: reduce_round_step_def case_prod_beta)

lemma reduce_fold:
  "snd (fold reduce_round_step es (c, s)) =
     s \<lparr> core := (core s)
       \<lparr> nilness := snd (fold (join_place_step nilness_ops) (derived_entries fst es)
                           (c1, nilness (core s))),
         truthiness := snd (fold (join_place_step truthiness_ops)
                           (derived_entries (fst \<circ> snd) es) (c2, truthiness (core s))),
         strings := snd (fold (join_place_step string_ops) (derived_entries (snd \<circ> snd) es)
                           (c3, strings (core s))) \<rparr> \<rparr>"
proof (induction es arbitrary: c s c1 c2 c3)
  case (Cons e es)
  let ?v = "derived_values (snd e)"
  show ?case
    by (simp add: reduce_round_step_apply reduce_constant_joins join_place_step_apply
        Cons.IH [where ?c1.0 = "changed_bitor c1
            (fst (join_single nilness_ops (nilness (core s)) (fst e) (fst ?v)))"
          and ?c2.0 = "changed_bitor c2
            (fst (join_single truthiness_ops (truthiness (core s)) (fst e) (fst (snd ?v))))"
          and ?c3.0 = "changed_bitor c3
            (fst (join_single string_ops (strings (core s)) (fst e) (snd (snd ?v))))"])
qed simp

lemma reduce_fold_changed:
  "fst (fold reduce_round_step es (changed_bitor (changed_bitor c1 c2) c3, s)) =
     changed_bitor (changed_bitor
       (fst (fold (join_place_step nilness_ops) (derived_entries fst es) (c1, nilness (core s))))
       (fst (fold (join_place_step truthiness_ops) (derived_entries (fst \<circ> snd) es)
               (c2, truthiness (core s)))))
       (fst (fold (join_place_step string_ops) (derived_entries (snd \<circ> snd) es)
               (c3, strings (core s))))"
proof (induction es arbitrary: c1 c2 c3 s)
  case (Cons e es)
  have swap: "changed_bitor (changed_bitor (changed_bitor a b) c)
      (changed_bitor (changed_bitor x y) z) =
    changed_bitor (changed_bitor (changed_bitor a x) (changed_bitor b y)) (changed_bitor c z)"
    for a b c x y z
    by (cases a; cases b; cases c; cases x; cases y; cases z) simp_all
  show ?case
    by (simp add: reduce_round_step_apply reduce_constant_joins join_place_step_apply swap Cons.IH)
qed simp


lemma core_reduce_round:
  "core (snd (reduce_round s)) = (core s)
     \<lparr> nilness := nilness (core (snd (reduce_round s))),
       truthiness := truthiness (core (snd (reduce_round s))),
       strings := strings (core (snd (reduce_round s))) \<rparr>"
  by (simp add: reduce_round_def reduce_fold [of _ _ _ Changed_No Changed_No Changed_No])

lemma reduce_round_frame [simp]:
  "constants (core (snd (reduce_round s))) = constants (core s)"
  "reachability (core (snd (reduce_round s))) = reachability (core s)"
  "initializedness (core (snd (reduce_round s))) = initializedness (core s)"
  "extension_slots (snd (reduce_round s)) = extension_slots s"
  by (subst core_reduce_round, simp)+
    (simp add: reduce_round_def reduce_fold [of _ _ _ Changed_No Changed_No Changed_No])

abbreviation derived_at :: "product_state \<Rightarrow> place_id
    \<Rightarrow> nilness_domain \<times> truthiness_domain \<times> string_domain" where
  "derived_at s p \<equiv> derived_values (fm_get_or ConstBottom (constants (core s)) p)"

lemma reduce_round_slots:
  "slot nilness_ops (nilness (core (snd (reduce_round s)))) p =
     nilness_join (slot nilness_ops (nilness (core s)) p) (fst (derived_at s p))"
  "slot truthiness_ops (truthiness (core (snd (reduce_round s)))) p =
     truthiness_join (slot truthiness_ops (truthiness (core s)) p) (fst (snd (derived_at s p)))"
  "slot string_ops (strings (core (snd (reduce_round s)))) p =
     string_join (slot string_ops (strings (core s)) p) (snd (snd (derived_at s p)))"
proof -
  note fold = reduce_round_def reduce_fold [of _ _ _ Changed_No Changed_No Changed_No]
  show "slot nilness_ops (nilness (core (snd (reduce_round s)))) p =
     nilness_join (slot nilness_ops (nilness (core s)) p) (fst (derived_at s p))"
    using nilness.slot_join_fold [of "derived_entries fst (bt_entries (constants (core s)))"]
      nilness.join_bottom
    by (cases "fmlookup (constants (core s)) p")
      (simp_all add: fold map_of_derived_entries fm_get_or_def)
  show "slot truthiness_ops (truthiness (core (snd (reduce_round s)))) p =
     truthiness_join (slot truthiness_ops (truthiness (core s)) p) (fst (snd (derived_at s p)))"
    using truthiness.slot_join_fold [of "derived_entries (fst \<circ> snd) (bt_entries (constants (core s)))"]
      truthiness.join_bottom
    by (cases "fmlookup (constants (core s)) p")
      (simp_all add: fold map_of_derived_entries fm_get_or_def)
  show "slot string_ops (strings (core (snd (reduce_round s)))) p =
     string_join (slot string_ops (strings (core s)) p) (snd (snd (derived_at s p)))"
    using strings.slot_join_fold [of "derived_entries (snd \<circ> snd) (bt_entries (constants (core s)))"]
      strings.join_bottom
    by (cases "fmlookup (constants (core s)) p")
      (simp_all add: fold map_of_derived_entries fm_get_or_def)
qed

lemma reduce_round_No_iff:
  "fst (reduce_round s) = Changed_No \<longleftrightarrow>
     (\<forall>p. nilness_join (slot nilness_ops (nilness (core s)) p) (fst (derived_at s p))
            = slot nilness_ops (nilness (core s)) p
        \<and> truthiness_join (slot truthiness_ops (truthiness (core s)) p) (fst (snd (derived_at s p)))
            = slot truthiness_ops (truthiness (core s)) p
        \<and> string_join (slot string_ops (strings (core s)) p) (snd (snd (derived_at s p)))
            = slot string_ops (strings (core s)) p)"
proof -
  let ?es = "\<lambda>f. derived_entries f (bt_entries (constants (core s)))"
  have at: "(case map_of (?es f) p of Some v \<Rightarrow> v | None \<Rightarrow> b) = f (derived_at s p)"
    if "f (NilBottom, TruthBottom, StrBottom) = b" for f :: "_ \<Rightarrow> 'z" and b p
    using that by (simp add: map_of_derived_entries fm_get_or_def split: option.split)
  have "fst (reduce_round s) = Changed_No \<longleftrightarrow>
      fst (fold (join_place_step nilness_ops) (?es fst) (Changed_No, nilness (core s)))
        = Changed_No
      \<and> fst (fold (join_place_step truthiness_ops) (?es (fst \<circ> snd))
          (Changed_No, truthiness (core s))) = Changed_No
      \<and> fst (fold (join_place_step string_ops) (?es (snd \<circ> snd))
          (Changed_No, strings (core s))) = Changed_No"
    using reduce_fold_changed [of "bt_entries (constants (core s))" Changed_No Changed_No
        Changed_No s]
    by (auto simp: reduce_round_def changed_bitor_def is_yes_eq)
  then show ?thesis
    using nilness.join_fold_No_iff [of "?es fst" "nilness (core s)"]
      truthiness.join_fold_No_iff [of "?es (fst \<circ> snd)" "truthiness (core s)"]
      strings.join_fold_No_iff [of "?es (snd \<circ> snd)" "strings (core s)"]
    by (simp add: at [of fst] at [of "fst \<circ> snd"] at [of "snd \<circ> snd"]) blast
qed

lemma reduce_literal_mono:
  assumes "reduce_literal l (n, t, s) = (n', t', s')"
  shows "nilness_leq n n' \<and> truthiness_leq t t' \<and> string_leq s s'
    \<and> (\<forall>v. nilness_from_literal l = Some v \<longrightarrow> nilness_leq v n')
    \<and> (\<forall>v. truthiness_from_literal l = Some v \<longrightarrow> truthiness_leq v t')
    \<and> (\<forall>v. l = LString v \<longrightarrow> string_leq (string_from_literal v) s')
    \<and> (string_wf s \<longrightarrow> string_wf s')"
proof -
  have wf1: "string_wf (string_from_literal v)" for v
    by (simp add: string_wf_def string_from_literal_def LITERAL_SET_CAP_def)
  have upper: "nilness_leq a (nilness_join a b)" "nilness_leq b (nilness_join a b)"
    "truthiness_leq c (truthiness_join c d)" "truthiness_leq d (truthiness_join c d)"
    "string_leq e (string_join e f)" "string_leq f (string_join e f)" for a b c d e f
    using nilness.join_upper nilness.join_upper_right truthiness.join_upper
      truthiness.join_upper_right strings.join_upper strings.join_upper_right by simp_all
  have refl: "nilness_leq n n" "truthiness_leq t t" "string_leq s s"
    using nilness.leq_refl truthiness.leq_refl strings.leq_refl by simp_all
  have wf: "string_wf e \<Longrightarrow> string_wf (string_join e (string_from_literal v))" for e v
    using strings.wf_join [of e "string_from_literal v"] wf1 by simp
  show ?thesis
    using assms refl upper wf
    by (cases l) (auto simp: reduce_literal_def nilness.join_into_snd truthiness.join_into_snd
        strings.join_into_snd)
qed

lemma reduce_literals_upper:
  assumes "fold reduce_literal ls (n, t, s) = (n', t', s')"
  shows "nilness_leq n n' \<and> truthiness_leq t t' \<and> string_leq s s'
    \<and> (\<forall>l\<in>set ls. (\<forall>v. nilness_from_literal l = Some v \<longrightarrow> nilness_leq v n')
        \<and> (\<forall>v. truthiness_from_literal l = Some v \<longrightarrow> truthiness_leq v t')
        \<and> (\<forall>v. l = LString v \<longrightarrow> string_leq (string_from_literal v) s'))
    \<and> (string_wf s \<longrightarrow> string_wf s')"
  using assms
proof (induction ls arbitrary: n t s)
  case Nil
  then show ?case
    using nilness.leq_refl truthiness.leq_refl strings.leq_refl by simp
next
  case (Cons l ls)
  obtain n1 t1 s1 where step: "reduce_literal l (n, t, s) = (n1, t1, s1)"
    by (metis prod_cases3)
  note this_step = reduce_literal_mono [OF step]
  have rest: "fold reduce_literal ls (n1, t1, s1) = (n', t', s')" using Cons.prems step by simp
  note IH = Cons.IH [OF rest]
  have trans: "nilness_leq a n1 \<Longrightarrow> nilness_leq a n'" "truthiness_leq b t1 \<Longrightarrow> truthiness_leq b t'"
    "string_leq c s1 \<Longrightarrow> string_leq c s'" for a b c
    using IH nilness.leq_trans truthiness.leq_trans strings.leq_trans by simp_all
  show ?case using this_step IH by (auto intro: trans)
qed

lemma derived_values_upper:
  assumes "l |\<in>| vs"
  shows "\<forall>v. nilness_from_literal l = Some v \<longrightarrow> nilness_leq v (fst (derived_values (ConstValues vs)))"
    "\<forall>v. truthiness_from_literal l = Some v \<longrightarrow>
       truthiness_leq v (fst (snd (derived_values (ConstValues vs))))"
    "\<forall>v. l = LString v \<longrightarrow>
       string_leq (string_from_literal v) (snd (snd (derived_values (ConstValues vs))))"
proof -
  obtain n t s where f: "fold reduce_literal (bt_elems vs) (NilBottom, TruthBottom, StrBottom)
      = (n, t, s)" by (metis prod_cases3)
  have d: "derived_values (ConstValues vs) = (n, t, s)" using f by (simp add: derived_values_def)
  have "l \<in> set (bt_elems vs)" using assms by simp
  then show "\<forall>v. nilness_from_literal l = Some v \<longrightarrow> nilness_leq v (fst (derived_values (ConstValues vs)))"
    "\<forall>v. truthiness_from_literal l = Some v \<longrightarrow>
       truthiness_leq v (fst (snd (derived_values (ConstValues vs))))"
    "\<forall>v. l = LString v \<longrightarrow>
       string_leq (string_from_literal v) (snd (snd (derived_values (ConstValues vs))))"
    using reduce_literals_upper [OF f] by (simp_all add: d)
qed

lemma derived_strings_wf: "string_wf (snd (snd (derived_values c)))"
proof (cases c)
  case (ConstValues vs)
  obtain n t s where f: "fold reduce_literal (bt_elems vs) (NilBottom, TruthBottom, StrBottom)
      = (n, t, s)" by (metis prod_cases3)
  have "string_wf StrBottom" using strings.wf_bottom by simp
  with reduce_literals_upper [OF f] show ?thesis
    by (simp add: ConstValues derived_values_def f)
qed (use strings.wf_bottom in simp_all)

lemma reduce_round_twice:
  assumes "state_wf s"
  shows "fst (reduce_round (snd (reduce_round s))) = Changed_No"
proof -
  have "string_wf (slot string_ops (strings (core s)) p)" for p
    using assms strings.slot_wf [of "strings (core s)" p] by (simp add: state_wf_def)
  then have "string_join (string_join (slot string_ops (strings (core s)) p) d) d =
      string_join (slot string_ops (strings (core s)) p) d" if "string_wf d" for p d
    using that strings.join_twice by simp
  then show ?thesis
    unfolding reduce_round_No_iff reduce_round_slots reduce_round_frame
    using nilness.join_twice truthiness.join_twice derived_strings_wf by simp
qed


lemma reduce_value_only_eq:
  assumes "state_wf s"
  shows "snd (reduce_value_only (Suc n) s) = snd (reduce_round s)"
proof -
  have No: "fst (reduce_round t) = Changed_No \<Longrightarrow> snd (reduce_round t) = t" for t
    using reduce_fold_changed [of "bt_entries (constants (core t))" Changed_No Changed_No
        Changed_No t] reduce_fold [of "bt_entries (constants (core t))" Changed_No t Changed_No
        Changed_No Changed_No]
      nilness.join_fold_No truthiness.join_fold_No strings.join_fold_No
    by (auto simp: reduce_round_def changed_bitor_def is_yes_eq split: if_splits)
  show ?thesis
    using reduce_round_twice [OF assms] No [of "snd (reduce_round s)"]
    by (cases n) (auto simp: case_prod_beta Let_def)
qed

lemma reduce_value_only_frame [simp]:
  "constants (core (snd (reduce_value_only n s))) = constants (core s)"
  "reachability (core (snd (reduce_value_only n s))) = reachability (core s)"
  "initializedness (core (snd (reduce_value_only n s))) = initializedness (core s)"
  "extension_slots (snd (reduce_value_only n s)) = extension_slots s"
  by (induction n arbitrary: s) (simp_all add: case_prod_beta Let_def)


section \<open>Widening\<close>

lemma fold_widen_lookup:
  "distinct (map fst es) \<Longrightarrow>
   fmlookup (fold (widen_place_step D current site fuel) es out) q =
     (case map_of es q of
        Some v \<Rightarrow> (let w = ad_widen D (slot D current q) v site fuel
                   in if ad_is_bottom D w then None else Some w)
      | None \<Rightarrow> fmlookup out q)"
proof (induction es arbitrary: out)
  case (Cons e es)
  obtain p v where e: "e = (p, v)" by force
  have "map_of es p = None" using Cons.prems e by (simp add: map_of_eq_None_iff)
  with Cons e show ?case by (auto simp: widen_place_step_def Let_def split: option.split)
qed simp

lemma lookup_widen_place_map:
  "fmlookup (widen_place_map D current nxt site fuel) q =
     (case fmlookup nxt q of
        Some v \<Rightarrow> (let w = ad_widen D (slot D current q) v site fuel
                   in if ad_is_bottom D w then None else Some w)
      | None \<Rightarrow> fmlookup current q)"
  by (simp add: widen_place_map_def fold_widen_lookup)

context abstract_domain
begin

lemma slot_widen_place_map:
  "slot D (widen_place_map D current nxt site fuel) q =
     (case fmlookup nxt q of
        Some v \<Rightarrow> ad_widen D (slot D current q) v site fuel | None \<Rightarrow> slot D current q)"
  by (cases "fmlookup nxt q")
    (auto simp: fm_get_or_def lookup_widen_place_map is_bottom_iff Let_def split: option.splits)

lemma slot_widen_is_join:
  assumes "\<And>p v. fmlookup nxt p = Some v \<Longrightarrow>
      ad_widen D (slot D current p) v site fuel = ad_join D (slot D current p) v"
  shows "slot D (widen_place_map D current nxt site fuel) q =
      slot D (snd (join_place_map D current nxt)) q"
  using assms by (cases "fmlookup nxt q")
    (simp_all add: slot_widen_place_map slot_join_place_map join_bottom)

end


section \<open>Properties\<close>

text \<open>
  \<open>ProductState::join_into\<close> computes an upper bound of both states in the product order, and
  it reports \<open>Changed::No\<close> exactly when the receiver is unchanged.
\<close>

theorem product_join_upper_bound:
  "state_leq s (snd (join_into s i)) \<and> state_leq i (snd (join_into s i))
   \<and> (fst (join_into s i) = Changed_No \<longleftrightarrow> snd (join_into s i) = s)"
  by (intro conjI join_into_upper join_into_unchanged_iff)

text \<open>
  When the receiver keeps its literal sets within the cap, \<open>join_into\<close> reports no change
  exactly when the incoming state was already below the receiver, and it keeps the cap.
\<close>

theorem product_join_changed_iff:
  assumes "state_wf s" "state_wf i"
  shows "(fst (join_into s i) = Changed_No \<longleftrightarrow> state_leq i s) \<and> state_wf (snd (join_into s i))"
  using assms by (simp add: join_into_leq_iff state_wf_join_into)

definition sample_state :: product_state where
  "sample_state = state_entry \<lparr> core := (core state_entry)
     \<lparr> constants := fmupd 1 (ConstValues {|LNull|}) fmempty,
       nilness := fmupd 1 IsNil fmempty \<rparr> \<rparr>"

lemma sample_state_wf: "state_wf sample_state"
  by (simp add: sample_state_def state_wf_def state_entry_def core_domains_entry_def
      core_domains_bottom_def constant_wf_def LITERAL_SET_CAP_def)

theorem product_join_changed_iff_witness:
  "\<not> state_leq sample_state state_entry \<and> fst (join_into state_entry sample_state) = Changed_Yes"
proof -
  have "\<not> state_leq sample_state state_entry" by code_simp
  with product_join_changed_iff [OF state_wf_entry sample_state_wf] show ?thesis by simp
qed

text \<open>
  C27: Joining any sequence of states over a finite set of places into one accumulator changes it
  at most \<open>4 + 26 * |P|\<close> times, so the fixpoint iteration of the solver cannot keep changing a
  block state for ever.
\<close>

theorem product_joins_bounded:
  assumes "finite P" "state_wf s"
    and "\<forall>i\<in>set is. state_wf i \<and> fset (observed_places i) \<subseteq> P"
  shows "length (filter is_yes (join_flags s is)) \<le> 4 + 26 * card P"
  using join_flags_bound [OF assms] by simp

theorem product_joins_bounded_witness:
  "join_flags state_bottom [sample_state, state_entry, sample_state]
     = [Changed_Yes, Changed_No, Changed_No]
   \<and> length (filter is_yes (join_flags state_bottom [sample_state, state_entry, sample_state])) \<le> 30"
proof -
  have "fset (observed_places sample_state) \<subseteq> {1}" "fset (observed_places state_entry) \<subseteq> {1}"
    by (simp_all add: observed_places_def sample_state_def state_entry_def core_domains_entry_def
        core_domains_bottom_def)
  then have "length (filter is_yes (join_flags state_bottom [sample_state, state_entry, sample_state]))
      \<le> 4 + 26 * card {1 :: nat}"
    by (intro product_joins_bounded) (simp_all add: sample_state_wf)
  moreover have "join_flags state_bottom [sample_state, state_entry, sample_state]
      = [Changed_Yes, Changed_No, Changed_No]" by code_simp
  ultimately show ?thesis by simp
qed

text \<open>
  \<open>reduce_value_only\<close> settles in its first round: any larger round budget returns the state of
  one round, on which another round reports no change; constants, reachability and initializedness
  are never touched by it.
\<close>

theorem reduction_settles:
  assumes "state_wf s"
  shows "snd (reduce_value_only (Suc n) s) = snd (reduce_round s)
    \<and> fst (reduce_value_only m (snd (reduce_value_only (Suc n) s))) = Changed_No
    \<and> constants (core (snd (reduce_value_only m s))) = constants (core s)
    \<and> reachability (core (snd (reduce_value_only m s))) = reachability (core s)
    \<and> initializedness (core (snd (reduce_value_only m s))) = initializedness (core s)"
  using reduce_value_only_eq [OF assms, of n] reduce_round_twice [OF assms]
  by (cases m) (simp_all add: case_prod_beta Let_def)

theorem reduction_settles_witness:
  "snd (reduce_value_only 4 sample_state) = snd (reduce_round sample_state)
   \<and> fst (reduce_value_only 4 sample_state) = Changed_Yes"
proof -
  have "snd (reduce_value_only (Suc 3) sample_state) = snd (reduce_round sample_state)"
    using reduction_settles [OF sample_state_wf, of 3 0] by blast
  moreover have "fst (reduce_value_only 4 sample_state) = Changed_Yes" by code_simp
  moreover have four: "Suc 3 = 4" by simp
  ultimately show ?thesis unfolding four by blast
qed

text \<open>
  After a reduction, the nilness, truthiness and string facts of a place cover what each
  literal of its constant set implies.
\<close>

theorem reduction_covers_literals:
  assumes "state_wf s" "fmlookup (constants (core s)) p = Some (ConstValues vs)" "l |\<in>| vs"
  shows "(\<forall>v. nilness_from_literal l = Some v \<longrightarrow>
            nilness_leq v (slot nilness_ops (nilness (core (snd (reduce_value_only (Suc n) s)))) p))
     \<and> (\<forall>v. truthiness_from_literal l = Some v \<longrightarrow> truthiness_leq v
            (slot truthiness_ops (truthiness (core (snd (reduce_value_only (Suc n) s)))) p))
     \<and> (\<forall>v. l = LString v \<longrightarrow> string_leq (string_from_literal v)
            (slot string_ops (strings (core (snd (reduce_value_only (Suc n) s)))) p))"
proof -
  have at: "derived_at s p = derived_values (ConstValues vs)" using assms(2) by simp
  have up: "nilness_leq a b \<Longrightarrow> nilness_leq a (nilness_join c b)"
    "truthiness_leq d e \<Longrightarrow> truthiness_leq d (truthiness_join f e)"
    "string_leq g h \<Longrightarrow> string_leq g (string_join k h)" for a b c d e f g h k
    using nilness.leq_trans [OF _ nilness.join_upper_right]
      truthiness.leq_trans [OF _ truthiness.join_upper_right]
      strings.leq_trans [OF _ strings.join_upper_right] by simp_all
  show ?thesis
    unfolding reduce_value_only_eq [OF assms(1)] reduce_round_slots at
    using derived_values_upper [OF assms(3)] by (simp add: up)
qed

theorem reduction_covers_literals_witness:
  "nilness_leq IsNil (slot nilness_ops (nilness (core (snd (reduce_value_only 4 sample_state)))) 1)
   \<and> truthiness_leq Falsy
       (slot truthiness_ops (truthiness (core (snd (reduce_value_only 4 sample_state)))) 1)"
proof -
  have "fmlookup (constants (core sample_state)) 1 = Some (ConstValues {|LNull|})"
    by (simp add: sample_state_def)
  moreover have four: "Suc 3 = 4" by simp
  ultimately show ?thesis
    using reduction_covers_literals [of sample_state 1 "{|LNull|}" LNull 3, OF sample_state_wf]
    unfolding four by auto
qed

text \<open>
  While fuel is left and the next state is within the literal cap, widening gives the same
  state as the join, slot by slot.
\<close>

theorem product_widen_with_fuel_is_join:
  assumes "0 < remaining fuel" "state_wf s'"
  shows "state_leq (state_widen s s' site fuel) (snd (join_into s s'))
     \<and> state_leq (snd (join_into s s')) (state_widen s s' site fuel)"
proof -
  let ?w = "state_widen s s' site fuel" and ?j = "snd (join_into s s')"
  have c: "constant_widen x v site fuel = constant_join x v" if "constant_wf v" for x v
    using that assms(1) by (simp add: constant_widen_def constant_wf_def)
  have t: "string_widen x v site fuel = string_join x v" if "string_wf v" for x v
    using that assms(1) by (simp add: string_widen_def string_wf_def)
  have wf: "map_wf constant_wf (constants (core s'))" "map_wf string_wf (strings (core s'))"
    using assms(2) by (simp_all add: state_wf_def)
  have nilness: "slot nilness_ops (nilness (core ?w)) p = slot nilness_ops (nilness (core ?j)) p" for p
    using nilness.slot_widen_is_join [of "nilness (core s')" "nilness (core s)" site fuel]
    by (simp add: state_widen_def core_join_into default_widen_def)
  have truthiness: "slot truthiness_ops (truthiness (core ?w)) p = slot truthiness_ops (truthiness (core ?j)) p" for p
    using truthiness.slot_widen_is_join [of "truthiness (core s')" "truthiness (core s)" site fuel]
    by (simp add: state_widen_def core_join_into default_widen_def)
  have constants: "slot constant_ops (constants (core ?w)) p = slot constant_ops (constants (core ?j)) p" for p
    using constants.slot_widen_is_join [of "constants (core s')" "constants (core s)" site fuel]
    by (simp add: state_widen_def core_join_into c map_wf_lookup [OF wf(1)])
  have strings: "slot string_ops (strings (core ?w)) p = slot string_ops (strings (core ?j)) p" for p
    using strings.slot_widen_is_join [of "strings (core s')" "strings (core s)" site fuel]
    by (simp add: state_widen_def core_join_into t map_wf_lookup [OF wf(2)])
  have initializedness: "slot initializedness_ops (initializedness (core ?w)) p = slot initializedness_ops (initializedness (core ?j)) p" for p
    using initializedness.slot_widen_is_join [of "initializedness (core s')" "initializedness (core s)" site fuel]
    by (simp add: state_widen_def core_join_into default_widen_def)
  have "reachability (core ?w) = reachability (core ?j)"
    by (simp add: state_widen_def core_join_into default_widen_def)
  then show ?thesis
    using reachability.leq_refl [simplified trait_simps] nilness.leq_refl truthiness.leq_refl
      constants.leq_refl strings.leq_refl initializedness.leq_refl
    by (simp add: state_leq_def nilness.place_map_leq_slots truthiness.place_map_leq_slots
        constants.place_map_leq_slots strings.place_map_leq_slots
        initializedness.place_map_leq_slots nilness truthiness constants strings initializedness
        del: trait_simps)
qed

theorem product_widen_with_fuel_is_join_witness:
  "state_leq (state_widen state_entry sample_state \<lparr>site_stable_key = 7\<rparr> \<lparr>remaining = 3\<rparr>)
     (snd (join_into state_entry sample_state))"
  using product_widen_with_fuel_is_join [OF _ sample_state_wf, of "\<lparr>remaining = 3\<rparr>"] by simp

end
