(* ===== verification/Domain_Transfer.thy ===== *)
theory Domain_Transfer
  imports Facts Product_State
begin

text \<open>
  The transfer functions of the domain solver, \<open>analysis_neutral/domains/transfer.rs\<close>: the effect
  of one MIR operation on a product state (\<open>OperationTransfer\<close>) and of a branch edge
  (\<open>EdgeTransfer\<close>).
\<close>

section \<open>Context\<close>

record transfer_cx =
  cx_unresolved_calls :: "(call_site_id, unresolved_call_fact) fmap"
  cx_unsupported :: "(unsupported_id, unsupported_semantic_fact) fmap"

datatype branch_sense = Sense_True | Sense_False

datatype havoc_target = Havoc_Place place_id | Havoc_ReturnPlace place_id | Havoc_Argument place_id

definition transfer_cx_from_db ::
  "unresolved_call_fact list \<Rightarrow> unsupported_semantic_fact list \<Rightarrow> transfer_cx" where
  "transfer_cx_from_db unresolved_rows unsupported_rows =
     \<lparr> cx_unresolved_calls = fm_collect (map (\<lambda>row. (unres_site row, row)) unresolved_rows),
       cx_unsupported = fm_collect (map (\<lambda>row. (uns_id row, row)) unsupported_rows) \<rparr>"


section \<open>Literals\<close>

definition quoted :: "string \<Rightarrow> bool" where
  "quoted v \<longleftrightarrow> 2 \<le> length v \<and> hd v = CHR 0x22 \<and> last v = CHR 0x22"

definition is_ascii_digit :: "char \<Rightarrow> bool" where
  "is_ascii_digit c \<longleftrightarrow> CHR ''0'' \<le> c \<and> c \<le> CHR ''9''"

definition numeric_label :: "string \<Rightarrow> bool" where
  "numeric_label v \<longleftrightarrow>
     v \<noteq> [] \<and> list_all (\<lambda>byte. is_ascii_digit byte \<or> byte = CHR ''.'' \<or> byte = CHR ''-'') v"

definition literal_from_label :: "string \<Rightarrow> constant_literal" where
  "literal_from_label label =
     (if label = ''true'' then LBool True
      else if label = ''false'' then LBool False
      else if label = ''null'' then LNull
      else if label = ''undefined'' then LUndefined
      else if label = ''nil'' then LNil
      else if quoted label then LString (butlast (tl label))
      else if numeric_label label then LNumber label
      else LUnknown label)"


section \<open>Effects on one place\<close>

definition set_initializedness ::
  "place_id \<Rightarrow> initializedness_domain \<Rightarrow> product_state \<Rightarrow> product_state" where
  "set_initializedness place v state =
     state \<lparr> core := (core state)
       \<lparr> initializedness := fmupd place v (initializedness (core state)) \<rparr> \<rparr>"

definition mark_initialized :: "place_id \<Rightarrow> product_state \<Rightarrow> product_state" where
  "mark_initialized place state = set_initializedness place Initialized state"

definition clear_place_facts :: "place_id \<Rightarrow> product_state \<Rightarrow> product_state" where
  "clear_place_facts place state =
     state \<lparr> core := (core state)
       \<lparr> nilness := fmdrop place (nilness (core state)),
         truthiness := fmdrop place (truthiness (core state)),
         constants := fmdrop place (constants (core state)),
         strings := fmdrop place (strings (core state)),
         initializedness := fmdrop place (initializedness (core state)) \<rparr> \<rparr>"

definition apply_literal :: "place_id \<Rightarrow> string \<Rightarrow> product_state \<Rightarrow> product_state" where
  "apply_literal place label state =
     state \<lparr> core := (core state)
       \<lparr> constants := fmupd place (constant_from_literal (literal_from_label label))
                       (constants (core state)) \<rparr> \<rparr>"

definition copy_place :: "place_id \<Rightarrow> place_id \<Rightarrow> product_state \<Rightarrow> product_state" where
  "copy_place target source state =
     state \<lparr> core := (core state)
       \<lparr> nilness := copy_slot (nilness (core state)) (nilness (core state)) target source,
         truthiness := copy_slot (truthiness (core state)) (truthiness (core state)) target source,
         constants := copy_slot (constants (core state)) (constants (core state)) target source,
         strings := copy_slot (strings (core state)) (strings (core state)) target source \<rparr> \<rparr>"

fun assign_value :: "place_id \<Rightarrow> mir_value \<Rightarrow> product_state \<Rightarrow> product_state" where
  "assign_value place (Val_Literal v) state =
     apply_literal place v (mark_initialized place (clear_place_facts place state))"
| "assign_value place (Val_Place source) state =
     mark_initialized place
       (if source \<noteq> place then copy_place place source (clear_place_facts place state) else state)"
| "assign_value place (Val_Aggregate _ _) state =
     mark_initialized place (clear_place_facts place state)"
| "assign_value place (Val_Closure _ _) state =
     mark_initialized place (clear_place_facts place state)"
| "assign_value place (Val_Temporary _) state =
     mark_place_top place UnknownValue (clear_place_facts place state)"
| "assign_value place (Val_CallReturn _) state =
     mark_place_top place UnknownValue (clear_place_facts place state)"
| "assign_value place (Val_BinOp _ _ _) state =
     mark_place_top place UnknownValue (clear_place_facts place state)"
| "assign_value place (Val_Unknown _) state =
     mark_place_top place UnknownValue (clear_place_facts place state)"

fun dynamic_assign_mode :: "assign_mode \<Rightarrow> bool" where
  "dynamic_assign_mode PartialWrite = True"
| "dynamic_assign_mode ProjectionMutation = True"
| "dynamic_assign_mode UnknownWrite = True"
| "dynamic_assign_mode DeclarationBinding = False"
| "dynamic_assign_mode Overwrite = False"
| "dynamic_assign_mode Simultaneous = False"

fun havoc_place :: "havoc_target \<Rightarrow> place_id" where
  "havoc_place (Havoc_Place place) = place"
| "havoc_place (Havoc_ReturnPlace place) = place"
| "havoc_place (Havoc_Argument place) = place"

definition havoc :: "havoc_target \<Rightarrow> top_reason \<Rightarrow> product_state \<Rightarrow> product_state" where
  "havoc target reason state = mark_place_top (havoc_place target) reason state"

definition top_reason_for_unresolved :: "unresolved_call_fact \<Rightarrow> top_reason" where
  "top_reason_for_unresolved unresolved =
     (case unres_reason unresolved of
        Unres_SetupMissing \<Rightarrow> SetupMissing
      | Unres_BudgetExceeded \<Rightarrow> BudgetExceeded
      | _ \<Rightarrow> UnresolvedCall)"

definition or_insert_initialized :: "place_id \<Rightarrow> initializedness_domain \<Rightarrow> product_state \<Rightarrow> product_state" where
  "or_insert_initialized place v state =
     state \<lparr> core := (core state)
       \<lparr> initializedness := fm_or_insert place v (initializedness (core state)) \<rparr> \<rparr>"

definition apply_call ::
  "transfer_cx \<Rightarrow> call_site_id \<Rightarrow> place_id list \<Rightarrow> place_id \<Rightarrow> product_state \<Rightarrow> product_state" where
  "apply_call cx site arguments return_place state =
     (case fmlookup (cx_unresolved_calls cx) site of
        Some unresolved \<Rightarrow>
          (let reason = top_reason_for_unresolved unresolved in
           fold (\<lambda>argument. havoc (Havoc_Argument argument) reason) arguments
             (havoc (Havoc_ReturnPlace return_place) reason state))
      | None \<Rightarrow>
          fold (\<lambda>argument. or_insert_initialized argument Initialized) arguments
            (mark_place_top return_place UnknownValue state))"

definition apply_unsupported ::
  "transfer_cx \<Rightarrow> unsupported_id \<Rightarrow> product_state \<Rightarrow> product_state" where
  "apply_unsupported cx unsupported state =
     (case fmlookup (cx_unsupported cx) unsupported of
        None \<Rightarrow> mark_reachability_top UnsupportedSemantic state
      | Some row \<Rightarrow>
          (case uns_conservative_action row of
             SkipOperation \<Rightarrow> state
           | HavocAffectedPlaces \<Rightarrow>
               fold (\<lambda>place. havoc (Havoc_Place place) UnsupportedSemantic) (affected_places row) state
           | PreserveWithUnknownValue \<Rightarrow> mark_reachability_top UnsupportedSemantic state
           | StopLowering \<Rightarrow> mark_reachability_top UnsupportedSemantic state))"


section \<open>Operations\<close>

fun apply_kind :: "transfer_cx \<Rightarrow> mir_operation_kind \<Rightarrow> product_state \<Rightarrow> product_state" where
  "apply_kind cx (StorageLive place) state = set_initializedness place Uninitialized state"
| "apply_kind cx (Bind place v) state = assign_value place v state"
| "apply_kind cx (Assign place v mode) state =
     (if dynamic_assign_mode mode then havoc (Havoc_Place place) DynamicWrite state
      else assign_value place v state)"
| "apply_kind cx (Read place) state = or_insert_initialized place MaybeUninitialized state"
| "apply_kind cx (Write place v) state = havoc (Havoc_Place place) DynamicWrite state"
| "apply_kind cx (Branch _ _ _) state = state"
| "apply_kind cx (Call site callee arguments return_place) state =
     apply_call cx site arguments return_place state"
| "apply_kind cx (Return v) state =
     (case v of Some (Val_Unknown _) \<Rightarrow> mark_reachability_top UnknownValue state | _ \<Rightarrow> state)"
| "apply_kind cx (Unsupported unsupported) state = apply_unsupported cx unsupported state"

definition apply_operation :: "transfer_cx \<Rightarrow> mir_operation \<Rightarrow> product_state \<Rightarrow> product_state" where
  "apply_operation cx operation state =
     snd (reduce_value_only 4 (apply_kind cx (op_kind operation) state))"

definition apply_return_value :: "place_id \<Rightarrow> mir_value \<Rightarrow> product_state \<Rightarrow> product_state" where
  "apply_return_value return_place v state =
     snd (reduce_value_only 4 (assign_value return_place v state))"


section \<open>Branch edges\<close>

text \<open>A refinement returns whether the edge stays feasible, with the refined state.\<close>

definition refine_nilness ::
  "product_state \<Rightarrow> place_id \<Rightarrow> nilness_domain \<Rightarrow> bool \<times> product_state" where
  "refine_nilness state place desired =
     (let current = fm_get_or (ad_bottom nilness_ops) (nilness (core state)) place in
      if current = IsNil \<and> desired = NonNil \<or> current = NonNil \<and> desired = IsNil
      then (False, state)
      else (True, state \<lparr> core := (core state)
              \<lparr> nilness := fmupd place desired (nilness (core state)) \<rparr> \<rparr>))"

definition refine_truthiness ::
  "product_state \<Rightarrow> place_id \<Rightarrow> truthiness_domain \<Rightarrow> bool \<times> product_state" where
  "refine_truthiness state place desired =
     (let current = fm_get_or (ad_bottom truthiness_ops) (truthiness (core state)) place in
      if current = Truthy \<and> desired = Falsy \<or> current = Falsy \<and> desired = Truthy
      then (False, state)
      else (True, state \<lparr> core := (core state)
              \<lparr> truthiness := fmupd place desired (truthiness (core state)) \<rparr> \<rparr>))"

definition refine_nilness_for_truthy ::
  "product_state \<Rightarrow> place_id \<Rightarrow> bool \<times> product_state" where
  "refine_nilness_for_truthy state place =
     (case fm_get_or (ad_bottom nilness_ops) (nilness (core state)) place of
        IsNil \<Rightarrow> (False, state)
      | NonNil \<Rightarrow> (True, state)
      | _ \<Rightarrow> (True, state \<lparr> core := (core state)
              \<lparr> nilness := fmupd place NonNil (nilness (core state)) \<rparr> \<rparr>))"

fun is_bool_literal :: "constant_literal \<Rightarrow> bool" where
  "is_bool_literal (LBool _) = True"
| "is_bool_literal _ = False"

definition refine_bool_constant ::
  "product_state \<Rightarrow> place_id \<Rightarrow> bool \<Rightarrow> bool \<times> product_state" where
  "refine_bool_constant state place desired =
     (case fmlookup (constants (core state)) place of
        Some (ConstValues values) \<Rightarrow>
          if list_all is_bool_literal (bt_elems values)
          then if LBool desired |\<in>| values
               then (True, state \<lparr> core := (core state)
                      \<lparr> constants := fmupd place (constant_from_literal (LBool desired))
                                       (constants (core state)) \<rparr> \<rparr>)
               else (False, state)
          else (True, state)
      | _ \<Rightarrow> (True, state))"

text \<open>\<open>a || b\<close> on refinements: the second runs only when the first kept the edge feasible.\<close>

definition and_then ::
  "bool \<times> product_state \<Rightarrow> (product_state \<Rightarrow> bool \<times> product_state) \<Rightarrow> bool \<times> product_state" where
  "and_then r k = (if fst r then k (snd r) else r)"

definition set_unreachable :: "product_state \<Rightarrow> product_state" where
  "set_unreachable state = state \<lparr> core := (core state) \<lparr> reachability := Unreachable \<rparr> \<rparr>"

definition nil_edge_goal :: "branch_nil_test \<Rightarrow> branch_sense \<Rightarrow> nilness_domain option" where
  "nil_edge_goal nil_test sense =
     (let on_nil_edge = (nil_on_true nil_test = (sense = Sense_True)) in
      if on_nil_edge then Some IsNil
      else if proves_non_nil nil_test then Some NonNil else None)"

definition apply_branch_assumption ::
  "place_id option \<Rightarrow> branch_nil_test option \<Rightarrow> branch_sense \<Rightarrow> product_state \<Rightarrow> product_state" where
  "apply_branch_assumption predicate_place nil_test sense state =
     (case predicate_place of
        None \<Rightarrow> state
      | Some place \<Rightarrow>
          (case nil_test of
             Some test \<Rightarrow>
               snd (reduce_value_only 4
                 (case nil_edge_goal test sense of
                    Some desired \<Rightarrow>
                      (let (ok, state') = refine_nilness state place desired in
                       if ok then state' else set_unreachable state')
                  | None \<Rightarrow> state))
           | None \<Rightarrow>
               (let (ok, state') =
                  (case sense of
                     Sense_True \<Rightarrow>
                       and_then (and_then (refine_truthiness state place Truthy)
                         (\<lambda>s. refine_nilness_for_truthy s place))
                         (\<lambda>s. refine_bool_constant s place True)
                   | Sense_False \<Rightarrow>
                       and_then (refine_truthiness state place Falsy)
                         (\<lambda>s. refine_bool_constant s place False))
                in if ok then snd (reduce_value_only 4 state') else set_unreachable state')))"


section \<open>The five facts of a place\<close>

definition place_view :: "product_state \<Rightarrow> place_id
    \<Rightarrow> nilness_domain \<times> truthiness_domain \<times> constant_domain \<times> string_domain \<times> initializedness_domain"
  where
  "place_view s p =
     (fm_get_or NilBottom (nilness (core s)) p, fm_get_or TruthBottom (truthiness (core s)) p,
      fm_get_or ConstBottom (constants (core s)) p, fm_get_or StrBottom (strings (core s)) p,
      fm_get_or InitBottom (initializedness (core s)) p)"

definition reduced_view ::
  "nilness_domain \<times> truthiness_domain \<times> constant_domain \<times> string_domain \<times> initializedness_domain
   \<Rightarrow> nilness_domain \<times> truthiness_domain \<times> constant_domain \<times> string_domain \<times> initializedness_domain"
  where
  "reduced_view v =
     (case v of (n, t, c, s, i) \<Rightarrow>
        (nilness_join n (fst (derived_values c)), truthiness_join t (fst (snd (derived_values c))),
         c, string_join s (snd (snd (derived_values c))), i))"

definition view_reduced :: "product_state \<Rightarrow> place_id \<Rightarrow> bool" where
  "view_reduced s p \<longleftrightarrow> reduced_view (place_view s p) = place_view s p"

definition top_view :: "top_reason \<Rightarrow>
    nilness_domain \<times> truthiness_domain \<times> constant_domain \<times> string_domain \<times> initializedness_domain"
  where
  "top_view r = (NilTop r, TruthTop r, ConstTop r, StrTop r, InitTop r)"

lemma place_view_reduce_round: "place_view (snd (reduce_round s)) p = reduced_view (place_view s p)"
  using reduce_round_slots [of s p] by (simp add: place_view_def reduced_view_def)

lemma place_view_reduce:
  "state_wf s \<Longrightarrow> place_view (snd (reduce_value_only (Suc n) s)) p = reduced_view (place_view s p)"
  by (simp only: reduce_value_only_eq place_view_reduce_round)

lemma place_view_reduce_4:
  "state_wf s \<Longrightarrow> place_view (snd (reduce_value_only 4 s)) p = reduced_view (place_view s p)"
  using place_view_reduce [of s 3 p] by (simp add: numeral_eq_Suc)

lemma reduced_view_top [simp]: "reduced_view (top_view r) = top_view r"
  using nilness.join_bottom truthiness.join_bottom strings.join_bottom
  by (simp add: reduced_view_def top_view_def)

lemma view_place_top [place_simps]:
  "place_view (mark_place_top p r s) q = (if q = p then top_view r else place_view s q)"
  by (simp add: place_view_def mark_place_top_def top_view_def fm_get_or_fmupd)

lemma view_clear [place_simps]:
  "place_view (clear_place_facts p s) q =
     (if q = p then (NilBottom, TruthBottom, ConstBottom, StrBottom, InitBottom)
      else place_view s q)"
  by (simp add: place_view_def clear_place_facts_def fm_get_or_def)

lemma view_reachability_top [place_simps]: "place_view (mark_reachability_top r s) q = place_view s q"
  by (simp add: place_view_def mark_reachability_top_def)

lemma view_set_initializedness [place_simps]:
  "place_view (set_initializedness p v s) q =
     (if q = p then (case place_view s q of (n, t, c, st, _) \<Rightarrow> (n, t, c, st, v))
      else place_view s q)"
  by (simp add: place_view_def set_initializedness_def fm_get_or_fmupd)

lemma view_mark_initialized [place_simps]:
  "place_view (mark_initialized p s) q =
     (if q = p then (case place_view s q of (n, t, c, st, _) \<Rightarrow> (n, t, c, st, Initialized))
      else place_view s q)"
  by (simp add: mark_initialized_def place_simps)

lemma view_apply_literal [place_simps]:
  "place_view (apply_literal p l s) q =
     (if q = p then (case place_view s q of (n, t, _, st, i) \<Rightarrow>
        (n, t, ConstValues {|literal_from_label l|}, st, i))
      else place_view s q)"
  by (simp add: place_view_def apply_literal_def constant_from_literal_def fm_get_or_fmupd)

lemma fm_get_or_copy_slot:
  "fm_get_or b (copy_slot m m' target source) q =
     (if q = target \<and> fmlookup m' source \<noteq> None then fm_get_or b m' source else fm_get_or b m q)"
  by (auto simp: copy_slot_def fm_get_or_def split: option.split)

lemma view_copy_place_other [place_simps]: "q \<noteq> p \<Longrightarrow> place_view (copy_place p p' s) q = place_view s q"
  by (simp add: place_view_def copy_place_def fm_get_or_copy_slot)

lemma view_copy_place_cleared:
  "p' \<noteq> p \<Longrightarrow> place_view (copy_place p p' (clear_place_facts p s)) p =
     (case place_view s p' of (n, t, c, st, _) \<Rightarrow> (n, t, c, st, InitBottom))"
  by (simp add: place_view_def copy_place_def clear_place_facts_def fm_get_or_copy_slot)
    (simp add: fm_get_or_def)

lemma view_or_insert_other [place_simps]:
  "q \<noteq> p \<Longrightarrow> place_view (or_insert_initialized p v s) q = place_view s q"
  by (simp add: place_view_def or_insert_initialized_def fm_get_or_def lookup_fm_or_insert)

lemma view_fold_havoc:
  "place_view (fold (\<lambda>a. havoc (mk a) r) ps s) q =
     (if q \<in> (\<lambda>a. havoc_place (mk a)) ` set ps then top_view r else place_view s q)"
  by (induction ps arbitrary: s) (auto simp: havoc_def place_simps)

lemma view_fold_or_insert:
  "q \<notin> set ps \<Longrightarrow> place_view (fold (\<lambda>a. or_insert_initialized a v) ps s) q = place_view s q"
  by (induction ps arbitrary: s) (auto simp: place_simps)

lemma reachability_fold_or_insert [simp]:
  "reachability (core (fold (\<lambda>a. or_insert_initialized a v) ps s)) = reachability (core s)"
  by (induction ps arbitrary: s) (simp_all add: or_insert_initialized_def)

lemma reachability_fold_havoc [simp]:
  "reachability (core (fold (\<lambda>a. havoc (mk a) r) ps s)) = reachability (core s)"
  by (induction ps arbitrary: s) (simp_all add: havoc_def mark_place_top_def)


section \<open>The literal cap is kept\<close>

lemma constant_wf_simps [simp]:
  "constant_wf ConstBottom" "constant_wf (ConstTop r)" "constant_wf (ConstValues {|l|})"
  by (simp_all add: constant_wf_def LITERAL_SET_CAP_def)

lemma string_wf_simps [simp]: "string_wf StrBottom" "string_wf (StrTop r)"
  by (simp_all add: string_wf_def)

lemma state_wf_core: "constants (core s) = constants (core t) \<Longrightarrow> strings (core s) = strings (core t)
    \<Longrightarrow> state_wf s = state_wf t"
  by (simp add: state_wf_def)

lemma state_wf_place_top [simp]: "state_wf s \<Longrightarrow> state_wf (mark_place_top p r s)"
  by (simp add: state_wf_def mark_place_top_def)

lemma state_wf_reachability_top [simp]: "state_wf (mark_reachability_top r s) = state_wf s"
  by (simp add: state_wf_def mark_reachability_top_def)

lemma state_wf_unreachable [simp]: "state_wf (set_unreachable s) = state_wf s"
  by (simp add: state_wf_def set_unreachable_def)

lemma state_wf_initializedness [simp]:
  "state_wf (set_initializedness p v s) = state_wf s"
  "state_wf (or_insert_initialized p v s) = state_wf s"
  "state_wf (mark_initialized p s) = state_wf s"
  by (simp_all add: state_wf_def set_initializedness_def or_insert_initialized_def
      mark_initialized_def)

lemma state_wf_clear [simp]: "state_wf s \<Longrightarrow> state_wf (clear_place_facts p s)"
  by (simp add: state_wf_def clear_place_facts_def)

lemma state_wf_apply_literal [simp]: "state_wf s \<Longrightarrow> state_wf (apply_literal p l s)"
  by (simp add: state_wf_def apply_literal_def constant_from_literal_def)

lemma map_wf_copy_slot: "map_wf ok m \<Longrightarrow> map_wf ok m' \<Longrightarrow> map_wf ok (copy_slot m m' a b)"
  by (auto simp: copy_slot_def split: option.split dest: map_wf_lookup)

lemma state_wf_copy_place [simp]: "state_wf s \<Longrightarrow> state_wf (copy_place a b s)"
  by (simp add: state_wf_def copy_place_def map_wf_copy_slot)

lemma state_wf_assign_value [simp]: "state_wf s \<Longrightarrow> state_wf (assign_value p v s)"
  by (cases v) simp_all

lemma state_wf_fold_havoc [simp]:
  "state_wf s \<Longrightarrow> state_wf (fold (\<lambda>a. havoc (mk a) r) ps s)"
  by (induction ps arbitrary: s) (simp_all add: havoc_def)

lemma state_wf_fold_or_insert [simp]:
  "state_wf (fold (\<lambda>a. or_insert_initialized a v) ps s) = state_wf s"
  by (induction ps arbitrary: s) simp_all

lemma state_wf_apply_kind [simp]: "state_wf s \<Longrightarrow> state_wf (apply_kind cx k s)"
  by (cases k) (auto simp: havoc_def apply_call_def apply_unsupported_def Let_def
      split: option.split mir_value.split conservative_action.split)

lemma state_wf_reduce_constant: "state_wf s \<Longrightarrow> state_wf (snd (reduce_constant p c s))"
  using derived_strings_wf
  by (simp add: reduce_constant_joins state_wf_def strings.map_wf_join_single)

lemma state_wf_reduce_round [simp]:
  assumes "state_wf s"
  shows "state_wf (snd (reduce_round s))"
proof -
  have "state_wf t \<Longrightarrow> state_wf (snd (fold reduce_round_step es (c, t)))" for es c t
    by (induction es arbitrary: c t) (simp_all add: reduce_round_step_apply state_wf_reduce_constant)
  with assms show ?thesis by (simp add: reduce_round_def)
qed

lemma state_wf_reduce [simp]: "state_wf s \<Longrightarrow> state_wf (snd (reduce_value_only n s))"
  by (induction n arbitrary: s) (simp_all add: case_prod_beta Let_def)

lemma state_wf_apply_operation: "state_wf s \<Longrightarrow> state_wf (apply_operation cx op s)"
  by (simp add: apply_operation_def)


lemma state_wf_refine:
  "state_wf s \<Longrightarrow> state_wf (snd (refine_nilness s p d))"
  "state_wf s \<Longrightarrow> state_wf (snd (refine_truthiness s p t))"
  "state_wf s \<Longrightarrow> state_wf (snd (refine_nilness_for_truthy s p))"
  "state_wf s \<Longrightarrow> state_wf (snd (refine_bool_constant s p b))"
  by (auto simp: state_wf_def refine_nilness_def refine_truthiness_def
      refine_nilness_for_truthy_def refine_bool_constant_def constant_from_literal_def Let_def
      split: nilness_domain.split option.split constant_domain.split)

lemma state_wf_and_then:
  "state_wf (snd r) \<Longrightarrow> (\<And>s. state_wf s \<Longrightarrow> state_wf (snd (k s))) \<Longrightarrow> state_wf (snd (and_then r k))"
  by (simp add: and_then_def)

lemma state_wf_apply_branch:
  assumes "state_wf s"
  shows "state_wf (apply_branch_assumption place test sense s)"
proof -
  have nil_case: "state_wf (case nil_edge_goal t sense of
      Some desired \<Rightarrow> (let (ok, s') = refine_nilness s p desired in
                        if ok then s' else set_unreachable s')
    | None \<Rightarrow> s)" for t p
    using assms state_wf_refine(1) [OF assms, of p]
    by (auto simp: case_prod_beta Let_def split: option.split)
  show ?thesis
    using assms nil_case
    by (auto simp: apply_branch_assumption_def case_prod_beta Let_def
        intro!: state_wf_reduce state_wf_and_then state_wf_refine
        split: option.split branch_sense.split)
qed

text \<open>The places an operation may write.\<close>

fun written_places :: "transfer_cx \<Rightarrow> mir_operation_kind \<Rightarrow> place_id set" where
  "written_places cx (StorageLive p) = {p}"
| "written_places cx (Bind p _) = {p}"
| "written_places cx (Assign p _ _) = {p}"
| "written_places cx (Read p) = {p}"
| "written_places cx (Write p _) = {p}"
| "written_places cx (Branch _ _ _) = {}"
| "written_places cx (Call _ _ args ret) = insert ret (set args)"
| "written_places cx (Return _) = {}"
| "written_places cx (Unsupported u) =
     (case fmlookup (cx_unsupported cx) u of
        Some row \<Rightarrow> (if uns_conservative_action row = HavocAffectedPlaces
                     then set (affected_places row) else {})
      | None \<Rightarrow> {})"

lemma view_assign_other: "q \<noteq> p \<Longrightarrow> place_view (assign_value p v s) q = place_view s q"
  by (cases v) (auto simp: place_simps)

lemma view_apply_kind_other:
  "q \<notin> written_places cx k \<Longrightarrow> place_view (apply_kind cx k s) q = place_view s q"
  by (cases k)
    (auto simp: place_simps view_assign_other havoc_def apply_call_def apply_unsupported_def Let_def
      view_fold_havoc view_fold_or_insert image_iff
      split: option.splits mir_value.split conservative_action.splits)

lemma reduced_view_twice:
  assumes "state_wf s"
  shows "reduced_view (reduced_view (place_view s p)) = reduced_view (place_view s p)"
  using reduce_round_twice [OF assms] place_view_reduce_round [of "snd (reduce_round s)" p]
    reduce_round_No_iff [of "snd (reduce_round s)"]
    place_view_reduce_round [of s p] reduce_round_slots [of "snd (reduce_round s)" p]
  by (simp add: place_view_def)

lemma view_apply_operation:
  "state_wf s \<Longrightarrow>
   place_view (apply_operation cx op s) q = reduced_view (place_view (apply_kind cx (op_kind op) s) q)"
  by (simp add: apply_operation_def place_view_reduce_4)


section \<open>Properties\<close>

definition sample_op :: "mir_operation_kind \<Rightarrow> mir_operation" where
  "sample_op k = \<lparr> op_id = 1, op_body = 1, op_ordinal = 0,
     op_span = \<lparr> span_file = 1, start_byte = 0, end_byte = 0, start_line = 1, start_col = 1,
                 end_line = 1, end_col = 1 \<rparr>,
     op_kind = k, op_stable_key = 0, op_status = Mir_Resolved \<rparr>"

definition empty_cx :: transfer_cx where
  "empty_cx = \<lparr> cx_unresolved_calls = fmempty, cx_unsupported = fmempty \<rparr>"

lemma op_kind_sample [simp]: "op_kind (sample_op k) = k"
  by (simp add: sample_op_def)

text \<open>
  Every MIR operation keeps the literal cap and leaves a reduced state: another reduction of
  any place changes nothing.
\<close>

theorem operation_reduces_state:
  assumes "state_wf s"
  shows "state_wf (apply_operation cx op s) \<and> view_reduced (apply_operation cx op s) q"
  using assms reduced_view_twice [OF state_wf_apply_kind [OF assms]]
  by (simp add: state_wf_apply_operation view_reduced_def view_apply_operation)

theorem operation_reduces_state_witness:
  "view_reduced (apply_operation empty_cx (sample_op (Bind 1 (Val_Literal ''nil''))) state_entry) 1"
  using operation_reduces_state [OF state_wf_entry] by blast

text \<open>
  An operation changes the facts of the places it writes and of no other place of a reduced
  state.
\<close>

theorem operation_frame:
  assumes "state_wf s" "view_reduced s q" "q \<notin> written_places cx (op_kind op)"
  shows "place_view (apply_operation cx op s) q = place_view s q"
  using assms by (simp add: view_apply_operation view_apply_kind_other view_reduced_def)

theorem operation_frame_witness:
  "place_view (apply_operation empty_cx (sample_op (Assign 2 (Val_Place 1) Overwrite))
       (apply_operation empty_cx (sample_op (Bind 1 (Val_Literal ''nil''))) state_entry)) 1
   = (IsNil, Falsy, ConstValues {|LNil|}, StrBottom, Initialized)"
proof -
  let ?s = "apply_operation empty_cx (sample_op (Bind 1 (Val_Literal ''nil''))) state_entry"
  have "place_view (apply_operation empty_cx (sample_op (Assign 2 (Val_Place 1) Overwrite)) ?s) 1
      = place_view ?s 1"
  proof (rule operation_frame)
    show "state_wf ?s" by (simp add: state_wf_apply_operation)
    show "view_reduced ?s 1" by code_simp
  qed simp
  moreover have "place_view ?s 1 = (IsNil, Falsy, ConstValues {|LNil|}, StrBottom, Initialized)"
    by code_simp
  ultimately show ?thesis by simp
qed

text \<open>
  An unresolved call havocs its return place and all of its arguments: each of the five facts
  becomes top, with the reason of the unresolved call.
\<close>

theorem unresolved_call_havocs:
  assumes "state_wf s" "op_kind op = Call site callee args ret"
    and "fmlookup (cx_unresolved_calls cx) site = Some row" "q \<in> insert ret (set args)"
  shows "place_view (apply_operation cx op s) q = top_view (top_reason_for_unresolved row)"
proof -
  have "place_view (apply_kind cx (op_kind op) s) q = top_view (top_reason_for_unresolved row)"
    using assms(2-4) by (auto simp: apply_call_def Let_def view_fold_havoc havoc_def place_simps)
  then show ?thesis by (simp add: view_apply_operation assms(1))
qed

definition sample_unresolved :: unresolved_call_fact where
  "sample_unresolved = \<lparr> unres_site = 7, unres_caller = 1, unres_status = Target_Unresolved,
     unres_reason = Unres_SetupMissing, unres_algorithm = AlgorithmUnsupported,
     unres_provenance = CProv_MirShape, unres_precision = CPrec_Unknown, unres_stable_key = 0 \<rparr>"

theorem unresolved_call_havocs_witness:
  "place_view (apply_operation (transfer_cx_from_db [sample_unresolved] [])
      (sample_op (Call 7 (Val_Place 9) [1, 2] 3)) state_entry) 2 = top_view SetupMissing"
proof -
  have "fmlookup (cx_unresolved_calls (transfer_cx_from_db [sample_unresolved] [])) 7
      = Some sample_unresolved"
    by (simp add: transfer_cx_from_db_def fm_collect_def sample_unresolved_def)
  from unresolved_call_havocs [OF state_wf_entry op_kind_sample this, of 2] show ?thesis
    by (simp add: top_reason_for_unresolved_def sample_unresolved_def)
qed

text \<open>
  Binding a literal forgets every older fact of the place and records exactly the literal and
  what it implies: initialized, one constant, and the nilness, truthiness and string facts derived
  from that literal.
\<close>

theorem literal_binding_exact:
  assumes "state_wf s"
  shows "place_view (apply_operation cx (op \<lparr> op_kind := Bind p (Val_Literal label) \<rparr>) s) p =
    (case derived_values (ConstValues {|literal_from_label label|}) of (n, t, st) \<Rightarrow>
       (n, t, ConstValues {|literal_from_label label|}, st, Initialized))"
  using assms nilness.join_bottom_left truthiness.join_bottom_left strings.join_bottom_left
  by (simp add: view_apply_operation place_simps reduced_view_def case_prod_beta)

theorem literal_binding_exact_witness:
  "place_view (apply_operation empty_cx
      (sample_op (Read 5) \<lparr> op_kind := Bind 5 (Val_Literal (CHR 0x22 # ''ab'' @ [CHR 0x22])) \<rparr>)
      state_entry) 5
   = (NonNil, Truthy, ConstValues {|LString ''ab''|}, StrValues {|''ab''|}, Initialized)"
proof -
  have "literal_from_label (CHR 0x22 # ''ab'' @ [CHR 0x22]) = LString ''ab''" by code_simp
  moreover have "derived_values (ConstValues {|LString ''ab''|})
      = (NonNil, Truthy, StrValues {|''ab''|})" by code_simp
  ultimately show ?thesis
    unfolding literal_binding_exact [OF state_wf_entry] by simp
qed

text \<open>
  C35: On the edges of a nil test, the state becomes unreachable exactly when the recorded nilness
  contradicts the edge; otherwise reachability is kept, and the facts of all other places of a
  reduced state stay as they were.
\<close>

theorem nil_test_edge:
  assumes "state_wf s"
  shows "reachability (core (apply_branch_assumption (Some p) (Some test) sense s)) =
      (if (fst (place_view s p), nil_edge_goal test sense) \<in>
          {(IsNil, Some NonNil), (NonNil, Some IsNil)} then Unreachable
       else reachability (core s))
    \<and> (q \<noteq> p \<and> view_reduced s q \<longrightarrow>
        place_view (apply_branch_assumption (Some p) (Some test) sense s) q = place_view s q)"
proof -
  let ?r = "case nil_edge_goal test sense of
      Some desired \<Rightarrow> (let (ok, s') = refine_nilness s p desired in
                        if ok then s' else set_unreachable s')
    | None \<Rightarrow> s"
  have result: "apply_branch_assumption (Some p) (Some test) sense s = snd (reduce_value_only 4 ?r)"
    by (simp add: apply_branch_assumption_def)
  have wf: "state_wf ?r"
    using assms state_wf_refine(1) [OF assms, of p]
    by (auto simp: case_prod_beta Let_def split: option.split)
  have reach: "reachability (core ?r) =
      (if (fst (place_view s p), nil_edge_goal test sense) \<in>
          {(IsNil, Some NonNil), (NonNil, Some IsNil)} then Unreachable
       else reachability (core s))"
    by (auto simp: refine_nilness_def set_unreachable_def place_view_def Let_def
        split: option.split)
  have view: "q \<noteq> p \<Longrightarrow> place_view ?r q = place_view s q"
    by (auto simp: refine_nilness_def set_unreachable_def place_view_def Let_def
        fm_get_or_fmupd split: option.split)
  show ?thesis
    using reach view unfolding result by (simp add: place_view_reduce_4 [OF wf] view_reduced_def)
qed

theorem nil_test_edge_witness:
  "reachability (core (apply_branch_assumption (Some 1) (Some (Exhaustive True)) Sense_False
     sample_state)) = Unreachable
   \<and> reachability (core (apply_branch_assumption (Some 1) (Some (NilEdgeOnly True)) Sense_False
     sample_state)) = Reachable"
proof -
  have v: "fst (place_view sample_state 1) = IsNil" "reachability (core sample_state) = Reachable"
    by code_simp+
  show ?thesis
    using nil_test_edge [OF sample_state_wf, of 1 "Exhaustive True" Sense_False]
      nil_test_edge [OF sample_state_wf, of 1 "NilEdgeOnly True" Sense_False] v
    by (simp add: nil_edge_goal_def)
qed


end
