(* ===== verification/Stable_Key.thy ===== *)
theory Stable_Key
  imports Prelude "HOL-Library.Sublist"
begin

text \<open>
  The stable-key interner of \<open>internal_core/stable_key.rs\<close>: a vector of key texts with a map from
  text to the index in it, and the overlays that give each parallel task its own numbering, folded
  back with \<open>absorb\<close>. The shared state behind the lock is passed explicitly; where another thread
  may grow the root interner between two steps, the model takes the later root as an argument. An
  operation that can panic returns an option. The laws of an interner are the locale
  \<open>key_interner\<close>, interpreted for the root interner and for an overlay.
\<close>

section \<open>State\<close>

definition U32_MAX :: nat where
  "U32_MAX = 2 ^ 32 - 1"

record interner_state =
  keys :: "string list"
  ids :: "(string, stable_key_id) fmap"

definition interner_default :: interner_state where
  "interner_default = \<lparr> keys = [], ids = fmempty \<rparr>"

definition push_from :: "nat \<Rightarrow> string \<Rightarrow> interner_state \<Rightarrow> (stable_key_id \<times> interner_state) option" where
  "push_from base key state =
     (if length (keys state) \<le> U32_MAX \<and> length (keys state) + base \<le> U32_MAX
      then (let i = length (keys state) + base in
            Some (i, \<lparr> keys = keys state @ [key], ids = fmupd key i (ids state) \<rparr>))
      else None)"

text \<open>An overlay: the task's own state and the length of the root when the overlay was taken.\<close>

record overlay_state =
  own :: interner_state
  overlay_base :: nat


section \<open>The root interner\<close>

definition intern :: "string \<Rightarrow> interner_state \<Rightarrow> (stable_key_id \<times> interner_state) option" where
  "intern key state =
     (case fmlookup (ids state) key of
        Some i \<Rightarrow> Some (i, state)
      | None \<Rightarrow> push_from 0 key state)"

text \<open>
  The two lock acquisitions of \<open>intern\<close>: the lookup reads the state \<open>seen\<close>, the insertion runs on
  the state \<open>state\<close> the write lock finds.
\<close>

definition intern_locked ::
  "string \<Rightarrow> interner_state \<Rightarrow> interner_state \<Rightarrow> (stable_key_id \<times> interner_state) option" where
  "intern_locked key seen state =
     (case fmlookup (ids seen) key of
        Some i \<Rightarrow> Some (i, state)
      | None \<Rightarrow>
          (case fmlookup (ids state) key of
             Some i \<Rightarrow> Some (i, state)
           | None \<Rightarrow> push_from 0 key state))"

definition resolve :: "interner_state \<Rightarrow> stable_key_id \<Rightarrow> string option" where
  "resolve state i = (if i < length (keys state) then Some (keys state ! i) else None)"

text \<open>The text of a key that a row holds; such keys are interned.\<close>

definition key_text :: "interner_state \<Rightarrow> stable_key_id \<Rightarrow> string" where
  "key_text interner k = the (resolve interner k)"

definition interner_len :: "interner_state \<Rightarrow> nat" where
  "interner_len state = length (keys state)"

definition text_bytes :: "interner_state \<Rightarrow> nat" where
  "text_bytes state = sum_list (map length (keys state))"

definition intern_and_resolve ::
  "string \<Rightarrow> interner_state \<Rightarrow> ((stable_key_id \<times> string) \<times> interner_state) option" where
  "intern_and_resolve key state =
     (case fmlookup (ids state) key of
        Some i \<Rightarrow> Some ((i, key), state)
      | None \<Rightarrow> map_option (\<lambda>(i, state'). ((i, key), state')) (push_from 0 key state))"

definition detached_clone :: "interner_state \<Rightarrow> interner_state" where
  "detached_clone state =
     \<lparr> keys = keys state,
       ids = fm_collect (map (\<lambda>(index, key). (key, index)) (List.enumerate 0 (keys state))) \<rparr>"


section \<open>Overlays\<close>

definition overlay :: "interner_state \<Rightarrow> overlay_state option" where
  "overlay root =
     (if length (keys root) \<le> U32_MAX
      then Some \<lparr> own = interner_default, overlay_base = length (keys root) \<rparr>
      else None)"

definition parent_id :: "interner_state \<Rightarrow> overlay_state \<Rightarrow> string \<Rightarrow> stable_key_id option" where
  "parent_id root ov key =
     (case fmlookup (ids root) key of
        Some i \<Rightarrow> if i < overlay_base ov then Some i else None
      | None \<Rightarrow> None)"

definition overlay_intern ::
  "interner_state \<Rightarrow> string \<Rightarrow> overlay_state \<Rightarrow> (stable_key_id \<times> overlay_state) option" where
  "overlay_intern root key ov =
     (case parent_id root ov key of
        Some i \<Rightarrow> Some (i, ov)
      | None \<Rightarrow>
          (case fmlookup (ids (own ov)) key of
             Some i \<Rightarrow> Some (i, ov)
           | None \<Rightarrow>
               map_option (\<lambda>(i, state). (i, ov \<lparr> own := state \<rparr>))
                 (push_from (overlay_base ov) key (own ov))))"

definition overlay_resolve :: "interner_state \<Rightarrow> overlay_state \<Rightarrow> stable_key_id \<Rightarrow> string option" where
  "overlay_resolve root ov i =
     (if i < overlay_base ov then resolve root i
      else if i - overlay_base ov < length (keys (own ov))
      then Some (keys (own ov) ! (i - overlay_base ov)) else None)"

definition overlay_len :: "overlay_state \<Rightarrow> nat" where
  "overlay_len ov = overlay_base ov + length (keys (own ov))"

record stable_key_remap =
  remap_base :: nat
  absorbed :: "stable_key_id list"

definition remap_apply :: "stable_key_remap \<Rightarrow> stable_key_id \<Rightarrow> stable_key_id option" where
  "remap_apply remap i =
     (if remap_base remap \<le> i
      then (let offset = i - remap_base remap in
            if offset < length (absorbed remap) then Some (absorbed remap ! offset) else None)
      else Some i)"

fun intern_all ::
  "(string \<Rightarrow> 's \<Rightarrow> (stable_key_id \<times> 's) option) \<Rightarrow> string list \<Rightarrow> 's \<Rightarrow> (stable_key_id list \<times> 's) option"
  where
  "intern_all f [] s = Some ([], s)"
| "intern_all f (k # ks) s =
     (case f k s of
        None \<Rightarrow> None
      | Some (i, s') \<Rightarrow> map_option (\<lambda>(is, s''). (i # is, s'')) (intern_all f ks s'))"

definition absorb ::
  "overlay_state \<Rightarrow> interner_state \<Rightarrow> (stable_key_remap \<times> interner_state) option" where
  "absorb ov root =
     map_option (\<lambda>(is, root'). (\<lparr> remap_base = overlay_base ov, absorbed = is \<rparr>, root'))
       (intern_all intern (keys (own ov)) root)"

text \<open>The read view: parent rows below the base, own rows from the base on.\<close>

definition view_text :: "interner_state \<Rightarrow> overlay_state option \<Rightarrow> stable_key_id \<Rightarrow> string option" where
  "view_text root ov i =
     (let (ks, index) = (case ov of
            Some lay \<Rightarrow> if i < overlay_base lay then (keys root, i)
                        else (keys (own lay), i - overlay_base lay)
          | None \<Rightarrow> (keys root, i))
      in if index < length ks then Some (ks ! index) else None)"


section \<open>The laws of an interner\<close>

locale key_interner =
  fixes inv :: "'s \<Rightarrow> bool"
    and put :: "string \<Rightarrow> 's \<Rightarrow> (stable_key_id \<times> 's) option"
    and get :: "'s \<Rightarrow> stable_key_id \<Rightarrow> string option"
  assumes put_inv: "inv s \<Longrightarrow> put k s = Some (i, s') \<Longrightarrow> inv s'"
    and put_get: "inv s \<Longrightarrow> put k s = Some (i, s') \<Longrightarrow> get s' i = Some k"
    and put_keeps: "inv s \<Longrightarrow> put k s = Some (i, s') \<Longrightarrow> get s j = Some t \<Longrightarrow> get s' j = Some t"
    and get_inj: "inv s \<Longrightarrow> get s i = Some t \<Longrightarrow> get s j = Some t \<Longrightarrow> i = j"
    and put_known: "inv s \<Longrightarrow> get s i = Some k \<Longrightarrow> put k s = Some (i, s)"
begin

lemma put_again: "inv s \<Longrightarrow> put k s = Some (i, s') \<Longrightarrow> put k s' = Some (i, s')"
  using put_known [of s' i k] put_inv put_get by blast

lemma put_same_iff:
  "inv s \<Longrightarrow> put k s = Some (i, s') \<Longrightarrow> put l s' = Some (j, s'') \<Longrightarrow> i = j \<longleftrightarrow> k = l"
  by (metis put_again put_get put_inv put_keeps option.inject prod.inject)

lemma intern_all_keeps:
  "inv s \<Longrightarrow> intern_all put ks s = Some (is, s') \<Longrightarrow>
   inv s' \<and> length is = length ks \<and> (\<forall>j t. get s j = Some t \<longrightarrow> get s' j = Some t)"
proof (induction ks arbitrary: s "is")
  case (Cons k ks)
  obtain i s1 is1 where put: "put k s = Some (i, s1)" and
      rest: "intern_all put ks s1 = Some (is1, s')" and "is": "is = i # is1"
    using Cons.prems(2) by (auto split: option.splits)
  show ?case
    using Cons.IH [OF put_inv [OF Cons.prems(1) put] rest] put_keeps [OF Cons.prems(1) put] "is"
    by auto
qed simp

lemma intern_all_get:
  "inv s \<Longrightarrow> intern_all put ks s = Some (is, s') \<Longrightarrow> n < length ks \<Longrightarrow> get s' (is ! n) = Some (ks ! n)"
proof (induction ks arbitrary: s "is" n)
  case (Cons k ks)
  obtain i s1 is1 where put: "put k s = Some (i, s1)" and
      rest: "intern_all put ks s1 = Some (is1, s')" and "is": "is = i # is1"
    using Cons.prems(2) by (auto split: option.splits)
  note inv1 = put_inv [OF Cons.prems(1) put]
  show ?case
  proof (cases n)
    case 0
    then show ?thesis
      using intern_all_keeps [OF inv1 rest] put_get [OF Cons.prems(1) put] "is" by simp
  next
    case (Suc m)
    then show ?thesis using Cons.IH [OF inv1 rest] Cons.prems(3) "is" by simp
  qed
qed simp

end


section \<open>Invariant\<close>

text \<open>
  The texts are distinct, and the map sends exactly the text at position \<open>n\<close> to \<open>base + n\<close>.
\<close>

definition interner_wf :: "nat \<Rightarrow> interner_state \<Rightarrow> bool" where
  "interner_wf base s \<longleftrightarrow>
     distinct (keys s)
     \<and> (\<forall>k i. fmlookup (ids s) k = Some i \<longleftrightarrow>
          base \<le> i \<and> i - base < length (keys s) \<and> keys s ! (i - base) = k)"

lemma wf_default [simp]: "interner_wf base interner_default"
  by (simp add: interner_wf_def interner_default_def)

lemma wf_lookup_None: "interner_wf base s \<Longrightarrow> fmlookup (ids s) k = None \<longleftrightarrow> k \<notin> set (keys s)"
proof -
  assume wf: "interner_wf base s"
  have "fmlookup (ids s) k \<noteq> None \<longleftrightarrow> (\<exists>n < length (keys s). keys s ! n = k)"
  proof
    assume "fmlookup (ids s) k \<noteq> None"
    with wf show "\<exists>n < length (keys s). keys s ! n = k" by (auto simp: interner_wf_def)
  next
    assume "\<exists>n < length (keys s). keys s ! n = k"
    then obtain n where "n < length (keys s)" "keys s ! n = k" by blast
    with wf have "fmlookup (ids s) k = Some (base + n)" by (auto simp: interner_wf_def)
    then show "fmlookup (ids s) k \<noteq> None" by simp
  qed
  then show ?thesis by (auto simp: in_set_conv_nth)
qed

lemma wf_push:
  assumes wf: "interner_wf base s" and new: "fmlookup (ids s) k = None"
    and push: "push_from base k s = Some (i, s')"
  shows "interner_wf base s' \<and> keys s' = keys s @ [k] \<and> i = base + length (keys s)"
proof -
  have s': "s' = \<lparr> keys = keys s @ [k], ids = fmupd k (length (keys s) + base) (ids s) \<rparr>"
      "i = length (keys s) + base"
    using push by (auto simp: push_from_def Let_def split: if_splits)
  have fresh: "k \<notin> set (keys s)" using new wf by (simp add: wf_lookup_None)
  have "fmlookup (ids s') x = Some j \<longleftrightarrow>
      base \<le> j \<and> j - base < length (keys s') \<and> keys s' ! (j - base) = x" for x j
  proof (cases "x = k")
    case True
    have "j - base < length (keys s) \<Longrightarrow> keys s ! (j - base) \<noteq> k" using fresh nth_mem by blast
    with True show ?thesis by (auto simp: s' nth_append)
  next
    case False
    have "fmlookup (ids s) x = Some j \<longleftrightarrow>
        base \<le> j \<and> j - base < length (keys s) \<and> keys s ! (j - base) = x"
      using wf by (simp add: interner_wf_def)
    with False show ?thesis by (auto simp: s' nth_append not_less less_Suc_eq)
  qed
  then show ?thesis using wf fresh by (simp add: interner_wf_def s')
qed

lemma wf_known: "interner_wf base s \<Longrightarrow> n < length (keys s) \<Longrightarrow>
    fmlookup (ids s) (keys s ! n) = Some (base + n)"
  by (simp add: interner_wf_def)

lemma wf_nth_inj: "interner_wf base s \<Longrightarrow> m < length (keys s) \<Longrightarrow> n < length (keys s) \<Longrightarrow>
    keys s ! m = keys s ! n \<Longrightarrow> m = n"
  by (simp add: interner_wf_def nth_eq_iff_index_eq)

interpretation root: key_interner "interner_wf 0" intern resolve
proof
  fix s s' :: interner_state and k i t j
  assume wf: "interner_wf 0 s"
  {
    assume put: "intern k s = Some (i, s')"
    have cases: "(fmlookup (ids s) k = Some i \<and> s' = s)
        \<or> (interner_wf 0 s' \<and> keys s' = keys s @ [k] \<and> i = length (keys s))"
    proof (cases "fmlookup (ids s) k")
      case None
      with put have "push_from 0 k s = Some (i, s')" by (simp add: intern_def)
      from wf_push [OF wf None this] show ?thesis by simp
    qed (use put in \<open>simp add: intern_def\<close>)
    then show "interner_wf 0 s'" using wf by auto
    show "resolve s' i = Some k" using cases wf by (auto simp: resolve_def interner_wf_def)
    show "resolve s j = Some t \<Longrightarrow> resolve s' j = Some t"
      using cases by (auto simp: resolve_def nth_append split: if_splits)
  }
  show "resolve s i = Some t \<Longrightarrow> resolve s j = Some t \<Longrightarrow> i = j"
    using wf_nth_inj [OF wf] by (auto simp: resolve_def split: if_splits)
  show "resolve s i = Some k \<Longrightarrow> intern k s = Some (i, s)"
    using wf_known [OF wf] by (auto simp: resolve_def intern_def split: if_splits)
qed


text \<open>
  An overlay over a root: its own keys are numbered from the base and differ from the keys the
  root had below the base.
\<close>

definition overlay_wf :: "interner_state \<Rightarrow> overlay_state \<Rightarrow> bool" where
  "overlay_wf root ov \<longleftrightarrow>
     interner_wf 0 root \<and> interner_wf (overlay_base ov) (own ov)
     \<and> overlay_base ov \<le> length (keys root)
     \<and> set (keys (own ov)) \<inter> set (take (overlay_base ov) (keys root)) = {}"

lemma parent_id_iff:
  assumes "interner_wf 0 root" "overlay_base ov \<le> length (keys root)"
  shows "parent_id root ov k = Some i \<longleftrightarrow> i < overlay_base ov \<and> keys root ! i = k"
proof -
  have "parent_id root ov k = Some i \<longleftrightarrow> fmlookup (ids root) k = Some i \<and> i < overlay_base ov"
    by (auto simp: parent_id_def split: option.split)
  then show ?thesis using assms by (auto simp: interner_wf_def)
qed

lemma parent_id_None:
  assumes "interner_wf 0 root" "overlay_base ov \<le> length (keys root)"
  shows "parent_id root ov k = None \<longleftrightarrow> k \<notin> set (take (overlay_base ov) (keys root))"
proof -
  have "parent_id root ov k \<noteq> None \<longleftrightarrow> (\<exists>i < overlay_base ov. keys root ! i = k)"
    using parent_id_iff [OF assms] by auto
  then show ?thesis using assms(2) by (auto simp: in_set_conv_nth)
qed

lemma overlay_intern_cases:
  assumes wf: "overlay_wf root ov" and put: "overlay_intern root k ov = Some (i, ov')"
  shows "(i < overlay_base ov \<and> keys root ! i = k \<and> ov' = ov)
    \<or> (k \<notin> set (take (overlay_base ov) (keys root)) \<and> fmlookup (ids (own ov)) k = Some i \<and> ov' = ov)
    \<or> (k \<notin> set (take (overlay_base ov) (keys root)) \<and> k \<notin> set (keys (own ov))
        \<and> overlay_base ov' = overlay_base ov \<and> interner_wf (overlay_base ov) (own ov')
        \<and> keys (own ov') = keys (own ov) @ [k] \<and> i = overlay_base ov + length (keys (own ov)))"
proof (cases "parent_id root ov k")
  case (Some j)
  then show ?thesis
    using put parent_id_iff [of root ov k j] wf by (auto simp: overlay_intern_def overlay_wf_def)
next
  case None
  then have fresh: "k \<notin> set (take (overlay_base ov) (keys root))"
    using wf parent_id_None [of root ov k] by (simp add: overlay_wf_def)
  show ?thesis
  proof (cases "fmlookup (ids (own ov)) k")
    case (Some j)
    with None put fresh show ?thesis by (simp add: overlay_intern_def)
  next
    case new: None
    with None put obtain s where push: "push_from (overlay_base ov) k (own ov) = Some (i, s)"
        and ov': "ov' = ov \<lparr> own := s \<rparr>"
      by (auto simp: overlay_intern_def)
    have own: "interner_wf (overlay_base ov) (own ov)" using wf by (simp add: overlay_wf_def)
    show ?thesis
      using wf_push [OF own new push] wf_lookup_None [OF own, of k] new fresh ov' by simp
  qed
qed

interpretation layered: key_interner "overlay_wf r" "overlay_intern r" "overlay_resolve r" for r
proof
  fix s s' :: overlay_state and k i t j
  assume wf: "overlay_wf r s"
  then have own: "interner_wf (overlay_base s) (own s)" and root: "interner_wf 0 r"
      and base: "overlay_base s \<le> length (keys r)"
      and disj: "set (keys (own s)) \<inter> set (take (overlay_base s) (keys r)) = {}"
    by (simp_all add: overlay_wf_def)
  {
    assume put: "overlay_intern r k s = Some (i, s')"
    note cases = overlay_intern_cases [OF wf put]
    show "overlay_wf r s'" using cases wf by (auto simp: overlay_wf_def)
    show "overlay_resolve r s' i = Some k"
      using cases own base by (auto simp: overlay_resolve_def resolve_def interner_wf_def)
    show "overlay_resolve r s j = Some t \<Longrightarrow> overlay_resolve r s' j = Some t"
      using cases by (auto simp: overlay_resolve_def nth_append split: if_splits)
  }
  have low: "overlay_resolve r s a = Some t \<Longrightarrow> a < overlay_base s \<Longrightarrow>
      t \<in> set (take (overlay_base s) (keys r)) \<and> keys r ! a = t \<and> a < length (keys r)" for a t
    using base by (auto simp: overlay_resolve_def resolve_def in_set_conv_nth split: if_splits)
  have high: "overlay_resolve r s a = Some t \<Longrightarrow> \<not> a < overlay_base s \<Longrightarrow>
      t \<in> set (keys (own s)) \<and> keys (own s) ! (a - overlay_base s) = t
      \<and> a - overlay_base s < length (keys (own s))" for a t
    by (auto simp: overlay_resolve_def split: if_splits)
  show "overlay_resolve r s i = Some t \<Longrightarrow> overlay_resolve r s j = Some t \<Longrightarrow> i = j"
  proof -
    assume i: "overlay_resolve r s i = Some t" and j: "overlay_resolve r s j = Some t"
    show "i = j"
    proof (cases "i < overlay_base s"; cases "j < overlay_base s")
      assume "i < overlay_base s" "j < overlay_base s"
      then show ?thesis using low [OF i] low [OF j] wf_nth_inj [OF root] by auto
    next
      assume "\<not> i < overlay_base s" "\<not> j < overlay_base s"
      then show ?thesis
        using high [OF i] high [OF j] wf_nth_inj [OF own, of "i - overlay_base s" "j - overlay_base s"]
        by auto
    qed (use low [OF i] low [OF j] high [OF i] high [OF j] disj in auto)
  qed
  show "overlay_resolve r s i = Some k \<Longrightarrow> overlay_intern r k s = Some (i, s)"
  proof -
    assume i: "overlay_resolve r s i = Some k"
    show "overlay_intern r k s = Some (i, s)"
    proof (cases "i < overlay_base s")
      case True
      then have "parent_id r s k = Some i" using low [OF i] parent_id_iff [OF root base] by simp
      then show ?thesis by (simp add: overlay_intern_def)
    next
      case False
      note h = high [OF i False]
      then have "parent_id r s k = None" using disj parent_id_None [OF root base] by auto
      moreover have "fmlookup (ids (own s)) k = Some i"
        using wf_known [OF own, of "i - overlay_base s"] h False by simp
      ultimately show ?thesis by (simp add: overlay_intern_def)
    qed
  qed
qed


section \<open>Growth of the root\<close>

definition grows :: "interner_state \<Rightarrow> interner_state \<Rightarrow> bool" where
  "grows root root' \<longleftrightarrow> interner_wf 0 root \<and> interner_wf 0 root' \<and> prefix (keys root) (keys root')"

lemma grows_take: "grows root root' \<Longrightarrow> n \<le> length (keys root) \<Longrightarrow>
    take n (keys root') = take n (keys root) \<and> n \<le> length (keys root')"
  by (auto simp: grows_def prefix_def)

lemma grows_lookup: "grows root root' \<Longrightarrow> fmlookup (ids root) k = Some i \<Longrightarrow> fmlookup (ids root') k = Some i"
  by (auto simp: grows_def prefix_def interner_wf_def nth_append)

lemma grows_resolve: "grows root root' \<Longrightarrow> i < length (keys root) \<Longrightarrow> resolve root' i = resolve root i"
  by (auto simp: grows_def prefix_def resolve_def nth_append)

lemma intern_grows:
  assumes wf: "interner_wf 0 s" and put: "intern k s = Some (i, s')"
  shows "grows s s'"
proof -
  have "prefix (keys s) (keys s')"
    using put by (auto simp: intern_def push_from_def Let_def split: option.splits if_splits)
  then show ?thesis using wf root.put_inv [OF wf put] by (simp add: grows_def)
qed

lemma intern_all_grows:
  "interner_wf 0 s \<Longrightarrow> intern_all intern ks s = Some (is, s') \<Longrightarrow> grows s s'"
proof (induction ks arbitrary: s "is")
  case (Cons k ks)
  obtain i s1 is1 where put: "intern k s = Some (i, s1)" and
      rest: "intern_all intern ks s1 = Some (is1, s')"
    using Cons.prems(2) by (auto split: option.splits)
  have "grows s s1" by (rule intern_grows [OF Cons.prems(1) put])
  moreover have "interner_wf 0 s1" using \<open>grows s s1\<close> by (simp add: grows_def)
  then have "grows s1 s'" by (rule Cons.IH [OF _ rest])
  ultimately show ?case unfolding grows_def using prefix_order.trans by blast
qed (simp add: grows_def)

lemma overlay_wf_grows: "overlay_wf root ov \<Longrightarrow> grows root root' \<Longrightarrow> overlay_wf root' ov"
  using grows_take [of root root' "overlay_base ov"] by (auto simp: overlay_wf_def grows_def)

lemma parent_id_grows:
  assumes "overlay_wf root ov" "grows root root'"
  shows "parent_id root' ov k = parent_id root ov k"
proof -
  have "parent_id root' ov k = Some i \<longleftrightarrow> parent_id root ov k = Some i" for i
  proof -
    have "i < overlay_base ov \<Longrightarrow> keys root' ! i = keys root ! i"
      using assms grows_take [OF assms(2), of "overlay_base ov"]
      by (metis nth_take overlay_wf_def)
    then show ?thesis
      using assms overlay_wf_grows [OF assms] parent_id_iff [of root ov k i]
        parent_id_iff [of root' ov k i] by (auto simp: overlay_wf_def)
  qed
  then show ?thesis by (metis not_Some_eq)
qed

lemma overlay_start_wf: "interner_wf 0 root \<Longrightarrow> overlay root = Some ov \<Longrightarrow> overlay_wf root ov"
  by (auto simp: overlay_def overlay_wf_def interner_default_def split: if_splits)
    (simp add: interner_wf_def)


section \<open>Properties\<close>

definition sample_interner :: interner_state where
  "sample_interner = snd (the (intern ''b'' (snd (the (intern ''a'' interner_default)))))"

lemma sample_interner_eq:
  "sample_interner = \<lparr> keys = [''a'', ''b''], ids = fmupd ''b'' 1 (fmupd ''a'' 0 fmempty) \<rparr>"
  by (simp add: sample_interner_def intern_def push_from_def interner_default_def U32_MAX_def)

lemma sample_interner_wf: "interner_wf 0 sample_interner"
proof -
  have a: "intern ''a'' interner_default = Some (0, \<lparr> keys = [''a''], ids = fmupd ''a'' 0 fmempty \<rparr>)"
    by (simp add: intern_def push_from_def interner_default_def U32_MAX_def)
  have b: "intern ''b'' \<lparr> keys = [''a''], ids = fmupd ''a'' 0 fmempty \<rparr> = Some (1, sample_interner)"
    by (simp add: intern_def push_from_def sample_interner_eq U32_MAX_def)
  show ?thesis using root.put_inv [OF root.put_inv [OF wf_default a] b] .
qed

text \<open>
  C33: Interning a key returns an id that resolves to exactly that key, keeps what every older id
  resolves to, and gives the same id and state when the key is interned again.
\<close>

theorem intern_round_trip:
  assumes "interner_wf 0 s" "intern k s = Some (i, s')"
  shows "resolve s' i = Some k \<and> interner_wf 0 s' \<and> intern k s' = Some (i, s')
    \<and> prefix (keys s) (keys s') \<and> (\<forall>j < interner_len s. resolve s' j = resolve s j)"
  using root.put_get [OF assms] root.put_inv [OF assms] root.put_again [OF assms]
    intern_grows [OF assms] grows_resolve by (simp add: grows_def interner_len_def)

theorem intern_round_trip_witness:
  "intern ''c'' sample_interner = Some (2, snd (the (intern ''c'' sample_interner)))
   \<and> resolve (snd (the (intern ''c'' sample_interner))) 2 = Some ''c''
   \<and> resolve (snd (the (intern ''c'' sample_interner))) 0 = Some ''a''"
proof -
  have put: "intern ''c'' sample_interner = Some (2, snd (the (intern ''c'' sample_interner)))"
    by (simp add: intern_def push_from_def sample_interner_eq U32_MAX_def)
  have "resolve sample_interner 0 = Some ''a''" "0 < interner_len sample_interner"
    by (simp_all add: resolve_def sample_interner_eq interner_len_def)
  then show ?thesis using intern_round_trip [OF sample_interner_wf put] put by auto
qed

text \<open>
  C6: Folding an overlay back preserves every key text: whatever the root interned since the
  overlay was taken, the remap sends each id the overlay can resolve to an id of the root with the
  same text, and no id of the root changes its text.
\<close>

theorem absorb_preserves_text:
  assumes "overlay_wf root ov" "grows root root'" "absorb ov root' = Some (remap, root'')"
    and "overlay_resolve root ov i = Some t"
  shows "(\<exists>j. remap_apply remap i = Some j \<and> resolve root'' j = Some t) \<and> grows root' root''"
proof -
  have wf: "interner_wf 0 root'" using assms(2) by (simp add: grows_def)
  obtain "is" where ks: "intern_all intern (keys (own ov)) root' = Some (is, root'')"
      and remap: "remap = \<lparr> remap_base = overlay_base ov, absorbed = is \<rparr>"
    using assms(3) by (auto simp: absorb_def)
  have grown: "grows root' root''" using intern_all_grows [OF wf ks] .
  have len: "length is = length (keys (own ov))" using root.intern_all_keeps [OF wf ks] by simp
  show ?thesis
  proof (cases "i < overlay_base ov")
    case True
    then have i: "i < length (keys root)" "i < length (keys root')"
      using assms(1) grows_take [OF assms(2), of "overlay_base ov"] by (auto simp: overlay_wf_def)
    have "resolve root'' i = Some t"
      using assms(4) True grows_resolve [OF assms(2) i(1)] grows_resolve [OF grown i(2)]
      by (simp add: overlay_resolve_def)
    then show ?thesis using True grown by (simp add: remap remap_apply_def)
  next
    case False
    then have "i - overlay_base ov < length (keys (own ov))" "keys (own ov) ! (i - overlay_base ov) = t"
      using assms(4) by (auto simp: overlay_resolve_def split: if_splits)
    then show ?thesis
      using root.intern_all_get [OF wf ks, of "i - overlay_base ov"] False grown len
      by (simp add: remap remap_apply_def Let_def)
  qed
qed

theorem absorb_preserves_text_witness:
  "\<exists>ov remap root''. overlay_intern sample_interner ''z''
        \<lparr> own = interner_default, overlay_base = 2 \<rparr> = Some (2, ov)
     \<and> absorb ov (snd (the (intern ''y'' sample_interner))) = Some (remap, root'')
     \<and> (\<exists>j. remap_apply remap 2 = Some j \<and> resolve root'' j = Some ''z'')"
proof -
  define start where "start = \<lparr> own = interner_default, overlay_base = 2 \<rparr>"
  define ov where "ov = snd (the (overlay_intern sample_interner ''z'' start))"
  define root' where "root' = snd (the (intern ''y'' sample_interner))"
  have put: "overlay_intern sample_interner ''z'' start = Some (2, ov)"
    by (simp add: ov_def start_def overlay_intern_def parent_id_def push_from_def sample_interner_eq
        interner_default_def U32_MAX_def)
  have "overlay sample_interner = Some start"
    by (simp add: overlay_def start_def sample_interner_eq U32_MAX_def)
  then have start: "overlay_wf sample_interner start"
    using overlay_start_wf [OF sample_interner_wf] by simp
  have y: "intern ''y'' sample_interner = Some (2, root')"
    by (simp add: root'_def intern_def push_from_def sample_interner_eq U32_MAX_def)
  obtain remap root'' where ab: "absorb ov root' = Some (remap, root'')"
    by (simp add: absorb_def ov_def root'_def start_def overlay_intern_def parent_id_def
        push_from_def sample_interner_eq interner_default_def U32_MAX_def intern_def)
  from absorb_preserves_text [OF layered.put_inv [OF start put] intern_grows [OF sample_interner_wf y]
      ab layered.put_get [OF start put]] put ab
  show ?thesis unfolding start_def root'_def by blast
qed

text \<open>
  What an overlay answers does not depend on the schedule: any later state of the root gives
  the same ids and the same overlay, so the numbering of a task is a function of the root at the
  start of the stage and of the keys the task interns.
\<close>

theorem overlay_schedule_independent:
  assumes "overlay_wf root ov" "grows root root'"
  shows "overlay_intern root' k ov = overlay_intern root k ov \<and> overlay_wf root' ov
    \<and> overlay_resolve root' ov i = overlay_resolve root ov i"
proof -
  have "i < overlay_base ov \<Longrightarrow> resolve root' i = resolve root i"
    using grows_resolve [OF assms(2)] assms(1) by (simp add: overlay_wf_def)
  then show ?thesis
    using parent_id_grows [OF assms] overlay_wf_grows [OF assms]
    by (simp add: overlay_intern_def overlay_resolve_def)
qed

theorem overlay_schedule_independent_witness:
  "overlay_intern (snd (the (intern ''z'' sample_interner))) ''z''
     \<lparr> own = interner_default, overlay_base = 2 \<rparr>
   = overlay_intern sample_interner ''z'' \<lparr> own = interner_default, overlay_base = 2 \<rparr>"
proof -
  have z: "intern ''z'' sample_interner = Some (2, snd (the (intern ''z'' sample_interner)))"
    by (simp add: intern_def push_from_def sample_interner_eq U32_MAX_def)
  have "overlay sample_interner = Some \<lparr> own = interner_default, overlay_base = 2 \<rparr>"
    by (simp add: overlay_def sample_interner_eq U32_MAX_def)
  from overlay_schedule_independent [OF overlay_start_wf [OF sample_interner_wf this]
      intern_grows [OF sample_interner_wf z]]
  show ?thesis by blast
qed

text \<open>
  The lock protocol of \<open>intern\<close> is atomic: when the state grew between the read lock and the
  write lock, the answer is that of one atomic intern on the later state. A detached clone rebuilds
  the same state, and interning fails only when a new key meets a full id space.
\<close>

theorem intern_is_atomic:
  assumes "grows seen state"
  shows "intern_locked k seen state = intern k state \<and> detached_clone state = state
    \<and> (intern k state = None \<longleftrightarrow> k \<notin> set (keys state) \<and> U32_MAX < interner_len state)"
proof -
  have wf: "interner_wf 0 state" using assms by (simp add: grows_def)
  have "intern_locked k seen state = intern k state"
    using grows_lookup [OF assms, of k] by (auto simp: intern_locked_def intern_def split: option.split)
  moreover have "ids (detached_clone state) = ids state"
  proof (rule fmap_ext)
    fix x
    have dist: "distinct (map fst (map (\<lambda>(index, key). (key, index)) (List.enumerate 0 (keys state))))"
      using wf by (simp add: comp_def case_prod_beta interner_wf_def map_snd_enumerate [unfolded comp_def])
    have "fmlookup (ids (detached_clone state)) x = Some i \<longleftrightarrow>
        (x, i) \<in> set (map (\<lambda>(index, key). (key, index)) (List.enumerate 0 (keys state)))" for i
      unfolding detached_clone_def using lookup_fm_collect_distinct [OF dist] by simp
    also have "\<dots> i \<longleftrightarrow> fmlookup (ids state) x = Some i" for i
    proof -
      have "(x, i) \<in> set (map (\<lambda>(index, key). (key, index)) (List.enumerate 0 (keys state))) \<longleftrightarrow>
          (i, x) \<in> set (List.enumerate 0 (keys state))"
        by force
      then show ?thesis using wf by (auto simp: in_set_enumerate_eq interner_wf_def)
    qed
    finally show "fmlookup (ids (detached_clone state)) x = fmlookup (ids state) x"
      by (metis not_Some_eq)
  qed
  moreover have "intern k state = None \<longleftrightarrow> k \<notin> set (keys state) \<and> U32_MAX < interner_len state"
    using wf_lookup_None [OF wf, of k]
    by (auto simp: intern_def push_from_def interner_len_def Let_def split: option.split)
  ultimately show ?thesis by (simp add: detached_clone_def)
qed

theorem intern_is_atomic_witness:
  "intern_locked ''c'' interner_default sample_interner = intern ''c'' sample_interner"
proof -
  have "grows interner_default sample_interner"
    using sample_interner_wf by (simp add: grows_def interner_default_def) (simp add: interner_wf_def)
  from intern_is_atomic [OF this] show ?thesis by blast
qed

end
