(* ===== verification/Domain_Results.thy ===== *)
theory Domain_Results
  imports Product_State Stable_Key
begin

text \<open>
  The result tables of the domain solver, \<open>analysis_neutral/domains/results.rs\<close>: one row per
  function, block and operation, and the events at which precision was given up.
\<close>

datatype solver_status = Status_Solved | Status_Widened | Status_BudgetExceeded

record function_result =
  fr_body :: mir_body_id
  fr_body_stable_key :: stable_key_id
  fr_status :: solver_status
  fr_entry_state :: product_state

record block_state =
  bs_body :: mir_body_id
  bs_block :: basic_block_id
  bs_stable_key :: stable_key_id
  bs_entry :: product_state
  bs_exit :: product_state

record operation_state =
  os_body :: mir_body_id
  os_block :: basic_block_id
  os_operation :: mir_op_id
  os_stable_key :: stable_key_id
  os_before :: product_state
  os_after :: product_state

record top_event =
  te_body :: mir_body_id
  te_block :: "basic_block_id option"
  te_operation :: "mir_op_id option"
  te_reason :: top_reason
  te_stable_key :: stable_key_id

record domain_results =
  res_functions :: "(mir_body_id, function_result) fmap"
  res_block_states :: "(basic_block_id, block_state) fmap"
  res_operation_states :: "(mir_op_id, operation_state) fmap"
  res_top_events :: "(stable_key_id, top_event) fmap"

definition domain_results_new :: domain_results where
  "domain_results_new =
     \<lparr> res_functions = fmempty, res_block_states = fmempty, res_operation_states = fmempty,
       res_top_events = fmempty \<rparr>"

definition insert_function ::
  "mir_body_id \<Rightarrow> stable_key_id \<Rightarrow> solver_status \<Rightarrow> product_state \<Rightarrow> domain_results \<Rightarrow> domain_results" where
  "insert_function body body_key status entry self =
     self \<lparr> res_functions := fmupd body
       \<lparr> fr_body = body, fr_body_stable_key = body_key, fr_status = status, fr_entry_state = entry \<rparr>
       (res_functions self) \<rparr>"

definition insert_block_state ::
  "mir_body_id \<Rightarrow> basic_block_id \<Rightarrow> stable_key_id \<Rightarrow> product_state \<Rightarrow> product_state
     \<Rightarrow> domain_results \<Rightarrow> domain_results" where
  "insert_block_state body block key entry exit_state self =
     self \<lparr> res_block_states := fmupd block
       \<lparr> bs_body = body, bs_block = block, bs_stable_key = key, bs_entry = entry,
         bs_exit = exit_state \<rparr> (res_block_states self) \<rparr>"

definition insert_operation_state ::
  "mir_body_id \<Rightarrow> basic_block_id \<Rightarrow> mir_op_id \<Rightarrow> stable_key_id \<Rightarrow> product_state \<Rightarrow> product_state
     \<Rightarrow> domain_results \<Rightarrow> domain_results" where
  "insert_operation_state body block operation key before after self =
     self \<lparr> res_operation_states := fmupd operation
       \<lparr> os_body = body, os_block = block, os_operation = operation, os_stable_key = key,
         os_before = before, os_after = after \<rparr> (res_operation_states self) \<rparr>"

definition record_top_event ::
  "mir_body_id \<Rightarrow> basic_block_id option \<Rightarrow> mir_op_id option \<Rightarrow> top_reason \<Rightarrow> stable_key_id
     \<Rightarrow> domain_results \<Rightarrow> domain_results" where
  "record_top_event body block operation reason key self =
     self \<lparr> res_top_events := fmupd key
       \<lparr> te_body = body, te_block = block, te_operation = operation, te_reason = reason,
         te_stable_key = key \<rparr> (res_top_events self) \<rparr>"

definition entry_state :: "domain_results \<Rightarrow> mir_body_id \<Rightarrow> product_state option" where
  "entry_state self body = map_option fr_entry_state (fmlookup (res_functions self) body)"

definition block_entry :: "domain_results \<Rightarrow> basic_block_id \<Rightarrow> product_state option" where
  "block_entry self block = map_option bs_entry (fmlookup (res_block_states self) block)"

definition block_exit :: "domain_results \<Rightarrow> basic_block_id \<Rightarrow> product_state option" where
  "block_exit self block = map_option bs_exit (fmlookup (res_block_states self) block)"

definition before_operation :: "domain_results \<Rightarrow> mir_op_id \<Rightarrow> product_state option" where
  "before_operation self operation = map_option os_before (fmlookup (res_operation_states self) operation)"

definition after_operation :: "domain_results \<Rightarrow> mir_op_id \<Rightarrow> product_state option" where
  "after_operation self operation = map_option os_after (fmlookup (res_operation_states self) operation)"

definition result_statuses :: "domain_results \<Rightarrow> solver_status list" where
  "result_statuses self = map fr_status (bt_values (res_functions self))"

definition has_top_reason :: "domain_results \<Rightarrow> top_reason \<Rightarrow> bool" where
  "has_top_reason self reason =
     list_ex (\<lambda>event. te_reason event = reason) (bt_values (res_top_events self))"

end
