(* ===== verification/Icfg.thy ===== *)
theory Icfg
  imports Facts
begin

text \<open>
  The interprocedural control-flow graph of \<open>analysis_neutral/ifds/mod.rs\<close>: \<open>Icfg::from_facts\<close>
  joins CFG edges, call sites and resolved call edges into one graph with call, return and
  call-to-return edges. The domain solver and the taint search both run on it.
\<close>

section \<open>Graph\<close>

datatype icfg_edge_kind =
    Icfg_Intra cfg_edge_kind
  | Icfg_Call call_site_id
  | Icfg_Return call_site_id
  | Icfg_CallToReturn call_site_id cfg_edge_kind

record icfg_edge =
  ie_to :: cfg_node_id
  ie_kind :: icfg_edge_kind

record icfg =
  icfg_outgoing :: "(cfg_node_id, icfg_edge list) fmap"
  icfg_calls :: "(call_site_id, refined_call_edge_id fset) fmap"

text \<open>The derived order: variants in declaration order, then their fields.\<close>

definition cfg_edge_kind_index :: "cfg_edge_kind \<Rightarrow> nat" where
  "cfg_edge_kind_index k =
     (case k of
        Edge_Normal \<Rightarrow> 0 | Edge_True \<Rightarrow> 1 | Edge_False \<Rightarrow> 2 | Edge_SwitchCase \<Rightarrow> 3
      | Edge_DefaultCase \<Rightarrow> 4 | Edge_LoopEnter \<Rightarrow> 5 | Edge_LoopBack \<Rightarrow> 6 | Edge_LoopExit \<Rightarrow> 7
      | Edge_Break \<Rightarrow> 8 | Edge_Continue \<Rightarrow> 9 | Edge_Goto \<Rightarrow> 10 | Edge_Return \<Rightarrow> 11
      | Edge_Throw \<Rightarrow> 12 | Edge_ImplicitThrow \<Rightarrow> 13 | Edge_Panic \<Rightarrow> 14 | Edge_Recover \<Rightarrow> 15
      | Edge_Finally \<Rightarrow> 16 | Edge_Cleanup \<Rightarrow> 17 | Edge_Defer \<Rightarrow> 18 | Edge_ShortCircuit \<Rightarrow> 19
      | Edge_OptionalChain \<Rightarrow> 20 | Edge_Nullish \<Rightarrow> 21 | Edge_YieldSuspend \<Rightarrow> 22
      | Edge_YieldResume \<Rightarrow> 23 | Edge_AwaitSuspend \<Rightarrow> 24 | Edge_AwaitResume \<Rightarrow> 25
      | Edge_Spawn \<Rightarrow> 26 | Edge_Unreachable \<Rightarrow> 27 | Edge_Unknown \<Rightarrow> 28 | Edge_Synthetic \<Rightarrow> 29
      | Edge_Extension \<Rightarrow> 30)"

fun icfg_edge_kind_key :: "icfg_edge_kind \<Rightarrow> nat \<times> nat \<times> nat" where
  "icfg_edge_kind_key (Icfg_Intra k) = (0, cfg_edge_kind_index k, 0)"
| "icfg_edge_kind_key (Icfg_Call s) = (1, s, 0)"
| "icfg_edge_kind_key (Icfg_Return s) = (2, s, 0)"
| "icfg_edge_kind_key (Icfg_CallToReturn s k) = (3, s, cfg_edge_kind_index k)"

definition icfg_edge_key :: "icfg_edge \<Rightarrow> nat \<times> nat \<times> nat \<times> nat" where
  "icfg_edge_key e = (ie_to e, icfg_edge_kind_key (ie_kind e))"

definition icfg_default :: icfg where
  "icfg_default = \<lparr> icfg_outgoing = fmempty, icfg_calls = fmempty \<rparr>"

definition push_edge :: "cfg_node_id \<Rightarrow> cfg_node_id \<Rightarrow> icfg_edge_kind \<Rightarrow> icfg \<Rightarrow> icfg" where
  "push_edge from_node to_node kind graph =
     graph \<lparr> icfg_outgoing :=
       fm_push from_node \<lparr> ie_to = to_node, ie_kind = kind \<rparr> (icfg_outgoing graph) \<rparr>"


section \<open>Construction\<close>

definition node_by_operation ::
  "cfg_node_fact list \<Rightarrow> (mir_op_id, cfg_node_id) fmap" where
  "node_by_operation cfg_nodes =
     fold (\<lambda>node m. case node_operation node of
             Some operation \<Rightarrow> fm_or_insert operation (node_id node) m
           | None \<Rightarrow> m) cfg_nodes fmempty"

definition call_nodes_of ::
  "cfg_node_fact list \<Rightarrow> call_site_fact list \<Rightarrow> (call_site_id, cfg_node_id) fmap" where
  "call_nodes_of cfg_nodes call_sites =
     (let nodes = node_by_operation cfg_nodes in
      fm_collect (List.map_filter
        (\<lambda>site. map_option (\<lambda>node. (site_id site, node)) (fmlookup nodes (site_operation site)))
        call_sites))"

definition call_site_by_node_of ::
  "(call_site_id, cfg_node_id) fmap \<Rightarrow> (cfg_node_id, call_site_id) fmap" where
  "call_site_by_node_of call_nodes = fm_collect (map (\<lambda>(site, node). (node, site)) (bt_entries call_nodes))"

definition functions_of ::
  "cfg_function_fact list \<Rightarrow> (function_id, cfg_function_fact) fmap" where
  "functions_of cfg_functions = fm_collect (map (\<lambda>function. (cfgf_function function, function)) cfg_functions)"

definition add_cfg_edge ::
  "(cfg_node_id, call_site_id) fmap \<Rightarrow> cfg_edge_fact \<Rightarrow> icfg \<Rightarrow> icfg" where
  "add_cfg_edge call_site_by_node edge graph =
     (let kind = (case fmlookup call_site_by_node (cfge_from edge) of
                    Some site \<Rightarrow> Icfg_CallToReturn site (cfge_kind edge)
                  | None \<Rightarrow> Icfg_Intra (cfge_kind edge))
      in push_edge (cfge_from edge) (cfge_to edge) kind graph)"

definition is_continuation :: "call_site_id \<Rightarrow> icfg_edge \<Rightarrow> bool" where
  "is_continuation s e =
     (case ie_kind e of Icfg_CallToReturn site _ \<Rightarrow> site = s | _ \<Rightarrow> False)"

definition add_refined_call ::
  "(call_site_id, cfg_node_id) fmap \<Rightarrow> (function_id, cfg_function_fact) fmap
     \<Rightarrow> refined_call_edge_fact \<Rightarrow> icfg \<Rightarrow> icfg" where
  "add_refined_call call_nodes functions refined graph =
     (let graph = graph \<lparr> icfg_calls :=
            fm_add (refined_site refined) (refined_id refined) (icfg_calls graph) \<rparr>
      in case fmlookup call_nodes (refined_site refined) of
           None \<Rightarrow> graph
         | Some call_node \<Rightarrow>
             (case Option.bind (refined_target_function refined) (fmlookup functions) of
                None \<Rightarrow> graph
              | Some callee \<Rightarrow>
                  (let graph = push_edge call_node (entry_node callee)
                                 (Icfg_Call (refined_site refined)) graph;
                       continuations = map ie_to (filter (is_continuation (refined_site refined))
                         (fm_get_or [] (icfg_outgoing graph) call_node))
                   in fold (\<lambda>continuation. push_edge (normal_exit_node callee) continuation
                              (Icfg_Return (refined_site refined)))
                        continuations graph)))"

definition sort_dedup_edges :: "icfg_edge list \<Rightarrow> icfg_edge list" where
  "sort_dedup_edges es = vec_dedup (sort_key icfg_edge_key es)"

definition is_resolved_refined :: "refined_call_edge_fact \<Rightarrow> bool" where
  "is_resolved_refined edge \<longleftrightarrow>
     refined_status edge = Target_Resolved \<and> refined_target_function edge \<noteq> None"

definition icfg_from_facts ::
  "cfg_function_fact list \<Rightarrow> cfg_node_fact list \<Rightarrow> cfg_edge_fact list \<Rightarrow> call_site_fact list
     \<Rightarrow> refined_call_edge_fact list \<Rightarrow> icfg" where
  "icfg_from_facts cfg_functions cfg_nodes cfg_edges call_sites refined_calls =
     (let call_nodes = call_nodes_of cfg_nodes call_sites;
          call_site_by_node = call_site_by_node_of call_nodes;
          functions = functions_of cfg_functions;
          graph = fold (add_cfg_edge call_site_by_node) cfg_edges icfg_default;
          graph = fold (add_refined_call call_nodes functions)
                    (filter is_resolved_refined refined_calls) graph
      in graph \<lparr> icfg_outgoing := fmmap sort_dedup_edges (icfg_outgoing graph) \<rparr>)"

definition icfg_outgoing_edges :: "icfg \<Rightarrow> cfg_node_id \<Rightarrow> icfg_edge list" where
  "icfg_outgoing_edges graph node = fm_get_or [] (icfg_outgoing graph) node"

definition has_resolved_call :: "icfg \<Rightarrow> call_site_id \<Rightarrow> bool" where
  "has_resolved_call graph site =
     (case fmlookup (icfg_calls graph) site of Some edges \<Rightarrow> edges \<noteq> {||} | None \<Rightarrow> False)"

definition accepts_boundary :: "icfg \<Rightarrow> call_site_id \<Rightarrow> refined_call_edge_id option \<Rightarrow> bool" where
  "accepts_boundary graph site refined_call =
     (case fmlookup (icfg_calls graph) site of
        None \<Rightarrow> False
      | Some edges \<Rightarrow> (case refined_call of None \<Rightarrow> True | Some edge \<Rightarrow> edge |\<in>| edges))"


section \<open>The edges of the graph\<close>

abbreviation raw_edges :: "icfg \<Rightarrow> cfg_node_id \<Rightarrow> icfg_edge set" where
  "raw_edges g n \<equiv> set (fm_get_or [] (icfg_outgoing g) n)"

lemma raw_edges_push_edge:
  "raw_edges (push_edge a b k g) n =
     (if n = a then insert \<lparr> ie_to = b, ie_kind = k \<rparr> (raw_edges g n) else raw_edges g n)"
  by (simp add: push_edge_def fm_get_or_push)

lemma calls_push_edge [simp]: "icfg_calls (push_edge a b k g) = icfg_calls g"
  by (simp add: push_edge_def)

lemma calls_fold_push_edge [simp]:
  "icfg_calls (fold (\<lambda>b. push_edge a b k) bs g) = icfg_calls g"
  by (induction bs arbitrary: g) simp_all

lemma raw_edges_fold_push_edge:
  "raw_edges (fold (\<lambda>b. push_edge a b k) bs g) n =
     raw_edges g n \<union> (if n = a then (\<lambda>b. \<lparr> ie_to = b, ie_kind = k \<rparr>) ` set bs else {})"
  by (induction bs arbitrary: g) (auto simp: raw_edges_push_edge)

definition cfg_edge_as_icfg ::
  "(cfg_node_id, call_site_id) fmap \<Rightarrow> cfg_edge_fact \<Rightarrow> icfg_edge" where
  "cfg_edge_as_icfg call_site_by_node edge =
     \<lparr> ie_to = cfge_to edge,
       ie_kind = (case fmlookup call_site_by_node (cfge_from edge) of
                    Some site \<Rightarrow> Icfg_CallToReturn site (cfge_kind edge)
                  | None \<Rightarrow> Icfg_Intra (cfge_kind edge)) \<rparr>"

lemma raw_edges_cfg_fold:
  "raw_edges (fold (add_cfg_edge m) es g) n =
     raw_edges g n \<union> cfg_edge_as_icfg m ` {e \<in> set es. cfge_from e = n}"
  by (induction es arbitrary: g)
    (auto simp: add_cfg_edge_def cfg_edge_as_icfg_def Let_def raw_edges_push_edge)

lemma calls_cfg_fold [simp]: "icfg_calls (fold (add_cfg_edge m) es g) = icfg_calls g"
  by (induction es arbitrary: g) (simp_all add: add_cfg_edge_def Let_def)

text \<open>A resolved call edge from a call node to a function of the CFG.\<close>

definition links ::
  "(call_site_id, cfg_node_id) fmap \<Rightarrow> (function_id, cfg_function_fact) fmap
     \<Rightarrow> refined_call_edge_fact \<Rightarrow> cfg_node_id \<Rightarrow> cfg_function_fact \<Rightarrow> bool" where
  "links call_nodes functions r cn callee \<longleftrightarrow>
     fmlookup call_nodes (refined_site r) = Some cn
     \<and> Option.bind (refined_target_function r) (fmlookup functions) = Some callee"

definition linked_edges ::
  "(call_site_id, cfg_node_id) fmap \<Rightarrow> (function_id, cfg_function_fact) fmap
     \<Rightarrow> (cfg_node_id \<Rightarrow> icfg_edge set) \<Rightarrow> refined_call_edge_fact \<Rightarrow> cfg_node_id \<Rightarrow> icfg_edge set" where
  "linked_edges call_nodes functions K r n =
     {e. \<exists>callee. links call_nodes functions r n callee
        \<and> e = \<lparr> ie_to = entry_node callee, ie_kind = Icfg_Call (refined_site r) \<rparr>}
     \<union> {e. \<exists>cn callee k. links call_nodes functions r cn callee \<and> n = normal_exit_node callee
        \<and> k \<in> K cn \<and> is_continuation (refined_site r) k
        \<and> e = \<lparr> ie_to = ie_to k, ie_kind = Icfg_Return (refined_site r) \<rparr>}"

definition continuations_are :: "(cfg_node_id \<Rightarrow> icfg_edge set) \<Rightarrow> icfg \<Rightarrow> bool" where
  "continuations_are K g \<longleftrightarrow>
     (\<forall>n s. {e \<in> raw_edges g n. is_continuation s e} = {e \<in> K n. is_continuation s e})"

lemma is_continuation_simps [simp]:
  "\<not> is_continuation s \<lparr> ie_to = t, ie_kind = Icfg_Call s' \<rparr>"
  "\<not> is_continuation s \<lparr> ie_to = t, ie_kind = Icfg_Return s' \<rparr>"
  by (simp_all add: is_continuation_def)

lemma raw_edges_add_refined:
  assumes "continuations_are K g"
  shows "raw_edges (add_refined_call cns fns r g) n = raw_edges g n \<union> linked_edges cns fns K r n"
proof (cases "fmlookup cns (refined_site r)")
  case None
  then show ?thesis by (auto simp: add_refined_call_def linked_edges_def links_def Let_def)
next
  case (Some cn)
  show ?thesis
  proof (cases "Option.bind (refined_target_function r) (fmlookup fns)")
    case None
    with Some show ?thesis by (auto simp: add_refined_call_def linked_edges_def links_def Let_def)
  next
    case callee: (Some callee)
    have links: "links cns fns r a c \<longleftrightarrow> a = cn \<and> c = callee" for a c
      using Some callee by (auto simp: links_def)
    define g1 where "g1 = push_edge cn (entry_node callee) (Icfg_Call (refined_site r))
      (g \<lparr> icfg_calls := fm_add (refined_site r) (refined_id r) (icfg_calls g) \<rparr>)"
    have step: "add_refined_call cns fns r g = fold (\<lambda>c. push_edge (normal_exit_node callee) c
        (Icfg_Return (refined_site r)))
        (map ie_to (filter (is_continuation (refined_site r))
          (fm_get_or [] (icfg_outgoing g1) cn))) g1"
      using Some callee by (simp add: add_refined_call_def Let_def g1_def)
    have g1: "raw_edges g1 m = raw_edges g m \<union> (if m = cn
        then {\<lparr> ie_to = entry_node callee, ie_kind = Icfg_Call (refined_site r) \<rparr>} else {})" for m
      by (simp add: g1_def raw_edges_push_edge)
    have conts: "{e \<in> raw_edges g1 cn. is_continuation (refined_site r) e}
        = {e \<in> K cn. is_continuation (refined_site r) e}"
      using assms by (auto simp: g1 continuations_are_def)
    have "raw_edges (add_refined_call cns fns r g) n =
        raw_edges g1 n \<union> (if n = normal_exit_node callee
          then (\<lambda>k. \<lparr> ie_to = ie_to k, ie_kind = Icfg_Return (refined_site r) \<rparr>)
            ` {e \<in> K cn. is_continuation (refined_site r) e} else {})"
      unfolding step raw_edges_fold_push_edge set_map set_filter conts by (simp add: image_image)
    then show ?thesis unfolding g1 linked_edges_def links by auto
  qed
qed

lemma continuations_add_refined:
  "continuations_are K g \<Longrightarrow> continuations_are K (add_refined_call cns fns r g)"
  by (subst continuations_are_def, subst raw_edges_add_refined)
    (auto simp: continuations_are_def linked_edges_def)

lemma raw_edges_refined_fold:
  "continuations_are K g \<Longrightarrow>
   raw_edges (fold (add_refined_call cns fns) rs g) n =
     raw_edges g n \<union> (\<Union>r\<in>set rs. linked_edges cns fns K r n)"
proof (induction rs arbitrary: g)
  case (Cons r rs)
  have "raw_edges (fold (add_refined_call cns fns) (r # rs) g) n =
      raw_edges (add_refined_call cns fns r g) n \<union> (\<Union>r\<in>set rs. linked_edges cns fns K r n)"
    using Cons.IH [OF continuations_add_refined [OF Cons.prems]] by simp
  then show ?case by (simp add: raw_edges_add_refined [OF Cons.prems] Un_assoc)
qed simp

lemma calls_refined_fold:
  "r |\<in>| fm_get_or {||} (icfg_calls (fold (add_refined_call cns fns) rs g)) s \<longleftrightarrow>
     r |\<in>| fm_get_or {||} (icfg_calls g) s \<or> (\<exists>e\<in>set rs. refined_site e = s \<and> refined_id e = r)"
proof (induction rs arbitrary: g)
  case (Cons e rs)
  have "icfg_calls (add_refined_call cns fns e g) =
      fm_add (refined_site e) (refined_id e) (icfg_calls g)"
    by (simp add: add_refined_call_def Let_def split: option.split)
  with Cons show ?case by (auto simp: fm_get_or_add)
qed simp

lemma calls_never_empty:
  "fmlookup (icfg_calls g) s \<noteq> Some {||} \<Longrightarrow>
   fmlookup (icfg_calls (fold (add_refined_call cns fns) rs g)) s \<noteq> Some {||}"
proof (induction rs arbitrary: g)
  case (Cons e rs)
  have "icfg_calls (add_refined_call cns fns e g) =
      fm_add (refined_site e) (refined_id e) (icfg_calls g)"
    by (simp add: add_refined_call_def Let_def split: option.split)
  with Cons show ?case by (simp add: fm_add_def)
qed simp

lemma inj_cfg_edge_kind_index: "cfg_edge_kind_index a = cfg_edge_kind_index b \<longleftrightarrow> a = b"
  by (cases a; simp add: cfg_edge_kind_index_def split: cfg_edge_kind.splits)

lemma inj_icfg_edge_key: "icfg_edge_key a = icfg_edge_key b \<longleftrightarrow> a = b"
  by (cases a; cases b; cases "ie_kind a"; cases "ie_kind b")
    (auto simp: icfg_edge_key_def inj_cfg_edge_kind_index)


lemma set_sort_dedup_edges [simp]: "set (sort_dedup_edges es) = set es"
  by (simp add: sort_dedup_edges_def)

lemma outgoing_from_facts:
  "set (icfg_outgoing_edges (icfg_from_facts fs ns es cs rs) n) =
     raw_edges (fold (add_refined_call (call_nodes_of ns cs) (functions_of fs))
       (filter is_resolved_refined rs)
       (fold (add_cfg_edge (call_site_by_node_of (call_nodes_of ns cs))) es icfg_default)) n"
  by (simp add: icfg_outgoing_edges_def icfg_from_facts_def Let_def fm_get_or_def split: option.split)

text \<open>The call node of a site and the site recorded for a node, as \<open>from_facts\<close> looks them up.\<close>

abbreviation site_at :: "cfg_node_fact list \<Rightarrow> call_site_fact list \<Rightarrow> cfg_node_id \<Rightarrow> call_site_id option"
  where "site_at ns cs n \<equiv> fmlookup (call_site_by_node_of (call_nodes_of ns cs)) n"

definition resolved_link ::
  "cfg_function_fact list \<Rightarrow> cfg_node_fact list \<Rightarrow> call_site_fact list \<Rightarrow> refined_call_edge_fact list
     \<Rightarrow> call_site_id \<Rightarrow> cfg_node_id \<Rightarrow> cfg_function_fact \<Rightarrow> bool" where
  "resolved_link fs ns cs rs site call_node callee \<longleftrightarrow>
     (\<exists>r\<in>set rs. is_resolved_refined r \<and> refined_site r = site
        \<and> links (call_nodes_of ns cs) (functions_of fs) r call_node callee)"

text \<open>A call node found by the index executes the operation of its call site.\<close>

lemma node_by_operation_sound:
  "fmlookup (node_by_operation ns) op = Some n \<Longrightarrow>
     \<exists>node\<in>set ns. node_operation node = Some op \<and> node_id node = n"
proof -
  have "fmlookup (fold (\<lambda>node m. case node_operation node of
          Some operation \<Rightarrow> fm_or_insert operation (node_id node) m | None \<Rightarrow> m) ns m) op = Some n
      \<Longrightarrow> fmlookup m op = Some n \<or> (\<exists>node\<in>set ns. node_operation node = Some op \<and> node_id node = n)"
    for m
  proof (induction ns arbitrary: m)
    case (Cons node ns)
    then show ?case
      by (cases "node_operation node") (fastforce simp: lookup_fm_or_insert split: if_splits)+
  qed simp
  then show "fmlookup (node_by_operation ns) op = Some n \<Longrightarrow>
      \<exists>node\<in>set ns. node_operation node = Some op \<and> node_id node = n"
    by (fastforce simp: node_by_operation_def)
qed

lemma call_nodes_sound:
  assumes "fmlookup (call_nodes_of ns cs) s = Some n"
  shows "\<exists>site\<in>set cs. \<exists>node\<in>set ns. site_id site = s \<and> node_id node = n
    \<and> node_operation node = Some (site_operation site)"
proof -
  obtain site where "site \<in> set cs" "site_id site = s"
      "fmlookup (node_by_operation ns) (site_operation site) = Some n"
    using fm_collect_SomeD [OF assms [unfolded call_nodes_of_def Let_def]]
    by (auto simp: List.map_filter_def)
  then show ?thesis using node_by_operation_sound by blast
qed


text \<open>The CFG successors of a node as graph edges, and the edges a resolved call adds to them.\<close>

definition cfg_successors ::
  "(cfg_node_id, call_site_id) fmap \<Rightarrow> cfg_edge_fact list \<Rightarrow> cfg_node_id \<Rightarrow> icfg_edge set" where
  "cfg_successors m es n = cfg_edge_as_icfg m ` {e \<in> set es. cfge_from e = n}"

lemma continuation_iff:
  "k \<in> cfg_successors m es cn \<and> is_continuation s k \<longleftrightarrow>
     (\<exists>edge\<in>set es. cfge_from edge = cn \<and> fmlookup m cn = Some s
        \<and> k = \<lparr> ie_to = cfge_to edge, ie_kind = Icfg_CallToReturn s (cfge_kind edge) \<rparr>)"
  by (cases "fmlookup m cn") (auto simp: cfg_successors_def cfg_edge_as_icfg_def is_continuation_def)

lemma return_edge_iff:
  "(\<exists>k. k \<in> cfg_successors m es cn \<and> is_continuation s k
      \<and> e = \<lparr> ie_to = ie_to k, ie_kind = Icfg_Return s \<rparr>)
   \<longleftrightarrow> fmlookup m cn = Some s \<and> ie_kind e = Icfg_Return s
      \<and> (\<exists>edge\<in>set es. cfge_from edge = cn \<and> ie_to e = cfge_to edge)"
proof -
  have "(\<exists>k. k \<in> cfg_successors m es cn \<and> is_continuation s k
        \<and> e = \<lparr> ie_to = ie_to k, ie_kind = Icfg_Return s \<rparr>)
      \<longleftrightarrow> (\<exists>k. (k \<in> cfg_successors m es cn \<and> is_continuation s k)
        \<and> ie_to e = ie_to k \<and> ie_kind e = Icfg_Return s)"
    by (cases e) auto
  then show ?thesis unfolding continuation_iff by auto
qed

lemma linked_edges_iff:
  "e \<in> linked_edges cns fns (cfg_successors m es) r n \<longleftrightarrow>
     (\<exists>callee. links cns fns r n callee
        \<and> ie_to e = entry_node callee \<and> ie_kind e = Icfg_Call (refined_site r))
     \<or> (\<exists>cn callee. links cns fns r cn callee \<and> n = normal_exit_node callee
        \<and> fmlookup m cn = Some (refined_site r) \<and> ie_kind e = Icfg_Return (refined_site r)
        \<and> (\<exists>edge\<in>set es. cfge_from edge = cn \<and> ie_to e = cfge_to edge))"
proof -
  have call: "e = \<lparr> ie_to = a, ie_kind = Icfg_Call b \<rparr> \<longleftrightarrow> ie_to e = a \<and> ie_kind e = Icfg_Call b"
    for a b by (cases e) auto
  have "e \<in> linked_edges cns fns (cfg_successors m es) r n \<longleftrightarrow>
      (\<exists>callee. links cns fns r n callee
        \<and> ie_to e = entry_node callee \<and> ie_kind e = Icfg_Call (refined_site r))
      \<or> (\<exists>cn callee. links cns fns r cn callee \<and> n = normal_exit_node callee
        \<and> (\<exists>k. k \<in> cfg_successors m es cn \<and> is_continuation (refined_site r) k
             \<and> e = \<lparr> ie_to = ie_to k, ie_kind = Icfg_Return (refined_site r) \<rparr>))"
    unfolding linked_edges_def call Un_iff mem_Collect_eq by blast
  then show ?thesis unfolding return_edge_iff .
qed


section \<open>Properties\<close>

text \<open>
  The outgoing edges of a node are exactly: its CFG edges, marked as call-to-return edges when
  the node is a call node; a call edge to the entry of each resolved callee; and, at the normal exit
  of a callee, a return edge to each CFG successor of each call node that calls it.
\<close>

theorem icfg_edges_exact:
  "e \<in> set (icfg_outgoing_edges (icfg_from_facts fs ns es cs rs) n) \<longleftrightarrow>
     (\<exists>edge\<in>set es. cfge_from edge = n \<and> ie_to e = cfge_to edge
        \<and> ie_kind e = (case site_at ns cs n of
            Some site \<Rightarrow> Icfg_CallToReturn site (cfge_kind edge) | None \<Rightarrow> Icfg_Intra (cfge_kind edge)))
   \<or> (\<exists>site callee. resolved_link fs ns cs rs site n callee
        \<and> ie_to e = entry_node callee \<and> ie_kind e = Icfg_Call site)
   \<or> (\<exists>site call_node callee. resolved_link fs ns cs rs site call_node callee
        \<and> n = normal_exit_node callee \<and> site_at ns cs call_node = Some site
        \<and> ie_kind e = Icfg_Return site
        \<and> (\<exists>edge\<in>set es. cfge_from edge = call_node \<and> ie_to e = cfge_to edge))"
proof -
  define m where "m = call_site_by_node_of (call_nodes_of ns cs)"
  have base: "raw_edges (fold (add_cfg_edge m) es icfg_default) n = cfg_successors m es n" for n
    by (simp add: raw_edges_cfg_fold cfg_successors_def icfg_default_def)
  then have cont: "continuations_are (cfg_successors m es) (fold (add_cfg_edge m) es icfg_default)"
    by (simp add: continuations_are_def)
  have "e \<in> set (icfg_outgoing_edges (icfg_from_facts fs ns es cs rs) n) \<longleftrightarrow>
      e \<in> cfg_successors m es n \<or> (\<exists>r\<in>set rs. is_resolved_refined r \<and>
        e \<in> linked_edges (call_nodes_of ns cs) (functions_of fs) (cfg_successors m es) r n)"
    unfolding outgoing_from_facts m_def [symmetric] raw_edges_refined_fold [OF cont] base by auto
  moreover have "e \<in> cfg_successors m es n \<longleftrightarrow>
      (\<exists>edge\<in>set es. cfge_from edge = n \<and> ie_to e = cfge_to edge
        \<and> ie_kind e = (case fmlookup m n of
            Some site \<Rightarrow> Icfg_CallToReturn site (cfge_kind edge) | None \<Rightarrow> Icfg_Intra (cfge_kind edge)))"
    by (cases e) (auto simp: cfg_successors_def cfg_edge_as_icfg_def)
  moreover have "(\<exists>r\<in>set rs. is_resolved_refined r \<and>
        e \<in> linked_edges (call_nodes_of ns cs) (functions_of fs) (cfg_successors m es) r n) \<longleftrightarrow>
      (\<exists>site callee. resolved_link fs ns cs rs site n callee
        \<and> ie_to e = entry_node callee \<and> ie_kind e = Icfg_Call site)
      \<or> (\<exists>site call_node callee. resolved_link fs ns cs rs site call_node callee
        \<and> n = normal_exit_node callee \<and> fmlookup m call_node = Some site
        \<and> ie_kind e = Icfg_Return site
        \<and> (\<exists>edge\<in>set es. cfge_from edge = call_node \<and> ie_to e = cfge_to edge))"
    unfolding linked_edges_iff resolved_link_def by blast
  ultimately show ?thesis unfolding m_def by blast
qed

text \<open>
  The outgoing edge list of every node is in ascending order without repetitions; and a call boundary is accepted exactly for the call sites with a
  resolved call edge, or for the named edge when the boundary names one.
\<close>

theorem icfg_canonical_edges_and_boundaries:
  "(sorted (map icfg_edge_key (icfg_outgoing_edges (icfg_from_facts fs ns es cs rs) n))
     \<and> distinct (icfg_outgoing_edges (icfg_from_facts fs ns es cs rs) n))
   \<and> has_resolved_call (icfg_from_facts fs ns es cs rs) site =
       (\<exists>r\<in>set rs. is_resolved_refined r \<and> refined_site r = site)
   \<and> accepts_boundary (icfg_from_facts fs ns es cs rs) site (Some edge) =
       (\<exists>r\<in>set rs. is_resolved_refined r \<and> refined_site r = site \<and> refined_id r = edge)
   \<and> accepts_boundary (icfg_from_facts fs ns es cs rs) site None =
       has_resolved_call (icfg_from_facts fs ns es cs rs) site"
proof (intro conjI)
  have "sorted (map icfg_edge_key (sort_dedup_edges l)) \<and> distinct (sort_dedup_edges l)" for l
    unfolding sort_dedup_edges_def
    by (rule sorted_distinct_map_vec_dedup) (simp_all add: inj_icfg_edge_key)
  then show "sorted (map icfg_edge_key (icfg_outgoing_edges (icfg_from_facts fs ns es cs rs) n))"
    "distinct (icfg_outgoing_edges (icfg_from_facts fs ns es cs rs) n)"
    by (simp_all add: icfg_outgoing_edges_def icfg_from_facts_def Let_def fm_get_or_def
        split: option.split)
  define g where "g = icfg_from_facts fs ns es cs rs"
  have calls: "r |\<in>| fm_get_or {||} (icfg_calls g) site \<longleftrightarrow>
      (\<exists>e\<in>set rs. is_resolved_refined e \<and> refined_site e = site \<and> refined_id e = r)" for r
    unfolding g_def icfg_from_facts_def Let_def
    by (auto simp: calls_refined_fold icfg_default_def)
  have "has_resolved_call g site \<longleftrightarrow> (\<exists>r. r |\<in>| fm_get_or {||} (icfg_calls g) site)"
    by (auto simp: has_resolved_call_def fm_get_or_def split: option.split)
  then show "has_resolved_call g site = (\<exists>r\<in>set rs. is_resolved_refined r \<and> refined_site r = site)"
    unfolding calls by blast
  have "accepts_boundary g site (Some edge) \<longleftrightarrow> edge |\<in>| fm_get_or {||} (icfg_calls g) site"
    by (simp add: accepts_boundary_def fm_get_or_def split: option.split)
  then show "accepts_boundary g site (Some edge) =
      (\<exists>r\<in>set rs. is_resolved_refined r \<and> refined_site r = site \<and> refined_id r = edge)"
    unfolding calls .
  have "fmlookup (icfg_calls g) site \<noteq> Some {||}"
    unfolding g_def icfg_from_facts_def Let_def
    by (simp add: calls_never_empty icfg_default_def)
  then show "accepts_boundary g site None = has_resolved_call g site"
    by (auto simp: accepts_boundary_def has_resolved_call_def split: option.split)
qed

end
