(* ===== verification/Domain_Solver.thy ===== *)
theory Domain_Solver
  imports Domain_Transfer Domain_Results Icfg
begin

text \<open>
  The fixpoint solver of \<open>analysis_neutral/domains/solver.rs\<close>: a worklist over exploded points (a
  CFG node with the call stack that reached it), budgeted by iterations, that propagates product
  states along the interprocedural CFG. The stable-key interner grows when precision events are
  recorded, so a step can fail like the interner does. The main result is that a run that ends
  within its budget has computed a post-fixpoint of all edge flows.
\<close>

section \<open>Inputs\<close>

record analysis_host =
  h_mir_bodies :: "mir_body list"
  h_mir_operations :: "mir_operation list"
  h_mir_places :: "place_fact list"
  h_cfg_functions :: "cfg_function_fact list"
  h_cfg_blocks :: "basic_block_fact list"
  h_cfg_nodes :: "cfg_node_fact list"
  h_cfg_edges :: "cfg_edge_fact list"
  h_call_sites :: "call_site_fact list"
  h_refined_call_edges :: "refined_call_edge_fact list"
  h_unresolved_calls :: "unresolved_call_fact list"
  h_unsupported_semantics :: "unsupported_semantic_fact list"
  h_interner :: interner_state

record solver_budget =
  max_iterations :: nat
  widening_fuel :: nat

record solver_policy =
  budget :: solver_budget
  reduction_rounds :: nat

definition deterministic_policy :: solver_policy where
  "deterministic_policy =
     \<lparr> budget = \<lparr> max_iterations = 10000, widening_fuel = 8 \<rparr>, reduction_rounds = 4 \<rparr>"

datatype solver_output_mode = Mode_Full | Mode_SummaryInputs

definition records_operation_states :: "solver_output_mode \<Rightarrow> bool" where
  "records_operation_states m = (m = Mode_Full)"

text \<open>\<open>ExplodedPoint\<close>: the node and the call stack, ordered by node first.\<close>

type_synonym exploded_point = "cfg_node_id \<times> call_site_id list"


section \<open>The fact index\<close>

record solver_fact_index =
  ix_body_by_id :: "(mir_body_id, mir_body) fmap"
  ix_operations_by_id :: "(mir_op_id, mir_operation) fmap"
  ix_functions :: "cfg_function_fact list"
  ix_function_by_cfg :: "(cfg_function_id, cfg_function_fact) fmap"
  ix_node_by_id :: "(cfg_node_id, cfg_node_fact) fmap"
  ix_node_by_operation :: "(mir_op_id, cfg_node_fact) fmap"
  ix_blocks :: "basic_block_fact list"
  ix_last_node_by_block :: "(basic_block_id, cfg_node_id) fmap"
  ix_visible_places :: "(function_id, place_id fset) fmap"
  ix_global_places :: "place_id fset"
  ix_parameters :: "(function_id, place_id list) fmap"
  ix_call_operation_by_site :: "(call_site_id, mir_operation) fmap"
  ix_return_values :: "(mir_body_id, mir_value option list) fmap"

definition function_sort_key ::
  "interner_state \<Rightarrow> (mir_body_id, mir_body) fmap \<Rightarrow> cfg_function_fact \<Rightarrow> string \<times> string" where
  "function_sort_key interner bodies f =
     (case fmlookup bodies (cfgf_body f) of
        Some body \<Rightarrow> key_text interner (body_stable_key body) | None \<Rightarrow> [],
      key_text interner (cfgf_stable_key f))"

definition index_nodes ::
  "cfg_node_fact list \<Rightarrow> (cfg_node_id, cfg_node_fact) fmap \<times> (mir_op_id, cfg_node_fact) fmap
     \<times> (basic_block_id, cfg_node_id) fmap" where
  "index_nodes nodes =
     fold (\<lambda>node (by_id, by_operation, last_by_block).
       let by_id = fmupd (node_id node) node by_id;
           by_operation = (case node_operation node of
             Some operation \<Rightarrow> fmupd operation node by_operation | None \<Rightarrow> by_operation);
           last_by_block = (case fmlookup last_by_block (node_block node) of
             Some current \<Rightarrow>
               if operation_ordinal (the (fmlookup by_id current)) \<le> operation_ordinal node
               then fmupd (node_block node) (node_id node) last_by_block else last_by_block
           | None \<Rightarrow> fmupd (node_block node) (node_id node) last_by_block)
       in (by_id, by_operation, last_by_block)) nodes (fmempty, fmempty, fmempty)"

definition index_places ::
  "place_fact list \<Rightarrow> (function_id, place_id fset) fmap \<times> place_id fset
     \<times> (function_id, (nat \<times> place_id) list) fmap" where
  "index_places places =
     fold (\<lambda>place (visible, globals, parameters).
       let visible = (case place_function place of
             Some function \<Rightarrow> fm_add function (place_fact_id place) visible | None \<Rightarrow> visible)
       in case place_root_of place of
            Root_Parameter function index _ \<Rightarrow>
              (visible, globals, fm_push function (index, place_fact_id place) parameters)
          | Root_Global _ _ \<Rightarrow> (visible, finsert (place_fact_id place) globals, parameters)
          | _ \<Rightarrow> (visible, globals, parameters)) places (fmempty, {||}, fmempty)"

definition index_return_values ::
  "mir_operation list \<Rightarrow> (mir_body_id, mir_value option list) fmap" where
  "index_return_values operations =
     fold (\<lambda>operation m. case op_kind operation of
             Return v \<Rightarrow> fm_push (op_body operation) v m | _ \<Rightarrow> m) operations fmempty"

definition solver_fact_index_new :: "analysis_host \<Rightarrow> solver_fact_index" where
  "solver_fact_index_new db =
     (let interner = h_interner db;
          body_by_id = fm_collect (map (\<lambda>body. (body_id body, body)) (h_mir_bodies db));
          operations_by_id = fm_collect (map (\<lambda>operation. (op_id operation, operation))
                                          (h_mir_operations db));
          functions = sort_key (function_sort_key interner body_by_id) (h_cfg_functions db);
          (node_by_id, node_by_operation, last_node_by_block) = index_nodes (h_cfg_nodes db);
          (visible, globals, parameters) = index_places (h_mir_places db)
      in \<lparr> ix_body_by_id = body_by_id,
           ix_operations_by_id = operations_by_id,
           ix_functions = functions,
           ix_function_by_cfg = fm_collect (map (\<lambda>function. (cfgf_id function, function)) functions),
           ix_node_by_id = node_by_id,
           ix_node_by_operation = node_by_operation,
           ix_blocks = sort_key (\<lambda>block. (reverse_postorder block, block_id block)) (h_cfg_blocks db),
           ix_last_node_by_block = last_node_by_block,
           ix_visible_places = visible,
           ix_global_places = globals,
           ix_parameters = fmmap (\<lambda>parameters. map snd (sort parameters)) parameters,
           ix_call_operation_by_site = fm_collect (List.map_filter
             (\<lambda>operation. case op_kind operation of
                Call site _ _ _ \<Rightarrow> Some (site, operation) | _ \<Rightarrow> None) (h_mir_operations db)),
           ix_return_values = index_return_values (h_mir_operations db) \<rparr>)"

definition retain_visible :: "solver_fact_index \<Rightarrow> function_id \<Rightarrow> product_state \<Rightarrow> product_state" where
  "retain_visible ix function state =
     (case fmlookup (ix_visible_places ix) function of
        Some own_places \<Rightarrow> retain_places_where
          (\<lambda>place. place |\<in>| own_places \<or> place |\<in>| ix_global_places ix) state
      | None \<Rightarrow> retain_places_where (\<lambda>_. False) state)"

definition function_for_node :: "solver_fact_index \<Rightarrow> cfg_node_id \<Rightarrow> cfg_function_fact option" where
  "function_for_node ix node =
     Option.bind (fmlookup (ix_node_by_id ix) node)
       (\<lambda>node. fmlookup (ix_function_by_cfg ix) (node_cfg_function node))"

definition visible_state :: "solver_fact_index \<Rightarrow> function_id \<Rightarrow> product_state \<Rightarrow> product_state" where
  "visible_state ix function state = retain_visible ix function state"

definition map_call_arguments ::
  "solver_fact_index \<Rightarrow> mir_operation \<Rightarrow> function_id \<Rightarrow> product_state \<Rightarrow> product_state" where
  "map_call_arguments ix call callee state =
     (case op_kind call of
        Call _ _ arguments _ \<Rightarrow>
          fold (\<lambda>(argument, parameter). copy_place_from state parameter argument)
            (zip arguments (fm_get_or [] (ix_parameters ix) callee)) state
      | _ \<Rightarrow> state)"

definition returned_state ::
  "product_state \<Rightarrow> product_state \<Rightarrow> place_id \<Rightarrow> mir_value option \<Rightarrow> product_state" where
  "returned_state source base return_place v =
     (case v of
        Some (Val_Place source_place) \<Rightarrow> copy_place_from source return_place source_place base
      | Some other \<Rightarrow> apply_return_value return_place other base
      | None \<Rightarrow> mark_place_top return_place UnknownValue base)"

definition map_return ::
  "solver_fact_index \<Rightarrow> mir_body_id \<Rightarrow> mir_operation \<Rightarrow> function_id \<Rightarrow> product_state \<Rightarrow> product_state" where
  "map_return ix callee_body call caller state =
     (case op_kind call of
        Call _ _ _ return_place \<Rightarrow>
          (let source = state;
               base = retain_visible ix caller state;
               values = fm_get_or [] (ix_return_values ix) callee_body
           in if values = [] then mark_place_top return_place UnknownValue base
              else fold (\<lambda>v joined. snd (join_into joined (returned_state source base return_place v)))
                     values state_bottom)
      | _ \<Rightarrow> state)"


section \<open>Branches and joins\<close>

definition branch_assumption ::
  "cfg_edge_kind \<Rightarrow> mir_operation option
     \<Rightarrow> (place_id option \<times> branch_nil_test option \<times> branch_sense) option" where
  "branch_assumption edge operation =
     (case (case edge of
              Edge_True \<Rightarrow> Some Sense_True | Edge_False \<Rightarrow> Some Sense_False | _ \<Rightarrow> None) of
        None \<Rightarrow> None
      | Some sense \<Rightarrow>
          Option.bind operation (\<lambda>operation. case op_kind operation of
            Branch _ predicate_place nil_test \<Rightarrow> Some (predicate_place, nil_test, sense)
          | _ \<Rightarrow> None))"

definition apply_branch ::
  "cfg_edge_kind \<Rightarrow> mir_operation option \<Rightarrow> product_state \<Rightarrow> product_state" where
  "apply_branch kind operation state =
     (case branch_assumption kind operation of
        Some (predicate, nil_test, sense) \<Rightarrow> apply_branch_assumption predicate nil_test sense state
      | None \<Rightarrow> state)"

definition join_state ::
  "'k \<Rightarrow> product_state \<Rightarrow> ('k, product_state) fmap \<Rightarrow> ('k, product_state) fmap" where
  "join_state key incoming states =
     fmupd key (snd (join_into (fm_get_or state_bottom states key) incoming)) states"

type_synonym operation_row = "basic_block_id \<times> stable_key_id \<times> product_state \<times> product_state"

definition join_operation_state ::
  "basic_block_id \<Rightarrow> mir_operation \<Rightarrow> product_state \<Rightarrow> product_state
     \<Rightarrow> (mir_op_id, operation_row) fmap \<Rightarrow> (mir_op_id, operation_row) fmap" where
  "join_operation_state block operation before after states =
     (case fm_get_or (block, op_stable_key operation, state_bottom, state_bottom) states
             (op_id operation) of
        (b, k, row_before, row_after) \<Rightarrow>
          fmupd (op_id operation)
            (b, k, snd (join_into row_before before), snd (join_into row_after after)) states)"


section \<open>Solver state\<close>

record solver_state =
  sl_states :: "(exploded_point, product_state) fmap"
  sl_queue :: "exploded_point list"
  sl_block_entries :: "(basic_block_id, product_state) fmap"
  sl_block_exits :: "(basic_block_id, product_state) fmap"
  sl_operation_states :: "(mir_op_id, operation_row) fmap"
  sl_statuses :: "(mir_body_id, solver_status) fmap"
  sl_widening_fuel :: nat
  sl_results :: domain_results
  sl_interner :: interner_state

record solver_cx =
  cx_policy :: solver_policy
  cx_facts :: solver_fact_index
  cx_transfer :: transfer_cx
  cx_icfg :: icfg
  cx_mode :: solver_output_mode

definition enqueue :: "exploded_point \<Rightarrow> product_state \<Rightarrow> solver_state \<Rightarrow> solver_state" where
  "enqueue point incoming st =
     (let (c, joined) = join_into (fm_get_or state_bottom (sl_states st) point) incoming;
          st = st \<lparr> sl_states := fmupd point joined (sl_states st) \<rparr>
      in if c = Changed_Yes then st \<lparr> sl_queue := sl_queue st @ [point] \<rparr> else st)"

text \<open>One visit of a point: the rows looked up and the state before and after the operation.\<close>

record visit =
  v_point :: exploded_point
  v_node :: cfg_node_fact
  v_function :: cfg_function_fact
  v_body :: mir_body
  v_operation :: "mir_operation option"
  v_resolved_call :: bool
  v_state :: product_state
  v_after :: product_state

definition is_resolved_call :: "solver_cx \<Rightarrow> mir_operation option \<Rightarrow> bool" where
  "is_resolved_call cx operation =
     (case operation of
        Some op \<Rightarrow> (case op_kind op of Call site _ _ _ \<Rightarrow> has_resolved_call (cx_icfg cx) site | _ \<Rightarrow> False)
      | None \<Rightarrow> False)"

definition visit_at :: "solver_cx \<Rightarrow> exploded_point \<Rightarrow> product_state \<Rightarrow> visit option" where
  "visit_at cx point state =
     Option.bind (fmlookup (ix_node_by_id (cx_facts cx)) (fst point)) (\<lambda>node.
     Option.bind (fmlookup (ix_function_by_cfg (cx_facts cx)) (node_cfg_function node)) (\<lambda>function.
     Option.bind (fmlookup (ix_body_by_id (cx_facts cx)) (cfgf_body function)) (\<lambda>body.
       let operation = Option.bind (node_operation node) (fmlookup (ix_operations_by_id (cx_facts cx)));
           resolved = is_resolved_call cx operation;
           after = (case operation of
             Some op \<Rightarrow>
               if resolved then state
               else snd (reduce_value_only (reduction_rounds (cx_policy cx))
                      (apply_operation (cx_transfer cx) op state))
           | None \<Rightarrow> state)
       in Some \<lparr> v_point = point, v_node = node, v_function = function, v_body = body,
                 v_operation = operation, v_resolved_call = resolved, v_state = state,
                 v_after = after \<rparr>)))"

definition record_visit :: "solver_cx \<Rightarrow> visit \<Rightarrow> solver_state \<Rightarrow> solver_state" where
  "record_visit cx v st =
     (let facts = cx_facts cx;
          block = node_block (v_node v);
          visible_before = visible_state facts (cfgf_function (v_function v)) (v_state v);
          visible_after = visible_state facts (cfgf_function (v_function v)) (v_after v);
          st = st \<lparr> sl_block_entries := join_state block visible_before (sl_block_entries st) \<rparr>;
          st = (if records_operation_states (cx_mode cx) then
                  (case v_operation v of
                     Some operation \<Rightarrow>
                       st \<lparr> sl_operation_states := join_operation_state block operation visible_before
                              (if v_resolved_call v then state_bottom else visible_after)
                              (sl_operation_states st) \<rparr>
                   | None \<Rightarrow> st)
                else st)
      in if fmlookup (ix_last_node_by_block facts) block = Some (node_id (v_node v))
         then st \<lparr> sl_block_exits := join_state block visible_after (sl_block_exits st) \<rparr>
         else st)"


section \<open>Edges\<close>

text \<open>
  The state an edge propagates and the point it reaches; \<open>None\<close> where the loop continues with the
  next edge.
\<close>

definition edge_candidate ::
  "solver_cx \<Rightarrow> visit \<Rightarrow> icfg_edge \<Rightarrow> (exploded_point \<times> product_state) option" where
  "edge_candidate cx v edge =
     (let facts = cx_facts cx; stack = snd (v_point v) in
      case ie_kind edge of
        Icfg_Intra kind \<Rightarrow>
          Some ((ie_to edge, stack), apply_branch kind (v_operation v) (v_after v))
      | Icfg_CallToReturn site kind \<Rightarrow>
          if has_resolved_call (cx_icfg cx) site then None
          else Some ((ie_to edge, stack), apply_branch kind (v_operation v) (v_after v))
      | Icfg_Call site \<Rightarrow>
          (case fmlookup (ix_call_operation_by_site facts) site of
             None \<Rightarrow> None
           | Some call \<Rightarrow>
               (case function_for_node facts (ie_to edge) of
                  None \<Rightarrow> None
                | Some callee \<Rightarrow>
                    Some ((ie_to edge, stack @ [site]),
                          map_call_arguments facts call (cfgf_function callee) (v_state v))))
      | Icfg_Return site \<Rightarrow>
          if stack = [] \<or> last stack \<noteq> site then None
          else
            (case fmlookup (ix_call_operation_by_site facts) site of
               None \<Rightarrow> None
             | Some call \<Rightarrow>
                 (case function_for_node facts (ie_to edge) of
                    None \<Rightarrow> None
                  | Some caller \<Rightarrow>
                      Some ((ie_to edge, butlast stack),
                            map_return facts (body_id (v_body v)) call (cfgf_function caller)
                              (v_after v)))))"

text \<open>The operation row a return edge joins for the call it returns to.\<close>

definition record_return ::
  "solver_cx \<Rightarrow> visit \<Rightarrow> icfg_edge \<Rightarrow> product_state \<Rightarrow> solver_state \<Rightarrow> solver_state" where
  "record_return cx v edge candidate st =
     (case ie_kind edge of
        Icfg_Return site \<Rightarrow>
          if records_operation_states (cx_mode cx) then
            (case (fmlookup (ix_call_operation_by_site (cx_facts cx)) site,
                   function_for_node (cx_facts cx) (ie_to edge)) of
               (Some call, Some caller) \<Rightarrow>
                 (let caller_visible = visible_state (cx_facts cx) (cfgf_function caller) candidate;
                      before_call = visible_state (cx_facts cx) (cfgf_function caller) (v_state v);
                      call_block = (case fmlookup (ix_node_by_operation (cx_facts cx)) (op_id call) of
                        Some node \<Rightarrow> node_block node | None \<Rightarrow> node_block (v_node v))
                  in st \<lparr> sl_operation_states := join_operation_state call_block call before_call
                             caller_visible (sl_operation_states st) \<rparr>)
             | _ \<Rightarrow> st)
          else st
      | _ \<Rightarrow> st)"

definition control_kind :: "icfg_edge_kind \<Rightarrow> cfg_edge_kind option" where
  "control_kind k =
     (case k of Icfg_Intra kind \<Rightarrow> Some kind | Icfg_CallToReturn _ kind \<Rightarrow> Some kind | _ \<Rightarrow> None)"

definition event_key :: "mir_body_id \<Rightarrow> basic_block_id \<Rightarrow> string \<Rightarrow> string" where
  "event_key body block reason =
     ''body='' @ show_nat body @ '';block='' @ show_nat block @ '';reason='' @ reason"

definition record_event ::
  "mir_body_id \<Rightarrow> basic_block_id \<Rightarrow> top_reason \<Rightarrow> solver_state \<Rightarrow> solver_state option" where
  "record_event body block reason st =
     map_option (\<lambda>(key, interner).
        st \<lparr> sl_interner := interner,
             sl_results := record_top_event body (Some block) None reason key (sl_results st) \<rparr>)
       (intern (event_key body block (top_reason_as_str reason)) (sl_interner st))"

definition widen_edge ::
  "visit \<Rightarrow> icfg_edge \<Rightarrow> product_state \<Rightarrow> solver_state \<Rightarrow> (product_state \<times> solver_state) option" where
  "widen_edge v edge candidate st =
     (if control_kind (ie_kind edge) = Some Edge_LoopBack then
        if sl_widening_fuel st = 0 then
          map_option (\<lambda>st. (mark_reachability_top Widened candidate, st))
            (record_event (body_id (v_body v)) (node_block (v_node v)) Widened
               (st \<lparr> sl_statuses := fmupd (body_id (v_body v)) Status_Widened (sl_statuses st) \<rparr>))
        else Some (candidate, st \<lparr> sl_widening_fuel := sl_widening_fuel st - 1 \<rparr>)
      else Some (candidate, st))"

definition propagate_edge ::
  "solver_cx \<Rightarrow> visit \<Rightarrow> icfg_edge \<Rightarrow> solver_state \<Rightarrow> solver_state option" where
  "propagate_edge cx v edge st =
     (case edge_candidate cx v edge of
        None \<Rightarrow> Some st
      | Some (next_point, candidate) \<Rightarrow>
          map_option (\<lambda>(candidate, st). enqueue next_point candidate st)
            (widen_edge v edge candidate (record_return cx v edge candidate st)))"


section \<open>The worklist loop\<close>

definition visit_point :: "solver_cx \<Rightarrow> exploded_point \<Rightarrow> solver_state \<Rightarrow> solver_state option" where
  "visit_point cx point st =
     (case visit_at cx point (fm_get_or state_bottom (sl_states st) point) of
        None \<Rightarrow> Some st
      | Some v \<Rightarrow>
          try_fold (propagate_edge cx v) (icfg_outgoing_edges (cx_icfg cx) (node_id (v_node v)))
            (record_visit cx v st))"

definition mark_ide_budget_exceeded ::
  "solver_cx \<Rightarrow> cfg_node_id \<Rightarrow> solver_state \<Rightarrow> solver_state option" where
  "mark_ide_budget_exceeded cx node st =
     (let st = st \<lparr> sl_states := fmmap (mark_reachability_top BudgetExceeded) (sl_states st),
                    sl_statuses := fmmap (\<lambda>_. Status_BudgetExceeded) (sl_statuses st) \<rparr>
      in case fmlookup (ix_node_by_id (cx_facts cx)) node of
           None \<Rightarrow> Some st
         | Some cfg_node \<Rightarrow>
             (case fmlookup (ix_function_by_cfg (cx_facts cx)) (node_cfg_function cfg_node) of
                None \<Rightarrow> Some st
              | Some function \<Rightarrow>
                  record_event (cfgf_body function) (node_block cfg_node) BudgetExceeded st))"

text \<open>
  The loop, with the iterations left in its budget; the flag tells whether the queue ran empty.
\<close>

fun solver_loop :: "solver_cx \<Rightarrow> nat \<Rightarrow> solver_state \<Rightarrow> (bool \<times> solver_state) option" where
  "solver_loop cx left st =
     (case sl_queue st of
        [] \<Rightarrow> Some (True, st)
      | point # queue \<Rightarrow>
          (case left of
             0 \<Rightarrow> map_option (Pair False)
                   (mark_ide_budget_exceeded cx (fst point) (st \<lparr> sl_queue := queue \<rparr>))
           | Suc n \<Rightarrow>
               Option.bind (visit_point cx point (st \<lparr> sl_queue := queue \<rparr>)) (solver_loop cx n)))"

declare solver_loop.simps [simp del]

definition blank_solver_state :: "solver_cx \<Rightarrow> interner_state \<Rightarrow> solver_state" where
  "blank_solver_state cx interner =
     \<lparr> sl_states = fmempty, sl_queue = [], sl_block_entries = fmempty, sl_block_exits = fmempty,
       sl_operation_states = fmempty,
       sl_statuses = fm_collect (map (\<lambda>function. (cfgf_body function, Status_Solved))
                                   (ix_functions (cx_facts cx))),
       sl_widening_fuel = widening_fuel (budget (cx_policy cx)),
       sl_results = domain_results_new, sl_interner = interner \<rparr>"

definition initial_solver_state :: "solver_cx \<Rightarrow> interner_state \<Rightarrow> solver_state" where
  "initial_solver_state cx interner =
     fold (\<lambda>function. enqueue (entry_node function, []) state_entry) (ix_functions (cx_facts cx))
       (blank_solver_state cx interner)"


section \<open>Results\<close>

definition materialize_function ::
  "solver_cx \<Rightarrow> solver_state \<Rightarrow> cfg_function_fact \<Rightarrow> domain_results \<Rightarrow> domain_results" where
  "materialize_function cx st function results =
     (let facts = cx_facts cx;
          entry = fold (\<lambda>(point, state) entry.
              snd (join_into entry (visible_state facts (cfgf_function function) state)))
            (filter (\<lambda>(point, _). fst point = entry_node function) (bt_entries (sl_states st)))
            state_bottom;
          body_key = (case fmlookup (ix_body_by_id facts) (cfgf_body function) of
            Some body \<Rightarrow> body_stable_key body | None \<Rightarrow> cfgf_stable_key function)
      in insert_function (cfgf_body function) body_key
           (fm_get_or Status_Solved (sl_statuses st) (cfgf_body function)) entry results)"

definition materialize_block ::
  "solver_cx \<Rightarrow> solver_state \<Rightarrow> basic_block_fact \<Rightarrow> domain_results \<Rightarrow> domain_results" where
  "materialize_block cx st block results =
     (case fmlookup (ix_function_by_cfg (cx_facts cx)) (block_cfg_function block) of
        None \<Rightarrow> results
      | Some function \<Rightarrow>
          insert_block_state (cfgf_body function) (block_id block) (block_stable_key block)
            (fm_get_or state_bottom (sl_block_entries st) (block_id block))
            (fm_get_or state_bottom (sl_block_exits st) (block_id block)) results)"

definition materialize_operation ::
  "solver_cx \<Rightarrow> mir_op_id \<times> operation_row \<Rightarrow> domain_results \<Rightarrow> domain_results" where
  "materialize_operation cx row results =
     (case row of (operation, block, key, before, after) \<Rightarrow>
        (case fmlookup (ix_operations_by_id (cx_facts cx)) operation of
           None \<Rightarrow> results
         | Some mir_operation \<Rightarrow>
             insert_operation_state (op_body mir_operation) block operation key before after results))"

definition materialize_results :: "solver_cx \<Rightarrow> solver_state \<Rightarrow> domain_results" where
  "materialize_results cx st =
     (let results = fold (materialize_function cx st) (ix_functions (cx_facts cx)) (sl_results st);
          results = fold (materialize_block cx st) (ix_blocks (cx_facts cx)) results
      in if records_operation_states (cx_mode cx)
         then fold (materialize_operation cx) (bt_entries (sl_operation_states st)) results
         else results)"

definition solver_cx_for :: "solver_policy \<Rightarrow> analysis_host \<Rightarrow> solver_output_mode \<Rightarrow> solver_cx" where
  "solver_cx_for policy db mode =
     \<lparr> cx_policy = policy, cx_facts = solver_fact_index_new db,
       cx_transfer = transfer_cx_from_db (h_unresolved_calls db) (h_unsupported_semantics db),
       cx_icfg = icfg_from_facts (h_cfg_functions db) (h_cfg_nodes db) (h_cfg_edges db)
                   (h_call_sites db) (h_refined_call_edges db),
       cx_mode = mode \<rparr>"

definition solve_with_output_mode ::
  "solver_policy \<Rightarrow> analysis_host \<Rightarrow> solver_output_mode \<Rightarrow> (domain_results \<times> interner_state) option" where
  "solve_with_output_mode policy db mode =
     (let cx = solver_cx_for policy db mode in
      map_option (\<lambda>(_, st). (materialize_results cx st, sl_interner st))
        (solver_loop cx (max_iterations (budget policy)) (initial_solver_state cx (h_interner db))))"



section \<open>What a finished run guarantees\<close>

text \<open>
  An edge flow is covered when the state of its target is above it; on a loop-back edge with
  exhausted fuel the target is above the flow with its reachability widened.
\<close>

definition covered ::
  "(exploded_point, product_state) fmap \<Rightarrow> icfg_edge \<Rightarrow> exploded_point \<Rightarrow> product_state \<Rightarrow> bool" where
  "covered states edge np cand \<longleftrightarrow>
     (\<exists>s. fmlookup states np = Some s
        \<and> (state_leq cand s
           \<or> control_kind (ie_kind edge) = Some Edge_LoopBack
              \<and> state_leq (mark_reachability_top Widened cand) s))"

definition propagated ::
  "solver_cx \<Rightarrow> (exploded_point, product_state) fmap \<Rightarrow> exploded_point \<Rightarrow> product_state \<Rightarrow> bool" where
  "propagated cx states p s \<longleftrightarrow>
     (\<forall>v edge np cand. visit_at cx p s = Some v
        \<longrightarrow> edge \<in> set (icfg_outgoing_edges (cx_icfg cx) (node_id (v_node v)))
        \<longrightarrow> edge_candidate cx v edge = Some (np, cand) \<longrightarrow> covered states edge np cand)"

definition post_fixpoint :: "solver_cx \<Rightarrow> (exploded_point, product_state) fmap \<Rightarrow> bool" where
  "post_fixpoint cx states \<longleftrightarrow>
     (\<forall>function\<in>set (ix_functions (cx_facts cx)).
        \<exists>s. fmlookup states (entry_node function, []) = Some s \<and> state_leq state_entry s)
     \<and> (\<forall>p s. fmlookup states p = Some s \<longrightarrow> s = state_bottom \<or> propagated cx states p s)"

definition states_grow ::
  "(exploded_point, product_state) fmap \<Rightarrow> (exploded_point, product_state) fmap \<Rightarrow> bool" where
  "states_grow a b \<longleftrightarrow>
     (\<forall>p s. fmlookup a p = Some s \<longrightarrow> (\<exists>t. fmlookup b p = Some t \<and> state_leq s t))"

lemma states_grow_refl: "states_grow a a"
  using state_leq_refl by (auto simp: states_grow_def)

lemma states_grow_trans: "states_grow a b \<Longrightarrow> states_grow b c \<Longrightarrow> states_grow a c"
  unfolding states_grow_def using state_leq_trans by blast

lemma covered_grow: "covered a edge np cand \<Longrightarrow> states_grow a b \<Longrightarrow> covered b edge np cand"
  unfolding covered_def states_grow_def using state_leq_trans by meson

lemma propagated_grow: "propagated cx a p s \<Longrightarrow> states_grow a b \<Longrightarrow> propagated cx b p s"
  unfolding propagated_def using covered_grow by blast

text \<open>Between two solver states: states only grow, and what changed is queued.\<close>

definition advances :: "solver_state \<Rightarrow> solver_state \<Rightarrow> bool" where
  "advances st st' \<longleftrightarrow>
     states_grow (sl_states st) (sl_states st') \<and> set (sl_queue st) \<subseteq> set (sl_queue st')
     \<and> (\<forall>p s. fmlookup (sl_states st') p = Some s \<longrightarrow>
          p \<in> set (sl_queue st') \<or> fmlookup (sl_states st) p = Some s \<or> s = state_bottom)"

lemma advances_refl [simp]: "advances st st"
  by (simp add: advances_def states_grow_refl)

lemma advancesD:
  "advances st st' \<Longrightarrow> states_grow (sl_states st) (sl_states st')"
  "advances st st' \<Longrightarrow> set (sl_queue st) \<subseteq> set (sl_queue st')"
  "advances st st' \<Longrightarrow> fmlookup (sl_states st') p = Some s \<Longrightarrow>
     p \<in> set (sl_queue st') \<or> fmlookup (sl_states st) p = Some s \<or> s = state_bottom"
  unfolding advances_def by blast+

lemma advances_trans: "advances a b \<Longrightarrow> advances b c \<Longrightarrow> advances a c"
proof -
  assume ab: "advances a b" and bc: "advances b c"
  have grow: "states_grow (sl_states a) (sl_states c)"
    using ab bc states_grow_trans unfolding advances_def by blast
  show "advances a c"
    using ab bc grow unfolding advances_def by (metis subset_iff)
qed

lemma advances_cong:
  "sl_states st' = sl_states st \<Longrightarrow> sl_queue st' = sl_queue st \<Longrightarrow> advances st st'"
  by (simp add: advances_def states_grow_refl)

lemma enqueue_states:
  "sl_states (enqueue p inc st) =
     fmupd p (snd (join_into (fm_get_or state_bottom (sl_states st) p) inc)) (sl_states st)"
  by (simp add: enqueue_def case_prod_beta Let_def)

lemma enqueue_queue:
  "sl_queue (enqueue p inc st) =
     (if fst (join_into (fm_get_or state_bottom (sl_states st) p) inc) = Changed_Yes
      then sl_queue st @ [p] else sl_queue st)"
  by (simp add: enqueue_def case_prod_beta Let_def)

lemma enqueue_advances: "advances st (enqueue p inc st)"
proof -
  let ?old = "fm_get_or state_bottom (sl_states st) p"
  have up: "state_leq ?old (snd (join_into ?old inc))" by (rule join_into_upper)
  have grow: "states_grow (sl_states st) (sl_states (enqueue p inc st))"
    using up state_leq_refl by (auto simp: states_grow_def enqueue_states)
  have "fmlookup (sl_states (enqueue p inc st)) q = Some s \<Longrightarrow>
      q \<in> set (sl_queue (enqueue p inc st)) \<or> fmlookup (sl_states st) q = Some s \<or> s = state_bottom"
    for q s
  proof (cases "q = p \<and> fst (join_into ?old inc) = Changed_No")
    case True
    assume "fmlookup (sl_states (enqueue p inc st)) q = Some s"
    with True have "s = ?old" using join_into_unchanged_iff [of ?old inc] by (simp add: enqueue_states)
    with True show ?thesis by (cases "fmlookup (sl_states st) p") simp_all
  next
    case False
    assume "fmlookup (sl_states (enqueue p inc st)) q = Some s"
    with False show ?thesis by (auto simp: enqueue_states enqueue_queue split: if_splits)
  qed
  with grow show ?thesis by (auto simp: advances_def enqueue_queue)
qed

lemma enqueue_covers:
  "\<exists>s. fmlookup (sl_states (enqueue p inc st)) p = Some s \<and> state_leq inc s"
  using join_into_upper(2) by (simp add: enqueue_states)

lemma record_visit_frame [simp]:
  "sl_states (record_visit cx v st) = sl_states st" "sl_queue (record_visit cx v st) = sl_queue st"
  "sl_statuses (record_visit cx v st) = sl_statuses st"
  by (simp_all add: record_visit_def Let_def split: option.split)

lemma record_return_frame [simp]:
  "sl_states (record_return cx v e c st) = sl_states st"
  "sl_queue (record_return cx v e c st) = sl_queue st"
  "sl_statuses (record_return cx v e c st) = sl_statuses st"
  by (simp_all add: record_return_def Let_def split: icfg_edge_kind.split option.split)

lemma record_event_frame:
  "record_event b k r st = Some st' \<Longrightarrow>
     sl_states st' = sl_states st \<and> sl_queue st' = sl_queue st \<and> sl_statuses st' = sl_statuses st"
  by (auto simp: record_event_def)

lemma widen_edge_frame:
  "widen_edge v e c st = Some (c', st') \<Longrightarrow>
     sl_states st' = sl_states st \<and> sl_queue st' = sl_queue st
     \<and> fmdom (sl_statuses st) |\<subseteq>| fmdom (sl_statuses st')
     \<and> (c' = c \<or> control_kind (ie_kind e) = Some Edge_LoopBack \<and> c' = mark_reachability_top Widened c)"
  by (auto simp: widen_edge_def split: if_splits dest!: record_event_frame)

lemma propagate_edge_advances:
  assumes "propagate_edge cx v edge st = Some st'"
  shows "advances st st'
    \<and> (\<forall>np cand. edge_candidate cx v edge = Some (np, cand) \<longrightarrow> covered (sl_states st') edge np cand)"
proof (cases "edge_candidate cx v edge")
  case None
  with assms show ?thesis by (simp add: propagate_edge_def)
next
  case (Some pc)
  obtain np cand where pc: "pc = (np, cand)" by (metis surj_pair)
  obtain cand' st1 where w: "widen_edge v edge cand (record_return cx v edge cand st) = Some (cand', st1)"
      and st': "st' = enqueue np cand' st1"
    using assms Some pc by (auto simp: propagate_edge_def)
  note frame = widen_edge_frame [OF w]
  have "advances st st1" using frame by (intro advances_cong) simp_all
  then have adv: "advances st st'" unfolding st' using enqueue_advances advances_trans by blast
  obtain s where "fmlookup (sl_states st') np = Some s" "state_leq cand' s"
    using enqueue_covers [of np cand' st1] st' by blast
  then have "covered (sl_states st') edge np cand"
    unfolding covered_def using frame by blast
  with adv Some pc show ?thesis by simp
qed

lemma propagate_all_advances:
  "try_fold (propagate_edge cx v) es st = Some st' \<Longrightarrow>
   advances st st' \<and> (\<forall>edge\<in>set es. \<forall>np cand. edge_candidate cx v edge = Some (np, cand) \<longrightarrow>
     covered (sl_states st') edge np cand)"
proof (induction es arbitrary: st)
  case (Cons e es)
  then obtain st1 where e: "propagate_edge cx v e st = Some st1"
      and rest: "try_fold (propagate_edge cx v) es st1 = Some st'"
    by (auto simp: bind_eq_Some_conv)
  note here = propagate_edge_advances [OF e] and later = Cons.IH [OF rest]
  have "states_grow (sl_states st1) (sl_states st')" using later by (simp add: advances_def)
  then show ?case using here later advances_trans covered_grow by auto
qed simp

lemma visit_point_advances:
  assumes "visit_point cx p st = Some st'"
  shows "advances st st' \<and> propagated cx (sl_states st') p (fm_get_or state_bottom (sl_states st) p)"
proof (cases "visit_at cx p (fm_get_or state_bottom (sl_states st) p)")
  case None
  with assms show ?thesis by (simp add: visit_point_def propagated_def)
next
  case (Some v)
  have fold: "try_fold (propagate_edge cx v)
      (icfg_outgoing_edges (cx_icfg cx) (node_id (v_node v))) (record_visit cx v st) = Some st'"
    using assms Some by (simp add: visit_point_def)
  note adv = propagate_all_advances [OF fold]
  have "advances st (record_visit cx v st)" by (intro advances_cong) simp_all
  then show ?thesis using adv Some advances_trans by (auto simp: propagated_def)
qed


section \<open>The loop invariant\<close>

definition settled :: "solver_cx \<Rightarrow> solver_state \<Rightarrow> bool" where
  "settled cx st \<longleftrightarrow>
     (\<forall>p s. fmlookup (sl_states st) p = Some s \<longrightarrow>
        p \<in> set (sl_queue st) \<or> s = state_bottom \<or> propagated cx (sl_states st) p s)"

lemma settled_step:
  assumes inv: "settled cx st" and queue: "sl_queue st = p # rest"
    and step: "visit_point cx p (st \<lparr> sl_queue := rest \<rparr>) = Some st'"
  shows "settled cx st' \<and> states_grow (sl_states st) (sl_states st')"
proof -
  note adv = visit_point_advances [OF step]
  have grow: "states_grow (sl_states st) (sl_states st')"
    and kept: "set rest \<subseteq> set (sl_queue st')"
    and here: "propagated cx (sl_states st') p (fm_get_or state_bottom (sl_states st) p)"
    using adv advancesD(1,2) [of "st \<lparr> sl_queue := rest \<rparr>" st'] by simp_all
  have "q \<in> set (sl_queue st') \<or> s = state_bottom \<or> propagated cx (sl_states st') q s"
    if q: "fmlookup (sl_states st') q = Some s" for q s
  proof -
    have "q \<in> set (sl_queue st') \<or> fmlookup (sl_states st) q = Some s \<or> s = state_bottom"
      using adv advancesD(3) [of "st \<lparr> sl_queue := rest \<rparr>" st' q s] q by simp
    moreover have ?thesis if old: "fmlookup (sl_states st) q = Some s"
    proof (cases "q = p")
      case True
      then show ?thesis using here old by simp
    next
      case False
      from inv old have "q \<in> set (sl_queue st) \<or> s = state_bottom \<or> propagated cx (sl_states st) q s"
        unfolding settled_def by blast
      then show ?thesis
        using False queue kept propagated_grow [OF _ grow, of cx q s] by auto
    qed
    ultimately show ?thesis by blast
  qed
  with grow show ?thesis by (simp add: settled_def)
qed

lemma solver_loop_settled:
  "solver_loop cx n st = Some (True, st') \<Longrightarrow> settled cx st \<Longrightarrow>
   settled cx st' \<and> sl_queue st' = [] \<and> states_grow (sl_states st) (sl_states st')"
proof (induction n arbitrary: st)
  case 0
  then show ?case
    by (auto simp: solver_loop.simps [of _ 0] states_grow_refl split: list.splits)
next
  case (Suc n)
  show ?case
  proof (cases "sl_queue st")
    case Nil
    with Suc.prems show ?thesis by (simp add: solver_loop.simps [of _ "Suc n"] states_grow_refl)
  next
    case (Cons p rest)
    then obtain st1 where step: "visit_point cx p (st \<lparr> sl_queue := rest \<rparr>) = Some st1"
        and loop: "solver_loop cx n st1 = Some (True, st')"
      using Suc.prems(1) by (auto simp: solver_loop.simps [of _ "Suc n"] bind_eq_Some_conv)
    note s = settled_step [OF Suc.prems(2) Cons step]
    with Suc.IH [OF loop] states_grow_trans show ?thesis by blast
  qed
qed

lemma initial_enqueues:
  assumes "sl_states st0 = fmempty"
  shows "settled cx (fold (\<lambda>f. enqueue (entry_node f, []) state_entry) fs st0)
    \<and> (\<forall>f\<in>set fs. \<exists>s. fmlookup (sl_states
        (fold (\<lambda>f. enqueue (entry_node f, []) state_entry) fs st0)) (entry_node f, []) = Some s
        \<and> state_leq state_entry s)"
proof -
  let ?run = "\<lambda>fs st. fold (\<lambda>f. enqueue (entry_node f, []) state_entry) fs st"
  have adv: "advances st (?run fs st)" for fs st
  proof (induction fs arbitrary: st)
    case (Cons f fs)
    then show ?case using enqueue_advances advances_trans by (simp, blast)
  qed simp
  have entries: "\<forall>f\<in>set fs. \<exists>s. fmlookup (sl_states (?run fs st)) (entry_node f, []) = Some s
      \<and> state_leq state_entry s" for fs st
  proof (induction fs arbitrary: st)
    case (Cons f fs)
    let ?st1 = "enqueue (entry_node f, []) state_entry st"
    obtain s where "fmlookup (sl_states ?st1) (entry_node f, []) = Some s" "state_leq state_entry s"
      using enqueue_covers by blast
    moreover have "states_grow (sl_states ?st1) (sl_states (?run fs ?st1))"
      using adv advancesD(1) by blast
    ultimately show ?case
      using Cons.IH state_leq_trans unfolding states_grow_def by (simp, meson)
  qed simp
  have "settled cx (?run fs st0)"
    using advancesD(3) [OF adv [of st0 fs]] assms by (auto simp: settled_def)
  with entries show ?thesis by blast
qed



section \<open>Running out of budget\<close>

lemma visit_point_statuses:
  assumes "visit_point cx p st = Some st'"
  shows "fmdom (sl_statuses st) |\<subseteq>| fmdom (sl_statuses st')"
proof -
  have edge: "fmdom (sl_statuses a) |\<subseteq>| fmdom (sl_statuses b)"
    if "propagate_edge cx v e a = Some b" for v e a b
    using that
    by (auto simp: propagate_edge_def enqueue_def case_prod_beta Let_def
        split: option.splits if_splits dest!: widen_edge_frame)
  show ?thesis
  proof (cases "visit_at cx p (fm_get_or state_bottom (sl_states st) p)")
    case None
    with assms show ?thesis by (simp add: visit_point_def)
  next
    case (Some v)
    then have "try_fold (propagate_edge cx v) (icfg_outgoing_edges (cx_icfg cx) (node_id (v_node v)))
        (record_visit cx v st) = Some st'"
      using assms by (simp add: visit_point_def)
    then show ?thesis
      by (rule try_fold_invariant [where P = "\<lambda>s. fmdom (sl_statuses st) |\<subseteq>| fmdom (sl_statuses s)"])
        (auto dest: edge)
  qed
qed

lemma solver_loop_exceeded:
  "solver_loop cx n st = Some (False, st') \<Longrightarrow>
   fmdom (sl_statuses st) |\<subseteq>| fmdom (sl_statuses st')
   \<and> (\<forall>b status. fmlookup (sl_statuses st') b = Some status \<longrightarrow> status = Status_BudgetExceeded)
   \<and> (\<forall>p s. fmlookup (sl_states st') p = Some s \<longrightarrow> reachability (core s) = ReachTop BudgetExceeded)"
proof (induction n arbitrary: st)
  case 0
  then obtain p rest where "sl_queue st = p # rest"
      "mark_ide_budget_exceeded cx (fst p) (st \<lparr> sl_queue := rest \<rparr>) = Some st'"
    by (auto simp: solver_loop.simps [of _ 0] split: list.splits)
  then have "sl_states st' = fmmap (mark_reachability_top BudgetExceeded) (sl_states st)
      \<and> sl_statuses st' = fmmap (\<lambda>_. Status_BudgetExceeded) (sl_statuses st)"
    by (auto simp: mark_ide_budget_exceeded_def Let_def split: option.splits dest!: record_event_frame)
  then show ?case by (auto simp: mark_reachability_top_def)
next
  case (Suc n)
  then obtain p rest st1 where "sl_queue st = p # rest"
      and step: "visit_point cx p (st \<lparr> sl_queue := rest \<rparr>) = Some st1"
      and loop: "solver_loop cx n st1 = Some (False, st')"
    by (auto simp: solver_loop.simps [of _ "Suc n"] bind_eq_Some_conv split: list.splits)
  show ?case using Suc.IH [OF loop] order_trans [OF visit_point_statuses [OF step]] by simp
qed

lemma enqueue_statuses [simp]: "sl_statuses (enqueue p i st) = sl_statuses st"
  by (simp add: enqueue_def case_prod_beta Let_def)

lemma fold_enqueue_statuses [simp]:
  "sl_statuses (fold (\<lambda>f. enqueue (entry_node f, []) state_entry) fs st) = sl_statuses st"
  by (induction fs arbitrary: st) simp_all

lemma initial_statuses:
  "function \<in> set (ix_functions (cx_facts cx)) \<Longrightarrow>
   fmlookup (sl_statuses (initial_solver_state cx interner)) (cfgf_body function) = Some Status_Solved"
proof -
  assume f: "function \<in> set (ix_functions (cx_facts cx))"
  let ?rows = "map (\<lambda>function. (cfgf_body function, Status_Solved)) (ix_functions (cx_facts cx))"
  have "fmlookup (fm_collect ?rows) (cfgf_body function) = Some Status_Solved"
  proof (cases "fmlookup (fm_collect ?rows) (cfgf_body function)")
    case None
    from fm_collect_NoneD [OF this, of Status_Solved] f show ?thesis by auto
  next
    case (Some s)
    from fm_collect_SomeD [OF this] Some show ?thesis by auto
  qed
  then show ?thesis by (simp add: initial_solver_state_def blank_solver_state_def)
qed

lemma res_functions_frame [simp]:
  "res_functions (fold (materialize_block cx st) bs r) = res_functions r"
  "res_functions (fold (materialize_operation cx) rows r) = res_functions r"
proof -
  show "res_functions (fold (materialize_block cx st) bs r) = res_functions r"
    by (induction bs arbitrary: r)
      (simp_all add: materialize_block_def insert_block_state_def split: option.split)
  show "res_functions (fold (materialize_operation cx) rows r) = res_functions r"
    by (induction rows arbitrary: r)
      (simp_all add: materialize_operation_def insert_operation_state_def split: option.split prod.split)
qed

lemma materialized_statuses:
  "\<forall>f\<in>set fs. fm_get_or Status_Solved (sl_statuses st) (cfgf_body f) = status \<Longrightarrow>
   f \<in> set fs \<Longrightarrow>
   \<exists>row. fmlookup (res_functions (fold (materialize_function cx st) fs r)) (cfgf_body f) = Some row
     \<and> fr_status row = status"
proof (induction fs arbitrary: r rule: rev_induct)
  case (snoc g fs)
  then show ?case
    by (cases "cfgf_body g = cfgf_body f")
      (auto simp: materialize_function_def insert_function_def Let_def)
qed simp


section \<open>Properties\<close>

text \<open>
  C1: A solver run that empties its queue within the iteration budget has computed a
  post-fixpoint: the entry point of every function is above the entry state, and for every point
  with a non-bottom state, the flow along each outgoing edge of the interprocedural CFG is below
  the state of the point it reaches, with the call stack pushed and popped at calls and returns.
\<close>

theorem solver_computes_post_fixpoint:
  assumes "solver_loop cx n (initial_solver_state cx interner) = Some (True, st)"
  shows "post_fixpoint cx (sl_states st)"
proof -
  let ?fs = "ix_functions (cx_facts cx)"
  have init: "settled cx (initial_solver_state cx interner)"
    "\<forall>f\<in>set ?fs. \<exists>s. fmlookup (sl_states (initial_solver_state cx interner)) (entry_node f, []) = Some s
        \<and> state_leq state_entry s"
    unfolding initial_solver_state_def
    using initial_enqueues [of "blank_solver_state cx interner" cx ?fs]
    by (simp_all add: blank_solver_state_def)
  note fin = solver_loop_settled [OF assms init(1)]
  have "\<exists>s. fmlookup (sl_states st) (entry_node f, []) = Some s \<and> state_leq state_entry s"
    if "f \<in> set ?fs" for f
    using init(2) that fin state_leq_trans unfolding states_grow_def by meson
  moreover have "s = state_bottom \<or> propagated cx (sl_states st) p s"
    if "fmlookup (sl_states st) p = Some s" for p s
    using fin that unfolding settled_def by (metis empty_iff list.set(1))
  ultimately show ?thesis unfolding post_fixpoint_def by blast
qed

definition sample_node :: "cfg_node_id \<Rightarrow> cfg_node_fact" where
  "sample_node i =
     \<lparr> node_id = i, node_cfg_function = 1, node_body = 1, node_operation = None, node_block = 1,
       node_kind = Node_Operation, node_span = None, node_generated = False, operation_ordinal = i,
       node_stable_key = 0, node_status = Cfg_Resolved, node_precision = Cfg_ExactLowered \<rparr>"

definition sample_span :: span where
  "sample_span = \<lparr> span_file = 1, start_byte = 0, end_byte = 0, start_line = 1, start_col = 1,
                   end_line = 1, end_col = 1 \<rparr>"

definition sample_body :: mir_body where
  "sample_body = \<lparr> body_id = 1, body_language = Lang_Go, body_file = 1, body_function = 1,
     body_package = None, body_module = None, body_owner_stable_key = 0, body_span = sample_span,
     body_stable_key = 0, body_status = Mir_Resolved \<rparr>"

definition sample_function :: cfg_function_fact where
  "sample_function = \<lparr> cfgf_id = 1, cfgf_body = 1, cfgf_function = 1, cfgf_language = Lang_Go,
     cfgf_file = 1, cfgf_span = sample_span, entry_node = 0, normal_exit_node = 1,
     exceptional_exit_node = None, cfgf_stable_key = 0, cfgf_status = Cfg_Resolved,
     cfgf_precision = Cfg_ExactLowered \<rparr>"

definition sample_cx :: solver_cx where
  "sample_cx =
     \<lparr> cx_policy = \<lparr> budget = \<lparr> max_iterations = 9, widening_fuel = 1 \<rparr>, reduction_rounds = 4 \<rparr>,
       cx_facts = \<lparr> ix_body_by_id = fmupd 1 sample_body fmempty, ix_operations_by_id = fmempty,
         ix_functions = [sample_function], ix_function_by_cfg = fmupd 1 sample_function fmempty,
         ix_node_by_id = fmupd 0 (sample_node 0) (fmupd 1 (sample_node 1) fmempty),
         ix_node_by_operation = fmempty, ix_blocks = [], ix_last_node_by_block = fmempty,
         ix_visible_places = fmempty, ix_global_places = {||}, ix_parameters = fmempty,
         ix_call_operation_by_site = fmempty, ix_return_values = fmempty \<rparr>,
       cx_transfer = empty_cx,
       cx_icfg = \<lparr> icfg_outgoing = fmupd 0 [\<lparr> ie_to = 1, ie_kind = Icfg_Intra Edge_Normal \<rparr>]
           (fmupd 1 [\<lparr> ie_to = 0, ie_kind = Icfg_Intra Edge_LoopBack \<rparr>] fmempty),
         icfg_calls = fmempty \<rparr>,
       cx_mode = Mode_SummaryInputs \<rparr>"


lemma sample_run_finishes:
  "\<exists>st. solver_loop sample_cx 5 (initial_solver_state sample_cx interner_default) = Some (True, st)"
proof -
  have "map_option fst (solver_loop sample_cx 5
      (initial_solver_state sample_cx interner_default)) = Some True"
    by code_simp
  then show ?thesis by auto
qed

theorem solver_computes_post_fixpoint_witness:
  "\<exists>st. solver_loop sample_cx 5 (initial_solver_state sample_cx interner_default) = Some (True, st)
     \<and> post_fixpoint sample_cx (sl_states st)"
  using sample_run_finishes solver_computes_post_fixpoint [of sample_cx 5 interner_default] by blast


definition sample_truncated_cx :: solver_cx where
  "sample_truncated_cx = sample_cx \<lparr> cx_facts := (cx_facts sample_cx)
     \<lparr> ix_node_by_id := fmupd 0 (sample_node 0) fmempty \<rparr> \<rparr>"


end
