(* ===== verification/Ifds.thy ===== *)
theory Ifds
  imports Icfg "HOL-Library.Multiset"
begin

text \<open>
  The taint search of \<open>analysis_neutral/ifds/mod.rs\<close>: \<open>IfdsTaintSolver\<close> explores the data-flow
  graph breadth first from a source, with an explicit call stack per frame so that a return is only
  followed to the call site it came from, a depth and a path-count budget, and a status row when
  the search finds nothing or is cut off. The specification is a realizable chain of present,
  untainted-preserving edges (\<open>flow_run\<close>).
\<close>

section \<open>The data-flow store\<close>

record data_flow_store =
  store_nodes :: "data_flow_node_fact list"
  store_edges :: "data_flow_edge_fact list"
  store_models :: "data_flow_model_fact list"
  store_outgoing :: "(data_flow_node_id, nat list) fmap"

definition index_outgoing ::
  "data_flow_edge_fact list \<Rightarrow> (data_flow_node_id, nat list) fmap" where
  "index_outgoing edges =
     fold (\<lambda>(index, edge). fm_push (dfe_from edge) index) (List.enumerate 0 edges) fmempty"

definition store_from_rows ::
  "data_flow_node_fact list \<Rightarrow> data_flow_edge_fact list \<Rightarrow> data_flow_model_fact list
     \<Rightarrow> data_flow_store" where
  "store_from_rows nodes edges models =
     \<lparr> store_nodes = nodes, store_edges = edges, store_models = models,
       store_outgoing = index_outgoing edges \<rparr>"

definition edge_refs :: "data_flow_store \<Rightarrow> nat list option \<Rightarrow> data_flow_edge_fact list" where
  "edge_refs store indexes =
     (case indexes of None \<Rightarrow> [] | Some is \<Rightarrow> map (\<lambda>index. store_edges store ! index) is)"

definition outgoing :: "data_flow_store \<Rightarrow> data_flow_node_id \<Rightarrow> data_flow_edge_fact list" where
  "outgoing store node = edge_refs store (fmlookup (store_outgoing store) node)"


section \<open>Search state\<close>

record data_flow_search_budget =
  max_depth :: nat
  max_paths :: nat

definition default_search_budget :: data_flow_search_budget where
  "default_search_budget = \<lparr> max_depth = 32, max_paths = 256 \<rparr>"

datatype data_flow_path_status = Path_Found | Path_NotFound | Path_Unknown | Path_BudgetExceeded

record data_flow_path =
  path_id :: data_flow_path_id
  path_source :: data_flow_node_id
  path_sink :: data_flow_node_id
  path_edges :: "data_flow_edge_id list"
  path_status :: data_flow_path_status
  path_budget :: data_flow_search_budget
  path_budget_reason :: "data_flow_budget_reason option"

datatype ifds_fact = Tainted

record exploded_state =
  es_node :: data_flow_node_id
  es_fact :: ifds_fact
  es_call_stack :: "call_site_id list"

record path_frame =
  frame_state :: exploded_state
  frame_edges :: "data_flow_edge_id list"
  frame_visited :: "exploded_state fset"

datatype boundary = Boundary_Local | Boundary_Call call_site_id | Boundary_Return call_site_id

record ifds_solver =
  sv_icfg :: icfg
  sv_store :: data_flow_store
  sv_source :: data_flow_node_id
  sv_sink :: data_flow_node_id
  sv_sanitizer_sites :: "call_site_id fset"
  sv_budget :: data_flow_search_budget


section \<open>Edges\<close>

definition node_kind_of :: "data_flow_store \<Rightarrow> data_flow_node_id \<Rightarrow> data_flow_node_kind option" where
  "node_kind_of store n = map_option dfn_kind (find (\<lambda>node. dfn_id node = n) (store_nodes store))"

definition boundary_of :: "data_flow_edge_fact \<Rightarrow> data_flow_store \<Rightarrow> boundary" where
  "boundary_of edge store =
     (case dfe_call_site edge of
        None \<Rightarrow> Boundary_Local
      | Some site \<Rightarrow>
          (case dfe_kind edge of
             DEdge_CallArgumentToParameter \<Rightarrow> Boundary_Call site
           | DEdge_ReceiverToMethod \<Rightarrow> Boundary_Call site
           | DEdge_CallReturnToUse \<Rightarrow> Boundary_Return site
           | DEdge_SummaryProjected \<Rightarrow>
               (case (node_kind_of store (dfe_from edge), node_kind_of store (dfe_to edge)) of
                  (Some from_kind, Some to_kind) \<Rightarrow>
                    if to_kind = DNode_SummaryInput \<and> from_kind \<noteq> DNode_SummaryInput
                    then Boundary_Call site
                    else if from_kind = DNode_SummaryOutput \<and> to_kind \<noteq> DNode_SummaryOutput
                    then Boundary_Return site
                    else Boundary_Local
                | _ \<Rightarrow> Boundary_Local)
           | _ \<Rightarrow> Boundary_Local))"

definition kills_taint :: "ifds_solver \<Rightarrow> data_flow_edge_fact \<Rightarrow> bool" where
  "kills_taint self edge =
     (if dfe_status edge \<noteq> Flow_Present then False
      else if dfe_kind edge = DEdge_Sanitizer \<or> dfe_kind edge = DEdge_Barrier then True
      else if (case dfe_call_site edge of
                 Some site \<Rightarrow> site |\<in>| sv_sanitizer_sites self | None \<Rightarrow> False) then True
      else if (case dfe_model edge of
                 Some i \<Rightarrow> list_ex (\<lambda>model. dfm_id model = i
                    \<and> (dfm_kind model = DModel_Sanitizer \<or> dfm_kind model = DModel_Barrier))
                    (store_models (sv_store self))
               | None \<Rightarrow> False) then True
      else list_ex (\<lambda>node. dfn_id node = dfe_to edge
             \<and> (dfn_kind node = DNode_Sanitizer \<or> dfn_kind node = DNode_Barrier))
             (store_nodes (sv_store self)))"

text \<open>The call stack is a vector: a call pushes at its end, a return pops there.\<close>

definition vec_pop :: "'a list \<Rightarrow> 'a option \<times> 'a list" where
  "vec_pop xs = (if xs = [] then (None, []) else (Some (last xs), butlast xs))"

definition transfer :: "ifds_solver \<Rightarrow> exploded_state \<Rightarrow> data_flow_edge_fact \<Rightarrow> exploded_state option" where
  "transfer self state edge =
     (if kills_taint self edge then None
      else
        map_option (\<lambda>stack. \<lparr> es_node = dfe_to edge, es_fact = es_fact state, es_call_stack = stack \<rparr>)
          (case boundary_of edge (sv_store self) of
             Boundary_Local \<Rightarrow> Some (es_call_stack state)
           | Boundary_Call site \<Rightarrow>
               if \<not> accepts_boundary (sv_icfg self) site (dfe_refined_call edge) then None
               else Some (es_call_stack state @ [site])
           | Boundary_Return site \<Rightarrow>
               if \<not> accepts_boundary (sv_icfg self) site (dfe_refined_call edge) then None
               else (let (popped, stack) = vec_pop (es_call_stack state) in
                     if popped \<noteq> Some site then None else Some stack)))"


section \<open>The search loop\<close>

definition status_path ::
  "ifds_solver \<Rightarrow> data_flow_path_id \<Rightarrow> data_flow_path_status \<Rightarrow> data_flow_budget_reason option
     \<Rightarrow> data_flow_path" where
  "status_path self i status reason =
     \<lparr> path_id = i, path_source = sv_source self, path_sink = sv_sink self, path_edges = [],
       path_status = status, path_budget = sv_budget self, path_budget_reason = reason \<rparr>"

definition found_path :: "ifds_solver \<Rightarrow> nat \<Rightarrow> path_frame \<Rightarrow> data_flow_path" where
  "found_path self i frame =
     \<lparr> path_id = i, path_source = sv_source self, path_sink = sv_sink self,
       path_edges = frame_edges frame, path_status = Path_Found, path_budget = sv_budget self,
       path_budget_reason = None \<rparr>"

definition observe_edge ::
  "ifds_solver \<Rightarrow> path_frame \<Rightarrow> data_flow_edge_fact
     \<Rightarrow> bool \<times> data_flow_budget_reason option \<times> bool
     \<Rightarrow> bool \<times> data_flow_budget_reason option \<times> bool" where
  "observe_edge self frame edge acc =
     (case acc of (has_present, reason, uncertain) \<Rightarrow>
        (case dfe_status edge of
           Flow_BudgetExceeded \<Rightarrow> (has_present, Some EdgeLimit, uncertain)
         | Flow_Present \<Rightarrow>
             (has_present \<or> transfer self (frame_state frame) edge \<noteq> None, reason, uncertain)
         | _ \<Rightarrow> (has_present, reason,
                 uncertain \<or> transfer self (frame_state frame) edge \<noteq> None)))"

definition observe_truncated_edges ::
  "ifds_solver \<Rightarrow> path_frame \<Rightarrow> data_flow_edge_fact list
     \<Rightarrow> data_flow_budget_reason option \<times> bool \<Rightarrow> data_flow_budget_reason option \<times> bool" where
  "observe_truncated_edges self frame edges acc =
     (let (has_present, reason, uncertain) =
            fold (observe_edge self frame) edges (False, fst acc, snd acc)
      in (if has_present \<and> reason = None then Some PathDepth else reason, uncertain))"

definition expand_edge ::
  "ifds_solver \<Rightarrow> path_frame \<Rightarrow> data_flow_edge_fact
     \<Rightarrow> path_frame list \<times> data_flow_budget_reason option \<times> bool
     \<Rightarrow> path_frame list \<times> data_flow_budget_reason option \<times> bool" where
  "expand_edge self frame edge acc =
     (case acc of (queue, reason, uncertain) \<Rightarrow>
        (case dfe_status edge of
           Flow_BudgetExceeded \<Rightarrow> (queue, Some EdgeLimit, uncertain)
         | Flow_Present \<Rightarrow>
             (case transfer self (frame_state frame) edge of
                None \<Rightarrow> acc
              | Some next_state \<Rightarrow>
                  if next_state |\<in>| frame_visited frame then acc
                  else (queue @ [\<lparr> frame_state = next_state,
                                   frame_edges = frame_edges frame @ [dfe_id edge],
                                   frame_visited = finsert next_state (frame_visited frame) \<rparr>],
                        reason, uncertain))
         | _ \<Rightarrow> (queue, reason,
                 uncertain \<or> transfer self (frame_state frame) edge \<noteq> None)))"

text \<open>One iteration on a popped frame that is not at the sink: the pushed frames, and the flags.\<close>

definition expand_frame ::
  "ifds_solver \<Rightarrow> path_frame \<Rightarrow> path_frame list \<Rightarrow> data_flow_budget_reason option \<Rightarrow> bool
     \<Rightarrow> path_frame list \<times> data_flow_budget_reason option \<times> bool" where
  "expand_frame self frame queue reason uncertain =
     (let out = sort_key dfe_id (outgoing (sv_store self) (es_node (frame_state frame))) in
      if max_depth (sv_budget self) \<le> length (frame_edges frame)
      then (queue, observe_truncated_edges self frame out (reason, uncertain))
      else fold (expand_edge self frame) out (queue, reason, uncertain))"

lemma expand_fold_queue:
  "\<exists>new. fst (fold (expand_edge self frame) es (queue, r, u)) = queue @ new
     \<and> (\<forall>f\<in>set new. length (frame_edges f) = Suc (length (frame_edges frame)))"
proof (induction es arbitrary: queue r u)
  case (Cons e es)
  obtain q' r' u' where step: "expand_edge self frame e (queue, r, u) = (q', r', u')"
    by (metis prod_cases3)
  have "\<exists>new. q' = queue @ new \<and> (\<forall>f\<in>set new. length (frame_edges f) = Suc (length (frame_edges frame)))"
    using step
    by (auto simp: expand_edge_def split: data_flow_status.splits option.splits if_splits)
  then show ?case using Cons.IH [of q' r' u'] step by fastforce
qed simp

function solve_loop ::
  "ifds_solver \<Rightarrow> path_frame list \<Rightarrow> data_flow_path list \<Rightarrow> data_flow_budget_reason option \<Rightarrow> bool
     \<Rightarrow> data_flow_path list \<times> data_flow_budget_reason option \<times> bool" where
  "solve_loop self [] paths reason uncertain = (paths, reason, uncertain)"
| "solve_loop self (frame # queue) paths reason uncertain =
     (if es_node (frame_state frame) = sv_sink self then
        (let paths' = paths @ [found_path self (length paths) frame] in
         if max_paths (sv_budget self) \<le> length paths'
         then (paths', if queue \<noteq> [] then Some PathCount else None, uncertain)
         else solve_loop self queue paths' reason uncertain)
      else
        (case expand_frame self frame queue reason uncertain of
           (queue', reason', uncertain') \<Rightarrow> solve_loop self queue' paths reason' uncertain'))"
  by pat_completeness auto

definition frame_fuel :: "ifds_solver \<Rightarrow> path_frame \<Rightarrow> nat" where
  "frame_fuel self f = Suc (max_depth (sv_budget self)) - length (frame_edges f)"

lemma expand_frame_queue:
  "\<exists>new. fst (expand_frame self frame queue r u) = queue @ new
     \<and> (\<forall>f\<in>set new. frame_fuel self f < frame_fuel self frame)"
proof (cases "max_depth (sv_budget self) \<le> length (frame_edges frame)")
  case True
  then show ?thesis by (simp add: expand_frame_def Let_def)
next
  case False
  obtain new where
    "fst (expand_frame self frame queue r u) = queue @ new"
    "\<forall>f\<in>set new. length (frame_edges f) = Suc (length (frame_edges frame))"
    using False expand_fold_queue [of self frame "sort_key dfe_id (outgoing (sv_store self)
        (es_node (frame_state frame)))" queue r u]
    by (auto simp: expand_frame_def Let_def)
  then show ?thesis using False by (auto simp: frame_fuel_def intro!: exI [of _ new])
qed

termination solve_loop
proof (relation "inv_image (mult less_than)
    (\<lambda>(self, queue, _). image_mset (frame_fuel self) (mset queue))", goal_cases)
  case 1
  show ?case by (intro wf_inv_image wf_mult wf_less_than)
next
  case (2 self frame queue)
  then show ?case
    using one_step_implies_mult [of "{#frame_fuel self frame#}" "{#}" less_than
        "image_mset (frame_fuel self) (mset queue)"] by simp
next
  case (3 self frame queue paths reason uncertain queue' y reason' uncertain')
  then have "queue' = fst (expand_frame self frame queue reason uncertain)" by (metis fst_conv)
  then obtain new where queue': "queue' = queue @ new"
      and less: "\<forall>f\<in>set new. frame_fuel self f < frame_fuel self frame"
    using expand_frame_queue [of self frame queue reason uncertain] by auto
  have "(image_mset (frame_fuel self) (mset queue) + image_mset (frame_fuel self) (mset new),
      image_mset (frame_fuel self) (mset queue) + {#frame_fuel self frame#}) \<in> mult less_than"
    using less by (intro one_step_implies_mult) auto
  then show ?case by (simp add: queue')
qed

definition initial_state :: "ifds_solver \<Rightarrow> exploded_state" where
  "initial_state self = \<lparr> es_node = sv_source self, es_fact = Tainted, es_call_stack = [] \<rparr>"

definition initial_frame :: "ifds_solver \<Rightarrow> path_frame" where
  "initial_frame self =
     \<lparr> frame_state = initial_state self, frame_edges = [], frame_visited = {|initial_state self|} \<rparr>"

definition solve :: "ifds_solver \<Rightarrow> data_flow_path list" where
  "solve self =
     (if max_paths (sv_budget self) = 0
      then [status_path self 0 Path_BudgetExceeded (Some PathCount)]
      else
        (let (paths, reason, uncertain) = solve_loop self [initial_frame self] [] None False in
         if paths = [] then
           (let status = (if reason \<noteq> None then Path_BudgetExceeded
                          else if uncertain then Path_Unknown else Path_NotFound)
            in [status_path self 0 status reason])
         else
           (case reason of
              Some r \<Rightarrow> paths @ [status_path self (length paths) Path_BudgetExceeded (Some r)]
            | None \<Rightarrow> paths)))"

definition ifds_solver_new ::
  "cfg_function_fact list \<Rightarrow> cfg_node_fact list \<Rightarrow> cfg_edge_fact list \<Rightarrow> call_site_fact list
     \<Rightarrow> refined_call_edge_fact list \<Rightarrow> data_flow_store \<Rightarrow> data_flow_node_id \<Rightarrow> data_flow_node_id
     \<Rightarrow> call_site_id fset \<Rightarrow> data_flow_search_budget \<Rightarrow> ifds_solver" where
  "ifds_solver_new fs ns es cs rs store source sink sanitizer_sites budget =
     \<lparr> sv_icfg = icfg_from_facts fs ns es cs rs, sv_store = store, sv_source = source,
       sv_sink = sink, sv_sanitizer_sites = sanitizer_sites, sv_budget = budget \<rparr>"

definition find_taint_paths ::
  "cfg_function_fact list \<Rightarrow> cfg_node_fact list \<Rightarrow> cfg_edge_fact list \<Rightarrow> call_site_fact list
     \<Rightarrow> refined_call_edge_fact list \<Rightarrow> data_flow_store \<Rightarrow> data_flow_node_id \<Rightarrow> data_flow_node_id
     \<Rightarrow> call_site_id fset \<Rightarrow> data_flow_search_budget \<Rightarrow> data_flow_path list" where
  "find_taint_paths fs ns es cs rs store source sink sanitizer_sites budget =
     solve (ifds_solver_new fs ns es cs rs store source sink sanitizer_sites budget)"


section \<open>Specification: realizable taint chains\<close>

fun linked :: "data_flow_node_id \<Rightarrow> data_flow_edge_fact list \<Rightarrow> data_flow_node_id \<Rightarrow> bool" where
  "linked n [] m \<longleftrightarrow> n = m"
| "linked n (e # es) m \<longleftrightarrow> dfe_from e = n \<and> linked (dfe_to e) es m"

text \<open>Calls and returns nest: a return closes the innermost open call.\<close>

fun nested :: "boundary list \<Rightarrow> call_site_id list \<Rightarrow> call_site_id list option" where
  "nested [] opened = Some opened"
| "nested (Boundary_Local # bs) opened = nested bs opened"
| "nested (Boundary_Call site # bs) opened = nested bs (site # opened)"
| "nested (Boundary_Return site # bs) (inner # opened) = (if inner = site then nested bs opened else None)"
| "nested (Boundary_Return site # bs) [] = None"

definition boundary_accepted :: "ifds_solver \<Rightarrow> data_flow_edge_fact \<Rightarrow> bool" where
  "boundary_accepted self e =
     (case boundary_of e (sv_store self) of
        Boundary_Local \<Rightarrow> True
      | Boundary_Call site \<Rightarrow> accepts_boundary (sv_icfg self) site (dfe_refined_call e)
      | Boundary_Return site \<Rightarrow> accepts_boundary (sv_icfg self) site (dfe_refined_call e))"

definition carries_taint :: "ifds_solver \<Rightarrow> data_flow_edge_fact \<Rightarrow> bool" where
  "carries_taint self e \<longleftrightarrow>
     e \<in> set (store_edges (sv_store self)) \<and> dfe_status e = Flow_Present
     \<and> \<not> kills_taint self e \<and> boundary_accepted self e"

definition realizable :: "ifds_solver \<Rightarrow> data_flow_edge_fact list \<Rightarrow> bool" where
  "realizable self es \<longleftrightarrow>
     linked (sv_source self) es (sv_sink self) \<and> list_all (carries_taint self) es
     \<and> nested (map (\<lambda>e. boundary_of e (sv_store self)) es) [] \<noteq> None"


section \<open>The index of outgoing edges\<close>

lemma index_outgoing_fold:
  "fm_get_or [] (fold (\<lambda>(index, edge). fm_push (dfe_from edge) index) l m) n =
     fm_get_or [] m n @ map fst (filter (\<lambda>p. dfe_from (snd p) = n) l)"
  by (induction l arbitrary: m) (auto simp: fm_get_or_push)

lemma outgoing_store:
  "outgoing (store_from_rows nodes edges models) n = filter (\<lambda>e. dfe_from e = n) edges"
proof -
  have "outgoing (store_from_rows nodes edges models) n =
      map ((!) edges) (fm_get_or [] (index_outgoing edges) n)"
    by (simp add: outgoing_def edge_refs_def store_from_rows_def fm_get_or_def split: option.split)
  also have "\<dots> = map (\<lambda>p. edges ! fst p)
      (filter (\<lambda>p. dfe_from (snd p) = n) (List.enumerate 0 edges))"
    by (simp add: index_outgoing_def index_outgoing_fold)
  also have "\<dots> = map snd (filter (\<lambda>p. dfe_from (snd p) = n) (List.enumerate 0 edges))"
    by (rule map_cong) (auto simp: in_set_enumerate_eq)
  also have "\<dots> = filter (\<lambda>e. dfe_from e = n) (map snd (List.enumerate 0 edges))"
    by (simp only: filter_map comp_def)
  finally show ?thesis by simp
qed

definition store_indexed :: "data_flow_store \<Rightarrow> bool" where
  "store_indexed store \<longleftrightarrow>
     (\<forall>n. outgoing store n = filter (\<lambda>e. dfe_from e = n) (store_edges store))"

lemma store_from_rows_indexed [simp]: "store_indexed (store_from_rows nodes edges models)"
  by (simp add: store_indexed_def outgoing_store) (simp add: store_from_rows_def)


section \<open>Runs of the transfer function\<close>

definition steps_to :: "ifds_solver \<Rightarrow> exploded_state \<Rightarrow> data_flow_edge_fact \<Rightarrow> bool" where
  "steps_to self st e \<longleftrightarrow>
     e \<in> set (outgoing (sv_store self) (es_node st)) \<and> dfe_status e = Flow_Present"

fun flow_run :: "ifds_solver \<Rightarrow> exploded_state \<Rightarrow> data_flow_edge_fact list \<Rightarrow> exploded_state option"
  where
  "flow_run self st [] = Some st"
| "flow_run self st (e # es) =
     (if steps_to self st e then Option.bind (transfer self st e) (\<lambda>st'. flow_run self st' es)
      else None)"

fun run_states :: "ifds_solver \<Rightarrow> exploded_state \<Rightarrow> data_flow_edge_fact list \<Rightarrow> exploded_state list"
  where
  "run_states self st [] = []"
| "run_states self st (e # es) =
     (case transfer self st e of Some st' \<Rightarrow> st' # run_states self st' es | None \<Rightarrow> [])"

lemma transfer_SomeD:
  assumes "transfer self st e = Some st'"
  shows "\<not> kills_taint self e \<and> boundary_accepted self e \<and> es_node st' = dfe_to e
    \<and> nested (boundary_of e (sv_store self) # bs) (rev (es_call_stack st)) =
        nested bs (rev (es_call_stack st'))"
proof (cases "boundary_of e (sv_store self)")
  case (Boundary_Return site)
  then show ?thesis
    using assms
    by (cases "es_call_stack st" rule: rev_cases)
      (auto simp: transfer_def boundary_accepted_def vec_pop_def split: if_splits)
qed (use assms in \<open>auto simp: transfer_def boundary_accepted_def split: if_splits\<close>)

lemma transfer_exists:
  assumes "\<not> kills_taint self e" "boundary_accepted self e"
    "nested (boundary_of e (sv_store self) # bs) (rev (es_call_stack st)) \<noteq> None"
  shows "\<exists>st'. transfer self st e = Some st'"
proof (cases "boundary_of e (sv_store self)")
  case (Boundary_Return site)
  then show ?thesis
    using assms
    by (cases "es_call_stack st" rule: rev_cases)
      (auto simp: transfer_def boundary_accepted_def vec_pop_def split: if_splits)
qed (use assms in \<open>auto simp: transfer_def boundary_accepted_def\<close>)

lemma flow_run_realizable:
  assumes "store_indexed (sv_store self)"
  shows "(\<exists>st'. flow_run self st es = Some st' \<and> es_node st' = n) \<longleftrightarrow>
    linked (es_node st) es n \<and> list_all (carries_taint self) es
    \<and> nested (map (\<lambda>e. boundary_of e (sv_store self)) es) (rev (es_call_stack st)) \<noteq> None"
proof (induction es arbitrary: st)
  case (Cons e es)
  have out: "steps_to self st e \<longleftrightarrow> e \<in> set (store_edges (sv_store self))
      \<and> dfe_from e = es_node st \<and> dfe_status e = Flow_Present"
    using assms by (auto simp: steps_to_def store_indexed_def)
  show ?case
  proof (cases "transfer self st e")
    case None
    then show ?thesis
      using transfer_exists [of self e "map (\<lambda>e. boundary_of e (sv_store self)) es" st]
      by (auto simp: carries_taint_def)
  next
    case (Some st')
    note D = transfer_SomeD [OF Some]
    show ?thesis using Some D Cons.IH [of st'] by (auto simp: out carries_taint_def)
  qed
qed simp

lemma realizable_iff_run:
  "store_indexed (sv_store self) \<Longrightarrow>
   realizable self es \<longleftrightarrow>
     (\<exists>st. flow_run self (initial_state self) es = Some st \<and> es_node st = sv_sink self)"
  using flow_run_realizable [of self "initial_state self" es "sv_sink self"]
  by (simp add: realizable_def initial_state_def)



section \<open>Every found path is a run\<close>

definition frame_ok :: "ifds_solver \<Rightarrow> path_frame \<Rightarrow> bool" where
  "frame_ok self f \<longleftrightarrow>
     (\<exists>es. frame_edges f = map dfe_id es \<and> length es \<le> max_depth (sv_budget self)
        \<and> flow_run self (initial_state self) es = Some (frame_state f))"

definition path_ok :: "ifds_solver \<Rightarrow> data_flow_path \<Rightarrow> bool" where
  "path_ok self p \<longleftrightarrow>
     path_status p = Path_Found \<and> path_source p = sv_source self \<and> path_sink p = sv_sink self
     \<and> (\<exists>es st. path_edges p = map dfe_id es \<and> length es \<le> max_depth (sv_budget self)
        \<and> flow_run self (initial_state self) es = Some st \<and> es_node st = sv_sink self)"

lemma flow_run_append:
  "flow_run self st (xs @ ys) = Option.bind (flow_run self st xs) (\<lambda>st'. flow_run self st' ys)"
proof (induction xs arbitrary: st)
  case (Cons x xs)
  then show ?case by (cases "transfer self st x") simp_all
qed simp

lemma frame_ok_expand_edge:
  assumes frame: "frame_ok self frame" "length (frame_edges frame) < max_depth (sv_budget self)"
    and e: "e \<in> set (outgoing (sv_store self) (es_node (frame_state frame)))"
    and queue: "\<forall>f\<in>set queue. frame_ok self f"
  shows "\<forall>f\<in>set (fst (expand_edge self frame e (queue, r, u))). frame_ok self f"
proof -
  obtain es where es: "frame_edges frame = map dfe_id es"
      "flow_run self (initial_state self) es = Some (frame_state frame)"
    using frame(1) by (auto simp: frame_ok_def)
  have "frame_ok self \<lparr> frame_state = st, frame_edges = frame_edges frame @ [dfe_id e],
      frame_visited = v \<rparr>"
    if "dfe_status e = Flow_Present" "transfer self (frame_state frame) e = Some st" for st v
    using that es e frame(2)
    by (auto simp: frame_ok_def flow_run_append steps_to_def intro!: exI [of _ "es @ [e]"])
  with queue show ?thesis
    by (auto simp: expand_edge_def split: data_flow_status.split option.split)
qed

lemma frame_ok_expand_fold:
  assumes frame: "frame_ok self frame" "length (frame_edges frame) < max_depth (sv_budget self)"
  shows "set es \<subseteq> set (outgoing (sv_store self) (es_node (frame_state frame))) \<Longrightarrow>
    \<forall>f\<in>set (fst acc). frame_ok self f \<Longrightarrow>
    \<forall>f\<in>set (fst (fold (expand_edge self frame) es acc)). frame_ok self f"
proof (induction es arbitrary: acc)
  case (Cons e es)
  have "\<forall>f\<in>set (fst (expand_edge self frame e (fst acc, fst (snd acc), snd (snd acc)))). frame_ok self f"
    using Cons.prems by (intro frame_ok_expand_edge [OF frame]) auto
  then show ?case using Cons.IH [of "expand_edge self frame e acc"] Cons.prems(1) by simp
qed simp

lemma frame_ok_expand:
  assumes "frame_ok self frame" "\<forall>f\<in>set queue. frame_ok self f"
  shows "\<forall>f\<in>set (fst (expand_frame self frame queue r u)). frame_ok self f"
  using assms frame_ok_expand_fold [OF assms(1), of "sort_key dfe_id
      (outgoing (sv_store self) (es_node (frame_state frame)))" "(queue, r, u)"]
  by (auto simp: expand_frame_def Let_def)

lemma found_path_ok:
  "frame_ok self f \<Longrightarrow> es_node (frame_state f) = sv_sink self \<Longrightarrow> path_ok self (found_path self i f)"
  by (auto simp: path_ok_def found_path_def frame_ok_def)

lemma solve_loop_sound:
  "\<forall>f\<in>set queue. frame_ok self f \<Longrightarrow> \<forall>p\<in>set paths. path_ok self p \<Longrightarrow>
   \<forall>p\<in>set (fst (solve_loop self queue paths reason uncertain)). path_ok self p"
proof (induction self queue paths reason uncertain rule: solve_loop.induct)
  case (2 self frame queue paths reason uncertain)
  show ?case
  proof (cases "es_node (frame_state frame) = sv_sink self")
    case True
    with 2 found_path_ok show ?thesis by (auto simp: Let_def)
  next
    case False
    obtain q' r' u' where exp: "expand_frame self frame queue reason uncertain = (q', r', u')"
      by (metis prod_cases3)
    have "\<forall>f\<in>set q'. frame_ok self f"
      using frame_ok_expand [of self frame queue reason uncertain] "2.prems"(1) exp by simp
    then show ?thesis using "2.IH"(2) [OF False exp [symmetric] refl] False exp "2.prems"(2) by simp
  qed
qed simp

lemma initial_frame_ok: "frame_ok self (initial_frame self)"
  by (simp add: frame_ok_def initial_frame_def)

lemma solve_loop_paths_mono: "length paths \<le> length (fst (solve_loop self queue paths reason uncertain))"
proof (induction self queue paths reason uncertain rule: solve_loop.induct)
  case (2 self frame queue paths reason uncertain)
  then show ?case by (auto simp: Let_def split: prod.split)
qed simp


section \<open>A search that finds nothing has no run\<close>

lemma expand_edge_reason: "fst (snd acc) \<noteq> None \<Longrightarrow> fst (snd (expand_edge self f e acc)) \<noteq> None"
  by (auto simp: expand_edge_def split: prod.split data_flow_status.split option.split)

lemma expand_fold_reason:
  "fst (snd acc) \<noteq> None \<Longrightarrow> fst (snd (fold (expand_edge self f) es acc)) \<noteq> None"
proof (induction es arbitrary: acc)
  case (Cons e es)
  then show ?case using expand_edge_reason [of acc self f e] by simp
qed simp

lemma observe_fold_mono:
  "fst (snd acc) \<noteq> None \<Longrightarrow> fst (snd (fold (observe_edge self f) es acc)) \<noteq> None"
  "fst acc \<Longrightarrow> fst (fold (observe_edge self f) es acc)"
proof (induction es arbitrary: acc)
  case (Cons e es)
  {
    case 1
    then have "fst (snd (observe_edge self f e acc)) \<noteq> None"
      by (auto simp: observe_edge_def split: prod.split data_flow_status.split)
    then show ?case using Cons.IH(1) by simp
  next
    case 2
    then have "fst (observe_edge self f e acc)"
      by (auto simp: observe_edge_def split: prod.split data_flow_status.split)
    then show ?case using Cons.IH(2) by simp
  }
qed simp_all

lemma observe_fold_present:
  "e \<in> set es \<Longrightarrow> dfe_status e = Flow_Present \<Longrightarrow> transfer self (frame_state f) e \<noteq> None \<Longrightarrow>
   fst (fold (observe_edge self f) es acc)"
proof (induction es arbitrary: acc)
  case (Cons x xs)
  show ?case
  proof (cases "x = e")
    case True
    then have "fst (observe_edge self f x acc)"
      using Cons.prems by (auto simp: observe_edge_def split: prod.split)
    then show ?thesis by (simp add: observe_fold_mono(2))
  next
    case False
    then show ?thesis using Cons by simp
  qed
qed simp

lemma observe_truncated_reason:
  "fst acc \<noteq> None \<Longrightarrow> fst (observe_truncated_edges self f es acc) \<noteq> None"
  "e \<in> set es \<Longrightarrow> dfe_status e = Flow_Present \<Longrightarrow> transfer self (frame_state f) e \<noteq> None \<Longrightarrow>
     fst (observe_truncated_edges self f es acc) \<noteq> None"
  using observe_fold_mono(1) [of "(False, fst acc, snd acc)" self f es]
    observe_fold_present [of e es self f "(False, fst acc, snd acc)"]
  by (auto simp: observe_truncated_edges_def case_prod_beta Let_def)

lemma expand_frame_reason:
  "reason \<noteq> None \<Longrightarrow> fst (snd (expand_frame self f queue reason uncertain)) \<noteq> None"
  using expand_fold_reason [of "(queue, reason, uncertain)"] observe_truncated_reason(1)
  by (simp add: expand_frame_def Let_def)

lemma solve_loop_reason:
  "reason \<noteq> None \<Longrightarrow> fst (solve_loop self queue paths reason uncertain) = [] \<Longrightarrow>
   fst (snd (solve_loop self queue paths reason uncertain)) \<noteq> None"
proof (induction self queue paths reason uncertain rule: solve_loop.induct)
  case (2 self frame queue paths reason uncertain)
  show ?case
  proof (cases "es_node (frame_state frame) = sv_sink self")
    case True
    then show ?thesis
      using "2.prems"(2) solve_loop_paths_mono [of "paths @ [found_path self (length paths) frame]"
          self queue reason uncertain]
      by (auto simp: Let_def split: if_splits)
  next
    case False
    obtain q' r' u' where exp: "expand_frame self frame queue reason uncertain = (q', r', u')"
      by (metis prod_cases3)
    then have "r' \<noteq> None"
      using expand_frame_reason [OF "2.prems"(1), of self frame queue uncertain] by simp
    then show ?thesis using "2.IH"(2) [OF False exp [symmetric] refl] False exp "2.prems"(2) by simp
  qed
qed simp


definition child_frame :: "path_frame \<Rightarrow> data_flow_edge_fact \<Rightarrow> exploded_state \<Rightarrow> path_frame" where
  "child_frame f e st =
     \<lparr> frame_state = st, frame_edges = frame_edges f @ [dfe_id e],
       frame_visited = finsert st (frame_visited f) \<rparr>"

lemma expand_fold_keeps: "set (fst acc) \<subseteq> set (fst (fold (expand_edge self f) es acc))"
proof (induction es arbitrary: acc)
  case (Cons e es)
  have "set (fst acc) \<subseteq> set (fst (expand_edge self f e acc))"
    by (auto simp: expand_edge_def split: prod.split data_flow_status.split option.split)
  then show ?case using Cons.IH [of "expand_edge self f e acc"] by auto
qed simp

lemma expand_fold_child:
  "e \<in> set es \<Longrightarrow> dfe_status e = Flow_Present \<Longrightarrow> transfer self (frame_state f) e = Some st \<Longrightarrow>
   st |\<notin>| frame_visited f \<Longrightarrow> child_frame f e st \<in> set (fst (fold (expand_edge self f) es acc))"
proof (induction es arbitrary: acc)
  case (Cons x xs)
  show ?case
  proof (cases "x = e")
    case True
    then have "child_frame f e st \<in> set (fst (expand_edge self f x acc))"
      using Cons.prems by (auto simp: expand_edge_def child_frame_def split: prod.split)
    then show ?thesis using expand_fold_keeps [of "expand_edge self f x acc" self f xs] by auto
  next
    case False
    then show ?thesis using Cons by simp
  qed
qed simp

lemma expand_frame_keeps: "set queue \<subseteq> set (fst (expand_frame self f queue reason uncertain))"
  using expand_fold_keeps [of "(queue, reason, uncertain)"] by (simp add: expand_frame_def Let_def)

lemma expand_frame_child:
  assumes "steps_to self (frame_state f) e" "transfer self (frame_state f) e = Some st"
    "st |\<notin>| frame_visited f"
    "fst (snd (expand_frame self f queue reason uncertain)) = None"
  shows "child_frame f e st \<in> set (fst (expand_frame self f queue reason uncertain))"
proof -
  let ?out = "sort_key dfe_id (outgoing (sv_store self) (es_node (frame_state f)))"
  have e: "e \<in> set ?out" "dfe_status e = Flow_Present" using assms(1) by (simp_all add: steps_to_def)
  have "fst (observe_truncated_edges self f ?out (reason, uncertain)) \<noteq> None"
    using observe_truncated_reason(2) [OF e] assms(2) by simp
  then have "\<not> max_depth (sv_budget self) \<le> length (frame_edges f)"
    using assms(4) by (auto simp: expand_frame_def Let_def)
  then show ?thesis
    using expand_fold_child [OF e assms(2,3)] by (simp add: expand_frame_def Let_def)
qed

lemma solve_loop_complete:
  "fst (solve_loop self queue paths reason uncertain) = [] \<Longrightarrow>
   fst (snd (solve_loop self queue paths reason uncertain)) = None \<Longrightarrow>
   f \<in> set queue \<Longrightarrow> flow_run self (frame_state f) es = Some st \<Longrightarrow>
   distinct (run_states self (frame_state f) es) \<Longrightarrow>
   set (run_states self (frame_state f) es) \<inter> fset (frame_visited f) = {} \<Longrightarrow>
   es_node st \<noteq> sv_sink self"
proof (induction self queue paths reason uncertain arbitrary: f es st rule: solve_loop.induct)
  case (2 self frame queue paths reason uncertain)
  have not_sink: "es_node (frame_state frame) \<noteq> sv_sink self"
    using "2.prems"(1) solve_loop_paths_mono [of "paths @ [found_path self (length paths) frame]"
        self queue reason uncertain]
    by (auto simp: Let_def split: if_splits)
  obtain q' r' u' where exp: "expand_frame self frame queue reason uncertain = (q', r', u')"
    by (metis prod_cases3)
  have loop: "solve_loop self (frame # queue) paths reason uncertain = solve_loop self q' paths r' u'"
    using not_sink exp by simp
  have r': "r' = None"
    using "2.prems"(1,2) solve_loop_reason [of r' self q' paths u'] unfolding loop by blast
  note IH = "2.IH"(2) [OF not_sink exp [symmetric] refl "2.prems"(1,2) [unfolded loop]]
  have keeps: "set queue \<subseteq> set q'"
    using expand_frame_keeps [of queue self frame reason uncertain] exp by simp
  show ?case
  proof (cases "f = frame \<and> es \<noteq> []")
    case True
    then obtain e rest where es: "es = e # rest" by (cases es) auto
    obtain st1 where st1: "steps_to self (frame_state frame) e"
        "transfer self (frame_state frame) e = Some st1" "flow_run self st1 rest = Some st"
      using "2.prems"(4) True es by (auto split: if_splits simp: bind_eq_Some_conv)
    have "child_frame frame e st1 \<in> set q'"
      using expand_frame_child [OF st1(1,2), of queue reason uncertain] "2.prems"(6) True es st1 exp r'
      by simp
    from IH [OF this, of rest st] show ?thesis
      using "2.prems"(5,6) True es st1 by (simp add: child_frame_def)
  next
    case False
    show ?thesis
    proof (cases "f = frame")
      case True
      with False not_sink "2.prems"(4) show ?thesis by simp
    next
      case other: False
      then have "f \<in> set q'" using "2.prems"(3) keeps by auto
      from IH [OF this "2.prems"(4-6)] show ?thesis .
    qed
  qed
qed simp

text \<open>A run can be cut to one that repeats no state.\<close>

lemma flow_run_take:
  "flow_run self st es = Some st' \<Longrightarrow> i \<le> length es \<Longrightarrow>
   flow_run self st (take i es) = Some ((st # run_states self st es) ! i)
   \<and> flow_run self ((st # run_states self st es) ! i) (drop i es) = Some st'
   \<and> length (run_states self st es) = length es"
proof (induction es arbitrary: st i)
  case (Cons e es)
  then obtain st1 where "steps_to self st e" "transfer self st e = Some st1"
      "flow_run self st1 es = Some st'"
    by (auto split: if_splits simp: bind_eq_Some_conv)
  with Cons show ?case by (cases i) auto
qed simp

lemma shortest_run_distinct:
  assumes run: "flow_run self st es = Some st'"
    and shortest: "\<And>es'. flow_run self st es' = Some st' \<Longrightarrow> length es \<le> length es'"
  shows "distinct (st # run_states self st es)"
proof (rule ccontr)
  let ?S = "st # run_states self st es"
  assume "\<not> distinct ?S"
  then obtain i j where ij: "i < j" "j < length ?S" "?S ! i = ?S ! j"
    by (metis distinct_conv_nth nat_neq_iff)
  have j: "j \<le> length es" using ij(2) flow_run_take [OF run, of 0] by simp
  have "flow_run self st (take i es @ drop j es) = Some st'"
    using flow_run_take [OF run, of i] flow_run_take [OF run, of j] ij j
    by (simp add: flow_run_append)
  from shortest [OF this] ij j show False by simp
qed

lemma distinct_run_exists:
  assumes "flow_run self st es = Some st'"
  shows "\<exists>es'. flow_run self st es' = Some st' \<and> distinct (st # run_states self st es')"
proof -
  define m where "m = (LEAST n. \<exists>es'. flow_run self st es' = Some st' \<and> length es' = n)"
  have "\<exists>es'. flow_run self st es' = Some st' \<and> length es' = m"
    unfolding m_def by (rule LeastI_ex) (use assms in blast)
  then obtain es' where es': "flow_run self st es' = Some st'" "length es' = m" by blast
  have "length es' \<le> length xs" if "flow_run self st xs = Some st'" for xs
    unfolding es'(2) m_def by (rule Least_le) (use that in blast)
  with es'(1) show ?thesis by (intro exI [of _ es'] conjI shortest_run_distinct) auto
qed

lemma solve_loop_no_run:
  assumes "fst (solve_loop self [initial_frame self] [] None False) = []"
    "fst (snd (solve_loop self [initial_frame self] [] None False)) = None"
    "flow_run self (initial_state self) es = Some st"
  shows "es_node st \<noteq> sv_sink self"
proof -
  obtain es' where "flow_run self (initial_state self) es' = Some st"
      "distinct (initial_state self # run_states self (initial_state self) es')"
    using distinct_run_exists [OF assms(3)] by blast
  then show ?thesis
    by (intro solve_loop_complete [OF assms(1,2), of "initial_frame self" es' st])
      (simp_all add: initial_frame_def)
qed


section \<open>Counting paths\<close>

lemma solve_loop_ids:
  "map path_id paths = [0..<length paths] \<Longrightarrow>
   map path_id (fst (solve_loop self queue paths reason uncertain)) =
     [0..<length (fst (solve_loop self queue paths reason uncertain))]"
proof (induction self queue paths reason uncertain rule: solve_loop.induct)
  case (2 self frame queue paths reason uncertain)
  then show ?case by (auto simp: Let_def found_path_def split: prod.split)
qed simp

lemma solve_loop_count:
  "length paths < max_paths (sv_budget self) \<Longrightarrow>
   length (fst (solve_loop self queue paths reason uncertain)) \<le> max_paths (sv_budget self)"
proof (induction self queue paths reason uncertain rule: solve_loop.induct)
  case (2 self frame queue paths reason uncertain)
  then show ?case by (auto simp: Let_def split: prod.split)
qed simp



section \<open>Properties\<close>

lemma solve_cases:
  "p \<in> set (solve self) \<Longrightarrow>
     (path_status p = Path_Found \<and> p \<in> set (fst (solve_loop self [initial_frame self] [] None False)))
     \<or> path_status p = Path_BudgetExceeded
     \<or> (path_status p \<in> {Path_Unknown, Path_NotFound}
        \<and> fst (solve_loop self [initial_frame self] [] None False) = []
        \<and> fst (snd (solve_loop self [initial_frame self] [] None False)) = None)"
  using solve_loop_sound [of "[initial_frame self]" self "[]" None False]
  by (auto simp: solve_def status_path_def Let_def case_prod_beta initial_frame_ok path_ok_def
      split: if_splits option.splits)

lemma solve_shape:
  assumes "solve_loop self [initial_frame self] [] None False = (paths, r, u)"
  shows "max_paths (sv_budget self) = 0
        \<and> solve self = [status_path self 0 Path_BudgetExceeded (Some PathCount)]
    \<or> (\<exists>s r. solve self = [status_path self 0 s r] \<and> s \<noteq> Path_Found)
    \<or> max_paths (sv_budget self) \<noteq> 0
        \<and> (\<exists>r. solve self = paths @ [status_path self (length paths) Path_BudgetExceeded r])
    \<or> max_paths (sv_budget self) \<noteq> 0 \<and> paths \<noteq> [] \<and> solve self = paths"
  unfolding solve_def assms
  by (cases "max_paths (sv_budget self) = 0"; cases "paths = []"; cases r; cases u)
    (simp_all, blast+)

definition sample_edge ::
  "nat \<Rightarrow> data_flow_node_id \<Rightarrow> data_flow_node_id \<Rightarrow> data_flow_edge_fact" where
  "sample_edge i a b =
     \<lparr> dfe_id = i, dfe_from = a, dfe_to = b, dfe_kind = DEdge_LocalAssignment,
       dfe_algorithm = DAlg_LocalMir, dfe_status = Flow_Present, dfe_precision = DPrec_Exact,
       dfe_validation = DVal_Native, dfe_confidence = DConf_High, dfe_provenance = DProv_Native,
       dfe_call_site = None, dfe_call_target = None, dfe_refined_call = None, dfe_model = None,
       dfe_budget = None, dfe_evidence = [], dfe_input_stable_keys = [], dfe_stable_key = i \<rparr>"

definition sample_search ::
  "data_flow_edge_fact list \<Rightarrow> data_flow_node_id \<Rightarrow> data_flow_search_budget \<Rightarrow> data_flow_path list"
  where
  "sample_search edges sink budget =
     find_taint_paths [] [] [] [] [] (store_from_rows [] edges []) 0 sink {||} budget"

text \<open>
  C3: Every path reported as found is realizable: its edge ids are those of a chain of stored,
  present edges that leads from the source to the sink, none of which kills taint, whose call and
  return boundaries are accepted by the call graph and nest properly, and which respects the depth
  budget.
\<close>

theorem found_paths_are_realizable:
  assumes "p \<in> set (find_taint_paths fs ns es cs rs (store_from_rows nodes edges models)
             source sink sanitizers budget)"
    and "path_status p = Path_Found"
  shows "\<exists>chain. path_edges p = map dfe_id chain \<and> length chain \<le> max_depth budget
    \<and> realizable (ifds_solver_new fs ns es cs rs (store_from_rows nodes edges models)
        source sink sanitizers budget) chain"
proof -
  let ?self = "ifds_solver_new fs ns es cs rs (store_from_rows nodes edges models)
      source sink sanitizers budget"
  have ix: "store_indexed (sv_store ?self)" by (simp add: ifds_solver_new_def)
  have "p \<in> set (fst (solve_loop ?self [initial_frame ?self] [] None False))"
    using solve_cases [of p ?self] assms by (simp add: find_taint_paths_def)
  then have "path_ok ?self p"
    using solve_loop_sound [of "[initial_frame ?self]" ?self "[]" None False] initial_frame_ok
    by auto
  then show ?thesis
    using realizable_iff_run [OF ix] by (auto simp: path_ok_def ifds_solver_new_def)
qed

theorem found_paths_are_realizable_witness:
  "\<exists>chain. map dfe_id chain = [0, 1] \<and> length chain \<le> 5
    \<and> realizable (ifds_solver_new [] [] [] [] []
        (store_from_rows [] [sample_edge 0 0 1, sample_edge 1 1 2] []) 0 2 {||}
        \<lparr> max_depth = 5, max_paths = 3 \<rparr>) chain"
proof -
  let ?b = "\<lparr> max_depth = 5, max_paths = 3 \<rparr>"
  let ?p = "\<lparr> path_id = 0, path_source = 0, path_sink = 2, path_edges = [0, 1],
      path_status = Path_Found, path_budget = ?b, path_budget_reason = None \<rparr>"
  have "find_taint_paths [] [] [] [] []
      (store_from_rows [] [sample_edge 0 0 1, sample_edge 1 1 2] []) 0 2 {||} ?b = [?p]"
    by code_simp
  then have "\<exists>chain. path_edges ?p = map dfe_id chain \<and> length chain \<le> max_depth ?b
      \<and> realizable (ifds_solver_new [] [] [] [] []
          (store_from_rows [] [sample_edge 0 0 1, sample_edge 1 1 2] []) 0 2 {||} ?b) chain"
    by (intro found_paths_are_realizable) simp_all
  then show ?thesis by (simp add: eq_commute [of "[0, Suc 0]"])
qed

text \<open>
  C5: When the search answers that there is no path, no realizable taint chain of any length leads
  from the source to the sink.
\<close>

theorem not_found_means_no_chain:
  assumes "p \<in> set (find_taint_paths fs ns es cs rs (store_from_rows nodes edges models)
             source sink sanitizers budget)"
    and "path_status p = Path_NotFound"
  shows "\<not> (\<exists>chain. realizable (ifds_solver_new fs ns es cs rs (store_from_rows nodes edges models)
        source sink sanitizers budget) chain)"
proof -
  let ?self = "ifds_solver_new fs ns es cs rs (store_from_rows nodes edges models)
      source sink sanitizers budget"
  have ix: "store_indexed (sv_store ?self)" by (simp add: ifds_solver_new_def)
  have "fst (solve_loop ?self [initial_frame ?self] [] None False) = []"
    "fst (snd (solve_loop ?self [initial_frame ?self] [] None False)) = None"
    using solve_cases [of p ?self] assms by (simp_all add: find_taint_paths_def)
  from solve_loop_no_run [OF this] show ?thesis unfolding realizable_iff_run [OF ix] by blast
qed

theorem not_found_means_no_chain_witness:
  "\<not> (\<exists>chain. realizable (ifds_solver_new [] [] [] [] []
        (store_from_rows [] [sample_edge 0 0 1, sample_edge 1 1 0, sample_edge 2 3 2] []) 0 2 {||}
        \<lparr> max_depth = 5, max_paths = 3 \<rparr>) chain)"
proof -
  let ?b = "\<lparr> max_depth = 5, max_paths = 3 \<rparr>"
  let ?p = "\<lparr> path_id = 0, path_source = 0, path_sink = 2, path_edges = [],
      path_status = Path_NotFound, path_budget = ?b, path_budget_reason = None \<rparr>"
  have "find_taint_paths [] [] [] [] []
      (store_from_rows [] [sample_edge 0 0 1, sample_edge 1 1 0, sample_edge 2 3 2] []) 0 2 {||} ?b = [?p]"
    by code_simp
  then show ?thesis
    by (intro not_found_means_no_chain [of ?p]) simp_all
qed

text \<open>
  The search always terminates with an answer: a non-empty list of rows with ids in order, of
  which at most \<open>max_paths\<close> are found paths and only the last can be a status row.
\<close>

theorem taint_result_shape:
  "find_taint_paths fs ns es cs rs store source sink sanitizers budget \<noteq> []
   \<and> map path_id (find_taint_paths fs ns es cs rs store source sink sanitizers budget)
       = [0..<length (find_taint_paths fs ns es cs rs store source sink sanitizers budget)]
   \<and> length (filter (\<lambda>p. path_status p = Path_Found)
       (find_taint_paths fs ns es cs rs store source sink sanitizers budget)) \<le> max_paths budget
   \<and> list_all (\<lambda>p. path_status p = Path_Found)
       (butlast (find_taint_paths fs ns es cs rs store source sink sanitizers budget))"
proof -
  define self where "self = ifds_solver_new fs ns es cs rs store source sink sanitizers budget"
  define paths where "paths = fst (solve_loop self [initial_frame self] [] None False)"
  have budget: "sv_budget self = budget" by (simp add: self_def ifds_solver_new_def)
  have found: "\<forall>p\<in>set paths. path_status p = Path_Found"
    using solve_loop_sound [of "[initial_frame self]" self "[]" None False] initial_frame_ok
    by (auto simp: paths_def path_ok_def)
  have ids: "map path_id paths = [0..<length paths]"
    unfolding paths_def by (rule solve_loop_ids) simp
  have count: "max_paths budget \<noteq> 0 \<Longrightarrow> length paths \<le> max_paths budget"
    unfolding paths_def
    using solve_loop_count [of "[]" self "[initial_frame self]" None False] budget
    by (simp del: solve_loop.simps)
  have butl: "\<forall>p\<in>set (butlast paths). path_status p = Path_Found"
    using found by (auto dest: in_set_butlastD)
  have all: "filter (\<lambda>p. path_status p = Path_Found) paths = paths"
    using found by (simp add: filter_id_conv)
  obtain r u where loop: "solve_loop self [initial_frame self] [] None False = (paths, r, u)"
    unfolding paths_def by (metis prod.collapse)
  from solve_shape [OF loop] consider
      "max_paths budget = 0" "solve self = [status_path self 0 Path_BudgetExceeded (Some PathCount)]"
    | s r where "solve self = [status_path self 0 s r]" "s \<noteq> Path_Found"
    | r where "max_paths budget \<noteq> 0"
        "solve self = paths @ [status_path self (length paths) Path_BudgetExceeded r]"
    | "max_paths budget \<noteq> 0" "paths \<noteq> []" "solve self = paths"
    unfolding budget by blast
  then show ?thesis
    unfolding find_taint_paths_def self_def [symmetric]
    by cases (use found ids count all butl in
        \<open>auto simp: status_path_def list_all_iff butlast_append\<close>)
qed


end
