(* ===== verification/Fact_Family.thy ===== *)
theory Fact_Family
  imports Prelude
begin

text \<open>
  The fact families of \<open>analysis_api/metadata.rs\<close>: the enumeration, its list \<open>ALL\<close>, the labels that
  open every stable key, and the families whose keys embed long values by digest. \<open>Ord\<close> is derived
  in the source, so families are ordered by their position in the declaration; the library's
  \<open>linorder\<close> is instantiated with that order. The families are told apart by simplification only:
  the code generator's equality for this many constructors is not set up.
\<close>

datatype (plugins only:) fact_family =
    Ff_SourceFile | Ff_Package | Ff_Function | Ff_Import | Ff_BranchObligation | Ff_Test |
    Ff_Coverage | Ff_TsComponent | Ff_TsClass | Ff_StringLiteral | Ff_JsxAttribute |
    Ff_ResolvedImport | Ff_ModuleNode | Ff_ModuleEdge | Ff_WorkspaceRoot | Ff_TopologyPackage |
    Ff_SourceSet | Ff_DependencyRequirement | Ff_ResolvedDependencyEdge | Ff_ImportToPackage |
    Ff_RepoTopologyOverlay | Ff_Scope | Ff_SemanticImport | Ff_Export | Ff_Alias | Ff_Resolution
    | Ff_GeneratedSymbol | Ff_StableExport | Ff_Symbol | Ff_Definition | Ff_Reference |
    Ff_FileMetric | Ff_FunctionMetric | Ff_ComplexityMetric | Ff_Place | Ff_MirBody |
    Ff_MirOperation | Ff_CfgFunction | Ff_CfgNode | Ff_BasicBlock | Ff_CfgEdge |
    Ff_CfgReachability | Ff_CfgDominator | Ff_CfgPostDominator | Ff_CfgControlDependence |
    Ff_UnsupportedControlFlow | Ff_CallSite | Ff_CallTarget | Ff_UnresolvedCall |
    Ff_RefinedCallEdge | Ff_DataFlowNode | Ff_DataFlowEdge | Ff_DataFlowModel |
    Ff_DataFlowBudget | Ff_EvidenceNode | Ff_EvidenceEdge | Ff_EvidenceBundle | Ff_EvidencePath
    | Ff_EvidenceSlice | Ff_EvidenceUnknown | Ff_EvidenceOmittedRegion | Ff_EvidenceReplayKey |
    Ff_DomainObservation | Ff_DomainEvent | Ff_SummaryControl | Ff_SummaryCall |
    Ff_SummaryMemory | Ff_SummaryTito | Ff_SummaryEvent | Ff_ExtensionFact | Ff_Entrypoint |
    Ff_TrustBoundary | Ff_DispatchEdge | Ff_UnresolvedFramework | Ff_Type | Ff_NarrowedType |
    Ff_Value | Ff_AllocationToken | Ff_AccessPath | Ff_PointsToConstraint | Ff_PointsToSet |
    Ff_AliasAnswer | Ff_AdaptationModel | Ff_SolverDerivedEdge | Ff_TypeValueAliasEvent |
    Ff_MirStatement | Ff_MirTerminator | Ff_UnsupportedSemantic | Ff_GoSemantic |
    Ff_TsObjectModel | Ff_TsTypes | Ff_Identity | Ff_Reachability | Ff_SemanticGraph

definition fact_family_all :: "fact_family list" where
  "fact_family_all = [
     Ff_SourceFile, Ff_Package, Ff_Function, Ff_Import, Ff_BranchObligation, Ff_Test,
     Ff_Coverage, Ff_TsComponent, Ff_TsClass, Ff_StringLiteral, Ff_JsxAttribute,
     Ff_ResolvedImport, Ff_ModuleNode, Ff_ModuleEdge, Ff_WorkspaceRoot, Ff_TopologyPackage,
     Ff_SourceSet, Ff_DependencyRequirement, Ff_ResolvedDependencyEdge, Ff_ImportToPackage,
     Ff_RepoTopologyOverlay, Ff_Scope, Ff_SemanticImport, Ff_Export, Ff_Alias, Ff_Resolution,
     Ff_GeneratedSymbol, Ff_StableExport, Ff_Symbol, Ff_Definition, Ff_Reference, Ff_FileMetric,
     Ff_FunctionMetric, Ff_ComplexityMetric, Ff_Place, Ff_MirBody, Ff_MirOperation,
     Ff_CfgFunction, Ff_CfgNode, Ff_BasicBlock, Ff_CfgEdge, Ff_CfgReachability, Ff_CfgDominator,
     Ff_CfgPostDominator, Ff_CfgControlDependence, Ff_UnsupportedControlFlow, Ff_CallSite,
     Ff_CallTarget, Ff_UnresolvedCall, Ff_RefinedCallEdge, Ff_DataFlowNode, Ff_DataFlowEdge,
     Ff_DataFlowModel, Ff_DataFlowBudget, Ff_EvidenceNode, Ff_EvidenceEdge, Ff_EvidenceBundle,
     Ff_EvidencePath, Ff_EvidenceSlice, Ff_EvidenceUnknown, Ff_EvidenceOmittedRegion,
     Ff_EvidenceReplayKey, Ff_DomainObservation, Ff_DomainEvent, Ff_SummaryControl,
     Ff_SummaryCall, Ff_SummaryMemory, Ff_SummaryTito, Ff_SummaryEvent, Ff_ExtensionFact,
     Ff_Entrypoint, Ff_TrustBoundary, Ff_DispatchEdge, Ff_UnresolvedFramework, Ff_Type,
     Ff_NarrowedType, Ff_Value, Ff_AllocationToken, Ff_AccessPath, Ff_PointsToConstraint,
     Ff_PointsToSet, Ff_AliasAnswer, Ff_AdaptationModel, Ff_SolverDerivedEdge,
     Ff_TypeValueAliasEvent, Ff_MirStatement, Ff_MirTerminator, Ff_UnsupportedSemantic,
     Ff_GoSemantic, Ff_TsObjectModel, Ff_TsTypes, Ff_Identity, Ff_Reachability, Ff_SemanticGraph]"

definition compacts_long_part_values :: "fact_family \<Rightarrow> bool" where
  "compacts_long_part_values family \<longleftrightarrow> family \<in> set [
     Ff_Place, Ff_MirBody, Ff_MirOperation, Ff_MirStatement, Ff_MirTerminator, Ff_CfgFunction,
     Ff_CfgNode, Ff_BasicBlock, Ff_CfgEdge, Ff_CfgReachability, Ff_CfgDominator,
     Ff_CfgPostDominator, Ff_CfgControlDependence, Ff_UnsupportedControlFlow, Ff_CallSite,
     Ff_CallTarget, Ff_UnresolvedCall, Ff_RefinedCallEdge, Ff_DataFlowNode, Ff_DataFlowEdge,
     Ff_DataFlowModel, Ff_DataFlowBudget, Ff_EvidenceNode, Ff_EvidenceEdge, Ff_EvidenceBundle,
     Ff_EvidencePath, Ff_EvidenceSlice, Ff_EvidenceUnknown, Ff_EvidenceOmittedRegion,
     Ff_EvidenceReplayKey, Ff_DomainObservation, Ff_DomainEvent, Ff_SummaryControl,
     Ff_SummaryCall, Ff_SummaryMemory, Ff_SummaryTito, Ff_SummaryEvent, Ff_ExtensionFact,
     Ff_Entrypoint, Ff_TrustBoundary, Ff_DispatchEdge, Ff_UnresolvedFramework, Ff_Type,
     Ff_NarrowedType, Ff_Value, Ff_AllocationToken, Ff_AccessPath, Ff_PointsToConstraint,
     Ff_PointsToSet, Ff_AliasAnswer, Ff_AdaptationModel, Ff_SolverDerivedEdge,
     Ff_TypeValueAliasEvent, Ff_GoSemantic, Ff_TsObjectModel, Ff_TsTypes, Ff_Identity,
     Ff_Reachability, Ff_SemanticGraph]"

primrec label :: "fact_family \<Rightarrow> string" where
  "label Ff_SourceFile = ''SourceFile''"
| "label Ff_Package = ''Package''"
| "label Ff_Function = ''Function''"
| "label Ff_Import = ''Import''"
| "label Ff_BranchObligation = ''BranchObligation''"
| "label Ff_Test = ''Test''"
| "label Ff_Coverage = ''Coverage''"
| "label Ff_TsComponent = ''TsComponent''"
| "label Ff_TsClass = ''TsClass''"
| "label Ff_StringLiteral = ''StringLiteral''"
| "label Ff_JsxAttribute = ''JsxAttribute''"
| "label Ff_ResolvedImport = ''ResolvedImport''"
| "label Ff_ModuleNode = ''ModuleNode''"
| "label Ff_ModuleEdge = ''ModuleEdge''"
| "label Ff_WorkspaceRoot = ''WorkspaceRoot''"
| "label Ff_TopologyPackage = ''TopologyPackage''"
| "label Ff_SourceSet = ''SourceSet''"
| "label Ff_DependencyRequirement = ''DependencyRequirement''"
| "label Ff_ResolvedDependencyEdge = ''ResolvedDependencyEdge''"
| "label Ff_ImportToPackage = ''ImportToPackage''"
| "label Ff_RepoTopologyOverlay = ''RepoTopologyOverlay''"
| "label Ff_Scope = ''Scope''"
| "label Ff_SemanticImport = ''SemanticImport''"
| "label Ff_Export = ''Export''"
| "label Ff_Alias = ''Alias''"
| "label Ff_Resolution = ''Resolution''"
| "label Ff_GeneratedSymbol = ''GeneratedSymbol''"
| "label Ff_StableExport = ''StableExport''"
| "label Ff_Symbol = ''Symbol''"
| "label Ff_Definition = ''Definition''"
| "label Ff_Reference = ''Reference''"
| "label Ff_FileMetric = ''FileMetric''"
| "label Ff_FunctionMetric = ''FunctionMetric''"
| "label Ff_ComplexityMetric = ''ComplexityMetric''"
| "label Ff_Place = ''Place''"
| "label Ff_MirBody = ''MirBody''"
| "label Ff_MirOperation = ''MirOperation''"
| "label Ff_CfgFunction = ''CfgFunction''"
| "label Ff_CfgNode = ''CfgNode''"
| "label Ff_BasicBlock = ''BasicBlock''"
| "label Ff_CfgEdge = ''CfgEdge''"
| "label Ff_CfgReachability = ''CfgReachability''"
| "label Ff_CfgDominator = ''CfgDominator''"
| "label Ff_CfgPostDominator = ''CfgPostDominator''"
| "label Ff_CfgControlDependence = ''CfgControlDependence''"
| "label Ff_UnsupportedControlFlow = ''UnsupportedControlFlow''"
| "label Ff_CallSite = ''CallSite''"
| "label Ff_CallTarget = ''CallTarget''"
| "label Ff_UnresolvedCall = ''UnresolvedCall''"
| "label Ff_RefinedCallEdge = ''RefinedCallEdge''"
| "label Ff_DataFlowNode = ''DataFlowNode''"
| "label Ff_DataFlowEdge = ''DataFlowEdge''"
| "label Ff_DataFlowModel = ''DataFlowModel''"
| "label Ff_DataFlowBudget = ''DataFlowBudget''"
| "label Ff_EvidenceNode = ''EvidenceNode''"
| "label Ff_EvidenceEdge = ''EvidenceEdge''"
| "label Ff_EvidenceBundle = ''EvidenceBundle''"
| "label Ff_EvidencePath = ''EvidencePath''"
| "label Ff_EvidenceSlice = ''EvidenceSlice''"
| "label Ff_EvidenceUnknown = ''EvidenceUnknown''"
| "label Ff_EvidenceOmittedRegion = ''EvidenceOmittedRegion''"
| "label Ff_EvidenceReplayKey = ''EvidenceReplayKey''"
| "label Ff_DomainObservation = ''DomainObservation''"
| "label Ff_DomainEvent = ''DomainEvent''"
| "label Ff_SummaryControl = ''SummaryControl''"
| "label Ff_SummaryCall = ''SummaryCall''"
| "label Ff_SummaryMemory = ''SummaryMemory''"
| "label Ff_SummaryTito = ''SummaryTito''"
| "label Ff_SummaryEvent = ''SummaryEvent''"
| "label Ff_ExtensionFact = ''ExtensionFact''"
| "label Ff_Entrypoint = ''Entrypoint''"
| "label Ff_TrustBoundary = ''TrustBoundary''"
| "label Ff_DispatchEdge = ''DispatchEdge''"
| "label Ff_UnresolvedFramework = ''UnresolvedFramework''"
| "label Ff_Type = ''Type''"
| "label Ff_NarrowedType = ''NarrowedType''"
| "label Ff_Value = ''Value''"
| "label Ff_AllocationToken = ''AllocationToken''"
| "label Ff_AccessPath = ''AccessPath''"
| "label Ff_PointsToConstraint = ''PointsToConstraint''"
| "label Ff_PointsToSet = ''PointsToSet''"
| "label Ff_AliasAnswer = ''AliasAnswer''"
| "label Ff_AdaptationModel = ''AdaptationModel''"
| "label Ff_SolverDerivedEdge = ''SolverDerivedEdge''"
| "label Ff_TypeValueAliasEvent = ''TypeValueAliasEvent''"
| "label Ff_MirStatement = ''MirStatement''"
| "label Ff_MirTerminator = ''MirTerminator''"
| "label Ff_UnsupportedSemantic = ''UnsupportedSemantic''"
| "label Ff_GoSemantic = ''GoSemantic''"
| "label Ff_TsObjectModel = ''TsObjectModel''"
| "label Ff_TsTypes = ''TsTypes''"
| "label Ff_Identity = ''Identity''"
| "label Ff_Reachability = ''Reachability''"
| "label Ff_SemanticGraph = ''SemanticGraph''"

lemma fact_family_all_UNIV: "set fact_family_all = UNIV"
proof -
  have "f \<in> set fact_family_all" for f by (cases f) (simp_all add: fact_family_all_def)
  then show ?thesis by auto
qed

lemma distinct_family_labels: "distinct (map label fact_family_all)"
  by (simp add: fact_family_all_def)

lemma label_inject [simp]: "label f = label g \<longleftrightarrow> f = g"
  using distinct_family_labels fact_family_all_UNIV by (auto simp: distinct_map inj_on_def)

text \<open>The derived \<open>Ord\<close>: the position in the declaration.\<close>

definition family_index :: "fact_family \<Rightarrow> nat" where
  "family_index family = length (takeWhile (\<lambda>f. f \<noteq> family) fact_family_all)"

lemma nth_takeWhile_neq: "x \<in> set xs \<Longrightarrow> xs ! length (takeWhile (\<lambda>y. y \<noteq> x) xs) = x"
  by (induction xs) auto

lemma nth_family_index: "fact_family_all ! family_index f = f"
  unfolding family_index_def by (rule nth_takeWhile_neq) (simp add: fact_family_all_UNIV)

lemma family_index_inject [simp]: "family_index f = family_index g \<longleftrightarrow> f = g"
  by (metis nth_family_index)

instantiation fact_family :: linorder
begin

definition less_eq_fact_family :: "fact_family \<Rightarrow> fact_family \<Rightarrow> bool" where
  "less_eq_fact_family f g \<longleftrightarrow> family_index f \<le> family_index g"

definition less_fact_family :: "fact_family \<Rightarrow> fact_family \<Rightarrow> bool" where
  "less_fact_family f g \<longleftrightarrow> family_index f < family_index g"

instance
  by standard (auto simp: less_eq_fact_family_def less_fact_family_def)

end

end
