(* ===== verification/Fact_Meta.thy ===== *)
theory Fact_Meta
  imports Fact_Family
begin

text \<open>
  The fact metadata store of \<open>analysis_api/metadata.rs\<close>: one row per fact reference, kept in a dense
  vector with a sparse overflow map per family, and the owners and conflicts of stable keys. The
  locale \<open>row_map\<close> states what a row container promises, a finite map from run ids; the container of
  the source keeps the promise on the states in which no overflow row lies below the end of the dense
  vector, and the last property shows a run that leaves them.
\<close>

section \<open>Data\<close>

record fact_ref =
  ref_family :: fact_family
  run_id :: nat

datatype fact_precision =
    Prec_Exact | Prec_Syntax | Prec_SetupAware | Prec_Heuristic | Prec_Unresolved | Prec_Ambiguous
  | Prec_SetupMissing | Prec_Unsupported

datatype fact_confidence = Conf_High | Conf_Medium | Conf_Low

datatype validation_status =
    NativeTrusted | SchemaValidated | ReferentiallyValidated | SpanValidated | StableKeyValidated
  | ConflictRejected

record fact_meta =
  meta_stable_key :: stable_key_id
  producer_id :: string
  layer_id :: string
  meta_precision :: fact_precision
  meta_confidence :: fact_confidence
  meta_validation :: validation_status
  meta_payload_digest :: string

record stable_key_owner =
  owner_reference :: fact_ref
  owner_payload_digest :: string

record stable_key_conflict =
  conflict_family :: fact_family
  conflict_stable_key :: stable_key_id
  conflict_existing :: fact_ref
  conflict_incoming :: fact_ref

datatype fact_meta_insert =
    Inserted
  | Idempotent
  | Conflict fact_family stable_key_id fact_ref fact_ref

record family_rows =
  dense :: "fact_meta option list"
  sparse :: "(nat, fact_meta) fmap"

record fact_meta_store =
  rows_of :: "(fact_family, family_rows) fmap"
  stable_key_owners :: "(fact_family, (stable_key_id, stable_key_owner) fmap) fmap"
  conflicts_of :: "stable_key_conflict fset"


section \<open>The rows of one family\<close>

definition rows_default :: family_rows where
  "rows_default = \<lparr> dense = [], sparse = fmempty \<rparr>"

definition DENSE_GAP_LIMIT :: nat where
  "DENSE_GAP_LIMIT = 1024"

text \<open>\<open>Vec::resize_with\<close> to a larger length.\<close>

definition grow_dense :: "nat \<Rightarrow> fact_meta option list \<Rightarrow> fact_meta option list" where
  "grow_dense len rows = rows @ replicate (len - length rows) None"

definition rows_insert :: "nat \<Rightarrow> fact_meta \<Rightarrow> family_rows \<Rightarrow> family_rows" where
  "rows_insert i meta rows =
     (if i \<le> length (dense rows) + DENSE_GAP_LIMIT
      then (let d = (if length (dense rows) \<le> i then grow_dense (i + 1) (dense rows) else dense rows) in
            \<lparr> dense = d[i := Some meta], sparse = fmdrop i (sparse rows) \<rparr>)
      else rows \<lparr> sparse := fmupd i meta (sparse rows) \<rparr>)"

definition rows_remove :: "nat \<Rightarrow> family_rows \<Rightarrow> fact_meta option \<times> family_rows" where
  "rows_remove i rows =
     (if i < length (dense rows)
      then (dense rows ! i, rows \<lparr> dense := (dense rows)[i := None] \<rparr>)
      else (fmlookup (sparse rows) i, rows \<lparr> sparse := fmdrop i (sparse rows) \<rparr>))"

definition rows_get :: "family_rows \<Rightarrow> nat \<Rightarrow> fact_meta option" where
  "rows_get rows i =
     (if i < length (dense rows) then dense rows ! i else fmlookup (sparse rows) i)"

definition rows_iter :: "family_rows \<Rightarrow> (nat \<times> fact_meta) list" where
  "rows_iter rows =
     List.map_filter (\<lambda>(i, row). map_option (Pair i) row) (List.enumerate 0 (dense rows)) @
     bt_entries (sparse rows)"


section \<open>The store\<close>

definition store_default :: fact_meta_store where
  "store_default = \<lparr> rows_of = fmempty, stable_key_owners = fmempty, conflicts_of = {||} \<rparr>"

definition store_insert ::
  "fact_ref \<Rightarrow> fact_meta \<Rightarrow> fact_meta_store \<Rightarrow> fact_meta_insert \<times> fact_meta_store" where
  "store_insert reference meta store =
     (let family = ref_family reference;
          key = meta_stable_key meta;
          owners = fm_get_or fmempty (stable_key_owners store) family;
          (result, owners', conflicts') =
            (case fmlookup owners key of
               Some owner \<Rightarrow>
                 if owner_reference owner = reference \<and>
                    owner_payload_digest owner = meta_payload_digest meta
                 then (Idempotent, owners, conflicts_of store)
                 else (Conflict family key (owner_reference owner) reference, owners,
                       finsert \<lparr> conflict_family = family, conflict_stable_key = key,
                                 conflict_existing = owner_reference owner,
                                 conflict_incoming = reference \<rparr> (conflicts_of store))
             | None \<Rightarrow>
                 (Inserted,
                  fmupd key \<lparr> owner_reference = reference,
                              owner_payload_digest = meta_payload_digest meta \<rparr> owners,
                  conflicts_of store))
      in (result,
          \<lparr> rows_of = fmupd family
              (rows_insert (run_id reference) meta (fm_get_or rows_default (rows_of store) family))
              (rows_of store),
            stable_key_owners = fmupd family owners' (stable_key_owners store),
            conflicts_of = conflicts' \<rparr>))"

definition remove_family :: "fact_family \<Rightarrow> fact_meta_store \<Rightarrow> fact_meta_store" where
  "remove_family family store =
     \<lparr> rows_of = fmdrop family (rows_of store),
       stable_key_owners = fmdrop family (stable_key_owners store),
       conflicts_of = ffilter (\<lambda>c. conflict_family c \<noteq> family) (conflicts_of store) \<rparr>"

definition finish_family_insertions :: "fact_family \<Rightarrow> fact_meta_store \<Rightarrow> fact_meta_store" where
  "finish_family_insertions family store =
     store \<lparr> stable_key_owners := fmdrop family (stable_key_owners store) \<rparr>"

definition finish_all_insertions :: "fact_meta_store \<Rightarrow> fact_meta_store" where
  "finish_all_insertions store = store \<lparr> stable_key_owners := fmempty \<rparr>"

definition store_remove :: "fact_ref \<Rightarrow> fact_meta_store \<Rightarrow> fact_meta option \<times> fact_meta_store" where
  "store_remove reference store =
     (case fmlookup (rows_of store) (ref_family reference) of
        None \<Rightarrow> (None, store)
      | Some rows \<Rightarrow>
          (case rows_remove (run_id reference) rows of
             (meta, rows') \<Rightarrow>
               (meta, store \<lparr> rows_of := fmupd (ref_family reference) rows' (rows_of store) \<rparr>)))"

definition store_get :: "fact_meta_store \<Rightarrow> fact_ref \<Rightarrow> fact_meta option" where
  "store_get store reference =
     Option.bind (fmlookup (rows_of store) (ref_family reference))
       (\<lambda>rows. rows_get rows (run_id reference))"

definition row_count :: "fact_meta_store \<Rightarrow> nat" where
  "row_count store =
     sum_list (map (\<lambda>rows. length (filter (\<lambda>row. row \<noteq> None) (dense rows)) +
                           fcard (fmdom (sparse rows))) (bt_values (rows_of store)))"

definition store_rows :: "fact_meta_store \<Rightarrow> (fact_ref \<times> fact_meta) list" where
  "store_rows store =
     concat (map (\<lambda>(family, rows).
                    map (\<lambda>(i, meta). (\<lparr> ref_family = family, run_id = i \<rparr>, meta)) (rows_iter rows))
                 (bt_entries (rows_of store)))"

definition family_rows_with_run_id :: "fact_meta_store \<Rightarrow> fact_family \<Rightarrow> (nat \<times> fact_meta) list" where
  "family_rows_with_run_id store family =
     (case fmlookup (rows_of store) family of None \<Rightarrow> [] | Some rows \<Rightarrow> rows_iter rows)"

definition family_rows_list :: "fact_meta_store \<Rightarrow> fact_family \<Rightarrow> fact_meta list" where
  "family_rows_list store family = map snd (family_rows_with_run_id store family)"


section \<open>The contract of a row container\<close>

locale row_map =
  fixes empty_rows :: 'r
    and insert_row :: "nat \<Rightarrow> 'm \<Rightarrow> 'r \<Rightarrow> 'r"
    and get_row :: "'r \<Rightarrow> nat \<Rightarrow> 'm option"
    and list_rows :: "'r \<Rightarrow> (nat \<times> 'm) list"
    and ok :: "'r \<Rightarrow> bool"
    and fits :: "nat \<Rightarrow> 'r \<Rightarrow> bool"
  assumes ok_empty: "ok empty_rows"
    and get_empty: "get_row empty_rows i = None"
    and ok_insert: "ok r \<Longrightarrow> fits i r \<Longrightarrow> ok (insert_row i m r)"
    and get_insert: "ok r \<Longrightarrow> fits i r \<Longrightarrow>
      get_row (insert_row i m r) j = (if j = i then Some m else get_row r j)"
    and list_iff: "ok r \<Longrightarrow> (i, m) \<in> set (list_rows r) \<longleftrightarrow> get_row r i = Some m"
    and list_distinct: "ok r \<Longrightarrow> distinct (map fst (list_rows r))"
begin

fun all_fit :: "(nat \<times> 'm) list \<Rightarrow> 'r \<Rightarrow> bool" where
  "all_fit [] r = True"
| "all_fit ((i, m) # ims) r = (fits i r \<and> all_fit ims (insert_row i m r))"

lemma ok_insert_all:
  "ok r \<Longrightarrow> all_fit ims r \<Longrightarrow> ok (fold (\<lambda>(i, m). insert_row i m) ims r)"
  by (induction ims r rule: all_fit.induct) (auto intro: ok_insert)

lemma get_insert_all:
  "ok r \<Longrightarrow> all_fit ims r \<Longrightarrow>
   get_row (fold (\<lambda>(i, m). insert_row i m) ims r) j =
     (case map_of (rev ims) j of Some m \<Rightarrow> Some m | None \<Rightarrow> get_row r j)"
  by (induction ims r rule: all_fit.induct)
     (auto simp: ok_insert get_insert map_add_def split: option.splits)

text \<open>A container filled from empty is the map of the last row of each id, listed once.\<close>

lemma filled:
  assumes "all_fit ims empty_rows"
  defines "r \<equiv> fold (\<lambda>(i, m). insert_row i m) ims empty_rows"
  shows "get_row r j = map_of (rev ims) j"
    and "set (list_rows r) = {(i, m). map_of (rev ims) i = Some m}"
    and "distinct (map fst (list_rows r))"
proof -
  have get: "get_row r i = map_of (rev ims) i" for i
    using get_insert_all [OF ok_empty assms(1)]
    by (simp add: r_def get_empty split: option.splits)
  then show "get_row r j = map_of (rev ims) j" .
  have ok: "ok r" unfolding r_def by (rule ok_insert_all [OF ok_empty assms(1)])
  show "set (list_rows r) = {(i, m). map_of (rev ims) i = Some m}"
    using list_iff [OF ok] get by auto
  show "distinct (map fst (list_rows r))" by (rule list_distinct [OF ok])
qed

end


section \<open>The rows of one family, as a map\<close>

lemma length_grow_dense [simp]: "length (grow_dense n rows) = max n (length rows)"
  by (simp add: grow_dense_def)

lemma nth_grow_dense:
  "i < max n (length rows) \<Longrightarrow> grow_dense n rows ! i = (if i < length rows then rows ! i else None)"
  by (simp add: grow_dense_def nth_append)

lemma length_dense_insert:
  "length (dense (rows_insert i meta rows)) =
     (if i \<le> length (dense rows) + DENSE_GAP_LIMIT then max (i + 1) (length (dense rows))
      else length (dense rows))"
  by (simp add: rows_insert_def Let_def)

lemma sparse_insert:
  "sparse (rows_insert i meta rows) =
     (if i \<le> length (dense rows) + DENSE_GAP_LIMIT then fmdrop i (sparse rows)
      else fmupd i meta (sparse rows))"
  by (simp add: rows_insert_def Let_def)

text \<open>What a lookup sees after an insertion, in every state.\<close>

lemma rows_get_insert:
  "rows_get (rows_insert i meta rows) j =
     (if j = i then Some meta
      else if i \<le> length (dense rows) + DENSE_GAP_LIMIT \<and> length (dense rows) \<le> j \<and> j < i then None
      else rows_get rows j)"
proof (cases "i \<le> length (dense rows) + DENSE_GAP_LIMIT")
  case True
  then show ?thesis
    by (auto simp: rows_get_def length_dense_insert sparse_insert nth_list_update nth_grow_dense
        rows_insert_def Let_def)
next
  case False
  then show ?thesis by (simp add: rows_get_def rows_insert_def)
qed

text \<open>No overflow row lies below the end of the dense vector, and an insertion keeps it so.\<close>

definition rows_ok :: "family_rows \<Rightarrow> bool" where
  "rows_ok rows \<longleftrightarrow> (\<forall>k |\<in>| fmdom (sparse rows). length (dense rows) \<le> k)"

definition rows_fit :: "nat \<Rightarrow> family_rows \<Rightarrow> bool" where
  "rows_fit i rows \<longleftrightarrow>
     i > length (dense rows) + DENSE_GAP_LIMIT \<or> (\<forall>k |\<in>| fmdom (sparse rows). i \<le> k)"

lemma dense_entries_iff:
  "(i, meta) \<in> set (List.map_filter (\<lambda>(i, row). map_option (Pair i) row) (List.enumerate 0 xs)) \<longleftrightarrow>
     i < length xs \<and> xs ! i = Some meta"
  unfolding set_map_filter_iff by (auto simp: in_set_enumerate_eq) (auto simp: Bex_def in_set_enumerate_eq)

lemma rows_iter_iff:
  assumes "rows_ok rows"
  shows "(i, meta) \<in> set (rows_iter rows) \<longleftrightarrow> rows_get rows i = Some meta"
proof -
  have "fmlookup (sparse rows) i = Some meta \<Longrightarrow> length (dense rows) \<le> i"
    using assms by (auto simp: rows_ok_def dest!: fmdomI)
  then show ?thesis by (auto simp: rows_iter_def dense_entries_iff in_bt_entries_iff rows_get_def)
qed

lemma fst_dense_entries:
  "map fst (List.map_filter (\<lambda>(i, row). map_option (Pair i) row) (List.enumerate n xs)) =
   map fst (filter (\<lambda>(_, row). row \<noteq> None) (List.enumerate n xs))"
  by (induction xs arbitrary: n) (auto simp: List.map_filter_simps split: option.split)

lemma distinct_rows_iter:
  assumes "rows_ok rows"
  shows "distinct (map fst (rows_iter rows))"
proof -
  define d where
    "d = List.map_filter (\<lambda>(i, row). map_option (Pair i) row) (List.enumerate 0 (dense rows))"
  have "distinct (map fst d)"
    unfolding d_def fst_dense_entries by (rule distinct_map_filter) simp
  moreover have "fst p < length (dense rows)" if "p \<in> set d" for p
    using that dense_entries_iff [of "fst p" "snd p" "dense rows"] by (simp add: d_def)
  moreover have "length (dense rows) \<le> fst p" if "p \<in> set (bt_entries (sparse rows))" for p
    using that assms in_bt_entries_iff [of "fst p" "snd p" "sparse rows"]
    by (auto simp: rows_ok_def dest!: fmdomI)
  ultimately have "distinct (map fst (d @ bt_entries (sparse rows)))"
    by (simp only: map_append distinct_append distinct_keys_bt_entries disjoint_iff set_map image_iff)
       (metis not_less)
  then show ?thesis by (simp add: rows_iter_def d_def)
qed

interpretation family: row_map rows_default rows_insert rows_get rows_iter rows_ok rows_fit
proof unfold_locales
  show "rows_ok rows_default" by (simp add: rows_ok_def rows_default_def)
  show "rows_get rows_default i = None" for i by (simp add: rows_get_def rows_default_def)
  show "rows_ok (rows_insert i m r)" if "rows_ok r" "rows_fit i r" for i m r
    using that by (fastforce simp: rows_ok_def rows_fit_def length_dense_insert sparse_insert)
  show "rows_get (rows_insert i m r) j = (if j = i then Some m else rows_get r j)"
    if "rows_ok r" "rows_fit i r" for i j m r
  proof -
    have "rows_get r j = None"
      if "i \<le> length (dense r) + DENSE_GAP_LIMIT" "length (dense r) \<le> j" "j < i"
    proof -
      have "j |\<notin>| fmdom (sparse r)" using that \<open>rows_fit i r\<close> by (auto simp: rows_fit_def)
      with that show ?thesis by (simp add: rows_get_def fmdom_notD)
    qed
    then show ?thesis by (auto simp: rows_get_insert)
  qed
qed (fact rows_iter_iff distinct_rows_iter)+


section \<open>Runs of insertions\<close>

definition store_run :: "(fact_ref \<times> fact_meta) list \<Rightarrow> fact_meta_store \<Rightarrow> fact_meta_store" where
  "store_run ims store = fold (\<lambda>(reference, meta) s. snd (store_insert reference meta s)) ims store"

definition family_run :: "fact_family \<Rightarrow> (fact_ref \<times> fact_meta) list \<Rightarrow> (nat \<times> fact_meta) list" where
  "family_run family ims =
     map (\<lambda>(reference, meta). (run_id reference, meta))
       (filter (\<lambda>(reference, _). ref_family reference = family) ims)"

fun rows_fit_run :: "(nat \<times> fact_meta) list \<Rightarrow> family_rows \<Rightarrow> bool" where
  "rows_fit_run [] rows = True"
| "rows_fit_run ((i, meta) # ims) rows = (rows_fit i rows \<and> rows_fit_run ims (rows_insert i meta rows))"

lemma rows_fit_run_iff: "rows_fit_run ims rows \<longleftrightarrow> family.all_fit ims rows"
  by (induction ims rows rule: rows_fit_run.induct) simp_all

lemma store_run_snoc:
  "store_run (ims @ [(reference, meta)]) store = snd (store_insert reference meta (store_run ims store))"
  by (simp add: store_run_def)

lemma rows_of_insert:
  "rows_of (snd (store_insert reference meta store)) =
     fmupd (ref_family reference)
       (rows_insert (run_id reference) meta
          (fm_get_or rows_default (rows_of store) (ref_family reference))) (rows_of store)"
  by (simp add: store_insert_def Let_def split: option.splits)

text \<open>The rows of a family are the container filled with the insertions of that family.\<close>

lemma rows_of_run:
  "fm_get_or rows_default (rows_of (store_run ims store_default)) family =
     fold (\<lambda>(i, m). rows_insert i m) (family_run family ims) rows_default"
proof (induction ims rule: rev_induct)
  case Nil
  show ?case by (simp add: store_run_def store_default_def family_run_def)
next
  case (snoc im ims)
  obtain reference meta where im: "im = (reference, meta)" by force
  show ?case
    using snoc by (auto simp: im store_run_snoc rows_of_insert fm_get_or_fmupd family_run_def)
qed

lemma store_get_rows: "store_get store reference =
    rows_get (fm_get_or rows_default (rows_of store) (ref_family reference)) (run_id reference)"
  by (cases "fmlookup (rows_of store) (ref_family reference)")
     (simp_all add: store_get_def family.get_empty)

lemma map_of_family_run:
  "map_of (rev (family_run (ref_family reference) ims)) (run_id reference) =
     map_of (rev ims) reference"
proof (induction ims rule: rev_induct)
  case (snoc im ims)
  obtain r m where im: "im = (r, m)" by force
  have "r = reference \<longleftrightarrow> ref_family r = ref_family reference \<and> run_id r = run_id reference"
    by (cases r; cases reference) simp
  then show ?case using snoc by (auto simp: im family_run_def)
qed (simp add: family_run_def)

lemma set_store_rows:
  assumes "\<And>family rows. fmlookup (rows_of store) family = Some rows \<Longrightarrow> rows_ok rows"
  shows "(reference, meta) \<in> set (store_rows store) \<longleftrightarrow> store_get store reference = Some meta"
proof -
  have "(reference, meta) \<in> set (store_rows store) \<longleftrightarrow>
      (\<exists>rows. fmlookup (rows_of store) (ref_family reference) = Some rows \<and>
              (run_id reference, meta) \<in> set (rows_iter rows))"
    by (cases reference) (force simp: store_rows_def in_bt_entries_iff)
  also have "\<dots> \<longleftrightarrow> store_get store reference = Some meta"
    using assms by (auto simp: store_get_def rows_iter_iff bind_eq_Some_conv)
  finally show ?thesis .
qed

lemma owners_of_insert:
  "fm_get_or fmempty (stable_key_owners (snd (store_insert reference meta store))) family =
     (let owners = fm_get_or fmempty (stable_key_owners store) family in
      if family = ref_family reference \<and> fmlookup owners (meta_stable_key meta) = None
      then fmupd (meta_stable_key meta)
             \<lparr> owner_reference = reference, owner_payload_digest = meta_payload_digest meta \<rparr> owners
      else owners)"
  by (auto simp: store_insert_def Let_def fm_get_or_fmupd split: option.splits)

text \<open>The owner of a key is the first insertion of the key in its family.\<close>

definition first_with_key ::
  "fact_family \<Rightarrow> stable_key_id \<Rightarrow> (fact_ref \<times> fact_meta) list \<Rightarrow> (fact_ref \<times> fact_meta) option" where
  "first_with_key family key ims =
     List.find (\<lambda>(reference, meta). ref_family reference = family \<and> meta_stable_key meta = key) ims"

lemma find_append: "List.find P (xs @ ys) = (case List.find P xs of Some x \<Rightarrow> Some x | None \<Rightarrow> List.find P ys)"
  by (induction xs) simp_all

lemma owners_of_run:
  "fmlookup (fm_get_or fmempty (stable_key_owners (store_run ims store_default)) family) key =
     map_option (\<lambda>(reference, meta). \<lparr> owner_reference = reference,
                                      owner_payload_digest = meta_payload_digest meta \<rparr>)
       (first_with_key family key ims)"
proof (induction ims rule: rev_induct)
  case Nil
  show ?case by (simp add: store_run_def store_default_def first_with_key_def)
next
  case (snoc im ims)
  obtain reference meta where im: "im = (reference, meta)" by force
  have first: "first_with_key family key (ims @ [im]) =
      (case first_with_key family key ims of Some x \<Rightarrow> Some x
       | None \<Rightarrow> if ref_family reference = family \<and> meta_stable_key meta = key then Some im else None)"
    by (auto simp: first_with_key_def find_append im split: option.splits)
  show ?case
  proof (cases "first_with_key family key ims")
    case None
    with snoc show ?thesis unfolding first by (auto simp: im store_run_snoc owners_of_insert Let_def)
  next
    case (Some x)
    with snoc show ?thesis unfolding first by (auto simp: im store_run_snoc owners_of_insert Let_def)
  qed
qed


section \<open>Properties\<close>

text \<open>
  C34: after any run of insertions that keeps every overflow row above the dense vector of its family
  (facts numbered without gaps larger than 1024 never create one), the store is the map from
  references to the metadata inserted last under them: lookup returns it, the row iterator lists
  exactly these rows.
\<close>

theorem store_is_last_write_map:
  assumes run: "\<And>family. rows_fit_run (family_run family ims) rows_default"
  shows "store_get (store_run ims store_default) reference = map_of (rev ims) reference \<and>
         set (store_rows (store_run ims store_default)) =
           {(reference, meta). map_of (rev ims) reference = Some meta}"
proof
  note assms = run [unfolded rows_fit_run_iff]
  have get: "store_get (store_run ims store_default) r = map_of (rev ims) r" for r
    by (simp add: store_get_rows rows_of_run family.filled(1) [OF assms] map_of_family_run)
  then show "store_get (store_run ims store_default) reference = map_of (rev ims) reference" .
  have "rows_ok rows" if "fmlookup (rows_of (store_run ims store_default)) family = Some rows"
    for family rows
    using that family.ok_insert_all [OF family.ok_empty assms] rows_of_run [of ims family] by simp
  from set_store_rows [of "store_run ims store_default", OF this] get
  show "set (store_rows (store_run ims store_default)) =
      {(reference, meta). map_of (rev ims) reference = Some meta}" by auto
qed

definition sample_meta :: "stable_key_id \<Rightarrow> fact_meta" where
  "sample_meta key =
     \<lparr> meta_stable_key = key, producer_id = ''polint.mir'', layer_id = ''mir'', meta_precision = Prec_Exact,
       meta_confidence = Conf_High, meta_validation = NativeTrusted, meta_payload_digest = ''d'' \<rparr>"

definition sample_run :: "(fact_ref \<times> fact_meta) list" where
  "sample_run =
     [(\<lparr> ref_family = Ff_Place, run_id = 0 \<rparr>, sample_meta 0),
      (\<lparr> ref_family = Ff_Place, run_id = 2 \<rparr>, sample_meta 1),
      (\<lparr> ref_family = Ff_Place, run_id = 0 \<rparr>, sample_meta 2)]"

theorem store_is_last_write_map_witness:
  "store_get (store_run sample_run store_default) \<lparr> ref_family = Ff_Place, run_id = 0 \<rparr> =
     Some (sample_meta 2)"
proof -
  have "rows_fit_run (family_run family sample_run) rows_default" for family
    by (cases "family = Ff_Place")
       (simp_all add: family_run_def sample_run_def rows_fit_def sparse_insert length_dense_insert
          rows_default_def DENSE_GAP_LIMIT_def)
  from store_is_last_write_map [OF this]
  show ?thesis by (simp add: sample_run_def)
qed

text \<open>
  An insertion is judged against the first insertion of its stable key in its family: new keys
  are inserted, the same reference with the same payload is idempotent, and everything else is a
  conflict that names both references and is recorded.
\<close>

theorem insert_judged_against_first_owner:
  "fst (store_insert reference meta (store_run ims store_default)) =
     (case first_with_key (ref_family reference) (meta_stable_key meta) ims of
        None \<Rightarrow> Inserted
      | Some (owner, owned) \<Rightarrow>
          if owner = reference \<and> meta_payload_digest owned = meta_payload_digest meta then Idempotent
          else Conflict (ref_family reference) (meta_stable_key meta) owner reference) \<and>
   conflicts_of (store_run (ims @ [(reference, meta)]) store_default) =
     (case fst (store_insert reference meta (store_run ims store_default)) of
        Conflict family key existing incoming \<Rightarrow>
          finsert \<lparr> conflict_family = family, conflict_stable_key = key, conflict_existing = existing,
                    conflict_incoming = incoming \<rparr> (conflicts_of (store_run ims store_default))
      | _ \<Rightarrow> conflicts_of (store_run ims store_default))"
  using owners_of_run [of ims "ref_family reference" "meta_stable_key meta"]
  by (auto simp: store_insert_def store_run_snoc Let_def split: option.splits)


end
