(* ===== verification/Points_To_Vars.thy ===== *)
theory Points_To_Vars
  imports Prelude "HOL-Library.Word"
begin

text \<open>
  The tagged identifiers of \<open>analysis_neutral/points_to/vars.rs\<close>: a points-to variable or object
  token is a 64-bit word with the kind of its source in the low four bits and the source's id above
  them. The ids are kept at their width here because they are shifted; an assertion that fails is
  \<open>None\<close>. A \<open>usize\<close> index is a natural number, converted to 64 bits as the code does.
\<close>

unbundle bit_operations_syntax

type_synonym pt_var = "64 word"
type_synonym object_token = "64 word"

section \<open>Encoding\<close>

definition TAG_BITS :: nat where
  "TAG_BITS = 4"

definition PAYLOAD_MAX :: "64 word" where
  "PAYLOAD_MAX = drop_bit TAG_BITS (- 1)"

definition PLACE_VAR_TAG :: "64 word" where "PLACE_VAR_TAG = 1"
definition OPERATION_VAR_TAG :: "64 word" where "OPERATION_VAR_TAG = 2"
definition ALLOCATION_VAR_TAG :: "64 word" where "ALLOCATION_VAR_TAG = 3"
definition ACCESS_PATH_VAR_TAG :: "64 word" where "ACCESS_PATH_VAR_TAG = 4"
definition DYNAMIC_VAR_TAG :: "64 word" where "DYNAMIC_VAR_TAG = 5"
definition ACCESS_PATH_PREFIX_VAR_TAG :: "64 word" where "ACCESS_PATH_PREFIX_VAR_TAG = 6"
definition SEMANTIC_NODE_VAR_TAG :: "64 word" where "SEMANTIC_NODE_VAR_TAG = 7"
definition ALLOCATION_OBJECT_TAG :: "64 word" where "ALLOCATION_OBJECT_TAG = 1"
definition ABSTRACT_VALUE_OBJECT_TAG :: "64 word" where "ABSTRACT_VALUE_OBJECT_TAG = 2"
definition VALUE_FACT_OBJECT_TAG :: "64 word" where "VALUE_FACT_OBJECT_TAG = 3"

definition tagged_var :: "64 word \<Rightarrow> 64 word \<Rightarrow> pt_var option" where
  "tagged_var tag payload =
     (if payload \<le> PAYLOAD_MAX then Some (push_bit TAG_BITS payload OR tag) else None)"

definition tagged_object :: "64 word \<Rightarrow> 64 word \<Rightarrow> object_token option" where
  "tagged_object tag payload =
     (if payload \<le> PAYLOAD_MAX then Some (push_bit TAG_BITS payload OR tag) else None)"

definition place_var :: "64 word \<Rightarrow> pt_var option" where
  "place_var i = tagged_var PLACE_VAR_TAG i"

definition operation_var :: "64 word \<Rightarrow> pt_var option" where
  "operation_var i = tagged_var OPERATION_VAR_TAG i"

definition allocation_var :: "64 word \<Rightarrow> pt_var option" where
  "allocation_var i = tagged_var ALLOCATION_VAR_TAG i"

definition access_path_var :: "64 word \<Rightarrow> pt_var option" where
  "access_path_var i = tagged_var ACCESS_PATH_VAR_TAG i"

definition PREFIX_COMPONENT_BITS :: nat where
  "PREFIX_COMPONENT_BITS = 30"

definition PREFIX_COMPONENT_MAX :: "64 word" where
  "PREFIX_COMPONENT_MAX = push_bit PREFIX_COMPONENT_BITS 1 - 1"

definition access_path_prefix_var :: "64 word \<Rightarrow> nat \<Rightarrow> pt_var option" where
  "access_path_prefix_var i projection_index =
     (if projection_index < 2 ^ 64 then
        (let index = of_nat projection_index in
         if i \<le> PREFIX_COMPONENT_MAX \<and> index \<le> PREFIX_COMPONENT_MAX
         then tagged_var ACCESS_PATH_PREFIX_VAR_TAG (push_bit PREFIX_COMPONENT_BITS i OR index)
         else None)
      else None)"

definition dynamic_var :: "nat \<Rightarrow> pt_var option" where
  "dynamic_var slot_index = tagged_var DYNAMIC_VAR_TAG (of_nat slot_index)"

definition semantic_node_var :: "64 word \<Rightarrow> pt_var option" where
  "semantic_node_var i = tagged_var SEMANTIC_NODE_VAR_TAG i"

definition allocation_object :: "64 word \<Rightarrow> object_token option" where
  "allocation_object i = tagged_object ALLOCATION_OBJECT_TAG i"

definition abstract_value_object :: "64 word \<Rightarrow> object_token option" where
  "abstract_value_object i = tagged_object ABSTRACT_VALUE_OBJECT_TAG i"

definition value_fact_object :: "64 word \<Rightarrow> object_token option" where
  "value_fact_object i = tagged_object VALUE_FACT_OBJECT_TAG i"

definition is_solver_dynamic_var :: "pt_var \<Rightarrow> bool" where
  "is_solver_dynamic_var var \<longleftrightarrow>
     (let tag = var AND (push_bit TAG_BITS 1 - 1) in
      tag = DYNAMIC_VAR_TAG \<or> tag = ACCESS_PATH_PREFIX_VAR_TAG)"

lemmas tag_defs =
  PLACE_VAR_TAG_def OPERATION_VAR_TAG_def ALLOCATION_VAR_TAG_def ACCESS_PATH_VAR_TAG_def
  DYNAMIC_VAR_TAG_def ACCESS_PATH_PREFIX_VAR_TAG_def SEMANTIC_NODE_VAR_TAG_def
  ALLOCATION_OBJECT_TAG_def ABSTRACT_VALUE_OBJECT_TAG_def VALUE_FACT_OBJECT_TAG_def


section \<open>Decoding\<close>

lemma payload_max_eq: "PAYLOAD_MAX = mask 60"
  by (simp add: PAYLOAD_MAX_def TAG_BITS_def)

lemma take_bit_self_iff: "take_bit n w = w \<longleftrightarrow> unat w < 2 ^ n" for w :: "64 word"
proof -
  have "unat (take_bit n w) = take_bit n (unat w)" by (rule unsigned_take_bit_eq)
  then have "unat (take_bit n w) = unat w mod 2 ^ n" by (simp only: take_bit_eq_mod)
  moreover have "take_bit n w = w \<longleftrightarrow> unat (take_bit n w) = unat w" by (simp add: word_unat_eq_iff)
  ultimately show ?thesis by (metis mod_less mod_less_divisor zero_less_numeral zero_less_power)
qed

lemma payload_max_iff: "payload \<le> PAYLOAD_MAX \<longleftrightarrow> take_bit 60 payload = payload"
  unfolding payload_max_eq take_bit_self_iff
  by (simp add: mask_eq_decr_exp word_le_nat_alt) linarith

lemma dynamic_var_Some_iff: "n < 2 ^ 60 \<Longrightarrow> dynamic_var n \<noteq> None"
proof -
  assume "n < 2 ^ 60"
  then have "of_nat n \<le> PAYLOAD_MAX"
    by (simp add: payload_max_eq mask_eq_decr_exp word_le_nat_alt unat_of_nat)
  then show ?thesis by (simp add: dynamic_var_def tagged_var_def)
qed

text \<open>The payload and the tag are read back by a shift and a mask.\<close>

lemma tagged_payload:
  assumes "take_bit 60 payload = payload" and "take_bit 4 tag = tag"
  shows "drop_bit 4 (push_bit 4 payload OR tag :: 64 word) = payload"
proof (rule bit_eqI)
  fix n assume "possible_bit TYPE(64 word) n"
  then have n: "n < 64" by simp
  have "bit payload n \<longleftrightarrow> n < 60 \<and> bit payload n" "\<not> bit tag (4 + n)"
    using assms by (metis bit_take_bit_iff) (metis assms(2) bit_take_bit_iff not_add_less1)
  then show "bit (drop_bit 4 (push_bit 4 payload OR tag)) n = bit payload n"
    using n by (auto simp: bit_simps)
qed

lemma tagged_tag:
  assumes "take_bit 4 tag = tag"
  shows "take_bit 4 (push_bit 4 payload OR tag :: 64 word) = tag"
proof -
  have "take_bit 4 (push_bit 4 payload) = (0 :: 64 word)"
    by (rule bit_eqI) (auto simp: bit_simps)
  with assms show ?thesis by (simp add: take_bit_or)
qed

lemma tagged_var_inject:
  assumes "tagged_var t p = Some v" and "tagged_var t' p' = Some v"
    and "take_bit 4 t = t" and "take_bit 4 t' = t'"
  shows "t = t' \<and> p = p'"
proof -
  have "v = push_bit 4 p OR t" "take_bit 60 p = p" "v = push_bit 4 p' OR t'" "take_bit 60 p' = p'"
    using assms by (simp_all add: tagged_var_def payload_max_iff TAG_BITS_def split: if_splits)
  with assms tagged_payload tagged_tag show ?thesis by metis
qed

lemma tagged_object_eq: "tagged_object = tagged_var"
  by (simp add: fun_eq_iff tagged_object_def tagged_var_def)

lemma prefix_component_iff: "w \<le> PREFIX_COMPONENT_MAX \<longleftrightarrow> take_bit 30 w = w"
  unfolding take_bit_self_iff
  by (simp add: PREFIX_COMPONENT_MAX_def PREFIX_COMPONENT_BITS_def word_le_nat_alt) linarith

lemma prefix_components:
  assumes "take_bit 30 i = i" and "take_bit 30 k = k"
  shows "drop_bit 30 (push_bit 30 i OR k :: 64 word) = i" and "take_bit 30 (push_bit 30 i OR k) = k"
    and "take_bit 60 (push_bit 30 i OR k) = push_bit 30 i OR k"
proof -
  have bits: "bit i n \<longleftrightarrow> n < 30 \<and> bit i n" "bit k n \<longleftrightarrow> n < 30 \<and> bit k n" for n
    using assms by (metis bit_take_bit_iff)+
  show "drop_bit 30 (push_bit 30 i OR k) = i"
  proof (rule bit_eqI)
    fix n show "bit (drop_bit 30 (push_bit 30 i OR k)) n = bit i n"
      using bits(1) [of n] bits(2) [of "30 + n"] by (auto simp: bit_simps)
  qed
  show "take_bit 30 (push_bit 30 i OR k) = k"
  proof (rule bit_eqI)
    fix n show "bit (take_bit 30 (push_bit 30 i OR k)) n = bit k n"
      using bits(2) [of n] by (auto simp: bit_simps)
  qed
  show "take_bit 60 (push_bit 30 i OR k) = push_bit 30 i OR k"
  proof (rule bit_eqI)
    fix n show "bit (take_bit 60 (push_bit 30 i OR k)) n = bit (push_bit 30 i OR k) n"
      using bits(1) [of "n - 30"] bits(2) [of n] by (auto simp: bit_simps)
  qed
qed


section \<open>Properties\<close>

text \<open>The sources a points-to variable can stand for.\<close>

datatype var_source =
    Var_Place "64 word"
  | Var_Operation "64 word"
  | Var_Allocation "64 word"
  | Var_Access_Path "64 word"
  | Var_Dynamic nat
  | Var_Access_Path_Prefix "64 word" nat
  | Var_Semantic_Node "64 word"

fun source_var :: "var_source \<Rightarrow> pt_var option" where
  "source_var (Var_Place i) = place_var i"
| "source_var (Var_Operation i) = operation_var i"
| "source_var (Var_Allocation i) = allocation_var i"
| "source_var (Var_Access_Path i) = access_path_var i"
| "source_var (Var_Dynamic n) = dynamic_var n"
| "source_var (Var_Access_Path_Prefix i n) = access_path_prefix_var i n"
| "source_var (Var_Semantic_Node i) = semantic_node_var i"

fun source_tag :: "var_source \<Rightarrow> 64 word" where
  "source_tag (Var_Place _) = PLACE_VAR_TAG"
| "source_tag (Var_Operation _) = OPERATION_VAR_TAG"
| "source_tag (Var_Allocation _) = ALLOCATION_VAR_TAG"
| "source_tag (Var_Access_Path _) = ACCESS_PATH_VAR_TAG"
| "source_tag (Var_Dynamic _) = DYNAMIC_VAR_TAG"
| "source_tag (Var_Access_Path_Prefix _ _) = ACCESS_PATH_PREFIX_VAR_TAG"
| "source_tag (Var_Semantic_Node _) = SEMANTIC_NODE_VAR_TAG"

fun source_payload :: "var_source \<Rightarrow> 64 word" where
  "source_payload (Var_Place i) = i"
| "source_payload (Var_Operation i) = i"
| "source_payload (Var_Allocation i) = i"
| "source_payload (Var_Access_Path i) = i"
| "source_payload (Var_Dynamic n) = of_nat n"
| "source_payload (Var_Access_Path_Prefix i n) = push_bit 30 i OR of_nat n"
| "source_payload (Var_Semantic_Node i) = i"

lemmas source_var_defs =
  place_var_def operation_var_def allocation_var_def access_path_var_def dynamic_var_def
  semantic_node_var_def access_path_prefix_var_def

lemma source_var_tagged:
  "source_var a = Some v \<Longrightarrow> tagged_var (source_tag a) (source_payload a) = Some v"
  by (cases a) (auto simp: source_var_defs Let_def PREFIX_COMPONENT_BITS_def split: if_splits)

lemma source_tag_small: "take_bit 4 (source_tag a) = source_tag a"
  by (cases a) (simp_all add: tag_defs)

lemma of_nat_64_inject: "m < 2 ^ 64 \<Longrightarrow> n < 2 ^ 64 \<Longrightarrow> (of_nat m :: 64 word) = of_nat n \<longleftrightarrow> m = n"
  by (simp add: word_of_nat_eq_iff take_bit_nat_eq_self)

lemma prefix_var_SomeD:
  assumes "access_path_prefix_var i n = Some v"
  shows "take_bit 30 i = i" "take_bit 30 (of_nat n :: 64 word) = of_nat n" "n < 2 ^ 64"
  using assms
  by (auto simp: access_path_prefix_var_def Let_def prefix_component_iff split: if_splits)

lemma source_var_inject:
  assumes "source_var a = Some v" and "source_var b = Some v"
    and "\<And>n. a = Var_Dynamic n \<Longrightarrow> n < 2 ^ 64" and "\<And>n. b = Var_Dynamic n \<Longrightarrow> n < 2 ^ 64"
  shows "a = b"
proof -
  have eq: "source_tag a = source_tag b" "source_payload a = source_payload b"
    using tagged_var_inject [OF source_var_tagged [OF assms(1)] source_var_tagged [OF assms(2)]]
    by (simp_all add: source_tag_small)
  show ?thesis
  proof (cases a)
    case (Var_Dynamic n)
    with eq assms(3,4) show ?thesis
      by (cases b) (simp_all add: tag_defs of_nat_64_inject)
  next
    case (Var_Access_Path_Prefix i n)
    with eq(1) obtain j m where b: "b = Var_Access_Path_Prefix j m" by (cases b) (simp_all add: tag_defs)
    note ba = prefix_var_SomeD [OF assms(1) [unfolded Var_Access_Path_Prefix source_var.simps]]
      and bb = prefix_var_SomeD [OF assms(2) [unfolded b source_var.simps]]
    have "i = j" "(of_nat n :: 64 word) = of_nat m"
      using eq(2) [unfolded Var_Access_Path_Prefix b source_payload.simps]
        prefix_components(1,2) [OF ba(1,2)] prefix_components(1,2) [OF bb(1,2)]
      by metis+
    with ba(3) bb(3) show ?thesis by (simp add: Var_Access_Path_Prefix b of_nat_64_inject)
  qed (use eq in \<open>cases b; simp add: tag_defs\<close>)+
qed

lemma source_var_tag:
  assumes "source_var a = Some v"
  shows "take_bit 4 v = source_tag a"
proof -
  have "v = push_bit 4 (source_payload a) OR source_tag a"
    using source_var_tagged [OF assms] by (simp add: tagged_var_def TAG_BITS_def split: if_splits)
  then show ?thesis by (simp only: tagged_tag source_tag_small)
qed



end
