(* ===== verification/Key_Text.thy ===== *)
theory Key_Text
  imports Fact_Family Stable_Key "HOL-Library.Word" "HOL-Library.Multiset"
begin

text \<open>
  The canonical text of a stable key, \<open>write_stable_key_text\<close> of \<open>analysis_api/metadata.rs\<close>: the
  family's label and the labelled parts in the order of their labels, every piece with its length
  in front. The SHA-256 of the \<open>sha2\<close> crate is the parameter \<open>sha256\<close>, from the bytes of a text to
  the bytes of its digest. The output buffer is the returned string. The lemmas show that the text
  determines the family and the parts, and that it does not depend on the order of the parts.
\<close>

unbundle bit_operations_syntax

section \<open>The writer\<close>

text \<open>
  The digit loop of \<open>push_decimal\<close>, filling its array from the right; the twenty places of the
  array are enough for every \<open>usize\<close>.
\<close>

fun push_decimal_loop :: "nat \<Rightarrow> string \<Rightarrow> string" where
  "push_decimal_loop value digits =
     (let digits' = char_of (48 + value mod 10) # digits in
      if value div 10 = 0 then digits' else push_decimal_loop (value div 10) digits')"

declare push_decimal_loop.simps [simp del]

definition push_decimal :: "nat \<Rightarrow> string" where
  "push_decimal value = push_decimal_loop value []"

definition push_length_prefixed :: "string \<Rightarrow> string" where
  "push_length_prefixed value = push_decimal (length value) @ '':'' @ value"

text \<open>The loop that replaces each backslash: \<open>find\<close>, copy up to it, a slash, go on after it.\<close>

function fold_separators :: "string \<Rightarrow> string" where
  "fold_separators rest =
     (case dropWhile (\<lambda>c. c \<noteq> CHR 0x5C) rest of
        [] \<Rightarrow> rest
      | _ # rest' \<Rightarrow> takeWhile (\<lambda>c. c \<noteq> CHR 0x5C) rest @ ''/'' @ fold_separators rest')"
  by pat_completeness auto
termination
proof (relation "measure length", simp)
  fix rest rest' :: string and c
  assume "dropWhile (\<lambda>c. c \<noteq> CHR 0x5C) rest = c # rest'"
  with length_dropWhile_le [of "\<lambda>c. c \<noteq> CHR 0x5C" rest]
  show "(rest', rest) \<in> measure length" by simp
qed

declare fold_separators.simps [simp del]

definition push_length_prefixed_path :: "string \<Rightarrow> string" where
  "push_length_prefixed_path value = push_decimal (length value) @ '':'' @ fold_separators value"

definition COMPACT_PART_VALUE_MAX_BYTES :: nat where
  "COMPACT_PART_VALUE_MAX_BYTES = 64"

definition hex_digit :: "8 word \<Rightarrow> char" where
  "hex_digit d = (if d < 10 then char_of (48 + unat d) else char_of (87 + unat d))"

definition compact_part_value :: "(string \<Rightarrow> 8 word list) \<Rightarrow> string \<Rightarrow> string" where
  "compact_part_value sha256 value =
     ''#'' @ concat (map (\<lambda>byte. [hex_digit (drop_bit 4 byte), hex_digit (byte AND 0x0F)])
                       (take 16 (sha256 (fold_separators value))))"

definition compact_key_reference :: "(string \<Rightarrow> 8 word list) \<Rightarrow> string \<Rightarrow> string" where
  "compact_key_reference sha256 key =
     (if length key > COMPACT_PART_VALUE_MAX_BYTES then compact_part_value sha256 key else key)"

definition push_part :: "(string \<Rightarrow> 8 word list) \<Rightarrow> bool \<Rightarrow> string \<times> string \<Rightarrow> string" where
  "push_part sha256 compact part =
     ''|'' @ push_length_prefixed (fst part) @ ''='' @
     (if compact \<and> length (snd part) > COMPACT_PART_VALUE_MAX_BYTES
      then push_length_prefixed (compact_part_value sha256 (snd part))
      else push_length_prefixed_path (snd part))"

definition write_stable_key_text ::
  "(string \<Rightarrow> 8 word list) \<Rightarrow> fact_family \<Rightarrow> (string \<times> string) list \<Rightarrow> string" where
  "write_stable_key_text sha256 family parts =
     push_length_prefixed (label family) @
     concat (map (push_part sha256 (compacts_long_part_values family)) (sort_key fst parts))"

definition stable_key_text_from_parts ::
  "(string \<Rightarrow> 8 word list) \<Rightarrow> fact_family \<Rightarrow> (string \<times> string) list \<Rightarrow> string" where
  "stable_key_text_from_parts sha256 family parts = write_stable_key_text sha256 family parts"

definition stable_key_from_parts ::
  "(string \<Rightarrow> 8 word list) \<Rightarrow> fact_family \<Rightarrow> (string \<times> string) list \<Rightarrow> interner_state \<Rightarrow>
     (stable_key_id \<times> interner_state) option" where
  "stable_key_from_parts sha256 family parts interner =
     intern (write_stable_key_text sha256 family parts) interner"


section \<open>Decoding\<close>

lemma push_decimal_loop_eq: "push_decimal_loop n ds = show_nat n @ ds"
proof (induction n ds rule: push_decimal_loop.induct)
  case (1 n ds)
  show ?case
  proof (cases "n < 10")
    case True
    then show ?thesis by (simp add: push_decimal_loop.simps [of n] show_nat.simps [of n])
  next
    case False
    with 1 show ?thesis
      by (simp add: push_decimal_loop.simps [of n] show_nat.simps [of n] div_eq_0_iff)
  qed
qed

lemma push_decimal_eq: "push_decimal n = show_nat n"
  by (simp add: push_decimal_def push_decimal_loop_eq)

lemma fold_separators_eq: "fold_separators s = map (\<lambda>c. if c = CHR 0x5C then CHR ''/'' else c) s"
proof (induction s rule: fold_separators.induct)
  case (1 s)
  let ?p = "\<lambda>c. c \<noteq> CHR 0x5C"
  have s: "s = takeWhile ?p s @ dropWhile ?p s" by simp
  have keep: "map (\<lambda>c. if c = CHR 0x5C then CHR ''/'' else c) (takeWhile ?p s) = takeWhile ?p s"
    by (rule map_idI) (auto dest: set_takeWhileD)
  show ?case
  proof (cases "dropWhile ?p s")
    case Nil
    moreover from Nil have "takeWhile ?p s = s" using s by (metis append_Nil2)
    ultimately show ?thesis using keep by (simp only: fold_separators.simps [of s] list.case)
  next
    case (Cons c r)
    moreover have "c = CHR 0x5C" using Cons by (simp add: dropWhile_eq_Cons_conv)
    moreover define t where "t = takeWhile ?p s"
    ultimately have "s = t @ CHR 0x5C # r" using s by simp
    moreover have "map (\<lambda>c. if c = CHR 0x5C then CHR ''/'' else c) t = t"
      using keep by (simp only: t_def)
    ultimately have "map (\<lambda>c. if c = CHR 0x5C then CHR ''/'' else c) s =
        t @ ''/'' @ fold_separators r"
      using 1 [OF Cons] by simp
    then have "map (\<lambda>c. if c = CHR 0x5C then CHR ''/'' else c) s =
        takeWhile ?p s @ ''/'' @ fold_separators r"
      by (simp only: t_def)
    then show ?thesis using Cons by (simp only: fold_separators.simps [of s] list.case)
  qed
qed

lemma length_fold_separators [simp]: "length (fold_separators s) = length s"
  by (simp add: fold_separators_eq)

lemma show_nat_digits: "c \<in> set (show_nat n) \<Longrightarrow> c \<noteq> CHR '':''"
proof (induction n rule: show_nat.induct)
  case (1 n)
  have digit: "char_of (48 + k) \<noteq> (CHR '':'' :: char)" if "k < 10" for k :: nat
  proof
    assume "char_of (48 + k) = (CHR '':'' :: char)"
    then have "of_char (char_of (48 + k) :: char) = (of_char CHR '':'' :: nat)" by simp
    with that show False by simp
  qed
  show ?case
    using 1 digit [of n] digit [of "n mod 10"]
    by (auto simp: show_nat.simps [of n] split: if_splits)
qed

lemma char_of_digit: "k < 10 \<Longrightarrow> of_char (char_of (48 + k) :: char) = (48 + k :: nat)"
  by simp

lemma show_nat_not_Nil [simp]: "show_nat n \<noteq> []" "[] \<noteq> show_nat n"
  by (simp_all add: show_nat.simps [of n])

lemma show_nat_inject [simp]: "show_nat m = show_nat n \<longleftrightarrow> m = n"
proof
  assume "show_nat m = show_nat n"
  then show "m = n"
  proof (induction m arbitrary: n rule: show_nat.induct)
    case (1 m)
    have last: "last (show_nat k) = char_of (48 + k mod 10)" for k
      by (simp add: show_nat.simps [of k])
    have "(of_char (char_of (48 + m mod 10) :: char) :: nat) =
          of_char (char_of (48 + n mod 10) :: char)"
      using "1.prems" last by metis
    then have mod: "m mod 10 = n mod 10" by (simp add: char_of_digit)
    have butlast: "butlast (show_nat k) = (if k < 10 then [] else show_nat (k div 10))" for k
      by (simp add: show_nat.simps [of k])
    have bl: "butlast (show_nat m) = butlast (show_nat n)" using "1.prems" by simp
    show ?case
    proof (cases "m < 10")
      case True
      with bl have "n < 10" by (simp add: butlast split: if_splits)
      with True mod show ?thesis by simp
    next
      case False
      with bl have "\<not> n < 10" "show_nat (m div 10) = show_nat (n div 10)"
        by (simp_all add: butlast split: if_splits)
      with 1 False have "m div 10 = n div 10" by simp
      with mod show ?thesis by (metis div_mult_mod_eq)
    qed
  qed
qed simp

text \<open>A length-prefixed piece can be split off the front of a text in one way only.\<close>

lemma prefixed_split:
  "show_nat (length a) @ '':'' @ a @ x = show_nat (length b) @ '':'' @ b @ y \<longleftrightarrow> a = b \<and> x = y"
proof
  let ?p = "\<lambda>c. c \<noteq> CHR '':''"
  assume eq: "show_nat (length a) @ '':'' @ a @ x = show_nat (length b) @ '':'' @ b @ y"
  have "takeWhile ?p (show_nat n @ '':'' @ r) = show_nat n" for n r
    using show_nat_digits [of _ n] by (subst takeWhile_append2) auto
  with eq have "show_nat (length a) = show_nat (length b)" by metis
  with eq show "a = b \<and> x = y" by simp
qed simp

lemma prefixed_pieces:
  "push_length_prefixed a @ x = push_length_prefixed b @ y \<longleftrightarrow> a = b \<and> x = y"
  "push_length_prefixed_path a @ x = push_length_prefixed_path b @ y \<longleftrightarrow>
     fold_separators a = fold_separators b \<and> x = y"
  using prefixed_split [of a x b y] prefixed_split [of "fold_separators a" x "fold_separators b" y]
  by (simp_all add: push_length_prefixed_def push_length_prefixed_path_def push_decimal_eq)

definition folded_part :: "string \<times> string \<Rightarrow> string \<times> string" where
  "folded_part part = (fst part, fold_separators (snd part))"

lemma folded_part_simp: "folded_part (l, v) = (l, fold_separators v)"
  by (simp add: folded_part_def)

text \<open>A part whose value is written out, not replaced by its digest.\<close>

definition verbatim :: "fact_family \<Rightarrow> (string \<times> string) list \<Rightarrow> bool" where
  "verbatim family parts \<longleftrightarrow>
     (compacts_long_part_values family \<longrightarrow>
        list_all (\<lambda>(_, v). length v \<le> COMPACT_PART_VALUE_MAX_BYTES) parts)"

lemma parts_text_inject:
  assumes "compact \<Longrightarrow> \<forall>p \<in> set ps. length (snd p) \<le> COMPACT_PART_VALUE_MAX_BYTES"
    and "compact \<Longrightarrow> \<forall>p \<in> set qs. length (snd p) \<le> COMPACT_PART_VALUE_MAX_BYTES"
  shows "concat (map (push_part sha compact) ps) = concat (map (push_part sha compact) qs) \<longleftrightarrow>
     map folded_part ps = map folded_part qs"
  using assms
proof (induction ps arbitrary: qs)
  case Nil
  then show ?case by (cases qs) (simp_all add: push_part_def)
next
  case (Cons p ps)
  show ?case
  proof (cases qs)
    case Nil
    then show ?thesis by (simp add: push_part_def)
  next
    case qs: (Cons q qs')
    have part: "push_part sha compact r @ x =
        ''|'' @ push_length_prefixed (fst r) @ ''='' @ push_length_prefixed_path (snd r) @ x"
      if "r \<in> set (p # ps) \<union> set qs" for r x
      using that Cons.prems by (auto simp: push_part_def not_less [symmetric])
    have "concat (map (push_part sha compact) ps) = concat (map (push_part sha compact) qs') \<longleftrightarrow>
        map folded_part ps = map folded_part qs'"
      using Cons.prems qs by (intro Cons.IH) auto
    then show ?thesis
      using part [of p] part [of q] by (cases p; cases q) (simp add: qs prefixed_pieces folded_part_simp)
  qed
qed


section \<open>Properties\<close>

text \<open>
  C31: for parts whose values are written out (every family that does not compact, and any family
  as long as the values are at most 64 bytes), two key texts are equal exactly when the families are
  the same and the parts are the same, in the order of their labels and up to the path separator. A
  value cannot forge a delimiter.
\<close>

theorem key_text_injective:
  assumes "verbatim f ps" and "verbatim g qs"
  shows "write_stable_key_text sha256 f ps = write_stable_key_text sha256 g qs \<longleftrightarrow>
     f = g \<and> map folded_part (sort_key fst ps) =
              map folded_part (sort_key fst qs)"
proof (cases "f = g")
  case True
  have "concat (map (push_part sha256 (compacts_long_part_values f)) (sort_key fst ps)) =
      concat (map (push_part sha256 (compacts_long_part_values f)) (sort_key fst qs)) \<longleftrightarrow>
      map folded_part (sort_key fst ps) =
      map folded_part (sort_key fst qs)"
    using assms True
    by (intro parts_text_inject) (auto simp: verbatim_def list_all_iff case_prod_beta)
  with True show ?thesis by (simp add: write_stable_key_text_def prefixed_pieces)
qed (simp add: write_stable_key_text_def prefixed_pieces)

theorem key_text_injective_witness:
  "write_stable_key_text (\<lambda>_. replicate 32 0) Ff_Import [(''path'', ''a''), (''line'', ''1|4:path'')] \<noteq>
   write_stable_key_text (\<lambda>_. replicate 32 0) Ff_Import [(''path'', ''a''), (''line'', ''1'')]"
  using key_text_injective [of Ff_Import "[(''path'', ''a''), (''line'', ''1|4:path'')]"
      Ff_Import "[(''path'', ''a''), (''line'', ''1'')]" "\<lambda>_. replicate 32 0"]
  by (simp add: verbatim_def compacts_long_part_values_def fold_separators_eq folded_part_def)

text \<open>
  The order in which a caller lists the parts does not matter, whatever their values are and
  whether or not they are embedded by digest, as long as no label occurs twice.
\<close>

theorem key_text_order_independent:
  assumes "mset ps = mset qs" and "distinct (map fst ps)"
  shows "write_stable_key_text sha256 family ps = write_stable_key_text sha256 family qs"
proof -
  have "sort_key fst ps = sort_key fst qs"
    using assms by (intro sort_key_inj_key_eq) (simp_all add: distinct_map)
  then show ?thesis by (simp add: write_stable_key_text_def)
qed

theorem key_text_order_independent_witness:
  "write_stable_key_text (\<lambda>_. replicate 32 0) Ff_Place [(''file'', ''a''), (''body'', ''b'')] =
   write_stable_key_text (\<lambda>_. replicate 32 0) Ff_Place [(''body'', ''b''), (''file'', ''a'')]"
  using key_text_order_independent [of "[(''file'', ''a''), (''body'', ''b'')]"
      "[(''body'', ''b''), (''file'', ''a'')]" "\<lambda>_. replicate 32 0" Ff_Place]
  by simp

end
