(* ===== verification/Points_To.thy ===== *)
theory Points_To
  imports Points_To_Vars Key_Text "HOL-Library.Monad_Syntax"
begin

text \<open>
  The constraint vocabulary and the solver of \<open>analysis_neutral/points_to\<close> (\<open>facts.rs\<close>, \<open>solver.rs\<close>):
  Andersen-style inclusion constraints with object slots, solved by difference propagation over a
  queue under three budgets. The solver state is a record, passed explicitly; a panic (an \<open>expect\<close> or
  a failed assertion) is \<open>None\<close>. \<open>steps\<close> and the slot counter are \<open>usize\<close> values that the budget and the
  number of slots bound; they are natural numbers.
\<close>

section \<open>Facts\<close>

datatype points_to_status =
  Pts_Present | Pts_Unknown | Pts_Unsupported | Pts_SetupMissing | Pts_BudgetExceeded

datatype points_to_precision =
    Ptp_FlowInsensitive | Ptp_LocalFlowSensitive | Ptp_SummaryProjected | Ptp_Heuristic | Ptp_Unknown
  | Ptp_Unsupported

datatype points_to_budget_status = WithinBudget | BudgetExceeded | NotRun

datatype points_to_constraint_kind =
    AddressOf (ac_dst: pt_var) (ac_object: object_token)
  | Copy (cc_dst: pt_var) (cc_src: pt_var)
  | Load (lc_dst: pt_var) (lc_pointer: pt_var)
  | Store (sc_pointer: pt_var) (sc_src: pt_var)
  | FieldLoad (fl_dst: pt_var) (fl_base: pt_var) (fl_field: string)
  | FieldStore (fs_base: pt_var) (fs_field: string) (fs_src: pt_var)
  | ElementLoad (el_dst: pt_var) (el_base: pt_var) (el_index: string)
  | ElementStore (es_base: pt_var) (es_index: string) (es_src: pt_var)
  | CallReturn (cr_dst: pt_var) (cr_value: "64 word")
  | SummaryFlow (sf_dst: pt_var) (sf_src: pt_var) (sf_summary_key: string)

record points_to_constraint_fact =
  pc_id :: nat
  pc_kind :: points_to_constraint_kind
  pc_status :: points_to_status
  pc_precision :: points_to_precision
  pc_stable_key :: stable_key_id

record points_to_set_fact =
  ps_id :: nat
  ps_variable :: pt_var
  ps_objects :: "object_token list"
  ps_status :: points_to_status
  ps_precision :: points_to_precision
  ps_budget :: points_to_budget_status
  ps_stable_key :: stable_key_id

record points_to_budget =
  max_steps :: nat
  max_objects_per_var :: nat
  max_dynamic_vars :: nat

definition points_to_budget_default :: points_to_budget where
  "points_to_budget_default =
     \<lparr> max_steps = 10000, max_objects_per_var = 64, max_dynamic_vars = 512 \<rparr>"

datatype budget_reason =
    SolverMaxSteps
  | SolverMaxOuterIterations
  | PointsToMaxObjectsPerVar
  | PointsToMaxDynamicVars
  | GoAddressTakenThreshold
  | GoMaxCandidatesPerCallsite
  | GoMaxRtaRounds
  | GoMaxWorklistSteps
  | AdaptationMaxModelFiles
  | AdaptationMaxModelFacts
  | AdaptationMaxExpansionsPerModel
  | AdaptationMaxTargetsPerSource
  | AdaptationMaxModelDerivedEdges

primrec budget_reason_as_str :: "budget_reason \<Rightarrow> string" where
  "budget_reason_as_str SolverMaxSteps = ''solver.max_steps''"
| "budget_reason_as_str SolverMaxOuterIterations = ''solver.max_outer_iterations''"
| "budget_reason_as_str PointsToMaxObjectsPerVar = ''points_to.max_objects_per_var''"
| "budget_reason_as_str PointsToMaxDynamicVars = ''points_to.max_dynamic_vars''"
| "budget_reason_as_str GoAddressTakenThreshold = ''go.address_taken_threshold''"
| "budget_reason_as_str GoMaxCandidatesPerCallsite = ''go.max_candidates_per_callsite''"
| "budget_reason_as_str GoMaxRtaRounds = ''go.max_rta_rounds''"
| "budget_reason_as_str GoMaxWorklistSteps = ''go.max_worklist_steps''"
| "budget_reason_as_str AdaptationMaxModelFiles = ''adaptation.max_model_files''"
| "budget_reason_as_str AdaptationMaxModelFacts = ''adaptation.max_model_facts''"
| "budget_reason_as_str AdaptationMaxExpansionsPerModel = ''adaptation.max_expansions_per_model''"
| "budget_reason_as_str AdaptationMaxTargetsPerSource = ''adaptation.max_targets_per_source''"
| "budget_reason_as_str AdaptationMaxModelDerivedEdges = ''adaptation.max_model_derived_edges''"

record points_to_solve_result =
  sr_sets :: "points_to_set_fact list"
  sr_budget_status :: points_to_budget_status
  sr_budget_reasons :: "string fset"


section \<open>The solver state\<close>

record pt_solver =
  pt_sets :: "(pt_var, object_token fset) fmap"
  pt_copy_edges :: "(pt_var, pt_var fset) fmap"
  pt_loads :: "(pt_var, pt_var fset) fmap"
  pt_stores :: "(pt_var, pt_var fset) fmap"
  pt_field_loads :: "(pt_var, (string \<times> pt_var) fset) fmap"
  pt_field_stores :: "(pt_var, (string \<times> pt_var) fset) fmap"
  pt_object_slots :: "(object_token \<times> string, pt_var) fmap"
  pt_queue :: "(pt_var \<times> object_token fset) list"
  pt_dynamic_vars :: "pt_var fset"
  pt_variable_identities :: "(pt_var, string fset) fmap"
  pt_object_identities :: "(object_token, string fset) fmap"
  pt_steps :: nat
  pt_budget_exceeded :: bool
  pt_budget_reasons :: "string fset"

definition pt_new :: pt_solver where
  "pt_new =
     \<lparr> pt_sets = fmempty, pt_copy_edges = fmempty, pt_loads = fmempty, pt_stores = fmempty,
       pt_field_loads = fmempty, pt_field_stores = fmempty, pt_object_slots = fmempty, pt_queue = [],
       pt_dynamic_vars = {||}, pt_variable_identities = fmempty, pt_object_identities = fmempty,
       pt_steps = 0, pt_budget_exceeded = False, pt_budget_reasons = {||} \<rparr>"

definition pt_exceed :: "budget_reason \<Rightarrow> pt_solver \<Rightarrow> pt_solver" where
  "pt_exceed reason s =
     s \<lparr> pt_budget_exceeded := True,
         pt_budget_reasons := finsert (budget_reason_as_str reason) (pt_budget_reasons s) \<rparr>"

definition add_all :: "points_to_budget \<Rightarrow> pt_var \<Rightarrow> object_token fset \<Rightarrow> pt_solver \<Rightarrow> pt_solver" where
  "add_all budget dst objects s =
     (if pt_budget_exceeded s then s
      else (let set = fm_get_or {||} (pt_sets s) dst;
                delta = objects |-| set;
                set' = set |\<union>| objects;
                s' = s \<lparr> pt_sets := fmupd dst set' (pt_sets s) \<rparr>
            in if fcard set' > max_objects_per_var budget then pt_exceed PointsToMaxObjectsPerVar s'
               else if delta \<noteq> {||} then s' \<lparr> pt_queue := pt_queue s @ [(dst, delta)] \<rparr>
               else s'))"

definition add_object :: "points_to_budget \<Rightarrow> pt_var \<Rightarrow> object_token \<Rightarrow> pt_solver \<Rightarrow> pt_solver" where
  "add_object budget dst object s = add_all budget dst {|object|} s"

definition add_copy_edge :: "points_to_budget \<Rightarrow> pt_var \<Rightarrow> pt_var \<Rightarrow> pt_solver \<Rightarrow> pt_solver" where
  "add_copy_edge budget src dst s =
     (let present = dst |\<in>| fm_get_or {||} (pt_copy_edges s) src;
          s' = s \<lparr> pt_copy_edges := fm_add src dst (pt_copy_edges s) \<rparr>
      in if present then s'
         else case fmlookup (pt_sets s) src of
                None \<Rightarrow> s'
              | Some objects \<Rightarrow> add_all budget dst objects s')"

definition semantic_relation_identity :: "string fset \<Rightarrow> string" where
  "semantic_relation_identity fragments =
     concat (map (\<lambda>fragment. show_nat (length fragment) @ '':'' @ fragment) (bt_elems fragments))"

definition semantic_variable_identity :: "pt_solver \<Rightarrow> pt_var \<Rightarrow> string option" where
  "semantic_variable_identity s variable =
     map_option semantic_relation_identity (fmlookup (pt_variable_identities s) variable)"

definition semantic_object_identity :: "pt_solver \<Rightarrow> object_token \<Rightarrow> string option" where
  "semantic_object_identity s object =
     map_option semantic_relation_identity (fmlookup (pt_object_identities s) object)"

text \<open>A new slot: its identity, its entry in the table, and the check of the slot budget.\<close>

definition new_object_slot ::
  "points_to_budget \<Rightarrow> object_token \<Rightarrow> string \<Rightarrow> pt_var \<Rightarrow> string \<Rightarrow> pt_solver \<Rightarrow> pt_solver" where
  "new_object_slot budget object slot var slot_identity s =
     (let s' = s \<lparr> pt_variable_identities := fm_add var slot_identity (pt_variable_identities s),
                   pt_object_slots := fmupd (object, slot) var (pt_object_slots s),
                   pt_dynamic_vars := finsert var (pt_dynamic_vars s) \<rparr>
      in if fcard (pt_dynamic_vars s') > max_dynamic_vars budget
         then pt_exceed PointsToMaxDynamicVars s' else s')"

definition object_slot ::
  "(string \<Rightarrow> 8 word list) \<Rightarrow> points_to_budget \<Rightarrow> object_token \<Rightarrow> string \<Rightarrow> pt_solver \<Rightarrow>
     (pt_var \<times> pt_solver) option" where
  "object_slot sha256 budget object slot s =
     (case fmlookup (pt_object_slots s) (object, slot) of
        Some var \<Rightarrow> Some (var, s)
      | None \<Rightarrow> do {
          var \<leftarrow> dynamic_var (fcard (fmdom (pt_object_slots s)));
          object_identity \<leftarrow> semantic_object_identity s object;
          Some (var, new_object_slot budget object slot var
            (stable_key_text_from_parts sha256 Ff_PointsToSet
               [(''object'', object_identity), (''slot'', slot)]) s)
        })"

definition record_variable_identity ::
  "(string \<Rightarrow> 8 word list) \<Rightarrow> pt_var \<Rightarrow> string \<Rightarrow> string \<Rightarrow> pt_solver \<Rightarrow> pt_solver" where
  "record_variable_identity sha256 variable key role s =
     s \<lparr> pt_variable_identities :=
           fm_add variable
             (stable_key_text_from_parts sha256 Ff_PointsToSet [(''relation'', key), (''role'', role)])
             (pt_variable_identities s) \<rparr>"

definition record_object_identity ::
  "(string \<Rightarrow> 8 word list) \<Rightarrow> object_token \<Rightarrow> string \<Rightarrow> string \<Rightarrow> pt_solver \<Rightarrow> pt_solver" where
  "record_object_identity sha256 object key role s =
     s \<lparr> pt_object_identities :=
           fm_add object
             (stable_key_text_from_parts sha256 Ff_PointsToSet [(''relation'', key), (''role'', role)])
             (pt_object_identities s) \<rparr>"

fun record_kind_identities ::
  "(string \<Rightarrow> 8 word list) \<Rightarrow> string \<Rightarrow> points_to_constraint_kind \<Rightarrow> pt_solver \<Rightarrow> pt_solver option" where
  "record_kind_identities sha256 key (AddressOf dst object) s =
     Some (record_object_identity sha256 object key ''address_of_object''
       (record_variable_identity sha256 dst key ''address_of_destination'' s))"
| "record_kind_identities sha256 key (Copy dst src) s =
     Some (record_variable_identity sha256 src key ''copy_source''
       (record_variable_identity sha256 dst key ''copy_destination'' s))"
| "record_kind_identities sha256 key (Load dst pointer) s =
     Some (record_variable_identity sha256 pointer key ''load_pointer''
       (record_variable_identity sha256 dst key ''load_destination'' s))"
| "record_kind_identities sha256 key (Store pointer src) s =
     Some (record_variable_identity sha256 src key ''store_source''
       (record_variable_identity sha256 pointer key ''store_pointer'' s))"
| "record_kind_identities sha256 key (FieldLoad dst base _) s =
     Some (record_variable_identity sha256 base key ''projection_load_base''
       (record_variable_identity sha256 dst key ''projection_load_destination'' s))"
| "record_kind_identities sha256 key (ElementLoad dst base _) s =
     Some (record_variable_identity sha256 base key ''projection_load_base''
       (record_variable_identity sha256 dst key ''projection_load_destination'' s))"
| "record_kind_identities sha256 key (FieldStore base _ src) s =
     Some (record_variable_identity sha256 src key ''projection_store_source''
       (record_variable_identity sha256 base key ''projection_store_base'' s))"
| "record_kind_identities sha256 key (ElementStore base _ src) s =
     Some (record_variable_identity sha256 src key ''projection_store_source''
       (record_variable_identity sha256 base key ''projection_store_base'' s))"
| "record_kind_identities sha256 key (CallReturn dst value) s =
     map_option (\<lambda>object. record_object_identity sha256 object key ''call_return_object''
         (record_variable_identity sha256 dst key ''call_return_destination'' s))
       (value_fact_object value)"
| "record_kind_identities sha256 key (SummaryFlow dst src _) s =
     Some (record_variable_identity sha256 src key ''summary_source''
       (record_variable_identity sha256 dst key ''summary_destination'' s))"

definition record_constraint_identities ::
  "(string \<Rightarrow> 8 word list) \<Rightarrow> interner_state \<Rightarrow> points_to_constraint_fact \<Rightarrow> pt_solver \<Rightarrow>
     pt_solver option" where
  "record_constraint_identities sha256 interner constraint s = do {
     key \<leftarrow> resolve interner (pc_stable_key constraint);
     record_kind_identities sha256 key (pc_kind constraint) s
   }"


section \<open>Initialisation\<close>

definition index_slot :: "string \<Rightarrow> string" where
  "index_slot index = ''['' @ index @ '']''"

fun add_constraint ::
  "points_to_budget \<Rightarrow> points_to_constraint_kind \<Rightarrow> pt_solver \<Rightarrow> pt_solver option" where
  "add_constraint budget (AddressOf dst object) s = Some (add_object budget dst object s)"
| "add_constraint budget (Copy dst src) s = Some (add_copy_edge budget src dst s)"
| "add_constraint budget (SummaryFlow dst src _) s = Some (add_copy_edge budget src dst s)"
| "add_constraint budget (Load dst pointer) s =
     Some (s \<lparr> pt_loads := fm_add pointer dst (pt_loads s) \<rparr>)"
| "add_constraint budget (Store pointer src) s =
     Some (s \<lparr> pt_stores := fm_add pointer src (pt_stores s) \<rparr>)"
| "add_constraint budget (FieldLoad dst base field) s =
     Some (s \<lparr> pt_field_loads := fm_add base (field, dst) (pt_field_loads s) \<rparr>)"
| "add_constraint budget (FieldStore base field src) s =
     Some (s \<lparr> pt_field_stores := fm_add base (field, src) (pt_field_stores s) \<rparr>)"
| "add_constraint budget (ElementLoad dst base index) s =
     Some (s \<lparr> pt_field_loads := fm_add base (index_slot index, dst) (pt_field_loads s) \<rparr>)"
| "add_constraint budget (ElementStore base index src) s =
     Some (s \<lparr> pt_field_stores := fm_add base (index_slot index, src) (pt_field_stores s) \<rparr>)"
| "add_constraint budget (CallReturn dst value) s =
     map_option (\<lambda>object. add_object budget dst object s) (value_fact_object value)"

definition init_constraint ::
  "(string \<Rightarrow> 8 word list) \<Rightarrow> interner_state \<Rightarrow> points_to_budget \<Rightarrow> points_to_constraint_fact \<Rightarrow>
     pt_solver \<Rightarrow> pt_solver option" where
  "init_constraint sha256 interner budget constraint s = do {
     s' \<leftarrow> record_constraint_identities sha256 interner constraint s;
     add_constraint budget (pc_kind constraint) s'
   }"

definition replay_copy_edges :: "points_to_budget \<Rightarrow> pt_var \<times> pt_var fset \<Rightarrow> pt_solver \<Rightarrow> pt_solver" where
  "replay_copy_edges budget edge s =
     (case fmlookup (pt_sets s) (fst edge) of
        None \<Rightarrow> s
      | Some objects \<Rightarrow> fold (\<lambda>dst. add_all budget dst objects) (bt_elems (snd edge)) s)"

definition pt_initialize ::
  "(string \<Rightarrow> 8 word list) \<Rightarrow> interner_state \<Rightarrow> points_to_budget \<Rightarrow> points_to_constraint_fact list \<Rightarrow>
     pt_solver \<Rightarrow> pt_solver option" where
  "pt_initialize sha256 interner budget constraints s = do {
     s' \<leftarrow> try_fold (init_constraint sha256 interner budget) constraints s;
     Some (fold (replay_copy_edges budget) (bt_entries (pt_copy_edges s')) s')
   }"


section \<open>Propagation\<close>

definition propagate_copy ::
  "points_to_budget \<Rightarrow> pt_var \<Rightarrow> object_token fset \<Rightarrow> pt_solver \<Rightarrow> pt_solver" where
  "propagate_copy budget var delta s =
     fold (\<lambda>dst. add_all budget dst delta) (bt_elems (fm_get_or {||} (pt_copy_edges s) var)) s"

text \<open>The body shared by the four loops over slots: the edge between a slot and a variable.\<close>

definition link_from_slot ::
  "(string \<Rightarrow> 8 word list) \<Rightarrow> points_to_budget \<Rightarrow> string \<Rightarrow> pt_var \<Rightarrow> object_token \<Rightarrow> pt_solver \<Rightarrow>
     pt_solver option" where
  "link_from_slot sha256 budget slot dst object s =
     map_option (\<lambda>(contents, s'). add_copy_edge budget contents dst s')
       (object_slot sha256 budget object slot s)"

definition link_to_slot ::
  "(string \<Rightarrow> 8 word list) \<Rightarrow> points_to_budget \<Rightarrow> string \<Rightarrow> pt_var \<Rightarrow> object_token \<Rightarrow> pt_solver \<Rightarrow>
     pt_solver option" where
  "link_to_slot sha256 budget slot src object s =
     map_option (\<lambda>(contents, s'). add_copy_edge budget src contents s')
       (object_slot sha256 budget object slot s)"

definition propagate_load ::
  "(string \<Rightarrow> 8 word list) \<Rightarrow> points_to_budget \<Rightarrow> pt_var \<Rightarrow> object_token fset \<Rightarrow> pt_solver \<Rightarrow>
     pt_solver option" where
  "propagate_load sha256 budget var delta s =
     try_fold (\<lambda>dst. try_fold (link_from_slot sha256 budget ''$contents'' dst) (bt_elems delta))
       (bt_elems (fm_get_or {||} (pt_loads s) var)) s"

definition propagate_store ::
  "(string \<Rightarrow> 8 word list) \<Rightarrow> points_to_budget \<Rightarrow> pt_var \<Rightarrow> object_token fset \<Rightarrow> pt_solver \<Rightarrow>
     pt_solver option" where
  "propagate_store sha256 budget var delta s =
     try_fold (\<lambda>src. try_fold (link_to_slot sha256 budget ''$contents'' src) (bt_elems delta))
       (bt_elems (fm_get_or {||} (pt_stores s) var)) s"

definition propagate_field_load ::
  "(string \<Rightarrow> 8 word list) \<Rightarrow> points_to_budget \<Rightarrow> pt_var \<Rightarrow> object_token fset \<Rightarrow> pt_solver \<Rightarrow>
     pt_solver option" where
  "propagate_field_load sha256 budget var delta s =
     try_fold (\<lambda>(field, dst). try_fold (link_from_slot sha256 budget field dst) (bt_elems delta))
       (bt_elems (fm_get_or {||} (pt_field_loads s) var)) s"

definition propagate_field_store ::
  "(string \<Rightarrow> 8 word list) \<Rightarrow> points_to_budget \<Rightarrow> pt_var \<Rightarrow> object_token fset \<Rightarrow> pt_solver \<Rightarrow>
     pt_solver option" where
  "propagate_field_store sha256 budget var delta s =
     try_fold (\<lambda>(field, src). try_fold (link_to_slot sha256 budget field src) (bt_elems delta))
       (bt_elems (fm_get_or {||} (pt_field_stores s) var)) s"

definition step_budget_ok :: "points_to_budget \<Rightarrow> pt_solver \<Rightarrow> bool \<times> pt_solver" where
  "step_budget_ok budget s =
     (let s' = s \<lparr> pt_steps := pt_steps s + 1 \<rparr> in
      if pt_steps s' > max_steps budget then (False, pt_exceed SolverMaxSteps s') else (True, s'))"

definition propagate_all ::
  "(string \<Rightarrow> 8 word list) \<Rightarrow> points_to_budget \<Rightarrow> pt_var \<Rightarrow> object_token fset \<Rightarrow> pt_solver \<Rightarrow>
     pt_solver option" where
  "propagate_all sha256 budget var delta s = do {
     s \<leftarrow> propagate_load sha256 budget var delta (propagate_copy budget var delta s);
     s \<leftarrow> propagate_store sha256 budget var delta s;
     s \<leftarrow> propagate_field_load sha256 budget var delta s;
     propagate_field_store sha256 budget var delta s
   }"


section \<open>What an operation changes\<close>

text \<open>
  The relation that every operation of the loop respects. Sets, edges and slots only grow, the
  constraint tables and the step counter stay; as long as no budget is exceeded, every new member of
  a set is queued, and a new edge has carried what its source holds.
\<close>

definition pts_of :: "pt_solver \<Rightarrow> pt_var \<Rightarrow> object_token set" where
  "pts_of s v = fset (fm_get_or {||} (pt_sets s) v)"

definition edges_of :: "pt_solver \<Rightarrow> pt_var \<Rightarrow> pt_var set" where
  "edges_of s v = fset (fm_get_or {||} (pt_copy_edges s) v)"

definition pending :: "pt_solver \<Rightarrow> pt_var \<Rightarrow> object_token \<Rightarrow> bool" where
  "pending s v obj \<longleftrightarrow> (\<exists>d. (v, d) \<in> set (pt_queue s) \<and> obj |\<in>| d)"

definition same_tables :: "pt_solver \<Rightarrow> pt_solver \<Rightarrow> bool" where
  "same_tables s t \<longleftrightarrow>
     pt_loads t = pt_loads s \<and> pt_stores t = pt_stores s \<and> pt_field_loads t = pt_field_loads s \<and>
     pt_field_stores t = pt_field_stores s \<and> pt_steps t = pt_steps s \<and>
     pt_object_identities t = pt_object_identities s"

definition grows_to :: "pt_solver \<Rightarrow> pt_solver \<Rightarrow> bool" where
  "grows_to s t \<longleftrightarrow>
     same_tables s t \<and>
     (\<forall>v. pts_of s v \<subseteq> pts_of t v) \<and> (\<forall>v. edges_of s v \<subseteq> edges_of t v) \<and>
     fm_le (pt_object_slots s) (pt_object_slots t) \<and>
     (pt_budget_exceeded s \<longrightarrow> pt_budget_exceeded t) \<and> set (pt_queue s) \<subseteq> set (pt_queue t) \<and>
     (\<not> pt_budget_exceeded t \<longrightarrow>
        (\<forall>v obj. obj \<in> pts_of t v \<longrightarrow> obj \<in> pts_of s v \<or> pending t v obj) \<and>
        (\<forall>u v obj. v \<in> edges_of t u \<longrightarrow> v \<in> edges_of s u \<or>
            (obj \<in> pts_of t u \<longrightarrow> obj \<in> pts_of t v \<or> pending t u obj)))"

lemma same_tables_refl [simp]: "same_tables s s"
  by (simp add: same_tables_def)

lemma same_tables_trans: "same_tables s t \<Longrightarrow> same_tables t u \<Longrightarrow> same_tables s u"
  by (simp add: same_tables_def)

lemma pending_mono: "set (pt_queue s) \<subseteq> set (pt_queue t) \<Longrightarrow> pending s v obj \<Longrightarrow> pending t v obj"
  by (auto simp: pending_def)

lemma grows_to_refl [simp]: "grows_to s s"
  by (simp add: grows_to_def)

lemma grows_to_trans:
  assumes "grows_to s t" and "grows_to t u"
  shows "grows_to s u"
proof -
  have new: "obj \<in> pts_of s v \<or> pending u v obj"
    if "\<not> pt_budget_exceeded u" "obj \<in> pts_of u v" for v obj
    using assms that unfolding grows_to_def by (meson pending_mono)
  have edge: "obj \<in> pts_of u w \<or> pending u v obj"
    if "\<not> pt_budget_exceeded u" "w \<in> edges_of u v" "w \<notin> edges_of s v" "obj \<in> pts_of u v" for v w obj
    using assms that unfolding grows_to_def by (meson pending_mono subsetD)
  show ?thesis
    using assms new edge unfolding grows_to_def
    by (intro conjI) (meson same_tables_trans fm_le_trans subset_trans | blast)+
qed

lemma pts_of_upd:
  "pts_of (s \<lparr> pt_sets := fmupd dst set' (pt_sets s) \<rparr>) v = (if v = dst then fset set' else pts_of s v)"
  by (simp add: pts_of_def fm_get_or_fmupd)

lemma add_all_exceeded [simp]: "pt_budget_exceeded s \<Longrightarrow> add_all budget dst objects s = s"
  by (simp add: add_all_def)

lemma add_all_fields [simp]:
  "pt_copy_edges (add_all budget dst objects s) = pt_copy_edges s"
  "pt_object_slots (add_all budget dst objects s) = pt_object_slots s"
  "pt_variable_identities (add_all budget dst objects s) = pt_variable_identities s"
  "pt_object_identities (add_all budget dst objects s) = pt_object_identities s"
  "same_tables s (add_all budget dst objects s)"
  "pt_dynamic_vars (add_all budget dst objects s) = pt_dynamic_vars s"
  by (simp_all add: add_all_def Let_def pt_exceed_def same_tables_def)

lemma edges_of_add_all [simp]: "edges_of (add_all budget dst objects s) = edges_of s"
  by (simp add: edges_of_def fun_eq_iff)

lemma pts_of_add_all:
  "pts_of (add_all budget dst objects s) v =
     (if \<not> pt_budget_exceeded s \<and> v = dst then pts_of s v \<union> fset objects else pts_of s v)"
  by (auto simp: add_all_def Let_def pt_exceed_def pts_of_def fm_get_or_fmupd)

lemma queue_add_all: "set (pt_queue s) \<subseteq> set (pt_queue (add_all budget dst objects s))"
  by (auto simp: add_all_def Let_def pt_exceed_def)

lemma pending_add_all:
  assumes "\<not> pt_budget_exceeded (add_all budget dst objects s)" and "obj |\<in>| objects"
  shows "obj \<in> pts_of s dst \<or> pending (add_all budget dst objects s) dst obj"
  using assms by (auto simp: add_all_def Let_def pt_exceed_def pending_def pts_of_def split: if_splits)

lemma exceeded_add_all: "pt_budget_exceeded s \<Longrightarrow> pt_budget_exceeded (add_all budget dst objects s)"
  by simp

lemma add_all_grows: "grows_to s (add_all budget dst objects s)"
  using pending_add_all [of budget dst objects s] queue_add_all [of s budget dst objects]
  by (auto simp: grows_to_def pts_of_add_all split: if_splits)

lemma new_object_slot_fields [simp]:
  "pt_object_slots (new_object_slot budget obj slot var i s) =
     fmupd (obj, slot) var (pt_object_slots s)"
  "pt_variable_identities (new_object_slot budget obj slot var i s) =
     fm_add var i (pt_variable_identities s)"
  "pts_of (new_object_slot budget obj slot var i s) = pts_of s"
  "edges_of (new_object_slot budget obj slot var i s) = edges_of s"
  "pt_queue (new_object_slot budget obj slot var i s) = pt_queue s"
  "pt_object_identities (new_object_slot budget obj slot var i s) = pt_object_identities s"
  "same_tables s (new_object_slot budget obj slot var i s)"
  "pt_budget_exceeded s \<Longrightarrow> pt_budget_exceeded (new_object_slot budget obj slot var i s)"
  by (simp_all add: new_object_slot_def Let_def pt_exceed_def pts_of_def edges_of_def same_tables_def
      fun_eq_iff)

lemma new_object_slot_grows:
  assumes "fmlookup (pt_object_slots s) (obj, slot) = None"
  shows "grows_to s (new_object_slot budget obj slot var i s)"
  using assms by (auto simp: grows_to_def fm_le_fmupd)

lemma object_slot_cases:
  assumes "object_slot sha256 budget obj slot s = Some (var, t)"
  obtains (known) "fmlookup (pt_object_slots s) (obj, slot) = Some var" "t = s"
  | (fresh) i where "fmlookup (pt_object_slots s) (obj, slot) = None"
      "dynamic_var (fcard (fmdom (pt_object_slots s))) = Some var"
      "t = new_object_slot budget obj slot var i s"
  using assms by (auto simp: object_slot_def bind_eq_Some_conv split: option.splits)

lemma object_slot_grows:
  assumes "object_slot sha256 budget obj slot s = Some (var, t)"
  shows "grows_to s t" and "fmlookup (pt_object_slots t) (obj, slot) = Some var"
proof -
  from assms have "grows_to s t \<and> fmlookup (pt_object_slots t) (obj, slot) = Some var"
    by (cases rule: object_slot_cases) (simp_all add: new_object_slot_grows)
  then show "grows_to s t" and "fmlookup (pt_object_slots t) (obj, slot) = Some var" by simp_all
qed

end
