(* ===== verification/Points_To_Solver.thy ===== *)
theory Points_To_Solver
  imports Points_To
begin

text \<open>
  The loop of the points-to solver, \<open>solve\<close> and \<open>to_result\<close> of \<open>points_to/solver.rs\<close>, and its
  correctness: a run within its budgets computes exactly the least solution of the constraints, in
  which an object's slot is a variable of its own; a run that exceeds a budget says so on every set.
\<close>

section \<open>Growth of the single operations\<close>

lemma edges_of_add: "edges_of (s \<lparr> pt_copy_edges := fm_add src dst (pt_copy_edges s) \<rparr>) v =
    (if v = src then insert dst (edges_of s v) else edges_of s v)"
  by (simp add: edges_of_def fm_get_or_add)

lemma edges_of_copy_edge:
  "edges_of (add_copy_edge budget src dst s) v =
     (if v = src then insert dst (edges_of s v) else edges_of s v)"
  by (simp add: add_copy_edge_def Let_def edges_of_add split: option.split)

lemma add_copy_edge_fields [simp]:
  "pt_object_slots (add_copy_edge budget src dst s) = pt_object_slots s"
  "pt_variable_identities (add_copy_edge budget src dst s) = pt_variable_identities s"
  "pt_object_identities (add_copy_edge budget src dst s) = pt_object_identities s"
  "same_tables s (add_copy_edge budget src dst s)"
proof -
  let ?s = "s \<lparr> pt_copy_edges := fm_add src dst (pt_copy_edges s) \<rparr>"
  have "same_tables s ?s" by (simp add: same_tables_def)
  then show "same_tables s (add_copy_edge budget src dst s)"
    using same_tables_trans [of s ?s] by (simp add: add_copy_edge_def Let_def split: option.split)
qed (simp_all add: add_copy_edge_def Let_def split: option.split)

lemma pts_of_None: "fmlookup (pt_sets s) v = None \<Longrightarrow> pts_of s v = {}"
  by (simp add: pts_of_def)

lemma pts_of_Some: "fmlookup (pt_sets s) v = Some objects \<Longrightarrow> pts_of s v = fset objects"
  by (simp add: pts_of_def)

lemma add_copy_edge_grows: "grows_to s (add_copy_edge budget src dst s)"
proof -
  let ?s = "s \<lparr> pt_copy_edges := fm_add src dst (pt_copy_edges s) \<rparr>"
  have frame: "pts_of ?s = pts_of s" "pt_queue ?s = pt_queue s" "pending ?s = pending s"
    by (simp_all add: pts_of_def pending_def fun_eq_iff)
  show ?thesis
  proof (cases "dst \<in> edges_of s src \<or> pts_of s src = {}")
    case True
    moreover have "grows_to s ?s"
      using True frame by (auto simp: grows_to_def same_tables_def edges_of_add)
    moreover have "grows_to ?s (add_copy_edge budget src dst s)"
      by (auto simp: add_copy_edge_def Let_def add_all_grows split: option.split)
    ultimately show ?thesis by (blast intro: grows_to_trans)
  next
    case False
    then obtain objects where objs: "fmlookup (pt_sets s) src = Some objects"
      using pts_of_None by fastforce
    with False have eq: "add_copy_edge budget src dst s = add_all budget dst objects ?s"
      by (simp add: add_copy_edge_def Let_def edges_of_def)
    have g: "grows_to ?s (add_all budget dst objects ?s)" by (rule add_all_grows)
    show ?thesis
      unfolding eq grows_to_def
      using g pts_of_Some [OF objs] pending_add_all [of budget dst objects ?s]
      by (auto simp: grows_to_def frame pts_of_add_all edges_of_add same_tables_def split: if_splits)
  qed
qed

text \<open>The edge that a load or a store through a slot asks for is there.\<close>

definition load_done :: "pt_solver \<Rightarrow> pt_var \<Rightarrow> string \<Rightarrow> object_token \<Rightarrow> bool" where
  "load_done s dst slot obj \<longleftrightarrow>
     (\<exists>w. fmlookup (pt_object_slots s) (obj, slot) = Some w \<and> dst \<in> edges_of s w)"

definition store_done :: "pt_solver \<Rightarrow> pt_var \<Rightarrow> string \<Rightarrow> object_token \<Rightarrow> bool" where
  "store_done s src slot obj \<longleftrightarrow>
     (\<exists>w. fmlookup (pt_object_slots s) (obj, slot) = Some w \<and> w \<in> edges_of s src)"

lemma load_done_grows: "load_done s dst slot obj \<Longrightarrow> grows_to s t \<Longrightarrow> load_done t dst slot obj"
  unfolding load_done_def grows_to_def fm_le_def by blast

lemma store_done_grows: "store_done s src slot obj \<Longrightarrow> grows_to s t \<Longrightarrow> store_done t src slot obj"
  unfolding store_done_def grows_to_def fm_le_def by blast

lemma link_from_slot_grows:
  assumes "link_from_slot sha256 budget slot dst obj s = Some t"
  shows "grows_to s t \<and> load_done t dst slot obj"
proof -
  obtain var u where u: "object_slot sha256 budget obj slot s = Some (var, u)"
    and t: "t = add_copy_edge budget var dst u"
    using assms by (auto simp: link_from_slot_def)
  show ?thesis
    using object_slot_grows [OF u] add_copy_edge_grows grows_to_trans
    by (auto simp: t load_done_def edges_of_copy_edge)
qed

lemma link_to_slot_grows:
  assumes "link_to_slot sha256 budget slot src obj s = Some t"
  shows "grows_to s t \<and> store_done t src slot obj"
proof -
  obtain var u where u: "object_slot sha256 budget obj slot s = Some (var, u)"
    and t: "t = add_copy_edge budget src var u"
    using assms by (auto simp: link_to_slot_def)
  show ?thesis
    using object_slot_grows [OF u] add_copy_edge_grows grows_to_trans
    by (auto simp: t store_done_def edges_of_copy_edge)
qed

text \<open>Loops whose steps grow the state.\<close>

lemma grows_loop:
  assumes "try_fold f xs s = Some t"
    and "\<And>x s t. x \<in> set xs \<Longrightarrow> f x s = Some t \<Longrightarrow> grows_to s t"
  shows "grows_to s t"
  by (rule try_fold_relation [OF assms grows_to_refl grows_to_trans])

lemma grows_loop_establishes:
  assumes "try_fold f xs s = Some t" and "x \<in> set xs"
    and "\<And>x s t. x \<in> set xs \<Longrightarrow> f x s = Some t \<Longrightarrow> grows_to s t \<and> Q x t"
    and "\<And>x s t. Q x s \<Longrightarrow> grows_to s t \<Longrightarrow> Q x t"
  shows "Q x t"
  by (rule try_fold_establishes [where R = grows_to, OF assms(1-3) grows_to_refl grows_to_trans assms(4)])

text \<open>A loop over a table and the objects of a delta, for any link that establishes \<open>fin\<close>.\<close>

lemma table_loop_grows:
  assumes "try_fold (\<lambda>(slot, d). try_fold (link slot d) (bt_elems delta)) table s = Some t"
    and link: "\<And>slot d obj s t. link slot d obj s = Some t \<Longrightarrow> grows_to s t \<and> fin t d slot obj"
    and keep: "\<And>s t d slot obj. fin s d slot obj \<Longrightarrow> grows_to s t \<Longrightarrow> fin t d slot obj"
  shows "grows_to s t" and "(slot, d) \<in> set table \<Longrightarrow> obj |\<in>| delta \<Longrightarrow> fin t d slot obj"
proof -
  let ?Q = "\<lambda>p t. \<forall>obj. obj |\<in>| delta \<longrightarrow> fin t (snd p) (fst p) obj"
  have inner: "grows_to s t \<and> ?Q p t"
    if "(case p of (slot, d) \<Rightarrow> try_fold (link slot d) (bt_elems delta)) s = Some t" for p s t
  proof -
    have run: "try_fold (link (fst p) (snd p)) (bt_elems delta) s = Some t"
      using that by (simp add: case_prod_beta)
    have "grows_to s t" by (rule grows_loop [OF run]) (simp add: link)
    moreover have "fin t (snd p) (fst p) obj" if "obj |\<in>| delta" for obj
      by (rule grows_loop_establishes [OF run, where Q = "\<lambda>obj t. fin t (snd p) (fst p) obj"])
         (use that link keep in simp_all)
    ultimately show ?thesis by blast
  qed
  show "grows_to s t" by (rule grows_loop [OF assms(1)]) (use inner in blast)
  assume "(slot, d) \<in> set table" "obj |\<in>| delta"
  moreover have "?Q p t" if "p \<in> set table" for p
    by (rule grows_loop_establishes [OF assms(1) that, where Q = ?Q]) (use inner keep in blast)+
  ultimately show "fin t d slot obj" by (metis fst_conv snd_conv)
qed

lemma propagate_copy_grows:
  "grows_to s (propagate_copy budget var delta s)"
  "v \<in> edges_of s var \<Longrightarrow> obj |\<in>| delta \<Longrightarrow>
     pt_budget_exceeded (propagate_copy budget var delta s) \<or>
     obj \<in> pts_of (propagate_copy budget var delta s) v"
proof -
  let ?dsts = "bt_elems (fm_get_or {||} (pt_copy_edges s) var)"
  have run: "try_fold (\<lambda>dst s. Some (add_all budget dst delta s)) ?dsts s =
      Some (propagate_copy budget var delta s)"
    by (simp add: try_fold_total propagate_copy_def)
  show "grows_to s (propagate_copy budget var delta s)"
    by (rule grows_loop [OF run]) (auto simp: add_all_grows)
  assume v: "v \<in> edges_of s var" and "obj |\<in>| delta"
  have "pt_budget_exceeded (propagate_copy budget var delta s) \<or>
      fset delta \<subseteq> pts_of (propagate_copy budget var delta s) v"
  proof (rule grows_loop_establishes
      [OF run, where Q = "\<lambda>v s. pt_budget_exceeded s \<or> fset delta \<subseteq> pts_of s v"])
    show "v \<in> set ?dsts" using v by (simp add: edges_of_def)
    show "grows_to a b \<and> (pt_budget_exceeded b \<or> fset delta \<subseteq> pts_of b x)"
      if "Some (add_all budget x delta a) = Some b" for x a b
      using that add_all_grows by (auto simp: pts_of_add_all)
    show "pt_budget_exceeded b \<or> fset delta \<subseteq> pts_of b x"
      if "pt_budget_exceeded a \<or> fset delta \<subseteq> pts_of a x" "grows_to a b" for x a b
      using that unfolding grows_to_def by blast
  qed
  then show "pt_budget_exceeded (propagate_copy budget var delta s) \<or>
      obj \<in> pts_of (propagate_copy budget var delta s) v"
    using \<open>obj |\<in>| delta\<close> by auto
qed

lemma propagate_field_load_grows:
  assumes "propagate_field_load sha256 budget var delta s = Some t"
  shows "grows_to s t"
    and "(slot, d) |\<in>| fm_get_or {||} (pt_field_loads s) var \<Longrightarrow> obj |\<in>| delta \<Longrightarrow> load_done t d slot obj"
  using table_loop_grows [OF assms [unfolded propagate_field_load_def], of load_done]
  by (simp_all add: link_from_slot_grows load_done_grows)

lemma propagate_field_store_grows:
  assumes "propagate_field_store sha256 budget var delta s = Some t"
  shows "grows_to s t"
    and "(slot, d) |\<in>| fm_get_or {||} (pt_field_stores s) var \<Longrightarrow> obj |\<in>| delta \<Longrightarrow> store_done t d slot obj"
  using table_loop_grows [OF assms [unfolded propagate_field_store_def], of store_done]
  by (simp_all add: link_to_slot_grows store_done_grows)

text \<open>The loops over plain loads and stores are the same loop over the slot \<open>$contents\<close>.\<close>

lemma contents_loop:
  "try_fold (\<lambda>d. f ''$contents'' d) xs s =
     try_fold (\<lambda>(slot, d). f slot d) (map (Pair ''$contents'') xs) s"
  by (induction xs arbitrary: s) (auto intro!: Option.bind_cong)

lemma propagate_load_grows:
  assumes "propagate_load sha256 budget var delta s = Some t"
  shows "grows_to s t"
    and "d |\<in>| fm_get_or {||} (pt_loads s) var \<Longrightarrow> obj |\<in>| delta \<Longrightarrow> load_done t d ''$contents'' obj"
proof -
  have run: "try_fold (\<lambda>(slot, d). try_fold (link_from_slot sha256 budget slot d) (bt_elems delta))
      (map (Pair ''$contents'') (bt_elems (fm_get_or {||} (pt_loads s) var))) s = Some t"
    using assms unfolding propagate_load_def
      contents_loop [of "\<lambda>slot d. try_fold (link_from_slot sha256 budget slot d) (bt_elems delta)"] .
  show "grows_to s t"
    and "d |\<in>| fm_get_or {||} (pt_loads s) var \<Longrightarrow> obj |\<in>| delta \<Longrightarrow> load_done t d ''$contents'' obj"
    using table_loop_grows [OF run, of load_done] by (simp_all add: link_from_slot_grows load_done_grows)
qed

lemma propagate_store_grows:
  assumes "propagate_store sha256 budget var delta s = Some t"
  shows "grows_to s t"
    and "d |\<in>| fm_get_or {||} (pt_stores s) var \<Longrightarrow> obj |\<in>| delta \<Longrightarrow> store_done t d ''$contents'' obj"
proof -
  have run: "try_fold (\<lambda>(slot, d). try_fold (link_to_slot sha256 budget slot d) (bt_elems delta))
      (map (Pair ''$contents'') (bt_elems (fm_get_or {||} (pt_stores s) var))) s = Some t"
    using assms unfolding propagate_store_def
      contents_loop [of "\<lambda>slot d. try_fold (link_to_slot sha256 budget slot d) (bt_elems delta)"] .
  show "grows_to s t"
    and "d |\<in>| fm_get_or {||} (pt_stores s) var \<Longrightarrow> obj |\<in>| delta \<Longrightarrow> store_done t d ''$contents'' obj"
    using table_loop_grows [OF run, of store_done] by (simp_all add: link_to_slot_grows store_done_grows)
qed

text \<open>The tables of loads and stores, with the slot each entry goes through.\<close>

definition loads_of :: "pt_solver \<Rightarrow> pt_var \<Rightarrow> (string \<times> pt_var) set" where
  "loads_of s v = Pair ''$contents'' ` fset (fm_get_or {||} (pt_loads s) v) \<union>
     fset (fm_get_or {||} (pt_field_loads s) v)"

definition stores_of :: "pt_solver \<Rightarrow> pt_var \<Rightarrow> (string \<times> pt_var) set" where
  "stores_of s v = Pair ''$contents'' ` fset (fm_get_or {||} (pt_stores s) v) \<union>
     fset (fm_get_or {||} (pt_field_stores s) v)"

lemma same_tables_of:
  "same_tables s t \<Longrightarrow> loads_of t = loads_of s" "same_tables s t \<Longrightarrow> stores_of t = stores_of s"
  by (simp_all add: same_tables_def loads_of_def stores_of_def fun_eq_iff)

text \<open>What processing one queue entry achieves.\<close>

lemma propagate_all_grows:
  assumes "propagate_all sha256 budget var delta s = Some t"
  shows "grows_to s t"
    and "v \<in> edges_of s var \<Longrightarrow> obj |\<in>| delta \<Longrightarrow> pt_budget_exceeded t \<or> obj \<in> pts_of t v"
    and "(slot, v) \<in> loads_of s var \<Longrightarrow> obj |\<in>| delta \<Longrightarrow> load_done t v slot obj"
    and "(slot, v) \<in> stores_of s var \<Longrightarrow> obj |\<in>| delta \<Longrightarrow> store_done t v slot obj"
proof -
  obtain a b c where a: "propagate_load sha256 budget var delta (propagate_copy budget var delta s) = Some a"
    and b: "propagate_store sha256 budget var delta a = Some b"
    and c: "propagate_field_load sha256 budget var delta b = Some c"
    and t: "propagate_field_store sha256 budget var delta c = Some t"
    using assms by (auto simp: propagate_all_def bind_eq_Some_conv)
  let ?p = "propagate_copy budget var delta s"
  note g0 = propagate_copy_grows(1) [of s budget var delta] and g1 = propagate_load_grows(1) [OF a]
    and g2 = propagate_store_grows(1) [OF b] and g3 = propagate_field_load_grows(1) [OF c]
    and g4 = propagate_field_store_grows(1) [OF t]
  have pt: "grows_to ?p t" and bt: "grows_to b t" and at: "grows_to a t"
    using g1 g2 g3 g4 grows_to_trans by blast+
  show "grows_to s t" using g0 pt by (rule grows_to_trans)
  have tabs: "same_tables s ?p" "same_tables s a" "same_tables s b" "same_tables s c"
    using g0 g1 g2 g3 by (simp_all add: grows_to_def same_tables_def)
  show "pt_budget_exceeded t \<or> obj \<in> pts_of t v" if "v \<in> edges_of s var" "obj |\<in>| delta"
    using propagate_copy_grows(2) [OF that] pt unfolding grows_to_def by blast
  show "load_done t v slot obj" if "(slot, v) \<in> loads_of s var" "obj |\<in>| delta"
    using that tabs propagate_load_grows(2) [OF a, of v obj] propagate_field_load_grows(2) [OF c, of slot v obj]
      load_done_grows [OF _ at] load_done_grows [OF _ g4]
    by (auto simp: loads_of_def same_tables_def)
  show "store_done t v slot obj" if "(slot, v) \<in> stores_of s var" "obj |\<in>| delta"
    using that tabs propagate_store_grows(2) [OF b, of v obj] propagate_field_store_grows(2) [OF t, of slot v obj]
      store_done_grows [OF _ bt]
    by (auto simp: stores_of_def same_tables_def)
qed


section \<open>The loop\<close>

lemma step_budget_True:
  "step_budget_ok budget s = (True, t) \<Longrightarrow>
     t = s \<lparr> pt_steps := Suc (pt_steps s) \<rparr> \<and> pt_steps s < max_steps budget"
  by (auto simp: step_budget_ok_def Let_def split: if_splits)

lemma step_budget_False:
  "step_budget_ok budget s = (False, t) \<Longrightarrow>
     t = pt_exceed SolverMaxSteps (s \<lparr> pt_steps := Suc (pt_steps s) \<rparr>) \<and> max_steps budget \<le> pt_steps s"
  by (auto simp: step_budget_ok_def Let_def split: if_splits)

lemma propagate_all_steps: "propagate_all sha256 budget var delta s = Some t \<Longrightarrow> pt_steps t = pt_steps s"
  using propagate_all_grows(1) by (simp add: grows_to_def same_tables_def)

function (sequential) pt_loop ::
  "(string \<Rightarrow> 8 word list) \<Rightarrow> points_to_budget \<Rightarrow> pt_solver \<Rightarrow> pt_solver option" where
  "pt_loop sha256 budget s =
     (case pt_queue s of
        [] \<Rightarrow> Some s
      | (var, delta) # queue \<Rightarrow>
          (case step_budget_ok budget (s \<lparr> pt_queue := queue \<rparr>) of
             (False, s') \<Rightarrow> Some s'
           | (True, s') \<Rightarrow>
               (case propagate_all sha256 budget var delta s' of
                  None \<Rightarrow> None
                | Some s'' \<Rightarrow> pt_loop sha256 budget s'')))"
  by pat_completeness auto
termination
  by (relation "measure (\<lambda>(sha256, budget, s). max_steps budget - pt_steps s)")
     (auto dest!: step_budget_True [OF sym] propagate_all_steps)

declare pt_loop.simps [simp del]

text \<open>A run of the loop: it ends with an empty queue, or stops at the step budget.\<close>

lemma pt_loop_run_induct [consumes 1, case_names finish stop step]:
  assumes "pt_loop sha256 budget s = Some t"
    and finish: "\<And>s. pt_queue s = [] \<Longrightarrow> P s s"
    and stop: "\<And>s s' var delta queue. pt_queue s = (var, delta) # queue \<Longrightarrow>
      step_budget_ok budget (s \<lparr> pt_queue := queue \<rparr>) = (False, s') \<Longrightarrow> P s s'"
    and step: "\<And>s s' u t var delta queue. pt_queue s = (var, delta) # queue \<Longrightarrow>
      step_budget_ok budget (s \<lparr> pt_queue := queue \<rparr>) = (True, s') \<Longrightarrow>
      propagate_all sha256 budget var delta s' = Some u \<Longrightarrow> pt_loop sha256 budget u = Some t \<Longrightarrow>
      P u t \<Longrightarrow> P s t"
  shows "P s t"
  using assms(1)
proof (induction "max_steps budget - pt_steps s" arbitrary: s rule: less_induct)
  case less
  show ?case
  proof (cases "pt_queue s")
    case Nil
    with less.prems finish show ?thesis by (simp add: pt_loop.simps [of _ _ s])
  next
    case (Cons p queue)
    obtain var delta where p: "p = (var, delta)" by force
    obtain ok s' where budget: "step_budget_ok budget (s \<lparr> pt_queue := queue \<rparr>) = (ok, s')" by force
    show ?thesis
    proof (cases ok)
      case False
      with less.prems Cons p budget stop [of s] show ?thesis by (simp add: pt_loop.simps [of _ _ s])
    next
      case True
      with budget have ok: "step_budget_ok budget (s \<lparr> pt_queue := queue \<rparr>) = (True, s')" by simp
      with less.prems Cons p obtain u where
        u: "propagate_all sha256 budget var delta s' = Some u" "pt_loop sha256 budget u = Some t"
        by (auto simp: pt_loop.simps [of _ _ s] split: option.splits)
      have "max_steps budget - pt_steps u < max_steps budget - pt_steps s"
        using step_budget_True [OF ok] propagate_all_steps [OF u(1)] by auto
      from step [OF Cons [unfolded p] ok u less.hyps [OF this u(2)]] show ?thesis .
    qed
  qed
qed

definition points_to_budget_status_label :: "points_to_budget_status \<Rightarrow> string" where
  "points_to_budget_status_label status =
     (case status of
        WithinBudget \<Rightarrow> ''within_budget''
      | BudgetExceeded \<Rightarrow> ''budget_exceeded''
      | NotRun \<Rightarrow> ''not_run'')"

definition set_fact ::
  "(string \<Rightarrow> 8 word list) \<Rightarrow> pt_solver \<Rightarrow> pt_var \<times> object_token fset \<Rightarrow>
     points_to_set_fact list \<times> interner_state \<Rightarrow> (points_to_set_fact list \<times> interner_state) option" where
  "set_fact sha256 s entry acc = do {
     let exceeded = pt_budget_exceeded s;
     let budget_status = (if exceeded then BudgetExceeded else WithinBudget);
     identity \<leftarrow> semantic_variable_identity s (fst entry);
     (key, interner) \<leftarrow> stable_key_from_parts sha256 Ff_PointsToSet
        [(''variable'', identity), (''budget'', points_to_budget_status_label budget_status)] (snd acc);
     Some (fst acc @
       [\<lparr> ps_id = 0, ps_variable = fst entry, ps_objects = bt_elems (snd entry),
          ps_status = (if exceeded then Pts_BudgetExceeded else Pts_Present),
          ps_precision = (if exceeded then Ptp_Unknown else Ptp_FlowInsensitive),
          ps_budget = budget_status, ps_stable_key = key \<rparr>], interner)
   }"

definition to_result ::
  "(string \<Rightarrow> 8 word list) \<Rightarrow> pt_solver \<Rightarrow> interner_state \<Rightarrow>
     (points_to_solve_result \<times> interner_state) option" where
  "to_result sha256 s interner =
     map_option (\<lambda>(sets, interner').
         (\<lparr> sr_sets = sets,
            sr_budget_status = (if pt_budget_exceeded s then BudgetExceeded else WithinBudget),
            sr_budget_reasons = pt_budget_reasons s \<rparr>, interner'))
       (try_fold (set_fact sha256 s) (bt_entries (pt_sets s)) ([], interner))"

definition pt_solve ::
  "(string \<Rightarrow> 8 word list) \<Rightarrow> interner_state \<Rightarrow> points_to_constraint_fact list \<Rightarrow> points_to_budget \<Rightarrow>
     pt_solver option" where
  "pt_solve sha256 interner constraints budget =
     Option.bind (pt_initialize sha256 interner budget constraints pt_new) (pt_loop sha256 budget)"

definition solve_points_to ::
  "(string \<Rightarrow> 8 word list) \<Rightarrow> interner_state \<Rightarrow> points_to_constraint_fact list \<Rightarrow> points_to_budget \<Rightarrow>
     (points_to_solve_result \<times> interner_state) option" where
  "solve_points_to sha256 interner constraints budget =
     Option.bind (pt_solve sha256 interner constraints budget) (\<lambda>s. to_result sha256 s interner)"


section \<open>Completeness: a run within budget leaves nothing to propagate\<close>

text \<open>
  Every edge, load and store is satisfied for every member of its source, except for the members that
  are still queued and those in \<open>P\<close>.
\<close>

definition closed_except :: "(pt_var \<Rightarrow> object_token \<Rightarrow> bool) \<Rightarrow> pt_solver \<Rightarrow> bool" where
  "closed_except P s \<longleftrightarrow>
     (\<forall>u obj. obj \<in> pts_of s u \<longrightarrow> pending s u obj \<or> P u obj \<or>
        (\<forall>v \<in> edges_of s u. obj \<in> pts_of s v) \<and>
        (\<forall>(slot, v) \<in> loads_of s u. load_done s v slot obj) \<and>
        (\<forall>(slot, v) \<in> stores_of s u. store_done s v slot obj))"

abbreviation closed :: "pt_solver \<Rightarrow> bool" where
  "closed \<equiv> closed_except (\<lambda>_ _. False)"

lemma closed_grows:
  assumes "closed_except P s" and g: "grows_to s t" and ok: "\<not> pt_budget_exceeded t"
  shows "closed_except P t"
  unfolding closed_except_def
proof (intro allI impI)
  fix u obj assume t: "obj \<in> pts_of t u"
  show "pending t u obj \<or> P u obj \<or> (\<forall>v \<in> edges_of t u. obj \<in> pts_of t v) \<and>
      (\<forall>(slot, v) \<in> loads_of t u. load_done t v slot obj) \<and>
      (\<forall>(slot, v) \<in> stores_of t u. store_done t v slot obj)"
  proof (cases "pending t u obj \<or> P u obj")
    case False
    with t g ok have "obj \<in> pts_of s u" unfolding grows_to_def by blast
    moreover have "\<not> pending s u obj" using False g pending_mono unfolding grows_to_def by blast
    ultimately have s: "\<forall>v \<in> edges_of s u. obj \<in> pts_of s v"
      "\<forall>(slot, v) \<in> loads_of s u. load_done s v slot obj"
      "\<forall>(slot, v) \<in> stores_of s u. store_done s v slot obj"
      using assms(1) False unfolding closed_except_def by blast+
    have "\<forall>v \<in> edges_of t u. obj \<in> pts_of t v"
      using s(1) g ok False t unfolding grows_to_def by blast
    moreover have "loads_of t = loads_of s" "stores_of t = stores_of s"
      using g by (simp_all add: grows_to_def same_tables_of)
    ultimately show ?thesis using s(2,3) load_done_grows [OF _ g] store_done_grows [OF _ g] by auto
  qed blast
qed

lemma closed_step:
  assumes "closed s" and "pt_queue s = (var, delta) # queue"
    and step: "step_budget_ok budget (s \<lparr> pt_queue := queue \<rparr>) = (True, s')"
    and run: "propagate_all sha256 budget var delta s' = Some t" and ok: "\<not> pt_budget_exceeded t"
  shows "closed t"
proof -
  let ?P = "\<lambda>u obj. u = var \<and> obj |\<in>| delta"
  have s': "s' = s \<lparr> pt_queue := queue, pt_steps := Suc (pt_steps s) \<rparr>"
    using step_budget_True [OF step] by simp
  have "pts_of s' = pts_of s" "edges_of s' = edges_of s" "loads_of s' = loads_of s" "stores_of s' = stores_of s"
    "load_done s' = load_done s" "store_done s' = store_done s"
    by (simp_all add: s' pts_of_def edges_of_def loads_of_def stores_of_def load_done_def store_done_def fun_eq_iff)
  moreover have "pending s u obj \<Longrightarrow> pending s' u obj \<or> ?P u obj" for u obj
    using assms(2) by (auto simp: s' pending_def)
  ultimately have "closed_except ?P s'"
    using assms(1) unfolding closed_except_def by metis
  note g = propagate_all_grows [OF run]
  from closed_grows [OF \<open>closed_except ?P s'\<close> g(1) ok] have ct: "closed_except ?P t" .
  have "loads_of t = loads_of s'" "stores_of t = stores_of s'"
    using g(1) by (simp_all add: grows_to_def same_tables_of)
  moreover have "obj \<in> pts_of t v \<or> pending t var obj"
    if "obj |\<in>| delta" "v \<in> edges_of t var" "obj \<in> pts_of t var" for obj v
    using g(1) g(2) [OF _ that(1), of v] that ok unfolding grows_to_def by blast
  ultimately have "pending t var obj \<or> (\<forall>v \<in> edges_of t var. obj \<in> pts_of t v) \<and>
      (\<forall>(slot, v) \<in> loads_of t var. load_done t v slot obj) \<and>
      (\<forall>(slot, v) \<in> stores_of t var. store_done t v slot obj)"
    if "obj |\<in>| delta" "obj \<in> pts_of t var" for obj
    using g(3,4) [OF _ that(1)] that by auto
  then show "closed t" using ct unfolding closed_except_def by blast
qed

lemma exceeded_step:
  assumes "pt_budget_exceeded s" "step_budget_ok budget (s \<lparr> pt_queue := queue \<rparr>) = (True, s')"
    "propagate_all sha256 budget var delta s' = Some t"
  shows "pt_budget_exceeded t"
  using assms propagate_all_grows(1) [OF assms(3)] step_budget_True [OF assms(2)]
  by (simp add: grows_to_def)

lemma pt_loop_exceeded:
  "pt_loop sha256 budget s = Some t \<Longrightarrow> pt_budget_exceeded s \<Longrightarrow> pt_budget_exceeded t"
proof (induction rule: pt_loop_run_induct)
  case (stop s s' var delta queue)
  then show ?case by (auto dest: step_budget_False simp: pt_exceed_def)
qed (auto dest: exceeded_step)

lemma pt_loop_closed:
  "pt_loop sha256 budget s = Some t \<Longrightarrow> closed s \<Longrightarrow> \<not> pt_budget_exceeded t \<Longrightarrow>
   closed t \<and> pt_queue t = []"
proof (induction rule: pt_loop_run_induct)
  case (stop s s' var delta queue)
  then show ?case by (auto dest!: step_budget_False simp: pt_exceed_def)
next
  case (step s s' u t var delta queue)
  have "\<not> pt_budget_exceeded u" using pt_loop_exceeded [OF step(4)] step.prems(2) by blast
  with step show ?case by (blast intro: closed_step)
qed simp


section \<open>The constraints\<close>

text \<open>What a constraint contributes: an object, a copy, or a load or store through a slot.\<close>

fun origin_of :: "points_to_constraint_kind \<Rightarrow> (pt_var \<times> object_token) option" where
  "origin_of (AddressOf dst object) = Some (dst, object)"
| "origin_of (CallReturn dst value) = map_option (Pair dst) (value_fact_object value)"
| "origin_of _ = None"

fun copy_of :: "points_to_constraint_kind \<Rightarrow> (pt_var \<times> pt_var) option" where
  "copy_of (Copy dst src) = Some (src, dst)"
| "copy_of (SummaryFlow dst src _) = Some (src, dst)"
| "copy_of _ = None"

fun load_of :: "points_to_constraint_kind \<Rightarrow> (pt_var \<times> string \<times> pt_var) option" where
  "load_of (Load dst pointer) = Some (pointer, ''$contents'', dst)"
| "load_of (FieldLoad dst base field) = Some (base, field, dst)"
| "load_of (ElementLoad dst base index) = Some (base, ''['' @ index @ '']'', dst)"
| "load_of _ = None"

fun store_of :: "points_to_constraint_kind \<Rightarrow> (pt_var \<times> string \<times> pt_var) option" where
  "store_of (Store pointer src) = Some (pointer, ''$contents'', src)"
| "store_of (FieldStore base field src) = Some (base, field, src)"
| "store_of (ElementStore base index src) = Some (base, ''['' @ index @ '']'', src)"
| "store_of _ = None"

text \<open>
  The solver's memory of a constraint: it only improves as sets, edges and tables grow.
\<close>

definition keeps :: "pt_solver \<Rightarrow> pt_solver \<Rightarrow> bool" where
  "keeps s t \<longleftrightarrow>
     (\<forall>v. pts_of s v \<subseteq> pts_of t v) \<and> (\<forall>v. edges_of s v \<subseteq> edges_of t v) \<and>
     (\<forall>v. loads_of s v \<subseteq> loads_of t v) \<and> (\<forall>v. stores_of s v \<subseteq> stores_of t v) \<and>
     (pt_budget_exceeded s \<longrightarrow> pt_budget_exceeded t) \<and>
     fm_le (pt_object_slots s) (pt_object_slots t)"

definition recorded :: "pt_solver \<Rightarrow> points_to_constraint_kind \<Rightarrow> bool" where
  "recorded s k \<longleftrightarrow>
     (\<forall>v obj. origin_of k = Some (v, obj) \<longrightarrow> pt_budget_exceeded s \<or> obj \<in> pts_of s v) \<and>
     (\<forall>u v. copy_of k = Some (u, v) \<longrightarrow> v \<in> edges_of s u) \<and>
     (\<forall>u slot v. load_of k = Some (u, slot, v) \<longrightarrow> (slot, v) \<in> loads_of s u) \<and>
     (\<forall>u slot v. store_of k = Some (u, slot, v) \<longrightarrow> (slot, v) \<in> stores_of s u)"

lemma keeps_refl [simp]: "keeps s s"
  by (simp add: keeps_def)

lemma keeps_trans: "keeps s t \<Longrightarrow> keeps t u \<Longrightarrow> keeps s u"
  unfolding keeps_def by (meson fm_le_trans subset_trans)

lemma recorded_keeps: "recorded s k \<Longrightarrow> keeps s t \<Longrightarrow> recorded t k"
  unfolding recorded_def keeps_def by blast

lemma grows_keeps: "grows_to s t \<Longrightarrow> keeps s t"
  by (auto simp: grows_to_def keeps_def same_tables_of)

lemma budget_step_keeps: "step_budget_ok budget (s \<lparr> pt_queue := queue \<rparr>) = (ok, t) \<Longrightarrow> keeps s t"
  by (cases ok) (auto dest!: step_budget_True step_budget_False simp: keeps_def pt_exceed_def
      pts_of_def edges_of_def loads_of_def stores_of_def)

lemma pt_loop_keeps: "pt_loop sha256 budget s = Some t \<Longrightarrow> keeps s t"
proof (induction rule: pt_loop_run_induct)
  case (step s s' u t var delta queue)
  show ?case
    by (rule keeps_trans [OF budget_step_keeps [OF step(2)]
          keeps_trans [OF grows_keeps [OF propagate_all_grows(1) [OF step(3)]] step.IH]])
qed (auto dest: budget_step_keeps)

text \<open>Before the loop everything that was added is still queued.\<close>

definition inits_to :: "pt_solver \<Rightarrow> pt_solver \<Rightarrow> bool" where
  "inits_to s t \<longleftrightarrow>
     keeps s t \<and> set (pt_queue s) \<subseteq> set (pt_queue t) \<and>
     (\<not> pt_budget_exceeded t \<longrightarrow> (\<forall>v obj. obj \<in> pts_of t v \<longrightarrow> obj \<in> pts_of s v \<or> pending t v obj))"

lemma inits_to_refl [simp]: "inits_to s s"
  by (simp add: inits_to_def)

lemma inits_to_trans: "inits_to s t \<Longrightarrow> inits_to t u \<Longrightarrow> inits_to s u"
  unfolding inits_to_def keeps_def by (meson fm_le_trans pending_mono subset_trans)

lemma recorded_inits: "recorded s k \<Longrightarrow> inits_to s t \<Longrightarrow> recorded t k"
  by (simp add: inits_to_def recorded_keeps)

lemma grows_inits: "grows_to s t \<Longrightarrow> inits_to s t"
  using grows_keeps by (auto simp: inits_to_def grows_to_def)

lemma same_sets_inits:
  assumes "pt_sets t = pt_sets s" "pt_copy_edges t = pt_copy_edges s" "pt_queue t = pt_queue s"
    "pt_object_slots t = pt_object_slots s" "pt_budget_exceeded t = pt_budget_exceeded s"
    "\<And>v. loads_of s v \<subseteq> loads_of t v" "\<And>v. stores_of s v \<subseteq> stores_of t v"
  shows "inits_to s t"
  using assms by (auto simp: inits_to_def keeps_def pts_of_def edges_of_def)

lemmas table_simps = loads_of_def stores_of_def fm_get_or_add

lemma record_kind_inits: "record_kind_identities sha256 key k s = Some t \<Longrightarrow> inits_to s t"
  by (cases k)
     (auto simp: record_variable_identity_def record_object_identity_def table_simps intro!: same_sets_inits)

lemma copy_edge_recorded: "dst \<in> edges_of (add_copy_edge budget src dst s) src"
  by (simp add: edges_of_copy_edge)

lemma add_object_inits:
  "inits_to s (add_object budget dst obj s)"
  "\<not> pt_budget_exceeded (add_object budget dst obj s) \<Longrightarrow> obj \<in> pts_of (add_object budget dst obj s) dst"
  by (auto simp: add_object_def grows_inits add_all_grows pts_of_add_all)

lemma add_constraint_inits:
  assumes "add_constraint budget k s = Some t"
  shows "inits_to s t \<and> recorded t k"
proof (cases k)
  case (AddressOf dst object)
  with assms show ?thesis using add_object_inits(2)
    by (force simp: add_object_inits(1) recorded_def)
next
  case (CallReturn dst val)
  with assms show ?thesis using add_object_inits(2)
    by (force simp: add_object_inits(1) recorded_def)
next
  case (Copy dst src)
  with assms show ?thesis by (auto simp: grows_inits add_copy_edge_grows recorded_def copy_edge_recorded)
next
  case (SummaryFlow dst src key)
  with assms show ?thesis by (auto simp: grows_inits add_copy_edge_grows recorded_def copy_edge_recorded)
qed (use assms in \<open>auto simp: recorded_def table_simps index_slot_def intro!: same_sets_inits\<close>)

lemma init_constraint_inits:
  "init_constraint sha256 interner budget c s = Some t \<Longrightarrow> inits_to s t \<and> recorded t (pc_kind c)"
  using record_kind_inits add_constraint_inits inits_to_trans
  by (fastforce simp: init_constraint_def record_constraint_identities_def bind_eq_Some_conv)

lemma replay_inits: "inits_to s (replay_copy_edges budget edge s)"
proof (cases "fmlookup (pt_sets s) (fst edge)")
  case (Some objects)
  have "inits_to s (fold (\<lambda>dst. add_all budget dst objects) (bt_elems (snd edge)) s)"
    by (rule try_fold_relation [OF try_fold_total])
       (auto simp: grows_inits add_all_grows intro: inits_to_trans)
  with Some show ?thesis by (simp add: replay_copy_edges_def)
qed (simp add: replay_copy_edges_def)

lemma pt_initialize_inits:
  assumes "pt_initialize sha256 interner budget cs s = Some t"
  shows "inits_to s t" and "c \<in> set cs \<Longrightarrow> recorded t (pc_kind c)"
proof -
  obtain u where u: "try_fold (init_constraint sha256 interner budget) cs s = Some u"
    and t: "t = fold (replay_copy_edges budget) (bt_entries (pt_copy_edges u)) u"
    using assms by (auto simp: pt_initialize_def bind_eq_Some_conv)
  have ut: "inits_to u t"
    unfolding t
    by (rule try_fold_relation [OF try_fold_total]) (auto simp: replay_inits intro: inits_to_trans)
  have "inits_to s u"
    by (rule try_fold_relation [OF u _ inits_to_refl inits_to_trans]) (simp add: init_constraint_inits)
  then show "inits_to s t" using ut by (rule inits_to_trans)
  assume c: "c \<in> set cs"
  have "recorded u (pc_kind c)"
    by (rule try_fold_establishes [where R = inits_to and Q = "\<lambda>c s. recorded s (pc_kind c)",
          OF u c _ inits_to_refl inits_to_trans recorded_inits])
       (simp_all add: init_constraint_inits)
  then show "recorded t (pc_kind c)" using ut by (rule recorded_inits)
qed

text \<open>
  The end of a run within budget: nothing is queued, every constraint is recorded and everything is
  closed.
\<close>

lemma pt_solve_closed:
  assumes "pt_solve sha256 interner cs budget = Some t" and "\<not> pt_budget_exceeded t"
  shows "closed t" and "pt_queue t = []" and "c \<in> set cs \<Longrightarrow> recorded t (pc_kind c)"
proof -
  obtain s where s: "pt_initialize sha256 interner budget cs pt_new = Some s"
    and t: "pt_loop sha256 budget s = Some t"
    using assms(1) by (auto simp: pt_solve_def bind_eq_Some_conv)
  have "\<not> pt_budget_exceeded s" using pt_loop_exceeded [OF t] assms(2) by blast
  moreover have "pts_of pt_new v = {}" for v by (simp add: pts_of_def pt_new_def)
  ultimately have "closed s"
    using pt_initialize_inits(1) [OF s] unfolding inits_to_def closed_except_def by blast
  from pt_loop_closed [OF t this assms(2)] show "closed t" "pt_queue t = []" by simp_all
  show "recorded t (pc_kind c)" if "c \<in> set cs"
    using pt_initialize_inits(2) [OF s that] pt_loop_keeps [OF t] by (rule recorded_keeps)
qed


section \<open>The least solution\<close>

datatype pt_node = VarNode pt_var | SlotNode object_token string

inductive least_pts :: "points_to_constraint_kind set \<Rightarrow> pt_node \<Rightarrow> object_token \<Rightarrow> bool"
  for K :: "points_to_constraint_kind set" where
  origin: "k \<in> K \<Longrightarrow> origin_of k = Some (v, obj) \<Longrightarrow> least_pts K (VarNode v) obj"
| copy: "k \<in> K \<Longrightarrow> copy_of k = Some (u, v) \<Longrightarrow> least_pts K (VarNode u) obj \<Longrightarrow>
    least_pts K (VarNode v) obj"
| load: "k \<in> K \<Longrightarrow> load_of k = Some (u, slot, v) \<Longrightarrow> least_pts K (VarNode u) base \<Longrightarrow>
    least_pts K (SlotNode base slot) obj \<Longrightarrow> least_pts K (VarNode v) obj"
| store: "k \<in> K \<Longrightarrow> store_of k = Some (u, slot, v) \<Longrightarrow> least_pts K (VarNode u) base \<Longrightarrow>
    least_pts K (VarNode v) obj \<Longrightarrow> least_pts K (SlotNode base slot) obj"

text \<open>The same solution with the slots named by variables, as the solver has it.\<close>

inductive slot_pts ::
  "points_to_constraint_kind set \<Rightarrow> (object_token \<times> string, pt_var) fmap \<Rightarrow> pt_var \<Rightarrow> object_token \<Rightarrow> bool"
  for K :: "points_to_constraint_kind set" and slots :: "(object_token \<times> string, pt_var) fmap" where
  s_origin: "k \<in> K \<Longrightarrow> origin_of k = Some (v, obj) \<Longrightarrow> slot_pts K slots v obj"
| s_copy: "k \<in> K \<Longrightarrow> copy_of k = Some (u, v) \<Longrightarrow> slot_pts K slots u obj \<Longrightarrow> slot_pts K slots v obj"
| s_load: "k \<in> K \<Longrightarrow> load_of k = Some (u, slot, v) \<Longrightarrow> slot_pts K slots u base \<Longrightarrow>
    fmlookup slots (base, slot) = Some w \<Longrightarrow> slot_pts K slots w obj \<Longrightarrow> slot_pts K slots v obj"
| s_store: "k \<in> K \<Longrightarrow> store_of k = Some (u, slot, v) \<Longrightarrow> slot_pts K slots u base \<Longrightarrow>
    fmlookup slots (base, slot) = Some w \<Longrightarrow> slot_pts K slots v obj \<Longrightarrow> slot_pts K slots w obj"

lemma slot_pts_computed:
  assumes closed: "closed t" and "pt_queue t = []" and ok: "\<not> pt_budget_exceeded t"
    and recorded: "\<And>k. k \<in> K \<Longrightarrow> recorded t k"
  shows "slot_pts K (pt_object_slots t) v obj \<Longrightarrow> obj \<in> pts_of t v"
proof (induction rule: slot_pts.induct)
  have sat: "v \<in> edges_of t u \<Longrightarrow> obj \<in> pts_of t v"
    "(slot, v) \<in> loads_of t u \<Longrightarrow> load_done t v slot obj"
    "(slot, v) \<in> stores_of t u \<Longrightarrow> store_done t v slot obj" if "obj \<in> pts_of t u" for u v slot obj
    using closed that assms(2) unfolding closed_except_def pending_def by fastforce+
  {
    case (s_origin k v obj)
    then show ?case using recorded ok unfolding recorded_def by blast
  next
    case (s_copy k u v obj)
    then show ?case using recorded sat(1) unfolding recorded_def by blast
  next
    case (s_load k u slot v base w obj)
    then have "load_done t v slot base" using recorded sat(2) unfolding recorded_def by blast
    with s_load show ?case using sat(1) by (auto simp: load_done_def)
  next
    case (s_store k u slot v base w obj)
    then have "store_done t v slot base" using recorded sat(3) unfolding recorded_def by blast
    with s_store show ?case using sat(1) by (auto simp: store_done_def)
  }
qed


section \<open>Soundness: every member follows from the constraints\<close>

text \<open>
  The invariant of the whole run, relative to any later naming of the slots: members are in the
  solution, edges carry only what the solution has, and the tables hold only constraints.
\<close>

definition sound :: "points_to_constraint_kind set \<Rightarrow> pt_solver \<Rightarrow> bool" where
  "sound K s \<longleftrightarrow>
     (\<forall>slots. fm_le (pt_object_slots s) slots \<longrightarrow>
        (\<forall>v obj. obj \<in> pts_of s v \<longrightarrow> slot_pts K slots v obj) \<and>
        (\<forall>u v obj. v \<in> edges_of s u \<longrightarrow> slot_pts K slots u obj \<longrightarrow> slot_pts K slots v obj)) \<and>
     (\<forall>v obj. pending s v obj \<longrightarrow> obj \<in> pts_of s v) \<and>
     (\<forall>u slot v. (slot, v) \<in> loads_of s u \<longrightarrow> (\<exists>k \<in> K. load_of k = Some (u, slot, v))) \<and>
     (\<forall>u slot v. (slot, v) \<in> stores_of s u \<longrightarrow> (\<exists>k \<in> K. store_of k = Some (u, slot, v)))"

lemma sound_pts: "sound K s \<Longrightarrow> fm_le (pt_object_slots s) slots \<Longrightarrow> obj \<in> pts_of s v \<Longrightarrow> slot_pts K slots v obj"
  unfolding sound_def by blast

lemma sound_edge:
  "sound K s \<Longrightarrow> fm_le (pt_object_slots s) slots \<Longrightarrow> v \<in> edges_of s u \<Longrightarrow> slot_pts K slots u obj \<Longrightarrow>
   slot_pts K slots v obj"
  unfolding sound_def by blast

lemma pending_of_add_all:
  "pending (add_all budget dst objects s) v obj \<Longrightarrow>
     pending s v obj \<or> (\<not> pt_budget_exceeded s \<and> v = dst \<and> obj |\<in>| objects)"
  by (auto simp: add_all_def Let_def pt_exceed_def pending_def split: if_splits)

lemma sound_add_all:
  assumes "sound K s"
    and "\<And>slots obj. fm_le (pt_object_slots s) slots \<Longrightarrow> obj |\<in>| objects \<Longrightarrow> slot_pts K slots dst obj"
  shows "sound K (add_all budget dst objects s)"
proof -
  have "loads_of (add_all budget dst objects s) = loads_of s" "stores_of (add_all budget dst objects s) = stores_of s"
    by (simp_all add: same_tables_of)
  then show ?thesis
    using assms unfolding sound_def
    by (auto simp: pts_of_add_all dest: pending_of_add_all)
qed

lemma sound_copy_edge:
  assumes "sound K s"
    and edge: "\<And>slots obj. fm_le (pt_object_slots s) slots \<Longrightarrow> slot_pts K slots u obj \<Longrightarrow> slot_pts K slots v obj"
  shows "sound K (add_copy_edge budget u v s)"
proof -
  let ?s = "s \<lparr> pt_copy_edges := fm_add u v (pt_copy_edges s) \<rparr>"
  have "pts_of ?s = pts_of s" "pending ?s = pending s" "loads_of ?s = loads_of s" "stores_of ?s = stores_of s"
    by (simp_all add: pts_of_def pending_def loads_of_def stores_of_def fun_eq_iff)
  then have "sound K ?s" using assms unfolding sound_def by (auto simp: edges_of_add)
  moreover have "slot_pts K slots v obj"
    if "fm_le (pt_object_slots ?s) slots" "fmlookup (pt_sets s) u = Some objects" "obj |\<in>| objects"
    for slots objects obj
    using that edge [of slots obj] sound_pts [OF assms(1), of slots obj u] pts_of_Some [of s u] by simp
  ultimately show ?thesis
    by (auto simp: add_copy_edge_def Let_def intro!: sound_add_all split: option.split)
qed

lemma sound_object_slot:
  assumes "object_slot sha256 budget obj slot s = Some (var, t)" and "sound K s"
  shows "sound K t"
  using assms(1)
proof (cases rule: object_slot_cases)
  case known
  with assms(2) show ?thesis by simp
next
  case (fresh i)
  have "loads_of t = loads_of s" "stores_of t = stores_of s" unfolding fresh(3)
    by (simp_all add: same_tables_of)
  moreover have "fm_le (pt_object_slots t) slots \<Longrightarrow> fm_le (pt_object_slots s) slots" for slots
    using fm_le_trans [OF fm_le_fmupd [OF fresh(1)]] by (simp add: fresh(3))
  ultimately show ?thesis
    using assms(2) unfolding sound_def by (auto simp: fresh(3) pending_def)
qed

lemma sound_link_from_slot:
  assumes "link_from_slot sha256 budget slot v obj s = Some t" and "sound K s"
    and "(slot, v) \<in> loads_of s u" and "obj \<in> pts_of s u"
  shows "sound K t"
proof -
  obtain w a where a: "object_slot sha256 budget obj slot s = Some (w, a)" and t: "t = add_copy_edge budget w v a"
    using assms(1) by (auto simp: link_from_slot_def)
  note g = object_slot_grows [OF a]
  obtain k where k: "k \<in> K" "load_of k = Some (u, slot, v)" using assms(2,3) unfolding sound_def by blast
  have "slot_pts K slots v x" if le: "fm_le (pt_object_slots a) slots" and x: "slot_pts K slots w x" for slots x
  proof -
    have "fm_le (pt_object_slots s) slots" using g(1) le fm_le_trans by (auto simp: grows_to_def)
    then have "slot_pts K slots u obj" using sound_pts [OF assms(2)] assms(4) by blast
    then show ?thesis by (rule s_load [OF k _ fm_leD [OF le g(2)] x])
  qed
  then show ?thesis unfolding t by (rule sound_copy_edge [OF sound_object_slot [OF a assms(2)]])
qed

lemma sound_link_to_slot:
  assumes "link_to_slot sha256 budget slot v obj s = Some t" and "sound K s"
    and "(slot, v) \<in> stores_of s u" and "obj \<in> pts_of s u"
  shows "sound K t"
proof -
  obtain w a where a: "object_slot sha256 budget obj slot s = Some (w, a)" and t: "t = add_copy_edge budget v w a"
    using assms(1) by (auto simp: link_to_slot_def)
  note g = object_slot_grows [OF a]
  obtain k where k: "k \<in> K" "store_of k = Some (u, slot, v)" using assms(2,3) unfolding sound_def by blast
  have "slot_pts K slots w x" if le: "fm_le (pt_object_slots a) slots" and x: "slot_pts K slots v x" for slots x
  proof -
    have "fm_le (pt_object_slots s) slots" using g(1) le fm_le_trans by (auto simp: grows_to_def)
    then have "slot_pts K slots u obj" using sound_pts [OF assms(2)] assms(4) by blast
    then show ?thesis by (rule s_store [OF k _ fm_leD [OF le g(2)] x])
  qed
  then show ?thesis unfolding t by (rule sound_copy_edge [OF sound_object_slot [OF a assms(2)]])
qed

text \<open>A loop over a table keeps the invariant when each link does.\<close>

lemma sound_table_loop:
  assumes "try_fold (\<lambda>(slot, d). try_fold (link slot d) (bt_elems delta)) table s = Some t" and "sound K s"
    and "fset delta \<subseteq> pts_of s u"
    and grows: "\<And>slot d obj s t. link slot d obj s = Some t \<Longrightarrow> grows_to s t"
    and link: "\<And>slot d obj a b. link slot d obj a = Some b \<Longrightarrow> (slot, d) \<in> set table \<Longrightarrow>
      sound K a \<Longrightarrow> obj \<in> pts_of a u \<Longrightarrow> same_tables s a \<Longrightarrow> sound K b"
  shows "sound K t"
proof -
  let ?I = "\<lambda>a. sound K a \<and> grows_to s a"
  have step: "?I b" if "link slot d obj a = Some b" "(slot, d) \<in> set table" "obj |\<in>| delta" "?I a"
    for slot d obj a b
  proof -
    have "obj \<in> pts_of a u" "same_tables s a" using that(3,4) assms(3) by (auto simp: grows_to_def)
    then have "sound K b" using link [OF that(1,2)] that(4) by blast
    moreover have "grows_to s b" using that(4) grows [OF that(1)] grows_to_trans by blast
    ultimately show ?thesis by simp
  qed
  have "?I t"
  proof (rule try_fold_invariant [OF assms(1)])
    show "?I s" using assms(2) by simp
    fix p a b
    assume p: "p \<in> set table" and a: "?I a"
      and b: "(case p of (slot, d) \<Rightarrow> try_fold (link slot d) (bt_elems delta)) a = Some b"
    have b: "try_fold (link (fst p) (snd p)) (bt_elems delta) a = Some b" using b by (simp add: case_prod_beta)
    show "?I b"
      by (rule try_fold_invariant [OF b, of ?I, OF a]) (use step [of "fst p" "snd p"] p in auto)
  qed
  then show ?thesis by simp
qed

lemma sound_load_loop:
  assumes "try_fold (\<lambda>(slot, d). try_fold (link_from_slot sha256 budget slot d) (bt_elems delta)) table s = Some t"
    and "sound K s" and "fset delta \<subseteq> pts_of s u" and "set table \<subseteq> loads_of s u"
  shows "sound K t"
proof (rule sound_table_loop [OF assms(1-3)])
  show "grows_to a b" if "link_from_slot sha256 budget slot d obj a = Some b" for slot d obj a b
    using link_from_slot_grows [OF that] by simp
  show "sound K b" if "link_from_slot sha256 budget slot d obj a = Some b" "(slot, d) \<in> set table"
    "sound K a" "obj \<in> pts_of a u" "same_tables s a" for slot d obj a b
    using sound_link_from_slot [OF that(1,3) _ that(4)] same_tables_of(1) [OF that(5)] that(2) assms(4) by auto
qed

lemma sound_store_loop:
  assumes "try_fold (\<lambda>(slot, d). try_fold (link_to_slot sha256 budget slot d) (bt_elems delta)) table s = Some t"
    and "sound K s" and "fset delta \<subseteq> pts_of s u" and "set table \<subseteq> stores_of s u"
  shows "sound K t"
proof (rule sound_table_loop [OF assms(1-3)])
  show "grows_to a b" if "link_to_slot sha256 budget slot d obj a = Some b" for slot d obj a b
    using link_to_slot_grows [OF that] by simp
  show "sound K b" if "link_to_slot sha256 budget slot d obj a = Some b" "(slot, d) \<in> set table"
    "sound K a" "obj \<in> pts_of a u" "same_tables s a" for slot d obj a b
    using sound_link_to_slot [OF that(1,3) _ that(4)] same_tables_of(2) [OF that(5)] that(2) assms(4) by auto
qed

lemma sound_propagate_copy:
  assumes "sound K s" and "fset delta \<subseteq> pts_of s var"
  shows "sound K (propagate_copy budget var delta s)"
proof -
  let ?dsts = "bt_elems (fm_get_or {||} (pt_copy_edges s) var)"
  let ?I = "\<lambda>a. sound K a \<and> grows_to s a"
  have "?I (fold (\<lambda>dst. add_all budget dst delta) ?dsts s)"
  proof (rule try_fold_invariant [OF try_fold_total])
    show "?I s" using assms(1) by simp
    fix v a b assume v: "v \<in> set ?dsts" and a: "?I a" and b: "Some (add_all budget v delta a) = Some b"
    have "slot_pts K slots v obj" if "fm_le (pt_object_slots a) slots" "obj |\<in>| delta" for slots obj
    proof -
      have "v \<in> edges_of a var" "obj \<in> pts_of a var"
        using v a that(2) assms(2) by (auto simp: grows_to_def edges_of_def)
      then show ?thesis using sound_edge sound_pts that(1) a by metis
    qed
    then have "sound K (add_all budget v delta a)" using a by (intro sound_add_all) auto
    moreover have "grows_to s (add_all budget v delta a)" using a add_all_grows grows_to_trans by blast
    ultimately show "?I b" using b by simp
  qed
  then show ?thesis by (simp add: propagate_copy_def)
qed

lemma sound_propagate_all:
  assumes "propagate_all sha256 budget var delta s = Some t" and "sound K s" and "fset delta \<subseteq> pts_of s var"
  shows "sound K t"
proof -
  let ?p = "propagate_copy budget var delta s"
  obtain a b c where a: "propagate_load sha256 budget var delta ?p = Some a"
    and b: "propagate_store sha256 budget var delta a = Some b"
    and c: "propagate_field_load sha256 budget var delta b = Some c"
    and t: "propagate_field_store sha256 budget var delta c = Some t"
    using assms by (auto simp: propagate_all_def bind_eq_Some_conv)
  note g0 = propagate_copy_grows(1) [of s budget var delta] and g1 = propagate_load_grows(1) [OF a]
    and g2 = propagate_store_grows(1) [OF b] and g3 = propagate_field_load_grows(1) [OF c]
  have d0: "fset delta \<subseteq> pts_of ?p var" using assms(3) g0 unfolding grows_to_def by blast
  then have d1: "fset delta \<subseteq> pts_of a var" using g1 unfolding grows_to_def by blast
  then have d2: "fset delta \<subseteq> pts_of b var" using g2 unfolding grows_to_def by blast
  then have d3: "fset delta \<subseteq> pts_of c var" using g3 unfolding grows_to_def by blast
  have "sound K ?p" by (rule sound_propagate_copy [OF assms(2,3)])
  then have "sound K a"
    by (rule sound_load_loop [OF a [unfolded propagate_load_def
        contents_loop [of "\<lambda>slot d. try_fold (link_from_slot sha256 budget slot d) (bt_elems delta)"]] _ d0])
       (auto simp: loads_of_def)
  then have "sound K b"
    by (rule sound_store_loop [OF b [unfolded propagate_store_def
        contents_loop [of "\<lambda>slot d. try_fold (link_to_slot sha256 budget slot d) (bt_elems delta)"]] _ d1])
       (auto simp: stores_of_def)
  then have "sound K c"
    by (rule sound_load_loop [OF c [unfolded propagate_field_load_def] _ d2]) (simp add: loads_of_def)
  then show "sound K t"
    by (rule sound_store_loop [OF t [unfolded propagate_field_store_def] _ d3]) (simp add: stores_of_def)
qed

end
