(* ===== verification/Points_To_Exact.thy ===== *)
theory Points_To_Exact
  imports Points_To_Solver
begin

text \<open>
  The points-to solver computes exactly the least solution. The invariants that hold of every state,
  within budget or not, are proved once through the locale \<open>solver_invariant\<close>: what the three
  primitive operations and the bookkeeping of the loop keep, the whole run keeps.
\<close>

section \<open>Invariants of a run\<close>

locale solver_invariant =
  fixes I :: "pt_solver \<Rightarrow> bool"
  assumes inv_add_all: "I s \<Longrightarrow> I (add_all budget dst objects s)"
    and inv_copy_edge: "I s \<Longrightarrow> I (add_copy_edge budget u v s)"
    and inv_object_slot: "I s \<Longrightarrow> object_slot sha256 budget obj slot s = Some (w, t) \<Longrightarrow> I t"
    and inv_step: "\<And>queue n. I s \<Longrightarrow> I (s \<lparr> pt_queue := queue, pt_steps := n \<rparr>)"
    and inv_exceed: "I s \<Longrightarrow> I (pt_exceed reason s)"
    and inv_tables: "I s \<Longrightarrow> I (s \<lparr> pt_loads := l \<rparr>)" "I s \<Longrightarrow> I (s \<lparr> pt_stores := l \<rparr>)"
      "I s \<Longrightarrow> I (s \<lparr> pt_field_loads := fl \<rparr>)" "I s \<Longrightarrow> I (s \<lparr> pt_field_stores := fl \<rparr>)"
    and inv_identities: "I s \<Longrightarrow> I (s \<lparr> pt_variable_identities := vi \<rparr>)"
      "I s \<Longrightarrow> I (s \<lparr> pt_object_identities := vi' \<rparr>)"
begin

lemma inv_link_from_slot: "link_from_slot sha256 budget slot v obj s = Some t \<Longrightarrow> I s \<Longrightarrow> I t"
  by (auto simp: link_from_slot_def intro: inv_copy_edge inv_object_slot)

lemma inv_link_to_slot: "link_to_slot sha256 budget slot v obj s = Some t \<Longrightarrow> I s \<Longrightarrow> I t"
  by (auto simp: link_to_slot_def intro: inv_copy_edge inv_object_slot)

lemma inv_fold_add_all: "I s \<Longrightarrow> I (fold (\<lambda>dst. add_all budget dst objects) dsts s)"
  by (induction dsts arbitrary: s) (simp_all add: inv_add_all)

lemma inv_propagate_all:
  assumes "propagate_all sha256 budget var delta s = Some t" and "I s"
  shows "I t"
proof -
  have loads: "I b" if "try_fold (\<lambda>(slot, d). try_fold (link_from_slot sha256 budget slot d) xs) table a = Some b"
    "I a" for xs table a b
    using that(1,2) by (rule try_fold_invariant)
      (auto elim: try_fold_invariant dest: inv_link_from_slot)
  have stores: "I b" if "try_fold (\<lambda>(slot, d). try_fold (link_to_slot sha256 budget slot d) xs) table a = Some b"
    "I a" for xs table a b
    using that(1,2) by (rule try_fold_invariant)
      (auto elim: try_fold_invariant dest: inv_link_to_slot)
  obtain a b c where a: "propagate_load sha256 budget var delta (propagate_copy budget var delta s) = Some a"
    and b: "propagate_store sha256 budget var delta a = Some b"
    and c: "propagate_field_load sha256 budget var delta b = Some c"
    and t: "propagate_field_store sha256 budget var delta c = Some t"
    using assms(1) by (auto simp: propagate_all_def bind_eq_Some_conv)
  have "I (propagate_copy budget var delta s)"
    unfolding propagate_copy_def by (rule inv_fold_add_all [OF assms(2)])
  then have "I a" by (rule loads [OF a [unfolded propagate_load_def
        contents_loop [of "\<lambda>slot d. try_fold (link_from_slot sha256 budget slot d) (bt_elems delta)"]]])
  then have "I b" by (rule stores [OF b [unfolded propagate_store_def
        contents_loop [of "\<lambda>slot d. try_fold (link_to_slot sha256 budget slot d) (bt_elems delta)"]]])
  then have "I c" by (rule loads [OF c [unfolded propagate_field_load_def]])
  then show "I t" by (rule stores [OF t [unfolded propagate_field_store_def]])
qed

lemma inv_budget_step: "step_budget_ok budget (s \<lparr> pt_queue := queue \<rparr>) = (ok, t) \<Longrightarrow> I s \<Longrightarrow> I t"
  using inv_step inv_exceed
  by (cases ok) (auto dest!: step_budget_True step_budget_False)

lemma inv_loop: "pt_loop sha256 budget s = Some t \<Longrightarrow> I s \<Longrightarrow> I t"
  by (induction rule: pt_loop_run_induct) (auto dest: inv_budget_step inv_propagate_all)

lemma inv_record: "record_kind_identities sha256 key k s = Some t \<Longrightarrow> I s \<Longrightarrow> I t"
  by (cases k)
     (auto simp: record_variable_identity_def record_object_identity_def
       simp del: pt_solver.update_convs intro!: inv_identities)

lemma inv_add_constraint: "add_constraint budget k s = Some t \<Longrightarrow> I s \<Longrightarrow> I t"
  by (cases k) (auto simp: add_object_def inv_add_all inv_copy_edge inv_tables simp del: pt_solver.update_convs)

lemma inv_init:
  assumes "pt_initialize sha256 interner budget cs s = Some t" and "I s"
  shows "I t"
proof -
  obtain u where u: "try_fold (init_constraint sha256 interner budget) cs s = Some u"
    and t: "t = fold (replay_copy_edges budget) (bt_entries (pt_copy_edges u)) u"
    using assms(1) by (auto simp: pt_initialize_def bind_eq_Some_conv)
  have "I u" using u assms(2)
    by (rule try_fold_invariant)
       (auto simp: init_constraint_def record_constraint_identities_def bind_eq_Some_conv
         dest: inv_record inv_add_constraint)
  moreover have "I a \<Longrightarrow> I (replay_copy_edges budget edge a)" for a edge
    by (simp add: replay_copy_edges_def inv_fold_add_all split: option.split)
  ultimately have "I (fold (replay_copy_edges budget) xs u)" for xs
    by (induction xs arbitrary: u) simp_all
  then show ?thesis by (simp add: t)
qed

lemma inv_solve: "pt_solve sha256 interner cs budget = Some t \<Longrightarrow> I pt_new \<Longrightarrow> I t"
  by (auto simp: pt_solve_def bind_eq_Some_conv intro: inv_init inv_loop)

end


section \<open>Soundness of the run\<close>

lemma sound_cong:
  assumes "sound K s" "pts_of t = pts_of s" "edges_of t = edges_of s" "pt_object_slots t = pt_object_slots s"
    "set (pt_queue t) \<subseteq> set (pt_queue s)" "loads_of t = loads_of s" "stores_of t = stores_of s"
  shows "sound K t"
  using assms pending_mono [of t s] unfolding sound_def by simp

lemma sound_new: "sound K pt_new"
  by (simp add: sound_def pt_new_def pts_of_def edges_of_def pending_def loads_of_def stores_of_def)

lemma sound_record: "record_kind_identities sha256 key k s = Some t \<Longrightarrow> sound K s \<Longrightarrow> sound K t"
  by (cases k)
     (auto simp: record_variable_identity_def record_object_identity_def pts_of_def edges_of_def
       loads_of_def stores_of_def fun_eq_iff intro!: sound_cong [of K s])

text \<open>An entry added to a table, the rest unchanged.\<close>

lemma sound_new_entry:
  assumes "sound K s" "pts_of t = pts_of s" "edges_of t = edges_of s" "pt_object_slots t = pt_object_slots s"
    "pending t = pending s"
    "\<And>u slot v. (slot, v) \<in> loads_of t u \<Longrightarrow> (slot, v) \<in> loads_of s u \<or> load_of k = Some (u, slot, v)"
    "\<And>u slot v. (slot, v) \<in> stores_of t u \<Longrightarrow> (slot, v) \<in> stores_of s u \<or> store_of k = Some (u, slot, v)"
    "k \<in> K"
  shows "sound K t"
proof -
  have "\<exists>k \<in> K. load_of k = Some (u, slot, v)" if "(slot, v) \<in> loads_of t u" for u slot v
    using assms(6) [OF that] assms(1,8) unfolding sound_def by blast
  moreover have "\<exists>k \<in> K. store_of k = Some (u, slot, v)" if "(slot, v) \<in> stores_of t u" for u slot v
    using assms(7) [OF that] assms(1,8) unfolding sound_def by blast
  ultimately show ?thesis using assms(1) unfolding sound_def assms(2-5) by simp
qed

lemma sound_add_object:
  assumes "sound K s" "k \<in> K" "origin_of k = Some (dst, obj)"
  shows "sound K (add_object budget dst obj s)"
  unfolding add_object_def by (rule sound_add_all [OF assms(1)]) (use s_origin [OF assms(2,3)] in simp)

lemma sound_add_copy:
  assumes "sound K s" "k \<in> K" "copy_of k = Some (u, v)"
  shows "sound K (add_copy_edge budget u v s)"
  by (rule sound_copy_edge [OF assms(1)]) (rule s_copy [OF assms(2,3)])

lemma sound_add_constraint:
  assumes "add_constraint budget k s = Some t" "sound K s" "k \<in> K"
  shows "sound K t"
proof (cases k)
  case (AddressOf dst object)
  with assms show ?thesis by (auto intro: sound_add_object)
next
  case (CallReturn dst val)
  with assms show ?thesis by (auto intro: sound_add_object)
next
  case (Copy dst src)
  with assms show ?thesis by (auto intro: sound_add_copy)
next
  case (SummaryFlow dst src key)
  with assms show ?thesis by (auto intro: sound_add_copy)
qed (use assms in \<open>auto simp: pts_of_def edges_of_def pending_def table_simps index_slot_def fun_eq_iff
      split: if_splits intro!: sound_new_entry [of K s _ k]\<close>)

lemma sound_replay:
  assumes "sound K s" and "\<And>v. v |\<in>| snd edge \<Longrightarrow> v \<in> edges_of s (fst edge)"
  shows "sound K (replay_copy_edges budget edge s) \<and> edges_of (replay_copy_edges budget edge s) = edges_of s"
proof (cases "fmlookup (pt_sets s) (fst edge)")
  case (Some objects)
  let ?I = "\<lambda>a. sound K a \<and> grows_to s a \<and> edges_of a = edges_of s"
  have "?I (fold (\<lambda>dst. add_all budget dst objects) (bt_elems (snd edge)) s)"
  proof (rule try_fold_invariant [OF try_fold_total])
    show "?I s" using assms(1) by simp
    fix v a b assume v: "v \<in> set (bt_elems (snd edge))" and a: "?I a"
      and b: "Some (add_all budget v objects a) = Some b"
    have "slot_pts K slots v obj" if "fm_le (pt_object_slots a) slots" "obj |\<in>| objects" for slots obj
    proof -
      have "v \<in> edges_of a (fst edge)" "obj \<in> pts_of a (fst edge)"
        using v a that(2) assms(2) pts_of_Some [OF Some] by (auto simp: grows_to_def)
      then show ?thesis using sound_edge sound_pts that(1) a by metis
    qed
    then have "sound K (add_all budget v objects a)" using a by (intro sound_add_all) auto
    moreover have "grows_to s (add_all budget v objects a)" using a add_all_grows grows_to_trans by blast
    ultimately show "?I b" using a b by auto
  qed
  with Some show ?thesis by (simp add: replay_copy_edges_def)
qed (use assms in \<open>simp add: replay_copy_edges_def\<close>)

lemma sound_init:
  assumes "pt_initialize sha256 interner budget cs pt_new = Some t" and "pc_kind ` set cs \<subseteq> K"
  shows "sound K t"
proof -
  obtain u where u: "try_fold (init_constraint sha256 interner budget) cs pt_new = Some u"
    and t: "t = fold (replay_copy_edges budget) (bt_entries (pt_copy_edges u)) u"
    using assms(1) by (auto simp: pt_initialize_def bind_eq_Some_conv)
  have su: "sound K u" using u sound_new
  proof (rule try_fold_invariant)
    fix c a b assume "c \<in> set cs" "sound K a" "init_constraint sha256 interner budget c a = Some b"
    then show "sound K b"
      using assms(2) sound_record sound_add_constraint
      by (auto simp: init_constraint_def record_constraint_identities_def bind_eq_Some_conv)
  qed
  let ?I = "\<lambda>a. sound K a \<and> edges_of a = edges_of u"
  have "?I (fold (replay_copy_edges budget) (bt_entries (pt_copy_edges u)) u)"
  proof (rule try_fold_invariant [OF try_fold_total])
    fix e a b assume e: "e \<in> set (bt_entries (pt_copy_edges u))" and a: "?I a"
      and b: "Some (replay_copy_edges budget e a) = Some b"
    have "fmlookup (pt_copy_edges u) (fst e) = Some (snd e)" using e by (simp add: in_bt_entries_iff [symmetric])
    then have "v |\<in>| snd e \<Longrightarrow> v \<in> edges_of a (fst e)" for v using a by (simp add: edges_of_def)
    with sound_replay [of K a e budget] a b show "?I b" by auto
  qed (use su in simp)
  then show ?thesis by (simp add: t)
qed

lemma sound_loop: "pt_loop sha256 budget s = Some t \<Longrightarrow> sound K s \<Longrightarrow> sound K t"
proof (induction rule: pt_loop_run_induct)
  case (stop s s' var delta queue)
  then show ?case
    by (auto dest!: step_budget_False simp: pt_exceed_def pts_of_def edges_of_def loads_of_def
        stores_of_def fun_eq_iff intro!: sound_cong [of K s])
next
  case (step s s' u t var delta queue)
  have "sound K s'"
    using step(1,2) step.prems
    by (auto dest!: step_budget_True simp: pts_of_def edges_of_def loads_of_def stores_of_def
        fun_eq_iff intro!: sound_cong [of K s])
  moreover have "fset delta \<subseteq> pts_of s' var"
  proof
    fix obj assume "obj \<in> fset delta"
    then have "pending s var obj" using step(1) by (auto simp: pending_def)
    then have "obj \<in> pts_of s var" using step.prems unfolding sound_def by blast
    then show "obj \<in> pts_of s' var" using step_budget_True [OF step(2)] by (simp add: pts_of_def)
  qed
  ultimately have "sound K u" by (rule sound_propagate_all [OF step(3)])
  then show ?case by (rule step.IH)
qed simp

lemma sound_solve:
  assumes "pt_solve sha256 interner cs budget = Some t" and "pc_kind ` set cs \<subseteq> K"
  shows "sound K t"
  using assms by (auto simp: pt_solve_def bind_eq_Some_conv intro: sound_init sound_loop)


section \<open>Slot names\<close>

text \<open>Different slots have different variables, all with the tag of the solver's own variables.\<close>

definition is_slot_var :: "pt_var \<Rightarrow> bool" where
  "is_slot_var v \<longleftrightarrow> take_bit 4 v = DYNAMIC_VAR_TAG"

definition slots_ok :: "pt_solver \<Rightarrow> bool" where
  "slots_ok s \<longleftrightarrow>
     fcard (fmdom (pt_object_slots s)) \<le> 2 ^ 60 \<and>
     (\<forall>key v. fmlookup (pt_object_slots s) key = Some v \<longrightarrow>
        (\<exists>n < fcard (fmdom (pt_object_slots s)). dynamic_var n = Some v)) \<and>
     (\<forall>key key' v. fmlookup (pt_object_slots s) key = Some v \<longrightarrow>
        fmlookup (pt_object_slots s) key' = Some v \<longrightarrow> key = key')"

lemma dynamic_var_tag:
  assumes "dynamic_var n = Some v"
  shows "is_slot_var v"
proof -
  have "v = push_bit 4 (of_nat n) OR DYNAMIC_VAR_TAG"
    using assms by (simp add: dynamic_var_def tagged_var_def TAG_BITS_def split: if_splits)
  moreover have "take_bit 4 DYNAMIC_VAR_TAG = DYNAMIC_VAR_TAG" by (simp add: tag_defs)
  ultimately show ?thesis unfolding is_slot_var_def by (simp only: tagged_tag)
qed

lemma dynamic_var_limit: "dynamic_var (2 ^ 60) = None"
  by (simp add: dynamic_var_def tagged_var_def PAYLOAD_MAX_def TAG_BITS_def mask_numeral)

lemma dynamic_var_inject:
  assumes "dynamic_var m = Some v" "dynamic_var n = Some v" "m < 2 ^ 60" "n < 2 ^ 60"
  shows "m = n"
proof -
  have "(of_nat m :: 64 word) = of_nat n"
    using tagged_var_inject [OF assms(1,2) [unfolded dynamic_var_def]] by (simp add: tag_defs)
  with assms(3,4) show ?thesis by (simp add: of_nat_64_inject)
qed

lemma slots_ok_new_slot:
  assumes ok: "slots_ok s" and key: "fmlookup (pt_object_slots s) key = None"
    and var: "dynamic_var (fcard (fmdom (pt_object_slots s))) = Some v"
    and t: "pt_object_slots t = fmupd key v (pt_object_slots s)"
  shows "slots_ok t"
proof -
  let ?n = "fcard (fmdom (pt_object_slots s))"
  have n: "?n < 2 ^ 60"
    using ok var dynamic_var_limit unfolding slots_ok_def by (metis le_neq_implies_less option.distinct(1))
  have card: "fcard (fmdom (pt_object_slots t)) = Suc ?n"
    using key by (simp add: t fcard_finsert_disjoint fmdom_notI)
  have fresh: "fmlookup (pt_object_slots s) k \<noteq> Some v" for k
  proof
    assume "fmlookup (pt_object_slots s) k = Some v"
    then obtain m where "m < ?n" "dynamic_var m = Some v" using ok unfolding slots_ok_def by blast
    with dynamic_var_inject [OF this(2) var] n show False by simp
  qed
  have "\<exists>m < Suc ?n. dynamic_var m = Some w" if "fmlookup (pt_object_slots t) k = Some w" for k w
  proof (cases "k = key")
    case True
    with that var show ?thesis by (auto simp: t)
  next
    case False
    with that have "fmlookup (pt_object_slots s) k = Some w" by (simp add: t)
    with ok show ?thesis unfolding slots_ok_def by (meson less_SucI)
  qed
  moreover have "k = k'" if "fmlookup (pt_object_slots t) k = Some w" "fmlookup (pt_object_slots t) k' = Some w" for k k' w
  proof -
    have "fmlookup (pt_object_slots s) a = Some w \<Longrightarrow> fmlookup (pt_object_slots s) b = Some w \<Longrightarrow> a = b" for a b
      using ok unfolding slots_ok_def by blast
    then show ?thesis using that fresh by (auto simp: t split: if_splits)
  qed
  ultimately show ?thesis using n unfolding slots_ok_def card by simp
qed

interpretation slots: solver_invariant slots_ok
proof unfold_locales
  show "slots_ok t" if "slots_ok s" "object_slot sha256 budget obj slot s = Some (w, t)" for s sha256 budget obj slot w t
    using that(2)
  proof (cases rule: object_slot_cases)
    case (fresh i)
    with that(1) show ?thesis by (auto intro: slots_ok_new_slot)
  qed (use that in simp)
qed (simp_all add: slots_ok_def pt_exceed_def)

lemma new_object_slot_reasons:
  "pt_budget_exceeded s \<longleftrightarrow> pt_budget_reasons s \<noteq> {||} \<Longrightarrow>
   pt_budget_exceeded (new_object_slot budget obj slot var i s) \<longleftrightarrow>
   pt_budget_reasons (new_object_slot budget obj slot var i s) \<noteq> {||}"
  by (auto simp: new_object_slot_def Let_def pt_exceed_def)

interpretation reasons: solver_invariant "\<lambda>s. pt_budget_exceeded s \<longleftrightarrow> pt_budget_reasons s \<noteq> {||}"
proof unfold_locales
  have add: "pt_budget_exceeded (add_all budget dst objects s) \<longleftrightarrow>
      pt_budget_reasons (add_all budget dst objects s) \<noteq> {||}"
    if "pt_budget_exceeded s \<longleftrightarrow> pt_budget_reasons s \<noteq> {||}" for s budget dst objects
    using that by (auto simp: add_all_def Let_def pt_exceed_def)
  then show "pt_budget_exceeded (add_all budget dst objects s) \<longleftrightarrow>
      pt_budget_reasons (add_all budget dst objects s) \<noteq> {||}"
    if "pt_budget_exceeded s \<longleftrightarrow> pt_budget_reasons s \<noteq> {||}" for s budget dst objects
    using that by blast
  show "pt_budget_exceeded (add_copy_edge budget u v s) \<longleftrightarrow>
      pt_budget_reasons (add_copy_edge budget u v s) \<noteq> {||}"
    if "pt_budget_exceeded s \<longleftrightarrow> pt_budget_reasons s \<noteq> {||}" for s budget u v
    unfolding add_copy_edge_def Let_def
    using that add [of "s \<lparr> pt_copy_edges := fm_add u v (pt_copy_edges s) \<rparr>"]
    by (auto split: option.split)
  show "pt_budget_exceeded t \<longleftrightarrow> pt_budget_reasons t \<noteq> {||}"
    if "pt_budget_exceeded s \<longleftrightarrow> pt_budget_reasons s \<noteq> {||}" "object_slot sha256 budget obj slot s = Some (w, t)"
    for s sha256 budget obj slot w t
    using that(2) by (cases rule: object_slot_cases) (use that(1) new_object_slot_reasons in auto)
qed (simp_all add: pt_exceed_def)

text \<open>With distinct names for the slots, the two forms of the solution agree.\<close>

fun constraint_vars :: "points_to_constraint_kind \<Rightarrow> pt_var list" where
  "constraint_vars (AddressOf dst _) = [dst]"
| "constraint_vars (Copy dst src) = [dst, src]"
| "constraint_vars (Load dst pointer) = [dst, pointer]"
| "constraint_vars (Store pointer src) = [pointer, src]"
| "constraint_vars (FieldLoad dst base _) = [dst, base]"
| "constraint_vars (FieldStore base _ src) = [base, src]"
| "constraint_vars (ElementLoad dst base _) = [dst, base]"
| "constraint_vars (ElementStore base _ src) = [base, src]"
| "constraint_vars (CallReturn dst _) = [dst]"
| "constraint_vars (SummaryFlow dst src _) = [dst, src]"

lemma constraint_vars_of:
  "origin_of k = Some (v, obj) \<Longrightarrow> v \<in> set (constraint_vars k)"
  "copy_of k = Some (u, v) \<Longrightarrow> {u, v} \<subseteq> set (constraint_vars k)"
  "load_of k = Some (u, slot, v) \<Longrightarrow> {u, v} \<subseteq> set (constraint_vars k)"
  "store_of k = Some (u, slot, v) \<Longrightarrow> {u, v} \<subseteq> set (constraint_vars k)"
  by (cases k; auto)+

definition node_of :: "(object_token \<times> string, pt_var) fmap \<Rightarrow> pt_var \<Rightarrow> pt_node \<Rightarrow> bool" where
  "node_of slots v n \<longleftrightarrow>
     (case n of VarNode u \<Rightarrow> u = v \<and> \<not> is_slot_var v | SlotNode obj slot \<Rightarrow> fmlookup slots (obj, slot) = Some v)"

lemma slot_pts_least:
  assumes vars: "\<And>k v. k \<in> K \<Longrightarrow> v \<in> set (constraint_vars k) \<Longrightarrow> \<not> is_slot_var v"
    and tags: "\<And>key v. fmlookup slots key = Some v \<Longrightarrow> is_slot_var v"
    and inj: "\<And>key key' v. fmlookup slots key = Some v \<Longrightarrow> fmlookup slots key' = Some v \<Longrightarrow> key = key'"
  shows "slot_pts K slots v obj \<Longrightarrow> node_of slots v n \<Longrightarrow> least_pts K n obj"
proof (induction arbitrary: n rule: slot_pts.induct)
  have var: "n = VarNode v" if "k \<in> K" "v \<in> set (constraint_vars k)" "node_of slots v n" for k v n
    using vars [OF that(1,2)] that(3) tags by (auto simp: node_of_def split: pt_node.splits)
  have own: "node_of slots v (VarNode v)" if "k \<in> K" "v \<in> set (constraint_vars k)" for k v
    using vars [OF that] by (simp add: node_of_def)
  {
    case (s_origin k v obj)
    then show ?case using var constraint_vars_of(1) by (metis origin)
  next
    case (s_copy k u v obj)
    then show ?case using var own constraint_vars_of(2) by (metis copy insert_subset)
  next
    case (s_load k u slot v base w obj)
    have "{u, v} \<subseteq> set (constraint_vars k)" by (rule constraint_vars_of(3) [OF s_load(2)])
    then have "n = VarNode v" "least_pts K (VarNode u) base"
      using var [OF s_load(1) _ s_load.prems] s_load.IH(1) own [OF s_load(1)] by auto
    moreover have "least_pts K (SlotNode base slot) obj"
      using s_load.IH(2) s_load(4) by (simp add: node_of_def)
    ultimately show ?case using load [OF s_load(1,2)] by blast
  next
    case (s_store k u slot v base w obj)
    have "{u, v} \<subseteq> set (constraint_vars k)" by (rule constraint_vars_of(4) [OF s_store(2)])
    then have "least_pts K (VarNode u) base" "least_pts K (VarNode v) obj"
      using s_store.IH own [OF s_store(1)] by auto
    moreover have "n = SlotNode base slot"
      using s_store.prems s_store(4) tags inj [OF s_store(4)]
      by (auto simp: node_of_def split: pt_node.splits)
    ultimately show ?case using store [OF s_store(1,2)] by blast
  }
qed

lemma least_slot_pts:
  assumes stores: "\<And>k u slot v base. k \<in> K \<Longrightarrow> store_of k = Some (u, slot, v) \<Longrightarrow> slot_pts K slots u base \<Longrightarrow>
      \<exists>w. fmlookup slots (base, slot) = Some w"
  shows "least_pts K n obj \<Longrightarrow>
    (case n of VarNode v \<Rightarrow> slot_pts K slots v obj
     | SlotNode base slot \<Rightarrow> \<exists>w. fmlookup slots (base, slot) = Some w \<and> slot_pts K slots w obj)"
proof (induction rule: least_pts.induct)
  case (load k u slot v base obj)
  then show ?case by (auto intro: s_load)
next
  case (store k u slot v base obj)
  moreover obtain w where "fmlookup slots (base, slot) = Some w" using stores store by fastforce
  ultimately show ?case by (auto intro: s_store)
qed (auto intro: s_origin s_copy)


section \<open>The result\<close>

definition result_objects :: "points_to_solve_result \<Rightarrow> pt_var \<Rightarrow> object_token set" where
  "result_objects r v =
     (\<Union>f \<in> set (sr_sets r). if ps_variable f = v then set (ps_objects f) else {})"

lemma set_fact_run:
  assumes "try_fold (set_fact sha256 s) entries acc = Some (sets, interner)"
  shows "\<exists>facts. sets = fst acc @ facts \<and>
     map (\<lambda>f. (ps_variable f, ps_objects f)) facts = map (\<lambda>(v, objects). (v, bt_elems objects)) entries \<and>
     (\<forall>f \<in> set facts.
        ps_budget f = (if pt_budget_exceeded s then BudgetExceeded else WithinBudget) \<and>
        ps_status f = (if pt_budget_exceeded s then Pts_BudgetExceeded else Pts_Present))"
  using assms
proof (induction entries arbitrary: acc)
  case (Cons e entries)
  then obtain acc' where step: "set_fact sha256 s e acc = Some acc'"
    and rest: "try_fold (set_fact sha256 s) entries acc' = Some (sets, interner)"
    by (auto simp: bind_eq_Some_conv)
  from step obtain f where f: "fst acc' = fst acc @ [f]" "ps_variable f = fst e" "ps_objects f = bt_elems (snd e)"
    "ps_budget f = (if pt_budget_exceeded s then BudgetExceeded else WithinBudget)"
    "ps_status f = (if pt_budget_exceeded s then Pts_BudgetExceeded else Pts_Present)"
    by (auto simp: set_fact_def bind_eq_Some_conv Let_def split: prod.splits)
  from Cons.IH [OF rest] obtain facts where facts: "sets = fst acc' @ facts"
    "map (\<lambda>f. (ps_variable f, ps_objects f)) facts = map (\<lambda>(v, objects). (v, bt_elems objects)) entries"
    "\<forall>f \<in> set facts.
        ps_budget f = (if pt_budget_exceeded s then BudgetExceeded else WithinBudget) \<and>
        ps_status f = (if pt_budget_exceeded s then Pts_BudgetExceeded else Pts_Present)"
    by blast
  show ?case
    by (rule exI [of _ "f # facts"]) (use f facts in \<open>simp add: case_prod_beta\<close>)
qed simp

lemma to_result_sets:
  assumes "to_result sha256 s interner = Some (r, interner')"
  shows "result_objects r v = pts_of s v"
    and "sr_budget_status r = (if pt_budget_exceeded s then BudgetExceeded else WithinBudget)"
    and "f \<in> set (sr_sets r) \<Longrightarrow> ps_budget f = sr_budget_status r \<and>
       ps_status f = (if pt_budget_exceeded s then Pts_BudgetExceeded else Pts_Present)"
    and "sr_budget_reasons r = pt_budget_reasons s"
proof -
  obtain sets where run: "try_fold (set_fact sha256 s) (bt_entries (pt_sets s)) ([], interner) = Some (sets, interner')"
    and r: "sr_sets r = sets"
      "sr_budget_status r = (if pt_budget_exceeded s then BudgetExceeded else WithinBudget)"
      "sr_budget_reasons r = pt_budget_reasons s"
    using assms by (auto simp: to_result_def)
  from set_fact_run [OF run] have m: "map (\<lambda>f. (ps_variable f, ps_objects f)) sets =
      map (\<lambda>(v, objects). (v, bt_elems objects)) (bt_entries (pt_sets s))"
    and st: "\<forall>f \<in> set sets. ps_budget f = sr_budget_status r \<and>
       ps_status f = (if pt_budget_exceeded s then Pts_BudgetExceeded else Pts_Present)"
    using r by auto
  show "sr_budget_status r = (if pt_budget_exceeded s then BudgetExceeded else WithinBudget)"
    "sr_budget_reasons r = pt_budget_reasons s" by (fact r)+
  show "ps_budget f = sr_budget_status r \<and>
       ps_status f = (if pt_budget_exceeded s then Pts_BudgetExceeded else Pts_Present)" if "f \<in> set (sr_sets r)"
    using st that r(1) by simp
  have "(\<exists>f \<in> set sets. ps_variable f = v \<and> obj \<in> set (ps_objects f)) \<longleftrightarrow>
      (\<exists>xs. (v, xs) \<in> set (map (\<lambda>f. (ps_variable f, ps_objects f)) sets) \<and> obj \<in> set xs)" for obj
    by force
  also have "\<dots> obj \<longleftrightarrow> (\<exists>objects. (v, objects) \<in> set (bt_entries (pt_sets s)) \<and> obj |\<in>| objects)" for obj
    unfolding m by force
  finally have ex: "(\<exists>f \<in> set sets. ps_variable f = v \<and> obj \<in> set (ps_objects f)) \<longleftrightarrow>
      (\<exists>objects. fmlookup (pt_sets s) v = Some objects \<and> obj |\<in>| objects)" for obj
    by (simp add: in_bt_entries_iff)
  show "result_objects r v = pts_of s v"
  proof (rule set_eqI)
    fix obj
    have "obj \<in> result_objects r v \<longleftrightarrow> (\<exists>f \<in> set sets. ps_variable f = v \<and> obj \<in> set (ps_objects f))"
      by (auto simp: result_objects_def r(1) split: if_splits)
    also have "\<dots> \<longleftrightarrow> obj \<in> pts_of s v"
      unfolding ex by (cases "fmlookup (pt_sets s) v") (simp_all add: pts_of_def)
    finally show "obj \<in> result_objects r v \<longleftrightarrow> obj \<in> pts_of s v" .
  qed
qed

lemma solve_exact:
  assumes run: "solve_points_to sha256 interner cs budget = Some (r, interner')"
    and within: "sr_budget_status r = WithinBudget"
    and vars: "list_all (\<lambda>c. list_all (\<lambda>v. \<not> is_slot_var v) (constraint_vars (pc_kind c))) cs"
    and v: "\<not> is_slot_var v"
  shows "obj \<in> result_objects r v \<longleftrightarrow> least_pts (pc_kind ` set cs) (VarNode v) obj"
proof -
  let ?K = "pc_kind ` set cs"
  obtain t where t: "pt_solve sha256 interner cs budget = Some t" "to_result sha256 t interner = Some (r, interner')"
    using run by (auto simp: solve_points_to_def bind_eq_Some_conv)
  note res = to_result_sets [OF t(2)]
  have ok: "\<not> pt_budget_exceeded t" using within res(2) by (simp split: if_splits)
  note end_state = pt_solve_closed [OF t(1) ok]
  have sound: "sound ?K t" by (rule sound_solve [OF t(1)]) simp
  have "slots_ok pt_new" by (simp add: slots_ok_def pt_new_def fcard_fempty)
  then have slots: "slots_ok t" by (rule slots.inv_solve [OF t(1)])
  have rec: "recorded t k" if "k \<in> ?K" for k using end_state(3) that by auto
  have exact: "obj \<in> pts_of t u \<longleftrightarrow> slot_pts ?K (pt_object_slots t) u obj" for u obj
    using slot_pts_computed [OF end_state(1,2) ok rec] sound_pts [OF sound fm_le_refl] by blast
  have "least_pts ?K (VarNode v) obj" if "slot_pts ?K (pt_object_slots t) v obj"
  proof (rule slot_pts_least [OF _ _ _ that])
    show "\<not> is_slot_var v" if "k \<in> ?K" "v \<in> set (constraint_vars k)" for k v
      using vars that by (auto simp: list_all_iff)
    show "is_slot_var v" if "fmlookup (pt_object_slots t) key = Some v" for key v
      using slots that dynamic_var_tag unfolding slots_ok_def by blast
    show "key = key'" if "fmlookup (pt_object_slots t) key = Some v" "fmlookup (pt_object_slots t) key' = Some v" for key key' v
      using slots that unfolding slots_ok_def by blast
  qed (simp add: node_of_def v)
  moreover have "slot_pts ?K (pt_object_slots t) v obj" if "least_pts ?K (VarNode v) obj"
  proof -
    have "\<exists>w. fmlookup (pt_object_slots t) (base, slot) = Some w"
      if "k \<in> ?K" "store_of k = Some (u, slot, w)" "slot_pts ?K (pt_object_slots t) u base" for k u slot w base
    proof -
      have "base \<in> pts_of t u" using exact that(3) by blast
      moreover have "(slot, w) \<in> stores_of t u" using rec [OF that(1)] that(2) unfolding recorded_def by blast
      ultimately have "store_done t w slot base"
        using end_state(1,2) unfolding closed_except_def pending_def by fastforce
      then show ?thesis by (auto simp: store_done_def)
    qed
    from least_slot_pts [OF this that] show ?thesis by simp
  qed
  ultimately show ?thesis unfolding res(1) exact by blast
qed


section \<open>Properties\<close>

text \<open>
  C26: a run of the points-to solver that stays within its budgets computes exactly the least solution
  of its constraints: a variable's reported objects are those that follow from the constraints, with
  one location per object and slot, and no others. The constraints must not mention the solver's own
  slot variables.
\<close>

theorem points_to_solution_exact:
  assumes run: "solve_points_to sha256 interner cs budget = Some (r, interner')"
    and within: "sr_budget_status r = WithinBudget"
    and vars: "list_all (\<lambda>c. list_all (\<lambda>v. \<not> is_slot_var v) (constraint_vars (pc_kind c))) cs"
    and v: "\<not> is_slot_var v"
  shows "obj \<in> result_objects r v \<longleftrightarrow> least_pts (pc_kind ` set cs) (VarNode v) obj"
  by (rule solve_exact [OF assms])

text \<open>
  budgets are reported: when the run exceeds one, the result and every set in it carry the
  status, and the reason is named; otherwise every set is present and within budget.
\<close>

theorem points_to_budget_reported:
  assumes "solve_points_to sha256 interner cs budget = Some (r, interner')"
  shows "sr_budget_status r \<noteq> NotRun \<and>
     (sr_budget_status r = BudgetExceeded \<longleftrightarrow> sr_budget_reasons r \<noteq> {||}) \<and>
     (\<forall>f \<in> set (sr_sets r). ps_budget f = sr_budget_status r \<and>
        ps_status f = (if sr_budget_status r = BudgetExceeded then Pts_BudgetExceeded else Pts_Present))"
proof -
  obtain t where t: "pt_solve sha256 interner cs budget = Some t" "to_result sha256 t interner = Some (r, interner')"
    using assms by (auto simp: solve_points_to_def bind_eq_Some_conv)
  note res = to_result_sets [OF t(2)]
  have "pt_budget_exceeded pt_new \<longleftrightarrow> pt_budget_reasons pt_new \<noteq> {||}" by (simp add: pt_new_def)
  then have "pt_budget_exceeded t \<longleftrightarrow> pt_budget_reasons t \<noteq> {||}" by (rule reasons.inv_solve [OF t(1)])
  then show ?thesis using res(2-4) by auto
qed

end
