(* ===== verification/Row_Order.thy ===== *)
theory Row_Order
  imports Stable_Key "HOL-Library.Multiset"
begin

text \<open>
  Canonical row order. Every output of an analysis (\<open>AccessPathOutput\<close>, \<open>ValueOutput\<close>, \<open>TypeOutput\<close>,
  \<open>PointsToOutput\<close>, \<open>AliasOutput\<close>) has a method \<open>normalized\<close> that sorts its rows by the text of their
  stable key and then by id, and gives each row its position as the new id. The sort and the renumbering
  are stated once here; the locale \<open>row_family\<close> is the contract of a row type (a key, an id, and an id
  update that touches nothing else), interpreted where the row types are defined. The indexes of the
  stores, which map a field of the rows to the positions that have it, are stated here too.
\<close>

section \<open>Sorting and renumbering\<close>

text \<open>
  \<open>sort_by\<close> on \<open>(interner.resolve(key), id)\<close>. Resolving a key that was never interned panics; a slice
  of fewer than two rows is not compared.
\<close>

definition sort_rows ::
  "interner_state \<Rightarrow> ('r \<Rightarrow> stable_key_id) \<Rightarrow> ('r \<Rightarrow> 'i::linorder) \<Rightarrow> 'r list \<Rightarrow> 'r list option" where
  "sort_rows interner key_of id_of rows =
     (if length rows < 2 then Some rows
      else if list_all (\<lambda>r. resolve interner (key_of r) \<noteq> None) rows
      then Some (sort_key (\<lambda>r. (the (resolve interner (key_of r)), id_of r)) rows)
      else None)"

definition renumber_rows :: "(nat \<Rightarrow> 'r \<Rightarrow> 'r) \<Rightarrow> 'r list \<Rightarrow> 'r list" where
  "renumber_rows set_id rows = map (\<lambda>(index, row). set_id index row) (List.enumerate 0 rows)"

definition normalize_rows ::
  "interner_state \<Rightarrow> ('r \<Rightarrow> stable_key_id) \<Rightarrow> ('r \<Rightarrow> 'i::linorder) \<Rightarrow> (nat \<Rightarrow> 'r \<Rightarrow> 'r) \<Rightarrow> 'r list \<Rightarrow>
     'r list option" where
  "normalize_rows interner key_of id_of set_id rows =
     map_option (renumber_rows set_id) (sort_rows interner key_of id_of rows)"

text \<open>The loop that fills an index of a store: the positions of the rows, by the keys of a row.\<close>

definition index_rows :: "('r \<Rightarrow> 'k list) \<Rightarrow> 'r list \<Rightarrow> ('k, nat list) fmap" where
  "index_rows keys_of rows =
     fold (\<lambda>(index, row) m. fold (\<lambda>k. fm_push k index) (keys_of row) m) (List.enumerate 0 rows) fmempty"


section \<open>Generic lemmas\<close>

lemma length_renumber_rows [simp]: "length (renumber_rows set_id rows) = length rows"
  by (simp add: renumber_rows_def)

lemma nth_renumber_rows [simp]:
  "i < length rows \<Longrightarrow> renumber_rows set_id rows ! i = set_id i (rows ! i)"
  by (simp add: renumber_rows_def nth_enumerate_eq)

lemma map_renumber_rows:
  "(\<And>i r. f (set_id i r) = f r) \<Longrightarrow> map f (renumber_rows set_id rows) = map f rows"
  by (rule nth_equalityI) simp_all

lemma set_renumber_rows:
  "set (renumber_rows set_id rows) = {set_id i (rows ! i) | i. i < length rows}"
  by (force simp: renumber_rows_def in_set_enumerate_eq image_iff)

lemma mset_sort_rows: "sort_rows interner key_of id_of rows = Some rows' \<Longrightarrow> mset rows' = mset rows"
  by (auto simp: sort_rows_def split: if_splits)

lemma set_sort_rows: "sort_rows interner key_of id_of rows = Some rows' \<Longrightarrow> set rows' = set rows"
  by (drule mset_sort_rows) (rule mset_eq_setD)

lemma sorted_sort_rows:
  "sort_rows interner key_of id_of rows = Some rows' \<Longrightarrow>
   sorted (map (\<lambda>r. (the (resolve interner (key_of r)), id_of r)) rows')"
proof -
  assume run: "sort_rows interner key_of id_of rows = Some rows'"
  have "sorted (map f rows)" if "length rows < 2" for f :: "'a \<Rightarrow> string \<times> 'b"
    using that by (cases rows) simp_all
  with run show ?thesis by (auto simp: sort_rows_def split: if_splits)
qed

lemma sort_rows_defined:
  "list_all (\<lambda>r. resolve interner (key_of r) \<noteq> None) rows \<Longrightarrow>
   \<exists>rows'. sort_rows interner key_of id_of rows = Some rows'"
  by (simp add: sort_rows_def)

lemma fm_get_or_fold_push:
  "fm_get_or [] (fold (\<lambda>k. fm_push k v) ks m) j = fm_get_or [] m j @ replicate (count_list ks j) v"
proof (induction ks arbitrary: m)
  case (Cons k ks)
  show ?case
    by (cases "k = j") (simp_all add: Cons.IH fm_get_or_push flip: replicate_append_same)
qed simp

text \<open>An index lists the positions of a key in order, each as often as the row has the key.\<close>

lemma index_rows_lookup:
  "fm_get_or [] (index_rows keys_of rows) k =
     concat (map (\<lambda>(i, row). replicate (count_list (keys_of row) k) i) (List.enumerate 0 rows))"
proof -
  have "fm_get_or [] (fold (\<lambda>(i, row) m. fold (\<lambda>k. fm_push k i) (keys_of row) m) ps m) k =
      fm_get_or [] m k @ concat (map (\<lambda>(i, row). replicate (count_list (keys_of row) k) i) ps)" for ps m
    by (induction ps arbitrary: m) (auto simp: fm_get_or_fold_push)
  from this [of "List.enumerate 0 rows" fmempty] show ?thesis by (simp add: index_rows_def)
qed

lemma index_rows_iff:
  "i \<in> set (fm_get_or [] (index_rows keys_of rows) k) \<longleftrightarrow> i < length rows \<and> k \<in> set (keys_of (rows ! i))"
  by (auto simp: index_rows_lookup in_set_enumerate_eq count_list_0_iff intro!: bexI [of _ "(i, rows ! i)"])


section \<open>The contract of a row type\<close>

locale row_family =
  fixes key_of :: "'r \<Rightarrow> stable_key_id" and id_of :: "'r \<Rightarrow> 'i::linorder" and set_id :: "nat \<Rightarrow> 'r \<Rightarrow> 'r"
    and of_index :: "nat \<Rightarrow> 'i" and limit :: "nat \<Rightarrow> bool"
  assumes key_set_id: "key_of (set_id n r) = key_of r"
    and id_set_id: "id_of (set_id n r) = of_index n"
    and of_index_mono: "limit n \<Longrightarrow> m \<le> n \<Longrightarrow> of_index m \<le> of_index n"
begin

abbreviation row_key :: "interner_state \<Rightarrow> 'r \<Rightarrow> string" where
  "row_key interner r \<equiv> the (resolve interner (key_of r))"

lemma normalize_SomeE:
  assumes "normalize_rows interner key_of id_of set_id rows = Some rows'"
  obtains sorted_rows where "sort_rows interner key_of id_of rows = Some sorted_rows"
    "rows' = renumber_rows set_id sorted_rows" "length sorted_rows = length rows"
  using assms by (auto simp: normalize_rows_def dest: mset_sort_rows mset_eq_length)

lemma normalize_length:
  "normalize_rows interner key_of id_of set_id rows = Some rows' \<Longrightarrow> length rows' = length rows"
  by (erule normalize_SomeE) simp

lemma normalize_ids:
  "normalize_rows interner key_of id_of set_id rows = Some rows' \<Longrightarrow> i < length rows' \<Longrightarrow>
   id_of (rows' ! i) = of_index i"
  by (erule normalize_SomeE) (simp add: id_set_id)

lemma normalize_keys_sorted:
  assumes "normalize_rows interner key_of id_of set_id rows = Some rows'"
  shows "sorted (map (row_key interner) rows')"
proof -
  from assms obtain s where s: "sort_rows interner key_of id_of rows = Some s" "rows' = renumber_rows set_id s"
    by (rule normalize_SomeE)
  have "sorted (map fst (map (\<lambda>r. (row_key interner r, id_of r)) s))"
    using sorted_sort_rows [OF s(1)] by (force simp: sorted_iff_nth_mono)
  then show ?thesis by (simp add: s(2) comp_def map_renumber_rows key_set_id)
qed

text \<open>A projection that ignores ids sees the same rows.\<close>

lemma normalize_mset:
  assumes "normalize_rows interner key_of id_of set_id rows = Some rows'" and "\<And>n r. f (set_id n r) = f r"
  shows "mset (map f rows') = mset (map f rows)"
proof -
  from assms(1) obtain s where s: "sort_rows interner key_of id_of rows = Some s" "rows' = renumber_rows set_id s"
    by (rule normalize_SomeE)
  show ?thesis using mset_sort_rows [OF s(1)] map_renumber_rows [of f set_id s] assms(2) by (simp add: s(2))
qed

lemma normalize_set:
  assumes "normalize_rows interner key_of id_of set_id rows = Some rows'" and "\<And>n r. f (set_id n r) = f r"
  shows "f ` set rows' = f ` set rows"
  using arg_cong [OF normalize_mset [OF assms], of set_mset] by simp

lemma normalize_defined:
  "list_all (\<lambda>r. resolve interner (key_of r) \<noteq> None) rows \<Longrightarrow>
   \<exists>rows'. normalize_rows interner key_of id_of set_id rows = Some rows'"
  using sort_rows_defined [of interner key_of rows id_of] by (auto simp: normalize_rows_def)

text \<open>Rows that are in order, with their positions as ids, are not moved by a second sort.\<close>

lemma sort_id:
  assumes keys: "sorted (map (row_key interner) rows)" and ids: "\<And>i. i < length rows \<Longrightarrow> id_of (rows ! i) = of_index i"
    and lim: "\<And>i. i < length rows \<Longrightarrow> limit i"
    and def: "sort_rows interner key_of id_of rows \<noteq> None"
  shows "sort_rows interner key_of id_of rows = Some rows"
proof -
  let ?f = "\<lambda>r. (row_key interner r, id_of r)"
  have "?f (rows ! i) \<le> ?f (rows ! j)" if "i \<le> j" "j < length rows" for i j
  proof -
    have "row_key interner (rows ! i) \<le> row_key interner (rows ! j)"
      using sorted_nth_mono [OF keys, of i j] that by simp
    moreover have "id_of (rows ! i) \<le> id_of (rows ! j)"
      using of_index_mono [OF lim] that ids by simp
    ultimately show ?thesis by (auto simp: less_eq_prod_def less_le)
  qed
  then have "sorted (map ?f rows)" by (simp add: sorted_iff_nth_mono)
  then have "sort_key ?f rows = rows" by (rule sort_key_id_if_sorted)
  with def show ?thesis by (auto simp: sort_rows_def split: if_splits)
qed

lemma sort_normalized:
  assumes run: "normalize_rows interner key_of id_of set_id rows = Some rows'"
    and lim: "\<And>i. i < length rows \<Longrightarrow> limit i"
  shows "sort_rows interner key_of id_of rows' = Some rows'"
proof (rule sort_id)
  obtain s where s: "sort_rows interner key_of id_of rows = Some s" "rows' = renumber_rows set_id s" "length s = length rows"
    using run by (rule normalize_SomeE)
  show "sorted (map (row_key interner) rows')" by (rule normalize_keys_sorted [OF run])
  show "id_of (rows' ! i) = of_index i" if "i < length rows'" for i using that by (rule normalize_ids [OF run])
  show "limit i" if "i < length rows'" for i using that lim by (simp add: s)
  have "key_of ` set rows' = key_of ` set rows"
    by (rule normalize_set [OF run]) (simp add: key_set_id)
  moreover have "length rows < 2 \<or> list_all (\<lambda>k. resolve interner k \<noteq> None) (map key_of rows)"
    using s(1) by (auto simp: sort_rows_def list_all_iff split: if_splits)
  moreover have "length rows' = length rows" by (rule normalize_length [OF run])
  ultimately have "length rows' < 2 \<or> (\<forall>k \<in> key_of ` set rows'. resolve interner k \<noteq> None)"
    by (auto simp: list_all_iff)
  then show "sort_rows interner key_of id_of rows' \<noteq> None" by (auto simp: sort_rows_def list_all_iff)
qed

end

text \<open>Where the update sets nothing but the id, the normal form is a fixed point.\<close>

locale plain_row_family = row_family +
  assumes set_id_twice: "set_id n (set_id m r) = set_id n r"
begin

lemma renumber_normalized:
  assumes run: "normalize_rows interner key_of id_of set_id rows = Some rows'"
  shows "renumber_rows set_id rows' = rows'"
proof -
  from run obtain s where "rows' = renumber_rows set_id s" by (rule normalize_SomeE)
  then show ?thesis by (intro nth_equalityI) (simp_all add: set_id_twice)
qed

lemma normalize_idem:
  assumes run: "normalize_rows interner key_of id_of set_id rows = Some rows'"
    and lim: "\<And>i. i < length rows \<Longrightarrow> limit i"
  shows "normalize_rows interner key_of id_of set_id rows' = Some rows'"
  by (simp add: normalize_rows_def sort_normalized [OF assms] renumber_normalized [OF run])

end

end
