(* ===== verification/Points_To_Store.thy ===== *)
theory Points_To_Store
  imports Points_To_Exact Row_Order
begin

text \<open>
  The points-to output and its store (\<open>analysis_neutral/points_to/store.rs\<close>) and the entry point of the
  solver that yields a normalised output (\<open>output_with_solved_sets\<close> of \<open>points_to/solver.rs\<close>).
\<close>

section \<open>Output and store\<close>

record points_to_output =
  po_constraints :: "points_to_constraint_fact list"
  po_sets :: "points_to_set_fact list"

definition renumber_set :: "nat \<Rightarrow> points_to_set_fact \<Rightarrow> points_to_set_fact" where
  "renumber_set index row = row \<lparr> ps_id := index, ps_objects := vec_dedup (sort (ps_objects row)) \<rparr>"

definition points_to_output_normalized :: "interner_state \<Rightarrow> points_to_output \<Rightarrow> points_to_output option" where
  "points_to_output_normalized interner output = do {
     constraints \<leftarrow> normalize_rows interner pc_stable_key pc_id (\<lambda>i row. row \<lparr> pc_id := i \<rparr>) (po_constraints output);
     sets \<leftarrow> normalize_rows interner ps_stable_key ps_id renumber_set (po_sets output);
     Some \<lparr> po_constraints = constraints, po_sets = sets \<rparr>
   }"

record points_to_store =
  pst_output :: points_to_output
  pst_constraints_by_status :: "(points_to_status, nat list) fmap"
  pst_constraints_by_precision :: "(points_to_precision, nat list) fmap"
  pst_sets_by_variable :: "(pt_var, nat list) fmap"
  pst_sets_by_object :: "(object_token, nat list) fmap"
  pst_sets_by_budget :: "(points_to_budget_status, nat list) fmap"

definition points_to_store_from_normalized_output :: "points_to_output \<Rightarrow> points_to_store" where
  "points_to_store_from_normalized_output output =
     \<lparr> pst_output = output,
       pst_constraints_by_status = index_rows (\<lambda>row. [pc_status row]) (po_constraints output),
       pst_constraints_by_precision = index_rows (\<lambda>row. [pc_precision row]) (po_constraints output),
       pst_sets_by_variable = index_rows (\<lambda>row. [ps_variable row]) (po_sets output),
       pst_sets_by_object = index_rows ps_objects (po_sets output),
       pst_sets_by_budget = index_rows (\<lambda>row. [ps_budget row]) (po_sets output) \<rparr>"

definition points_to_store_from_output :: "interner_state \<Rightarrow> points_to_output \<Rightarrow> points_to_store option" where
  "points_to_store_from_output interner output =
     map_option points_to_store_from_normalized_output (points_to_output_normalized interner output)"

definition output_with_solved_sets ::
  "(string \<Rightarrow> 8 word list) \<Rightarrow> interner_state \<Rightarrow> points_to_constraint_fact list \<Rightarrow> points_to_budget \<Rightarrow>
     (points_to_output \<times> interner_state) option" where
  "output_with_solved_sets sha256 interner constraints budget = do {
     (solve, interner') \<leftarrow> solve_points_to sha256 interner constraints budget;
     output \<leftarrow> points_to_output_normalized interner' \<lparr> po_constraints = constraints, po_sets = sr_sets solve \<rparr>;
     Some (output, interner')
   }"


section \<open>The normal form\<close>

interpretation constraint_rows:
  plain_row_family pc_stable_key pc_id "\<lambda>i row. row \<lparr> pc_id := i \<rparr>" "\<lambda>i. i" "\<lambda>_. True"
  by unfold_locales simp_all

interpretation set_rows: plain_row_family ps_stable_key ps_id renumber_set "\<lambda>i. i" "\<lambda>_. True"
proof
  have "vec_dedup xs = xs" if "sorted xs" "distinct xs" for xs :: "object_token list"
    using that by (induction xs rule: vec_dedup.induct) auto
  moreover have "sorted (vec_dedup (sort xs))" "distinct (vec_dedup (sort xs))" for xs :: "object_token list"
    by (simp_all add: sorted_vec_dedup distinct_vec_dedup)
  ultimately have "vec_dedup (sort (vec_dedup (sort xs))) = vec_dedup (sort xs)" for xs :: "object_token list"
    by (simp add: sorted_sort_id)
  then show "renumber_set n (renumber_set m r) = renumber_set n r" for n m r
    by (simp add: renumber_set_def)
qed (simp_all add: renumber_set_def)

lemma points_to_output_idem:
  assumes "points_to_output_normalized interner out = Some out'"
  shows "points_to_output_normalized interner out' = Some out'"
  using assms constraint_rows.normalize_idem set_rows.normalize_idem
  by (auto simp: points_to_output_normalized_def bind_eq_Some_conv)

text \<open>What normalising keeps of a set: its variable, its objects as a set, its status and its budget.\<close>

lemma normalized_sets:
  assumes "points_to_output_normalized interner out = Some out'"
  shows "(\<lambda>f. (ps_variable f, set (ps_objects f), ps_status f, ps_budget f)) ` set (po_sets out') =
     (\<lambda>f. (ps_variable f, set (ps_objects f), ps_status f, ps_budget f)) ` set (po_sets out)"
proof -
  have "normalize_rows interner ps_stable_key ps_id renumber_set (po_sets out) = Some (po_sets out')"
    using assms by (auto simp: points_to_output_normalized_def bind_eq_Some_conv)
  then show ?thesis by (rule set_rows.normalize_set) (simp add: renumber_set_def)
qed

text \<open>The solver lists every variable once.\<close>

lemma solved_variables_distinct:
  assumes "solve_points_to sha256 interner cs budget = Some (r, interner')"
  shows "distinct (map ps_variable (sr_sets r))"
proof -
  obtain s where "to_result sha256 s interner = Some (r, interner')"
    using assms by (auto simp: solve_points_to_def bind_eq_Some_conv)
  then have "try_fold (set_fact sha256 s) (bt_entries (pt_sets s)) ([], interner) = Some (sr_sets r, interner')"
    by (auto simp: to_result_def)
  from set_fact_run [OF this] have "map (\<lambda>f. (ps_variable f, ps_objects f)) (sr_sets r) =
      map (\<lambda>(v, objects). (v, bt_elems objects)) (bt_entries (pt_sets s))" by auto
  from arg_cong [OF this, of "map fst"] have "map ps_variable (sr_sets r) = map fst (bt_entries (pt_sets s))"
    by (simp add: comp_def case_prod_beta)
  then show ?thesis by simp
qed

lemma output_with_solved_setsE:
  assumes "output_with_solved_sets sha256 interner cs budget = Some (out, interner')"
  obtains r where "solve_points_to sha256 interner cs budget = Some (r, interner')"
    "points_to_output_normalized interner' \<lparr> po_constraints = cs, po_sets = sr_sets r \<rparr> = Some out"
  using assms by (auto simp: output_with_solved_sets_def bind_eq_Some_conv)

text \<open>A row of the output that is not marked lists the least solution of its variable.\<close>

lemma output_set_exact:
  assumes run: "output_with_solved_sets sha256 interner cs budget = Some (out, interner')"
    and vars: "list_all (\<lambda>c. list_all (\<lambda>v. \<not> is_slot_var v) (constraint_vars (pc_kind c))) cs"
    and row: "row \<in> set (po_sets out)" "ps_budget row \<noteq> BudgetExceeded" "\<not> is_slot_var (ps_variable row)"
  shows "set (ps_objects row) = {obj. least_pts (pc_kind ` set cs) (VarNode (ps_variable row)) obj}"
proof -
  obtain r where solve: "solve_points_to sha256 interner cs budget = Some (r, interner')"
    and norm: "points_to_output_normalized interner' \<lparr> po_constraints = cs, po_sets = sr_sets r \<rparr> = Some out"
    using run by (rule output_with_solved_setsE)
  let ?view = "\<lambda>f. (ps_variable f, set (ps_objects f), ps_status f, ps_budget f)"
  have "?view row \<in> ?view ` set (po_sets out)" using row(1) by (rule imageI)
  then have "?view row \<in> ?view ` set (sr_sets r)" unfolding normalized_sets [OF norm] by simp
  then obtain f where f: "f \<in> set (sr_sets r)" "ps_variable f = ps_variable row"
    "set (ps_objects f) = set (ps_objects row)" "ps_budget f = ps_budget row" by (auto simp: image_iff)
  obtain t where t: "to_result sha256 t interner = Some (r, interner')"
    using solve by (auto simp: solve_points_to_def bind_eq_Some_conv)
  have within: "sr_budget_status r = WithinBudget"
    using to_result_sets(2) [OF t] to_result_sets(3) [OF t f(1)] f(4) row(2) by (auto split: if_splits)
  have "result_objects r (ps_variable row) = set (ps_objects f)"
  proof -
    have uniq: "g = f" if "g \<in> set (sr_sets r)" "ps_variable g = ps_variable row" for g
      using solved_variables_distinct [OF solve] that f(1,2) by (metis distinct_map inj_onD)
    have "(if ps_variable g = ps_variable row then set (ps_objects g) else {}) \<subseteq> set (ps_objects f)"
      if "g \<in> set (sr_sets r)" for g
      using uniq [OF that] by (cases "ps_variable g = ps_variable row") simp_all
    moreover have "set (ps_objects f) = (if ps_variable f = ps_variable row then set (ps_objects f) else {})"
      using f(2) by simp
    ultimately show ?thesis unfolding result_objects_def using f(1) by blast
  qed
  then show ?thesis using solve_exact [OF solve within vars row(3)] f(3) by blast
qed

end
