(* ===== verification/Type_Value.thy ===== *)
theory Type_Value
  imports Row_Order Facts "HOL-Library.Monad_Syntax" "HOL-Library.Word"
begin

text \<open>
  Type, value, allocation and access-path facts (\<open>types/facts.rs\<close>, \<open>values/facts.rs\<close>,
  \<open>access_paths/facts.rs\<close>, \<open>ir/types.rs\<close> under \<open>analysis_neutral\<close>), the normal form of their outputs and the
  indexes of their stores (\<open>types/store.rs\<close>, \<open>values/store.rs\<close>, \<open>access_paths/store.rs\<close>). Ids that are
  packed into points-to variables are \<open>64 word\<close>s, the others natural numbers.
\<close>

section \<open>Facts\<close>

datatype type_shape =
    Shape_Primitive string
  | Shape_Literal string
  | Shape_Nullish string
  | Shape_Callable string
  | Shape_Class "string option"
  | Shape_Object "string option"
  | Shape_Module string
  | Shape_Nominal string
  | Shape_Structural string
  | Shape_Union "nat list"
  | Shape_Intersection "nat list"
  | Shape_GenericPlaceholder string
  | Shape_Any
  | Shape_Unknown string
  | Shape_Unsupported string

datatype type_subject =
    Ts_Symbol symbol_id
  | Ts_Place "64 word"
  | Ts_Operation "64 word"
  | Ts_Function function_id
  | Ts_Synthetic string
  | Ts_Unknown string

datatype type_phase =
    Tph_Declared | Tph_Inferred | Tph_Resolved | Tph_FlowNarrowed | Tph_ExtensionProvided | Tph_Unknown
  | Tph_Unsupported | Tph_SetupMissing

datatype type_precision =
  Tp_ExactLocal | Tp_SetupAware | Tp_Conservative | Tp_Heuristic | Tp_Unknown | Tp_Unsupported

datatype type_confidence = Tc_High | Tc_Medium | Tc_Low

datatype type_status = Tst_Present | Tst_Unknown | Tst_Unsupported | Tst_SetupMissing | Tst_BudgetExceeded

datatype type_provenance =
  Tpr_Native | Tpr_OfficialTool string | Tpr_Extension string | Tpr_Generated

record type_fact =
  tf_id :: nat
  tf_subject :: type_subject
  tf_type_set :: nat
  tf_shape :: type_shape
  tf_phase :: type_phase
  tf_language :: language
  tf_file :: "file_id option"
  tf_function :: "function_id option"
  tf_body :: "mir_body_id option"
  tf_place :: "(64 word) option"
  tf_cfg_block :: "basic_block_id option"
  tf_operation :: "(64 word) option"
  tf_precision :: type_precision
  tf_confidence :: type_confidence
  tf_status :: type_status
  tf_provenance :: type_provenance
  tf_stable_key :: stable_key_id

record narrowed_type_fact =
  nt_id :: nat
  nt_place :: "64 word"
  nt_type_set :: nat
  nt_cfg_block :: "basic_block_id option"
  nt_operation :: "(64 word) option"
  nt_predicate :: "(64 word) option"
  nt_evidence :: string
  nt_language :: language
  nt_file :: "file_id option"
  nt_function :: "function_id option"
  nt_body :: "mir_body_id option"
  nt_precision :: type_precision
  nt_status :: type_status
  nt_stable_key :: stable_key_id

datatype value_subject =
    Vs_Place "64 word"
  | Vs_Operation "64 word"
  | Vs_Allocation "64 word"
  | Vs_Synthetic string
  | Vs_Unknown string

datatype value_kind =
    Vk_Null
  | Vk_Undefined
  | Vk_Nil
  | Vk_Bool string
  | Vk_Number string
  | Vk_String string
  | Vk_Literal string
  | Vk_FunctionObject
  | Vk_ClassObject
  | Vk_ModuleObject
  | Vk_PlaceRef "64 word"
  | Vk_Object "64 word"
  | Vk_Array "64 word"
  | Vk_CompositeLiteral "64 word"
  | Vk_CallReturn "64 word"
  | Vk_Unknown string

datatype allocation_kind =
    Ak_ObjectLiteral | Ak_ArrayLiteral | Ak_CompositeLiteral | Ak_FunctionObject | Ak_ClassObject
  | Ak_ModuleNamespace | Ak_Closure | Ak_SyntheticFrameworkObject | Ak_ExtensionModeledObject | Ak_Unknown

datatype value_precision =
  Vp_ExactLocal | Vp_SetupAware | Vp_Conservative | Vp_Heuristic | Vp_Unknown | Vp_Unsupported

datatype value_status = Vst_Present | Vst_Unknown | Vst_Unsupported | Vst_SetupMissing | Vst_BudgetExceeded

datatype value_provenance = Vpr_Native | Vpr_Extension string | Vpr_Generated

record value_fact =
  vf_id :: "64 word"
  vf_subject :: value_subject
  vf_value :: "64 word"
  vf_kind :: value_kind
  vf_language :: language
  vf_file :: "file_id option"
  vf_function :: "function_id option"
  vf_body :: "mir_body_id option"
  vf_precision :: value_precision
  vf_status :: value_status
  vf_provenance :: value_provenance
  vf_stable_key :: stable_key_id

record allocation_token_fact =
  al_id :: "64 word"
  al_kind :: allocation_kind
  al_language :: language
  al_file :: "file_id option"
  al_function :: "function_id option"
  al_body :: "mir_body_id option"
  al_source_place :: "(64 word) option"
  al_source_operation :: "(64 word) option"
  al_span :: "span option"
  al_provenance :: value_provenance
  al_stable_key :: stable_key_id

datatype access_path_projection =
    Proj_Field string
  | Proj_Property string
  | Proj_IndexKnown string
  | Proj_IndexUnknown string
  | Proj_Deref
  | Proj_AwaitResult
  | Proj_CallReturn call_site_id
  | Proj_Unknown string

datatype access_path_status = Aps_Resolved | Aps_Partial | Aps_Unknown | Aps_Unsupported | Aps_BudgetExceeded

record access_path_fact =
  ap_id :: "64 word"
  ap_base :: "64 word"
  ap_projections :: "access_path_projection list"
  ap_depth :: nat
  ap_language :: language
  ap_file :: "file_id option"
  ap_function :: "function_id option"
  ap_body :: "mir_body_id option"
  ap_status :: access_path_status
  ap_stable_key :: stable_key_id


section \<open>Outputs and their normal form\<close>

record type_output =
  to_types :: "type_fact list"
  to_narrowed :: "narrowed_type_fact list"

record value_output =
  vo_values :: "value_fact list"
  vo_allocations :: "allocation_token_fact list"

record access_path_output =
  ao_access_paths :: "access_path_fact list"

definition access_path_output_normalized ::
  "interner_state \<Rightarrow> access_path_output \<Rightarrow> access_path_output option" where
  "access_path_output_normalized interner output =
     map_option (\<lambda>rows. \<lparr> ao_access_paths = rows \<rparr>)
       (normalize_rows interner ap_stable_key ap_id (\<lambda>i row. row \<lparr> ap_id := of_nat i \<rparr>) (ao_access_paths output))"

fun remap_subject :: "(64 word, 64 word) fmap \<Rightarrow> value_subject \<Rightarrow> value_subject" where
  "remap_subject remap (Vs_Allocation token) = Vs_Allocation (fm_get_or token remap token)"
| "remap_subject remap subject = subject"

fun remap_kind :: "(64 word, 64 word) fmap \<Rightarrow> value_kind \<Rightarrow> value_kind" where
  "remap_kind remap (Vk_Object token) = Vk_Object (fm_get_or token remap token)"
| "remap_kind remap (Vk_Array token) = Vk_Array (fm_get_or token remap token)"
| "remap_kind remap (Vk_CompositeLiteral token) = Vk_CompositeLiteral (fm_get_or token remap token)"
| "remap_kind remap kind = kind"

definition remap_value_allocation_refs :: "(64 word, 64 word) fmap \<Rightarrow> value_fact \<Rightarrow> value_fact" where
  "remap_value_allocation_refs remap row =
     row \<lparr> vf_subject := remap_subject remap (vf_subject row), vf_kind := remap_kind remap (vf_kind row) \<rparr>"

definition allocation_remap :: "allocation_token_fact list \<Rightarrow> (64 word, 64 word) fmap" where
  "allocation_remap rows = fm_collect (map (\<lambda>(index, row). (al_id row, of_nat index)) (List.enumerate 0 rows))"

definition value_output_normalized :: "interner_state \<Rightarrow> value_output \<Rightarrow> value_output option" where
  "value_output_normalized interner output = do {
     allocations \<leftarrow> sort_rows interner al_stable_key al_id (vo_allocations output);
     values \<leftarrow> sort_rows interner vf_stable_key vf_id (vo_values output);
     Some \<lparr> vo_values = renumber_rows (\<lambda>i row.
              remap_value_allocation_refs (allocation_remap allocations)
                (row \<lparr> vf_id := of_nat i, vf_value := of_nat i \<rparr>)) values,
            vo_allocations = renumber_rows (\<lambda>i row. row \<lparr> al_id := of_nat i \<rparr>) allocations \<rparr>
   }"

fun remap_type_shape_sets :: "(nat, nat) fmap \<Rightarrow> type_shape \<Rightarrow> type_shape" where
  "remap_type_shape_sets remap (Shape_Union sets) = Shape_Union (map (\<lambda>s. fm_get_or s remap s) sets)"
| "remap_type_shape_sets remap (Shape_Intersection sets) =
     Shape_Intersection (map (\<lambda>s. fm_get_or s remap s) sets)"
| "remap_type_shape_sets remap shape = shape"

definition type_set_remap :: "type_fact list \<Rightarrow> (nat, nat) fmap" where
  "type_set_remap rows =
     fold (\<lambda>(index, row). fm_or_insert (tf_type_set row) index) (List.enumerate 0 rows) fmempty"

definition renumber_type :: "(nat, nat) fmap \<Rightarrow> nat \<Rightarrow> type_fact \<Rightarrow> type_fact" where
  "renumber_type remap index row =
     row \<lparr> tf_id := index, tf_type_set := fm_get_or (tf_type_set row) remap (tf_type_set row),
           tf_shape := remap_type_shape_sets remap (tf_shape row) \<rparr>"

definition renumber_narrowed :: "(nat, nat) fmap \<Rightarrow> nat \<Rightarrow> narrowed_type_fact \<Rightarrow> narrowed_type_fact" where
  "renumber_narrowed remap index row =
     row \<lparr> nt_id := index, nt_type_set := fm_get_or (nt_type_set row) remap (nt_type_set row) \<rparr>"

definition type_output_normalized :: "interner_state \<Rightarrow> type_output \<Rightarrow> type_output option" where
  "type_output_normalized interner output = do {
     types \<leftarrow> sort_rows interner tf_stable_key tf_id (to_types output);
     narrowed \<leftarrow> sort_rows interner nt_stable_key nt_id (to_narrowed output);
     let remap = type_set_remap types;
     Some \<lparr> to_types = renumber_rows (renumber_type remap) types,
            to_narrowed = renumber_rows (renumber_narrowed remap) narrowed \<rparr>
   }"


section \<open>Stores\<close>

record type_store =
  tst_output :: type_output
  tst_by_language :: "(language, nat list) fmap"
  tst_by_function :: "(function_id, nat list) fmap"
  tst_by_place :: "(64 word, nat list) fmap"
  tst_by_status :: "(type_status, nat list) fmap"
  tst_by_precision :: "(type_precision, nat list) fmap"

definition type_store_from_normalized_output :: "type_output \<Rightarrow> type_store" where
  "type_store_from_normalized_output output =
     \<lparr> tst_output = output,
       tst_by_language = index_rows (\<lambda>row. [tf_language row]) (to_types output),
       tst_by_function = index_rows (\<lambda>row. case tf_function row of Some f \<Rightarrow> [f] | None \<Rightarrow> []) (to_types output),
       tst_by_place = index_rows (\<lambda>row. case tf_place row of Some p \<Rightarrow> [p] | None \<Rightarrow> []) (to_types output),
       tst_by_status = index_rows (\<lambda>row. [tf_status row]) (to_types output),
       tst_by_precision = index_rows (\<lambda>row. [tf_precision row]) (to_types output) \<rparr>"

definition type_store_from_output :: "interner_state \<Rightarrow> type_output \<Rightarrow> type_store option" where
  "type_store_from_output interner output =
     map_option type_store_from_normalized_output (type_output_normalized interner output)"

record value_store =
  vst_output :: value_output
  vst_by_language :: "(language, nat list) fmap"
  vst_by_function :: "(function_id, nat list) fmap"
  vst_by_status :: "(value_status, nat list) fmap"
  vst_allocations_by_kind :: "(allocation_kind, nat list) fmap"
  vst_by_place :: "(64 word, nat list) fmap"

definition value_store_from_normalized_output :: "value_output \<Rightarrow> value_store" where
  "value_store_from_normalized_output output =
     \<lparr> vst_output = output,
       vst_by_language = index_rows (\<lambda>row. [vf_language row]) (vo_values output),
       vst_by_function = index_rows (\<lambda>row. case vf_function row of Some f \<Rightarrow> [f] | None \<Rightarrow> []) (vo_values output),
       vst_by_status = index_rows (\<lambda>row. [vf_status row]) (vo_values output),
       vst_allocations_by_kind = index_rows (\<lambda>row. [al_kind row]) (vo_allocations output),
       vst_by_place = index_rows (\<lambda>row. case vf_subject row of Vs_Place p \<Rightarrow> [p] | _ \<Rightarrow> []) (vo_values output) \<rparr>"

definition value_store_from_output :: "interner_state \<Rightarrow> value_output \<Rightarrow> value_store option" where
  "value_store_from_output interner output =
     map_option value_store_from_normalized_output (value_output_normalized interner output)"

record access_path_store =
  ast_output :: access_path_output
  ast_by_language :: "(language, nat list) fmap"
  ast_by_function :: "(function_id, nat list) fmap"
  ast_by_base :: "(64 word, nat list) fmap"
  ast_by_status :: "(access_path_status, nat list) fmap"

definition access_path_store_from_normalized_output :: "access_path_output \<Rightarrow> access_path_store" where
  "access_path_store_from_normalized_output output =
     \<lparr> ast_output = output,
       ast_by_language = index_rows (\<lambda>row. [ap_language row]) (ao_access_paths output),
       ast_by_function =
         index_rows (\<lambda>row. case ap_function row of Some f \<Rightarrow> [f] | None \<Rightarrow> []) (ao_access_paths output),
       ast_by_base = index_rows (\<lambda>row. [ap_base row]) (ao_access_paths output),
       ast_by_status = index_rows (\<lambda>row. [ap_status row]) (ao_access_paths output) \<rparr>"

definition access_path_store_from_output :: "interner_state \<Rightarrow> access_path_output \<Rightarrow> access_path_store option" where
  "access_path_store_from_output interner output =
     map_option access_path_store_from_normalized_output (access_path_output_normalized interner output)"


section \<open>Normal forms are fixed points\<close>

abbreviation usize_index :: "nat \<Rightarrow> bool" where
  "usize_index n \<equiv> n < 2 ^ 64"

lemma of_nat_64_mono: "usize_index n \<Longrightarrow> m \<le> n \<Longrightarrow> (of_nat m :: 64 word) \<le> of_nat n"
  by (simp add: word_of_nat_less_eq_iff take_bit_nat_eq_self)

interpretation path_rows: plain_row_family ap_stable_key ap_id "\<lambda>i row. row \<lparr> ap_id := of_nat i \<rparr>" of_nat usize_index
  by unfold_locales (simp_all add: of_nat_64_mono)

interpretation allocation_rows:
  plain_row_family al_stable_key al_id "\<lambda>i row. row \<lparr> al_id := of_nat i \<rparr>" of_nat usize_index
  by unfold_locales (simp_all add: of_nat_64_mono)

interpretation value_rows:
  row_family vf_stable_key vf_id
    "\<lambda>i row. remap_value_allocation_refs remap (row \<lparr> vf_id := of_nat i, vf_value := of_nat i \<rparr>)" of_nat usize_index
  for remap
  by unfold_locales (simp_all add: remap_value_allocation_refs_def of_nat_64_mono)

interpretation type_rows: row_family tf_stable_key tf_id "renumber_type remap" "\<lambda>i. i" "\<lambda>_. True" for remap
  by unfold_locales (simp_all add: renumber_type_def)

interpretation narrowed_rows:
  row_family nt_stable_key nt_id "renumber_narrowed remap" "\<lambda>i. i" "\<lambda>_. True" for remap
  by unfold_locales (simp_all add: renumber_narrowed_def)

text \<open>A remap that moves nothing leaves the rows as they are.\<close>

definition fixes_all :: "('a, 'a) fmap \<Rightarrow> bool" where
  "fixes_all remap \<longleftrightarrow> (\<forall>a b. fmlookup remap a = Some b \<longrightarrow> b = a)"

lemma fm_get_or_fixes [simp]: "fixes_all remap \<Longrightarrow> fm_get_or a remap a = a"
  by (auto simp: fm_get_or_def fixes_all_def split: option.split)

lemma remap_subject_fixes [simp]: "fixes_all remap \<Longrightarrow> remap_subject remap subject = subject"
  by (cases subject) simp_all

lemma remap_kind_fixes [simp]: "fixes_all remap \<Longrightarrow> remap_kind remap kind = kind"
  by (cases kind) simp_all

lemma remap_shape_fixes [simp]: "fixes_all remap \<Longrightarrow> remap_type_shape_sets remap shape = shape"
  by (cases shape) (simp_all add: map_idI)

lemma remap_value_fixes [simp]: "fixes_all remap \<Longrightarrow> remap_value_allocation_refs remap row = row"
  by (simp add: remap_value_allocation_refs_def)

lemma allocation_remap_fixes:
  assumes "\<And>i. i < length rows \<Longrightarrow> al_id (rows ! i) = of_nat i"
  shows "fixes_all (allocation_remap rows)"
  unfolding fixes_all_def allocation_remap_def
  by (auto simp: in_set_enumerate_eq assms dest!: fm_collect_SomeD)

lemma lookup_type_set_remap:
  "fmlookup (type_set_remap rows) s =
     map_option fst (List.find (\<lambda>(i, row). tf_type_set row = s) (List.enumerate 0 rows))"
proof -
  have "fmlookup (fold (\<lambda>(i, row). fm_or_insert (tf_type_set row) i) ps m) s =
      (case fmlookup m s of Some i \<Rightarrow> Some i | None \<Rightarrow> map_option fst (List.find (\<lambda>(i, row). tf_type_set row = s) ps))"
    for ps and m :: "(nat, nat) fmap"
    by (induction ps arbitrary: m) (auto simp: lookup_fm_or_insert split: option.splits)
  from this [of "List.enumerate 0 rows" fmempty] show ?thesis by (simp add: type_set_remap_def)
qed

text \<open>The new name of a type set is the position of the first row that has it.\<close>

lemma type_set_remap_Some_iff:
  "fmlookup (type_set_remap rows) s = Some i \<longleftrightarrow>
     i < length rows \<and> tf_type_set (rows ! i) = s \<and> (\<forall>j < i. tf_type_set (rows ! j) \<noteq> s)"
proof
  assume "i < length rows \<and> tf_type_set (rows ! i) = s \<and> (\<forall>j < i. tf_type_set (rows ! j) \<noteq> s)"
  then have "List.find (\<lambda>(i, row). tf_type_set row = s) (List.enumerate 0 rows) = Some (i, rows ! i)"
    by (auto simp: find_Some_iff nth_enumerate_eq intro!: exI [of _ i])
  then show "fmlookup (type_set_remap rows) s = Some i" by (simp add: lookup_type_set_remap)
qed (auto simp: lookup_type_set_remap find_Some_iff nth_enumerate_eq)

lemma type_set_remap_own:
  assumes "j < length rows"
  obtains i where "fmlookup (type_set_remap rows) (tf_type_set (rows ! j)) = Some i" "i \<le> j"
proof -
  define P where "P i \<longleftrightarrow> i < length rows \<and> tf_type_set (rows ! i) = tf_type_set (rows ! j)" for i
  have "P j" using assms by (simp add: P_def)
  then obtain i where i: "P i" "\<And>k. k < i \<Longrightarrow> \<not> P k" using exists_least_iff [of P] by blast
  moreover have "i \<le> j" using i(2) \<open>P j\<close> not_le by blast
  ultimately show thesis using assms by (intro that [of i]) (auto simp: type_set_remap_Some_iff P_def)
qed

lemma type_set_remap_twice:
  "fixes_all (type_set_remap (renumber_rows (renumber_type (type_set_remap rows)) rows))"
proof -
  let ?R = "type_set_remap rows" let ?rows' = "renumber_rows (renumber_type ?R) rows"
  have set': "tf_type_set (?rows' ! j) = i"
    if "j < length rows" "fmlookup ?R (tf_type_set (rows ! j)) = Some i" for i j
    using that by (simp add: renumber_type_def)
  have "i = s" if "fmlookup (type_set_remap ?rows') s = Some i" for s i
  proof -
    from that have i: "i < length rows" "tf_type_set (?rows' ! i) = s" "\<forall>j < i. tf_type_set (?rows' ! j) \<noteq> s"
      unfolding type_set_remap_Some_iff length_renumber_rows by blast+
    obtain k where k: "fmlookup ?R (tf_type_set (rows ! i)) = Some k" "k \<le> i" by (rule type_set_remap_own [OF i(1)])
    then have "s = k" using set' [OF i(1)] i(2) by simp
    moreover have "tf_type_set (rows ! k) = tf_type_set (rows ! i)" using k(1) by (simp add: type_set_remap_Some_iff)
    then have "tf_type_set (?rows' ! k) = k" using set' [of k k] k i(1) by simp
    ultimately show ?thesis using i(3) k(2) by (metis le_neq_implies_less)
  qed
  then show ?thesis by (auto simp: fixes_all_def)
qed

lemma access_path_output_idem:
  assumes "access_path_output_normalized interner out = Some out'" and "length (ao_access_paths out) \<le> 2 ^ 64"
  shows "access_path_output_normalized interner out' = Some out'"
proof -
  from assms(1) obtain rows where rows: "out' = \<lparr> ao_access_paths = rows \<rparr>"
    "normalize_rows interner ap_stable_key ap_id (\<lambda>i row. row \<lparr> ap_id := of_nat i \<rparr>) (ao_access_paths out) = Some rows"
    by (auto simp: access_path_output_normalized_def)
  from path_rows.normalize_idem [OF rows(2)] assms(2) show ?thesis
    by (simp add: access_path_output_normalized_def rows(1))
qed

lemma value_output_SomeE:
  assumes "value_output_normalized interner out = Some out'"
  obtains allocations where
    "sort_rows interner al_stable_key al_id (vo_allocations out) = Some allocations"
    "normalize_rows interner al_stable_key al_id (\<lambda>i row. row \<lparr> al_id := of_nat i \<rparr>) (vo_allocations out) =
       Some (vo_allocations out')"
    "normalize_rows interner vf_stable_key vf_id
       (\<lambda>i row. remap_value_allocation_refs (allocation_remap allocations) (row \<lparr> vf_id := of_nat i, vf_value := of_nat i \<rparr>))
       (vo_values out) = Some (vo_values out')"
    "vo_allocations out' = renumber_rows (\<lambda>i row. row \<lparr> al_id := of_nat i \<rparr>) allocations"
  using assms by (auto simp: value_output_normalized_def bind_eq_Some_conv normalize_rows_def)

lemma value_output_idem:
  assumes run: "value_output_normalized interner out = Some out'"
    and lengths: "length (vo_allocations out) \<le> 2 ^ 64" "length (vo_values out) \<le> 2 ^ 64"
  shows "value_output_normalized interner out' = Some out'"
proof -
  from run obtain allocations where a:
    "normalize_rows interner al_stable_key al_id (\<lambda>i row. row \<lparr> al_id := of_nat i \<rparr>) (vo_allocations out) =
       Some (vo_allocations out')"
    and v: "normalize_rows interner vf_stable_key vf_id
       (\<lambda>i row. remap_value_allocation_refs (allocation_remap allocations) (row \<lparr> vf_id := of_nat i, vf_value := of_nat i \<rparr>))
       (vo_values out) = Some (vo_values out')"
    by (rule value_output_SomeE)
  have sorted: "sort_rows interner al_stable_key al_id (vo_allocations out') = Some (vo_allocations out')"
    "sort_rows interner vf_stable_key vf_id (vo_values out') = Some (vo_values out')"
    using allocation_rows.sort_normalized [OF a] value_rows.sort_normalized [OF v] lengths by simp_all
  have fx: "fixes_all (allocation_remap (vo_allocations out'))"
    by (rule allocation_remap_fixes) (rule allocation_rows.normalize_ids [OF a])
  from v obtain s where s: "vo_values out' = renumber_rows
      (\<lambda>i row. remap_value_allocation_refs (allocation_remap allocations) (row \<lparr> vf_id := of_nat i, vf_value := of_nat i \<rparr>)) s"
    by (rule value_rows.normalize_SomeE)
  have "renumber_rows (\<lambda>i row. row \<lparr> vf_id := of_nat i, vf_value := of_nat i \<rparr>) (vo_values out') = vo_values out'"
    unfolding s by (rule nth_equalityI) (simp_all add: remap_value_allocation_refs_def)
  then show ?thesis
    using sorted fx allocation_rows.renumber_normalized [OF a]
    by (simp add: value_output_normalized_def cong: if_cong)
qed

lemma type_output_idem:
  assumes "type_output_normalized interner out = Some out'"
  shows "type_output_normalized interner out' = Some out'"
proof -
  obtain types where sorted_types: "sort_rows interner tf_stable_key tf_id (to_types out) = Some types"
    and t: "normalize_rows interner tf_stable_key tf_id (renumber_type (type_set_remap types)) (to_types out) =
       Some (to_types out')"
    and n: "normalize_rows interner nt_stable_key nt_id (renumber_narrowed (type_set_remap types)) (to_narrowed out) =
       Some (to_narrowed out')"
    and eq: "to_types out' = renumber_rows (renumber_type (type_set_remap types)) types"
    using assms by (auto simp: type_output_normalized_def bind_eq_Some_conv normalize_rows_def Let_def)
  have fx: "fixes_all (type_set_remap (to_types out'))" unfolding eq by (rule type_set_remap_twice)
  from n obtain s where s: "to_narrowed out' = renumber_rows (renumber_narrowed (type_set_remap types)) s"
    by (rule narrowed_rows.normalize_SomeE)
  have "renumber_rows (renumber_type (type_set_remap (to_types out'))) (to_types out') = to_types out'"
    using fx by (intro nth_equalityI) (simp_all add: renumber_type_def eq)
  moreover have "renumber_rows (renumber_narrowed (type_set_remap (to_types out'))) (to_narrowed out') = to_narrowed out'"
    using fx by (intro nth_equalityI) (simp_all add: renumber_narrowed_def s)
  ultimately show ?thesis
    using type_rows.sort_normalized [OF t] narrowed_rows.sort_normalized [OF n]
    by (simp add: type_output_normalized_def)
qed


section \<open>References to allocations\<close>

text \<open>The stable key of the allocation a token names in an output, and the tokens of a value row.\<close>

definition allocation_key :: "value_output \<Rightarrow> 64 word \<Rightarrow> stable_key_id option" where
  "allocation_key out token = map_option al_stable_key (List.find (\<lambda>a. al_id a = token) (vo_allocations out))"

fun subject_tokens :: "value_subject \<Rightarrow> (64 word) list" where
  "subject_tokens (Vs_Allocation token) = [token]"
| "subject_tokens _ = []"

fun kind_tokens :: "value_kind \<Rightarrow> (64 word) list" where
  "kind_tokens (Vk_Object token) = [token]"
| "kind_tokens (Vk_Array token) = [token]"
| "kind_tokens (Vk_CompositeLiteral token) = [token]"
| "kind_tokens _ = []"

definition value_tokens :: "value_fact \<Rightarrow> (64 word) list" where
  "value_tokens row = subject_tokens (vf_subject row) @ kind_tokens (vf_kind row)"

definition described_values :: "value_output \<Rightarrow> (stable_key_id \<times> stable_key_id option list) multiset" where
  "described_values out = mset (map (\<lambda>v. (vf_stable_key v, map (allocation_key out) (value_tokens v))) (vo_values out))"

lemma value_tokens_remap:
  "value_tokens (remap_value_allocation_refs remap row) = map (\<lambda>t. fm_get_or t remap t) (value_tokens row)"
  by (cases "vf_subject row"; cases "vf_kind row") (simp_all add: value_tokens_def remap_value_allocation_refs_def)

lemma find_distinct_key: "distinct (map f xs) \<Longrightarrow> x \<in> set xs \<Longrightarrow> List.find (\<lambda>y. f y = f x) xs = Some x"
  by (induction xs) (auto simp: image_iff)

lemma allocation_key_row:
  "distinct (map al_id (vo_allocations out)) \<Longrightarrow> a \<in> set (vo_allocations out) \<Longrightarrow>
   allocation_key out (al_id a) = Some (al_stable_key a)"
  by (simp add: allocation_key_def find_distinct_key)

lemma remapped_allocation_key:
  assumes run: "value_output_normalized interner out = Some out'"
    and dist: "distinct (map al_id (vo_allocations out))" and len: "length (vo_allocations out) \<le> 2 ^ 64"
    and sorted: "sort_rows interner al_stable_key al_id (vo_allocations out) = Some allocations"
    and tok: "t \<in> al_id ` set (vo_allocations out)"
  shows "allocation_key out' (fm_get_or t (allocation_remap allocations) t) = allocation_key out t"
proof -
  have out': "vo_allocations out' = renumber_rows (\<lambda>i row. row \<lparr> al_id := of_nat i \<rparr>) allocations"
    using run sorted by (auto simp: value_output_normalized_def bind_eq_Some_conv)
  note perm = mset_sort_rows [OF sorted]
  have dist': "distinct (map al_id allocations)"
    using dist arg_cong [OF perm, of "image_mset al_id"] by (metis mset_map mset_eq_imp_distinct_iff)
  have len': "length allocations \<le> 2 ^ 64" using len mset_eq_length [OF perm] by simp
  have keys: "map fst (map (\<lambda>(i, row). (al_id row, of_nat i :: 64 word)) (List.enumerate 0 allocations)) = map al_id allocations"
    by (rule nth_equalityI) (simp_all add: nth_enumerate_eq)
  obtain i where i: "i < length allocations" "al_id (allocations ! i) = t"
    using tok set_sort_rows [OF sorted] by (metis imageE in_set_conv_nth)
  have "fmlookup (allocation_remap allocations) t = Some (of_nat i)"
    unfolding allocation_remap_def
    by (subst lookup_fm_collect_distinct) (use dist' keys i in \<open>auto simp: in_set_enumerate_eq intro!: image_eqI [of _ _ "(i, allocations ! i)"]\<close>)
  then have "fm_get_or t (allocation_remap allocations) t = al_id (vo_allocations out' ! i)"
    using i by (simp add: out')
  moreover have "distinct (map al_id (vo_allocations out'))"
    unfolding out' distinct_conv_nth using len' by (auto simp: word_of_nat_eq_iff take_bit_nat_eq_self)
  then have "allocation_key out' (al_id (vo_allocations out' ! i)) = Some (al_stable_key (vo_allocations out' ! i))"
    by (rule allocation_key_row) (rule nth_mem, use i in \<open>simp add: out'\<close>)
  moreover have "allocation_key out t = Some (al_stable_key (allocations ! i))"
    using allocation_key_row [OF dist, of "allocations ! i"] i set_sort_rows [OF sorted] nth_mem by auto
  ultimately show ?thesis using i by (simp add: out')
qed

text \<open>
  Normalising the values of one front end keeps their meaning: as long as allocation ids are
  distinct and every token is listed, each value row still refers, after both tables were sorted and
  renumbered, to the allocation with the same stable key.
\<close>

theorem value_references_preserved:
  assumes run: "value_output_normalized interner out = Some out'"
    and dist: "distinct (map al_id (vo_allocations out))" and len: "length (vo_allocations out) \<le> 2 ^ 64"
    and listed: "list_all (\<lambda>v. set (value_tokens v) \<subseteq> al_id ` set (vo_allocations out)) (vo_values out)"
  shows "described_values out' = described_values out"
proof -
  obtain allocations vals where a: "sort_rows interner al_stable_key al_id (vo_allocations out) = Some allocations"
    and v: "sort_rows interner vf_stable_key vf_id (vo_values out) = Some vals"
    and out': "vo_values out' = renumber_rows (\<lambda>i row.
       remap_value_allocation_refs (allocation_remap allocations) (row \<lparr> vf_id := of_nat i, vf_value := of_nat i \<rparr>)) vals"
    using run by (auto simp: value_output_normalized_def bind_eq_Some_conv)
  let ?f = "\<lambda>out v. (vf_stable_key v, map (allocation_key out) (value_tokens v))"
  have tokens: "value_tokens (row \<lparr> vf_id := j, vf_value := k \<rparr>) = value_tokens row" for row j k
    by (simp add: value_tokens_def)
  have "map (?f out') (vo_values out') = map (?f out) vals"
  proof (rule nth_equalityI)
    fix i assume "i < length (map (?f out') (vo_values out'))"
    then have i: "i < length vals" by (simp add: out')
    then have "set (value_tokens (vals ! i)) \<subseteq> al_id ` set (vo_allocations out)"
      using listed set_sort_rows [OF v] nth_mem by (force simp: list_all_iff)
    then have "map (\<lambda>t. allocation_key out' (fm_get_or t (allocation_remap allocations) t)) (value_tokens (vals ! i)) =
        map (allocation_key out) (value_tokens (vals ! i))"
      by (auto intro!: remapped_allocation_key [OF run dist len a])
    then show "map (?f out') (vo_values out') ! i = map (?f out) vals ! i"
      using i by (simp add: out' value_tokens_remap tokens comp_def) (simp add: remap_value_allocation_refs_def)
  qed (simp add: out')
  then show ?thesis unfolding described_values_def by (simp add: mset_sort_rows [OF v])
qed

definition sample_allocation :: "64 word \<Rightarrow> stable_key_id \<Rightarrow> allocation_token_fact" where
  "sample_allocation i key =
     \<lparr> al_id = i, al_kind = Ak_CompositeLiteral, al_language = Lang_Go, al_file = None, al_function = None,
       al_body = None, al_source_place = None, al_source_operation = None, al_span = None,
       al_provenance = Vpr_Native, al_stable_key = key \<rparr>"

definition sample_value :: "64 word \<Rightarrow> 64 word \<Rightarrow> stable_key_id \<Rightarrow> value_fact" where
  "sample_value i token key =
     \<lparr> vf_id = i, vf_subject = Vs_Synthetic [], vf_value = i, vf_kind = Vk_Object token, vf_language = Lang_Go,
       vf_file = None, vf_function = None, vf_body = None, vf_precision = Vp_ExactLocal, vf_status = Vst_Present,
       vf_provenance = Vpr_Native, vf_stable_key = key \<rparr>"

definition sample_rows :: interner_state where
  "sample_rows = \<lparr> keys = [''alloc:z'', ''alloc:a'', ''value:z'', ''value:a''],
     ids = fmap_of_list [(''alloc:z'', 0), (''alloc:a'', 1), (''value:z'', 2), (''value:a'', 3)] \<rparr>"

definition sample_values :: value_output where
  "sample_values = \<lparr> vo_values = [sample_value 0 0 2, sample_value 1 1 3],
     vo_allocations = [sample_allocation 0 0, sample_allocation 1 1] \<rparr>"

definition sample_values_normal :: value_output where
  "sample_values_normal = \<lparr> vo_values = [sample_value 0 0 3, sample_value 1 1 2],
     vo_allocations = [sample_allocation 0 1, sample_allocation 1 0] \<rparr>"

lemma sample_values_normalized: "value_output_normalized sample_rows sample_values = Some sample_values_normal"
  by (simp add: value_output_normalized_def sample_values_def sample_values_normal_def sort_rows_def resolve_def
      sample_rows_def sample_value_def sample_allocation_def renumber_rows_def allocation_remap_def fm_collect_def
      remap_value_allocation_refs_def fm_get_or_def less_eq_char_def less_char_def)

theorem value_references_preserved_witness:
  "described_values sample_values_normal = described_values sample_values \<and>
   allocation_key sample_values_normal 0 = Some 1"
proof
  show "described_values sample_values_normal = described_values sample_values"
    by (rule value_references_preserved [OF sample_values_normalized])
      (simp_all add: sample_values_def sample_value_def sample_allocation_def value_tokens_def)
  show "allocation_key sample_values_normal 0 = Some 1"
    by (simp add: allocation_key_def sample_values_normal_def sample_allocation_def)
qed

end
