(* ===== verification/Points_To_Constraints.thy ===== *)
theory Points_To_Constraints
  imports Points_To_Exact Type_Value
begin

text \<open>
  The constraint builder of \<open>analysis_neutral/points_to/constraints.rs\<close>: values, allocations and access
  paths become inclusion constraints, with stable keys interned on the way. The builder's state is the
  list of constraints and the interner; a panic is \<open>None\<close>.
\<close>

section \<open>The builder\<close>

type_synonym builder = "points_to_constraint_fact list \<times> interner_state"

definition constraint_stable_key ::
  "(string \<Rightarrow> 8 word list) \<Rightarrow> string \<Rightarrow> string \<Rightarrow> interner_state \<Rightarrow> (stable_key_id \<times> interner_state) option" where
  "constraint_stable_key sha256 source_identity relation interner =
     stable_key_from_parts sha256 Ff_PointsToConstraint
       [(''source'', source_identity), (''relation'', relation)] interner"

definition push_constraint ::
  "(string \<Rightarrow> 8 word list) \<Rightarrow> points_to_constraint_kind \<Rightarrow> string \<Rightarrow> string \<Rightarrow> builder \<Rightarrow> builder option" where
  "push_constraint sha256 kind source_identity relation acc = do {
     (key, interner) \<leftarrow> constraint_stable_key sha256 source_identity relation (snd acc);
     Some (fst acc @ [\<lparr> pc_id = length (fst acc), pc_kind = kind, pc_status = Pts_Present,
                        pc_precision = Ptp_FlowInsensitive, pc_stable_key = key \<rparr>], interner)
   }"

text \<open>\<open>None\<close> outside is the panic of the id encoding, \<open>None\<close> inside a subject without a variable.\<close>

fun subject_var :: "value_subject \<Rightarrow> pt_var option option" where
  "subject_var (Vs_Place place) = map_option Some (place_var place)"
| "subject_var (Vs_Operation operation) = map_option Some (operation_var operation)"
| "subject_var (Vs_Allocation allocation) = map_option Some (allocation_var allocation)"
| "subject_var (Vs_Synthetic _) = Some None"
| "subject_var (Vs_Unknown _) = Some None"

definition push_address ::
  "(string \<Rightarrow> 8 word list) \<Rightarrow> pt_var \<Rightarrow> object_token option \<Rightarrow> string \<Rightarrow> string \<Rightarrow> builder \<Rightarrow> builder option" where
  "push_address sha256 dst object source_identity relation acc = do {
     token \<leftarrow> object;
     push_constraint sha256 (AddressOf dst token) source_identity relation acc
   }"

definition push_place_copy ::
  "(string \<Rightarrow> 8 word list) \<Rightarrow> pt_var \<Rightarrow> 64 word \<Rightarrow> string \<Rightarrow> string \<Rightarrow> builder \<Rightarrow> builder option" where
  "push_place_copy sha256 dst place source_identity relation acc = do {
     src \<leftarrow> place_var place;
     push_constraint sha256 (Copy dst src) source_identity relation acc
   }"

definition collect_kind ::
  "(string \<Rightarrow> 8 word list) \<Rightarrow> value_fact \<Rightarrow> pt_var \<Rightarrow> string \<Rightarrow> builder \<Rightarrow> builder option" where
  "collect_kind sha256 row dst source_identity acc =
     (case vf_kind row of
        Vk_Object object \<Rightarrow> push_address sha256 dst (allocation_object object) source_identity ''value_object'' acc
      | Vk_Array object \<Rightarrow> push_address sha256 dst (allocation_object object) source_identity ''value_object'' acc
      | Vk_CompositeLiteral object \<Rightarrow>
          push_address sha256 dst (allocation_object object) source_identity ''value_object'' acc
      | Vk_PlaceRef src \<Rightarrow> push_place_copy sha256 dst src source_identity ''place_copy'' acc
      | Vk_CallReturn place \<Rightarrow>
          (if vf_status row = Vst_Present then do {
             acc' \<leftarrow> push_constraint sha256 (CallReturn dst (vf_id row)) source_identity ''call_return_value'' acc;
             push_place_copy sha256 dst place source_identity ''call_return_place'' acc'
           } else Some acc)
      | Vk_FunctionObject \<Rightarrow>
          push_address sha256 dst (abstract_value_object (vf_value row)) source_identity ''abstract_value_object'' acc
      | Vk_ClassObject \<Rightarrow>
          push_address sha256 dst (abstract_value_object (vf_value row)) source_identity ''abstract_value_object'' acc
      | Vk_ModuleObject \<Rightarrow>
          push_address sha256 dst (abstract_value_object (vf_value row)) source_identity ''abstract_value_object'' acc
      | _ \<Rightarrow> Some acc)"

definition collect_value :: "(string \<Rightarrow> 8 word list) \<Rightarrow> value_fact \<Rightarrow> builder \<Rightarrow> builder option" where
  "collect_value sha256 row acc = do {
     subject \<leftarrow> subject_var (vf_subject row);
     case subject of
       None \<Rightarrow> Some acc
     | Some dst \<Rightarrow> do {
         source_identity \<leftarrow> resolve (snd acc) (vf_stable_key row);
         collect_kind sha256 row dst source_identity acc
       }
   }"

definition collect_values :: "(string \<Rightarrow> 8 word list) \<Rightarrow> value_fact list \<Rightarrow> builder \<Rightarrow> builder option" where
  "collect_values sha256 = try_fold (collect_value sha256)"

definition collect_allocation ::
  "(string \<Rightarrow> 8 word list) \<Rightarrow> allocation_token_fact \<Rightarrow> builder \<Rightarrow> builder option" where
  "collect_allocation sha256 allocation acc =
     (case al_source_place allocation of
        None \<Rightarrow> Some acc
      | Some place \<Rightarrow> do {
          source_identity \<leftarrow> resolve (snd acc) (al_stable_key allocation);
          dst \<leftarrow> place_var place;
          push_address sha256 dst (allocation_object (al_id allocation)) source_identity
            ''allocation_source_place'' acc
        })"

definition collect_allocations ::
  "(string \<Rightarrow> 8 word list) \<Rightarrow> allocation_token_fact list \<Rightarrow> builder \<Rightarrow> builder option" where
  "collect_allocations sha256 = try_fold (collect_allocation sha256)"


section \<open>Access paths\<close>

fun projection_identity :: "access_path_projection \<Rightarrow> string" where
  "projection_identity (Proj_Field field) = ''field:'' @ field"
| "projection_identity (Proj_Property property) = ''property:'' @ property"
| "projection_identity (Proj_IndexKnown index) = ''index_known:'' @ index"
| "projection_identity (Proj_IndexUnknown evidence) = ''index_unknown:'' @ evidence"
| "projection_identity Proj_Deref = ''deref''"
| "projection_identity Proj_AwaitResult = ''await_result''"
| "projection_identity (Proj_CallReturn _) = ''call_return''"
| "projection_identity (Proj_Unknown evidence) = ''unknown:'' @ evidence"

definition projection_source_identity ::
  "(string \<Rightarrow> 8 word list) \<Rightarrow> string \<Rightarrow> string list \<Rightarrow> string" where
  "projection_source_identity sha256 path_identity projection_prefix =
     stable_key_text_from_parts sha256 Ff_AccessPath
       [(''path'', path_identity),
        (''projection_prefix'',
         concat (map (\<lambda>projection. show_nat (length projection) @ '':'' @ projection) projection_prefix))]"

text \<open>The variable a projection of a path defines: the path itself for the last one.\<close>

definition projection_dst :: "access_path_fact \<Rightarrow> nat \<Rightarrow> pt_var option" where
  "projection_dst path index =
     (if index + 1 = length (ap_projections path) then access_path_var (ap_id path)
      else access_path_prefix_var (ap_id path) index)"

definition push_pair ::
  "(string \<Rightarrow> 8 word list) \<Rightarrow> points_to_constraint_kind \<Rightarrow> string \<Rightarrow> points_to_constraint_kind \<Rightarrow> string \<Rightarrow>
     string \<Rightarrow> builder \<Rightarrow> builder option" where
  "push_pair sha256 load load_relation store store_relation source_identity acc = do {
     acc' \<leftarrow> push_constraint sha256 load source_identity load_relation acc;
     push_constraint sha256 store source_identity store_relation acc'
   }"

fun collect_projection ::
  "(string \<Rightarrow> 8 word list) \<Rightarrow> access_path_projection \<Rightarrow> pt_var \<Rightarrow> pt_var \<Rightarrow> string \<Rightarrow> builder \<Rightarrow> builder option" where
  "collect_projection sha256 (Proj_Field field) dst base source_identity acc =
     push_pair sha256 (FieldLoad dst base field) ''field_load'' (FieldStore base field dst) ''field_store''
       source_identity acc"
| "collect_projection sha256 (Proj_Property field) dst base source_identity acc =
     push_pair sha256 (FieldLoad dst base field) ''field_load'' (FieldStore base field dst) ''field_store''
       source_identity acc"
| "collect_projection sha256 (Proj_IndexKnown index) dst base source_identity acc =
     push_pair sha256 (ElementLoad dst base index) ''element_load'' (ElementStore base index dst) ''element_store''
       source_identity acc"
| "collect_projection sha256 (Proj_IndexUnknown evidence) dst base source_identity acc =
     push_pair sha256 (ElementLoad dst base (''unknown:'' @ evidence)) ''unknown_element_load''
       (ElementStore base (''unknown:'' @ evidence) dst) ''unknown_element_store'' source_identity acc"
| "collect_projection sha256 Proj_Deref dst base source_identity acc =
     push_pair sha256 (Load dst base) ''load'' (Store base dst) ''store'' source_identity acc"
| "collect_projection sha256 (Proj_CallReturn _) dst base source_identity acc =
     push_constraint sha256 (SummaryFlow dst base source_identity) source_identity ''call_return'' acc"
| "collect_projection sha256 Proj_AwaitResult dst base source_identity acc = Some acc"
| "collect_projection sha256 (Proj_Unknown _) dst base source_identity acc = Some acc"

definition projection_step ::
  "(string \<Rightarrow> 8 word list) \<Rightarrow> access_path_fact \<Rightarrow> string \<Rightarrow> nat \<times> access_path_projection \<Rightarrow>
     string list \<times> pt_var \<times> builder \<Rightarrow> (string list \<times> pt_var \<times> builder) option" where
  "projection_step sha256 path path_identity entry st = do {
     let (projection_prefix, base, acc) = st;
     let prefix = projection_prefix @ [projection_identity (snd entry)];
     let source_identity = projection_source_identity sha256 path_identity prefix;
     dst \<leftarrow> projection_dst path (fst entry);
     acc' \<leftarrow> collect_projection sha256 (snd entry) dst base source_identity acc;
     Some (prefix, dst, acc')
   }"

definition collect_access_path :: "(string \<Rightarrow> 8 word list) \<Rightarrow> access_path_fact \<Rightarrow> builder \<Rightarrow> builder option" where
  "collect_access_path sha256 path acc = do {
     path_identity \<leftarrow> resolve (snd acc) (ap_stable_key path);
     base \<leftarrow> place_var (ap_base path);
     (_, _, acc') \<leftarrow> try_fold (projection_step sha256 path path_identity)
        (List.enumerate 0 (ap_projections path)) ([], base, acc);
     Some acc'
   }"

definition collect_access_paths ::
  "(string \<Rightarrow> 8 word list) \<Rightarrow> access_path_fact list \<Rightarrow> builder \<Rightarrow> builder option" where
  "collect_access_paths sha256 = try_fold (collect_access_path sha256)"


section \<open>The derived constraints\<close>

fun dedup_by_key :: "('a \<Rightarrow> 'k) \<Rightarrow> 'a list \<Rightarrow> 'a list" where
  "dedup_by_key f [] = []"
| "dedup_by_key f [x] = [x]"
| "dedup_by_key f (x # y # ys) =
     (if f x = f y then dedup_by_key f (x # ys) else x # dedup_by_key f (y # ys))"

text \<open>The rows are sorted by their key alone; the sort is stable.\<close>

definition finish_constraints :: "builder \<Rightarrow> points_to_constraint_fact list option" where
  "finish_constraints acc =
     map_option (\<lambda>rows. renumber_rows (\<lambda>i row. row \<lparr> pc_id := i \<rparr>) (dedup_by_key pc_stable_key rows))
       (sort_rows (snd acc) pc_stable_key (\<lambda>_. 0 :: nat) (fst acc))"

definition derive_points_to_constraints ::
  "(string \<Rightarrow> 8 word list) \<Rightarrow> interner_state \<Rightarrow> value_output \<Rightarrow> access_path_output \<Rightarrow>
     (points_to_constraint_fact list \<times> interner_state) option" where
  "derive_points_to_constraints sha256 interner vals paths = do {
     acc \<leftarrow> collect_values sha256 (vo_values vals) ([], interner);
     acc \<leftarrow> collect_allocations sha256 (vo_allocations vals) acc;
     acc \<leftarrow> collect_access_paths sha256 (ao_access_paths paths) acc;
     rows \<leftarrow> finish_constraints acc;
     Some (rows, snd acc)
   }"


section \<open>The shape of the derived constraints\<close>

definition value_source :: "var_source \<Rightarrow> bool" where
  "value_source a \<longleftrightarrow> (\<exists>i. a = Var_Place i \<or> a = Var_Operation i \<or> a = Var_Allocation i)"

definition value_var :: "pt_var \<Rightarrow> bool" where
  "value_var v \<longleftrightarrow> (\<exists>a. value_source a \<and> source_var a = Some v)"

text \<open>The source of the variable that stands for a projection of a path.\<close>

definition projection_source :: "access_path_fact \<Rightarrow> nat \<Rightarrow> var_source" where
  "projection_source path index =
     (if index + 1 = length (ap_projections path) then Var_Access_Path (ap_id path)
      else Var_Access_Path_Prefix (ap_id path) index)"

lemma projection_dst_source: "projection_dst path index = source_var (projection_source path index)"
  by (simp add: projection_dst_def projection_source_def)

definition projection_var :: "access_path_fact list \<Rightarrow> access_path_projection \<Rightarrow> pt_var \<Rightarrow> bool" where
  "projection_var paths projection v \<longleftrightarrow>
     (\<exists>path \<in> set paths. \<exists>i < length (ap_projections path).
        projection = ap_projections path ! i \<and> projection_dst path i = Some v)"

fun projection_kinds :: "access_path_projection \<Rightarrow> pt_var \<Rightarrow> pt_var \<Rightarrow> points_to_constraint_kind set" where
  "projection_kinds (Proj_Field field) dst base = {FieldLoad dst base field, FieldStore base field dst}"
| "projection_kinds (Proj_Property field) dst base = {FieldLoad dst base field, FieldStore base field dst}"
| "projection_kinds (Proj_IndexKnown index) dst base = {ElementLoad dst base index, ElementStore base index dst}"
| "projection_kinds (Proj_IndexUnknown evidence) dst base =
     {ElementLoad dst base (''unknown:'' @ evidence), ElementStore base (''unknown:'' @ evidence) dst}"
| "projection_kinds Proj_Deref dst base = {Load dst base, Store base dst}"
| "projection_kinds (Proj_CallReturn _) dst base = range (SummaryFlow dst base)"
| "projection_kinds _ dst base = {}"

inductive derived_kind :: "access_path_fact list \<Rightarrow> points_to_constraint_kind \<Rightarrow> bool"
  for paths :: "access_path_fact list" where
  address: "value_var dst \<Longrightarrow> derived_kind paths (AddressOf dst obj)"
| place_copy: "value_var dst \<Longrightarrow> value_var src \<Longrightarrow> derived_kind paths (Copy dst src)"
| call_return: "value_var dst \<Longrightarrow> derived_kind paths (CallReturn dst fact_id)"
| projected: "projection_var paths projection dst \<Longrightarrow> value_var base \<or> (\<exists>q. projection_var paths q base) \<Longrightarrow>
    k \<in> projection_kinds projection dst base \<Longrightarrow> derived_kind paths k"

inductive_cases derived_kindE: "derived_kind paths k"

definition builds :: "access_path_fact list \<Rightarrow> builder \<Rightarrow> bool" where
  "builds paths acc \<longleftrightarrow> (\<forall>c \<in> set (fst acc). derived_kind paths (pc_kind c))"

lemma push_builds:
  "push_constraint sha256 k identity relation acc = Some acc' \<Longrightarrow> builds paths acc \<Longrightarrow> derived_kind paths k \<Longrightarrow>
   builds paths acc'"
  by (auto simp: push_constraint_def builds_def bind_eq_Some_conv)

lemma value_var_place: "place_var i = Some v \<Longrightarrow> value_var v"
  unfolding value_var_def value_source_def by (rule exI [of _ "Var_Place i"]) simp

lemma subject_value_var:
  assumes "subject_var subject = Some (Some v)"
  shows "value_var v"
proof (cases subject)
  case (Vs_Operation i)
  with assms show ?thesis
    unfolding value_var_def value_source_def by (intro exI [of _ "Var_Operation i"]) simp
next
  case (Vs_Allocation i)
  with assms show ?thesis
    unfolding value_var_def value_source_def by (intro exI [of _ "Var_Allocation i"]) simp
qed (use assms in \<open>auto intro: value_var_place\<close>)

lemma push_address_builds:
  "push_address sha256 dst obj identity relation acc = Some acc' \<Longrightarrow> builds paths acc \<Longrightarrow> value_var dst \<Longrightarrow>
   builds paths acc'"
  by (auto simp: push_address_def bind_eq_Some_conv intro: push_builds address)

lemma push_place_copy_builds:
  "push_place_copy sha256 dst place identity relation acc = Some acc' \<Longrightarrow> builds paths acc \<Longrightarrow> value_var dst \<Longrightarrow>
   builds paths acc'"
  by (auto simp: push_place_copy_def bind_eq_Some_conv intro: push_builds place_copy value_var_place)

lemma collect_value_builds:
  assumes "collect_value sha256 row acc = Some acc'" and "builds paths acc"
  shows "builds paths acc'"
proof (cases "subject_var (vf_subject row)")
  case (Some subject)
  show ?thesis
  proof (cases subject)
    case None
    with Some assms show ?thesis by (simp add: collect_value_def)
  next
    case (Some dst)
    with \<open>subject_var _ = Some subject\<close> have "value_var dst" by (auto intro: subject_value_var)
    moreover obtain identity where "collect_kind sha256 row dst identity acc = Some acc'"
      using assms(1) \<open>subject_var _ = Some subject\<close> Some by (auto simp: collect_value_def bind_eq_Some_conv)
    ultimately show ?thesis using assms(2)
      by (auto simp: collect_kind_def bind_eq_Some_conv split: value_kind.splits if_splits
          intro: push_address_builds push_place_copy_builds push_builds call_return)
  qed
qed (use assms in \<open>simp add: collect_value_def\<close>)

lemma collect_allocation_builds:
  "collect_allocation sha256 row acc = Some acc' \<Longrightarrow> builds paths acc \<Longrightarrow> builds paths acc'"
  by (auto simp: collect_allocation_def bind_eq_Some_conv split: option.splits
      intro: push_address_builds value_var_place)

lemma collect_projection_builds:
  assumes "collect_projection sha256 projection dst base identity acc = Some acc'" and "builds paths acc"
    and kinds: "\<And>k. k \<in> projection_kinds projection dst base \<Longrightarrow> derived_kind paths k"
  shows "builds paths acc'"
proof (cases projection)
  case (Proj_CallReturn site)
  with assms show ?thesis by (auto intro: push_builds)
qed (use assms in \<open>auto simp: push_pair_def bind_eq_Some_conv intro: push_builds\<close>)

lemma projection_step_builds:
  assumes "projection_step sha256 path identity entry (pre, base, acc) = Some (pre', base', acc')"
    and "entry \<in> set (List.enumerate 0 (ap_projections path))" and "path \<in> set paths"
    and "builds paths acc" and base: "value_var base \<or> (\<exists>q. projection_var paths q base)"
  shows "builds paths acc' \<and> (\<exists>q. projection_var paths q base')"
proof -
  obtain identity' where dst: "projection_dst path (fst entry) = Some base'"
    and run: "collect_projection sha256 (snd entry) base' base identity' acc = Some acc'"
    using assms(1) by (auto simp: projection_step_def bind_eq_Some_conv Let_def)
  have var: "projection_var paths (snd entry) base'"
    using assms(2,3) dst unfolding projection_var_def
    by (intro bexI [of _ path] exI [of _ "fst entry"]) (auto simp: in_set_enumerate_eq)
  have "builds paths acc'"
    by (rule collect_projection_builds [OF run assms(4)]) (rule projected [OF var base])
  with var show ?thesis by blast
qed

lemma collect_access_path_builds:
  assumes "collect_access_path sha256 path acc = Some acc'" and "path \<in> set paths" and "builds paths acc"
  shows "builds paths acc'"
proof -
  obtain identity base pre' base' where base: "place_var (ap_base path) = Some base"
    and run: "try_fold (projection_step sha256 path identity) (List.enumerate 0 (ap_projections path)) ([], base, acc) =
       Some (pre', base', acc')"
    using assms(1) by (auto simp: collect_access_path_def bind_eq_Some_conv)
  let ?P = "\<lambda>(pre :: string list, base, acc). builds paths acc \<and> (value_var base \<or> (\<exists>q. projection_var paths q base))"
  have "?P (pre', base', acc')"
  proof (rule try_fold_invariant [OF run])
    show "?P ([], base, acc)" using assms(3) base by (auto intro: value_var_place)
    show "?P t" if "entry \<in> set (List.enumerate 0 (ap_projections path))" "?P s"
      "projection_step sha256 path identity entry s = Some t" for entry s t
      using that projection_step_builds [OF _ that(1) assms(2)] by (cases s; cases t) blast
  qed
  then show ?thesis by simp
qed

lemma set_dedup_by_key: "set (dedup_by_key f xs) \<subseteq> set xs"
  by (induction f xs rule: dedup_by_key.induct) auto

lemma finish_kinds:
  assumes "finish_constraints acc = Some rows"
  shows "pc_kind ` set rows \<subseteq> pc_kind ` set (fst acc)"
proof -
  obtain s where s: "sort_rows (snd acc) pc_stable_key (\<lambda>_. 0 :: nat) (fst acc) = Some s"
    "rows = renumber_rows (\<lambda>i row. row \<lparr> pc_id := i \<rparr>) (dedup_by_key pc_stable_key s)"
    using assms by (auto simp: finish_constraints_def)
  have "map pc_kind rows = map pc_kind (dedup_by_key pc_stable_key s)"
    unfolding s(2) by (rule map_renumber_rows) simp
  then have "pc_kind ` set rows = pc_kind ` set (dedup_by_key pc_stable_key s)" by (metis set_map)
  with set_dedup_by_key [of pc_stable_key s] set_sort_rows [OF s(1)] show ?thesis by auto
qed

lemma derived_kinds:
  assumes "derive_points_to_constraints sha256 interner vals paths = Some (rows, interner')"
    and "k \<in> pc_kind ` set rows"
  shows "derived_kind (ao_access_paths paths) k"
proof -
  let ?B = "builds (ao_access_paths paths)"
  obtain a b c where run: "collect_values sha256 (vo_values vals) ([], interner) = Some a"
    "collect_allocations sha256 (vo_allocations vals) a = Some b"
    "collect_access_paths sha256 (ao_access_paths paths) b = Some c" "finish_constraints c = Some rows"
    using assms(1) by (auto simp: derive_points_to_constraints_def bind_eq_Some_conv)
  have "?B ([], interner)" by (simp add: builds_def)
  then have "?B a" by (rule try_fold_invariant [OF run(1) [unfolded collect_values_def]]) (rule collect_value_builds)
  then have "?B b"
    by (rule try_fold_invariant [OF run(2) [unfolded collect_allocations_def]]) (rule collect_allocation_builds)
  then have "?B c"
    by (rule try_fold_invariant [OF run(3) [unfolded collect_access_paths_def]]) (rule collect_access_path_builds)
  with finish_kinds [OF run(4)] assms(2) show ?thesis by (auto simp: builds_def)
qed


section \<open>Only copies carry objects\<close>

lemma source_not_slot:
  assumes "source_var a = Some v" and "\<And>n. a \<noteq> Var_Dynamic n"
  shows "\<not> is_slot_var v"
  using source_var_tag [OF assms(1)] assms(2) by (cases a) (auto simp: is_slot_var_def tag_defs)

lemma value_source_not_dynamic: "value_source a \<Longrightarrow> a \<noteq> Var_Dynamic n"
  by (auto simp: value_source_def)

lemma projection_source_not_dynamic [simp]: "projection_source path i \<noteq> Var_Dynamic n"
  by (simp add: projection_source_def)

lemma value_var_not_slot: "value_var v \<Longrightarrow> \<not> is_slot_var v"
  unfolding value_var_def by (elim exE conjE, rule source_not_slot) (auto dest: value_source_not_dynamic)

lemma projection_var_source:
  assumes "projection_var paths projection v"
  obtains path i where "path \<in> set paths" "i < length (ap_projections path)" "projection = ap_projections path ! i"
    "source_var (projection_source path i) = Some v"
  using assms by (auto simp: projection_var_def projection_dst_source)

lemma projection_var_not_slot: "projection_var paths projection v \<Longrightarrow> \<not> is_slot_var v"
  by (erule projection_var_source, erule source_not_slot) simp

lemma derived_kind_vars:
  assumes "derived_kind paths k"
  shows "list_all (\<lambda>v. \<not> is_slot_var v) (constraint_vars k)"
  using assms
proof cases
  case (projected projection dst base)
  then have "\<not> is_slot_var dst" "\<not> is_slot_var base"
    using projection_var_not_slot value_var_not_slot by blast+
  with projected(3) show ?thesis by (cases projection) auto
qed (simp_all add: value_var_not_slot)

lemma value_projection_disjoint: "value_var v \<Longrightarrow> \<not> projection_var paths projection v"
proof
  assume "value_var v" and p: "projection_var paths projection v"
  then obtain a where a: "value_source a" "source_var a = Some v" by (auto simp: value_var_def)
  from p obtain path i where "source_var (projection_source path i) = Some v" by (rule projection_var_source)
  with a(2) have "a = projection_source path i"
    by (rule source_var_inject) (use a(1) in \<open>auto dest: value_source_not_dynamic\<close>)
  with a(1) show False by (auto simp: projection_source_def value_source_def split: if_splits)
qed

lemma projection_var_unique:
  assumes "projection_var paths p v" and "projection_var paths q v" and "distinct (map ap_id paths)"
  shows "p = q"
proof -
  obtain path i where p: "path \<in> set paths" "i < length (ap_projections path)" "p = ap_projections path ! i"
    "source_var (projection_source path i) = Some v" using assms(1) by (rule projection_var_source)
  obtain path' j where q: "path' \<in> set paths" "j < length (ap_projections path')" "q = ap_projections path' ! j"
    "source_var (projection_source path' j) = Some v" using assms(2) by (rule projection_var_source)
  have eq: "projection_source path i = projection_source path' j"
    by (rule source_var_inject [OF p(4) q(4)]) simp_all
  then have "ap_id path = ap_id path'" by (auto simp: projection_source_def split: if_splits)
  then have "path = path'" using assms(3) p(1) q(1) by (auto simp: distinct_map dest: inj_onD)
  moreover with eq have "i = j" by (auto simp: projection_source_def split: if_splits)
  ultimately show ?thesis using p(3) q(3) by simp
qed

text \<open>What a derived constraint can feed.\<close>

lemma derived_origin: "derived_kind paths k \<Longrightarrow> origin_of k = Some (v, obj) \<Longrightarrow> value_var v"
proof (induction rule: derived_kind.induct)
  case (projected projection dst base k)
  then show ?case by (cases projection) auto
qed auto

lemma derived_copy:
  "derived_kind paths k \<Longrightarrow> copy_of k = Some (u, v) \<Longrightarrow>
   value_var v \<or> (\<exists>site. projection_var paths (Proj_CallReturn site) v)"
proof (induction rule: derived_kind.induct)
  case (projected projection dst base k)
  then show ?case by (cases projection) auto
qed auto

lemma derived_store:
  "derived_kind paths k \<Longrightarrow> store_of k = Some (u, slot, v) \<Longrightarrow>
   \<exists>projection. projection_var paths projection v \<and> (\<forall>site. projection \<noteq> Proj_CallReturn site)"
proof (induction rule: derived_kind.induct)
  case (projected projection dst base k)
  then show ?case by (cases projection) auto
qed auto

text \<open>
  A slot is only stored into from the variables of field-like projections, and these only load from
  slots: nothing ever enters the cycle.
\<close>

lemma derived_least_pts:
  assumes "\<And>k. k \<in> K \<Longrightarrow> derived_kind paths k" and "distinct (map ap_id paths)"
  shows "least_pts K n obj \<Longrightarrow>
    (case n of SlotNode _ _ \<Rightarrow> False
     | VarNode v \<Rightarrow> \<forall>projection. projection_var paths projection v \<longrightarrow> (\<exists>site. projection = Proj_CallReturn site))"
proof (induction rule: least_pts.induct)
  case (origin k v obj)
  then have "value_var v" by (blast intro: derived_origin assms(1))
  then show ?case by (simp add: value_projection_disjoint)
next
  case (copy k u v obj)
  then consider "value_var v" | site where "projection_var paths (Proj_CallReturn site) v"
    using derived_copy assms(1) by blast
  then show ?case
  proof cases
    case 2
    then show ?thesis using projection_var_unique [OF _ _ assms(2)] by (simp, blast)
  qed (simp add: value_projection_disjoint)
next
  case (store k u slot v base obj)
  then obtain projection where "projection_var paths projection v" "\<And>site. projection \<noteq> Proj_CallReturn site"
    using derived_store assms(1) by blast
  with store.IH(2) show ?case by auto
qed simp

text \<open>The reference solution: where objects originate, and the copies between variables.\<close>

definition origins :: "points_to_constraint_kind set \<Rightarrow> (pt_var \<times> object_token) set" where
  "origins K = {(v, obj). \<exists>k \<in> K. origin_of k = Some (v, obj)}"

definition copies :: "points_to_constraint_kind set \<Rightarrow> (pt_var \<times> pt_var) set" where
  "copies K = {(u, v). \<exists>k \<in> K. copy_of k = Some (u, v)}"

lemma copy_closure_least_pts:
  assumes "(u, v) \<in> (copies K)\<^sup>*" and "(u, obj) \<in> origins K"
  shows "least_pts K (VarNode v) obj"
  using assms by (induction rule: rtrancl_induct) (auto simp: origins_def copies_def intro: least_pts.intros)

lemma derived_least_pts_iff:
  assumes derived: "\<And>k. k \<in> K \<Longrightarrow> derived_kind paths k" and dist: "distinct (map ap_id paths)"
  shows "least_pts K (VarNode v) obj \<longleftrightarrow> (\<exists>u. (u, obj) \<in> origins K \<and> (u, v) \<in> (copies K)\<^sup>*)"
proof
  have "case n of SlotNode _ _ \<Rightarrow> True | VarNode v \<Rightarrow> \<exists>u. (u, obj) \<in> origins K \<and> (u, v) \<in> (copies K)\<^sup>*"
    if "least_pts K n obj" for n
    using that
  proof (induction rule: least_pts.induct)
    case (copy k u v obj)
    then obtain w where "(w, obj) \<in> origins K" "(w, u) \<in> (copies K)\<^sup>*" by auto
    moreover have "(u, v) \<in> copies K" using copy by (auto simp: copies_def)
    ultimately show ?case by (auto intro: rtrancl_into_rtrancl)
  next
    case (load k u slot v base obj)
    then show ?case using derived_least_pts [OF derived dist] by force
  qed (auto simp: origins_def)
  from this [of "VarNode v"] show "least_pts K (VarNode v) obj \<Longrightarrow> \<exists>u. (u, obj) \<in> origins K \<and> (u, v) \<in> (copies K)\<^sup>*"
    by simp
qed (auto intro: copy_closure_least_pts)


section \<open>Property\<close>

text \<open>
  C29: on constraints derived from values, allocations and access paths the solver computes exactly the
  closure of the copies: a variable gets the objects whose address is taken at a variable from which
  copies (and call-return flows) lead to it. Fields, elements and dereferences contribute nothing, since
  the only values ever stored into a slot are those loaded from slots.
\<close>

theorem derived_points_to_is_copy_closure:
  assumes derive: "derive_points_to_constraints sha256 interner vals paths = Some (rows, interner')"
    and dist: "distinct (map ap_id (ao_access_paths paths))"
    and run: "solve_points_to sha256 interner' rows budget = Some (r, interner'')"
    and within: "sr_budget_status r = WithinBudget" and v: "\<not> is_slot_var v"
  shows "obj \<in> result_objects r v \<longleftrightarrow>
    (\<exists>u. (u, obj) \<in> origins (pc_kind ` set rows) \<and> (u, v) \<in> (copies (pc_kind ` set rows))\<^sup>*)"
proof -
  note derived = derived_kinds [OF derive]
  have "list_all (\<lambda>c. list_all (\<lambda>v. \<not> is_slot_var v) (constraint_vars (pc_kind c))) rows"
    using derived_kind_vars derived unfolding list_all_iff by blast
  from solve_exact [OF run within this v] derived_least_pts_iff [OF derived dist] show ?thesis by blast
qed

end
