(* ===== verification/Aliases.thy ===== *)
theory Aliases
  imports Points_To_Store Points_To_Constraints
begin

text \<open>
  Alias queries (\<open>analysis_neutral/aliases\<close>): the vocabulary of \<open>facts.rs\<close>, the output and store of
  \<open>store.rs\<close>, the query index of \<open>query.rs\<close> and the provider of \<open>provider_stack.rs\<close>, which answers the
  pairs of all operands up to a budget. A panic (an id that cannot be tagged, an operand that is not
  indexed, a key that is not interned) is \<open>None\<close>.
\<close>

section \<open>Facts\<close>

datatype alias_operand = Op_Place "64 word" | Op_AccessPath "64 word"

datatype alias_status = NoAlias | MayAlias | MustAlias | PartialAlias | Alias_Unknown

datatype alias_reason =
    SameStablePlace
  | DisjointLocals
  | DisjointAllocations
  | DisjointPointsToSets
  | OverlappingPointsToSets
  | SingletonEqualObject
  | CommonBaseDifferentProjection
  | UnsupportedDynamicConstruct
  | Alias_SetupMissing
  | Alias_BudgetExceeded
  | Alias_ExtensionProvided
  | MissingPointsTo

datatype alias_precision =
    Alp_ExactLocal | Alp_FlowInsensitive | Alp_SetupAware | Alp_Conservative | Alp_Heuristic | Alp_Unknown
  | Alp_Unsupported

record alias_answer_fact =
  aa_id :: nat
  aa_left :: alias_operand
  aa_right :: alias_operand
  aa_status :: alias_status
  aa_reason :: alias_reason
  aa_evidence :: "string list"
  aa_precision :: alias_precision
  aa_stable_key :: stable_key_id

text \<open>The derived order of operands: places before access paths, then by id.\<close>

instantiation alias_operand :: linorder
begin

fun less_eq_alias_operand :: "alias_operand \<Rightarrow> alias_operand \<Rightarrow> bool" where
  "less_eq_alias_operand (Op_Place i) (Op_Place j) \<longleftrightarrow> i \<le> j"
| "less_eq_alias_operand (Op_Place _) (Op_AccessPath _) \<longleftrightarrow> True"
| "less_eq_alias_operand (Op_AccessPath _) (Op_Place _) \<longleftrightarrow> False"
| "less_eq_alias_operand (Op_AccessPath i) (Op_AccessPath j) \<longleftrightarrow> i \<le> j"

definition less_alias_operand :: "alias_operand \<Rightarrow> alias_operand \<Rightarrow> bool" where
  "less_alias_operand a b \<longleftrightarrow> a \<le> b \<and> \<not> b \<le> a"

instance
proof
  fix x y z :: alias_operand
  show "x < y \<longleftrightarrow> x \<le> y \<and> \<not> y \<le> x" by (simp add: less_alias_operand_def)
  show "x \<le> x" by (cases x) simp_all
  show "x \<le> y \<Longrightarrow> y \<le> z \<Longrightarrow> x \<le> z" by (cases x; cases y; cases z) auto
  show "x \<le> y \<Longrightarrow> y \<le> x \<Longrightarrow> x = y" by (cases x; cases y) auto
  show "x \<le> y \<or> y \<le> x" by (cases x; cases y) auto
qed

end


section \<open>Output and store\<close>

record alias_output =
  al_answers :: "alias_answer_fact list"

definition alias_output_normalized :: "interner_state \<Rightarrow> alias_output \<Rightarrow> alias_output option" where
  "alias_output_normalized interner output =
     map_option (\<lambda>rows. \<lparr> al_answers = rows \<rparr>)
       (normalize_rows interner aa_stable_key aa_id (\<lambda>i row. row \<lparr> aa_id := i \<rparr>) (al_answers output))"

record alias_store =
  als_output :: alias_output
  als_by_status :: "(alias_status, nat list) fmap"
  als_by_precision :: "(alias_precision, nat list) fmap"
  als_by_place :: "(64 word, nat list) fmap"
  als_by_access_path :: "(64 word, nat list) fmap"

fun operand_places :: "alias_operand \<Rightarrow> (64 word) list" where
  "operand_places (Op_Place place) = [place]"
| "operand_places (Op_AccessPath _) = []"

fun operand_paths :: "alias_operand \<Rightarrow> (64 word) list" where
  "operand_paths (Op_Place _) = []"
| "operand_paths (Op_AccessPath path) = [path]"

definition alias_store_from_normalized_output :: "alias_output \<Rightarrow> alias_store" where
  "alias_store_from_normalized_output output =
     \<lparr> als_output = output,
       als_by_status = index_rows (\<lambda>row. [aa_status row]) (al_answers output),
       als_by_precision = index_rows (\<lambda>row. [aa_precision row]) (al_answers output),
       als_by_place = index_rows (\<lambda>row. operand_places (aa_left row) @ operand_places (aa_right row)) (al_answers output),
       als_by_access_path =
         index_rows (\<lambda>row. operand_paths (aa_left row) @ operand_paths (aa_right row)) (al_answers output) \<rparr>"

definition alias_store_from_output :: "interner_state \<Rightarrow> alias_output \<Rightarrow> alias_store option" where
  "alias_store_from_output interner output =
     map_option alias_store_from_normalized_output (alias_output_normalized interner output)"


section \<open>The query index\<close>

record alias_query_index =
  aq_access_paths :: "(64 word, access_path_fact) fmap"
  aq_paths_by_base :: "(64 word, access_path_fact list) fmap"
  aq_points_to :: "(pt_var, points_to_set_fact) fmap"
  aq_budget_exceeded :: bool

definition alias_query_index_new :: "access_path_fact list \<Rightarrow> points_to_set_fact list \<Rightarrow> alias_query_index" where
  "alias_query_index_new access_paths points_to =
     (let paths = fm_collect (map (\<lambda>path. (ap_id path, path)) access_paths)
      in \<lparr> aq_access_paths = paths,
           aq_paths_by_base = fold (\<lambda>path. fm_push (ap_base path) path) (bt_values paths) fmempty,
           aq_points_to = fm_collect (map (\<lambda>set. (ps_variable set, set)) points_to),
           aq_budget_exceeded = list_ex (\<lambda>set. ps_budget set = BudgetExceeded) points_to \<rparr>)"

fun operand_var :: "alias_operand \<Rightarrow> pt_var option" where
  "operand_var (Op_Place place) = place_var place"
| "operand_var (Op_AccessPath path) = access_path_var path"

definition objects_for :: "alias_query_index \<Rightarrow> alias_operand \<Rightarrow> object_token fset option option" where
  "objects_for index operand = map_option (\<lambda>variable.
     case fmlookup (aq_points_to index) variable of
       None \<Rightarrow> None
     | Some row \<Rightarrow> (if ps_status row = Pts_BudgetExceeded then None else Some (fset_of_list (ps_objects row))))
     (operand_var operand)"

fun same_access_path :: "alias_query_index \<Rightarrow> alias_operand \<Rightarrow> alias_operand \<Rightarrow> bool" where
  "same_access_path index (Op_Place place) (Op_AccessPath path) =
     (case fmlookup (aq_access_paths index) path of
        None \<Rightarrow> False
      | Some row \<Rightarrow> ap_base row = place \<and> ap_projections row = [])"
| "same_access_path index (Op_AccessPath path) (Op_Place place) =
     (case fmlookup (aq_access_paths index) path of
        None \<Rightarrow> False
      | Some row \<Rightarrow> ap_base row = place \<and> ap_projections row = [])"
| "same_access_path index (Op_AccessPath left) (Op_AccessPath right) =
     (case (fmlookup (aq_access_paths index) left, fmlookup (aq_access_paths index) right) of
        (Some l, Some r) \<Rightarrow> ap_base l = ap_base r \<and> ap_projections l = ap_projections r
      | _ \<Rightarrow> False)"
| "same_access_path index (Op_Place _) (Op_Place _) = False"

fun common_base_different_projection :: "alias_query_index \<Rightarrow> alias_operand \<Rightarrow> alias_operand \<Rightarrow> bool" where
  "common_base_different_projection index (Op_AccessPath left) (Op_AccessPath right) =
     (case (fmlookup (aq_access_paths index) left, fmlookup (aq_access_paths index) right) of
        (Some l, Some r) \<Rightarrow> ap_base l = ap_base r \<and> ap_projections l \<noteq> ap_projections r
      | _ \<Rightarrow> False)"
| "common_base_different_projection index _ _ = False"

type_synonym classification = "alias_status \<times> alias_reason \<times> alias_precision \<times> string list"

definition classify_objects :: "object_token fset \<Rightarrow> object_token fset \<Rightarrow> classification" where
  "classify_objects left_objects right_objects =
     (if left_objects = {||} \<or> right_objects = {||} then
        (Alias_Unknown, MissingPointsTo, Alp_Unknown, [''empty points-to set''])
      else if left_objects |\<inter>| right_objects = {||} then
        (NoAlias, DisjointPointsToSets, Alp_FlowInsensitive, [''disjoint points-to sets''])
      else if fcard left_objects = 1 \<and> left_objects = right_objects then
        (MustAlias, SingletonEqualObject, Alp_FlowInsensitive, [''singleton-equal object token''])
      else (MayAlias, OverlappingPointsToSets, Alp_Conservative, [''overlapping points-to sets'']))"

definition classify :: "alias_query_index \<Rightarrow> alias_operand \<Rightarrow> alias_operand \<Rightarrow> classification option" where
  "classify index left right =
     (if left = right \<or> same_access_path index left right then
        Some (MustAlias, SameStablePlace, Alp_ExactLocal, [''same stable place/access path''])
      else if common_base_different_projection index left right then
        Some (PartialAlias, CommonBaseDifferentProjection, Alp_Conservative,
              [''common base with different known projections''])
      else if aq_budget_exceeded index then
        Some (Alias_Unknown, Alias_BudgetExceeded, Alp_Unknown, [''points-to budget exceeded''])
      else do {
        left_set \<leftarrow> objects_for index left;
        case left_set of
          None \<Rightarrow> Some (Alias_Unknown, MissingPointsTo, Alp_Unknown, [''missing left points-to set''])
        | Some left_objects \<Rightarrow> do {
            right_set \<leftarrow> objects_for index right;
            case right_set of
              None \<Rightarrow> Some (Alias_Unknown, MissingPointsTo, Alp_Unknown, [''missing right points-to set''])
            | Some right_objects \<Rightarrow> Some (classify_objects left_objects right_objects)
          }
      })"

text \<open>The stable identity of an operand.\<close>

definition alias_relation_identity :: "string fset \<Rightarrow> string option" where
  "alias_relation_identity fragments =
     (if fragments = {||} then None
      else Some (concat (map (\<lambda>fragment. show_nat (length fragment) @ '':'' @ fragment) (bt_elems fragments))))"

definition place_path_keys :: "alias_query_index \<Rightarrow> interner_state \<Rightarrow> 64 word \<Rightarrow> string fset option" where
  "place_path_keys index interner place =
     try_fold (\<lambda>path acc. map_option (\<lambda>text. finsert text acc) (resolve interner (ap_stable_key path)))
       (fm_get_or [] (aq_paths_by_base index) place) {||}"

fun operand_stable_identity ::
  "alias_query_index \<Rightarrow> interner_state \<Rightarrow> alias_operand \<Rightarrow> string option" where
  "operand_stable_identity index interner (Op_AccessPath path) = do {
     row \<leftarrow> fmlookup (aq_access_paths index) path;
     resolve interner (ap_stable_key row)
   }"
| "operand_stable_identity index interner (Op_Place place) = do {
     path_keys \<leftarrow> place_path_keys index interner place;
     if path_keys = {||} then do {
       variable \<leftarrow> place_var place;
       case fmlookup (aq_points_to index) variable of
         None \<Rightarrow> alias_relation_identity {||}
       | Some row \<Rightarrow> do {
           text \<leftarrow> resolve interner (ps_stable_key row);
           alias_relation_identity {|text|}
         }
     } else alias_relation_identity path_keys
   }"

primrec alias_status_label :: "alias_status \<Rightarrow> string" where
  "alias_status_label NoAlias = ''no_alias''"
| "alias_status_label MayAlias = ''may_alias''"
| "alias_status_label MustAlias = ''must_alias''"
| "alias_status_label PartialAlias = ''partial_alias''"
| "alias_status_label Alias_Unknown = ''unknown''"

primrec alias_reason_label :: "alias_reason \<Rightarrow> string" where
  "alias_reason_label SameStablePlace = ''same_stable_place''"
| "alias_reason_label DisjointLocals = ''disjoint_locals''"
| "alias_reason_label DisjointAllocations = ''disjoint_allocations''"
| "alias_reason_label DisjointPointsToSets = ''disjoint_points_to_sets''"
| "alias_reason_label OverlappingPointsToSets = ''overlapping_points_to_sets''"
| "alias_reason_label SingletonEqualObject = ''singleton_equal_object''"
| "alias_reason_label CommonBaseDifferentProjection = ''common_base_different_projection''"
| "alias_reason_label UnsupportedDynamicConstruct = ''unsupported_dynamic_construct''"
| "alias_reason_label Alias_SetupMissing = ''setup_missing''"
| "alias_reason_label Alias_BudgetExceeded = ''budget_exceeded''"
| "alias_reason_label Alias_ExtensionProvided = ''extension_provided''"
| "alias_reason_label MissingPointsTo = ''missing_points_to''"

definition answer_stable_key ::
  "(string \<Rightarrow> 8 word list) \<Rightarrow> alias_query_index \<Rightarrow> alias_operand \<Rightarrow> alias_operand \<Rightarrow> alias_status \<Rightarrow> alias_reason \<Rightarrow>
     interner_state \<Rightarrow> (stable_key_id \<times> interner_state) option" where
  "answer_stable_key sha256 index left right status reason interner = do {
     left_identity \<leftarrow> operand_stable_identity index interner left;
     right_identity \<leftarrow> operand_stable_identity index interner right;
     stable_key_from_parts sha256 Ff_AliasAnswer
       [(''left'', left_identity), (''right'', right_identity),
        (''status'', alias_status_label status), (''reason'', alias_reason_label reason)] interner
   }"

definition alias_answer ::
  "(string \<Rightarrow> 8 word list) \<Rightarrow> alias_query_index \<Rightarrow> alias_operand \<Rightarrow> alias_operand \<Rightarrow> interner_state \<Rightarrow>
     (alias_answer_fact \<times> interner_state) option" where
  "alias_answer sha256 index left right interner = do {
     (status, reason, precision, evidence) \<leftarrow> classify index left right;
     (key, interner') \<leftarrow> answer_stable_key sha256 index left right status reason interner;
     Some (\<lparr> aa_id = 0, aa_left = left, aa_right = right, aa_status = status, aa_reason = reason,
             aa_evidence = evidence, aa_precision = precision, aa_stable_key = key \<rparr>, interner')
   }"


section \<open>The provider\<close>

definition MAX_PROVIDER_STACK_PAIRS :: nat where
  "MAX_PROVIDER_STACK_PAIRS = 64"

definition operand_identities ::
  "alias_query_index \<Rightarrow> interner_state \<Rightarrow> alias_operand list \<Rightarrow> (alias_operand, string) fmap option" where
  "operand_identities index interner operands =
     try_fold (\<lambda>operand m. case fmlookup m operand of
         Some _ \<Rightarrow> Some m
       | None \<Rightarrow> map_option (\<lambda>identity. fmupd operand identity m) (operand_stable_identity index interner operand))
       operands fmempty"

definition rank_step ::
  "alias_operand \<times> string \<Rightarrow> (alias_operand, nat) fmap \<times> string option \<times> nat \<Rightarrow>
     (alias_operand, nat) fmap \<times> string option \<times> nat" where
  "rank_step entry st =
     (let (ranks, previous, rank) = st;
          rank' = (if previous \<noteq> None \<and> previous \<noteq> Some (snd entry) then rank + 1 else rank)
      in (fmupd (fst entry) rank' ranks, Some (snd entry), rank'))"

definition sort_operands ::
  "alias_query_index \<Rightarrow> interner_state \<Rightarrow> alias_operand list \<Rightarrow> alias_operand list option" where
  "sort_operands index interner operands = do {
     identities \<leftarrow> operand_identities index interner operands;
     let (ranks, _, _) = fold rank_step (sort_key snd (bt_entries identities)) (fmempty, None, 0);
     if list_all (\<lambda>operand. fmlookup ranks operand \<noteq> None) operands
     then Some (sort_key (\<lambda>operand. the (fmlookup ranks operand)) operands) else None
   }"

definition budget_exceeded_answer ::
  "(string \<Rightarrow> 8 word list) \<Rightarrow> alias_query_index \<Rightarrow> alias_operand \<Rightarrow> alias_operand \<Rightarrow> interner_state \<Rightarrow>
     (alias_answer_fact \<times> interner_state) option" where
  "budget_exceeded_answer sha256 index left right interner = do {
     (key, interner') \<leftarrow> answer_stable_key sha256 index left right Alias_Unknown Alias_BudgetExceeded interner;
     Some (\<lparr> aa_id = 0, aa_left = left, aa_right = right, aa_status = Alias_Unknown,
             aa_reason = Alias_BudgetExceeded, aa_evidence = [''provider-stack alias pair budget exceeded''],
             aa_precision = Alp_Unknown, aa_stable_key = key \<rparr>, interner')
   }"

text \<open>The inner loop over the right operands; it breaks once the budget is used up.\<close>

fun answer_pairs ::
  "(string \<Rightarrow> 8 word list) \<Rightarrow> alias_query_index \<Rightarrow> alias_operand \<Rightarrow> alias_operand list \<Rightarrow>
     alias_answer_fact list \<times> bool \<times> interner_state \<Rightarrow> (alias_answer_fact list \<times> bool \<times> interner_state) option" where
  "answer_pairs sha256 index left [] st = Some st"
| "answer_pairs sha256 index left (right # rights) (answers, reported, interner) =
     (if length answers \<ge> MAX_PROVIDER_STACK_PAIRS then
        (if \<not> reported then do {
           (row, interner') \<leftarrow> budget_exceeded_answer sha256 index left right interner;
           Some (answers @ [row], True, interner')
         } else Some (answers, reported, interner))
      else do {
        (row, interner') \<leftarrow> alias_answer sha256 index left right interner;
        answer_pairs sha256 index left rights (answers @ [row], reported, interner')
      })"

fun answer_operands ::
  "(string \<Rightarrow> 8 word list) \<Rightarrow> alias_query_index \<Rightarrow> alias_operand list \<Rightarrow>
     alias_answer_fact list \<times> bool \<times> interner_state \<Rightarrow> (alias_answer_fact list \<times> bool \<times> interner_state) option" where
  "answer_operands sha256 index [] st = Some st"
| "answer_operands sha256 index (left # rest) st =
     Option.bind (answer_pairs sha256 index left (left # rest) st) (answer_operands sha256 index rest)"

definition alias_operands :: "access_path_fact list \<Rightarrow> alias_operand list" where
  "alias_operands access_paths = concat (map (\<lambda>path. [Op_Place (ap_base path), Op_AccessPath (ap_id path)]) access_paths)"

definition derive_alias_answers ::
  "(string \<Rightarrow> 8 word list) \<Rightarrow> interner_state \<Rightarrow> access_path_fact list \<Rightarrow> points_to_set_fact list \<Rightarrow>
     (alias_output \<times> interner_state) option" where
  "derive_alias_answers sha256 interner access_paths points_to_sets = do {
     let index = alias_query_index_new access_paths points_to_sets;
     operands \<leftarrow> sort_operands index interner (alias_operands access_paths);
     (answers, _, interner') \<leftarrow> answer_operands sha256 index (vec_dedup operands) ([], False, interner);
     output \<leftarrow> alias_output_normalized interner' \<lparr> al_answers = answers \<rparr>;
     Some (output, interner')
   }"


section \<open>Ranks sort like texts\<close>

lemma insort_key_iso:
  "(\<And>y. y \<in> set ys \<Longrightarrow> f x \<le> f y \<longleftrightarrow> g x \<le> g y) \<Longrightarrow> insort_key f x ys = insort_key g x ys"
  by (induction ys) simp_all

lemma sort_key_iso:
  fixes f :: "'a \<Rightarrow> 'b::linorder" and g :: "'a \<Rightarrow> 'c::linorder"
  shows "(\<And>x y. x \<in> set xs \<Longrightarrow> y \<in> set xs \<Longrightarrow> f x \<le> f y \<longleftrightarrow> g x \<le> g y) \<Longrightarrow> sort_key f xs = sort_key g xs"
proof (induction xs)
  case (Cons x xs)
  then have IH: "sort_key f xs = sort_key g xs" by simp
  have "insort_key f x (sort_key g xs) = insort_key g x (sort_key g xs)"
    by (rule insort_key_iso) (rule Cons.prems, simp_all)
  then show ?case by (simp add: IH)
qed simp

text \<open>After the rank loop, ranks compare as the texts they stand for.\<close>

definition ranked :: "(alias_operand \<times> string) list \<Rightarrow> (alias_operand, nat) fmap \<Rightarrow> bool" where
  "ranked ps ranks \<longleftrightarrow> (\<forall>(a, s) \<in> set ps. \<forall>(b, t) \<in> set ps.
     \<exists>i j. fmlookup ranks a = Some i \<and> fmlookup ranks b = Some j \<and> (i \<le> j \<longleftrightarrow> s \<le> t))"

definition rank_inv :: "(alias_operand \<times> string) list \<Rightarrow> (alias_operand, nat) fmap \<times> string option \<times> nat \<Rightarrow> bool" where
  "rank_inv ps st \<longleftrightarrow> (case st of (ranks, previous, rank) \<Rightarrow>
     ranked ps ranks \<and> previous = (if ps = [] then None else Some (snd (last ps))) \<and>
     (\<forall>(a, s) \<in> set ps. \<exists>i \<le> rank. fmlookup ranks a = Some i \<and> (i = rank \<longleftrightarrow> previous = Some s)))"

lemma rank_inv_step:
  assumes inv: "rank_inv ps (ranks, previous, rank)" and fresh: "a \<notin> fst ` set ps"
    and above: "\<And>b t. (b, t) \<in> set ps \<Longrightarrow> t \<le> s"
  shows "rank_inv (ps @ [(a, s)]) (rank_step (a, s) (ranks, previous, rank))"
proof -
  define rank' where "rank' = (if previous \<noteq> None \<and> previous \<noteq> Some s then rank + 1 else rank)"
  have old: "\<exists>i \<le> rank. fmlookup ranks b = Some i \<and> (i = rank \<longleftrightarrow> previous = Some t)" if "(b, t) \<in> set ps" for b t
    using inv that by (auto simp: rank_inv_def)
  have neq: "b \<noteq> a" if "(b, t) \<in> set ps" for b t using fresh that by force
  have prev: "previous = Some (snd (last ps))" "(fst (last ps), snd (last ps)) \<in> set ps" if "ps \<noteq> []"
    using inv that by (simp_all add: rank_inv_def)
  have new: "\<exists>i \<le> rank'. fmlookup ranks b = Some i \<and> (i = rank' \<longleftrightarrow> t = s)" if bt: "(b, t) \<in> set ps" for b t
  proof -
    from old [OF bt] obtain i where i: "i \<le> rank" "fmlookup ranks b = Some i" "i = rank \<longleftrightarrow> previous = Some t" by blast
    from bt have "ps \<noteq> []" by auto
    note p = prev [OF this]
    show ?thesis
    proof (cases "previous = Some s")
      case True
      then show ?thesis using i by (auto simp: rank'_def)
    next
      case False
      have "snd (last ps) \<le> s" by (rule above [OF p(2)])
      with False p(1) have "snd (last ps) < s" by simp
      have "t \<noteq> s"
      proof
        assume "t = s"
        with inv bt p(2) obtain x y where "fmlookup ranks b = Some x" "fmlookup ranks (fst (last ps)) = Some y"
          "x \<le> y \<longleftrightarrow> s \<le> snd (last ps)"
          unfolding rank_inv_def ranked_def by fastforce
        moreover from old [OF p(2)] p(1) have "fmlookup ranks (fst (last ps)) = Some rank" by auto
        ultimately show False using i \<open>snd (last ps) < s\<close> by simp
      qed
      then show ?thesis using i False p(1) by (auto simp: rank'_def)
    qed
  qed
  have "ranked (ps @ [(a, s)]) (fmupd a rank' ranks)"
    unfolding ranked_def
  proof (clarify, goal_cases)
    case (1 b t c u)
    have top: "\<exists>i. fmlookup (fmupd a rank' ranks) b = Some i \<and> i \<le> rank' \<and> (rank' \<le> i \<longleftrightarrow> s \<le> t)"
      if "(b, t) \<in> set ps" for b t
      using new [OF that] above [OF that] neq [OF that] by fastforce
    from 1 consider "(b, t) \<in> set ps" "(c, u) \<in> set ps" | "(b, t) \<in> set ps" "c = a" "u = s"
      | "b = a" "t = s" "(c, u) \<in> set ps" | "b = a" "t = s" "c = a" "u = s" by auto
    then show ?case
    proof cases
      case 1
      then have "\<exists>i j. fmlookup ranks b = Some i \<and> fmlookup ranks c = Some j \<and> (i \<le> j \<longleftrightarrow> t \<le> u)"
        using inv unfolding rank_inv_def ranked_def by fastforce
      with neq [OF 1(1)] neq [OF 1(2)] show ?thesis by simp
    next
      case 2
      with top [OF 2(1)] above [OF 2(1)] show ?thesis by auto
    next
      case 3
      with top [OF 3(3)] above [OF 3(3)] show ?thesis by auto
    qed simp
  qed
  moreover have "\<forall>(b, t) \<in> set (ps @ [(a, s)]).
      \<exists>i \<le> rank'. fmlookup (fmupd a rank' ranks) b = Some i \<and> (i = rank' \<longleftrightarrow> Some s = Some t)"
    using new neq by fastforce
  moreover have "rank_step (a, s) (ranks, previous, rank) = (fmupd a rank' ranks, Some s, rank')"
    by (simp add: rank_step_def rank'_def Let_def)
  ultimately show ?thesis unfolding rank_inv_def by simp
qed

lemma rank_fold:
  "sorted (map snd ps) \<Longrightarrow> distinct (map fst ps) \<Longrightarrow> rank_inv ps (fold rank_step ps (fmempty, None, 0))"
proof (induction ps rule: rev_induct)
  case Nil
  show ?case by (simp add: rank_inv_def ranked_def)
next
  case (snoc p ps)
  obtain ranks previous rank where st: "fold rank_step ps (fmempty, None, 0) = (ranks, previous, rank)" by (metis prod_cases3)
  obtain a s where p: "p = (a, s)" by force
  have "rank_inv ps (ranks, previous, rank)" using snoc by (simp add: st sorted_append)
  then have "rank_inv (ps @ [(a, s)]) (rank_step (a, s) (ranks, previous, rank))"
    by (rule rank_inv_step) (use snoc.prems p in \<open>auto simp: sorted_append\<close>)
  then show ?case by (simp add: st p)
qed

lemma operand_identities_run:
  "operand_identities index interner operands = Some m \<Longrightarrow>
     fset (fmdom m) = set operands \<and> (\<forall>a t. fmlookup m a = Some t \<longrightarrow> operand_stable_identity index interner a = Some t)"
  "operand_identities index interner operands = None \<longleftrightarrow>
     (\<exists>a \<in> set operands. operand_stable_identity index interner a = None)"
proof -
  let ?f = "\<lambda>operand m. case fmlookup m operand of Some _ \<Rightarrow> Some m
     | None \<Rightarrow> map_option (\<lambda>identity. fmupd operand identity m) (operand_stable_identity index interner operand)"
  let ?ok = "\<lambda>m. \<forall>a t. fmlookup m a = Some t \<longrightarrow> operand_stable_identity index interner a = Some t"
  have "(try_fold ?f operands m = Some m' \<longrightarrow> fset (fmdom m') = fset (fmdom m) \<union> set operands \<and> ?ok m') \<and>
      (try_fold ?f operands m = None \<longleftrightarrow> (\<exists>a \<in> set operands. operand_stable_identity index interner a = None))"
    if "?ok m" for m m'
    using that
  proof (induction operands arbitrary: m)
    case (Cons a as)
    show ?case
    proof (cases "fmlookup m a")
      case None
      show ?thesis
      proof (cases "operand_stable_identity index interner a")
        case (Some t)
        have "?ok (fmupd a t m)" using Cons.prems Some by simp
        from Cons.IH [OF this] show ?thesis using None Some by auto
      qed (use None in simp)
    next
      case (Some t)
      have "a |\<in>| fmdom m" using Some by (rule fmdomI)
      with Cons.IH [OF Cons.prems] Cons.prems Some show ?thesis by auto
    qed
  qed simp
  from this [of fmempty] show
    "operand_identities index interner operands = Some m \<Longrightarrow> fset (fmdom m) = set operands \<and> ?ok m"
    "operand_identities index interner operands = None \<longleftrightarrow>
       (\<exists>a \<in> set operands. operand_stable_identity index interner a = None)"
    unfolding operand_identities_def by simp_all
qed

lemma sort_operands_by_identity:
  "sort_operands index interner operands =
     (if list_all (\<lambda>a. operand_stable_identity index interner a \<noteq> None) operands
      then Some (sort_key (\<lambda>a. the (operand_stable_identity index interner a)) operands) else None)"
proof (cases "operand_identities index interner operands")
  case None
  then show ?thesis using operand_identities_run(2) [of index interner operands]
    by (auto simp: sort_operands_def list_all_iff)
next
  case (Some m)
  let ?text = "\<lambda>a. the (operand_stable_identity index interner a)"
  let ?ps = "sort_key snd (bt_entries m)"
  obtain ranks previous rank where st: "fold rank_step ?ps (fmempty, None, 0) = (ranks, previous, rank)"
    by (metis prod_cases3)
  have entries: "(a, ?text a) \<in> set ?ps" if "a \<in> set operands" for a
  proof -
    from that operand_identities_run(1) [OF Some] have "a |\<in>| fmdom m" by simp
    then obtain t where "fmlookup m a = Some t" by (meson fmdom_notI option.exhaust)
    with operand_identities_run(1) [OF Some] show ?thesis by (auto simp: in_bt_entries_iff)
  qed
  have "rank_inv ?ps (ranks, previous, rank)"
    using rank_fold [of ?ps] by (simp add: st distinct_map) (metis distinct_keys_bt_entries distinct_map)
  then have "\<exists>i j. fmlookup ranks a = Some i \<and> fmlookup ranks b = Some j \<and> (i \<le> j \<longleftrightarrow> ?text a \<le> ?text b)"
    if "a \<in> set operands" "b \<in> set operands" for a b
    using entries [OF that(1)] entries [OF that(2)] unfolding rank_inv_def ranked_def by fastforce
  then have defined: "list_all (\<lambda>a. fmlookup ranks a \<noteq> None) operands"
    and "sort_key (\<lambda>a. the (fmlookup ranks a)) operands = sort_key ?text operands"
    by (fastforce simp: list_all_iff, intro sort_key_iso) fastforce
  then have "sort_operands index interner operands = Some (sort_key ?text operands)"
    by (simp add: sort_operands_def Some st)
  moreover have "list_all (\<lambda>a. operand_stable_identity index interner a \<noteq> None) operands"
    using operand_identities_run(2) [of index interner operands] Some by (auto simp: list_all_iff)
  ultimately show ?thesis by simp
qed

text \<open>
  sorting the operands by compact ranks is sorting them by the text of their identities, ties and
  duplicates included, and it fails exactly when an identity cannot be built.
\<close>

theorem operand_ranks_sort_by_identity:
  "sort_operands index interner operands =
     (if list_all (\<lambda>a. operand_stable_identity index interner a \<noteq> None) operands
      then Some (sort_key (\<lambda>a. the (operand_stable_identity index interner a)) operands) else None)"
  by (rule sort_operands_by_identity)


section \<open>The answered pairs\<close>

fun operand_pairs :: "alias_operand list \<Rightarrow> (alias_operand \<times> alias_operand) list" where
  "operand_pairs [] = []"
| "operand_pairs (left # rest) = map (Pair left) (left # rest) @ operand_pairs rest"

type_synonym alias_summary = "(alias_operand \<times> alias_operand) \<times> alias_status \<times> alias_reason"

definition summary :: "alias_answer_fact \<Rightarrow> alias_summary" where
  "summary row = ((aa_left row, aa_right row), aa_status row, aa_reason row)"

text \<open>A pair whose classification panics has no answer; it is read as unknown here.\<close>

definition classified :: "alias_query_index \<Rightarrow> alias_operand \<times> alias_operand \<Rightarrow> alias_summary" where
  "classified index p =
     (case classify index (fst p) (snd p) of
        Some (status, reason, _) \<Rightarrow> (p, status, reason)
      | None \<Rightarrow> (p, Alias_Unknown, MissingPointsTo))"

lemma fst_classified [simp]: "fst (classified index p) = p"
  by (simp add: classified_def split: option.split prod.split)

text \<open>What the provider answers for a list of pairs: 64 of them, and one more to report the rest.\<close>

definition expected_answers :: "alias_query_index \<Rightarrow> (alias_operand \<times> alias_operand) list \<Rightarrow> alias_summary list" where
  "expected_answers index ps =
     map (classified index) (take MAX_PROVIDER_STACK_PAIRS ps) @
     map (\<lambda>p. (p, Alias_Unknown, Alias_BudgetExceeded)) (take 1 (drop MAX_PROVIDER_STACK_PAIRS ps))"

lemma length_expected: "length (expected_answers index ps) = min 65 (length ps)"
  by (simp add: expected_answers_def MAX_PROVIDER_STACK_PAIRS_def)

lemma expected_below: "length ps < 64 \<Longrightarrow> expected_answers index (ps @ [p]) = expected_answers index ps @ [classified index p]"
  by (simp add: expected_answers_def MAX_PROVIDER_STACK_PAIRS_def)

lemma expected_at:
  "length ps = 64 \<Longrightarrow>
   expected_answers index (ps @ p # qs) = expected_answers index ps @ [(p, Alias_Unknown, Alias_BudgetExceeded)]"
  by (simp add: expected_answers_def MAX_PROVIDER_STACK_PAIRS_def)

lemma expected_above: "64 < length ps \<Longrightarrow> expected_answers index (ps @ qs) = expected_answers index ps"
  by (simp add: expected_answers_def MAX_PROVIDER_STACK_PAIRS_def)

lemma alias_answer_summary:
  "alias_answer sha256 index left right interner = Some (row, interner') \<Longrightarrow>
   summary row = classified index (left, right)"
  by (auto simp: alias_answer_def summary_def classified_def bind_eq_Some_conv)

lemma budget_answer_summary:
  "budget_exceeded_answer sha256 index left right interner = Some (row, interner') \<Longrightarrow>
   summary row = ((left, right), Alias_Unknown, Alias_BudgetExceeded)"
  by (auto simp: budget_exceeded_answer_def summary_def bind_eq_Some_conv)

lemma answer_pairs_run:
  assumes "answer_pairs sha256 index left rights (answers, reported, interner) = Some (answers', reported', interner')"
    and "map summary answers = expected_answers index ps" and "reported \<longleftrightarrow> 64 < length ps"
  shows "map summary answers' = expected_answers index (ps @ map (Pair left) rights) \<and>
    (reported' \<longleftrightarrow> 64 < length ps + length rights)"
  using assms
proof (induction rights arbitrary: answers reported interner ps)
  case (Cons right rights)
  have len: "length answers = min 65 (length ps)"
    using arg_cong [OF Cons.prems(2), of length] by (simp add: length_expected)
  consider "64 < length ps" | "length ps = 64" | "length ps < 64" by linarith
  then show ?case
  proof cases
    case 1
    with Cons.prems len show ?thesis by (simp add: expected_above MAX_PROVIDER_STACK_PAIRS_def)
  next
    case 2
    then obtain row where "budget_exceeded_answer sha256 index left right interner = Some (row, interner')"
      "answers' = answers @ [row]" "reported'"
      using Cons.prems len by (auto simp: bind_eq_Some_conv MAX_PROVIDER_STACK_PAIRS_def)
    with 2 Cons.prems(2) show ?thesis by (simp add: budget_answer_summary expected_at)
  next
    case 3
    then obtain row i where row: "alias_answer sha256 index left right interner = Some (row, i)"
      and rest: "answer_pairs sha256 index left rights (answers @ [row], reported, i) = Some (answers', reported', interner')"
      using Cons.prems(1) len by (auto simp: bind_eq_Some_conv MAX_PROVIDER_STACK_PAIRS_def)
    have "map summary (answers @ [row]) = expected_answers index (ps @ [(left, right)])"
      using Cons.prems(2) alias_answer_summary [OF row] expected_below [OF 3] by simp
    from Cons.IH [OF rest this] 3 Cons.prems(3) show ?thesis by simp
  qed
qed simp

lemma answer_operands_run:
  assumes "answer_operands sha256 index ops (answers, reported, interner) = Some (answers', reported', interner')"
    and "map summary answers = expected_answers index ps" and "reported \<longleftrightarrow> 64 < length ps"
  shows "map summary answers' = expected_answers index (ps @ operand_pairs ops)"
  using assms
proof (induction ops arbitrary: answers reported interner ps)
  case (Cons left rest)
  then obtain answers1 reported1 interner1 where
    run: "answer_pairs sha256 index left (left # rest) (answers, reported, interner) = Some (answers1, reported1, interner1)"
    and rest: "answer_operands sha256 index rest (answers1, reported1, interner1) = Some (answers', reported', interner')"
    by (auto simp: bind_eq_Some_conv simp del: answer_pairs.simps)
  from answer_pairs_run [OF run Cons.prems(2,3)]
  have 1: "map summary answers1 = expected_answers index (ps @ map (Pair left) (left # rest))"
    and 2: "reported1 \<longleftrightarrow> 64 < length (ps @ map (Pair left) (left # rest))" by simp_all
  from Cons.IH [OF rest 1 2] show ?case by simp
qed simp

interpretation answer_rows: plain_row_family aa_stable_key aa_id "\<lambda>i row. row \<lparr> aa_id := i \<rparr>" "\<lambda>i. i" "\<lambda>_. True"
  by unfold_locales simp_all

lemma alias_output_idem:
  "alias_output_normalized interner out = Some out' \<Longrightarrow> alias_output_normalized interner out' = Some out'"
  using answer_rows.normalize_idem by (auto simp: alias_output_normalized_def)

lemma derived_answers:
  assumes "derive_alias_answers sha256 interner paths sets = Some (out, interner')"
    and index: "index = alias_query_index_new paths sets"
  shows "\<exists>ops. sort_operands index interner (alias_operands paths) = Some ops \<and>
     mset (map summary (al_answers out)) = mset (expected_answers index (operand_pairs (vec_dedup ops)))"
proof -
  obtain ops answers reported where ops: "sort_operands index interner (alias_operands paths) = Some ops"
    and run: "answer_operands sha256 index (vec_dedup ops) ([], False, interner) = Some (answers, reported, interner')"
    and norm: "alias_output_normalized interner' \<lparr> al_answers = answers \<rparr> = Some out"
    using assms by (auto simp: derive_alias_answers_def bind_eq_Some_conv Let_def)
  have rows: "normalize_rows interner' aa_stable_key aa_id (\<lambda>i row. row \<lparr> aa_id := i \<rparr>) answers = Some (al_answers out)"
    using norm by (auto simp: alias_output_normalized_def)
  have "mset (map summary (al_answers out)) = mset (map summary answers)"
    by (rule answer_rows.normalize_mset [OF rows]) (simp add: summary_def)
  moreover have "map summary answers = expected_answers index ([] @ operand_pairs (vec_dedup ops))"
    by (rule answer_operands_run [OF run]) (simp_all add: expected_answers_def)
  ultimately show ?thesis using ops by auto
qed


section \<open>Answers and the least solution\<close>

lemma operand_var_not_slot: "operand_var a = Some v \<Longrightarrow> \<not> is_slot_var v"
  using source_not_slot [of "Var_Place _" v] source_not_slot [of "Var_Access_Path _" v] by (cases a) auto

lemma objects_for_exact:
  assumes run: "output_with_solved_sets sha256 interner cs budget = Some (out, interner')"
    and vars: "list_all (\<lambda>c. list_all (\<lambda>v. \<not> is_slot_var v) (constraint_vars (pc_kind c))) cs"
    and index: "index = alias_query_index_new paths (po_sets out)" "\<not> aq_budget_exceeded index"
    and objects: "objects_for index a = Some (Some objs)" and v: "operand_var a = Some v"
  shows "fset objs = {obj. least_pts (pc_kind ` set cs) (VarNode v) obj}"
proof -
  obtain row where row: "fmlookup (aq_points_to index) v = Some row" "fset objs = set (ps_objects row)"
    using objects v by (auto simp: objects_for_def fset_of_list.rep_eq split: option.splits if_splits)
  then have "(v, row) \<in> set (map (\<lambda>set. (ps_variable set, set)) (po_sets out))"
    by (intro fm_collect_SomeD) (simp add: index(1) alias_query_index_new_def Let_def)
  then have mem: "row \<in> set (po_sets out)" "ps_variable row = v" by auto
  moreover have "ps_budget row \<noteq> BudgetExceeded"
    using index mem(1) by (auto simp: alias_query_index_new_def Let_def list_ex_iff)
  ultimately show ?thesis
    using output_set_exact [OF run vars, of row] operand_var_not_slot [OF v] row(2) by simp
qed

text \<open>The three answers that rest on points-to sets.\<close>

lemma classify_by_objects:
  assumes "classify index left right = Some (status, reason, precision, evidence)"
    and "status = NoAlias \<or> status = MayAlias \<or> reason = SingletonEqualObject"
  obtains l r where "objects_for index left = Some (Some l)" "objects_for index right = Some (Some r)"
    "\<not> aq_budget_exceeded index" "(status, reason, precision, evidence) = classify_objects l r"
  using assms by (auto simp: classify_def bind_eq_Some_conv split: if_splits option.splits)

lemma classify_objects_cases:
  "fst (classify_objects l r) = NoAlias \<Longrightarrow> l \<noteq> {||} \<and> r \<noteq> {||} \<and> fset l \<inter> fset r = {}"
  "fst (classify_objects l r) = MayAlias \<Longrightarrow> fset l \<inter> fset r \<noteq> {}"
  "fst (snd (classify_objects l r)) = SingletonEqualObject \<Longrightarrow> l = r \<and> (\<exists>obj. fset r = {obj})"
proof -
  have "fset (l |\<inter>| r) = fset l \<inter> fset r" by (rule inf_fset.rep_eq)
  then have inter: "l |\<inter>| r = {||} \<longleftrightarrow> fset l \<inter> fset r = {}" by (metis bot_fset.rep_eq fset_inject)
  show "fst (classify_objects l r) = NoAlias \<Longrightarrow> l \<noteq> {||} \<and> r \<noteq> {||} \<and> fset l \<inter> fset r = {}"
    "fst (classify_objects l r) = MayAlias \<Longrightarrow> fset l \<inter> fset r \<noteq> {}"
    by (auto simp: classify_objects_def inter split: if_splits)
  show "l = r \<and> (\<exists>obj. fset r = {obj})" if "fst (snd (classify_objects l r)) = SingletonEqualObject"
  proof -
    from that have "l = r" "fcard l = 1" by (simp_all add: classify_objects_def split: if_splits)
    then have "card (fset r) = 1" by (simp add: fcard.rep_eq)
    with \<open>l = r\<close> show ?thesis by (simp add: card_1_singleton_iff)
  qed
qed

lemma expected_classified:
  assumes "s \<in> set (expected_answers index ps)"
    and "fst (snd s) = NoAlias \<or> fst (snd s) = MayAlias \<or> snd (snd s) = SingletonEqualObject"
  shows "s = classified index (fst s)"
  using assms by (auto simp: expected_answers_def)

text \<open>
  C16: the alias answers derived from a solved points-to output are justified by the least solution of the
  constraints, whatever the budgets: two operands that are answered \<open>NoAlias\<close> share no object and both
  have one, operands answered \<open>MayAlias\<close> share an object, and operands equated as singletons both point
  to exactly one and the same object.
\<close>

theorem alias_answers_sound:
  assumes run: "output_with_solved_sets sha256 interner cs budget = Some (out, interner')"
    and vars: "list_all (\<lambda>c. list_all (\<lambda>v. \<not> is_slot_var v) (constraint_vars (pc_kind c))) cs"
    and answers: "derive_alias_answers sha256 interner' paths (po_sets out) = Some (aliases, interner'')"
    and a: "a \<in> set (al_answers aliases)" and v: "operand_var (aa_left a) = Some v" and w: "operand_var (aa_right a) = Some w"
    and pts: "P = least_pts (pc_kind ` set cs)"
  shows "(aa_status a = NoAlias \<longrightarrow>
      (\<exists>obj. P (VarNode v) obj) \<and> (\<exists>obj. P (VarNode w) obj) \<and> (\<nexists>obj. P (VarNode v) obj \<and> P (VarNode w) obj)) \<and>
    (aa_status a = MayAlias \<longrightarrow> (\<exists>obj. P (VarNode v) obj \<and> P (VarNode w) obj)) \<and>
    (aa_reason a = SingletonEqualObject \<longrightarrow>
      (\<exists>obj. {o'. P (VarNode v) o'} = {obj} \<and> {o'. P (VarNode w) o'} = {obj}))"
proof (cases "aa_status a = NoAlias \<or> aa_status a = MayAlias \<or> aa_reason a = SingletonEqualObject")
  case True
  define index where "index = alias_query_index_new paths (po_sets out)"
  obtain ops where "mset (map summary (al_answers aliases)) = mset (expected_answers index (operand_pairs (vec_dedup ops)))"
    using derived_answers [OF answers index_def] by blast
  from mset_eq_setD [OF this] a have "summary a \<in> set (expected_answers index (operand_pairs (vec_dedup ops)))" by auto
  from expected_classified [OF this] True
  have "summary a = classified index (aa_left a, aa_right a)" by (simp add: summary_def)
  with True obtain precision evidence where c:
    "classify index (aa_left a) (aa_right a) = Some (aa_status a, aa_reason a, precision, evidence)"
    by (auto simp: summary_def classified_def split: option.splits)
  from classify_by_objects [OF c True] obtain l r where objs: "objects_for index (aa_left a) = Some (Some l)"
    "objects_for index (aa_right a) = Some (Some r)" "\<not> aq_budget_exceeded index"
    "(aa_status a, aa_reason a, precision, evidence) = classify_objects l r" by blast
  have "fset l = {obj. P (VarNode v) obj}" "fset r = {obj. P (VarNode w) obj}"
    unfolding pts using objects_for_exact [OF run vars index_def objs(3)] objs(1,2) v w by blast+
  moreover have "aa_status a = fst (classify_objects l r)" "aa_reason a = fst (snd (classify_objects l r))"
    by (simp_all flip: objs(4))
  ultimately show ?thesis using classify_objects_cases [of l r] by (auto simp: fset_inject)
qed auto

text \<open>
  The provider answers the pairs of its operands in order: the first 64 pairs of the sorted operands
  are classified, and if there are more, exactly one further answer reports the exhausted budget. Answers
  are numbered by their position.
\<close>

theorem alias_pairs_answered:
  assumes run: "derive_alias_answers sha256 interner paths sets = Some (out, interner')"
    and index: "index = alias_query_index_new paths sets"
    and ops: "ops = sort_key (\<lambda>a. the (operand_stable_identity index interner a)) (alias_operands paths)"
  shows "mset (map summary (al_answers out)) = mset (expected_answers index (operand_pairs (vec_dedup ops))) \<and>
    length (al_answers out) \<le> 65 \<and> map aa_id (al_answers out) = [0..<length (al_answers out)]"
proof -
  obtain ops' where ops': "sort_operands index interner (alias_operands paths) = Some ops'"
    and answers: "mset (map summary (al_answers out)) = mset (expected_answers index (operand_pairs (vec_dedup ops')))"
    using derived_answers [OF run index] by blast
  have "ops' = ops" using ops' unfolding ops sort_operands_by_identity by (simp split: if_splits)
  moreover have "length (al_answers out) \<le> 65"
    using arg_cong [OF answers, of size] by (simp add: length_expected)
  moreover obtain rows j where "normalize_rows j aa_stable_key aa_id (\<lambda>i row. row \<lparr> aa_id := i \<rparr>) rows = Some (al_answers out)"
    using run by (auto simp: derive_alias_answers_def alias_output_normalized_def bind_eq_Some_conv Let_def)
  from answer_rows.normalize_ids [OF this]
  have "map aa_id (al_answers out) = [0..<length (al_answers out)]" by (intro nth_equalityI) simp_all
  ultimately show ?thesis using answers by simp
qed

end
