(* ===== verification/Type_Value_Alias.thy ===== *)
theory Type_Value_Alias
  imports Aliases
begin

text \<open>
  The type, value and alias stage as a whole: \<open>TypeValueAliasOutput\<close> of \<open>types/store.rs\<close> and the steps of
  \<open>types/provider.rs\<close> that merge the outputs of the two front ends and that derive constraints, points-to
  sets and alias answers from the merged output. Digests, diagnostics and the merge of extension facts
  are not part of it.
\<close>

section \<open>The stage\<close>

record type_value_alias_output =
  tva_types :: type_output
  tva_values :: value_output
  tva_access_paths :: access_path_output
  tva_points_to :: points_to_output
  tva_aliases :: alias_output

definition type_value_alias_normalized ::
  "interner_state \<Rightarrow> type_value_alias_output \<Rightarrow> type_value_alias_output option" where
  "type_value_alias_normalized interner output = do {
     types \<leftarrow> type_output_normalized interner (tva_types output);
     vals \<leftarrow> value_output_normalized interner (tva_values output);
     access_paths \<leftarrow> access_path_output_normalized interner (tva_access_paths output);
     points_to \<leftarrow> points_to_output_normalized interner (tva_points_to output);
     aliases \<leftarrow> alias_output_normalized interner (tva_aliases output);
     Some \<lparr> tva_types = types, tva_values = vals, tva_access_paths = access_paths,
            tva_points_to = points_to, tva_aliases = aliases \<rparr>
   }"

text \<open>The rows of the TypeScript front end are appended to those of the Go front end.\<close>

definition extend_output ::
  "type_value_alias_output \<Rightarrow> type_value_alias_output \<Rightarrow> type_value_alias_output" where
  "extend_output output ts_js_output =
     output \<lparr>
       tva_types := \<lparr> to_types = to_types (tva_types output) @ to_types (tva_types ts_js_output),
                      to_narrowed = to_narrowed (tva_types output) @ to_narrowed (tva_types ts_js_output) \<rparr>,
       tva_values := \<lparr> vo_values = vo_values (tva_values output) @ vo_values (tva_values ts_js_output),
                       vo_allocations = vo_allocations (tva_values output) @ vo_allocations (tva_values ts_js_output) \<rparr>,
       tva_access_paths := \<lparr> ao_access_paths =
         ao_access_paths (tva_access_paths output) @ ao_access_paths (tva_access_paths ts_js_output) \<rparr> \<rparr>"

definition merge_front_ends ::
  "interner_state \<Rightarrow> type_value_alias_output \<Rightarrow> type_value_alias_output \<Rightarrow> type_value_alias_output option" where
  "merge_front_ends interner go_output ts_js_output =
     type_value_alias_normalized interner (extend_output go_output ts_js_output)"

definition derive_relations ::
  "(string \<Rightarrow> 8 word list) \<Rightarrow> interner_state \<Rightarrow> type_value_alias_output \<Rightarrow>
     (type_value_alias_output \<times> interner_state) option" where
  "derive_relations sha256 interner output = do {
     (constraints, interner1) \<leftarrow>
       derive_points_to_constraints sha256 interner (tva_values output) (tva_access_paths output);
     (points_to, interner2) \<leftarrow> output_with_solved_sets sha256 interner1
       (constraints @ po_constraints (tva_points_to output)) points_to_budget_default;
     (aliases, interner3) \<leftarrow> derive_alias_answers sha256 interner2
       (ao_access_paths (tva_access_paths output)) (po_sets points_to);
     output' \<leftarrow> type_value_alias_normalized interner3 (output \<lparr>
       tva_points_to := points_to,
       tva_aliases := \<lparr> al_answers = al_answers aliases @ al_answers (tva_aliases output) \<rparr> \<rparr>);
     Some (output', interner3)
   }"


section \<open>Normal forms as the interner grows\<close>

definition later :: "interner_state \<Rightarrow> interner_state \<Rightarrow> bool" where
  "later i j \<longleftrightarrow> (\<forall>k t. resolve i k = Some t \<longrightarrow> resolve j k = Some t)"

lemma sort_rows_grows:
  assumes "sort_rows i key_of id_of rows = Some rows'"
    and "later i j"
  shows "sort_rows j key_of id_of rows = Some rows'"
proof (cases "length rows < 2")
  case False
  then have ok: "resolve i (key_of r) \<noteq> None" if "r \<in> set rows" for r
    using assms(1) that by (auto simp: sort_rows_def list_all_iff split: if_splits)
  then have eq: "resolve j (key_of r) = resolve i (key_of r)" if "r \<in> set rows" for r
    using that assms(2) unfolding later_def by (metis option.exhaust)
  have "sort_key (\<lambda>r. (the (resolve j (key_of r)), id_of r)) rows = sort_key (\<lambda>r. (the (resolve i (key_of r)), id_of r)) rows"
    by (rule sort_key_iso) (simp add: eq)
  with False assms(1) ok eq show ?thesis by (auto simp: sort_rows_def list_all_iff split: if_splits)
qed (use assms(1) in \<open>simp add: sort_rows_def\<close>)

lemma normalize_rows_grows:
  assumes "normalize_rows i key_of id_of set_id rows = Some rows'"
    and "later i j"
  shows "normalize_rows j key_of id_of set_id rows = Some rows'"
  using assms(1) by (auto simp: normalize_rows_def dest!: sort_rows_grows [OF _ assms(2)])

lemma type_output_grows:
  assumes "type_output_normalized i out = Some out'" and "later i j"
  shows "type_output_normalized j out = Some out'"
  using assms(1) by (auto simp: type_output_normalized_def bind_eq_Some_conv Let_def
      dest!: sort_rows_grows [OF _ assms(2)] normalize_rows_grows [OF _ assms(2)])

lemma value_output_grows:
  assumes "value_output_normalized i out = Some out'" and "later i j"
  shows "value_output_normalized j out = Some out'"
  using assms(1) by (auto simp: value_output_normalized_def bind_eq_Some_conv Let_def
      dest!: sort_rows_grows [OF _ assms(2)] normalize_rows_grows [OF _ assms(2)])

lemma access_path_output_grows:
  assumes "access_path_output_normalized i out = Some out'" and "later i j"
  shows "access_path_output_normalized j out = Some out'"
  using assms(1) by (auto simp: access_path_output_normalized_def bind_eq_Some_conv Let_def
      dest!: sort_rows_grows [OF _ assms(2)] normalize_rows_grows [OF _ assms(2)])

lemma points_to_output_grows:
  assumes "points_to_output_normalized i out = Some out'" and "later i j"
  shows "points_to_output_normalized j out = Some out'"
  using assms(1) by (auto simp: points_to_output_normalized_def bind_eq_Some_conv Let_def
      dest!: sort_rows_grows [OF _ assms(2)] normalize_rows_grows [OF _ assms(2)])

lemma alias_output_grows:
  assumes "alias_output_normalized i out = Some out'" and "later i j"
  shows "alias_output_normalized j out = Some out'"
  using assms(1) by (auto simp: alias_output_normalized_def bind_eq_Some_conv Let_def
      dest!: sort_rows_grows [OF _ assms(2)] normalize_rows_grows [OF _ assms(2)])

definition fits :: "type_value_alias_output \<Rightarrow> bool" where
  "fits output \<longleftrightarrow> length (vo_values (tva_values output)) \<le> 2 ^ 64 \<and>
     length (vo_allocations (tva_values output)) \<le> 2 ^ 64 \<and>
     length (ao_access_paths (tva_access_paths output)) \<le> 2 ^ 64"

lemma type_value_alias_idem:
  assumes run: "type_value_alias_normalized i out = Some out'" and fits: "fits out"
    and later: "later i j"
  shows "type_value_alias_normalized j out' = Some out'"
proof -
  obtain types vals paths points_to aliases where parts: "type_output_normalized i (tva_types out) = Some types"
    "value_output_normalized i (tva_values out) = Some vals"
    "access_path_output_normalized i (tva_access_paths out) = Some paths"
    "points_to_output_normalized i (tva_points_to out) = Some points_to"
    "alias_output_normalized i (tva_aliases out) = Some aliases"
    and out': "out' = \<lparr> tva_types = types, tva_values = vals, tva_access_paths = paths,
       tva_points_to = points_to, tva_aliases = aliases \<rparr>"
    using run unfolding type_value_alias_normalized_def bind_eq_Some_conv by blast
  have t: "type_output_normalized i types = Some types" by (rule type_output_idem [OF parts(1)])
  have v: "value_output_normalized i vals = Some vals"
    by (rule value_output_idem [OF parts(2)]) (use fits in \<open>simp_all add: fits_def\<close>)
  have p: "access_path_output_normalized i paths = Some paths"
    by (rule access_path_output_idem [OF parts(3)]) (use fits in \<open>simp add: fits_def\<close>)
  have o': "points_to_output_normalized i points_to = Some points_to" by (rule points_to_output_idem [OF parts(4)])
  have a: "alias_output_normalized i aliases = Some aliases" by (rule alias_output_idem [OF parts(5)])
  show ?thesis
    using type_output_grows [OF t later] value_output_grows [OF v later] access_path_output_grows [OF p later]
      points_to_output_grows [OF o' later] alias_output_grows [OF a later]
    by (simp add: type_value_alias_normalized_def out')
qed


section \<open>Merging the front ends\<close>

text \<open>One allocation and one value that refers to it, from each front end; both number from zero.\<close>

definition front_end_output :: "stable_key_id \<Rightarrow> stable_key_id \<Rightarrow> type_value_alias_output" where
  "front_end_output allocation value_key =
     \<lparr> tva_types = \<lparr> to_types = [], to_narrowed = [] \<rparr>,
       tva_values = \<lparr> vo_values = [sample_value 0 0 value_key], vo_allocations = [sample_allocation 0 allocation] \<rparr>,
       tva_access_paths = \<lparr> ao_access_paths = [] \<rparr>,
       tva_points_to = \<lparr> po_constraints = [], po_sets = [] \<rparr>,
       tva_aliases = \<lparr> al_answers = [] \<rparr> \<rparr>"

definition merged_output :: type_value_alias_output where
  "merged_output = (front_end_output 0 0)
     \<lparr> tva_values := \<lparr> vo_values = [sample_value 0 1 3, sample_value 1 1 2],
                       vo_allocations = [sample_allocation 0 1, sample_allocation 1 0] \<rparr> \<rparr>"

lemmas output_normalized_defs =
  type_value_alias_normalized_def type_output_normalized_def value_output_normalized_def
  access_path_output_normalized_def points_to_output_normalized_def alias_output_normalized_def normalize_rows_def

lemma merge_sample: "merge_front_ends sample_rows (front_end_output 1 3) (front_end_output 0 2) = Some merged_output"
  by (simp add: merge_front_ends_def extend_output_def front_end_output_def merged_output_def output_normalized_defs
      sort_rows_def resolve_def sample_rows_def sample_value_def sample_allocation_def renumber_rows_def
      allocation_remap_def fm_collect_def remap_value_allocation_refs_def fm_get_or_def less_eq_char_def
      less_char_def Let_def type_set_remap_def)

text \<open>
  C36: merging the two front ends can redirect references: both number their allocations from zero, and the
  table that renames allocations keeps one entry per old id. Here the value of the first front end refers
  to the allocation with key 1 before the merge, and to the other front end's allocation after it.
\<close>

theorem merged_front_ends_confuse_allocations:
  "merge_front_ends sample_rows (front_end_output 1 3) (front_end_output 0 2) = Some merged_output \<and>
   type_value_alias_normalized sample_rows (front_end_output 1 3) = Some (front_end_output 1 3) \<and>
   type_value_alias_normalized sample_rows (front_end_output 0 2) = Some (front_end_output 0 2) \<and>
   (3, [Some 1]) \<in># described_values (tva_values (front_end_output 1 3)) \<and>
   described_values (tva_values merged_output) = {#(3, [Some 0]), (2, [Some 0])#}"
proof (intro conjI)
  show "merge_front_ends sample_rows (front_end_output 1 3) (front_end_output 0 2) = Some merged_output"
    by (rule merge_sample)
  show "type_value_alias_normalized sample_rows (front_end_output 1 3) = Some (front_end_output 1 3)"
    "type_value_alias_normalized sample_rows (front_end_output 0 2) = Some (front_end_output 0 2)"
    by (simp_all add: front_end_output_def output_normalized_defs sort_rows_def sample_value_def sample_allocation_def
        renumber_rows_def allocation_remap_def fm_collect_def remap_value_allocation_refs_def fm_get_or_def
        Let_def type_set_remap_def)
  show "(3, [Some 1]) \<in># described_values (tva_values (front_end_output 1 3))"
    "described_values (tva_values merged_output) = {#(3, [Some 0]), (2, [Some 0])#}"
    by (simp_all add: described_values_def front_end_output_def merged_output_def sample_value_def
        sample_allocation_def value_tokens_def allocation_key_def)
qed

end
