(* ===== verification/Points_To_Total.thy ===== *)
theory Points_To_Total
  imports Points_To_Exact
begin

text \<open>
  The points-to solver always returns: no \<open>expect\<close> and no assertion of it fails, whatever the budgets
  are. Budgets that grow with the cube of the number of constraints are enough for it to finish
  within them. The invariant \<open>tame\<close> says that every variable and object in play has an identity,
  where they come from, and that the steps taken and still to take are paid for by members of sets.
\<close>

section \<open>What a list of constraints can mention\<close>

definition slot_name :: "points_to_constraint_kind \<Rightarrow> string option" where
  "slot_name k =
     (case load_of k of
        Some (_, slot, _) \<Rightarrow> Some slot
      | None \<Rightarrow> map_option (\<lambda>(_, slot, _). slot) (store_of k))"

definition objects_of :: "points_to_constraint_fact list \<Rightarrow> object_token set" where
  "objects_of cs = {obj. \<exists>c \<in> set cs. map_option snd (origin_of (pc_kind c)) = Some obj}"

definition names_of :: "points_to_constraint_fact list \<Rightarrow> string set" where
  "names_of cs = {slot. \<exists>c \<in> set cs. slot_name (pc_kind c) = Some slot}"

definition vars_of :: "points_to_constraint_fact list \<Rightarrow> pt_var set" where
  "vars_of cs = (\<Union>c \<in> set cs. set (constraint_vars (pc_kind c)))"

lemma card_partial_image: "finite {y. \<exists>c \<in> set cs. f c = Some y} \<and> card {y. \<exists>c \<in> set cs. f c = Some y} \<le> length cs"
proof -
  have sub: "{y. \<exists>c \<in> set cs. f c = Some y} \<subseteq> (the \<circ> f) ` set cs" by force
  have "card ((the \<circ> f) ` set cs) \<le> length cs" using card_image_le card_length le_trans by blast
  with sub show ?thesis using card_mono [OF _ sub] finite_subset [OF sub] by fastforce
qed

lemma objects_bound: "finite (objects_of cs)" "card (objects_of cs) \<le> length cs"
  unfolding objects_of_def using card_partial_image [of cs "\<lambda>c. map_option snd (origin_of (pc_kind c))"] by simp_all

lemma names_bound: "finite (names_of cs)" "card (names_of cs) \<le> length cs"
  unfolding names_of_def using card_partial_image [of cs "\<lambda>c. slot_name (pc_kind c)"] by simp_all

lemma vars_bound: "finite (vars_of cs) \<and> card (vars_of cs) \<le> 2 * length cs"
proof (induction cs)
  case Nil
  show ?case by (simp add: vars_of_def)
next
  case (Cons c cs)
  have "card (set (constraint_vars (pc_kind c))) \<le> length (constraint_vars (pc_kind c))" by (rule card_length)
  also have "\<dots> \<le> 2" by (cases "pc_kind c") simp_all
  finally have "card (set (constraint_vars (pc_kind c))) \<le> 2" .
  moreover have "vars_of (c # cs) = set (constraint_vars (pc_kind c)) \<union> vars_of cs" by (auto simp: vars_of_def)
  moreover have "card (set (constraint_vars (pc_kind c)) \<union> vars_of cs) \<le>
      card (set (constraint_vars (pc_kind c))) + card (vars_of cs)" by (rule card_Un_le)
  ultimately show ?case using Cons by simp
qed

lemma load_slot_name: "c \<in> set cs \<Longrightarrow> load_of (pc_kind c) = Some (u, slot, v) \<Longrightarrow> slot \<in> names_of cs"
  by (auto simp: names_of_def slot_name_def intro!: bexI [of _ c])

lemma store_slot_name: "c \<in> set cs \<Longrightarrow> store_of (pc_kind c) = Some (u, slot, v) \<Longrightarrow> slot \<in> names_of cs"
  by (cases "pc_kind c") (auto simp: names_of_def slot_name_def intro!: bexI [of _ c])


section \<open>The invariant\<close>

definition known_vars :: "points_to_constraint_fact list \<Rightarrow> pt_solver \<Rightarrow> pt_var set" where
  "known_vars cs s = fset (fmdom (pt_variable_identities s)) \<inter> (vars_of cs \<union> fmran' (pt_object_slots s))"

definition known_objects :: "points_to_constraint_fact list \<Rightarrow> pt_solver \<Rightarrow> object_token set" where
  "known_objects cs s = fset (fmdom (pt_object_identities s)) \<inter> objects_of cs"

definition members :: "pt_solver \<Rightarrow> (pt_var \<times> object_token) set" where
  "members s = {(v, obj). obj \<in> pts_of s v}"

definition named :: "points_to_constraint_fact list \<Rightarrow> pt_solver \<Rightarrow> bool" where
  "named cs s \<longleftrightarrow>
     fset (fmdom (pt_sets s)) \<subseteq> known_vars cs s \<and>
     (\<forall>u. edges_of s u \<subseteq> known_vars cs s) \<and>
     (\<forall>u. snd ` loads_of s u \<subseteq> known_vars cs s) \<and>
     fmran' (pt_object_slots s) \<subseteq> known_vars cs s \<and>
     (\<forall>v. pts_of s v \<subseteq> known_objects cs s) \<and>
     fset (fmdom (pt_object_slots s)) \<subseteq> objects_of cs \<times> names_of cs \<and>
     fset (pt_dynamic_vars s) \<subseteq> fmran' (pt_object_slots s)"

text \<open>Budgets that are never exceeded for these constraints.\<close>

definition ample :: "points_to_constraint_fact list \<Rightarrow> points_to_budget \<Rightarrow> bool" where
  "ample cs budget \<longleftrightarrow>
     (let n = length cs in
      n \<le> max_objects_per_var budget \<and> n * n \<le> max_dynamic_vars budget \<and>
      (2 * n + n * n) * n \<le> max_steps budget)"

definition tame :: "points_to_constraint_fact list \<Rightarrow> points_to_budget \<Rightarrow> pt_solver \<Rightarrow> bool" where
  "tame cs budget s \<longleftrightarrow>
     named cs s \<and> sound (pc_kind ` set cs) s \<and> pt_steps s + length (pt_queue s) \<le> card (members s) \<and>
     (ample cs budget \<longrightarrow> \<not> pt_budget_exceeded s)"

lemma members_sets: "members s \<subseteq> fset (fmdom (pt_sets s)) \<times> (\<Union>v \<in> fset (fmdom (pt_sets s)). pts_of s v)"
proof
  fix p assume "p \<in> members s"
  then obtain v obj where p: "p = (v, obj)" and obj: "obj \<in> pts_of s v" by (auto simp: members_def)
  then have "v |\<in>| fmdom (pt_sets s)" by (metis empty_iff fmdom_notD pts_of_None)
  with p obj show "p \<in> fset (fmdom (pt_sets s)) \<times> (\<Union>v \<in> fset (fmdom (pt_sets s)). pts_of s v)" by auto
qed

lemma finite_members: "finite (members s)"
  by (rule finite_subset [OF members_sets]) (simp add: pts_of_def)

lemma members_add_all:
  "members (add_all budget dst objects s) =
     (if pt_budget_exceeded s then members s else members s \<union> {dst} \<times> fset objects)"
  by (auto simp: members_def pts_of_add_all split: if_splits)

lemma queue_length_add_all:
  assumes "pt_steps s + length (pt_queue s) \<le> card (members s)"
  shows "pt_steps (add_all budget dst objects s) + length (pt_queue (add_all budget dst objects s))
     \<le> card (members (add_all budget dst objects s))"
proof -
  let ?t = "add_all budget dst objects s"
  have steps: "pt_steps ?t = pt_steps s" using add_all_fields(5) [of s budget dst objects] by (simp add: same_tables_def)
  have sub: "members s \<subseteq> members ?t" by (auto simp: members_add_all)
  show ?thesis
  proof (cases "pt_queue ?t = pt_queue s")
    case True
    with assms card_mono [OF finite_members sub] steps show ?thesis by simp
  next
    case False
    then obtain obj where "length (pt_queue ?t) = Suc (length (pt_queue s))" "\<not> pt_budget_exceeded s"
      "obj |\<in>| objects" "obj \<notin> pts_of s dst"
      by (fastforce simp: add_all_def Let_def pt_exceed_def pts_of_def split: if_splits)
    moreover from this have "members s \<subset> members ?t"
      using sub by (auto simp: members_add_all) (auto simp: members_def)
    ultimately show ?thesis using assms psubset_card_mono [OF finite_members, of "members s" ?t] steps by simp
  qed
qed

lemma known_add_all [simp]:
  "known_vars cs (add_all budget dst objects s) = known_vars cs s"
  "known_objects cs (add_all budget dst objects s) = known_objects cs s"
  by (simp_all add: known_vars_def known_objects_def)

lemma known_copy_edge [simp]:
  "known_vars cs (add_copy_edge budget u v s) = known_vars cs s"
  "known_objects cs (add_copy_edge budget u v s) = known_objects cs s"
  by (simp_all add: known_vars_def known_objects_def)

lemma dom_sets_add_all:
  "fset (fmdom (pt_sets (add_all budget dst objects s))) \<subseteq> insert dst (fset (fmdom (pt_sets s)))"
  by (auto simp: add_all_def Let_def pt_exceed_def)

lemma named_add_all:
  assumes "named cs s" "dst \<in> known_vars cs s" "fset objects \<subseteq> known_objects cs s"
  shows "named cs (add_all budget dst objects s)"
proof -
  have "loads_of (add_all budget dst objects s) = loads_of s" by (simp add: same_tables_of)
  then show ?thesis
    using assms dom_sets_add_all [of budget dst objects s] unfolding named_def
    by (auto simp: pts_of_add_all)
qed

lemma named_copy_edge:
  assumes "named cs s" "v \<in> known_vars cs s"
  shows "named cs (add_copy_edge budget u v s)"
proof -
  let ?s = "s \<lparr> pt_copy_edges := fm_add u v (pt_copy_edges s) \<rparr>"
  have k: "known_vars cs ?s = known_vars cs s" "known_objects cs ?s = known_objects cs s"
    by (simp_all add: known_vars_def known_objects_def)
  have "pts_of ?s = pts_of s" "loads_of ?s = loads_of s" by (simp_all add: pts_of_def loads_of_def fun_eq_iff)
  with assms have n: "named cs ?s" unfolding named_def k by (auto simp: edges_of_add)
  moreover have "fset objects \<subseteq> known_objects cs s" if "fmlookup (pt_sets s) u = Some objects" for objects
    using assms(1) pts_of_Some [OF that] unfolding named_def by metis
  ultimately show ?thesis
    using assms(2) by (auto simp: add_copy_edge_def Let_def k intro!: named_add_all split: option.split)
qed

lemma counted_copy_edge:
  assumes "pt_steps s + length (pt_queue s) \<le> card (members s)"
  shows "pt_steps (add_copy_edge budget u v s) + length (pt_queue (add_copy_edge budget u v s))
     \<le> card (members (add_copy_edge budget u v s))"
proof -
  let ?s = "s \<lparr> pt_copy_edges := fm_add u v (pt_copy_edges s) \<rparr>"
  have "members ?s = members s" by (simp add: members_def pts_of_def)
  with assms have "pt_steps ?s + length (pt_queue ?s) \<le> card (members ?s)" by simp
  with queue_length_add_all [OF this, of budget v] show ?thesis
    by (auto simp: add_copy_edge_def Let_def split: option.split)
qed

lemma ample_add_all:
  assumes "named cs (add_all budget dst objects s)" "ample cs budget" "\<not> pt_budget_exceeded s"
  shows "\<not> pt_budget_exceeded (add_all budget dst objects s)"
proof -
  let ?set = "fm_get_or {||} (pt_sets s) dst |\<union>| objects"
  have "fset ?set = pts_of (add_all budget dst objects s) dst"
    using assms(3) by (simp add: pts_of_add_all) (simp add: pts_of_def)
  also have "\<dots> \<subseteq> objects_of cs" using assms(1) unfolding named_def known_objects_def by blast
  finally have "fcard ?set \<le> length cs"
    unfolding fcard.rep_eq using card_mono [OF objects_bound(1)] objects_bound(2) order_trans by blast
  then show ?thesis using assms(2,3) by (auto simp: add_all_def Let_def ample_def)
qed

lemma ample_copy_edge:
  assumes "named cs (add_copy_edge budget u v s)" "ample cs budget" "\<not> pt_budget_exceeded s"
  shows "\<not> pt_budget_exceeded (add_copy_edge budget u v s)"
  using assms ample_add_all [of cs budget v _ "s \<lparr> pt_copy_edges := fm_add u v (pt_copy_edges s) \<rparr>"]
  by (auto simp: add_copy_edge_def Let_def split: option.splits if_splits)

lemma tame_add_all:
  assumes "tame cs budget s" "dst \<in> known_vars cs s" "fset objects \<subseteq> known_objects cs s"
    and "\<And>slots obj. fm_le (pt_object_slots s) slots \<Longrightarrow> obj |\<in>| objects \<Longrightarrow> slot_pts (pc_kind ` set cs) slots dst obj"
  shows "tame cs budget (add_all budget dst objects s)"
proof -
  have n: "named cs (add_all budget dst objects s)"
    using assms by (intro named_add_all) (simp_all add: tame_def)
  moreover have "sound (pc_kind ` set cs) (add_all budget dst objects s)"
    using assms by (intro sound_add_all) (simp_all add: tame_def)
  ultimately show ?thesis
    using assms(1) queue_length_add_all ample_add_all [OF n] unfolding tame_def by blast
qed

lemma fmran_fmupd_fresh: "fmlookup m k = None \<Longrightarrow> fmran' (fmupd k v m) = insert v (fmran' m)"
proof (rule set_eqI)
  fix x assume k: "fmlookup m k = None"
  have "(\<exists>a. fmlookup (fmupd k v m) a = Some x) \<longleftrightarrow> x = v \<or> (\<exists>a. fmlookup m a = Some x)"
    using k by (metis fmupd_lookup option.distinct(1) option.inject)
  then show "x \<in> fmran' (fmupd k v m) \<longleftrightarrow> x \<in> insert v (fmran' m)" by (simp add: fmlookup_ran'_iff)
qed

lemma fmran_card: "fset A \<subseteq> fmran' m \<Longrightarrow> fcard A \<le> fcard (fmdom m)"
proof -
  assume A: "fset A \<subseteq> fmran' m"
  have "fmran' m \<subseteq> (\<lambda>k. the (fmlookup m k)) ` fset (fmdom m)"
  proof
    fix x assume "x \<in> fmran' m"
    then obtain k where "fmlookup m k = Some x" by (auto simp: fmlookup_ran'_iff)
    then show "x \<in> (\<lambda>k. the (fmlookup m k)) ` fset (fmdom m)" by (intro image_eqI [of _ _ k]) (simp_all add: fmdomI)
  qed
  with A have "fset A \<subseteq> (\<lambda>k. the (fmlookup m k)) ` fset (fmdom m)" by blast
  then have "card (fset A) \<le> card ((\<lambda>k. the (fmlookup m k)) ` fset (fmdom m))" by (intro card_mono) simp_all
  also have "\<dots> \<le> card (fset (fmdom m))" by (rule card_image_le) simp
  finally show ?thesis by (simp add: fcard.rep_eq)
qed

lemma named_new_slot:
  assumes "named cs s" "fmlookup (pt_object_slots s) (obj, slot) = None" "obj \<in> objects_of cs" "slot \<in> names_of cs"
  shows "named cs (new_object_slot budget obj slot var i s)"
proof -
  let ?t = "new_object_slot budget obj slot var i s"
  have ran: "fmran' (pt_object_slots ?t) = insert var (fmran' (pt_object_slots s))"
    by (simp add: fmran_fmupd_fresh [OF assms(2)])
  have dom: "fset (fmdom (pt_variable_identities ?t)) = insert var (fset (fmdom (pt_variable_identities s)))"
    by (simp add: fm_add_def)
  have kv: "known_vars cs s \<subseteq> known_vars cs ?t" "var \<in> known_vars cs ?t"
    unfolding known_vars_def ran dom by auto
  have "known_objects cs ?t = known_objects cs s" by (simp add: known_objects_def)
  moreover have "pt_sets ?t = pt_sets s" "pt_dynamic_vars ?t = finsert var (pt_dynamic_vars s)"
    by (simp_all add: new_object_slot_def Let_def pt_exceed_def)
  moreover have "loads_of ?t = loads_of s" by (simp add: same_tables_of)
  ultimately show ?thesis
    using assms kv(2) subset_insertI2 unfolding named_def ran
    by (simp add: subset_trans [OF _ kv(1)] subset_insertI2)
qed


section \<open>No operation of the loop fails\<close>

lemma slot_keys_bound: "card (objects_of cs \<times> names_of cs) \<le> length cs * length cs"
  using objects_bound [of cs] names_bound [of cs] by (simp add: card_cartesian_product mult_le_mono)

lemma slots_bound:
  assumes "named cs s"
  shows "fcard (fmdom (pt_object_slots s)) \<le> length cs * length cs"
proof -
  have "fcard (fmdom (pt_object_slots s)) \<le> card (objects_of cs \<times> names_of cs)"
    unfolding fcard.rep_eq
    by (rule card_mono) (use assms objects_bound names_bound in \<open>simp_all add: named_def\<close>)
  then show ?thesis using slot_keys_bound by (rule order_trans)
qed

lemma object_slot_defined:
  assumes "tame cs budget s" and small: "length cs * length cs \<le> 2 ^ 60"
    and obj: "obj \<in> known_objects cs s" and slot: "slot \<in> names_of cs"
  shows "\<exists>w t. object_slot sha256 budget obj slot s = Some (w, t) \<and> tame cs budget t \<and> w \<in> known_vars cs t \<and>
    known_vars cs s \<subseteq> known_vars cs t"
proof (cases "fmlookup (pt_object_slots s) (obj, slot)")
  case (Some w)
  with assms(1) have "w \<in> known_vars cs s" unfolding tame_def named_def by (auto intro: fmran'I)
  with Some assms(1) show ?thesis by (simp add: object_slot_def)
next
  case None
  have key: "(obj, slot) \<in> objects_of cs \<times> names_of cs" using obj slot by (simp add: known_objects_def)
  have n: "named cs s" using assms(1) by (simp add: tame_def)
  have "fset (fmdom (pt_object_slots s)) \<subset> objects_of cs \<times> names_of cs"
  proof -
    have "(obj, slot) \<notin> fset (fmdom (pt_object_slots s))" using None by (simp add: fmdom_notI)
    with n key show ?thesis unfolding named_def by blast
  qed
  then have "fcard (fmdom (pt_object_slots s)) < card (objects_of cs \<times> names_of cs)"
    unfolding fcard.rep_eq using objects_bound names_bound by (intro psubset_card_mono) simp_all
  then have "fcard (fmdom (pt_object_slots s)) < 2 ^ 60" using slot_keys_bound [of cs] small by linarith
  then obtain w where w: "dynamic_var (fcard (fmdom (pt_object_slots s))) = Some w"
    using dynamic_var_Some_iff by blast
  obtain oi where oi: "semantic_object_identity s obj = Some oi"
    using obj by (auto simp: known_objects_def semantic_object_identity_def fmlookup_dom_iff)
  define i where "i = stable_key_text_from_parts sha256 Ff_PointsToSet [(''object'', oi), (''slot'', slot)]"
  let ?t = "new_object_slot budget obj slot w i s"
  have run: "object_slot sha256 budget obj slot s = Some (w, ?t)"
    using None w oi by (simp add: object_slot_def i_def)
  have "named cs ?t" using named_new_slot [OF n None] key by simp
  moreover have "members ?t = members s" "pt_steps ?t = pt_steps s"
    using new_object_slot_fields(7) [of s budget obj slot w i] by (simp_all add: members_def same_tables_def)
  moreover have "\<not> pt_budget_exceeded ?t" if ample: "ample cs budget"
  proof -
    have "fset (pt_dynamic_vars ?t) \<subseteq> fmran' (pt_object_slots ?t)" using \<open>named cs ?t\<close> by (simp add: named_def)
    then have "fcard (pt_dynamic_vars ?t) \<le> fcard (fmdom (pt_object_slots ?t))" by (rule fmran_card)
    also have "\<dots> \<le> length cs * length cs" by (rule slots_bound [OF \<open>named cs ?t\<close>])
    also have "\<dots> \<le> max_dynamic_vars budget" using ample by (simp add: ample_def Let_def)
    finally show ?thesis
      using assms(1) ample by (auto simp: new_object_slot_def Let_def pt_exceed_def tame_def)
  qed
  ultimately have "tame cs budget ?t"
    using assms(1) sound_object_slot [OF run] by (simp add: tame_def)
  moreover have "w \<in> known_vars cs ?t"
    using \<open>named cs ?t\<close> unfolding named_def by (simp add: fmran_fmupd_fresh [OF None])
  moreover have "known_vars cs s \<subseteq> known_vars cs ?t"
    by (auto simp: known_vars_def fm_add_def fmran_fmupd_fresh [OF None])
  ultimately show ?thesis using run by blast
qed

lemma tame_copy_edge:
  assumes "tame cs budget s" "v \<in> known_vars cs s"
    and "\<And>slots obj. fm_le (pt_object_slots s) slots \<Longrightarrow> slot_pts (pc_kind ` set cs) slots u obj \<Longrightarrow>
      slot_pts (pc_kind ` set cs) slots v obj"
  shows "tame cs budget (add_copy_edge budget u v s)"
proof -
  have n: "named cs (add_copy_edge budget u v s)"
    using assms by (intro named_copy_edge) (simp_all add: tame_def)
  moreover have "sound (pc_kind ` set cs) (add_copy_edge budget u v s)"
    using assms by (intro sound_copy_edge) (simp_all add: tame_def)
  ultimately show ?thesis
    using assms(1) counted_copy_edge ample_copy_edge [OF n] unfolding tame_def by blast
qed

lemma tame_names:
  assumes "tame cs budget s"
  shows "(slot, v) \<in> loads_of s u \<Longrightarrow> slot \<in> names_of cs" "(slot, v) \<in> loads_of s u \<Longrightarrow> v \<in> known_vars cs s"
    "(slot, v) \<in> stores_of s u \<Longrightarrow> slot \<in> names_of cs" "obj \<in> pts_of s u \<Longrightarrow> obj \<in> known_objects cs s"
proof -
  have sound: "sound (pc_kind ` set cs) s" and named: "named cs s" using assms by (simp_all add: tame_def)
  show "slot \<in> names_of cs" if "(slot, v) \<in> loads_of s u"
    using sound that load_slot_name unfolding sound_def by blast
  show "slot \<in> names_of cs" if "(slot, v) \<in> stores_of s u"
    using sound that store_slot_name unfolding sound_def by blast
  show "v \<in> known_vars cs s" if "(slot, v) \<in> loads_of s u"
    using named that unfolding named_def by (metis image_subset_iff snd_conv)
  show "obj \<in> known_objects cs s" if "obj \<in> pts_of s u" using named that unfolding named_def by blast
qed

lemma link_from_slot_defined:
  assumes "tame cs budget s" and small: "length cs * length cs \<le> 2 ^ 60"
    and entry: "(slot, v) \<in> loads_of s u" and obj: "obj \<in> pts_of s u"
  shows "\<exists>t. link_from_slot sha256 budget slot v obj s = Some t \<and> tame cs budget t"
proof -
  obtain w a where a: "object_slot sha256 budget obj slot s = Some (w, a)" "tame cs budget a"
    "known_vars cs s \<subseteq> known_vars cs a"
    using object_slot_defined [OF assms(1) small tame_names(4) [OF assms(1) obj] tame_names(1) [OF assms(1) entry]]
    by blast
  have run: "link_from_slot sha256 budget slot v obj s = Some (add_copy_edge budget w v a)"
    using a(1) by (simp add: link_from_slot_def)
  have "sound (pc_kind ` set cs) (add_copy_edge budget w v a)"
    using sound_link_from_slot [OF run _ entry obj] assms(1) by (simp add: tame_def)
  moreover have "v \<in> known_vars cs a" using tame_names(2) [OF assms(1) entry] a(3) by blast
  ultimately have "tame cs budget (add_copy_edge budget w v a)"
    using a(2) counted_copy_edge named_copy_edge ample_copy_edge unfolding tame_def by blast
  with run show ?thesis by blast
qed

lemma link_to_slot_defined:
  assumes "tame cs budget s" and small: "length cs * length cs \<le> 2 ^ 60"
    and entry: "(slot, v) \<in> stores_of s u" and obj: "obj \<in> pts_of s u"
  shows "\<exists>t. link_to_slot sha256 budget slot v obj s = Some t \<and> tame cs budget t"
proof -
  obtain w a where a: "object_slot sha256 budget obj slot s = Some (w, a)" "tame cs budget a" "w \<in> known_vars cs a"
    using object_slot_defined [OF assms(1) small tame_names(4) [OF assms(1) obj] tame_names(3) [OF assms(1) entry]]
    by blast
  have run: "link_to_slot sha256 budget slot v obj s = Some (add_copy_edge budget v w a)"
    using a(1) by (simp add: link_to_slot_def)
  have "sound (pc_kind ` set cs) (add_copy_edge budget v w a)"
    using sound_link_to_slot [OF run _ entry obj] assms(1) by (simp add: tame_def)
  then have "tame cs budget (add_copy_edge budget v w a)"
    using a(2,3) counted_copy_edge named_copy_edge ample_copy_edge unfolding tame_def by blast
  with run show ?thesis by blast
qed

lemma table_loop_defined:
  assumes "P s" and step: "\<And>slot d obj a. (slot, d) \<in> set table \<Longrightarrow> obj |\<in>| delta \<Longrightarrow> P a \<Longrightarrow>
      \<exists>b. link slot d obj a = Some b \<and> P b"
  shows "\<exists>t. try_fold (\<lambda>(slot, d). try_fold (link slot d) (bt_elems delta)) table s = Some t \<and> P t"
proof (rule try_fold_defined [where P = P])
  fix p a assume p: "p \<in> set table" and a: "P a"
  have "\<exists>b. try_fold (link (fst p) (snd p)) (bt_elems delta) a = Some b \<and> P b"
    by (rule try_fold_defined [where P = P, OF a]) (use step [of "fst p" "snd p"] p in simp)
  then show "\<exists>b. (case p of (slot, d) \<Rightarrow> try_fold (link slot d) (bt_elems delta)) a = Some b \<and> P b"
    by (simp add: case_prod_beta)
qed (fact assms(1))

lemma load_loop_defined:
  assumes "tame cs budget s" and small: "length cs * length cs \<le> 2 ^ 60"
    and "fset delta \<subseteq> pts_of s u" "set table \<subseteq> loads_of s u"
  shows "\<exists>t. try_fold (\<lambda>(slot, d). try_fold (link_from_slot sha256 budget slot d) (bt_elems delta)) table s = Some t \<and>
    tame cs budget t \<and> grows_to s t"
proof (rule table_loop_defined)
  fix slot d obj a
  assume entry: "(slot, d) \<in> set table" "obj |\<in>| delta" and a: "tame cs budget a \<and> grows_to s a"
  then have "loads_of a = loads_of s" "pts_of s u \<subseteq> pts_of a u" by (simp_all add: grows_to_def same_tables_of)
  then have "\<exists>b. link_from_slot sha256 budget slot d obj a = Some b \<and> tame cs budget b"
    using entry a assms(3,4) by (intro link_from_slot_defined [OF _ small, where u = u]) auto
  then show "\<exists>b. link_from_slot sha256 budget slot d obj a = Some b \<and> tame cs budget b \<and> grows_to s b"
    using a link_from_slot_grows grows_to_trans by metis
qed (use assms(1) in simp)

lemma store_loop_defined:
  assumes "tame cs budget s" and small: "length cs * length cs \<le> 2 ^ 60"
    and "fset delta \<subseteq> pts_of s u" "set table \<subseteq> stores_of s u"
  shows "\<exists>t. try_fold (\<lambda>(slot, d). try_fold (link_to_slot sha256 budget slot d) (bt_elems delta)) table s = Some t \<and>
    tame cs budget t \<and> grows_to s t"
proof (rule table_loop_defined)
  fix slot d obj a
  assume entry: "(slot, d) \<in> set table" "obj |\<in>| delta" and a: "tame cs budget a \<and> grows_to s a"
  then have "stores_of a = stores_of s" "pts_of s u \<subseteq> pts_of a u" by (simp_all add: grows_to_def same_tables_of)
  then have "\<exists>b. link_to_slot sha256 budget slot d obj a = Some b \<and> tame cs budget b"
    using entry a assms(3,4) by (intro link_to_slot_defined [OF _ small, where u = u]) auto
  then show "\<exists>b. link_to_slot sha256 budget slot d obj a = Some b \<and> tame cs budget b \<and> grows_to s b"
    using a link_to_slot_grows grows_to_trans by metis
qed (use assms(1) in simp)

text \<open>Members carried along existing edges.\<close>

lemma tame_fold_add_all:
  assumes "tame cs budget s" "fset objects \<subseteq> pts_of s u" "set dsts \<subseteq> edges_of s u"
  shows "tame cs budget (fold (\<lambda>dst. add_all budget dst objects) dsts s) \<and>
    edges_of (fold (\<lambda>dst. add_all budget dst objects) dsts s) = edges_of s"
proof -
  let ?I = "\<lambda>a. tame cs budget a \<and> grows_to s a \<and> edges_of a = edges_of s"
  have "?I (fold (\<lambda>dst. add_all budget dst objects) dsts s)"
  proof (rule try_fold_invariant [OF try_fold_total])
    show "?I s" using assms(1) by simp
    fix v a b assume v: "v \<in> set dsts" and a: "?I a" and b: "Some (add_all budget v objects a) = Some b"
    have edge: "v \<in> edges_of a u" and objs: "fset objects \<subseteq> pts_of a u"
      using v a assms(2,3) by (auto simp: grows_to_def)
    have n: "named cs a" and snd: "sound (pc_kind ` set cs) a" using a by (simp_all add: tame_def)
    have "tame cs budget (add_all budget v objects a)"
    proof (rule tame_add_all)
      show "v \<in> known_vars cs a" using n edge unfolding named_def by blast
      show "fset objects \<subseteq> known_objects cs a" using n objs unfolding named_def by blast
      show "slot_pts (pc_kind ` set cs) slots v obj" if "fm_le (pt_object_slots a) slots" "obj |\<in>| objects" for slots obj
        using sound_edge [OF snd that(1) edge] sound_pts [OF snd that(1)] objs that(2) by blast
    qed (use a in simp)
    moreover have "grows_to s (add_all budget v objects a)" using a add_all_grows grows_to_trans by blast
    ultimately show "?I b" using a b by auto
  qed
  then show ?thesis by simp
qed

lemma propagate_all_defined:
  assumes "tame cs budget s" and small: "length cs * length cs \<le> 2 ^ 60" and delta: "fset delta \<subseteq> pts_of s var"
  shows "\<exists>t. propagate_all sha256 budget var delta s = Some t \<and> tame cs budget t"
proof -
  let ?p = "propagate_copy budget var delta s"
  have p: "tame cs budget ?p"
    using tame_fold_add_all [OF assms(1) delta, of "bt_elems (fm_get_or {||} (pt_copy_edges s) var)"]
    by (simp add: propagate_copy_def edges_of_def)
  have d0: "fset delta \<subseteq> pts_of ?p var" using delta propagate_copy_grows(1) unfolding grows_to_def by blast
  obtain a where a: "propagate_load sha256 budget var delta ?p = Some a" "tame cs budget a"
    using load_loop_defined [OF p small d0,
        of "map (Pair ''$contents'') (bt_elems (fm_get_or {||} (pt_loads ?p) var))" sha256]
    unfolding propagate_load_def contents_loop [of "\<lambda>slot d. try_fold (link_from_slot sha256 budget slot d) (bt_elems delta)"]
    by (auto simp: loads_of_def)
  have d1: "fset delta \<subseteq> pts_of a var" using d0 propagate_load_grows(1) [OF a(1)] unfolding grows_to_def by blast
  obtain b where b: "propagate_store sha256 budget var delta a = Some b" "tame cs budget b"
    using store_loop_defined [OF a(2) small d1,
        of "map (Pair ''$contents'') (bt_elems (fm_get_or {||} (pt_stores a) var))" sha256]
    unfolding propagate_store_def contents_loop [of "\<lambda>slot d. try_fold (link_to_slot sha256 budget slot d) (bt_elems delta)"]
    by (auto simp: stores_of_def)
  have d2: "fset delta \<subseteq> pts_of b var" using d1 propagate_store_grows(1) [OF b(1)] unfolding grows_to_def by blast
  obtain c where c: "propagate_field_load sha256 budget var delta b = Some c" "tame cs budget c"
    using load_loop_defined [OF b(2) small d2, of "bt_elems (fm_get_or {||} (pt_field_loads b) var)" sha256]
    unfolding propagate_field_load_def by (auto simp: loads_of_def)
  have d3: "fset delta \<subseteq> pts_of c var" using d2 propagate_field_load_grows(1) [OF c(1)] unfolding grows_to_def by blast
  obtain t where "propagate_field_store sha256 budget var delta c = Some t" "tame cs budget t"
    using store_loop_defined [OF c(2) small d3, of "bt_elems (fm_get_or {||} (pt_field_stores c) var)" sha256]
    unfolding propagate_field_store_def by (auto simp: stores_of_def)
  with a b c show ?thesis by (simp add: propagate_all_def)
qed


section \<open>The whole run\<close>

lemma tame_cong:
  assumes "tame cs budget s" "pt_sets t = pt_sets s" "pt_copy_edges t = pt_copy_edges s"
    "loads_of t = loads_of s" "stores_of t = stores_of s" "pt_object_slots t = pt_object_slots s"
    "pt_dynamic_vars t = pt_dynamic_vars s" "set (pt_queue t) \<subseteq> set (pt_queue s)"
    "pt_steps t + length (pt_queue t) = pt_steps s + length (pt_queue s)"
    "fset (fmdom (pt_variable_identities s)) \<subseteq> fset (fmdom (pt_variable_identities t))"
    "fset (fmdom (pt_object_identities s)) \<subseteq> fset (fmdom (pt_object_identities t))"
    "ample cs budget \<Longrightarrow> \<not> pt_budget_exceeded s \<Longrightarrow> \<not> pt_budget_exceeded t"
  shows "tame cs budget t"
proof -
  have eqs: "pts_of t = pts_of s" "edges_of t = edges_of s" using assms(2,3) by (simp_all add: pts_of_def edges_of_def fun_eq_iff)
  have kv: "known_vars cs s \<subseteq> known_vars cs t" and ko: "known_objects cs s \<subseteq> known_objects cs t"
    using assms(6,10,11) by (auto simp: known_vars_def known_objects_def)
  have "named cs t"
    using assms(1) unfolding tame_def named_def eqs assms(2-7)
    by (simp add: subset_trans [OF _ kv] subset_trans [OF _ ko])
  moreover have "sound (pc_kind ` set cs) t"
    using assms(1) by (intro sound_cong [OF _ eqs assms(6,8,4,5)]) (simp add: tame_def)
  moreover have "members t = members s" by (simp add: members_def eqs)
  ultimately show ?thesis using assms(1,9,12) unfolding tame_def by auto
qed

lemma members_bound:
  assumes "named cs s"
  shows "card (members s) \<le> (2 * length cs + length cs * length cs) * length cs"
proof -
  let ?n = "length cs" and ?V = "vars_of cs \<union> fset (fmran (pt_object_slots s))"
  have "members s \<subseteq> ?V \<times> objects_of cs"
  proof
    fix p assume "p \<in> members s"
    then obtain v obj where p: "p = (v, obj)" "v |\<in>| fmdom (pt_sets s)" "obj \<in> pts_of s v"
      using members_sets [of s] by (auto simp: members_def)
    then have "v \<in> known_vars cs s" "obj \<in> known_objects cs s" using assms unfolding named_def by blast+
    with p(1) show "p \<in> ?V \<times> objects_of cs"
      by (auto simp: known_vars_def known_objects_def fmran'_alt_def)
  qed
  then have "card (members s) \<le> card ?V * card (objects_of cs)"
    using card_mono [of "?V \<times> objects_of cs" "members s"] vars_bound [of cs] objects_bound [of cs]
    by (simp add: card_cartesian_product)
  also have "card ?V \<le> 2 * ?n + ?n * ?n"
  proof -
    have "fcard (fmran (pt_object_slots s)) \<le> ?n * ?n"
      using fmran_card [of "fmran (pt_object_slots s)" "pt_object_slots s"] slots_bound [OF assms]
      by (simp add: fmran'_alt_def)
    then show ?thesis using card_Un_le [of "vars_of cs" "fset (fmran (pt_object_slots s))"] vars_bound [of cs]
      by (simp add: fcard.rep_eq)
  qed
  finally have "card (members s) \<le> (2 * ?n + ?n * ?n) * card (objects_of cs)" by simp
  also have "\<dots> \<le> (2 * ?n + ?n * ?n) * ?n" using objects_bound(2) [of cs] by (rule mult_le_mono2)
  finally show ?thesis .
qed

lemma pt_loop_defined:
  assumes "tame cs budget s" and small: "length cs * length cs \<le> 2 ^ 60"
  shows "\<exists>t. pt_loop sha256 budget s = Some t \<and> tame cs budget t"
  using assms(1)
proof (induction "max_steps budget - pt_steps s" arbitrary: s rule: less_induct)
  case less
  show ?case
  proof (cases "pt_queue s")
    case Nil
    with less.prems show ?thesis by (simp add: pt_loop.simps [of _ _ s])
  next
    case (Cons p queue)
    obtain var delta where p: "p = (var, delta)" by force
    obtain ok s' where step: "step_budget_ok budget (s \<lparr> pt_queue := queue \<rparr>) = (ok, s')" by force
    have tables: "loads_of s' = loads_of s" "stores_of s' = stores_of s"
      using step by (cases ok; auto dest!: step_budget_True step_budget_False
          simp: loads_of_def stores_of_def pt_exceed_def fun_eq_iff)+
    have spent: "pt_steps s < card (members s)" using less.prems Cons by (simp add: tame_def)
    have s': "tame cs budget s'"
    proof (rule tame_cong [OF less.prems])
      assume "ample cs budget" "\<not> pt_budget_exceeded s"
      moreover from this(1) have "pt_steps s < max_steps budget"
        using spent members_bound [of cs s] less.prems by (simp add: ample_def Let_def tame_def)
      ultimately show "\<not> pt_budget_exceeded s'"
        using step by (cases ok) (auto dest!: step_budget_True step_budget_False)
    qed (use step Cons tables in \<open>cases ok; auto dest!: step_budget_True step_budget_False simp: pt_exceed_def\<close>)+
    show ?thesis
    proof (cases ok)
      case False
      with Cons p step s' show ?thesis by (simp add: pt_loop.simps [of _ _ s])
    next
      case True
      with step have st: "step_budget_ok budget (s \<lparr> pt_queue := queue \<rparr>) = (True, s')" by simp
      have "fset delta \<subseteq> pts_of s' var"
      proof
        fix obj assume "obj \<in> fset delta"
        then have "pending s var obj" using Cons p by (auto simp: pending_def)
        then have "obj \<in> pts_of s var" using less.prems unfolding tame_def sound_def by blast
        then show "obj \<in> pts_of s' var" using step_budget_True [OF st] by (simp add: pts_of_def)
      qed
      from propagate_all_defined [OF s' small this] obtain u where
        u: "propagate_all sha256 budget var delta s' = Some u" "tame cs budget u" by blast
      have "max_steps budget - pt_steps u < max_steps budget - pt_steps s"
        using step_budget_True [OF st] propagate_all_steps [OF u(1)] by auto
      from less.hyps [OF this u(2)] Cons p st u(1) show ?thesis by (simp add: pt_loop.simps [of _ _ s])
    qed
  qed
qed

lemma record_kind_tame:
  assumes "tame cs budget s" and "c \<in> set cs" and "k = pc_kind c"
    and "\<And>dst val. k = CallReturn dst val \<Longrightarrow> value_fact_object val \<noteq> None"
  shows "\<exists>t. record_kind_identities sha256 key k s = Some t \<and> tame cs budget t \<and>
     set (constraint_vars k) \<subseteq> known_vars cs t \<and>
     (\<forall>v obj. origin_of k = Some (v, obj) \<longrightarrow> obj \<in> known_objects cs t)"
proof -
  have vars: "set (constraint_vars k) \<subseteq> vars_of cs" using assms(2,3) by (auto simp: vars_of_def)
  have objs: "origin_of k = Some (v, obj) \<Longrightarrow> obj \<in> objects_of cs" for v obj
    using assms(2,3) by (auto simp: objects_of_def intro!: bexI [of _ c])
  obtain t where t: "record_kind_identities sha256 key k s = Some t"
    using assms(4) by (cases k) auto
  have grown: "pt_sets t = pt_sets s" "pt_copy_edges t = pt_copy_edges s" "pt_loads t = pt_loads s"
    "pt_stores t = pt_stores s" "pt_field_loads t = pt_field_loads s" "pt_field_stores t = pt_field_stores s"
    "pt_object_slots t = pt_object_slots s"
    "pt_dynamic_vars t = pt_dynamic_vars s" "pt_queue t = pt_queue s" "pt_steps t = pt_steps s"
    "pt_budget_exceeded t = pt_budget_exceeded s"
    using t by (cases k; auto simp: record_variable_identity_def record_object_identity_def)+
  have ids: "fset (fmdom (pt_variable_identities s)) \<union> set (constraint_vars k) \<subseteq> fset (fmdom (pt_variable_identities t))"
    "fset (fmdom (pt_object_identities s)) \<subseteq> fset (fmdom (pt_object_identities t))"
    "\<And>v obj. origin_of k = Some (v, obj) \<Longrightarrow> obj |\<in>| fmdom (pt_object_identities t)"
    using t by (cases k; auto simp: record_variable_identity_def record_object_identity_def fm_add_def)+
  have "tame cs budget t"
    by (rule tame_cong [OF assms(1)]) (use grown ids in \<open>auto simp: loads_of_def stores_of_def fun_eq_iff\<close>)
  with t vars objs ids show ?thesis by (auto simp: known_vars_def known_objects_def)
qed

lemma tame_new_entry:
  assumes "tame cs budget s" "c \<in> set cs" "k = pc_kind c" "sound (pc_kind ` set cs) t"
    "set (constraint_vars k) \<subseteq> known_vars cs s"
    "pt_sets t = pt_sets s" "pt_copy_edges t = pt_copy_edges s" "pt_object_slots t = pt_object_slots s"
    "pt_dynamic_vars t = pt_dynamic_vars s" "pt_queue t = pt_queue s" "pt_steps t = pt_steps s"
    "pt_variable_identities t = pt_variable_identities s" "pt_object_identities t = pt_object_identities s"
    "pt_budget_exceeded t = pt_budget_exceeded s"
    "\<And>u. snd ` loads_of t u \<subseteq> snd ` loads_of s u \<union> set (constraint_vars k)"
  shows "tame cs budget t"
proof -
  have eqs: "pts_of t = pts_of s" "edges_of t = edges_of s" "known_vars cs t = known_vars cs s"
    "known_objects cs t = known_objects cs s"
    using assms by (simp_all add: pts_of_def edges_of_def known_vars_def known_objects_def fun_eq_iff)
  have "named cs s" using assms(1) by (simp add: tame_def)
  moreover have "snd ` loads_of t u \<subseteq> known_vars cs s" for u
    by (rule order_trans [OF assms(15)]) (use \<open>named cs s\<close> assms(5) in \<open>simp add: named_def\<close>)
  ultimately have "named cs t" unfolding named_def eqs assms(6-9) by simp
  moreover have "members t = members s" by (simp add: members_def eqs)
  ultimately show ?thesis using assms(1,4,10,11,14) unfolding tame_def by simp
qed

lemma tame_add_object:
  assumes "tame cs budget s" "k \<in> pc_kind ` set cs" "origin_of k = Some (dst, obj)"
    "dst \<in> known_vars cs s" "obj \<in> known_objects cs s"
  shows "tame cs budget (add_object budget dst obj s)"
  unfolding add_object_def
  by (rule tame_add_all [OF assms(1)]) (use assms s_origin [OF assms(2,3)] in auto)

lemma tame_add_copy:
  assumes "tame cs budget s" "k \<in> pc_kind ` set cs" "copy_of k = Some (u, v)" "v \<in> known_vars cs s"
  shows "tame cs budget (add_copy_edge budget u v s)"
  by (rule tame_copy_edge [OF assms(1,4)]) (rule s_copy [OF assms(2,3)])

lemma add_constraint_defined:
  assumes s: "tame cs budget s" and c: "c \<in> set cs" "k = pc_kind c"
    and vars: "set (constraint_vars k) \<subseteq> known_vars cs s"
    and objs: "\<And>v obj. origin_of k = Some (v, obj) \<Longrightarrow> obj \<in> known_objects cs s"
    and val: "\<And>dst val. k = CallReturn dst val \<Longrightarrow> value_fact_object val \<noteq> None"
  shows "\<exists>t. add_constraint budget k s = Some t \<and> tame cs budget t"
proof -
  have k: "k \<in> pc_kind ` set cs" using c by simp
  obtain t where t: "add_constraint budget k s = Some t" using val by (cases k) auto
  have sound: "sound (pc_kind ` set cs) t"
    using sound_add_constraint [OF t _ k] s by (simp add: tame_def)
  have "tame cs budget t"
  proof (cases k)
    case (AddressOf dst obj)
    with t vars objs show ?thesis by (auto intro!: tame_add_object [OF s k])
  next
    case (CallReturn dst val)
    with t vars objs show ?thesis by (auto intro!: tame_add_object [OF s k])
  next
    case (Copy dst src)
    with t vars show ?thesis by (auto intro!: tame_add_copy [OF s k])
  next
    case (SummaryFlow dst src key)
    with t vars show ?thesis by (auto intro!: tame_add_copy [OF s k])
  qed (rule tame_new_entry [OF s c sound vars]; use t in \<open>auto simp: table_simps split: if_splits\<close>)+
  with t show ?thesis by blast
qed

text \<open>What the solver relies on of its input: keys that resolve and value ids that can be tagged.\<close>

definition constraint_ok :: "interner_state \<Rightarrow> points_to_constraint_fact \<Rightarrow> bool" where
  "constraint_ok interner c \<longleftrightarrow>
     pc_stable_key c < interner_len interner \<and>
     (case pc_kind c of CallReturn _ val \<Rightarrow> value_fact_object val \<noteq> None | _ \<Rightarrow> True)"

lemma init_constraint_defined:
  assumes "tame cs budget s" "c \<in> set cs" "constraint_ok interner c"
  shows "\<exists>t. init_constraint sha256 interner budget c s = Some t \<and> tame cs budget t"
proof -
  have val: "pc_kind c = CallReturn dst val \<Longrightarrow> value_fact_object val \<noteq> None" for dst val
    using assms(3) by (simp add: constraint_ok_def)
  obtain key where key: "resolve interner (pc_stable_key c) = Some key"
    using assms(3) by (simp add: constraint_ok_def resolve_def interner_len_def)
  have "\<exists>a. record_kind_identities sha256 key (pc_kind c) s = Some a \<and> tame cs budget a \<and>
      set (constraint_vars (pc_kind c)) \<subseteq> known_vars cs a \<and>
      (\<forall>v obj. origin_of (pc_kind c) = Some (v, obj) \<longrightarrow> obj \<in> known_objects cs a)"
    by (rule record_kind_tame [OF assms(1,2) refl]) (rule val)
  then obtain a where a: "record_kind_identities sha256 key (pc_kind c) s = Some a" "tame cs budget a"
    "set (constraint_vars (pc_kind c)) \<subseteq> known_vars cs a"
    "\<And>v obj. origin_of (pc_kind c) = Some (v, obj) \<Longrightarrow> obj \<in> known_objects cs a" by blast
  have "\<exists>t. add_constraint budget (pc_kind c) a = Some t \<and> tame cs budget t"
    by (rule add_constraint_defined [OF a(2) assms(2) refl a(3,4)]) (assumption, rule val)
  with a(1) key show ?thesis by (simp add: init_constraint_def record_constraint_identities_def)
qed

lemma tame_new: "tame cs budget pt_new"
  using sound_new [of "pc_kind ` set cs"] unfolding tame_def
  by (simp add: named_def pt_new_def pts_of_def edges_of_def loads_of_def fmran'_alt_def)

lemma pt_initialize_defined:
  assumes "list_all (constraint_ok interner) cs"
  shows "\<exists>t. pt_initialize sha256 interner budget cs pt_new = Some t \<and> tame cs budget t"
proof -
  obtain u where u: "try_fold (init_constraint sha256 interner budget) cs pt_new = Some u" "tame cs budget u"
    using try_fold_defined [where P = "tame cs budget" and xs = cs and f = "init_constraint sha256 interner budget",
        OF tame_new] init_constraint_defined assms by (auto simp: list_all_iff)
  let ?I = "\<lambda>a. tame cs budget a \<and> edges_of a = edges_of u"
  have "?I (fold (replay_copy_edges budget) (bt_entries (pt_copy_edges u)) u)"
  proof (rule try_fold_invariant [OF try_fold_total])
    fix e a b assume e: "e \<in> set (bt_entries (pt_copy_edges u))" and a: "?I a"
      and b: "Some (replay_copy_edges budget e a) = Some b"
    have "fmlookup (pt_copy_edges u) (fst e) = Some (snd e)" using e by (simp add: in_bt_entries_iff [symmetric])
    then have dsts: "set (bt_elems (snd e)) \<subseteq> edges_of a (fst e)" using a by (simp add: edges_of_def)
    show "?I b"
    proof (cases "fmlookup (pt_sets a) (fst e)")
      case None
      with a b show ?thesis by (simp add: replay_copy_edges_def)
    next
      case (Some objects)
      with tame_fold_add_all [of cs budget a objects "fst e", OF _ _ dsts] a b pts_of_Some [OF Some]
      show ?thesis by (simp add: replay_copy_edges_def)
    qed
  qed (use u in simp)
  with u show ?thesis by (simp add: pt_initialize_def)
qed

lemma intern_defined:
  assumes "length (keys i) \<le> U32_MAX"
  shows "\<exists>k j. intern key i = Some (k, j) \<and> length (keys j) \<le> Suc (length (keys i))"
  using assms by (auto simp: intern_def push_from_def Let_def split: option.split)

lemma set_facts_defined:
  assumes "length (keys (snd acc)) + length entries \<le> Suc U32_MAX"
    and "\<And>e. e \<in> set entries \<Longrightarrow> fst e |\<in>| fmdom (pt_variable_identities s)"
  shows "\<exists>r. try_fold (set_fact sha256 s) entries acc = Some r \<and>
    length (keys (snd r)) \<le> length (keys (snd acc)) + length entries"
  using assms
proof (induction entries arbitrary: acc)
  case (Cons e entries)
  obtain i where i: "semantic_variable_identity s (fst e) = Some i"
    using Cons.prems(2) [of e] by (auto simp: semantic_variable_identity_def fmlookup_dom_iff)
  have "length (keys (snd acc)) \<le> U32_MAX" using Cons.prems(1) by simp
  from intern_defined [OF this, of "write_stable_key_text sha256 Ff_PointsToSet [(''variable'', i),
      (''budget'', points_to_budget_status_label (if pt_budget_exceeded s then BudgetExceeded else WithinBudget))]"]
  obtain k j where "set_fact sha256 s e acc \<noteq> None \<and> snd (the (set_fact sha256 s e acc)) = j"
    "length (keys j) \<le> Suc (length (keys (snd acc)))"
    using i by (auto simp: set_fact_def stable_key_from_parts_def Let_def)
  then obtain acc' where
    acc': "set_fact sha256 s e acc = Some acc'" "length (keys (snd acc')) \<le> Suc (length (keys (snd acc)))"
    by auto
  with Cons.IH [of acc'] Cons.prems show ?case by force
qed simp

lemma solver_total:
  assumes ok: "list_all (constraint_ok interner) cs"
    and room: "interner_len interner + 2 * length cs + length cs * length cs \<le> U32_MAX"
  shows "\<exists>r interner'. solve_points_to sha256 interner cs budget = Some (r, interner') \<and>
     (ample cs budget \<longrightarrow> sr_budget_status r = WithinBudget) \<and>
     interner_len interner' \<le> interner_len interner + 2 * length cs + length cs * length cs"
proof -
  have small: "length cs * length cs \<le> 2 ^ 60" using room by (simp add: U32_MAX_def)
  obtain s where s: "pt_initialize sha256 interner budget cs pt_new = Some s" "tame cs budget s"
    using pt_initialize_defined [OF ok] by blast
  obtain t where t: "pt_loop sha256 budget s = Some t" "tame cs budget t"
    using pt_loop_defined [OF s(2) small] by blast
  have n: "named cs t" using t(2) by (simp add: tame_def)
  have "fset (fmdom (pt_sets t)) \<subseteq> vars_of cs \<union> fset (fmran (pt_object_slots t))"
    using n by (auto simp: named_def known_vars_def fmran'_alt_def)
  then have "card (fset (fmdom (pt_sets t))) \<le> card (vars_of cs \<union> fset (fmran (pt_object_slots t)))"
    using vars_bound [of cs] by (intro card_mono) simp_all
  also have "\<dots> \<le> 2 * length cs + length cs * length cs"
    using card_Un_le [of "vars_of cs" "fset (fmran (pt_object_slots t))"] vars_bound [of cs] slots_bound [OF n]
      fmran_card [of "fmran (pt_object_slots t)" "pt_object_slots t"]
    by (simp add: fmran'_alt_def fcard.rep_eq)
  finally have few: "length (bt_entries (pt_sets t)) \<le> 2 * length cs + length cs * length cs"
    by (simp add: bt_entries_def sorted_list_of_fset.rep_eq)
  have "length (keys (snd ([] :: points_to_set_fact list, interner))) +
      length (bt_entries (pt_sets t)) \<le> Suc U32_MAX"
    using few room by (simp add: interner_len_def)
  moreover have "fst e |\<in>| fmdom (pt_variable_identities t)" if "e \<in> set (bt_entries (pt_sets t))" for e
  proof -
    have "fst e \<in> fset (fmdom (pt_sets t))" using that set_keys_bt_entries [of "pt_sets t"] by blast
    then show ?thesis using n unfolding named_def known_vars_def by blast
  qed
  ultimately obtain acc where acc: "try_fold (set_fact sha256 t) (bt_entries (pt_sets t)) ([], interner) = Some acc"
    "length (keys (snd acc)) \<le> length (keys interner) + length (bt_entries (pt_sets t))"
    using set_facts_defined [of "([], interner)"] unfolding snd_conv by blast
  then obtain r interner' where r: "to_result sha256 t interner = Some (r, interner')" and "interner' = snd acc"
    by (cases acc) (simp add: to_result_def)
  with acc(2) few have len: "interner_len interner' \<le> interner_len interner + 2 * length cs + length cs * length cs"
    by (simp add: interner_len_def)
  have "solve_points_to sha256 interner cs budget = Some (r, interner')"
    using s(1) t(1) r by (simp add: solve_points_to_def pt_solve_def)
  moreover have "ample cs budget \<longrightarrow> sr_budget_status r = WithinBudget"
    using to_result_sets(2) [OF r] t(2) by (simp add: tame_def)
  ultimately show ?thesis using len by blast
qed

text \<open>Two constraints: the address of an object flows into one variable and is copied to another.\<close>

definition sample_constraint :: "points_to_constraint_kind \<Rightarrow> points_to_constraint_fact" where
  "sample_constraint kind =
     \<lparr> pc_id = 0, pc_kind = kind, pc_status = Pts_Present, pc_precision = Ptp_FlowInsensitive,
       pc_stable_key = 0 \<rparr>"

definition sample_keys :: interner_state where
  "sample_keys = \<lparr> keys = [''k''], ids = fmupd ''k'' 0 fmempty \<rparr>"

definition sample_constraints :: "points_to_constraint_fact list" where
  "sample_constraints = [sample_constraint (AddressOf 0x11 0x21), sample_constraint (Copy 0x21 0x11)]"

lemma sample_constraints_ok:
  "list_all (constraint_ok sample_keys) sample_constraints"
  "interner_len sample_keys + 2 * length sample_constraints + length sample_constraints * length sample_constraints
     \<le> U32_MAX"
  "ample sample_constraints points_to_budget_default"
  by (simp_all add: sample_constraints_def sample_constraint_def sample_keys_def constraint_ok_def
      interner_len_def U32_MAX_def ample_def points_to_budget_default_def Let_def)

text \<open>The sample run returns within its budget.\<close>

lemma sample_result:
  obtains r interner' where
    "solve_points_to (\<lambda>_. []) sample_keys sample_constraints points_to_budget_default = Some (r, interner')"
    "sr_budget_status r = WithinBudget"
  using solver_total [OF sample_constraints_ok(1,2), of "\<lambda>_. []" points_to_budget_default]
    sample_constraints_ok(3) by blast


section \<open>Properties\<close>

text \<open>
  C28: the points-to solver returns a result for all constraints and all budgets, without any of its
  panics, as long as the keys of the constraints resolve, returned values have ids that can be
  tagged, and the interner has room for the keys of the sets. For \<open>n\<close> constraints, budgets of \<open>n\<close>
  objects, \<open>n\<^sup>2\<close> slots and \<open>n\<^sup>3 + 2n\<^sup>2\<close> steps are never exceeded.
\<close>

theorem points_to_solver_returns:
  assumes ok: "list_all (constraint_ok interner) cs"
    and room: "interner_len interner + 2 * length cs + length cs * length cs \<le> U32_MAX"
  shows "\<exists>r interner'. solve_points_to sha256 interner cs budget = Some (r, interner') \<and>
     (ample cs budget \<longrightarrow> sr_budget_status r = WithinBudget)"
  using solver_total [OF assms] by blast

theorem points_to_solver_returns_witness:
  "\<exists>r interner'. solve_points_to (\<lambda>_. []) sample_keys sample_constraints points_to_budget_default =
       Some (r, interner') \<and> sr_budget_status r = WithinBudget"
  using points_to_solver_returns [OF sample_constraints_ok(1,2), of "\<lambda>_. []" points_to_budget_default]
    sample_constraints_ok(3) by blast

theorem points_to_solution_exact_witness:
  "\<exists>r interner'. solve_points_to (\<lambda>_. []) sample_keys sample_constraints points_to_budget_default =
       Some (r, interner') \<and> 0x21 \<in> result_objects r 0x21"
proof -
  obtain r interner' where r:
    "solve_points_to (\<lambda>_. []) sample_keys sample_constraints points_to_budget_default = Some (r, interner')"
    "sr_budget_status r = WithinBudget" by (rule sample_result)
  let ?K = "pc_kind ` set sample_constraints"
  have k: "AddressOf 0x11 0x21 \<in> ?K" "Copy 0x21 0x11 \<in> ?K"
    by (simp_all add: sample_constraints_def sample_constraint_def)
  have "least_pts ?K (VarNode 0x21) 0x21"
    by (rule copy [OF k(2) _ origin [OF k(1)]]) simp_all
  moreover have "list_all (\<lambda>c. list_all (\<lambda>v. \<not> is_slot_var v) (constraint_vars (pc_kind c))) sample_constraints"
    "\<not> is_slot_var 0x21"
    by (simp_all add: sample_constraints_def sample_constraint_def is_slot_var_def tag_defs)
  ultimately have "0x21 \<in> result_objects r 0x21" using points_to_solution_exact [OF r] by blast
  with r show ?thesis by blast
qed

theorem points_to_budget_reported_witness:
  "\<exists>r interner'. solve_points_to (\<lambda>_. []) sample_keys sample_constraints points_to_budget_default =
       Some (r, interner') \<and> sr_budget_status r \<noteq> NotRun"
proof -
  obtain r interner' where r:
    "solve_points_to (\<lambda>_. []) sample_keys sample_constraints points_to_budget_default = Some (r, interner')"
    by (rule sample_result)
  from points_to_budget_reported [OF r] r show ?thesis by blast
qed

end
