(* ===== verification/Type_Value_Alias_Total.thy ===== *)
theory Type_Value_Alias_Total
  imports Type_Value_Alias Points_To_Total
begin

text \<open>
  The type, value and alias stage does not panic: on rows whose keys are interned and whose ids can be
  tagged, with room in the interner, the constraint builder, the solver, the alias provider and the
  normalisations all return. The interner only grows on the way, which also shows that the last
  normalisation moves no value and no access path.
\<close>

section \<open>Interning\<close>

definition key_ok :: "interner_state \<Rightarrow> stable_key_id \<Rightarrow> bool" where
  "key_ok i k \<longleftrightarrow> k < interner_len i"

text \<open>The interner grew by at most \<open>n\<close> keys.\<close>

definition grew :: "nat \<Rightarrow> interner_state \<Rightarrow> interner_state \<Rightarrow> bool" where
  "grew n i j \<longleftrightarrow> grows i j \<and> interner_len j \<le> interner_len i + n"

lemma resolve_ok_iff: "resolve i k \<noteq> None \<longleftrightarrow> key_ok i k"
  by (simp add: resolve_def key_ok_def interner_len_def)

lemma key_ok_resolve: "key_ok i k \<Longrightarrow> \<exists>t. resolve i k = Some t"
  using resolve_ok_iff [of i k] by auto

lemma grows_refl: "interner_wf 0 i \<Longrightarrow> grows i i"
  by (simp add: grows_def)

lemma grows_trans: "grows i j \<Longrightarrow> grows j k \<Longrightarrow> grows i k"
  unfolding grows_def by (auto intro: prefix_order.trans)

lemma grew_refl: "interner_wf 0 i \<Longrightarrow> grew n i i"
  by (simp add: grew_def grows_refl)

lemma grew_trans: "grew m i j \<Longrightarrow> grew n j k \<Longrightarrow> grew (m + n) i k"
  unfolding grew_def by (auto intro: grows_trans)

lemma grew_mono: "grew m i j \<Longrightarrow> m \<le> n \<Longrightarrow> grew n i j"
  by (simp add: grew_def)

lemma grows_later: "grows i j \<Longrightarrow> later i j"
  by (auto simp: later_def grows_def prefix_def resolve_def nth_append split: if_splits)

lemma key_ok_grows: "grows i j \<Longrightarrow> key_ok i k \<Longrightarrow> key_ok j k"
  by (auto simp: key_ok_def grows_def prefix_def interner_len_def)

lemma grows_wf: "grows i j \<Longrightarrow> interner_wf 0 j" "grows i j \<Longrightarrow> interner_wf 0 i"
  by (simp_all add: grows_def)

lemma intern_runs:
  assumes "interner_wf 0 i" and "interner_len i \<le> U32_MAX"
  shows "\<exists>k j. intern t i = Some (k, j) \<and> grew 1 i j \<and> key_ok j k"
proof -
  obtain k j where run: "intern t i = Some (k, j)" "length (keys j) \<le> Suc (length (keys i))"
    using intern_defined [of i t] assms(2) by (auto simp: interner_len_def)
  have "resolve j k = Some t" by (rule root.put_get [OF assms(1) run(1)])
  then have "key_ok j k" using resolve_ok_iff [of j k] by simp
  moreover have "grew 1 i j" using intern_grows [OF assms(1) run(1)] run(2) by (simp add: grew_def interner_len_def)
  ultimately show ?thesis using run(1) by blast
qed

lemma stable_key_runs:
  assumes "interner_wf 0 i" and "interner_len i \<le> U32_MAX"
  obtains k j where "stable_key_from_parts sha256 family parts i = Some (k, j)" "grew 1 i j" "key_ok j k"
  using intern_runs [OF assms] unfolding stable_key_from_parts_def by blast

text \<open>A loop in which every element has a cost, within a total that is available.\<close>

lemma try_fold_counted:
  fixes c :: "'a \<Rightarrow> nat"
  assumes "P n s" and "n + sum_list (map c xs) \<le> N"
    and "\<And>x n s. x \<in> set xs \<Longrightarrow> P n s \<Longrightarrow> n + c x \<le> N \<Longrightarrow> \<exists>t. f x s = Some t \<and> P (n + c x) t"
  shows "\<exists>t. try_fold f xs s = Some t \<and> P (n + sum_list (map c xs)) t"
  using assms
proof (induction xs arbitrary: n s)
  case (Cons x xs)
  have "n + c x \<le> N" using Cons.prems(2) by simp
  then obtain u where u: "f x s = Some u" "P (n + c x) u" using Cons.prems(3) [of x n s] Cons.prems(1) by auto
  have "\<exists>t. try_fold f xs u = Some t \<and> P (n + c x + sum_list (map c xs)) t"
  proof (rule Cons.IH [OF u(2)])
    show "\<exists>t. f y s = Some t \<and> P (n + c y) t" if "y \<in> set xs" "P n s" "n + c y \<le> N" for y n s
      using Cons.prems(3) that by simp
  qed (use Cons.prems(2) in simp)
  with u(1) show ?case by (simp add: add.assoc)
qed simp


section \<open>The constraint builder\<close>

definition value_ok :: "interner_state \<Rightarrow> value_fact \<Rightarrow> bool" where
  "value_ok i row \<longleftrightarrow> key_ok i (vf_stable_key row) \<and> subject_var (vf_subject row) \<noteq> None \<and>
     (case vf_kind row of
        Vk_Object object \<Rightarrow> allocation_object object \<noteq> None
      | Vk_Array object \<Rightarrow> allocation_object object \<noteq> None
      | Vk_CompositeLiteral object \<Rightarrow> allocation_object object \<noteq> None
      | Vk_PlaceRef place \<Rightarrow> place_var place \<noteq> None
      | Vk_CallReturn place \<Rightarrow> place_var place \<noteq> None \<and> value_fact_object (vf_id row) \<noteq> None
      | Vk_FunctionObject \<Rightarrow> abstract_value_object (vf_value row) \<noteq> None
      | Vk_ClassObject \<Rightarrow> abstract_value_object (vf_value row) \<noteq> None
      | Vk_ModuleObject \<Rightarrow> abstract_value_object (vf_value row) \<noteq> None
      | _ \<Rightarrow> True)"

definition allocation_ok :: "interner_state \<Rightarrow> allocation_token_fact \<Rightarrow> bool" where
  "allocation_ok i row \<longleftrightarrow> key_ok i (al_stable_key row) \<and>
     (case al_source_place row of
        None \<Rightarrow> True
      | Some place \<Rightarrow> place_var place \<noteq> None \<and> allocation_object (al_id row) \<noteq> None)"

definition access_path_ok :: "interner_state \<Rightarrow> access_path_fact \<Rightarrow> bool" where
  "access_path_ok i path \<longleftrightarrow> key_ok i (ap_stable_key path) \<and> place_var (ap_base path) \<noteq> None \<and>
     access_path_var (ap_id path) \<noteq> None \<and>
     list_all (\<lambda>index. projection_dst path index \<noteq> None) [0..<length (ap_projections path)]"

definition builder_ok :: "interner_state \<Rightarrow> nat \<Rightarrow> builder \<Rightarrow> bool" where
  "builder_ok i n acc \<longleftrightarrow> grew n i (snd acc) \<and> list_all (constraint_ok (snd acc)) (fst acc) \<and> length (fst acc) \<le> n"

lemma constraint_ok_grows: "grows i j \<Longrightarrow> constraint_ok i c \<Longrightarrow> constraint_ok j c"
  using key_ok_grows [of i j "pc_stable_key c"] by (simp add: constraint_ok_def key_ok_def)

lemma builder_ok_mono: "builder_ok i m acc \<Longrightarrow> m \<le> n \<Longrightarrow> builder_ok i n acc"
  by (auto simp: builder_ok_def intro: grew_mono)

lemma push_runs:
  assumes ok: "builder_ok i n acc" and room: "interner_len i + n \<le> U32_MAX"
    and kind: "\<And>dst val. kind = CallReturn dst val \<Longrightarrow> value_fact_object val \<noteq> None"
  shows "\<exists>acc'. push_constraint sha256 kind identity relation acc = Some acc' \<and> builder_ok i (n + 1) acc'"
proof -
  have g: "grew n i (snd acc)" using ok by (simp add: builder_ok_def)
  then have "interner_wf 0 (snd acc)" "interner_len (snd acc) \<le> U32_MAX"
    using room grows_wf by (auto simp: grew_def)
  then obtain k j where key: "constraint_stable_key sha256 identity relation (snd acc) = Some (k, j)"
    "grew 1 (snd acc) j" "key_ok j k"
    unfolding constraint_stable_key_def by (rule stable_key_runs)
  let ?c = "\<lparr> pc_id = length (fst acc), pc_kind = kind, pc_status = Pts_Present,
     pc_precision = Ptp_FlowInsensitive, pc_stable_key = k \<rparr>"
  have "constraint_ok j ?c" using key(3) kind by (auto simp: constraint_ok_def key_ok_def split: points_to_constraint_kind.split)
  moreover have "list_all (constraint_ok j) (fst acc)"
    using ok key(2) constraint_ok_grows unfolding builder_ok_def grew_def list_all_iff by blast
  ultimately have "builder_ok i (n + 1) (fst acc @ [?c], j)"
    using ok grew_trans [OF g key(2)] by (simp add: builder_ok_def)
  with key(1) show ?thesis by (simp add: push_constraint_def)
qed

text \<open>Two pushes in a row.\<close>

lemma push_then:
  assumes "\<exists>a. f acc = Some a \<and> builder_ok i (n + 1) a" and "interner_len i + n + 1 \<le> U32_MAX"
    and "\<And>a. builder_ok i (n + 1) a \<Longrightarrow> interner_len i + (n + 1) \<le> U32_MAX \<Longrightarrow>
      \<exists>b. g a = Some b \<and> builder_ok i (n + 1 + 1) b"
  shows "\<exists>b. Option.bind (f acc) g = Some b \<and> builder_ok i (n + 2) b"
  using assms by force

lemma push_address_runs:
  "builder_ok i n acc \<Longrightarrow> interner_len i + n \<le> U32_MAX \<Longrightarrow> obj \<noteq> None \<Longrightarrow>
   \<exists>acc'. push_address sha256 dst obj identity relation acc = Some acc' \<and> builder_ok i (n + 1) acc'"
  unfolding push_address_def by (erule not_None_eq [THEN iffD1, THEN exE], simp only: bind.simps) (rule push_runs, simp_all)

lemma push_place_copy_runs:
  "builder_ok i n acc \<Longrightarrow> interner_len i + n \<le> U32_MAX \<Longrightarrow> place_var place \<noteq> None \<Longrightarrow>
   \<exists>acc'. push_place_copy sha256 dst place identity relation acc = Some acc' \<and> builder_ok i (n + 1) acc'"
  unfolding push_place_copy_def by (erule not_None_eq [THEN iffD1, THEN exE], simp only: bind.simps) (rule push_runs, simp_all)

lemma weaken_runs:
  "\<exists>a. f = Some a \<and> builder_ok i m a \<Longrightarrow> m \<le> n \<Longrightarrow> \<exists>a. f = Some a \<and> builder_ok i n a"
  using builder_ok_mono by blast

lemma collect_kind_runs:
  assumes ok: "builder_ok i n acc" and room: "interner_len i + (n + 2) \<le> U32_MAX" and row: "value_ok i row"
  shows "\<exists>acc'. collect_kind sha256 row dst identity acc = Some acc' \<and> builder_ok i (n + 2) acc'"
proof -
  have r: "interner_len i + n \<le> U32_MAX" using room by simp
  have address: "\<exists>a. push_address sha256 dst obj identity relation acc = Some a \<and> builder_ok i (n + 2) a"
    if "obj \<noteq> None" for obj relation
    by (rule weaken_runs [OF push_address_runs [OF ok r that]]) simp
  have copy: "\<exists>a. push_place_copy sha256 dst place identity relation acc = Some a \<and> builder_ok i (n + 2) a"
    if "place_var place \<noteq> None" for place relation
    by (rule weaken_runs [OF push_place_copy_runs [OF ok r that]]) simp
  have skip: "\<exists>acc'. Some acc = Some acc' \<and> builder_ok i (n + 2) acc'" using builder_ok_mono [OF ok] by simp
  show ?thesis
  proof (cases "vf_kind row")
    case (Vk_CallReturn place)
    show ?thesis
    proof (cases "vf_status row = Vst_Present")
      case True
      have "\<exists>b. Option.bind (push_constraint sha256 (CallReturn dst (vf_id row)) identity ''call_return_value'' acc)
          (push_place_copy sha256 dst place identity ''call_return_place'') = Some b \<and> builder_ok i (n + 2) b"
      proof (rule push_then)
        show "\<exists>a. push_constraint sha256 (CallReturn dst (vf_id row)) identity ''call_return_value'' acc = Some a \<and>
            builder_ok i (n + 1) a"
          by (rule push_runs [OF ok r]) (use row Vk_CallReturn in \<open>simp add: value_ok_def\<close>)
        show "\<exists>b. push_place_copy sha256 dst place identity ''call_return_place'' a = Some b \<and> builder_ok i (n + 1 + 1) b"
          if "builder_ok i (n + 1) a" "interner_len i + (n + 1) \<le> U32_MAX" for a
          by (rule push_place_copy_runs [OF that]) (use row Vk_CallReturn in \<open>simp add: value_ok_def\<close>)
      qed (use room in simp)
      then show ?thesis by (simp add: collect_kind_def Vk_CallReturn True)
    qed (use skip in \<open>simp add: collect_kind_def Vk_CallReturn\<close>)
  qed (use row address copy skip in \<open>simp_all add: collect_kind_def value_ok_def\<close>)
qed

lemma collect_value_runs:
  assumes ok: "builder_ok i n acc" and room: "interner_len i + (n + 2) \<le> U32_MAX" and row: "value_ok i row"
  shows "\<exists>acc'. collect_value sha256 row acc = Some acc' \<and> builder_ok i (n + 2) acc'"
proof -
  obtain subject where subject: "subject_var (vf_subject row) = Some subject" using row by (auto simp: value_ok_def)
  have "key_ok (snd acc) (vf_stable_key row)"
    using row ok key_ok_grows by (auto simp: value_ok_def builder_ok_def grew_def)
  then obtain identity where "resolve (snd acc) (vf_stable_key row) = Some identity" using key_ok_resolve by blast
  with subject collect_kind_runs [OF ok room row, of sha256 _ identity] builder_ok_mono [OF ok, of "n + 2"]
  show ?thesis by (cases subject) (simp_all add: collect_value_def)
qed

lemma collect_allocation_runs:
  assumes ok: "builder_ok i n acc" and room: "interner_len i + (n + 1) \<le> U32_MAX" and row: "allocation_ok i row"
  shows "\<exists>acc'. collect_allocation sha256 row acc = Some acc' \<and> builder_ok i (n + 1) acc'"
proof (cases "al_source_place row")
  case None
  then show ?thesis using builder_ok_mono [OF ok, of "n + 1"] by (simp add: collect_allocation_def)
next
  case (Some place)
  have "key_ok (snd acc) (al_stable_key row)"
    using row ok key_ok_grows by (auto simp: allocation_ok_def builder_ok_def grew_def)
  then obtain identity where "resolve (snd acc) (al_stable_key row) = Some identity" using key_ok_resolve by blast
  moreover obtain dst where "place_var place = Some dst" using row Some by (auto simp: allocation_ok_def)
  moreover have "\<exists>acc'. push_address sha256 dst (allocation_object (al_id row)) identity ''allocation_source_place'' acc =
      Some acc' \<and> builder_ok i (n + 1) acc'"
    by (rule push_address_runs [OF ok]) (use room row Some in \<open>simp_all add: allocation_ok_def\<close>)
  ultimately show ?thesis using Some by (simp add: collect_allocation_def)
qed

lemma push_pair_runs:
  assumes ok: "builder_ok i n acc" and room: "interner_len i + (n + 2) \<le> U32_MAX"
    and "\<And>dst val. load \<noteq> CallReturn dst val" and "\<And>dst val. store \<noteq> CallReturn dst val"
  shows "\<exists>acc'. push_pair sha256 load r1 store r2 identity acc = Some acc' \<and> builder_ok i (n + 2) acc'"
  unfolding push_pair_def
proof (rule push_then)
  show "\<exists>a. push_constraint sha256 load identity r1 acc = Some a \<and> builder_ok i (n + 1) a"
    by (rule push_runs [OF ok]) (use room assms(3) in simp_all)
  show "\<exists>b. push_constraint sha256 store identity r2 a = Some b \<and> builder_ok i (n + 1 + 1) b"
    if "builder_ok i (n + 1) a" "interner_len i + (n + 1) \<le> U32_MAX" for a
    by (rule push_runs [OF that]) (use assms(4) in simp)
qed (use room in simp)

lemma collect_projection_runs:
  assumes ok: "builder_ok i n acc" and room: "interner_len i + (n + 2) \<le> U32_MAX"
  shows "\<exists>acc'. collect_projection sha256 projection dst base identity acc = Some acc' \<and> builder_ok i (n + 2) acc'"
proof (cases projection)
  case (Proj_CallReturn site)
  have "\<exists>acc'. push_constraint sha256 (SummaryFlow dst base identity) identity ''call_return'' acc = Some acc' \<and>
      builder_ok i (n + 1) acc'"
    by (rule push_runs [OF ok]) (use room in simp_all)
  then show ?thesis using weaken_runs by (fastforce simp: Proj_CallReturn)
qed (use push_pair_runs [OF assms] builder_ok_mono [OF ok, of "n + 2"] in simp_all)

lemma collect_access_path_runs:
  assumes ok: "builder_ok i n acc" and room: "interner_len i + (n + 2 * length (ap_projections path)) \<le> U32_MAX"
    and path: "access_path_ok i path"
  shows "\<exists>acc'. collect_access_path sha256 path acc = Some acc' \<and> builder_ok i (n + 2 * length (ap_projections path)) acc'"
proof -
  have "key_ok (snd acc) (ap_stable_key path)"
    using path ok key_ok_grows by (auto simp: access_path_ok_def builder_ok_def grew_def)
  then obtain identity where identity: "resolve (snd acc) (ap_stable_key path) = Some identity" using key_ok_resolve by blast
  obtain base where base: "place_var (ap_base path) = Some base" using path by (auto simp: access_path_ok_def)
  let ?xs = "List.enumerate 0 (ap_projections path)"
  have cost: "sum_list (map (\<lambda>_. 2) ?xs) = 2 * length (ap_projections path)" by (simp add: sum_list_triv)
  have "\<exists>t. try_fold (projection_step sha256 path identity) ?xs ([], base, acc) = Some t \<and>
      builder_ok i (n + sum_list (map (\<lambda>_. 2) ?xs)) (snd (snd t))"
  proof (rule try_fold_counted [where P = "\<lambda>n t. builder_ok i n (snd (snd t))"])
    show "n + sum_list (map (\<lambda>_. 2) ?xs) \<le> n + 2 * length (ap_projections path)" by (simp add: cost)
    fix entry m and st :: "string list \<times> pt_var \<times> builder"
    assume entry: "entry \<in> set ?xs" and st: "builder_ok i m (snd (snd st))"
      and m: "m + 2 \<le> n + 2 * length (ap_projections path)"
    from entry have "fst entry < length (ap_projections path)" by (auto simp: in_set_enumerate_eq)
    then obtain dst where dst: "projection_dst path (fst entry) = Some dst"
      using path unfolding access_path_ok_def list_all_iff by fastforce
    have "interner_len i + (m + 2) \<le> U32_MAX" using m room by simp
    note step = collect_projection_runs [OF st this]
    obtain pre b acc1 where eq: "st = (pre, b, acc1)" by (cases st)
    let ?identity = "projection_source_identity sha256 identity (pre @ [projection_identity (snd entry)])"
    obtain acc2 where "collect_projection sha256 (snd entry) dst b ?identity acc1 = Some acc2" "builder_ok i (m + 2) acc2"
      using step [of sha256 "snd entry" dst b ?identity] unfolding eq by auto
    with dst show "\<exists>t. projection_step sha256 path identity entry st = Some t \<and> builder_ok i (m + 2) (snd (snd t))"
      by (simp add: projection_step_def Let_def eq)
  qed (use ok in simp)
  then show ?thesis using identity base unfolding cost by (fastforce simp: collect_access_path_def)
qed

text \<open>The number of constraints a stage can derive.\<close>

definition constraint_bound :: "value_output \<Rightarrow> access_path_output \<Rightarrow> nat" where
  "constraint_bound vals paths = 2 * length (vo_values vals) + length (vo_allocations vals) +
     sum_list (map (\<lambda>path. 2 * length (ap_projections path)) (ao_access_paths paths))"

lemma finish_runs:
  assumes "builder_ok i n acc"
  shows "\<exists>rows. finish_constraints acc = Some rows \<and> list_all (constraint_ok (snd acc)) rows \<and> length rows \<le> n"
proof -
  have ok: "list_all (constraint_ok (snd acc)) (fst acc)" "length (fst acc) \<le> n" using assms by (simp_all add: builder_ok_def)
  then have "list_all (\<lambda>r. resolve (snd acc) (pc_stable_key r) \<noteq> None) (fst acc)"
    unfolding list_all_iff resolve_ok_iff by (simp add: key_ok_def constraint_ok_def)
  then obtain s where s: "sort_rows (snd acc) pc_stable_key (\<lambda>_. 0 :: nat) (fst acc) = Some s"
    using sort_rows_defined by blast
  let ?d = "dedup_by_key pc_stable_key s"
  let ?rows = "renumber_rows (\<lambda>i row. row \<lparr> pc_id := i \<rparr>) ?d"
  have "length (dedup_by_key f xs) \<le> length xs" for f :: "points_to_constraint_fact \<Rightarrow> stable_key_id" and xs
    by (induction f xs rule: dedup_by_key.induct) auto
  then have "length ?rows \<le> n"
    using mset_eq_length [OF mset_sort_rows [OF s]] ok(2) by (metis length_renumber_rows order_trans)
  moreover have "constraint_ok (snd acc) (?rows ! j)" if "j < length ?d" for j
  proof -
    have "?d ! j \<in> set (fst acc)" using set_dedup_by_key [of pc_stable_key s] set_sort_rows [OF s] nth_mem [OF that] by blast
    then have "constraint_ok (snd acc) (?d ! j)" using ok(1) by (simp add: list_all_iff)
    then show ?thesis using that by (simp add: constraint_ok_def)
  qed
  then have "list_all (constraint_ok (snd acc)) ?rows" by (simp add: list_all_length)
  moreover have "finish_constraints acc = Some ?rows" by (simp add: finish_constraints_def s)
  ultimately show ?thesis by blast
qed

lemma derive_constraints_run:
  assumes wf: "interner_wf 0 i" and vals: "list_all (value_ok i) (vo_values vals)"
    and allocations: "list_all (allocation_ok i) (vo_allocations vals)"
    and paths: "list_all (access_path_ok i) (ao_access_paths paths)"
    and room: "interner_len i + constraint_bound vals paths \<le> U32_MAX"
  shows "\<exists>rows j. derive_points_to_constraints sha256 i vals paths = Some (rows, j) \<and>
     grew (constraint_bound vals paths) i j \<and> list_all (constraint_ok j) rows \<and> length rows \<le> constraint_bound vals paths"
proof -
  let ?N = "constraint_bound vals paths"
  have "\<exists>a. collect_values sha256 (vo_values vals) ([], i) = Some a \<and>
      builder_ok i (0 + sum_list (map (\<lambda>_. 2) (vo_values vals))) a"
    unfolding collect_values_def
  proof (rule try_fold_counted [where N = ?N and P = "builder_ok i"])
    show "builder_ok i 0 ([], i)" using wf by (simp add: builder_ok_def grew_refl)
    show "\<exists>t. collect_value sha256 row acc = Some t \<and> builder_ok i (n + 2) t"
      if "row \<in> set (vo_values vals)" "builder_ok i n acc" "n + 2 \<le> ?N" for row n acc
      by (rule collect_value_runs [OF that(2)]) (use that vals room in \<open>simp_all add: list_all_iff\<close>)
  qed (simp add: constraint_bound_def sum_list_triv)
  then obtain a where a: "collect_values sha256 (vo_values vals) ([], i) = Some a" "builder_ok i (2 * length (vo_values vals)) a"
    by (auto simp: sum_list_triv mult.commute)
  have "\<exists>b. collect_allocations sha256 (vo_allocations vals) a = Some b \<and>
      builder_ok i (2 * length (vo_values vals) + sum_list (map (\<lambda>_. 1) (vo_allocations vals))) b"
    unfolding collect_allocations_def
  proof (rule try_fold_counted [where N = ?N and P = "builder_ok i", OF a(2)])
    show "\<exists>t. collect_allocation sha256 row acc = Some t \<and> builder_ok i (n + 1) t"
      if "row \<in> set (vo_allocations vals)" "builder_ok i n acc" "n + 1 \<le> ?N" for row n acc
      by (rule collect_allocation_runs [OF that(2)]) (use that allocations room in \<open>simp_all add: list_all_iff\<close>)
  qed (simp add: constraint_bound_def sum_list_triv)
  then obtain b where b: "collect_allocations sha256 (vo_allocations vals) a = Some b"
    "builder_ok i (2 * length (vo_values vals) + length (vo_allocations vals)) b"
    by (auto simp: sum_list_triv)
  have "\<exists>c. collect_access_paths sha256 (ao_access_paths paths) b = Some c \<and> builder_ok i
      (2 * length (vo_values vals) + length (vo_allocations vals) +
       sum_list (map (\<lambda>path. 2 * length (ap_projections path)) (ao_access_paths paths))) c"
    unfolding collect_access_paths_def
  proof (rule try_fold_counted [where N = ?N and P = "builder_ok i", OF b(2)])
    show "\<exists>t. collect_access_path sha256 path acc = Some t \<and> builder_ok i (n + 2 * length (ap_projections path)) t"
      if "path \<in> set (ao_access_paths paths)" "builder_ok i n acc" "n + 2 * length (ap_projections path) \<le> ?N" for path n acc
      by (rule collect_access_path_runs [OF that(2)]) (use that paths room in \<open>simp_all add: list_all_iff\<close>)
  qed (simp add: constraint_bound_def)
  then obtain c where c: "collect_access_paths sha256 (ao_access_paths paths) b = Some c" "builder_ok i ?N c"
    by (auto simp: constraint_bound_def)
  from finish_runs [OF c(2)] a(1) b(1) c show ?thesis
    by (auto simp: derive_points_to_constraints_def builder_ok_def)
qed


section \<open>The solved output\<close>

abbreviation rows_ok :: "interner_state \<Rightarrow> ('r \<Rightarrow> stable_key_id) \<Rightarrow> 'r list \<Rightarrow> bool" where
  "rows_ok i key_of rows \<equiv> list_all (\<lambda>r. key_ok i (key_of r)) rows"

lemma rows_ok_grows: "grows i j \<Longrightarrow> rows_ok i key_of rows \<Longrightarrow> rows_ok j key_of rows"
  by (auto simp: list_all_iff intro: key_ok_grows)

lemma rows_ok_resolve: "rows_ok i key_of rows \<Longrightarrow> list_all (\<lambda>r. resolve i (key_of r) \<noteq> None) rows"
  by (simp only: resolve_ok_iff)

lemma set_fact_grows:
  assumes run: "set_fact sha256 s entry acc = Some acc'" and wf: "grows i (snd acc)"
    and ok: "rows_ok (snd acc) ps_stable_key (fst acc)"
  shows "grows i (snd acc') \<and> rows_ok (snd acc') ps_stable_key (fst acc')"
proof -
  obtain t k j f where put: "intern t (snd acc) = Some (k, j)" and acc': "acc' = (fst acc @ [f], j)" "ps_stable_key f = k"
    using run by (auto simp: set_fact_def bind_eq_Some_conv Let_def stable_key_from_parts_def)
  note wf' = grows_wf(1) [OF wf]
  have g: "grows (snd acc) j" by (rule intern_grows [OF wf' put])
  have "key_ok j k" using root.put_get [OF wf' put] resolve_ok_iff [of j k] by simp
  with rows_ok_grows [OF g ok] grows_trans [OF wf g] acc' show ?thesis by simp
qed

lemma solve_grows:
  assumes "interner_wf 0 i" and "solve_points_to sha256 i cs budget = Some (r, j)"
  shows "grows i j \<and> rows_ok j ps_stable_key (sr_sets r)"
proof -
  obtain s where "to_result sha256 s i = Some (r, j)"
    using assms(2) by (auto simp: solve_points_to_def bind_eq_Some_conv)
  then have run: "try_fold (set_fact sha256 s) (bt_entries (pt_sets s)) ([], i) = Some (sr_sets r, j)"
    by (auto simp: to_result_def)
  let ?P = "\<lambda>acc. grows i (snd acc) \<and> rows_ok (snd acc) ps_stable_key (fst acc)"
  have "?P (sr_sets r, j)"
    by (rule try_fold_invariant [OF run]) (use assms(1) set_fact_grows in \<open>auto simp: grows_refl\<close>)
  then show ?thesis by simp
qed

lemma points_to_normalized_runs:
  assumes "rows_ok i pc_stable_key (po_constraints out)" and "rows_ok i ps_stable_key (po_sets out)"
  shows "\<exists>out'. points_to_output_normalized i out = Some out' \<and>
    rows_ok i pc_stable_key (po_constraints out') \<and> rows_ok i ps_stable_key (po_sets out')"
proof -
  obtain cs where cs: "normalize_rows i pc_stable_key pc_id (\<lambda>i row. row \<lparr> pc_id := i \<rparr>) (po_constraints out) = Some cs"
    using constraint_rows.normalize_defined [OF rows_ok_resolve [OF assms(1)]] by blast
  obtain sets where sets: "normalize_rows i ps_stable_key ps_id renumber_set (po_sets out) = Some sets"
    using set_rows.normalize_defined [OF rows_ok_resolve [OF assms(2)]] by blast
  have "pc_stable_key ` set cs = pc_stable_key ` set (po_constraints out)"
    by (rule constraint_rows.normalize_set [OF cs]) simp
  moreover have "ps_stable_key ` set sets = ps_stable_key ` set (po_sets out)"
    by (rule set_rows.normalize_set [OF sets]) (simp add: renumber_set_def)
  ultimately have "rows_ok i pc_stable_key cs" "rows_ok i ps_stable_key sets"
    using assms unfolding list_all_iff by (metis image_iff)+
  with cs sets show ?thesis by (simp add: points_to_output_normalized_def)
qed

lemma solved_output_runs:
  assumes wf: "interner_wf 0 i" and ok: "list_all (constraint_ok i) cs"
    and room: "interner_len i + 2 * length cs + length cs * length cs \<le> U32_MAX"
  shows "\<exists>out j. output_with_solved_sets sha256 i cs budget = Some (out, j) \<and>
    grew (2 * length cs + length cs * length cs) i j \<and>
    rows_ok j pc_stable_key (po_constraints out) \<and> rows_ok j ps_stable_key (po_sets out)"
proof -
  obtain r j where run: "solve_points_to sha256 i cs budget = Some (r, j)"
    and len: "interner_len j \<le> interner_len i + 2 * length cs + length cs * length cs"
    using solver_total [OF ok room] by blast
  have g: "grows i j" "rows_ok j ps_stable_key (sr_sets r)" using solve_grows [OF wf run] by blast+
  have "rows_ok j pc_stable_key cs"
    by (rule rows_ok_grows [OF g(1)]) (use ok in \<open>simp add: list_all_iff constraint_ok_def key_ok_def\<close>)
  with points_to_normalized_runs [of j "\<lparr> po_constraints = cs, po_sets = sr_sets r \<rparr>"] g
  obtain out where "points_to_output_normalized j \<lparr> po_constraints = cs, po_sets = sr_sets r \<rparr> = Some out"
    "rows_ok j pc_stable_key (po_constraints out)" "rows_ok j ps_stable_key (po_sets out)" by auto
  with run g len show ?thesis by (auto simp: output_with_solved_sets_def grew_def)
qed


section \<open>The alias provider\<close>

lemma indexed_path:
  assumes "path \<in> set paths" and "distinct (map ap_id paths)" and "index = alias_query_index_new paths sets"
  shows "fmlookup (aq_access_paths index) (ap_id path) = Some path"
  using assms lookup_fm_collect_distinct [of "map (\<lambda>path. (ap_id path, path)) paths" "ap_id path" path]
  by (auto simp: alias_query_index_new_def Let_def comp_def)

lemma indexed_only:
  assumes "fmlookup (aq_access_paths (alias_query_index_new paths sets)) k = Some path"
  shows "path \<in> set paths"
  using assms by (auto simp: alias_query_index_new_def Let_def dest!: fm_collect_SomeD)

lemma fold_push_lookup:
  "set (fm_get_or [] (fold (\<lambda>path. fm_push (ap_base path) path) ps m) b) =
     set (fm_get_or [] m b) \<union> {p \<in> set ps. ap_base p = b}"
  by (induction ps arbitrary: m) (auto simp: fm_get_or_push)

lemma paths_by_base_iff:
  assumes "index = alias_query_index_new paths sets" and "distinct (map ap_id paths)"
  shows "p \<in> set (fm_get_or [] (aq_paths_by_base index) b) \<longleftrightarrow> p \<in> set paths \<and> ap_base p = b"
proof -
  have "p \<in> set (bt_values (aq_access_paths index)) \<longleftrightarrow> p \<in> set paths"
    using indexed_path [OF _ assms(2,1)] indexed_only assms(1) by (auto simp: in_bt_values_iff)
  moreover have "aq_paths_by_base index = fold (\<lambda>path. fm_push (ap_base path) path) (bt_values (aq_access_paths index)) fmempty"
    by (simp add: assms(1) alias_query_index_new_def Let_def)
  ultimately show ?thesis by (simp add: fold_push_lookup)
qed

lemma place_path_keys_runs:
  assumes "\<And>p. p \<in> set (fm_get_or [] (aq_paths_by_base index) b) \<Longrightarrow> key_ok i (ap_stable_key p)"
    and "fm_get_or [] (aq_paths_by_base index) b \<noteq> []"
  shows "\<exists>texts. place_path_keys index i b = Some texts \<and> texts \<noteq> {||}"
proof -
  let ?f = "\<lambda>path acc. map_option (\<lambda>text. finsert text acc) (resolve i (ap_stable_key path))"
  obtain p ps where ps: "fm_get_or [] (aq_paths_by_base index) b = p # ps" using assms(2) by (cases "fm_get_or [] (aq_paths_by_base index) b") auto
  have step: "\<exists>t. ?f q acc = Some t \<and> t \<noteq> {||}" if "q \<in> set (p # ps)" for q acc
  proof -
    have "key_ok i (ap_stable_key q)" using assms(1) that by (simp add: ps)
    then obtain z where "resolve i (ap_stable_key q) = Some z" using key_ok_resolve by blast
    then show ?thesis by simp
  qed
  from step [of p "{||}"] obtain t where t: "?f p {||} = Some t" "t \<noteq> {||}" by auto
  have "\<exists>u. try_fold ?f ps t = Some u \<and> u \<noteq> {||}"
    by (rule try_fold_defined [where P = "\<lambda>u. u \<noteq> {||}", OF t(2)]) (rule step, simp)
  with t show ?thesis by (auto simp: place_path_keys_def ps)
qed

definition operand_ok :: "access_path_fact list \<Rightarrow> alias_operand \<Rightarrow> bool" where
  "operand_ok paths a \<longleftrightarrow> (\<exists>path \<in> set paths. a = Op_Place (ap_base path) \<or> a = Op_AccessPath (ap_id path))"

lemma identity_runs:
  assumes a: "operand_ok paths a" and ok: "list_all (access_path_ok i) paths" and dist: "distinct (map ap_id paths)"
    and index: "index = alias_query_index_new paths sets" and g: "grows i j"
  shows "operand_stable_identity index j a \<noteq> None"
proof -
  have keys: "key_ok j (ap_stable_key path)" if "path \<in> set paths" for path
    using ok that key_ok_grows [OF g] by (auto simp: list_all_iff access_path_ok_def)
  from a consider path where "path \<in> set paths" "a = Op_AccessPath (ap_id path)"
    | path where "path \<in> set paths" "a = Op_Place (ap_base path)" by (auto simp: operand_ok_def)
  then show ?thesis
  proof cases
    case 1
    with indexed_path [OF _ dist index] key_ok_resolve [OF keys] show ?thesis by simp
  next
    case 2
    note by_base = paths_by_base_iff [OF index dist]
    have "path \<in> set (fm_get_or [] (aq_paths_by_base index) (ap_base path))" using by_base 2(1) by simp
    then have "fm_get_or [] (aq_paths_by_base index) (ap_base path) \<noteq> []" by auto
    from place_path_keys_runs [OF _ this] keys by_base obtain texts where
      "place_path_keys index j (ap_base path) = Some texts" "texts \<noteq> {||}" by blast
    with 2(2) show ?thesis by (simp add: alias_relation_identity_def)
  qed
qed

lemma operand_var_runs:
  "operand_ok paths a \<Longrightarrow> list_all (access_path_ok i) paths \<Longrightarrow> operand_var a \<noteq> None"
  by (auto simp: operand_ok_def list_all_iff access_path_ok_def)

lemma classify_runs:
  assumes "operand_var a \<noteq> None" and "operand_var b \<noteq> None"
  obtains status reason precision evidence where "classify index a b = Some (status, reason, precision, evidence)"
proof -
  obtain l r where "objects_for index a = Some l" "objects_for index b = Some r"
    using assms by (auto simp: objects_for_def)
  then have "classify index a b \<noteq> None" by (simp add: classify_def split: option.split del: not_None_eq)
  then show thesis using that by (metis not_None_eq prod_cases4)
qed

text \<open>What the answer loops keep: one key and one row per answer, and at most one row past the budget.\<close>

definition answers_ok :: "interner_state \<Rightarrow> alias_answer_fact list \<times> bool \<times> interner_state \<Rightarrow> bool" where
  "answers_ok i st \<longleftrightarrow> (case st of (answers, reported, j) \<Rightarrow>
     grew (length answers) i j \<and> rows_ok j aa_stable_key answers \<and> length answers \<le> (if reported then 65 else 64))"

lemma answers_ok_push:
  assumes "answers_ok i (answers, reported, j)" and "grew 1 j k" and "key_ok k (aa_stable_key row)"
    and "Suc (length answers) \<le> (if reported' then 65 else 64)"
  shows "answers_ok i (answers @ [row], reported', k)"
proof -
  have "grew (length answers + 1) i k" using assms(1,2) by (intro grew_trans) (auto simp: answers_ok_def)
  moreover have "rows_ok k aa_stable_key answers"
    using assms(1,2) by (auto simp: answers_ok_def grew_def intro: rows_ok_grows)
  ultimately show ?thesis using assms(3,4) by (simp add: answers_ok_def)
qed

lemma answer_key_runs:
  assumes "operand_stable_identity index j a \<noteq> None" and "operand_stable_identity index j b \<noteq> None"
    and "interner_wf 0 j" and "interner_len j \<le> U32_MAX"
  obtains key k where "answer_stable_key sha256 index a b status reason j = Some (key, k)" "grew 1 j k" "key_ok k key"
proof -
  obtain s t where "operand_stable_identity index j a = Some s" "operand_stable_identity index j b = Some t"
    using assms(1,2) by blast
  with stable_key_runs [OF assms(3,4)] that show thesis by (simp add: answer_stable_key_def) metis
qed

lemma answer_pairs_total:
  assumes "answers_ok i st" and "operand_ok paths left" and "list_all (operand_ok paths) rights"
    and paths: "list_all (access_path_ok i) paths" and dist: "distinct (map ap_id paths)"
    and index: "index = alias_query_index_new paths sets" and room: "interner_len i + 64 \<le> U32_MAX"
  shows "\<exists>st'. answer_pairs sha256 index left rights st = Some st' \<and> answers_ok i st'"
  using assms(1,3)
proof (induction rights arbitrary: st)
  case (Cons right rights)
  obtain answers reported j where st: "st = (answers, reported, j)" by (cases st)
  have ok: "answers_ok i (answers, reported, j)" using Cons.prems(1) st by simp
  then have g: "grew (length answers) i j" by (simp add: answers_ok_def)
  have right: "operand_ok paths right" using Cons.prems(2) by simp
  note identity = identity_runs [OF _ paths dist index] 
  have ids: "operand_stable_identity index j left \<noteq> None" "operand_stable_identity index j right \<noteq> None"
    using identity assms(2) right g by (auto simp: grew_def)
  have wf: "interner_wf 0 j" using g grows_wf by (auto simp: grew_def)
  show ?case
  proof (cases "length answers \<ge> 64")
    case True
    show ?thesis
    proof (cases reported)
      case False
      then have "interner_len j \<le> U32_MAX" using ok g room by (simp add: answers_ok_def grew_def)
      then obtain key k where key: "answer_stable_key sha256 index left right Alias_Unknown Alias_BudgetExceeded j = Some (key, k)"
        "grew 1 j k" "key_ok k key" by (rule answer_key_runs [OF ids wf])
      then obtain row where row: "budget_exceeded_answer sha256 index left right j = Some (row, k)" "aa_stable_key row = key"
        by (simp add: budget_exceeded_answer_def)
      have "answers_ok i (answers @ [row], True, k)"
        by (rule answers_ok_push [OF ok key(2)]) (use key(3) row(2) False ok in \<open>simp_all add: answers_ok_def\<close>)
      with True False row(1) show ?thesis by (simp add: st MAX_PROVIDER_STACK_PAIRS_def)
    qed (use True ok in \<open>simp add: st MAX_PROVIDER_STACK_PAIRS_def\<close>)
  next
    case False
    obtain status reason precision evidence where
      c: "classify index left right = Some (status, reason, precision, evidence)"
      using classify_runs operand_var_runs [OF _ paths] assms(2) right by metis
    have "interner_len j \<le> U32_MAX" using False g room by (simp add: grew_def)
    then obtain key k where key: "answer_stable_key sha256 index left right status reason j = Some (key, k)"
      "grew 1 j k" "key_ok k key" by (rule answer_key_runs [OF ids wf])
    then obtain row where row: "alias_answer sha256 index left right j = Some (row, k)" "aa_stable_key row = key"
      by (simp add: alias_answer_def c)
    have "answers_ok i (answers @ [row], reported, k)"
      by (rule answers_ok_push [OF ok key(2)]) (use key(3) row(2) False in simp_all)
    from Cons.IH [OF this] Cons.prems(2) False row(1) show ?thesis by (simp add: st MAX_PROVIDER_STACK_PAIRS_def)
  qed
qed simp

lemma answer_operands_total:
  assumes "answers_ok i st" and "list_all (operand_ok paths) ops"
    and "list_all (access_path_ok i) paths" and "distinct (map ap_id paths)"
    and "index = alias_query_index_new paths sets" and "interner_len i + 64 \<le> U32_MAX"
  shows "\<exists>st'. answer_operands sha256 index ops st = Some st' \<and> answers_ok i st'"
  using assms(1,2)
proof (induction ops arbitrary: st)
  case (Cons left rest)
  then have "\<exists>st1. answer_pairs sha256 index left (left # rest) st = Some st1 \<and> answers_ok i st1"
    by (intro answer_pairs_total [OF _ _ _ assms(3-6)]) simp_all
  then obtain st1 where "answer_pairs sha256 index left (left # rest) st = Some st1" "answers_ok i st1" by blast
  with Cons.IH Cons.prems(2) show ?case by simp
qed simp

lemma derive_aliases_run:
  assumes wf: "interner_wf 0 i" and paths: "list_all (access_path_ok i) paths" and dist: "distinct (map ap_id paths)"
    and room: "interner_len i + 64 \<le> U32_MAX"
  shows "\<exists>out j. derive_alias_answers sha256 i paths sets = Some (out, j) \<and> grew 65 i j \<and> rows_ok j aa_stable_key (al_answers out)"
proof -
  let ?index = "alias_query_index_new paths sets"
  have operands: "list_all (operand_ok paths) (alias_operands paths)"
    by (auto simp: list_all_iff alias_operands_def operand_ok_def)
  then have "list_all (\<lambda>a. operand_stable_identity ?index i a \<noteq> None) (alias_operands paths)"
    using identity_runs [OF _ paths dist refl grows_refl [OF wf]] by (auto simp: list_all_iff)
  then obtain ops where ops: "sort_operands ?index i (alias_operands paths) = Some ops" "set ops = set (alias_operands paths)"
    by (simp add: sort_operands_by_identity)
  then have "list_all (operand_ok paths) (vec_dedup ops)" using operands by (simp add: list_all_iff set_vec_dedup)
  moreover have "answers_ok i ([], False, i)" by (simp add: answers_ok_def grew_refl [OF wf])
  ultimately obtain answers reported j where run: "answer_operands sha256 ?index (vec_dedup ops) ([], False, i) =
      Some (answers, reported, j)" and ok: "answers_ok i (answers, reported, j)"
    using answer_operands_total [OF _ _ paths dist refl room] by (metis prod_cases3)
  have rows: "rows_ok j aa_stable_key answers" using ok by (simp add: answers_ok_def)
  then obtain rows where norm: "normalize_rows j aa_stable_key aa_id (\<lambda>i row. row \<lparr> aa_id := i \<rparr>) answers = Some rows"
    using answer_rows.normalize_defined [OF rows_ok_resolve] by blast
  have "aa_stable_key ` set rows = aa_stable_key ` set answers" by (rule answer_rows.normalize_set [OF norm]) simp
  then have "rows_ok j aa_stable_key rows" using rows unfolding list_all_iff by (metis image_iff)
  moreover have "grew 65 i j" using ok by (auto simp: answers_ok_def split: if_splits intro: grew_mono)
  ultimately show ?thesis using ops(1) run norm by (simp add: derive_alias_answers_def alias_output_normalized_def)
qed


section \<open>The stage\<close>

definition stage_ok :: "interner_state \<Rightarrow> type_value_alias_output \<Rightarrow> bool" where
  "stage_ok i out \<longleftrightarrow> interner_wf 0 i \<and>
     rows_ok i tf_stable_key (to_types (tva_types out)) \<and> rows_ok i nt_stable_key (to_narrowed (tva_types out)) \<and>
     list_all (value_ok i) (vo_values (tva_values out)) \<and> list_all (allocation_ok i) (vo_allocations (tva_values out)) \<and>
     list_all (access_path_ok i) (ao_access_paths (tva_access_paths out)) \<and>
     distinct (map ap_id (ao_access_paths (tva_access_paths out))) \<and>
     list_all (constraint_ok i) (po_constraints (tva_points_to out)) \<and>
     rows_ok i aa_stable_key (al_answers (tva_aliases out))"

text \<open>The number of constraints the solver is given.\<close>

definition stage_constraints :: "type_value_alias_output \<Rightarrow> nat" where
  "stage_constraints out =
     constraint_bound (tva_values out) (tva_access_paths out) + length (po_constraints (tva_points_to out))"

lemma access_path_ok_grows: "grows i j \<Longrightarrow> access_path_ok i path \<Longrightarrow> access_path_ok j path"
  by (auto simp: access_path_ok_def intro: key_ok_grows)

lemma sort_runs: "rows_ok j key_of rows \<Longrightarrow> \<exists>rows'. sort_rows j key_of id_of rows = Some rows'"
  by (rule sort_rows_defined) (rule rows_ok_resolve)

lemma types_normalized_run:
  assumes "rows_ok j tf_stable_key (to_types out)" and "rows_ok j nt_stable_key (to_narrowed out)"
  shows "\<exists>out'. type_output_normalized j out = Some out'"
  using sort_runs [OF assms(1), where id_of = tf_id] sort_runs [OF assms(2), where id_of = nt_id]
  by (auto simp: type_output_normalized_def Let_def)

lemma values_normalized_run:
  assumes "rows_ok j vf_stable_key (vo_values out)" and "rows_ok j al_stable_key (vo_allocations out)"
  shows "\<exists>out'. value_output_normalized j out = Some out'"
  using sort_runs [OF assms(1), where id_of = vf_id] sort_runs [OF assms(2), where id_of = al_id]
  by (auto simp: value_output_normalized_def)

lemma stage_normalized_runs:
  assumes "rows_ok j tf_stable_key (to_types (tva_types out))" "rows_ok j nt_stable_key (to_narrowed (tva_types out))"
    "rows_ok j vf_stable_key (vo_values (tva_values out))" "rows_ok j al_stable_key (vo_allocations (tva_values out))"
    "rows_ok j ap_stable_key (ao_access_paths (tva_access_paths out))"
    "rows_ok j pc_stable_key (po_constraints (tva_points_to out))" "rows_ok j ps_stable_key (po_sets (tva_points_to out))"
    "rows_ok j aa_stable_key (al_answers (tva_aliases out))"
  shows "\<exists>out'. type_value_alias_normalized j out = Some out'"
proof -
  obtain types where t: "type_output_normalized j (tva_types out) = Some types"
    using types_normalized_run [OF assms(1,2)] by blast
  obtain vals where v: "value_output_normalized j (tva_values out) = Some vals"
    using values_normalized_run [OF assms(3,4)] by blast
  obtain paths where p: "access_path_output_normalized j (tva_access_paths out) = Some paths"
    using path_rows.normalize_defined [OF rows_ok_resolve [OF assms(5)]] by (auto simp: access_path_output_normalized_def)
  obtain points_to where o': "points_to_output_normalized j (tva_points_to out) = Some points_to"
    using points_to_normalized_runs [OF assms(6,7)] by blast
  obtain aliases where a: "alias_output_normalized j (tva_aliases out) = Some aliases"
    using answer_rows.normalize_defined [OF rows_ok_resolve [OF assms(8)]] by (auto simp: alias_output_normalized_def)
  show ?thesis by (simp add: type_value_alias_normalized_def t v p o' a)
qed

text \<open>Constraints, solution and answers one after the other; the interner grows at every step.\<close>

lemma solved_constraints_run:
  assumes ok: "stage_ok i out" and n: "n = stage_constraints out" and room: "interner_len i + 3 * n + n * n \<le> U32_MAX"
  shows "\<exists>cs i1 pts i2. derive_points_to_constraints sha256 i (tva_values out) (tva_access_paths out) = Some (cs, i1) \<and>
    output_with_solved_sets sha256 i1 (cs @ po_constraints (tva_points_to out)) points_to_budget_default = Some (pts, i2) \<and>
    grew (3 * n + n * n) i i2 \<and> rows_ok i2 pc_stable_key (po_constraints pts) \<and> rows_ok i2 ps_stable_key (po_sets pts)"
proof -
  let ?vals = "tva_values out" and ?paths = "tva_access_paths out" and ?given = "po_constraints (tva_points_to out)"
  have n': "constraint_bound ?vals ?paths + length ?given = n" by (simp add: n stage_constraints_def)
  have "\<exists>rows j. derive_points_to_constraints sha256 i ?vals ?paths = Some (rows, j) \<and>
     grew (constraint_bound ?vals ?paths) i j \<and> list_all (constraint_ok j) rows \<and> length rows \<le> constraint_bound ?vals ?paths"
    by (rule derive_constraints_run) (use ok n' room in \<open>simp_all add: stage_ok_def\<close>)
  then obtain cs i1 where cs: "derive_points_to_constraints sha256 i ?vals ?paths = Some (cs, i1)"
    "grew (constraint_bound ?vals ?paths) i i1" "list_all (constraint_ok i1) cs" "length cs \<le> constraint_bound ?vals ?paths"
    by blast
  have g1: "grew n i i1" by (rule grew_mono [OF cs(2)]) (simp flip: n')
  define m where "m = length (cs @ ?given)"
  have m: "m \<le> n" using cs(4) n' by (simp add: m_def)
  then have bound: "2 * m + m * m \<le> 2 * n + n * n" by (intro add_mono mult_le_mono) simp_all
  have i1: "grows i i1" "interner_len i1 \<le> interner_len i + n" "interner_wf 0 i1"
    using g1 grows_wf(1) by (auto simp: grew_def)
  have "list_all (constraint_ok i1) (cs @ ?given)"
    using cs(3) ok constraint_ok_grows [OF i1(1)] by (auto simp: list_all_iff stage_ok_def)
  moreover have "interner_len i1 + 2 * m + m * m \<le> U32_MAX" using room bound i1(2) by linarith
  ultimately obtain pts i2 where pts:
    "output_with_solved_sets sha256 i1 (cs @ ?given) points_to_budget_default = Some (pts, i2)"
    "grew (2 * m + m * m) i1 i2" "rows_ok i2 pc_stable_key (po_constraints pts)" "rows_ok i2 ps_stable_key (po_sets pts)"
    using solved_output_runs [OF i1(3)] unfolding m_def by blast
  have "grew (3 * n + n * n) i i2" by (rule grew_mono [OF grew_trans [OF g1 pts(2)]]) (use bound in linarith)
  with cs(1) pts show ?thesis by blast
qed

lemma derive_relations_run:
  assumes ok: "stage_ok i out" and n: "n = stage_constraints out"
    and room: "interner_len i + 3 * n + n * n + 64 \<le> U32_MAX"
  obtains out' j points_to answers where "derive_relations sha256 i out = Some (out', j)" "grows i j"
    "type_value_alias_normalized j (out \<lparr> tva_points_to := points_to, tva_aliases := answers \<rparr>) = Some out'"
proof -
  let ?paths = "ao_access_paths (tva_access_paths out)"
  have "interner_len i + 3 * n + n * n \<le> U32_MAX" using room by simp
  from solved_constraints_run [OF ok n this, of sha256] obtain cs i1 pts i2 where
    runs: "derive_points_to_constraints sha256 i (tva_values out) (tva_access_paths out) = Some (cs, i1)"
      "output_with_solved_sets sha256 i1 (cs @ po_constraints (tva_points_to out)) points_to_budget_default = Some (pts, i2)"
    and g2: "grew (3 * n + n * n) i i2"
    and rows: "rows_ok i2 pc_stable_key (po_constraints pts)" "rows_ok i2 ps_stable_key (po_sets pts)" by blast
  have i2: "grows i i2" "interner_len i2 + 64 \<le> U32_MAX" "interner_wf 0 i2"
    using g2 room grows_wf(1) by (auto simp: grew_def)
  have "list_all (access_path_ok i2) ?paths"
    using ok access_path_ok_grows [OF i2(1)] by (auto simp: stage_ok_def list_all_iff)
  moreover have "distinct (map ap_id ?paths)" using ok by (simp add: stage_ok_def)
  ultimately obtain aliases j where aliases: "derive_alias_answers sha256 i2 ?paths (po_sets pts) = Some (aliases, j)"
    "grew 65 i2 j" "rows_ok j aa_stable_key (al_answers aliases)"
    using derive_aliases_run [OF i2(3) _ _ i2(2)] by blast
  let ?out = "out \<lparr> tva_points_to := pts, tva_aliases := \<lparr> al_answers = al_answers aliases @ al_answers (tva_aliases out) \<rparr> \<rparr>"
  have g: "grows i2 j" "grows i j" using aliases(2) i2(1) grows_trans by (auto simp: grew_def)
  have keep: "rows_ok j key_of xs" if "list_all P xs" "\<And>x. P x \<Longrightarrow> key_ok i (key_of x)"
    for P and key_of :: "'r \<Rightarrow> stable_key_id" and xs
    using that key_ok_grows [OF g(2)] by (auto simp: list_all_iff)
  have kept: "rows_ok j tf_stable_key (to_types (tva_types out)) \<and> rows_ok j nt_stable_key (to_narrowed (tva_types out)) \<and>
      rows_ok j aa_stable_key (al_answers (tva_aliases out))"
    by (intro conjI; rule rows_ok_grows [OF g(2)]) (use ok in \<open>simp_all add: stage_ok_def\<close>)
  have "\<exists>out'. type_value_alias_normalized j ?out = Some out'"
  proof (rule stage_normalized_runs)
    show "rows_ok j vf_stable_key (vo_values (tva_values ?out))"
      using keep [of "value_ok i" _ vf_stable_key] ok by (simp add: stage_ok_def value_ok_def)
    show "rows_ok j al_stable_key (vo_allocations (tva_values ?out))"
      using keep [of "allocation_ok i" _ al_stable_key] ok by (simp add: stage_ok_def allocation_ok_def)
    show "rows_ok j ap_stable_key (ao_access_paths (tva_access_paths ?out))"
      using keep [of "access_path_ok i" _ ap_stable_key] ok by (simp add: stage_ok_def access_path_ok_def)
  qed (use rows_ok_grows [OF g(1) rows(1)] rows_ok_grows [OF g(1) rows(2)] kept aliases(3) in simp_all)
  then obtain out' where out': "type_value_alias_normalized j ?out = Some out'" by blast
  have "derive_relations sha256 i out = Some (out', j)" by (simp add: derive_relations_def runs aliases(1) out')
  then show thesis by (rule that [OF _ g(2) out'])
qed

text \<open>
  C32: the last part of the type, value and alias stage returns: on rows whose keys are interned and whose
  ids can be tagged, with room in the interner for the keys of the derived constraints, sets and answers,
  none of the panics in the constraint builder, the solver, the alias provider and the normalisations is
  reached. On rows that were normalised before, types, values and access paths come out as they went in,
  so that the ids the constraints and answers were built from are still the ids of their rows.
\<close>

theorem relations_stage_returns:
  assumes ok: "stage_ok i out" and n: "n = stage_constraints out"
    and room: "interner_len i + 3 * n + n * n + 64 \<le> U32_MAX"
    and normal: "type_value_alias_normalized i out0 = Some out" and small: "fits out0"
  shows "\<exists>out' j. derive_relations sha256 i out = Some (out', j) \<and> tva_types out' = tva_types out \<and>
     tva_values out' = tva_values out \<and> tva_access_paths out' = tva_access_paths out"
proof -
  obtain out' j points_to answers where run: "derive_relations sha256 i out = Some (out', j)" and g: "grows i j"
    and norm: "type_value_alias_normalized j (out \<lparr> tva_points_to := points_to, tva_aliases := answers \<rparr>) = Some out'"
    by (rule derive_relations_run [OF ok n room])
  have "type_value_alias_normalized j out = Some out"
    by (rule type_value_alias_idem [OF normal small grows_later [OF g]])
  then have "type_output_normalized j (tva_types out) = Some (tva_types out)"
    "value_output_normalized j (tva_values out) = Some (tva_values out)"
    "access_path_output_normalized j (tva_access_paths out) = Some (tva_access_paths out)"
    unfolding type_value_alias_normalized_def by (auto simp: bind_eq_Some_conv)
  with norm have "tva_types out' = tva_types out" "tva_values out' = tva_values out"
    "tva_access_paths out' = tva_access_paths out"
    by (auto simp: type_value_alias_normalized_def bind_eq_Some_conv)
  with run show ?thesis by blast
qed

end
