(* ===== verification/Stage_Samples.thy ===== *)
theory Stage_Samples
  imports Type_Value_Alias_Total
begin

text \<open>
  What the alias query answers when the solver finished within its budget, and a small program on which
  the whole stage runs: two places that are given the addresses of two allocations, each with an access
  path. The runs are not evaluated; the lemmas on termination and on the least solution give them.
\<close>

section \<open>Answers within the budget\<close>

lemma solved_within:
  assumes "list_all (constraint_ok i) cs" and "interner_len i + 2 * length cs + length cs * length cs \<le> U32_MAX"
    and "ample cs budget" and run: "output_with_solved_sets sha256 i cs budget = Some (out, j)"
  obtains r where "solve_points_to sha256 i cs budget = Some (r, j)" "sr_budget_status r = WithinBudget"
    "points_to_output_normalized j \<lparr> po_constraints = cs, po_sets = sr_sets r \<rparr> = Some out"
proof -
  obtain r where r: "solve_points_to sha256 i cs budget = Some (r, j)"
    "points_to_output_normalized j \<lparr> po_constraints = cs, po_sets = sr_sets r \<rparr> = Some out"
    using run by (rule output_with_solved_setsE)
  moreover have "sr_budget_status r = WithinBudget"
    using solver_total [OF assms(1,2), of sha256 budget] assms(3) r(1) by auto
  ultimately show thesis using that by blast
qed

lemma within_rows:
  assumes "solve_points_to sha256 i cs budget = Some (r, j)" and "sr_budget_status r = WithinBudget"
    and "points_to_output_normalized j \<lparr> po_constraints = cs, po_sets = sr_sets r \<rparr> = Some out"
    and "row \<in> set (po_sets out)"
  shows "ps_budget row = WithinBudget" and "ps_status row = Pts_Present"
proof -
  obtain s where s: "to_result sha256 s i = Some (r, j)" using assms(1) by (auto simp: solve_points_to_def bind_eq_Some_conv)
  let ?view = "\<lambda>f. (ps_variable f, set (ps_objects f), ps_status f, ps_budget f)"
  have "?view row \<in> ?view ` set (sr_sets r)" using normalized_sets [OF assms(3)] assms(4) by auto
  then obtain f where f: "f \<in> set (sr_sets r)" "?view f = ?view row" by (metis (no_types, lifting) imageE)
  have "\<not> pt_budget_exceeded s" using to_result_sets(2) [OF s] assms(2) by (auto split: if_splits)
  with to_result_sets(3) [OF s f(1)] f(2) assms(2) show "ps_budget row = WithinBudget" "ps_status row = Pts_Present" by simp_all
qed

lemma solved_variable_listed:
  assumes run: "solve_points_to sha256 i cs budget = Some (r, j)" and within: "sr_budget_status r = WithinBudget"
    and norm: "points_to_output_normalized j \<lparr> po_constraints = cs, po_sets = sr_sets r \<rparr> = Some out"
    and vars: "list_all (\<lambda>c. list_all (\<lambda>v. \<not> is_slot_var v) (constraint_vars (pc_kind c))) cs"
    and v: "\<not> is_slot_var v" "least_pts (pc_kind ` set cs) (VarNode v) obj"
  shows "v \<in> ps_variable ` set (po_sets out)"
proof -
  have "obj \<in> result_objects r v" using solve_exact [OF run within vars v(1)] v(2) by blast
  then obtain f where f: "f \<in> set (sr_sets r)" "ps_variable f = v" by (auto simp: result_objects_def split: if_splits)
  let ?view = "\<lambda>f. (ps_variable f, set (ps_objects f), ps_status f, ps_budget f)"
  have "fst ` ?view ` set (po_sets out) = fst ` ?view ` set (sr_sets r)" using normalized_sets [OF norm] by simp
  with f show ?thesis by (force simp: image_image)
qed

lemma objects_for_listed:
  assumes "index = alias_query_index_new paths sets" and "operand_var a = Some v" and "v \<in> ps_variable ` set sets"
    and "\<And>row. row \<in> set sets \<Longrightarrow> ps_status row \<noteq> Pts_BudgetExceeded"
  obtains objs where "objects_for index a = Some (Some objs)"
proof -
  let ?ps = "map (\<lambda>set. (ps_variable set, set)) sets"
  obtain row where "(v, row) \<in> set ?ps" using assms(3) by auto
  then obtain row' where row: "fmlookup (fm_collect ?ps) v = Some row'" using fm_collect_NoneD by fastforce
  then have "row' \<in> set sets" by (auto dest!: fm_collect_SomeD)
  with row assms show thesis by (intro that) (auto simp: objects_for_def alias_query_index_new_def Let_def)
qed

lemma query_decides:
  assumes ok: "list_all (constraint_ok i) cs" and room: "interner_len i + 2 * length cs + length cs * length cs \<le> U32_MAX"
    and ample: "ample cs budget" and run: "output_with_solved_sets sha256 i cs budget = Some (out, j)"
    and vars: "list_all (\<lambda>c. list_all (\<lambda>v. \<not> is_slot_var v) (constraint_vars (pc_kind c))) cs"
    and index: "index = alias_query_index_new paths (po_sets out)"
    and v: "operand_var a = Some v" and w: "operand_var b = Some w"
    and A: "A = {obj. least_pts (pc_kind ` set cs) (VarNode v) obj}" "A \<noteq> {}"
    and B: "B = {obj. least_pts (pc_kind ` set cs) (VarNode w) obj}" "B \<noteq> {}"
    and other: "a \<noteq> b" "\<not> same_access_path index a b" "\<not> common_base_different_projection index a b"
  shows "\<exists>reason precision evidence. classify index a b =
     Some (if A \<inter> B = {} then NoAlias else if \<exists>obj. A = {obj} \<and> B = {obj} then MustAlias else MayAlias,
           reason, precision, evidence)"
proof -
  obtain r where r: "solve_points_to sha256 i cs budget = Some (r, j)" "sr_budget_status r = WithinBudget"
    "points_to_output_normalized j \<lparr> po_constraints = cs, po_sets = sr_sets r \<rparr> = Some out"
    by (rule solved_within [OF ok room ample run])
  note rows = within_rows [OF r] and listed = solved_variable_listed [OF r vars]
  have budget: "\<not> aq_budget_exceeded index"
    using rows(1) by (auto simp: index alias_query_index_new_def Let_def list_ex_iff)
  have "v \<in> ps_variable ` set (po_sets out)" "w \<in> ps_variable ` set (po_sets out)"
    using listed operand_var_not_slot v w A B by blast+
  then obtain l r where objs: "objects_for index a = Some (Some l)" "objects_for index b = Some (Some r)"
    using objects_for_listed [OF index] v w rows(2) by (metis points_to_status.distinct)
  have lr: "fset l = A" "fset r = B"
    unfolding A(1) B(1) using objects_for_exact [OF run vars index budget] objs v w by blast+
  have "classify index a b = Some (classify_objects l r)" using other budget objs by (simp add: classify_def)
  moreover have "fset (l |\<inter>| r) = A \<inter> B" using lr by (simp add: inf_fset.rep_eq)
  then have "l |\<inter>| r = {||} \<longleftrightarrow> A \<inter> B = {}" by (metis bot_fset.rep_eq fset_inject)
  moreover have "fcard l = 1 \<and> l = r \<longleftrightarrow> (\<exists>obj. A = {obj} \<and> B = {obj})"
    using lr by (auto simp: fcard.rep_eq card_1_singleton_iff fset_inject)
  moreover have "l \<noteq> {||}" "r \<noteq> {||}" using lr A(2) B(2) by auto
  ultimately show ?thesis by (auto simp: classify_objects_def)
qed

text \<open>
  with a budget that is large enough for the constraints, two different operands that are not access
  paths of one base and that both point somewhere are answered by their least points-to sets alone:
  \<open>NoAlias\<close> if these are disjoint, \<open>MustAlias\<close> if they are one and the same object, \<open>MayAlias\<close> otherwise.
\<close>

theorem alias_query_decides:
  assumes ok: "list_all (constraint_ok i) cs" and room: "interner_len i + 2 * length cs + length cs * length cs \<le> U32_MAX"
    and ample: "ample cs budget" and run: "output_with_solved_sets sha256 i cs budget = Some (out, j)"
    and vars: "list_all (\<lambda>c. list_all (\<lambda>v. \<not> is_slot_var v) (constraint_vars (pc_kind c))) cs"
    and index: "index = alias_query_index_new paths (po_sets out)"
    and v: "operand_var a = Some v" and w: "operand_var b = Some w"
    and A: "A = {obj. least_pts (pc_kind ` set cs) (VarNode v) obj}" "A \<noteq> {}"
    and B: "B = {obj. least_pts (pc_kind ` set cs) (VarNode w) obj}" "B \<noteq> {}"
    and other: "a \<noteq> b" "\<not> same_access_path index a b" "\<not> common_base_different_projection index a b"
  shows "\<exists>reason precision evidence. classify index a b =
     Some (if A \<inter> B = {} then NoAlias else if \<exists>obj. A = {obj} \<and> B = {obj} then MustAlias else MayAlias,
           reason, precision, evidence)"
  by (rule query_decides [OF assms])


section \<open>A sample program\<close>

definition sample_path :: "64 word \<Rightarrow> stable_key_id \<Rightarrow> access_path_fact" where
  "sample_path i key =
     \<lparr> ap_id = i, ap_base = i, ap_projections = [], ap_depth = 0, ap_language = Lang_Go, ap_file = None,
       ap_function = None, ap_body = None, ap_status = Aps_Resolved, ap_stable_key = key \<rparr>"

definition sample_paths :: "access_path_fact list" where
  "sample_paths = [sample_path 0 1, sample_path 1 0]"

definition sample_addresses :: "points_to_constraint_fact list" where
  "sample_addresses = [sample_constraint (AddressOf 0x01 0x01), sample_constraint (AddressOf 0x11 0x11)]"

lemma map_of_positions:
  "distinct ks \<Longrightarrow> map_of (zip ks [0..<length ks]) k = Some i \<longleftrightarrow> i < length ks \<and> ks ! i = k"
  by (subst map_of_eq_Some_iff) (auto simp: in_set_zip)

lemma sample_rows_wf: "interner_wf 0 sample_rows"
proof -
  let ?ks = "[''alloc:z'', ''alloc:a'', ''value:z'', ''value:a'']"
  have dist: "distinct ?ks" by simp
  have "[(''alloc:z'', 0 :: nat), (''alloc:a'', 1), (''value:z'', 2), (''value:a'', 3)] = zip ?ks [0..<length ?ks]"
    by (simp add: upt_rec)
  with dist show ?thesis
    unfolding interner_wf_def sample_rows_def interner_state.simps fmlookup_of_list
    by (simp only: map_of_positions) simp
qed

lemma sample_place_vars: "place_var 0 = Some 0x01" "place_var 1 = Some 0x11"
  by (simp_all add: place_var_def tagged_var_def PAYLOAD_MAX_def TAG_BITS_def tag_defs mask_eq_decr_exp)

lemma sample_addresses_ok:
  "list_all (constraint_ok sample_rows) sample_addresses"
  "interner_len sample_rows + 2 * length sample_addresses + length sample_addresses * length sample_addresses \<le> U32_MAX"
  "ample sample_addresses points_to_budget_default"
  "list_all (\<lambda>c. list_all (\<lambda>v. \<not> is_slot_var v) (constraint_vars (pc_kind c))) sample_addresses"
  by (simp_all add: sample_addresses_def sample_constraint_def sample_rows_def constraint_ok_def interner_len_def
      U32_MAX_def ample_def points_to_budget_default_def Let_def is_slot_var_def tag_defs)

lemma sample_least:
  "least_pts (pc_kind ` set sample_addresses) (VarNode v) obj \<longleftrightarrow> v = 0x01 \<and> obj = 0x01 \<or> v = 0x11 \<and> obj = 0x11"
proof
  let ?K = "pc_kind ` set sample_addresses"
  have K: "?K = {AddressOf 0x01 0x01, AddressOf 0x11 0x11}" by (simp add: sample_addresses_def sample_constraint_def)
  show "least_pts ?K (VarNode v) obj \<Longrightarrow> v = 0x01 \<and> obj = 0x01 \<or> v = 0x11 \<and> obj = 0x11"
    by (erule least_pts.cases) (auto simp: K)
  have "least_pts ?K (VarNode v) v" if "AddressOf v v \<in> ?K" for v
    using that by (rule least_pts.origin) simp
  then show "v = 0x01 \<and> obj = 0x01 \<or> v = 0x11 \<and> obj = 0x11 \<Longrightarrow> least_pts ?K (VarNode v) obj"
    by (auto simp: K)
qed

lemma sample_paths_ok: "list_all (access_path_ok sample_rows) sample_paths" "distinct (map ap_id sample_paths)"
  by (simp_all add: sample_paths_def sample_path_def access_path_ok_def key_ok_def interner_len_def sample_rows_def
      place_var_def access_path_var_def tagged_var_def PAYLOAD_MAX_def TAG_BITS_def mask_eq_decr_exp)

lemma sample_solution:
  obtains out j where
    "output_with_solved_sets (\<lambda>_. []) sample_rows sample_addresses points_to_budget_default = Some (out, j)"
    "interner_wf 0 j" "list_all (access_path_ok j) sample_paths" "interner_len j + 64 \<le> U32_MAX"
proof -
  obtain out j where run: "output_with_solved_sets (\<lambda>_. []) sample_rows sample_addresses points_to_budget_default = Some (out, j)"
    and g: "grew (2 * length sample_addresses + length sample_addresses * length sample_addresses) sample_rows j"
    using solved_output_runs [OF sample_rows_wf sample_addresses_ok(1,2)] by blast
  have "list_all (access_path_ok j) sample_paths"
    using sample_paths_ok(1) access_path_ok_grows g by (auto simp: list_all_iff grew_def)
  moreover have "interner_len j + 64 \<le> U32_MAX"
    using g by (simp add: grew_def sample_addresses_def sample_rows_def interner_len_def U32_MAX_def)
  ultimately show thesis using that [OF run] g grows_wf(1) by (auto simp: grew_def)
qed

lemma sample_decided:
  assumes "output_with_solved_sets (\<lambda>_. []) sample_rows sample_addresses points_to_budget_default = Some (out, j)"
    and "(a, b) = (Op_Place 0, Op_Place 1) \<or> (a, b) = (Op_Place 1, Op_Place 0)"
  shows "\<exists>reason precision evidence. classify (alias_query_index_new sample_paths (po_sets out)) a b =
     Some (NoAlias, reason, precision, evidence)"
proof -
  let ?S = "\<lambda>v. {obj. least_pts (pc_kind ` set sample_addresses) (VarNode v) obj}"
  from assms(2) obtain v w where vw: "operand_var a = Some v" "operand_var b = Some w" "?S v \<noteq> {}" "?S w \<noteq> {}" "?S v \<inter> ?S w = {}"
    by (auto simp: sample_place_vars sample_least)
  from query_decides [OF sample_addresses_ok(1,2,3) assms(1) sample_addresses_ok(4) refl vw(1,2) refl vw(3) refl vw(4)] vw(5) assms(2)
  show ?thesis by auto
qed

lemma pair_listed:
  "a \<in> set ops \<Longrightarrow> b \<in> set ops \<Longrightarrow> (a, b) \<in> set (operand_pairs ops) \<or> (b, a) \<in> set (operand_pairs ops)"
  by (induction ops) auto

lemma length_operand_pairs: "2 * length (operand_pairs ops) = length ops * Suc (length ops)"
  by (induction ops) simp_all

lemma length_vec_dedup: "length (vec_dedup xs) \<le> length xs"
  by (induction xs rule: vec_dedup.induct) auto

lemma sample_answer:
  obtains out j aliases k a where
    "output_with_solved_sets (\<lambda>_. []) sample_rows sample_addresses points_to_budget_default = Some (out, j)"
    "derive_alias_answers (\<lambda>_. []) j sample_paths (po_sets out) = Some (aliases, k)"
    "a \<in> set (al_answers aliases)" "aa_status a = NoAlias"
    "(aa_left a, aa_right a) = (Op_Place 0, Op_Place 1) \<or> (aa_left a, aa_right a) = (Op_Place 1, Op_Place 0)"
proof -
  obtain out j where run: "output_with_solved_sets (\<lambda>_. []) sample_rows sample_addresses points_to_budget_default = Some (out, j)"
    and j: "interner_wf 0 j" "list_all (access_path_ok j) sample_paths" "interner_len j + 64 \<le> U32_MAX"
    by (rule sample_solution)
  let ?index = "alias_query_index_new sample_paths (po_sets out)"
  obtain aliases k where aliases: "derive_alias_answers (\<lambda>_. []) j sample_paths (po_sets out) = Some (aliases, k)"
    using derive_aliases_run [OF j(1,2) sample_paths_ok(2) j(3)] by blast
  obtain ops where ops: "sort_operands ?index j (alias_operands sample_paths) = Some ops"
    and answers: "mset (map summary (al_answers aliases)) = mset (expected_answers ?index (operand_pairs (vec_dedup ops)))"
    using derived_answers [OF aliases refl] by blast
  let ?ps = "operand_pairs (vec_dedup ops)"
  have "set ops = set (alias_operands sample_paths)" "length ops = 4"
    using ops by (auto simp: sort_operands_by_identity alias_operands_def sample_paths_def split: if_splits)
  then have "Op_Place 0 \<in> set (vec_dedup ops)" "Op_Place 1 \<in> set (vec_dedup ops)" "length (vec_dedup ops) \<le> 4"
    using length_vec_dedup [of ops] by (simp_all add: alias_operands_def sample_paths_def sample_path_def)
  then obtain a b where ab: "(a, b) = (Op_Place 0, Op_Place 1) \<or> (a, b) = (Op_Place 1, Op_Place 0)" "(a, b) \<in> set ?ps"
    using pair_listed [of "Op_Place 0" "vec_dedup ops" "Op_Place 1"] by blast
  have "2 * length ?ps \<le> 4 * Suc 4"
    unfolding length_operand_pairs using \<open>length (vec_dedup ops) \<le> 4\<close> by (intro mult_le_mono) simp_all
  then have "expected_answers ?index ?ps = map (classified ?index) ?ps"
    by (simp add: expected_answers_def MAX_PROVIDER_STACK_PAIRS_def)
  then have "classified ?index (a, b) \<in> summary ` set (al_answers aliases)"
    using mset_eq_setD [OF answers] ab(2) by simp
  then obtain row where row: "row \<in> set (al_answers aliases)" "summary row = classified ?index (a, b)" by auto
  moreover have "fst (snd (classified ?index (a, b))) = NoAlias" "fst (classified ?index (a, b)) = (a, b)"
    using sample_decided [OF run ab(1)] by (auto simp: classified_def)
  ultimately have "aa_status row = NoAlias" "(aa_left row, aa_right row) = (a, b)"
    unfolding summary_def by (metis fst_conv snd_conv)+
  with that [OF run aliases row(1)] ab(1) show thesis by simp
qed

theorem alias_answers_sound_witness:
  "\<exists>out j aliases k a v w.
     output_with_solved_sets (\<lambda>_. []) sample_rows sample_addresses points_to_budget_default = Some (out, j) \<and>
     derive_alias_answers (\<lambda>_. []) j sample_paths (po_sets out) = Some (aliases, k) \<and>
     a \<in> set (al_answers aliases) \<and> aa_status a = NoAlias \<and>
     operand_var (aa_left a) = Some v \<and> operand_var (aa_right a) = Some w \<and>
     (\<nexists>obj. least_pts (pc_kind ` set sample_addresses) (VarNode v) obj \<and>
           least_pts (pc_kind ` set sample_addresses) (VarNode w) obj)"
proof -
  obtain out j aliases k a where a:
    "output_with_solved_sets (\<lambda>_. []) sample_rows sample_addresses points_to_budget_default = Some (out, j)"
    "derive_alias_answers (\<lambda>_. []) j sample_paths (po_sets out) = Some (aliases, k)"
    "a \<in> set (al_answers aliases)" "aa_status a = NoAlias"
    "(aa_left a, aa_right a) = (Op_Place 0, Op_Place 1) \<or> (aa_left a, aa_right a) = (Op_Place 1, Op_Place 0)"
    by (rule sample_answer)
  obtain v w where vw: "operand_var (aa_left a) = Some v" "operand_var (aa_right a) = Some w"
    using a(5) by (auto simp: sample_place_vars)
  from alias_answers_sound [OF a(1) sample_addresses_ok(4) a(2,3) vw refl] a vw show ?thesis by blast
qed

theorem alias_pairs_answered_witness:
  "\<exists>out j aliases k.
     output_with_solved_sets (\<lambda>_. []) sample_rows sample_addresses points_to_budget_default = Some (out, j) \<and>
     derive_alias_answers (\<lambda>_. []) j sample_paths (po_sets out) = Some (aliases, k) \<and>
     al_answers aliases \<noteq> [] \<and> length (al_answers aliases) \<le> 65 \<and>
     map aa_id (al_answers aliases) = [0..<length (al_answers aliases)]"
proof -
  obtain out j aliases k a where a:
    "output_with_solved_sets (\<lambda>_. []) sample_rows sample_addresses points_to_budget_default = Some (out, j)"
    "derive_alias_answers (\<lambda>_. []) j sample_paths (po_sets out) = Some (aliases, k)"
    "a \<in> set (al_answers aliases)"
    by (rule sample_answer)
  have "al_answers aliases \<noteq> []" using a(3) by auto
  with alias_pairs_answered [OF a(2) refl refl] a(1,2) show ?thesis by blast
qed

theorem alias_query_decides_witness:
  "\<exists>out j reason precision evidence.
     output_with_solved_sets (\<lambda>_. []) sample_rows sample_addresses points_to_budget_default = Some (out, j) \<and>
     classify (alias_query_index_new sample_paths (po_sets out)) (Op_Place 0) (Op_Place 1) =
       Some (NoAlias, reason, precision, evidence)"
proof -
  obtain out j where run: "output_with_solved_sets (\<lambda>_. []) sample_rows sample_addresses points_to_budget_default = Some (out, j)"
    by (rule sample_solution)
  let ?S = "\<lambda>v. {obj. least_pts (pc_kind ` set sample_addresses) (VarNode v) obj}"
  have "?S 0x01 \<noteq> {}" "?S 0x11 \<noteq> {}" "?S 0x01 \<inter> ?S 0x11 = {}" by (auto simp: sample_least)
  moreover have "operand_var (Op_Place 0) = Some 0x01" "operand_var (Op_Place 1) = Some 0x11" by (simp_all add: sample_place_vars)
  ultimately show ?thesis
    using alias_query_decides [OF sample_addresses_ok(1,2,3) run sample_addresses_ok(4) refl _ _ refl _ refl,
        where a = "Op_Place 0" and b = "Op_Place 1" and paths = sample_paths] run by auto
qed


section \<open>The stage on the sample\<close>

definition sample_assigned :: value_output where
  "sample_assigned =
     \<lparr> vo_values = [(sample_value 0 0 2) \<lparr> vf_subject := Vs_Place 0 \<rparr>], vo_allocations = [sample_allocation 0 1] \<rparr>"

definition sample_stage :: type_value_alias_output where
  "sample_stage =
     \<lparr> tva_types = \<lparr> to_types = [], to_narrowed = [] \<rparr>, tva_values = sample_assigned,
       tva_access_paths = \<lparr> ao_access_paths = sample_paths \<rparr>,
       tva_points_to = \<lparr> po_constraints = [], po_sets = [] \<rparr>, tva_aliases = \<lparr> al_answers = [] \<rparr> \<rparr>"

lemma sample_object: "allocation_object 0 = Some 0x01"
  by (simp add: allocation_object_def tagged_object_def PAYLOAD_MAX_def TAG_BITS_def tag_defs)

lemma sample_assigned_ok:
  "list_all (value_ok sample_rows) (vo_values sample_assigned)"
  "list_all (allocation_ok sample_rows) (vo_allocations sample_assigned)"
  by (simp_all add: sample_assigned_def sample_value_def sample_allocation_def value_ok_def allocation_ok_def key_ok_def
      interner_len_def sample_rows_def sample_place_vars sample_object)

lemma sample_stage_normal: "type_value_alias_normalized sample_rows sample_stage = Some sample_stage"
  by (simp add: sample_stage_def sample_assigned_def sample_paths_def sample_path_def output_normalized_defs
      sort_rows_def resolve_def sample_rows_def sample_value_def sample_allocation_def renumber_rows_def
      allocation_remap_def fm_collect_def remap_value_allocation_refs_def fm_get_or_def less_eq_char_def
      less_char_def Let_def type_set_remap_def)

lemma sample_stage_ok:
  "stage_ok sample_rows sample_stage" "stage_constraints sample_stage = 3" "fits sample_stage"
proof -
  show "stage_ok sample_rows sample_stage"
    using sample_rows_wf sample_assigned_ok sample_paths_ok by (simp add: stage_ok_def sample_stage_def)
  show "stage_constraints sample_stage = 3" "fits sample_stage"
    by (simp_all add: stage_constraints_def constraint_bound_def sample_stage_def sample_assigned_def sample_paths_def
        sample_path_def fits_def)
qed

theorem relations_stage_returns_witness:
  "\<exists>out' j. derive_relations (\<lambda>_. []) sample_rows sample_stage = Some (out', j) \<and> tva_values out' = sample_assigned"
proof -
  have "interner_len sample_rows + 3 * 3 + 3 * 3 + 64 \<le> U32_MAX" by (simp add: sample_rows_def interner_len_def U32_MAX_def)
  from relations_stage_returns [OF sample_stage_ok(1) sample_stage_ok(2) [symmetric] this sample_stage_normal sample_stage_ok(3)]
  obtain out' j where "derive_relations (\<lambda>_. []) sample_rows sample_stage = Some (out', j)"
    "tva_values out' = tva_values sample_stage" by blast
  then show ?thesis by (simp add: sample_stage_def)
qed

lemma sample_derived:
  obtains row j where
    "derive_points_to_constraints (\<lambda>_. []) sample_rows sample_assigned \<lparr> ao_access_paths = [] \<rparr> = Some ([row], j)"
    "pc_kind row = AddressOf 0x01 0x01" "constraint_ok j row" "interner_len j \<le> 5"
proof -
  have room: "interner_len sample_rows \<le> U32_MAX" by (simp add: sample_rows_def interner_len_def U32_MAX_def)
  have resolve: "resolve sample_rows 2 = Some ''value:z''" by (simp add: resolve_def sample_rows_def)
  obtain k j where key: "constraint_stable_key (\<lambda>_. []) ''value:z'' ''value_object'' sample_rows = Some (k, j)"
    "grew 1 sample_rows j" "key_ok j k"
    unfolding constraint_stable_key_def by (rule stable_key_runs [OF sample_rows_wf room])
  let ?row = "\<lparr> pc_id = 0, pc_kind = AddressOf 0x01 0x01, pc_status = Pts_Present, pc_precision = Ptp_FlowInsensitive,
     pc_stable_key = k \<rparr>"
  have "derive_points_to_constraints (\<lambda>_. []) sample_rows sample_assigned \<lparr> ao_access_paths = [] \<rparr> = Some ([?row], j)"
    by (simp add: derive_points_to_constraints_def collect_values_def collect_allocations_def collect_access_paths_def
        collect_value_def collect_kind_def collect_allocation_def push_address_def push_constraint_def finish_constraints_def
        sample_assigned_def sample_value_def sample_allocation_def sample_place_vars sample_object resolve key(1)
        sort_rows_def renumber_rows_def)
  moreover have "interner_len j \<le> 5" using key(2) by (simp add: grew_def sample_rows_def interner_len_def)
  ultimately show thesis using that [of ?row j] key(3) by (simp add: constraint_ok_def key_ok_def)
qed

theorem derived_points_to_is_copy_closure_witness:
  "\<exists>rows j r k.
     derive_points_to_constraints (\<lambda>_. []) sample_rows sample_assigned \<lparr> ao_access_paths = [] \<rparr> = Some (rows, j) \<and>
     solve_points_to (\<lambda>_. []) j rows points_to_budget_default = Some (r, k) \<and> 0x01 \<in> result_objects r 0x01"
proof -
  obtain row j where derive:
    "derive_points_to_constraints (\<lambda>_. []) sample_rows sample_assigned \<lparr> ao_access_paths = [] \<rparr> = Some ([row], j)"
    and row: "pc_kind row = AddressOf 0x01 0x01" "constraint_ok j row" "interner_len j \<le> 5" by (rule sample_derived)
  have "ample [row] points_to_budget_default" "interner_len j + 2 * length [row] + length [row] * length [row] \<le> U32_MAX"
    using row(3) by (simp_all add: ample_def points_to_budget_default_def Let_def U32_MAX_def)
  then obtain r k where run: "solve_points_to (\<lambda>_. []) j [row] points_to_budget_default = Some (r, k)"
    "sr_budget_status r = WithinBudget"
    using solver_total [of j "[row]" "\<lambda>_. []" points_to_budget_default] row(2) by auto
  have "\<not> is_slot_var 0x01" by (simp add: is_slot_var_def tag_defs)
  from derived_points_to_is_copy_closure [OF derive _ run this, of "0x01"] row(1) have "0x01 \<in> result_objects r 0x01"
    by (auto simp: origins_def)
  with derive run(1) show ?thesis by blast
qed

end
