(* ===== verification/Tarjan.thy ===== *)
theory Tarjan
  imports Prelude
begin

text \<open>
  Tarjan's strongly connected components, as written in \<open>analysis_neutral/demand/scc.rs\<close>: one loop over an
  explicit stack of frames, with \<open>node_index\<close>, \<open>lowlink\<close> and \<open>on_stack\<close> as vectors. Both stacks are kept with
  their top first. The sentinel \<open>usize::MAX\<close> of \<open>node_index\<close>, which no index reaches because a vector has
  fewer elements, is \<open>None\<close>. An index out of range and an empty stack at \<open>expect\<close> are panics: the function
  returns \<open>None\<close>. It is total, and on a graph whose edges stay within its nodes it returns the components
  in the order in which callees precede callers.
\<close>

section \<open>State and loop\<close>

record frame =
  fr_node :: nat
  fr_next :: nat

record tarjan_state =
  index_counter :: nat
  stack :: "nat list"
  on_stack :: "bool list"
  node_index :: "nat option list"
  lowlink :: "nat list"
  result :: "nat list list"

definition tarjan_init :: "nat \<Rightarrow> tarjan_state" where
  "tarjan_init count =
     \<lparr> index_counter = 0, stack = [], on_stack = replicate count False, node_index = replicate count None,
       lowlink = replicate count 0, result = [] \<rparr>"

text \<open>The initialisation of a root and of an unvisited neighbour.\<close>

definition visit_node :: "nat \<Rightarrow> tarjan_state \<Rightarrow> tarjan_state" where
  "visit_node node st = st \<lparr>
     node_index := (node_index st)[node := Some (index_counter st)],
     lowlink := (lowlink st)[node := index_counter st],
     index_counter := index_counter st + 1,
     stack := node # stack st,
     on_stack := (on_stack st)[node := True] \<rparr>"

definition lower :: "nat \<Rightarrow> nat \<Rightarrow> tarjan_state \<Rightarrow> tarjan_state" where
  "lower node limit st = st \<lparr> lowlink := (lowlink st)[node := min (lowlink st ! node) limit] \<rparr>"

text \<open>The loop that pops a component.\<close>

fun pop_until :: "nat \<Rightarrow> nat list \<Rightarrow> bool list \<Rightarrow> nat list \<Rightarrow> (nat list \<times> bool list \<times> nat list) option" where
  "pop_until node [] flags component = None"
| "pop_until node (popped # rest) flags component =
     (let flags' = flags[popped := False]; component' = component @ [popped]
      in if popped = node then Some (rest, flags', component') else pop_until node rest flags' component')"

definition pop_component :: "nat \<Rightarrow> tarjan_state \<Rightarrow> tarjan_state option" where
  "pop_component node st =
     map_option (\<lambda>(rest, flags, component).
       st \<lparr> stack := rest, on_stack := flags, result := result st @ [sort component] \<rparr>)
     (pop_until node (stack st) (on_stack st) [])"

definition finish_node :: "nat \<Rightarrow> frame list \<Rightarrow> tarjan_state \<Rightarrow> tarjan_state option" where
  "finish_node node frames st =
     (let finished_lowlink = lowlink st ! node;
          st' = (case frames of [] \<Rightarrow> st | parent # _ \<Rightarrow> lower (fr_node parent) finished_lowlink st)
      in if Some finished_lowlink = node_index st ! node then pop_component node st' else Some st')"

text \<open>One iteration, on a call stack that is not empty.\<close>

fun tarjan_step :: "nat list list \<Rightarrow> frame list \<times> tarjan_state \<Rightarrow> (frame list \<times> tarjan_state) option" where
  "tarjan_step adjacency ([], st) = None"
| "tarjan_step adjacency (frame # frames, st) =
     (let node = fr_node frame in
      if node \<ge> length adjacency then None
      else if fr_next frame < length (adjacency ! node) then
        (let neighbor = adjacency ! node ! fr_next frame;
             frames' = frame \<lparr> fr_next := fr_next frame + 1 \<rparr> # frames
         in if neighbor \<ge> length (node_index st) then None
            else if node_index st ! neighbor = None
            then Some (\<lparr> fr_node = neighbor, fr_next = 0 \<rparr> # frames', visit_node neighbor st)
            else if on_stack st ! neighbor
            then Some (frames', lower node (the (node_index st ! neighbor)) st)
            else Some (frames', st))
      else map_option (Pair frames) (finish_node node frames st))"

definition unvisited :: "tarjan_state \<Rightarrow> nat set" where
  "unvisited st = {v. v < length (node_index st) \<and> node_index st ! v = None}"

definition remaining :: "nat list list \<Rightarrow> frame list \<Rightarrow> nat" where
  "remaining adjacency frames = sum_list (map (\<lambda>f. length (adjacency ! fr_node f) - fr_next f) frames)"

lemma finite_unvisited [simp]: "finite (unvisited st)"
  by (simp add: unvisited_def)

lemma unvisited_visit:
  "node_index st ! v = None \<Longrightarrow> v < length (node_index st) \<Longrightarrow> card (unvisited (visit_node v st)) < card (unvisited st)"
  by (rule psubset_card_mono) (auto simp: unvisited_def visit_node_def nth_list_update)

lemma unvisited_finish: "finish_node node frames st = Some st' \<Longrightarrow> unvisited st' = unvisited st"
  by (auto simp: finish_node_def pop_component_def lower_def unvisited_def Let_def split: list.splits if_splits)

text \<open>Every iteration visits a node, passes an edge or pops a frame.\<close>

lemma tarjan_step_decreases:
  assumes "tarjan_step adjacency (cs, st) = Some (cs', st')"
  shows "card (unvisited st') < card (unvisited st) \<or> unvisited st' = unvisited st \<and>
    (remaining adjacency cs' < remaining adjacency cs \<or>
     remaining adjacency cs' = remaining adjacency cs \<and> length cs' < length cs)"
proof (cases cs)
  case (Cons f fs)
  show ?thesis
  proof (cases "fr_next f < length (adjacency ! fr_node f)")
    case True
    then have "remaining adjacency (f \<lparr> fr_next := fr_next f + 1 \<rparr> # fs) < remaining adjacency cs"
      by (simp add: remaining_def Cons)
    with assms True unvisited_visit show ?thesis
      by (auto simp: Cons Let_def lower_def unvisited_def split: if_splits)
  next
    case False
    then show ?thesis using assms unvisited_finish by (auto simp: Cons Let_def remaining_def split: if_splits)
  qed
qed (use assms in simp)

function tarjan_loop :: "nat list list \<Rightarrow> frame list \<times> tarjan_state \<Rightarrow> tarjan_state option" where
  "tarjan_loop adjacency (cs, st) =
     (if cs = [] then Some st
      else case tarjan_step adjacency (cs, st) of
        None \<Rightarrow> None
      | Some next \<Rightarrow> tarjan_loop adjacency next)"
  by pat_completeness auto

termination
proof (relation "inv_image (less_than <*lex*> less_than <*lex*> less_than)
    (\<lambda>(adjacency, cs, st). (card (unvisited st), remaining adjacency cs, length cs))", goal_cases)
  case (2 adjacency cs st s)
  obtain cs' st' where "s = (cs', st')" by (cases s)
  with tarjan_step_decreases [of adjacency cs st cs' st'] 2 show ?case by auto
qed (auto intro: wf_inv_image)

declare tarjan_loop.simps [simp del]

definition tarjan_root :: "nat list list \<Rightarrow> nat \<Rightarrow> tarjan_state \<Rightarrow> tarjan_state option" where
  "tarjan_root adjacency root st =
     (if root \<ge> length (node_index st) then None
      else if node_index st ! root \<noteq> None then Some st
      else tarjan_loop adjacency ([\<lparr> fr_node = root, fr_next = 0 \<rparr>], visit_node root st))"

definition tarjan_scc :: "nat \<Rightarrow> nat list list \<Rightarrow> nat list list option" where
  "tarjan_scc count adjacency =
     map_option result (try_fold (tarjan_root adjacency) [0..<count] (tarjan_init count))"

end
