(* ===== verification/Tarjan_Correct.thy ===== *)
theory Tarjan_Correct
  imports Tarjan
begin

text \<open>
  Correctness of the component search. The invariant is stated over the numbering \<open>N\<close> and the lowlinks as
  functions, the stack \<open>S\<close>, the active frames and the components found so far: each of the steps of the
  loop (visiting a neighbour, passing an edge, leaving a node, popping a component) is one lemma.
\<close>

section \<open>The graph and the invariant\<close>

definition edge :: "nat list list \<Rightarrow> nat \<Rightarrow> nat \<Rightarrow> bool" where
  "edge adj u v \<longleftrightarrow> u < length adj \<and> v \<in> set (adj ! u)"

abbreviation reach :: "nat list list \<Rightarrow> nat \<Rightarrow> nat \<Rightarrow> bool" where
  "reach adj \<equiv> (edge adj)\<^sup>*\<^sup>*"

definition graph_ok :: "nat list list \<Rightarrow> bool" where
  "graph_ok adj \<longleftrightarrow> list_all (list_all (\<lambda>v. v < length adj)) adj"

lemma edge_in_range: "graph_ok adj \<Longrightarrow> edge adj u v \<Longrightarrow> v < length adj"
  by (auto simp: graph_ok_def edge_def list_all_iff)

lemma closed_reach:
  assumes "reach adj u v" and "u \<in> A" and "\<And>x y. x \<in> A \<Longrightarrow> edge adj x y \<Longrightarrow> y \<in> A"
  shows "v \<in> A"
  using assms by (induction rule: rtranclp_induct) auto

text \<open>The edges the search has passed: all of a node that was left, the first ones of an active node.\<close>

definition passed :: "nat list list \<Rightarrow> frame list \<Rightarrow> nat \<Rightarrow> nat \<Rightarrow> bool" where
  "passed adj cs v w \<longleftrightarrow> edge adj v w \<and> (\<forall>f \<in> set cs. fr_node f = v \<longrightarrow> w \<in> set (take (fr_next f) (adj ! v)))"

abbreviation nodes :: "frame list \<Rightarrow> nat list" where
  "nodes cs \<equiv> map fr_node cs"

abbreviation finished :: "nat list list \<Rightarrow> nat set" where
  "finished R \<equiv> set (concat R)"

definition shape :: "nat \<Rightarrow> (nat \<Rightarrow> nat) \<Rightarrow> nat \<Rightarrow> nat list \<Rightarrow> nat list \<Rightarrow> nat list list \<Rightarrow> bool" where
  "shape n N c S G R \<longleftrightarrow>
     sorted_wrt (\<lambda>u v. N v < N u) S \<and> (\<forall>v \<in> set S. v < n \<and> N v < c) \<and> set S \<inter> finished R = {} \<and>
     finished R \<subseteq> {..<n} \<and> distinct (concat R) \<and> set G \<subseteq> set S \<and> sorted_wrt (\<lambda>u v. N v < N u) G"

text \<open>Every node of the stack reaches an active node below it, and is reached by the active nodes below it.\<close>

definition linked_stack :: "nat list list \<Rightarrow> (nat \<Rightarrow> nat) \<Rightarrow> nat list \<Rightarrow> nat list \<Rightarrow> bool" where
  "linked_stack adj N S G \<longleftrightarrow>
     (\<forall>v \<in> set S. \<exists>g \<in> set G. N g \<le> N v \<and> reach adj v g) \<and>
     (\<forall>g \<in> set G. \<forall>v \<in> set S. N g \<le> N v \<longrightarrow> reach adj g v)"

definition low_sound :: "nat list list \<Rightarrow> (nat \<Rightarrow> nat) \<Rightarrow> (nat \<Rightarrow> nat) \<Rightarrow> nat list \<Rightarrow> nat list \<Rightarrow> bool" where
  "low_sound adj N low S G \<longleftrightarrow>
     (\<forall>g \<in> set G. low g \<le> N g \<and> (\<exists>w \<in> set S. low g = N w \<and> reach adj g w))"

text \<open>The active node a node of the stack belongs to: the highest one below it.\<close>

definition belongs :: "(nat \<Rightarrow> nat) \<Rightarrow> nat list \<Rightarrow> nat \<Rightarrow> nat \<Rightarrow> bool" where
  "belongs N G g x \<longleftrightarrow> g \<in> set G \<and> N g \<le> N x \<and> (\<forall>h \<in> set G. N h \<le> N x \<longrightarrow> N h \<le> N g)"

definition low_complete :: "nat list list \<Rightarrow> (nat \<Rightarrow> nat) \<Rightarrow> (nat \<Rightarrow> nat) \<Rightarrow> nat list \<Rightarrow> frame list \<Rightarrow> bool" where
  "low_complete adj N low S cs \<longleftrightarrow>
     (\<forall>x \<in> set S. \<forall>w \<in> set S. \<forall>g. passed adj cs x w \<longrightarrow> belongs N (nodes cs) g x \<longrightarrow> low g \<le> N w)"

definition seen :: "nat list list \<Rightarrow> nat list \<Rightarrow> frame list \<Rightarrow> nat list list \<Rightarrow> bool" where
  "seen adj S cs R \<longleftrightarrow> (\<forall>v \<in> set S \<union> finished R. \<forall>w. passed adj cs v w \<longrightarrow> w \<in> set S \<union> finished R)"

definition component :: "nat list list \<Rightarrow> nat list \<Rightarrow> bool" where
  "component adj C \<longleftrightarrow> C \<noteq> [] \<and> sorted C \<and> (\<forall>u \<in> set C. \<forall>v. v \<in> set C \<longleftrightarrow> reach adj u v \<and> reach adj v u)"

text \<open>The components found so far, each closed under edges together with its predecessors.\<close>

definition components_ok :: "nat list list \<Rightarrow> nat list list \<Rightarrow> bool" where
  "components_ok adj R \<longleftrightarrow> list_all (component adj) R \<and>
     (\<forall>k u w. u \<in> finished (take k R) \<longrightarrow> edge adj u w \<longrightarrow> w \<in> finished (take k R))"

definition search_ok ::
  "nat list list \<Rightarrow> (nat \<Rightarrow> nat) \<Rightarrow> nat \<Rightarrow> (nat \<Rightarrow> nat) \<Rightarrow> nat list \<Rightarrow> frame list \<Rightarrow> nat list list \<Rightarrow> bool" where
  "search_ok adj N c low S cs R \<longleftrightarrow>
     shape (length adj) N c S (nodes cs) R \<and> linked_stack adj N S (nodes cs) \<and> low_sound adj N low S (nodes cs) \<and>
     low_complete adj N low S cs \<and> seen adj S cs R \<and> components_ok adj R"


section \<open>Numbers and frames\<close>

lemma sorted_num_distinct: "sorted_wrt (\<lambda>u v. N v < (N u :: nat)) S \<Longrightarrow> distinct S"
  by (induction S) auto

lemma sorted_num_inj:
  "sorted_wrt (\<lambda>u v. N v < (N u :: nat)) S \<Longrightarrow> u \<in> set S \<Longrightarrow> v \<in> set S \<Longrightarrow> N u = N v \<Longrightarrow> u = v"
  by (induction S) auto

lemma sorted_below: "sorted_wrt (\<lambda>u v. N v < N u) (g # G) \<Longrightarrow> h \<in> set G \<Longrightarrow> N h < (N g :: nat)"
  by simp

lemma passed_finished_frame:
  "length (adj ! fr_node f) \<le> fr_next f \<Longrightarrow> passed adj (f # cs) = passed adj cs"
  by (auto simp: passed_def edge_def fun_eq_iff)

lemma passed_advance:
  assumes "fr_next f < length (adj ! fr_node f)" and "fr_node f < length adj" and "fr_node f \<notin> set (nodes cs)"
  shows "passed adj (f \<lparr> fr_next := fr_next f + 1 \<rparr> # cs) v w \<longleftrightarrow>
    passed adj (f # cs) v w \<or> v = fr_node f \<and> w = adj ! fr_node f ! fr_next f"
proof -
  have "take (Suc (fr_next f)) (adj ! fr_node f) = take (fr_next f) (adj ! fr_node f) @ [adj ! fr_node f ! fr_next f]"
    using assms(1) by (rule take_Suc_conv_app_nth)
  moreover have "adj ! fr_node f ! fr_next f \<in> set (adj ! fr_node f)" using assms(1) by (rule nth_mem)
  moreover have "fr_node g \<noteq> fr_node f" if "g \<in> set cs" for g
    using assms(3) that by (metis imageI list.set_map)
  ultimately show ?thesis using assms(2) by (auto simp: passed_def edge_def)
qed

text \<open>A new node gets the next number and becomes the highest of the stack.\<close>

lemma sorted_num_push:
  "sorted_wrt (\<lambda>u v. N v < (N u :: nat)) S \<Longrightarrow> w \<notin> set S \<Longrightarrow> (\<And>v. v \<in> set S \<Longrightarrow> N v < c) \<Longrightarrow>
   sorted_wrt (\<lambda>u v. (N(w := c)) v < (N(w := c)) u) (w # S)"
proof -
  assume S: "sorted_wrt (\<lambda>u v. N v < N u) S" "w \<notin> set S" "\<And>v. v \<in> set S \<Longrightarrow> N v < c"
  have "sorted_wrt (\<lambda>u v. (N(w := c)) v < (N(w := c)) u) S" using S(1,2) by (induction S) auto
  moreover have "\<forall>v \<in> set S. (N(w := c)) v < (N(w := c)) w" using S(2,3) by auto
  ultimately show ?thesis by (simp only: sorted_wrt.simps)
qed

lemma belongs_cong: "(\<And>v. v \<in> set (x # G) \<Longrightarrow> N v = M v) \<Longrightarrow> belongs N G g x \<longleftrightarrow> belongs M G g x"
  by (auto simp: belongs_def)

lemma top_belongs:
  "sorted_wrt (\<lambda>u v. N v < (N u :: nat)) (g # G) \<Longrightarrow> N g \<le> N x \<Longrightarrow> belongs N (g # G) h x \<Longrightarrow> h = g"
  by (auto simp: belongs_def)

lemma belongs_below:
  assumes "\<not> N g \<le> N x"
  shows "belongs N (g # G) h x \<longleftrightarrow> belongs N G h x"
  using assms by (auto simp: belongs_def)


section \<open>The steps\<close>

lemma visit_root:
  assumes ok: "search_ok adj N c low [] [] R" and v: "v < length adj" "v \<notin> finished R"
  shows "search_ok adj (N(v := c)) (c + 1) (low(v := c)) [v] [\<lparr> fr_node = v, fr_next = 0 \<rparr>] R"
  using ok v
  by (auto simp: search_ok_def shape_def linked_stack_def low_sound_def low_complete_def seen_def passed_def)

lemma visit_child:
  assumes ok: "search_ok adj N c low S (f # cs) R" and graph: "graph_ok adj"
    and next': "fr_next f < length (adj ! fr_node f)" and w: "w = adj ! fr_node f ! fr_next f"
    and new: "w \<notin> set S" "w \<notin> finished R"
  shows "search_ok adj (N(w := c)) (c + 1) (low(w := c)) (w # S)
    (\<lparr> fr_node = w, fr_next = 0 \<rparr> # f \<lparr> fr_next := fr_next f + 1 \<rparr> # cs) R"
proof -
  let ?N = "N(w := c)" and ?low = "low(w := c)" and ?f = "f \<lparr> fr_next := fr_next f + 1 \<rparr>"
  let ?cs = "\<lparr> fr_node = w, fr_next = 0 \<rparr> # ?f # cs" and ?G = "nodes (f # cs)"
  have shape: "shape (length adj) N c S ?G R" and links: "linked_stack adj N S ?G"
    and sound: "low_sound adj N low S ?G" and complete: "low_complete adj N low S (f # cs)"
    and seen: "seen adj S (f # cs) R" and comps: "components_ok adj R"
    using ok by (simp_all add: search_ok_def)
  have G: "set ?G \<subseteq> set S" "sorted_wrt (\<lambda>u v. N v < N u) ?G" "sorted_wrt (\<lambda>u v. N v < N u) S"
    and bound: "\<And>v. v \<in> set S \<Longrightarrow> v < length adj \<and> N v < c"
    using shape by (simp_all add: shape_def)
  have f: "fr_node f < length adj" "fr_node f \<in> set S" "fr_node f \<notin> set (nodes cs)"
    using G bound by auto
  have edge: "edge adj (fr_node f) w" using f next' by (simp add: edge_def w)
  have num: "?N v = N v" "?low v = low v" if "v \<in> set S" for v using that new by auto
  have w': "w < length adj" by (rule edge_in_range [OF graph edge])
  have passed: "passed adj ?cs x u \<longleftrightarrow> x \<noteq> w \<and> (passed adj (f # cs) x u \<or> x = fr_node f \<and> u = w)" for x u
    using passed_advance [OF next' f(1,3)] new f(2) unfolding w by (auto simp: passed_def)
  have new': "w \<notin> set ?G" "\<And>v. v \<in> set ?G \<Longrightarrow> N v < c" using G(1) new(1) bound by auto
  have "shape (length adj) ?N (c + 1) (w # S) (nodes ?cs) R"
    unfolding shape_def
  proof (intro conjI)
    show "sorted_wrt (\<lambda>u v. ?N v < ?N u) (w # S)" using bound by (intro sorted_num_push [OF G(3) new(1)]) simp
    have "nodes ?cs = w # ?G" by simp
    then show "sorted_wrt (\<lambda>u v. ?N v < ?N u) (nodes ?cs)" using sorted_num_push [OF G(2) new'] by (simp only:)
  qed (use shape w' new bound num in \<open>auto simp: shape_def less_Suc_eq\<close>)
  moreover have "linked_stack adj ?N (w # S) (nodes ?cs)"
  proof -
    have "reach adj g w" if "g \<in> set ?G" for g
    proof -
      have "N g \<le> N (fr_node f)" using that G(2) by auto
      then have "reach adj g (fr_node f)" using links that f(2) by (auto simp: linked_stack_def)
      with edge show ?thesis by (rule rtranclp.rtrancl_into_rtrancl [rotated])
    qed
    moreover have "\<exists>g \<in> set ?G. ?N g \<le> ?N v \<and> reach adj v g" if "v \<in> set S" for v
      using links that num G(1) by (fastforce simp: linked_stack_def)
    moreover have "reach adj g v" if "g \<in> set ?G" "v \<in> set S" "?N g \<le> ?N v" for g v
      using links that num G(1) by (auto simp: linked_stack_def)
    moreover have "\<not> ?N w \<le> ?N v" if "v \<in> set S" for v using bound [OF that] new that by auto
    ultimately show ?thesis unfolding linked_stack_def by auto
  qed
  moreover have "low_sound adj ?N ?low (w # S) (nodes ?cs)"
    using sound num G(1) unfolding low_sound_def by fastforce
  moreover have "low_complete adj ?N ?low (w # S) ?cs"
    unfolding low_complete_def
  proof (intro ballI allI impI)
    fix x u g assume "x \<in> set (w # S)" "u \<in> set (w # S)" "passed adj ?cs x u" and g: "belongs ?N (nodes ?cs) g x"
    then have x: "x \<in> set S" and u: "passed adj (f # cs) x u \<or> u = w" unfolding passed by auto
    have "\<not> ?N w \<le> ?N x" using bound [OF x] x new by auto
    with g have "belongs ?N ?G g x" using belongs_below [of ?N w x ?G g] by simp
    then have "belongs N ?G g x" using belongs_cong [of x ?G ?N N g] num x G(1) by auto
    moreover from this have "g \<in> set S" "low g < c" using G(1) sound bound by (auto simp: belongs_def low_sound_def dest: order.strict_trans1)
    moreover have "u \<in> set S" if "passed adj (f # cs) x u" "u \<noteq> w" using \<open>u \<in> set (w # S)\<close> that by simp
    moreover have "u \<noteq> w" if "passed adj (f # cs) x u" using seen x that new unfolding seen_def by blast
    ultimately show "?low g \<le> ?N u" using u complete x new num by (cases "u = w") (auto simp: low_complete_def)
  qed
  moreover have "seen adj (w # S) ?cs R"
    using seen unfolding seen_def passed by auto
  ultimately show ?thesis using comps by (simp add: search_ok_def)
qed

lemma pass_edge:
  assumes ok: "search_ok adj N c low S (f # cs) R"
    and next': "fr_next f < length (adj ! fr_node f)" and w: "w = adj ! fr_node f ! fr_next f"
    and old: "w \<in> set S \<union> finished R"
    and low': "low' = (if w \<in> set S then low(fr_node f := min (low (fr_node f)) (N w)) else low)"
  shows "search_ok adj N c low' S (f \<lparr> fr_next := fr_next f + 1 \<rparr> # cs) R"
proof -
  let ?f = "f \<lparr> fr_next := fr_next f + 1 \<rparr>" and ?G = "nodes (f # cs)"
  have shape: "shape (length adj) N c S ?G R" and links: "linked_stack adj N S ?G"
    and sound: "low_sound adj N low S ?G" and complete: "low_complete adj N low S (f # cs)"
    and seen: "seen adj S (f # cs) R" and comps: "components_ok adj R"
    using ok by (simp_all add: search_ok_def)
  have G: "set ?G \<subseteq> set S" "sorted_wrt (\<lambda>u v. N v < N u) ?G" and bound: "\<And>v. v \<in> set S \<Longrightarrow> v < length adj \<and> N v < c"
    using shape by (simp_all add: shape_def)
  have f: "fr_node f < length adj" "fr_node f \<in> set S" "fr_node f \<notin> set (nodes cs)" using G bound by auto
  have edge: "edge adj (fr_node f) w" using f next' by (simp add: edge_def w)
  note passed = passed_advance [OF next' f(1,3), folded w]
  have nodes: "nodes (?f # cs) = ?G" by simp
  have le: "low' g \<le> low g" for g by (simp add: low')
  have "low_sound adj N low' S ?G"
  proof -
    have "low' g \<le> N g \<and> (\<exists>u \<in> set S. low' g = N u \<and> reach adj g u)" if "g \<in> set ?G" for g
    proof (cases "low' g = low g")
      case True
      with sound that show ?thesis by (auto simp: low_sound_def)
    next
      case False
      then have "g = fr_node f" "w \<in> set S" "low' g = N w" by (auto simp: low' min_def split: if_splits)
      with edge le [of g] sound that show ?thesis by (auto simp: low_sound_def intro: order.trans)
    qed
    then show ?thesis by (simp add: low_sound_def)
  qed
  moreover have "low_complete adj N low' S (?f # cs)"
    unfolding low_complete_def nodes passed
  proof (intro ballI allI impI)
    fix x u g assume x: "x \<in> set S" "u \<in> set S" and p: "passed adj (f # cs) x u \<or> x = fr_node f \<and> u = w"
      and g: "belongs N ?G g x"
    from p show "low' g \<le> N u"
    proof
      assume "passed adj (f # cs) x u"
      then have "low g \<le> N u" using complete x g by (simp add: low_complete_def)
      with le [of g] show ?thesis by simp
    next
      assume u: "x = fr_node f \<and> u = w"
      then have "g = fr_node f" using top_belongs [of N "fr_node f" "nodes cs" x g] G(2) g by simp
      with u x show ?thesis by (simp add: low')
    qed
  qed
  moreover have "seen adj S (?f # cs) R" using seen old unfolding seen_def passed by blast
  ultimately show ?thesis using shape links comps by (simp add: search_ok_def)
qed

lemma leave_node:
  assumes ok: "search_ok adj N c low S (f # cs) R"
    and fin: "length (adj ! fr_node f) \<le> fr_next f" and low: "low (fr_node f) \<noteq> N (fr_node f)"
  obtains p ps where "cs = p # ps"
    "search_ok adj N c (low(fr_node p := min (low (fr_node p)) (low (fr_node f)))) S cs R"
proof -
  let ?v = "fr_node f" and ?G = "nodes (f # cs)"
  have shape: "shape (length adj) N c S ?G R" and links: "linked_stack adj N S ?G"
    and sound: "low_sound adj N low S ?G" and complete: "low_complete adj N low S (f # cs)"
    and seen: "seen adj S (f # cs) R" and comps: "components_ok adj R"
    using ok by (simp_all add: search_ok_def)
  note passed = passed_finished_frame [OF fin, of cs]
  have G: "set ?G \<subseteq> set S" "sorted_wrt (\<lambda>u v. N v < N u) ?G" using shape by (simp_all add: shape_def)
  have down: "\<exists>g \<in> set ?G. N g \<le> N v \<and> reach adj v g" if "v \<in> set S" for v using links that unfolding linked_stack_def by blast
  obtain w where w: "w \<in> set S" "low ?v = N w" "reach adj ?v w" "N w < N ?v"
    using sound low by (fastforce simp: low_sound_def)
  then obtain g where g: "g \<in> set (nodes cs)" "N g \<le> N w" "reach adj ?v g"
    using down [OF w(1)] by (fastforce intro: rtranclp_trans)
  then obtain p ps where cs: "cs = p # ps" by (cases cs) auto
  let ?low = "low(fr_node p := min (low (fr_node p)) (low ?v))"
  have p: "N (fr_node p) < N ?v" "fr_node p \<in> set S" "\<And>h. h \<in> set (nodes ps) \<Longrightarrow> N h < N (fr_node p)"
    using G by (auto simp: cs)
  have "linked_stack adj N S (nodes cs)"
  proof -
    have "\<exists>h \<in> set (nodes cs). N h \<le> N v \<and> reach adj v h" if v: "v \<in> set S" for v
    proof -
      obtain h where h: "h \<in> set ?G" "N h \<le> N v" "reach adj v h" using down [OF v] by blast
      show ?thesis
      proof (cases "h \<in> set (nodes cs)")
        case False
        with h have "reach adj v g" "N g \<le> N v" using g(2,3) w(4) by (auto intro: rtranclp_trans)
        with g(1) show ?thesis by blast
      qed (use h in blast)
    qed
    then show ?thesis using links by (simp add: linked_stack_def)
  qed
  moreover have "low_sound adj N ?low S (nodes cs)"
  proof -
    have "reach adj (fr_node p) ?v" using links p G(1) by (auto simp: linked_stack_def cs)
    then have "reach adj (fr_node p) w" using w(3) by (rule rtranclp_trans)
    with w sound p show ?thesis unfolding low_sound_def cs by (auto simp: min_def)
  qed
  moreover have "low_complete adj N ?low S cs"
    unfolding low_complete_def
  proof (intro ballI allI impI)
    fix x u g assume x: "x \<in> set S" "u \<in> set S" "passed adj cs x u" and g: "belongs N (nodes cs) g x"
    have old: "low h \<le> N u" if "belongs N ?G h x" for h using complete x that by (simp add: low_complete_def passed)
    show "?low g \<le> N u"
    proof (cases "N ?v \<le> N x")
      case True
      then have "belongs N ?G ?v x" using G(2) by (auto simp: belongs_def)
      moreover have "g = fr_node p" using top_belongs [of N "fr_node p" "nodes ps" x g] G(2) g True p(1) by (simp add: cs)
      ultimately show ?thesis using old [of ?v] by simp
    next
      case False
      then have "belongs N ?G g x" using belongs_below [of N ?v x "nodes cs" g] g by simp
      then show ?thesis using old [of g] by (auto simp: min_le_iff_disj)
    qed
  qed
  moreover have "seen adj S cs R" using seen by (simp add: seen_def passed)
  moreover have "shape (length adj) N c S (nodes cs) R" using shape by (simp add: shape_def)
  ultimately have "search_ok adj N c ?low S cs R" using comps by (simp add: search_ok_def)
  with cs show thesis by (rule that)
qed

text \<open>The nodes above a finished root are a component: no passed edge leaves it downwards.\<close>

lemma pop_root:
  assumes ok: "search_ok adj N c low S (f # cs) R" and fin: "length (adj ! fr_node f) \<le> fr_next f"
    and low: "low (fr_node f) = N (fr_node f)" and S: "S = xs @ fr_node f # rest" and C: "C = sort (xs @ [fr_node f])"
  shows "search_ok adj N c low rest cs (R @ [C])" and "p \<in> set (nodes cs) \<Longrightarrow> low p \<le> low (fr_node f)"
proof -
  let ?v = "fr_node f" and ?G = "nodes (f # cs)"
  have shape: "shape (length adj) N c S ?G R" and links: "linked_stack adj N S ?G"
    and sound: "low_sound adj N low S ?G" and complete: "low_complete adj N low S (f # cs)"
    and seen: "seen adj S (f # cs) R" and comps: "components_ok adj R"
    using ok by (simp_all add: search_ok_def)
  note passed = passed_finished_frame [OF fin, of cs]
  have G: "set ?G \<subseteq> set S" "sorted_wrt (\<lambda>u v. N v < N u) ?G" "sorted_wrt (\<lambda>u v. N v < N u) S"
    and bound: "\<And>v. v \<in> set S \<Longrightarrow> v < length adj \<and> N v < c" and disj: "set S \<inter> finished R = {}"
    using shape by (simp_all add: shape_def)
  have setC: "set C = set xs \<union> {?v}" by (simp add: C)
  have above: "N ?v \<le> N x" if "x \<in> set C" for x using G(3) that unfolding S setC by (auto simp: sorted_wrt_append)
  have below: "N x < N ?v" if "x \<in> set rest" for x using G(3) that unfolding S by (auto simp: sorted_wrt_append)
  have active: "g \<in> set rest" "N g < N ?v" if "g \<in> set (nodes cs)" for g
  proof -
    show "N g < N ?v" using G(2) that by auto
    then show "g \<in> set rest" using G(1) that above [of g] unfolding S setC by fastforce
  qed
  have closedR: "w \<in> finished R" if "u \<in> finished R" "edge adj u w" for u w
    using comps that unfolding components_ok_def by (metis order_refl take_all)
  have closed: "w \<in> set C \<union> finished R" if "u \<in> set C \<union> finished R" "edge adj u w" for u w
  proof (cases "u \<in> set C")
    case True
    then have u: "u \<in> set S" "belongs N ?G ?v u" using above G(2) by (auto simp: S setC belongs_def)
    have "u \<notin> set (nodes cs)" using active [of u] above [OF True] by fastforce
    then have p: "passed adj (f # cs) u w" using that(2) unfolding passed by (auto simp: passed_def)
    show ?thesis
    proof (cases "w \<in> set S")
      case True
      then have "N ?v \<le> N w" using complete u p low unfolding low_complete_def by metis
      with True below [of w] show ?thesis by (auto simp: S setC)
    qed (use seen u(1) p in \<open>auto simp: seen_def\<close>)
  qed (use that closedR in auto)
  have comp: "component adj C"
  proof -
    have to: "reach adj ?v x" if "x \<in> set C" for x
      using links above [OF that] that by (auto simp: linked_stack_def S setC)
    have from': "reach adj x ?v" if x: "x \<in> set C" for x
    proof -
      have "x \<in> set S" using x by (auto simp: S setC)
      then obtain g where g: "g \<in> set ?G" "reach adj x g" using links unfolding linked_stack_def by blast
      then have "g \<in> set C \<union> finished R" using closed_reach [of adj x g "set C \<union> finished R"] x closed by blast
      moreover have "g \<notin> finished R" using g(1) G(1) disj by blast
      ultimately have "g = ?v" using g(1) active [of g] above [of g] by fastforce
      with g(2) show ?thesis by simp
    qed
    have "y \<in> set C" if "reach adj ?v y" "reach adj y ?v" for y
    proof -
      have "y \<in> set C \<union> finished R" using closed_reach [OF that(1), of "set C \<union> finished R"] closed by (auto simp: setC)
      moreover have "y \<notin> finished R"
      proof
        assume "y \<in> finished R"
        then have "?v \<in> finished R" using closed_reach [OF that(2), of "finished R"] closedR by blast
        with disj show False by (auto simp: S)
      qed
      ultimately show ?thesis by blast
    qed
    then have "y \<in> set C \<longleftrightarrow> reach adj x y \<and> reach adj y x" if "x \<in> set C" for x y
      using to from' that by (metis rtranclp_trans)
    moreover have "C \<noteq> []" using setC by fastforce
    moreover have "sorted C" by (simp add: C)
    ultimately show ?thesis by (simp add: component_def)
  qed
  show "low p \<le> low ?v" if "p \<in> set (nodes cs)" for p
    using sound active(2) [OF that] that low by (fastforce simp: low_sound_def)
  have all: "set rest \<union> finished (R @ [C]) = set S \<union> finished R" by (auto simp: S setC)
  have distS: "distinct (xs @ ?v # rest)" using sorted_num_distinct [OF G(3)] by (simp add: S)
  have "shape (length adj) N c rest (nodes cs) (R @ [C])"
  proof -
    have "distinct C" using distS by (auto simp: C)
    moreover have "set C \<inter> finished R = {}" "set rest \<inter> finished (R @ [C]) = {}" using disj distS by (auto simp: S setC)
    ultimately show ?thesis using shape active unfolding shape_def S by (auto simp: sorted_wrt_append setC)
  qed
  moreover have "linked_stack adj N rest (nodes cs)"
    unfolding linked_stack_def
  proof (intro conjI ballI impI)
    fix x assume x: "x \<in> set rest"
    then have "x \<in> set S" by (simp add: S)
    then obtain g where g: "g \<in> set ?G" "N g \<le> N x" "reach adj x g" using links unfolding linked_stack_def by blast
    moreover from g(2) below [OF x] have "g \<noteq> ?v" by auto
    ultimately show "\<exists>g \<in> set (nodes cs). N g \<le> N x \<and> reach adj x g" by auto
  next
    fix g x assume "g \<in> set (nodes cs)" "x \<in> set rest" "N g \<le> N x"
    then show "reach adj g x" using links unfolding linked_stack_def S by (auto simp: ball_Un)
  qed
  moreover have "low_sound adj N low rest (nodes cs)"
    unfolding low_sound_def
  proof
    fix g assume g: "g \<in> set (nodes cs)"
    then obtain w where w: "low g \<le> N g" "w \<in> set S" "low g = N w" "reach adj g w" using sound by (auto simp: low_sound_def)
    with active(2) [OF g] above [of w] have "w \<in> set rest" by (auto simp: S setC)
    with w show "low g \<le> N g \<and> (\<exists>w \<in> set rest. low g = N w \<and> reach adj g w)" by blast
  qed
  moreover have "low_complete adj N low rest cs"
    unfolding low_complete_def
  proof (intro ballI allI impI)
    fix x u g assume x: "x \<in> set rest" "u \<in> set rest" "passed adj cs x u" "belongs N (nodes cs) g x"
    then have "belongs N ?G g x" using belongs_below [of N ?v x "nodes cs" g] below [OF x(1)] by simp
    moreover have "x \<in> set S" "u \<in> set S" using x by (simp_all add: S)
    ultimately show "low g \<le> N u" using complete x(3) unfolding low_complete_def passed by blast
  qed
  moreover have "seen adj rest cs (R @ [C])"
    using seen unfolding seen_def passed all .
  moreover have "components_ok adj (R @ [C])"
  proof -
    have "w \<in> finished (take k (R @ [C]))" if "u \<in> finished (take k (R @ [C]))" "edge adj u w" for k u w
    proof (cases "k \<le> length R")
      case True
      with comps that show ?thesis by (simp add: components_ok_def)
    next
      case False
      with that closed [of u w] show ?thesis by auto
    qed
    with comps comp show ?thesis by (simp add: components_ok_def)
  qed
  ultimately show "search_ok adj N c low rest cs (R @ [C])" by (simp add: search_ok_def)
qed


section \<open>The loop\<close>

definition num_of :: "tarjan_state \<Rightarrow> nat \<Rightarrow> nat" where
  "num_of st v = the (node_index st ! v)"

definition low_of :: "tarjan_state \<Rightarrow> nat \<Rightarrow> nat" where
  "low_of st v = lowlink st ! v"

definition vectors_ok :: "nat list list \<Rightarrow> tarjan_state \<Rightarrow> bool" where
  "vectors_ok adj st \<longleftrightarrow>
     length (node_index st) = length adj \<and> length (on_stack st) = length adj \<and> length (lowlink st) = length adj \<and>
     (\<forall>v < length adj. (on_stack st ! v \<longleftrightarrow> v \<in> set (stack st)) \<and>
        (node_index st ! v \<noteq> None \<longleftrightarrow> v \<in> set (stack st) \<union> finished (result st)))"

definition state_ok :: "nat list list \<Rightarrow> frame list \<Rightarrow> tarjan_state \<Rightarrow> bool" where
  "state_ok adj cs st \<longleftrightarrow> vectors_ok adj st \<and>
     search_ok adj (num_of st) (index_counter st) (low_of st) (stack st) cs (result st)"

lemma visit_node_simps:
  assumes "vectors_ok adj st" and "v < length adj"
  shows "num_of (visit_node v st) = (num_of st)(v := index_counter st)"
    "low_of (visit_node v st) = (low_of st)(v := index_counter st)" "vectors_ok adj (visit_node v st)"
  using assms by (auto simp: fun_eq_iff num_of_def low_of_def visit_node_def vectors_ok_def nth_list_update)

lemma lower_simps:
  assumes "vectors_ok adj st" and "v < length adj"
  shows "num_of (lower v k st) = num_of st" "low_of (lower v k st) = (low_of st)(v := min (low_of st v) k)"
    "vectors_ok adj (lower v k st)"
  using assms by (auto simp: fun_eq_iff num_of_def low_of_def lower_def vectors_ok_def nth_list_update)

lemma pop_until_eq:
  "node \<notin> set xs \<Longrightarrow> pop_until node (xs @ node # rest) flags acc =
     Some (rest, fold (\<lambda>v flags. flags[v := False]) (xs @ [node]) flags, acc @ xs @ [node])"
  by (induction xs arbitrary: flags acc) (auto simp: Let_def)

lemma nth_clear_flags:
  "v < length flags \<Longrightarrow> fold (\<lambda>v flags. flags[v := False]) ys flags ! v \<longleftrightarrow> flags ! v \<and> v \<notin> set ys"
proof (induction ys arbitrary: flags)
  case (Cons y ys)
  from Cons.IH [of "flags[y := False]"] Cons.prems show ?case by (cases "y = v") auto
qed simp

lemma length_clear_flags [simp]: "length (fold (\<lambda>v flags. flags[v := False]) ys flags) = length flags"
  by (induction ys arbitrary: flags) auto

lemma finish_node_ok:
  assumes ok: "state_ok adj (f # fs) st" and fin: "length (adj ! fr_node f) \<le> fr_next f"
  shows "\<exists>st'. finish_node (fr_node f) fs st = Some st' \<and> state_ok adj fs st'"
proof -
  let ?v = "fr_node f"
  have vec: "vectors_ok adj st"
    and search: "search_ok adj (num_of st) (index_counter st) (low_of st) (stack st) (f # fs) (result st)"
    using ok by (simp_all add: state_ok_def)
  have nodes: "v < length adj" "v \<in> set (stack st)" if "v \<in> set (nodes (f # fs))" for v
    using search that by (auto simp: search_ok_def shape_def)
  have index: "node_index st ! ?v = Some (num_of st ?v)"
    using vec nodes [of ?v] by (auto simp: vectors_ok_def num_of_def)
  show ?thesis
  proof (cases "low_of st ?v = num_of st ?v")
    case False
    obtain p ps where fs: "fs = p # ps" and ok': "search_ok adj (num_of st) (index_counter st)
        ((low_of st)(fr_node p := min (low_of st (fr_node p)) (low_of st ?v))) (stack st) fs (result st)"
      by (rule leave_node [OF search fin False])
    have "fr_node p < length adj" using nodes by (simp add: fs)
    note l = lower_simps [OF vec this, of "low_of st ?v"]
    have "finish_node ?v fs st = Some (lower (fr_node p) (low_of st ?v) st)"
      using False index by (simp add: finish_node_def fs low_of_def Let_def)
    moreover have "state_ok adj fs (lower (fr_node p) (low_of st ?v) st)"
      using ok' l by (simp add: state_ok_def) (simp add: lower_def)
    ultimately show ?thesis by blast
  next
    case True
    obtain xs rest where S: "stack st = xs @ ?v # rest" "?v \<notin> set xs" using split_list_first [OF nodes(2) [of ?v]] by auto
    define C where "C = sort (xs @ [?v])"
    have ok': "search_ok adj (num_of st) (index_counter st) (low_of st) rest fs (result st @ [C])"
      by (rule pop_root(1) [OF search fin True S(1) C_def])
    have parent: "low_of st p \<le> low_of st ?v" if "p \<in> set (nodes fs)" for p
      by (rule pop_root(2) [OF search fin True S(1) C_def that])
    have "(case fs of [] \<Rightarrow> st | parent # _ \<Rightarrow> lower (fr_node parent) (num_of st ?v) st) = st"
      using parent unfolding True by (cases fs) (auto simp: lower_def low_of_def min_def)
    then have "finish_node ?v fs st = pop_component ?v st"
      using True index by (simp add: finish_node_def Let_def flip: low_of_def)
    also have "\<dots> = Some (st \<lparr> stack := rest, on_stack := fold (\<lambda>v flags. flags[v := False]) (xs @ [?v]) (on_stack st),
        result := result st @ [C] \<rparr>)" (is "_ = Some ?st")
      using pop_until_eq [OF S(2), of rest "on_stack st" "[]"] by (simp add: pop_component_def S(1) C_def)
    finally have "finish_node ?v fs st = Some ?st" .
    moreover have "vectors_ok adj ?st"
    proof -
      have "distinct (xs @ ?v # rest)"
        using search unfolding search_ok_def shape_def S(1) by (blast intro: sorted_num_distinct)
      with vec show ?thesis by (auto simp: vectors_ok_def S(1) C_def nth_clear_flags simp del: fold_append)
    qed
    moreover have "num_of ?st = num_of st" "low_of ?st = low_of st" by (simp_all add: fun_eq_iff num_of_def low_of_def)
    ultimately show ?thesis using ok' by (auto simp: state_ok_def)
  qed
qed

lemma tarjan_step_ok:
  assumes ok: "state_ok adj (f # fs) st" and graph: "graph_ok adj"
  shows "\<exists>cs' st'. tarjan_step adj (f # fs, st) = Some (cs', st') \<and> state_ok adj cs' st'"
proof -
  let ?v = "fr_node f"
  have vec: "vectors_ok adj st"
    and search: "search_ok adj (num_of st) (index_counter st) (low_of st) (stack st) (f # fs) (result st)"
    using ok by (simp_all add: state_ok_def)
  have v: "?v < length adj" using search by (auto simp: search_ok_def shape_def)
  show ?thesis
  proof (cases "fr_next f < length (adj ! ?v)")
    case next': True
    define w where "w = adj ! ?v ! fr_next f"
    have "edge adj ?v w" using v next' by (simp add: edge_def w_def)
    then have w: "w < length adj" by (rule edge_in_range [OF graph])
    let ?fs = "f \<lparr> fr_next := fr_next f + 1 \<rparr> # fs"
    consider (new) "node_index st ! w = None" | (old) "node_index st ! w \<noteq> None" "w \<in> set (stack st) \<union> finished (result st)"
      using vec w by (auto simp: vectors_ok_def)
    then show ?thesis
    proof cases
      case new
      then have "w \<notin> set (stack st)" "w \<notin> finished (result st)" using vec w by (auto simp: vectors_ok_def)
      from visit_child [OF search graph next' w_def this]
      have "state_ok adj (\<lparr> fr_node = w, fr_next = 0 \<rparr> # ?fs) (visit_node w st)"
        using visit_node_simps [OF vec w] by (simp add: state_ok_def) (simp add: visit_node_def)
      then show ?thesis using v next' w new vec by (simp add: Let_def w_def [symmetric] vectors_ok_def)
    next
      case old
      note pass = pass_edge [OF search next' w_def old(2) refl]
      have "state_ok adj ?fs (if w \<in> set (stack st) then lower ?v (num_of st w) st else st)"
        using pass lower_simps [OF vec v, of "num_of st w"] vec by (auto simp: state_ok_def lower_def)
      moreover have "on_stack st ! w \<longleftrightarrow> w \<in> set (stack st)" using vec w by (simp add: vectors_ok_def)
      moreover obtain k where "node_index st ! w = Some k" using old(1) by blast
      ultimately show ?thesis using v next' w vec
        by (cases "w \<in> set (stack st)") (simp_all add: Let_def w_def [symmetric] vectors_ok_def num_of_def)
    qed
  next
    case False
    then show ?thesis using finish_node_ok [OF ok] v by (auto simp: Let_def)
  qed
qed

lemma unvisited_step:
  "tarjan_step adj (cs, st) = Some (cs', st') \<Longrightarrow> unvisited st' \<subseteq> unvisited st"
  by (cases cs) (auto simp: Let_def lower_def unvisited_def visit_node_def nth_list_update split: if_splits
      dest!: unvisited_finish [unfolded unvisited_def])

lemma tarjan_loop_ok:
  assumes "state_ok adj cs st" and "graph_ok adj"
  shows "\<exists>st'. tarjan_loop adj (cs, st) = Some st' \<and> state_ok adj [] st' \<and> unvisited st' \<subseteq> unvisited st"
  using assms
proof (induction adj "(cs, st)" arbitrary: cs st rule: tarjan_loop.induct)
  case (1 adj cs st)
  show ?case
  proof (cases cs)
    case Nil
    with 1 show ?thesis by (simp add: tarjan_loop.simps)
  next
    case (Cons f fs)
    obtain cs' st' where step: "tarjan_step adj (cs, st) = Some (cs', st')" "state_ok adj cs' st'"
      using tarjan_step_ok 1(2,3) Cons by blast
    obtain t where "tarjan_loop adj (cs', st') = Some t" "state_ok adj [] t" "unvisited t \<subseteq> unvisited st'"
      using 1(1) [OF _ step(1)] step(2) 1(3) Cons by blast
    with step(1) unvisited_step [OF step(1)] Cons show ?thesis by (subst tarjan_loop.simps) auto
  qed
qed

text \<open>Between two roots no frame is active and the stack is empty.\<close>

lemma state_ok_idle: "state_ok adj [] st \<Longrightarrow> stack st = []"
  by (cases "stack st") (auto simp: state_ok_def search_ok_def linked_stack_def)

lemma idle_visited:
  assumes "state_ok adj [] st" and "v < length adj"
  shows "v \<in> finished (result st) \<longleftrightarrow> v \<notin> unvisited st"
  using assms state_ok_idle [OF assms(1)] by (auto simp: state_ok_def vectors_ok_def unvisited_def)

lemma tarjan_root_ok:
  assumes ok: "state_ok adj [] st" and graph: "graph_ok adj" and root: "root < length adj"
  shows "\<exists>st'. tarjan_root adj root st = Some st' \<and> state_ok adj [] st' \<and> unvisited st' \<subseteq> unvisited st - {root}"
proof -
  have vec: "vectors_ok adj st" using ok by (simp add: state_ok_def)
  then have len: "root < length (node_index st)" using root by (simp add: vectors_ok_def)
  show ?thesis
  proof (cases "node_index st ! root = None")
    case True
    have idle: "stack st = []" by (rule state_ok_idle [OF ok])
    have "root \<notin> finished (result st)" using True vec root by (auto simp: vectors_ok_def)
    with ok root have "search_ok adj ((num_of st)(root := index_counter st)) (index_counter st + 1)
        ((low_of st)(root := index_counter st)) [root] [\<lparr> fr_node = root, fr_next = 0 \<rparr>] (result st)"
      by (intro visit_root) (simp_all add: state_ok_def idle)
    then have "state_ok adj [\<lparr> fr_node = root, fr_next = 0 \<rparr>] (visit_node root st)"
      using visit_node_simps [OF vec root] by (simp add: state_ok_def) (simp add: visit_node_def idle)
    from tarjan_loop_ok [OF this graph] obtain st' where
      "tarjan_loop adj ([\<lparr> fr_node = root, fr_next = 0 \<rparr>], visit_node root st) = Some st'" "state_ok adj [] st'"
      "unvisited st' \<subseteq> unvisited (visit_node root st)" by blast
    moreover have "unvisited (visit_node root st) = unvisited st - {root}"
      using len by (auto simp: unvisited_def visit_node_def nth_list_update)
    ultimately show ?thesis using True len by (simp add: tarjan_root_def)
  next
    case False
    then show ?thesis using ok len by (auto simp: tarjan_root_def unvisited_def)
  qed
qed

lemma tarjan_roots_ok:
  assumes "state_ok adj [] st" and "graph_ok adj" and "list_all (\<lambda>v. v < length adj) vs"
  shows "\<exists>st'. try_fold (tarjan_root adj) vs st = Some st' \<and> state_ok adj [] st' \<and> unvisited st' \<subseteq> unvisited st - set vs"
  using assms(1,3)
proof (induction vs arbitrary: st)
  case (Cons v vs)
  then obtain st1 where 1: "tarjan_root adj v st = Some st1" "state_ok adj [] st1" "unvisited st1 \<subseteq> unvisited st - {v}"
    using tarjan_root_ok [OF Cons.prems(1) assms(2), of v] by auto
  with Cons.IH [OF 1(2)] Cons.prems(2) show ?case by fastforce
qed simp

lemma tarjan_init_ok: "state_ok adj [] (tarjan_init (length adj))"
  by (auto simp: state_ok_def tarjan_init_def vectors_ok_def search_ok_def shape_def linked_stack_def low_sound_def
      low_complete_def seen_def components_ok_def)

lemma tarjan_scc_components:
  assumes "graph_ok adj"
  shows "\<exists>sccs. tarjan_scc (length adj) adj = Some sccs \<and> components_ok adj sccs \<and>
     distinct (concat sccs) \<and> finished sccs = {..<length adj}"
proof -
  obtain st where run: "try_fold (tarjan_root adj) [0..<length adj] (tarjan_init (length adj)) = Some st"
    and ok: "state_ok adj [] st" and all: "unvisited st \<subseteq> unvisited (tarjan_init (length adj)) - set [0..<length adj]"
    using tarjan_roots_ok [OF tarjan_init_ok assms, of "[0..<length adj]"] by (auto simp: list_all_iff)
  have "unvisited st = {}" using all by (auto simp: unvisited_def tarjan_init_def)
  then have "finished (result st) = {..<length adj}"
    using idle_visited [OF ok] ok by (auto simp: state_ok_def search_ok_def shape_def)
  with run ok show ?thesis by (auto simp: tarjan_scc_def state_ok_def search_ok_def shape_def)
qed

lemma component_position:
  assumes dist: "distinct (concat sccs)" and nonempty: "[] \<notin> set sccs" and ij: "i < length sccs" "j < length sccs"
    and v: "v \<in> set (sccs ! i)" "v \<in> set (sccs ! j)"
  shows "i = j"
proof -
  have "distinct sccs" "\<And>ys zs. ys \<in> set sccs \<Longrightarrow> zs \<in> set sccs \<Longrightarrow> ys \<noteq> zs \<Longrightarrow> set ys \<inter> set zs = {}"
    using dist nonempty by (auto simp: distinct_concat_iff removeAll_id)
  with ij v show ?thesis by (metis disjoint_iff nth_eq_iff_index_eq nth_mem)
qed

lemma edges_point_back:
  assumes ok: "components_ok adj sccs" and dist: "distinct (concat sccs)" and ij: "i < length sccs" "j < length sccs"
    and uv: "u \<in> set (sccs ! i)" "v \<in> set (sccs ! j)" "edge adj u v"
  shows "j \<le> i"
proof -
  have "u \<in> finished (take (Suc i) sccs)" using ij(1) uv(1) by (auto simp: take_Suc_conv_app_nth)
  then have "v \<in> finished (take (Suc i) sccs)" using ok uv(3) by (simp add: components_ok_def)
  then obtain C where C: "C \<in> set (take (Suc i) sccs)" "v \<in> set C" by auto
  then obtain k where k: "k \<le> i" "v \<in> set (sccs ! k)" unfolding in_set_conv_nth [of C] by (auto simp: less_Suc_eq_le)
  have "[] \<notin> set sccs" using ok by (auto simp: components_ok_def component_def list_all_iff)
  then have "k = j" using component_position [OF dist _ _ ij(2) k(2) uv(2)] k(1) ij(1) by simp
  with k(1) show ?thesis by simp
qed

text \<open>
  C7: on a graph whose edges stay within its nodes the search returns, without a panic, the strongly
  connected components: the lists partition the nodes, each one is sorted and holds exactly the nodes
  that are mutually reachable from any of its members, and every edge leads to the same or to an earlier
  component, so that callees come before callers.
\<close>

theorem tarjan_computes_components:
  assumes "graph_ok adj"
  shows "\<exists>sccs. tarjan_scc (length adj) adj = Some sccs \<and> distinct (concat sccs) \<and> set (concat sccs) = {..<length adj} \<and>
     list_all (\<lambda>C. C \<noteq> [] \<and> sorted C \<and> (\<forall>u \<in> set C. set C = {v. reach adj u v \<and> reach adj v u})) sccs \<and>
     (\<forall>i j u v. i < length sccs \<longrightarrow> j < length sccs \<longrightarrow> u \<in> set (sccs ! i) \<longrightarrow> v \<in> set (sccs ! j) \<longrightarrow> edge adj u v \<longrightarrow> j \<le> i)"
proof -
  obtain sccs where run: "tarjan_scc (length adj) adj = Some sccs" and ok: "components_ok adj sccs"
    and parts: "distinct (concat sccs)" "finished sccs = {..<length adj}"
    using tarjan_scc_components [OF assms] by blast
  have "j \<le> i" if "i < length sccs" "j < length sccs" "u \<in> set (sccs ! i)" "v \<in> set (sccs ! j)" "edge adj u v" for i j u v
    by (rule edges_point_back [OF ok parts(1) that])
  moreover have "list_all (\<lambda>C. C \<noteq> [] \<and> sorted C \<and> (\<forall>u \<in> set C. set C = {v. reach adj u v \<and> reach adj v u})) sccs"
    using ok by (auto simp: components_ok_def component_def list_all_iff)
  ultimately show ?thesis using run parts by blast
qed

end
