(* ===== verification/Scc_Graph.thy ===== *)
theory Scc_Graph
  imports Tarjan_Correct "HOL-Library.Monad_Syntax"
begin

text \<open>
  The component graph of \<open>analysis_neutral/demand/scc.rs\<close>: callables are numbered in the order of their keys,
  the calls between them form the adjacency lists of the component search, and the components found are
  listed with the dependencies between them. Component ids are 32-bit truncations of positions. Ids
  that index a vector come from that vector's own positions, so these accesses cannot panic; an index
  out of range in the lists that the search returns would, and is \<open>None\<close>.
\<close>

section \<open>Data\<close>

record scc_component =
  sc_id :: nat
  sc_members :: "string fset"
  sc_is_recursive :: bool
  sc_depends_on :: "nat fset"
  sc_depended_by :: "nat fset"

record scc_graph =
  sg_components :: "scc_component list"
  sg_callable_to_scc :: "(string, nat) fmap"

type_synonym call_edges = "(string, string fset) fmap"

definition scc_graph_default :: scc_graph where
  "scc_graph_default = \<lparr> sg_components = [], sg_callable_to_scc = fmempty \<rparr>"


section \<open>Construction\<close>

definition all_callables :: "call_edges \<Rightarrow> string fset" where
  "all_callables call_edges =
     fold (\<lambda>(caller, callees) acc. fold finsert (bt_elems callees) (finsert caller acc)) (bt_entries call_edges) {||}"

definition index_map :: "string list \<Rightarrow> (string, nat) fmap" where
  "index_map callables = fm_collect (map (\<lambda>(i, key). (key, i)) (List.enumerate 0 callables))"

definition build_adjacency :: "(string, nat) fmap \<Rightarrow> nat \<Rightarrow> call_edges \<Rightarrow> nat list list" where
  "build_adjacency index count call_edges =
     fold (\<lambda>(caller, callees) adjacency. case fmlookup index caller of
         None \<Rightarrow> adjacency
       | Some caller_idx \<Rightarrow> fold (\<lambda>callee adjacency. case fmlookup index callee of
             None \<Rightarrow> adjacency
           | Some callee_idx \<Rightarrow> adjacency[caller_idx := adjacency ! caller_idx @ [callee_idx]])
           (bt_elems callees) adjacency)
       (bt_entries call_edges) (replicate count [])"

text \<open>The loop body that turns a list of nodes into a component.\<close>

definition push_component ::
  "string list \<Rightarrow> nat list list \<Rightarrow> nat \<times> nat list \<Rightarrow> scc_graph \<Rightarrow> scc_graph" where
  "push_component reverse_map adjacency entry graph =
     (let scc_id = fst entry mod 2 ^ 32;
          member_keys = fset_of_list (map ((!) reverse_map) (snd entry));
          is_recursive = (fcard member_keys > 1 \<or> list_ex (\<lambda>node_idx. node_idx \<in> set (adjacency ! node_idx)) (snd entry))
      in \<lparr> sg_components = sg_components graph @
             [\<lparr> sc_id = scc_id, sc_members = member_keys, sc_is_recursive = is_recursive,
                sc_depends_on = {||}, sc_depended_by = {||} \<rparr>],
           sg_callable_to_scc = fold (\<lambda>key. fmupd key scc_id) (bt_elems member_keys) (sg_callable_to_scc graph) \<rparr>)"

definition add_dependency :: "nat \<Rightarrow> nat \<Rightarrow> scc_component list \<Rightarrow> scc_component list" where
  "add_dependency caller_scc callee_scc components =
     (let components' = components[caller_scc := (components ! caller_scc)
            \<lparr> sc_depends_on := finsert callee_scc (sc_depends_on (components ! caller_scc)) \<rparr>]
      in components'[callee_scc := (components' ! callee_scc)
            \<lparr> sc_depended_by := finsert caller_scc (sc_depended_by (components' ! callee_scc)) \<rparr>])"

definition link_components :: "(string, nat) fmap \<Rightarrow> call_edges \<Rightarrow> scc_component list \<Rightarrow> scc_component list" where
  "link_components callable_to_scc call_edges components =
     fold (\<lambda>(caller, callees) components. case fmlookup callable_to_scc caller of
         None \<Rightarrow> components
       | Some caller_scc \<Rightarrow> fold (\<lambda>callee components. case fmlookup callable_to_scc callee of
             None \<Rightarrow> components
           | Some callee_scc \<Rightarrow>
               (if caller_scc \<noteq> callee_scc then add_dependency caller_scc callee_scc components else components))
           (bt_elems callees) components)
       (bt_entries call_edges) components"

definition from_call_edges :: "call_edges \<Rightarrow> scc_graph option" where
  "from_call_edges call_edges =
     (if all_callables call_edges = {||} then Some scc_graph_default
      else
        let reverse_map = bt_elems (all_callables call_edges);
            count = length reverse_map;
            adjacency = build_adjacency (index_map reverse_map) count call_edges
        in do {
          sccs \<leftarrow> tarjan_scc count adjacency;
          if list_all (list_all (\<lambda>node_idx. node_idx < count)) sccs
          then let graph = fold (push_component reverse_map adjacency) (List.enumerate 0 sccs) scc_graph_default
               in Some (graph \<lparr> sg_components :=
                    link_components (sg_callable_to_scc graph) call_edges (sg_components graph) \<rparr>)
          else None
        })"

definition scc_of :: "scc_graph \<Rightarrow> string \<Rightarrow> scc_component option" where
  "scc_of graph callable_key = map_option (\<lambda>scc_id. sg_components graph ! scc_id) (fmlookup (sg_callable_to_scc graph) callable_key)"

definition scc_count :: "scc_graph \<Rightarrow> nat" where
  "scc_count graph = length (sg_components graph)"

definition recursive_scc_count :: "scc_graph \<Rightarrow> nat" where
  "recursive_scc_count graph = length (filter sc_is_recursive (sg_components graph))"

definition topological_order :: "scc_graph \<Rightarrow> scc_component list" where
  "topological_order graph = sg_components graph"


section \<open>Cached components\<close>

datatype scc_fixpoint_status =
    SinglePass
  | Converged (converged_iterations: nat)
  | Fixpoint_BudgetExceeded (exceeded_iterations: nat) (exceeded_limit: nat)

fun scc_fixpoint_status_as_str :: "scc_fixpoint_status \<Rightarrow> string" where
  "scc_fixpoint_status_as_str SinglePass = ''single_pass''"
| "scc_fixpoint_status_as_str (Converged _) = ''converged''"
| "scc_fixpoint_status_as_str (Fixpoint_BudgetExceeded _ _) = ''budget_exceeded''"

text \<open>A cache entry; the type of digests is a parameter.\<close>

record 'd scc_cache_entry =
  ce_scc_id :: nat
  ce_scc_digest :: 'd
  ce_member_summary_digests :: "(string, 'd) fmap"
  ce_dependency_scc_digests :: "(nat, 'd) fmap"
  ce_fixpoint_status :: scc_fixpoint_status
  ce_output_digest :: 'd

definition is_valid ::
  "'d scc_cache_entry \<Rightarrow> 'd \<Rightarrow> (string, 'd) fmap \<Rightarrow> (nat, 'd) fmap \<Rightarrow> bool" where
  "is_valid entry current_scc_digest current_member_summary_digests current_dependency_digests \<longleftrightarrow>
     (if ce_scc_digest entry \<noteq> current_scc_digest then False
      else if ce_member_summary_digests entry \<noteq> current_member_summary_digests then False
      else list_all (\<lambda>(dep_scc, expected_digest). fmlookup current_dependency_digests dep_scc = Some expected_digest)
        (bt_entries (ce_dependency_scc_digests entry)))"

section \<open>Calls and nodes\<close>

definition calls :: "call_edges \<Rightarrow> string \<Rightarrow> string \<Rightarrow> bool" where
  "calls ce a b \<longleftrightarrow> (\<exists>callees. fmlookup ce a = Some callees \<and> b |\<in>| callees)"

definition call_pairs :: "call_edges \<Rightarrow> (string \<times> string) list" where
  "call_pairs ce = concat (map (\<lambda>(caller, callees). map (Pair caller) (bt_elems callees)) (bt_entries ce))"

lemma set_call_pairs: "(a, b) \<in> set (call_pairs ce) \<longleftrightarrow> calls ce a b"
  by (force simp: call_pairs_def calls_def in_bt_entries_iff)

text \<open>A loop over callers with an inner loop over callees is a loop over the calls.\<close>

lemma nested_fold:
  "fold (\<lambda>(caller, callees) acc. fold (step caller) (bt_elems callees) acc) (bt_entries ce) acc =
     fold (\<lambda>(caller, callee). step caller callee) (call_pairs ce) acc"
proof -
  have "fold (\<lambda>(caller, callees) acc. fold (step caller) (bt_elems callees) acc) ps acc =
      fold (\<lambda>(caller, callee). step caller callee) (concat (map (\<lambda>(caller, callees). map (Pair caller) (bt_elems callees)) ps)) acc"
    for ps by (induction ps arbitrary: acc) (auto simp: fold_map comp_def)
  then show ?thesis by (simp add: call_pairs_def)
qed

lemma all_callables_iff:
  "a |\<in>| all_callables ce \<longleftrightarrow> a |\<in>| fmdom ce \<or> (\<exists>b. calls ce b a)"
proof -
  have inner: "a |\<in>| fold finsert xs acc \<longleftrightarrow> a \<in> set xs \<or> a |\<in>| acc" for xs acc by (induction xs arbitrary: acc) auto
  have "a |\<in>| fold (\<lambda>(caller, callees) acc. fold finsert (bt_elems callees) (finsert caller acc)) ps acc \<longleftrightarrow>
      (\<exists>(caller, callees) \<in> set ps. a = caller \<or> a |\<in>| callees) \<or> a |\<in>| acc" for ps acc
  proof (induction ps arbitrary: acc)
    case (Cons p ps)
    obtain caller callees where p: "p = (caller, callees)" by (cases p)
    show ?case unfolding p by (simp add: Cons.IH inner) blast
  qed simp
  then have "a |\<in>| all_callables ce \<longleftrightarrow> (\<exists>caller callees. fmlookup ce caller = Some callees \<and> (a = caller \<or> a |\<in>| callees))"
    unfolding all_callables_def by (simp add: Bex_def in_bt_entries_iff)
  also have "\<dots> \<longleftrightarrow> (\<exists>callees. fmlookup ce a = Some callees) \<or> (\<exists>b. calls ce b a)" unfolding calls_def by blast
  finally show ?thesis by (simp add: fmlookup_dom_iff)
qed

lemma index_map_iff:
  assumes "distinct ks"
  shows "fmlookup (index_map ks) k = Some i \<longleftrightarrow> i < length ks \<and> ks ! i = k"
proof -
  have "distinct (map fst (map (\<lambda>(i, key). (key, i)) (List.enumerate 0 ks)))"
    using assms by (simp add: comp_def case_prod_beta' map_snd_enumerate)
  from lookup_fm_collect_distinct [OF this] show ?thesis
    by (force simp: index_map_def in_set_enumerate_eq)
qed


text \<open>The adjacency lists hold the calls.\<close>

lemma adjacency_fold:
  assumes index: "\<And>k i. fmlookup index k = Some i \<Longrightarrow> i < length adj"
  defines "step \<equiv> \<lambda>caller callee adj. case fmlookup index caller of
      None \<Rightarrow> adj
    | Some i \<Rightarrow> (case fmlookup index callee of None \<Rightarrow> adj | Some j \<Rightarrow> adj[i := adj ! i @ [j]])"
  shows "length (fold (\<lambda>(a, b). step a b) ps adj) = length adj \<and>
    (\<forall>i < length adj. set (fold (\<lambda>(a, b). step a b) ps adj ! i) =
       set (adj ! i) \<union> {j. \<exists>(a, b) \<in> set ps. fmlookup index a = Some i \<and> fmlookup index b = Some j})"
  using index
proof (induction ps arbitrary: adj)
  case (Cons p ps)
  obtain a b where p: "p = (a, b)" by (cases p)
  have len: "length (step a b adj) = length adj" by (simp add: step_def split: option.split)
  have elem: "set (step a b adj ! i) = set (adj ! i) \<union> {j. fmlookup index a = Some i \<and> fmlookup index b = Some j}"
    if "i < length adj" for i
    using that Cons.prems [of a] by (auto simp: step_def nth_list_update split: option.split if_splits)
  have "\<And>k i. fmlookup index k = Some i \<Longrightarrow> i < length (step a b adj)" using Cons.prems len by simp
  from Cons.IH [OF this] elem len show ?case by (auto simp: p)
qed simp

lemma build_adjacency_ok:
  assumes ks: "ks = bt_elems (all_callables ce)" and adj: "adj = build_adjacency (index_map ks) (length ks) ce"
  shows "length adj = length ks" and "graph_ok adj"
    and "edge adj i j \<longleftrightarrow> i < length ks \<and> j < length ks \<and> calls ce (ks ! i) (ks ! j)"
proof -
  let ?index = "index_map ks"
  have dist: "distinct ks" by (simp add: ks)
  have index: "fmlookup ?index k = Some i \<longleftrightarrow> i < length ks \<and> ks ! i = k" for k i by (rule index_map_iff [OF dist])
  let ?step = "\<lambda>caller callee adj. case fmlookup ?index caller of
      None \<Rightarrow> adj
    | Some i \<Rightarrow> (case fmlookup ?index callee of None \<Rightarrow> adj | Some j \<Rightarrow> adj[i := adj ! i @ [j]])"
  have skip: "fold (\<lambda>_ adj. adj) xs adj = adj" for xs :: "string list" and adj :: "nat list list" by (induction xs) auto
  have "adj = fold (\<lambda>(caller, callees) acc. fold (?step caller) (bt_elems callees) acc) (bt_entries ce) (replicate (length ks) [])"
    unfolding adj build_adjacency_def
    by (rule arg_cong [where f = "\<lambda>f. fold f (bt_entries ce) (replicate (length ks) [])"])
      (auto simp: fun_eq_iff skip split: option.split)
  then have fold: "adj = fold (\<lambda>(a, b). ?step a b) (call_pairs ce) (replicate (length ks) [])" by (simp only: nested_fold)
  have *: "length adj = length ks \<and> (\<forall>i < length ks. set (adj ! i) =
      {j. \<exists>(a, b) \<in> set (call_pairs ce). fmlookup ?index a = Some i \<and> fmlookup ?index b = Some j})"
    using adjacency_fold [of ?index "replicate (length ks) []" "call_pairs ce"] index unfolding fold by simp
  then show len: "length adj = length ks" by simp
  have elem: "j \<in> set (adj ! i) \<longleftrightarrow> j < length ks \<and> calls ce (ks ! i) (ks ! j)" if "i < length ks" for i j
    using * that by (auto simp: index set_call_pairs Bex_def)
  show "edge adj i j \<longleftrightarrow> i < length ks \<and> j < length ks \<and> calls ce (ks ! i) (ks ! j)"
    using elem len by (auto simp: edge_def)
  show "graph_ok adj" using elem len by (auto simp: graph_ok_def list_all_iff in_set_conv_nth [of _ adj])
qed

lemma reach_calls:
  assumes edges: "\<And>i j. edge adj i j \<longleftrightarrow> i < length ks \<and> j < length ks \<and> calls ce (ks ! i) (ks ! j)"
    and callees: "\<And>a b. calls ce a b \<Longrightarrow> b \<in> set ks" and i: "i < length ks"
    and dist: "distinct ks"
  shows "reach adj i j \<longleftrightarrow> j < length ks \<and> (calls ce)\<^sup>*\<^sup>* (ks ! i) (ks ! j)"
proof -
  have "j < length ks \<and> (calls ce)\<^sup>*\<^sup>* (ks ! i) (ks ! j)" if "reach adj i j" for j
    using that
  proof (induction rule: rtranclp_induct)
    case (step j k)
    then show ?case unfolding edges by (auto intro: rtranclp.rtrancl_into_rtrancl)
  qed (simp add: i)
  moreover have "\<exists>j < length ks. b = ks ! j \<and> reach adj i j" if "(calls ce)\<^sup>*\<^sup>* (ks ! i) b" for b
    using that
  proof (induction rule: rtranclp_induct)
    case (step b c)
    obtain k where "k < length ks" "c = ks ! k" using callees [OF step.hyps(2)] by (metis in_set_conv_nth)
    with step show ?case unfolding edges by (auto intro!: exI [of _ k] intro: rtranclp.rtrancl_into_rtrancl simp: edges)
  qed (use i in auto)
  ultimately show ?thesis using dist by (metis nth_eq_iff_index_eq)
qed


section \<open>The listed components\<close>

definition plain_component :: "string list \<Rightarrow> nat list list \<Rightarrow> nat \<Rightarrow> nat list \<Rightarrow> scc_component" where
  "plain_component ks adj i C =
     \<lparr> sc_id = i mod 2 ^ 32, sc_members = fset_of_list (map ((!) ks) C),
       sc_is_recursive = (fcard (fset_of_list (map ((!) ks) C)) > 1 \<or> list_ex (\<lambda>v. v \<in> set (adj ! v)) C),
       sc_depends_on = {||}, sc_depended_by = {||} \<rparr>"

lemma lookup_fold_fmupd: "fmlookup (fold (\<lambda>key. fmupd key v) xs m) k = (if k \<in> set xs then Some v else fmlookup m k)"
  by (induction xs arbitrary: m) auto

lemma components_fold:
  assumes "distinct (concat sccs)" and "list_all (list_all (\<lambda>v. v < length ks)) sccs" and "distinct ks"
    and "length sccs \<le> 2 ^ 32" and "g = fold (push_component ks adj) (List.enumerate 0 sccs) scc_graph_default"
  shows "sg_components g = map (\<lambda>(i, C). plain_component ks adj i C) (List.enumerate 0 sccs) \<and>
    (\<forall>a i. fmlookup (sg_callable_to_scc g) a = Some i \<longleftrightarrow> i < length sccs \<and> a \<in> (!) ks ` set (sccs ! i))"
  using assms
proof (induction sccs arbitrary: g rule: rev_induct)
  case (snoc C sccs)
  let ?g = "fold (push_component ks adj) (List.enumerate 0 sccs) scc_graph_default"
  have IH: "sg_components ?g = map (\<lambda>(i, C). plain_component ks adj i C) (List.enumerate 0 sccs)"
    "\<And>a i. fmlookup (sg_callable_to_scc ?g) a = Some i \<longleftrightarrow> i < length sccs \<and> a \<in> (!) ks ` set (sccs ! i)"
    using snoc.IH [of ?g] snoc.prems by auto
  have g: "g = push_component ks adj (length sccs, C) ?g" using snoc.prems(5) by (simp add: enumerate_append_eq)
  have "a \<notin> (!) ks ` set (sccs ! i)" if "a \<in> (!) ks ` set C" "i < length sccs" for a i
  proof
    assume "a \<in> (!) ks ` set (sccs ! i)"
    with that(1) obtain u v where uv: "u \<in> set C" "v \<in> set (sccs ! i)" "ks ! u = ks ! v" by auto
    moreover have "u < length ks" "v < length ks" using snoc.prems(2) uv that(2) by (auto simp: list_all_iff)
    ultimately have "u = v" using snoc.prems(3) by (simp add: nth_eq_iff_index_eq)
    with uv that(2) snoc.prems(1) show False by (auto simp: disjoint_iff) (metis UN_I nth_mem)
  qed
  then have "fmlookup (sg_callable_to_scc g) a = Some i \<longleftrightarrow>
      i < length (sccs @ [C]) \<and> a \<in> (!) ks ` set ((sccs @ [C]) ! i)" for a i
    using snoc.prems(4) IH(2) [of a i]
    by (auto simp: g push_component_def Let_def lookup_fold_fmupd fset_of_list.rep_eq nth_append less_Suc_eq)
  moreover have "sg_components g = map (\<lambda>(i, C). plain_component ks adj i C) (List.enumerate 0 (sccs @ [C]))"
    by (simp add: g push_component_def Let_def IH(1) enumerate_append_eq plain_component_def)
  ultimately show ?case by blast
qed (simp add: scc_graph_default_def)

text \<open>Adding dependencies touches the two dependency sets only.\<close>

lemma add_dependency_nth:
  assumes "s < length cs" and "t < length cs" and "s \<noteq> t" and "i < length cs"
  shows "add_dependency s t cs ! i = (cs ! i)
    \<lparr> sc_depends_on := (if i = s then finsert t (sc_depends_on (cs ! i)) else sc_depends_on (cs ! i)),
      sc_depended_by := (if i = t then finsert s (sc_depended_by (cs ! i)) else sc_depended_by (cs ! i)) \<rparr>"
  using assms by (auto simp: add_dependency_def Let_def nth_list_update)

lemma length_add_dependency [simp]: "length (add_dependency s t cs) = length cs"
  by (simp add: add_dependency_def Let_def)

abbreviation same_component :: "scc_component \<Rightarrow> scc_component \<Rightarrow> bool" where
  "same_component c d \<equiv> sc_id c = sc_id d \<and> sc_members c = sc_members d \<and> sc_is_recursive c = sc_is_recursive d"

lemma link_fold:
  assumes "\<forall>a s. fmlookup m a = Some s \<longrightarrow> s < length cs"
  defines "step \<equiv> \<lambda>caller callee cs. case fmlookup m caller of
      None \<Rightarrow> cs
    | Some s \<Rightarrow> (case fmlookup m callee of None \<Rightarrow> cs | Some t \<Rightarrow> (if s \<noteq> t then add_dependency s t cs else cs))"
  defines "dep ps s t \<equiv> s \<noteq> t \<and> (\<exists>(a, b) \<in> set ps. fmlookup m a = Some s \<and> fmlookup m b = Some t)"
  shows "length (fold (\<lambda>(a, b). step a b) ps cs) = length cs \<and> (\<forall>i < length cs.
    same_component (fold (\<lambda>(a, b). step a b) ps cs ! i) (cs ! i) \<and>
    fset (sc_depends_on (fold (\<lambda>(a, b). step a b) ps cs ! i)) = fset (sc_depends_on (cs ! i)) \<union> {t. dep ps i t} \<and>
    fset (sc_depended_by (fold (\<lambda>(a, b). step a b) ps cs ! i)) = fset (sc_depended_by (cs ! i)) \<union> {s. dep ps s i})"
  using assms(1)
proof (induction ps arbitrary: cs)
  case (Cons p ps)
  obtain a b where p: "p = (a, b)" by (cases p)
  have len: "length (step a b cs) = length cs" by (simp add: step_def split: option.split)
  have elem: "same_component (step a b cs ! i) (cs ! i)"
    "fset (sc_depends_on (step a b cs ! i)) = fset (sc_depends_on (cs ! i)) \<union> {t. dep [(a, b)] i t}"
    "fset (sc_depended_by (step a b cs ! i)) = fset (sc_depended_by (cs ! i)) \<union> {s. dep [(a, b)] s i}"
    if i: "i < length cs" for i
    using i Cons.prems by (auto simp: step_def dep_def add_dependency_nth split: option.split)
  have dep: "dep (p # ps) s t \<longleftrightarrow> dep [(a, b)] s t \<or> dep ps s t" for s t by (auto simp: dep_def p)
  have "length (fold (\<lambda>(a, b). step a b) ps (step a b cs)) = length cs"
    and IH: "\<forall>i < length cs. same_component (fold (\<lambda>(a, b). step a b) ps (step a b cs) ! i) (step a b cs ! i) \<and>
      fset (sc_depends_on (fold (\<lambda>(a, b). step a b) ps (step a b cs) ! i)) = fset (sc_depends_on (step a b cs ! i)) \<union> {t. dep ps i t} \<and>
      fset (sc_depended_by (fold (\<lambda>(a, b). step a b) ps (step a b cs) ! i)) = fset (sc_depended_by (step a b cs ! i)) \<union> {s. dep ps s i}"
    using Cons.IH [of "step a b cs"] Cons.prems len by simp_all
  with elem show ?case unfolding p [symmetric] dep by (simp add: p Collect_disj_eq Un_assoc)
qed (auto simp: dep_def)

lemma link_components_nth:
  assumes range: "\<forall>a s. fmlookup m a = Some s \<longrightarrow> s < length cs" and i: "i < length cs"
  shows "length (link_components m ce cs) = length cs" and "same_component (link_components m ce cs ! i) (cs ! i)"
    and "fset (sc_depends_on (link_components m ce cs ! i)) = fset (sc_depends_on (cs ! i)) \<union>
      {t. i \<noteq> t \<and> (\<exists>a b. calls ce a b \<and> fmlookup m a = Some i \<and> fmlookup m b = Some t)}"
    and "fset (sc_depended_by (link_components m ce cs ! i)) = fset (sc_depended_by (cs ! i)) \<union>
      {s. s \<noteq> i \<and> (\<exists>a b. calls ce a b \<and> fmlookup m a = Some s \<and> fmlookup m b = Some i)}"
proof -
  let ?step = "\<lambda>caller callee cs. case fmlookup m caller of
      None \<Rightarrow> cs
    | Some s \<Rightarrow> (case fmlookup m callee of None \<Rightarrow> cs | Some t \<Rightarrow> (if s \<noteq> t then add_dependency s t cs else cs))"
  have skip: "fold (\<lambda>_ cs. cs) xs cs = cs" for xs :: "string list" and cs :: "scc_component list" by (induction xs) auto
  have "link_components m ce cs = fold (\<lambda>(caller, callees) acc. fold (?step caller) (bt_elems callees) acc) (bt_entries ce) cs"
    unfolding link_components_def
    by (rule arg_cong [where f = "\<lambda>f. fold f (bt_entries ce) cs"]) (auto simp: fun_eq_iff skip split: option.split)
  then have fold: "link_components m ce cs = fold (\<lambda>(a, b). ?step a b) (call_pairs ce) cs" by (simp only: nested_fold)
  have pairs: "(\<exists>(a, b) \<in> set (call_pairs ce). P a b) \<longleftrightarrow> (\<exists>a b. calls ce a b \<and> P a b)" for P
    by (auto simp: Bex_def set_call_pairs)
  note linked = link_fold [where m = m and cs = cs and ps = "call_pairs ce", OF range, folded fold, unfolded pairs]
  show "length (link_components m ce cs) = length cs" "same_component (link_components m ce cs ! i) (cs ! i)"
    "fset (sc_depends_on (link_components m ce cs ! i)) = fset (sc_depends_on (cs ! i)) \<union>
      {t. i \<noteq> t \<and> (\<exists>a b. calls ce a b \<and> fmlookup m a = Some i \<and> fmlookup m b = Some t)}"
    "fset (sc_depended_by (link_components m ce cs ! i)) = fset (sc_depended_by (cs ! i)) \<union>
      {s. s \<noteq> i \<and> (\<exists>a b. calls ce a b \<and> fmlookup m a = Some s \<and> fmlookup m b = Some i)}"
    using linked i by blast+
qed


section \<open>The component graph\<close>

lemma recursive_iff:
  assumes members: "\<And>a. a \<in> M \<Longrightarrow> M = {b. (calls ce)\<^sup>*\<^sup>* a b \<and> (calls ce)\<^sup>*\<^sup>* b a}" and "finite M"
  shows "card M > 1 \<or> (\<exists>a \<in> M. calls ce a a) \<longleftrightarrow> (\<exists>a \<in> M. (calls ce)\<^sup>+\<^sup>+ a a)"
proof
  assume "card M > 1 \<or> (\<exists>a \<in> M. calls ce a a)"
  then show "\<exists>a \<in> M. (calls ce)\<^sup>+\<^sup>+ a a"
  proof
    assume "card M > 1"
    then obtain a b where ab: "a \<in> M" "b \<in> M" "a \<noteq> b" by (metis One_nat_def card_le_Suc0_iff_eq assms(2) not_le)
    then have "(calls ce)\<^sup>*\<^sup>* a b" "(calls ce)\<^sup>*\<^sup>* b a" using members [OF ab(1)] by auto
    with ab(3) have "(calls ce)\<^sup>+\<^sup>+ a b" by (metis rtranclpD)
    then have "(calls ce)\<^sup>+\<^sup>+ a a" using \<open>(calls ce)\<^sup>*\<^sup>* b a\<close> by (rule tranclp_rtranclp_tranclp)
    with ab(1) show ?thesis by blast
  qed blast
next
  assume "\<exists>a \<in> M. (calls ce)\<^sup>+\<^sup>+ a a"
  then obtain a c where a: "a \<in> M" "calls ce a c" "(calls ce)\<^sup>*\<^sup>* c a" by (metis tranclpD)
  then have "c \<in> M" using members [OF a(1)] by auto
  show "card M > 1 \<or> (\<exists>a \<in> M. calls ce a a)"
  proof (cases "c = a")
    case False
    with a(1) \<open>c \<in> M\<close> assms(2) have "\<not> card M \<le> Suc 0" by (auto simp: card_le_Suc0_iff_eq)
    then show ?thesis by simp
  qed (use a in auto)
qed

text \<open>What \<open>from_call_edges\<close> promises of the component at a position.\<close>

definition component_spec :: "call_edges \<Rightarrow> scc_component list \<Rightarrow> nat \<Rightarrow> bool" where
  "component_spec ce cs i \<longleftrightarrow>
     sc_id (cs ! i) = i \<and> sc_members (cs ! i) \<noteq> {||} \<and>
     (\<forall>a. a |\<in>| sc_members (cs ! i) \<longrightarrow> fset (sc_members (cs ! i)) =
        {b. (calls ce)\<^sup>*\<^sup>* a b \<and> (calls ce)\<^sup>*\<^sup>* b a}) \<and>
     (sc_is_recursive (cs ! i) \<longleftrightarrow> (\<exists>a. a |\<in>| sc_members (cs ! i) \<and> (calls ce)\<^sup>+\<^sup>+ a a)) \<and>
     fset (sc_depends_on (cs ! i)) =
       {j. j < i \<and> (\<exists>a b. a |\<in>| sc_members (cs ! i) \<and> b |\<in>| sc_members (cs ! j) \<and> calls ce a b)} \<and>
     fset (sc_depended_by (cs ! i)) =
       {j. i < j \<and> j < length cs \<and> (\<exists>a b. a |\<in>| sc_members (cs ! j) \<and> b |\<in>| sc_members (cs ! i) \<and> calls ce a b)}"

lemma length_components:
  assumes "distinct (concat sccs)" and "finished sccs = {..<n}" and "[] \<notin> set sccs"
  shows "length sccs \<le> n"
proof -
  have "length sccs \<le> length (concat sccs)" using assms(3)
  proof (induction sccs)
    case (Cons C sccs)
    then have "Suc 0 \<le> length C" by (cases C) auto
    moreover have "length sccs \<le> length (concat sccs)" using Cons by simp
    ultimately show ?case using add_mono [of "Suc 0" "length C"] by simp
  qed simp
  also have "\<dots> = n" using distinct_card [OF assms(1)] assms(2) by simp
  finally show ?thesis .
qed

text \<open>The construction in terms of the component search.\<close>

lemma from_call_edges_parts:
  assumes nonempty: "all_callables ce \<noteq> {||}" and small: "fcard (all_callables ce) \<le> 2 ^ 32"
    and ks: "ks = bt_elems (all_callables ce)" and adj: "adj = build_adjacency (index_map ks) (length ks) ce"
  obtains sccs m cs where "from_call_edges ce = Some \<lparr> sg_components = cs, sg_callable_to_scc = m \<rparr>"
    "components_ok adj sccs" "distinct (concat sccs)" "finished sccs = {..<length ks}" "length cs = length sccs"
    "\<And>a i. fmlookup m a = Some i \<longleftrightarrow> i < length sccs \<and> a \<in> (!) ks ` set (sccs ! i)"
    "\<And>i. i < length sccs \<Longrightarrow> sc_id (cs ! i) = i \<and> same_component (cs ! i) (plain_component ks adj i (sccs ! i))"
    "\<And>i. i < length sccs \<Longrightarrow> fset (sc_depends_on (cs ! i)) =
       {t. i \<noteq> t \<and> (\<exists>a b. calls ce a b \<and> fmlookup m a = Some i \<and> fmlookup m b = Some t)}"
    "\<And>i. i < length sccs \<Longrightarrow> fset (sc_depended_by (cs ! i)) =
       {t. t \<noteq> i \<and> (\<exists>a b. calls ce a b \<and> fmlookup m a = Some t \<and> fmlookup m b = Some i)}"
proof -
  note graph = build_adjacency_ok [OF ks adj]
  obtain sccs where run: "tarjan_scc (length ks) adj = Some sccs" and ok: "components_ok adj sccs"
    and parts: "distinct (concat sccs)" "finished sccs = {..<length ks}"
    using tarjan_scc_components [OF graph(2)] by (auto simp: graph(1))
  have dist: "distinct ks" by (simp add: ks)
  have range: "list_all (list_all (\<lambda>v. v < length ks)) sccs"
  proof -
    have "v < length ks" if "C \<in> set sccs" "v \<in> set C" for C v using parts(2) that by auto
    then show ?thesis by (simp add: list_all_iff)
  qed
  have ne: "[] \<notin> set sccs" using ok by (auto simp: components_ok_def component_def list_all_iff)
  have "length sccs \<le> length ks" by (rule length_components [OF parts ne])
  also have "\<dots> = fcard (all_callables ce)" by (simp add: ks bt_elems_def sorted_list_of_fset.rep_eq fcard.rep_eq)
  finally have len: "length sccs \<le> 2 ^ 32" using small by simp
  define g where "g = fold (push_component ks adj) (List.enumerate 0 sccs) scc_graph_default"
  let ?m = "sg_callable_to_scc g" and ?cs = "link_components (sg_callable_to_scc g) ce (sg_components g)"
  have comps: "sg_components g = map (\<lambda>(i, C). plain_component ks adj i C) (List.enumerate 0 sccs)"
    and lookup: "\<And>a i. fmlookup ?m a = Some i \<longleftrightarrow> i < length sccs \<and> a \<in> (!) ks ` set (sccs ! i)"
    using components_fold [OF parts(1) range dist len g_def] by blast+
  have plain: "sg_components g ! i = plain_component ks adj i (sccs ! i)" if "i < length sccs" for i
    using that by (simp add: comps nth_enumerate_eq)
  have len_g: "length (sg_components g) = length sccs" by (simp add: comps)
  then have "\<forall>a s. fmlookup ?m a = Some s \<longrightarrow> s < length (sg_components g)" using lookup by simp
  note linked = link_components_nth [OF this, unfolded len_g]
  show thesis
  proof (rule that [of ?cs ?m sccs, OF _ ok parts _ lookup])
    show "from_call_edges ce = Some \<lparr> sg_components = ?cs, sg_callable_to_scc = ?m \<rparr>"
      using nonempty run range by (simp add: from_call_edges_def Let_def ks [symmetric] adj [symmetric] g_def [symmetric])
    show "length ?cs = length sccs"
    proof (cases "sccs = []")
      case True
      then have "{..<length ks} = {}" using parts(2) by simp
      then have "set ks = {}" by (simp add: lessThan_empty_iff)
      then have "all_callables ce = {||}" by (simp add: ks flip: fset_inject)
      with nonempty show ?thesis by simp
    qed (use linked(1) [of 0] in simp)
  qed (use linked plain len in \<open>auto simp: plain_component_def\<close>)
qed

lemma reached_callable:
  assumes "(calls ce)\<^sup>*\<^sup>* a b" and "a |\<in>| all_callables ce"
  shows "b |\<in>| all_callables ce"
  using assms by (induction rule: rtranclp_induct) (auto simp: all_callables_iff)

lemma component_members:
  assumes ks: "ks = bt_elems (all_callables ce)" and adj: "adj = build_adjacency (index_map ks) (length ks) ce"
    and C: "component adj C" "list_all (\<lambda>v. v < length ks) C" and a: "a \<in> (!) ks ` set C"
  shows "(!) ks ` set C = {b. (calls ce)\<^sup>*\<^sup>* a b \<and> (calls ce)\<^sup>*\<^sup>* b a}"
proof -
  note graph = build_adjacency_ok [OF ks adj]
  obtain u where u: "u \<in> set C" "a = ks ! u" "u < length ks" using a C(2) by (auto simp: list_all_iff)
  have dist: "distinct ks" and callee: "b \<in> set ks" if "calls ce a b" for a b
    using that by (auto simp: ks all_callables_iff)
  have reach: "reach adj i j \<longleftrightarrow> (calls ce)\<^sup>*\<^sup>* (ks ! i) (ks ! j)" if "i < length ks" "j < length ks" for i j
    using reach_calls [where adj = adj and ks = ks and ce = ce] graph(3) that ks all_callables_iff by fastforce
  show ?thesis
  proof (intro set_eqI iffI)
    fix b assume "b \<in> (!) ks ` set C"
    then obtain v where v: "v \<in> set C" "b = ks ! v" "v < length ks" using C(2) by (auto simp: list_all_iff)
    then have "reach adj u v" "reach adj v u" using C(1) u by (auto simp: component_def)
    then show "b \<in> {b. (calls ce)\<^sup>*\<^sup>* a b \<and> (calls ce)\<^sup>*\<^sup>* b a}" using reach u v by simp
  next
    fix b assume b: "b \<in> {b. (calls ce)\<^sup>*\<^sup>* a b \<and> (calls ce)\<^sup>*\<^sup>* b a}"
    moreover have "a |\<in>| all_callables ce" using u(2,3) nth_mem [OF u(3)] by (simp add: ks)
    ultimately have "b \<in> set ks" using reached_callable [of ce a b] by (simp add: ks)
    then obtain v where v: "v < length ks" "b = ks ! v" by (metis in_set_conv_nth)
    then have "reach adj u v" "reach adj v u" using reach u b by simp_all
    then have "v \<in> set C" using C(1) u(1) by (auto simp: component_def)
    with v(2) show "b \<in> (!) ks ` set C" by simp
  qed
qed

lemma scc_graph_component:
  assumes ks: "ks = bt_elems (all_callables ce)" and adj: "adj = build_adjacency (index_map ks) (length ks) ce"
    and ok: "components_ok adj sccs" "distinct (concat sccs)" "finished sccs = {..<length ks}" and len: "length cs = length sccs"
    and lookup: "\<And>a i. fmlookup m a = Some i \<longleftrightarrow> i < length sccs \<and> a \<in> (!) ks ` set (sccs ! i)"
    and plain: "\<And>i. i < length sccs \<Longrightarrow> sc_id (cs ! i) = i \<and> same_component (cs ! i) (plain_component ks adj i (sccs ! i))"
    and depends: "fset (sc_depends_on (cs ! i)) =
       {t. i \<noteq> t \<and> (\<exists>a b. calls ce a b \<and> fmlookup m a = Some i \<and> fmlookup m b = Some t)}"
    and depended: "fset (sc_depended_by (cs ! i)) =
       {t. t \<noteq> i \<and> (\<exists>a b. calls ce a b \<and> fmlookup m a = Some t \<and> fmlookup m b = Some i)}"
    and i: "i < length sccs"
  shows "component_spec ce cs i"
proof -
  note graph = build_adjacency_ok [OF ks adj]
  have members: "fset (sc_members (cs ! j)) = (!) ks ` set (sccs ! j)" if "j < length sccs" for j
    using plain [OF that] by (simp add: plain_component_def fset_of_list.rep_eq)
  have range: "list_all (\<lambda>v. v < length ks) (sccs ! j)" if "j < length sccs" for j
    using ok(3) nth_mem [OF that] by (auto simp: list_all_iff)
  have comp: "component adj (sccs ! j)" if "j < length sccs" for j
    using ok(1) that by (simp add: components_ok_def list_all_length)
  have lookup': "fmlookup m a = Some j \<longleftrightarrow> j < length sccs \<and> a |\<in>| sc_members (cs ! j)" for a j
    using lookup [of a j] members [of j] by auto
  have pointing: "k \<le> j" if "calls ce a b" "fmlookup m a = Some j" "fmlookup m b = Some k" for a b j k
  proof -
    from that(2,3) obtain u v where uv: "j < length sccs" "k < length sccs" "u \<in> set (sccs ! j)" "v \<in> set (sccs ! k)"
      "a = ks ! u" "b = ks ! v" by (auto simp: lookup)
    then have "edge adj u v" using that(1) range [of j] range [of k] by (simp add: graph(3) list_all_iff)
    then show ?thesis by (rule edges_point_back [OF ok(1,2) uv(1-4)])
  qed
  let ?M = "fset (sc_members (cs ! i))"
  have same: "?M = {b. (calls ce)\<^sup>*\<^sup>* a b \<and> (calls ce)\<^sup>*\<^sup>* b a}" if "a \<in> ?M" for a
    using component_members [OF ks adj comp [OF i] range [OF i], of a] that unfolding members [OF i] by blast
  have "?M \<noteq> {}" using comp [OF i] by (simp add: members [OF i] component_def)
  then have "sc_members (cs ! i) \<noteq> {||}" by auto
  moreover have "sc_is_recursive (cs ! i) \<longleftrightarrow> (\<exists>a \<in> ?M. (calls ce)\<^sup>+\<^sup>+ a a)"
  proof -
    have self: "v \<in> set (adj ! v) \<longleftrightarrow> calls ce (ks ! v) (ks ! v)" if "v \<in> set (sccs ! i)" for v
      using graph(3) [of v v] range [OF i] that by (auto simp: edge_def graph(1) list_all_iff)
    have "sc_is_recursive (cs ! i) \<longleftrightarrow> card ?M > 1 \<or> (\<exists>a \<in> ?M. calls ce a a)"
      using plain [OF i] self unfolding members [OF i]
      by (auto simp: plain_component_def fcard.rep_eq fset_of_list.rep_eq list_ex_iff)
    with recursive_iff [OF same] show ?thesis by simp
  qed
  moreover have "fset (sc_depends_on (cs ! i)) =
      {j. j < i \<and> (\<exists>a b. a |\<in>| sc_members (cs ! i) \<and> b |\<in>| sc_members (cs ! j) \<and> calls ce a b)}"
    unfolding depends using pointing i by (fastforce simp: lookup' le_neq_implies_less)
  moreover have "fset (sc_depended_by (cs ! i)) =
      {j. i < j \<and> j < length cs \<and> (\<exists>a b. a |\<in>| sc_members (cs ! j) \<and> b |\<in>| sc_members (cs ! i) \<and> calls ce a b)}"
    unfolding depended using pointing i len by (fastforce simp: lookup' le_neq_implies_less)
  ultimately show ?thesis using same plain [OF i] unfolding component_spec_def by blast
qed

text \<open>
  C17: with at most \<open>2 ^ 32\<close> callables, building the component graph of a call graph does not panic, and the
  components are listed with callees first: the component at position \<open>i\<close> has the id \<open>i\<close>, its members are
  the callables that are mutually reachable from any one of them, it is recursive exactly if a member
  calls itself, directly or not, its dependencies are the earlier components a member calls into and its
  dependents the later ones that call into it. The map sends a callable to the one component that has it.
\<close>

theorem scc_graph_correct:
  assumes small: "fcard (all_callables ce) \<le> 2 ^ 32"
  shows "\<exists>graph. from_call_edges ce = Some graph \<and>
     (\<forall>i < length (sg_components graph). component_spec ce (sg_components graph) i) \<and>
     (\<forall>a i. fmlookup (sg_callable_to_scc graph) a = Some i \<longleftrightarrow>
        i < length (sg_components graph) \<and> a |\<in>| sc_members (sg_components graph ! i)) \<and>
     fmdom (sg_callable_to_scc graph) = all_callables ce"
proof (cases "all_callables ce = {||}")
  case True
  then show ?thesis by (simp add: from_call_edges_def scc_graph_default_def)
next
  case False
  define ks where "ks = bt_elems (all_callables ce)"
  define adj where "adj = build_adjacency (index_map ks) (length ks) ce"
  obtain sccs m cs where run: "from_call_edges ce = Some \<lparr> sg_components = cs, sg_callable_to_scc = m \<rparr>"
    and ok: "components_ok adj sccs" "distinct (concat sccs)" "finished sccs = {..<length ks}" and len: "length cs = length sccs"
    and lookup: "\<And>a i. fmlookup m a = Some i \<longleftrightarrow> i < length sccs \<and> a \<in> (!) ks ` set (sccs ! i)"
    and plain: "\<And>i. i < length sccs \<Longrightarrow> sc_id (cs ! i) = i \<and> same_component (cs ! i) (plain_component ks adj i (sccs ! i))"
    and deps: "\<And>i. i < length sccs \<Longrightarrow> fset (sc_depends_on (cs ! i)) =
       {t. i \<noteq> t \<and> (\<exists>a b. calls ce a b \<and> fmlookup m a = Some i \<and> fmlookup m b = Some t)}"
      "\<And>i. i < length sccs \<Longrightarrow> fset (sc_depended_by (cs ! i)) =
       {t. t \<noteq> i \<and> (\<exists>a b. calls ce a b \<and> fmlookup m a = Some t \<and> fmlookup m b = Some i)}"
    by (rule from_call_edges_parts [OF False small ks_def adj_def]) blast
  have "component_spec ce cs i" if "i < length cs" for i
    using scc_graph_component [OF ks_def adj_def ok len lookup plain deps] that len by simp
  moreover have "fmlookup m a = Some i \<longleftrightarrow> i < length cs \<and> a |\<in>| sc_members (cs ! i)" for a i
    using lookup [of a i] plain [of i] len by (auto simp: plain_component_def fset_of_list.rep_eq)
  moreover have "fmdom m = all_callables ce"
  proof -
    have all: "(\<Union>i < length sccs. set (sccs ! i)) = {..<length ks}"
      using ok(3) unfolding set_concat set_conv_nth [of sccs] by blast
    have "fset (fmdom m) = (\<Union>i < length sccs. (!) ks ` set (sccs ! i))"
      by (rule set_eqI) (simp add: fmlookup_dom_iff lookup Bex_def)
    also have "\<dots> = (!) ks ` {..<length ks}" by (simp only: all flip: image_UN)
    also have "\<dots> = set ks" by (auto simp: in_set_conv_nth image_iff)
    finally show ?thesis by (simp add: ks_def fset_inject)
  qed
  ultimately show ?thesis using run by simp
qed


section \<open>Samples\<close>

text \<open>A cycle of two callables that calls a third one.\<close>

definition sample_adjacency :: "nat list list" where
  "sample_adjacency = [[1], [0, 2], []]"

definition sample_calls :: call_edges where
  "sample_calls = fmap_of_list [(''a'', {|''b''|}), (''b'', {|''a'', ''c''|})]"

lemma sample_components: "tarjan_scc 3 sample_adjacency = Some [[2], [0, 1]]"
  by code_simp

theorem tarjan_computes_components_witness:
  "tarjan_scc 3 sample_adjacency = Some [[2], [0, 1]] \<and> reach sample_adjacency 0 1 \<and> reach sample_adjacency 1 0"
proof -
  have ok: "graph_ok sample_adjacency" and len: "length sample_adjacency = 3"
    by (simp_all add: sample_adjacency_def graph_ok_def)
  obtain sccs where "tarjan_scc (length sample_adjacency) sample_adjacency = Some sccs"
    and all: "list_all (\<lambda>C. C \<noteq> [] \<and> sorted C \<and>
       (\<forall>u \<in> set C. set C = {v. reach sample_adjacency u v \<and> reach sample_adjacency v u})) sccs"
    using tarjan_computes_components [OF ok] by (elim exE conjE)
  then have "sccs = [[2], [0, 1]]" by (simp add: len sample_components)
  with all have "set [0, 1] = {v. reach sample_adjacency 0 v \<and> reach sample_adjacency v 0}" by simp
  then have "1 \<in> {v. reach sample_adjacency 0 v \<and> reach sample_adjacency v 0}" by auto
  with sample_components show ?thesis by simp
qed

lemma sample_callables: "fset (all_callables sample_calls) \<subseteq> {''a'', ''b'', ''c''}"
  by (auto simp: all_callables_iff calls_def sample_calls_def fmlookup_of_list split: if_splits)

theorem scc_graph_correct_witness:
  "\<exists>graph. from_call_edges sample_calls = Some graph \<and> fmdom (sg_callable_to_scc graph) = all_callables sample_calls \<and>
     scc_of graph ''a'' \<noteq> None"
proof -
  have "card (fset (all_callables sample_calls)) \<le> card {''a'', ''b'', ''c''}"
    by (rule card_mono [OF _ sample_callables]) simp
  then have "fcard (all_callables sample_calls) \<le> 2 ^ 32" by (simp add: fcard.rep_eq)
  from scc_graph_correct [OF this] obtain graph where graph: "from_call_edges sample_calls = Some graph"
    "fmdom (sg_callable_to_scc graph) = all_callables sample_calls" by blast
  moreover have "''a'' |\<in>| all_callables sample_calls" by (simp add: all_callables_iff sample_calls_def)
  ultimately show ?thesis by (auto simp: scc_of_def fmlookup_dom_iff)
qed

end
