(* ===== verification/Cfg_Graph.thy ===== *)
theory Cfg_Graph
  imports Icfg Stable_Key
begin

text \<open>
  The control-flow graph of one function and one view, as \<open>analysis_neutral/cfg/graph.rs\<close> builds it from the
  rows of \<open>CfgOutput\<close>: either alone (\<open>CfgGraph::new\<close>) or from an index over all functions
  (\<open>CfgGraphIndex\<close>). Successor and predecessor lists are sorted, free of repetitions and of self loops. The last
  section shows that the two lists are converses of each other and that the two constructions agree.
\<close>

section \<open>Rows and graph\<close>

record cfg_rows =
  co_functions :: "cfg_function_fact list"
  co_nodes :: "cfg_node_fact list"
  co_blocks :: "basic_block_fact list"
  co_edges :: "cfg_edge_fact list"

record cfg_graph =
  g_function :: cfg_function_id
  g_function_fact :: "cfg_function_fact option"
  g_nodes :: "cfg_node_fact list"
  g_blocks :: "basic_block_fact list"
  g_edges :: "cfg_edge_fact list"
  g_successors :: "(basic_block_id, basic_block_id list) fmap"
  g_predecessors :: "(basic_block_id, basic_block_id list) fmap"

text \<open>The loop over the edges of a graph, and the lists in order and without repetitions.\<close>

definition link_edge ::
  "cfg_edge_fact \<Rightarrow> (basic_block_id, basic_block_id list) fmap \<times> (basic_block_id, basic_block_id list) fmap \<Rightarrow>
     (basic_block_id, basic_block_id list) fmap \<times> (basic_block_id, basic_block_id list) fmap" where
  "link_edge edge = (\<lambda>(successors, predecessors).
     if cfge_from_block edge = cfge_to_block edge then (successors, predecessors)
     else (fm_push (cfge_from_block edge) (cfge_to_block edge) successors,
           fm_push (cfge_to_block edge) (cfge_from_block edge) predecessors))"

definition from_grouped ::
  "cfg_function_id \<Rightarrow> cfg_function_fact option \<Rightarrow> cfg_node_fact list \<Rightarrow> basic_block_fact list \<Rightarrow>
     cfg_edge_fact list \<Rightarrow> cfg_graph" where
  "from_grouped function function_fact nodes blocks edges =
     (let (successors, predecessors) = fold link_edge edges (fmempty, fmempty) in
      \<lparr> g_function = function, g_function_fact = function_fact, g_nodes = nodes, g_blocks = blocks,
        g_edges = edges, g_successors = fmmap (\<lambda>targets. vec_dedup (sort targets)) successors,
        g_predecessors = fmmap (\<lambda>sources. vec_dedup (sort sources)) predecessors \<rparr>)"

definition node_sort_key :: "interner_state \<Rightarrow> cfg_node_fact \<Rightarrow> basic_block_id \<times> nat \<times> string" where
  "node_sort_key interner row = (node_block row, operation_ordinal row, key_text interner (node_stable_key row))"

definition block_sort_key :: "interner_state \<Rightarrow> basic_block_fact \<Rightarrow> nat \<times> string" where
  "block_sort_key interner row = (reverse_postorder row, key_text interner (block_stable_key row))"

definition edge_sort_key ::
  "interner_state \<Rightarrow> cfg_edge_fact \<Rightarrow> basic_block_id \<times> basic_block_id \<times> nat \<times> string" where
  "edge_sort_key interner row =
     (cfge_from_block row, cfge_to_block row, cfg_edge_kind_index (cfge_kind row),
      key_text interner (cfge_stable_key row))"

definition cfg_graph_new :: "interner_state \<Rightarrow> cfg_rows \<Rightarrow> cfg_function_id \<Rightarrow> cfg_view \<Rightarrow> cfg_graph" where
  "cfg_graph_new interner output function view =
     from_grouped function (find (\<lambda>f. cfgf_id f = function) (co_functions output))
       (sort_key (node_sort_key interner) (filter (\<lambda>node. node_cfg_function node = function) (co_nodes output)))
       (sort_key (block_sort_key interner) (filter (\<lambda>block. block_cfg_function block = function) (co_blocks output)))
       (sort_key (edge_sort_key interner)
          (filter (\<lambda>edge. cfge_cfg_function edge = function \<and> cfge_view edge = view) (co_edges output)))"

section \<open>Index\<close>

record cfg_graph_index =
  gi_functions :: "cfg_function_fact list"
  gi_function_by_id :: "(cfg_function_id, cfg_function_fact) fmap"
  gi_nodes_by_function :: "(cfg_function_id, cfg_node_fact list) fmap"
  gi_blocks_by_function :: "(cfg_function_id, basic_block_fact list) fmap"
  gi_edges_by_function_view :: "(cfg_function_id \<times> cfg_view, cfg_edge_fact list) fmap"

definition group_rows :: "('r \<Rightarrow> 'k) \<Rightarrow> 'r list \<Rightarrow> ('k, 'r list) fmap" where
  "group_rows key_of rows = fold (\<lambda>row. fm_push (key_of row) row) rows fmempty"

definition cfg_graph_index_new :: "interner_state \<Rightarrow> cfg_rows \<Rightarrow> cfg_graph_index" where
  "cfg_graph_index_new interner output =
     \<lparr> gi_functions = sort_key (\<lambda>row. key_text interner (cfgf_stable_key row)) (co_functions output),
       gi_function_by_id = fm_collect (map (\<lambda>function. (cfgf_id function, function)) (co_functions output)),
       gi_nodes_by_function =
         fmmap (sort_key (node_sort_key interner)) (group_rows node_cfg_function (co_nodes output)),
       gi_blocks_by_function =
         fmmap (sort_key (block_sort_key interner)) (group_rows block_cfg_function (co_blocks output)),
       gi_edges_by_function_view =
         fmmap (sort_key (edge_sort_key interner))
           (group_rows (\<lambda>edge. (cfge_cfg_function edge, cfge_view edge)) (co_edges output)) \<rparr>"

definition index_graph :: "cfg_graph_index \<Rightarrow> cfg_function_id \<Rightarrow> cfg_view \<Rightarrow> cfg_graph" where
  "index_graph index function view =
     from_grouped function (fmlookup (gi_function_by_id index) function)
       (fm_get_or [] (gi_nodes_by_function index) function)
       (fm_get_or [] (gi_blocks_by_function index) function)
       (fm_get_or [] (gi_edges_by_function_view index) (function, view))"

definition index_graphs :: "cfg_graph_index \<Rightarrow> cfg_view \<Rightarrow> cfg_graph list" where
  "index_graphs index view = map (\<lambda>function. index_graph index (cfgf_id function) view) (gi_functions index)"

section \<open>Accessors\<close>

definition function_stable_key :: "interner_state \<Rightarrow> cfg_graph \<Rightarrow> string" where
  "function_stable_key interner graph =
     (case g_function_fact graph of
        Some function \<Rightarrow> key_text interner (cfgf_stable_key function)
      | None \<Rightarrow> ''<missing-function:'' @ show_nat (g_function graph) @ ''>'')"

definition successor_blocks :: "cfg_graph \<Rightarrow> basic_block_id \<Rightarrow> basic_block_id list" where
  "successor_blocks graph block = fm_get_or [] (g_successors graph) block"

definition predecessor_blocks :: "cfg_graph \<Rightarrow> basic_block_id \<Rightarrow> basic_block_id list" where
  "predecessor_blocks graph block = fm_get_or [] (g_predecessors graph) block"

definition entry_block :: "cfg_graph \<Rightarrow> basic_block_id option" where
  "entry_block graph = map_option block_id (find (\<lambda>block. block_kind block = Block_Entry) (g_blocks graph))"

definition synthetic_exit_block :: "cfg_graph \<Rightarrow> basic_block_id option" where
  "synthetic_exit_block graph =
     map_option block_id (find (\<lambda>block. block_kind block = Block_ExitNormal) (g_blocks graph))"

section \<open>Edges of a graph\<close>

definition block_edge :: "cfg_graph \<Rightarrow> basic_block_id \<Rightarrow> basic_block_id \<Rightarrow> bool" where
  "block_edge graph a b \<longleftrightarrow> b \<in> set (successor_blocks graph a)"

text \<open>Both adjacency maps hold the edges of the rows: the invariant of a built graph.\<close>

definition graph_wf :: "cfg_graph \<Rightarrow> bool" where
  "graph_wf graph \<longleftrightarrow>
     (\<forall>a b. b \<in> set (successor_blocks graph a) \<longleftrightarrow> a \<in> set (predecessor_blocks graph b)) \<and>
     (\<forall>a b. b \<in> set (successor_blocks graph a) \<longleftrightarrow>
        a \<noteq> b \<and> (\<exists>edge \<in> set (g_edges graph). cfge_from_block edge = a \<and> cfge_to_block edge = b))"

lemma block_edge_iff:
  assumes "graph_wf graph"
  shows "block_edge graph a b \<longleftrightarrow>
    a \<noteq> b \<and> (\<exists>edge \<in> set (g_edges graph). cfge_from_block edge = a \<and> cfge_to_block edge = b)"
  using assms unfolding graph_wf_def block_edge_def by (elim conjE allE) assumption

lemma fm_get_or_fmmap: "f d = d \<Longrightarrow> fm_get_or d (fmmap f m) k = f (fm_get_or d m k)"
  by (cases "fmlookup m k") simp_all

lemma link_edges_fold:
  "fold link_edge edges (s, p) = (s', p') \<Longrightarrow>
     (b \<in> set (fm_get_or [] s' a) \<longleftrightarrow> b \<in> set (fm_get_or [] s a) \<or>
        a \<noteq> b \<and> (\<exists>edge \<in> set edges. cfge_from_block edge = a \<and> cfge_to_block edge = b)) \<and>
     (a \<in> set (fm_get_or [] p' b) \<longleftrightarrow> a \<in> set (fm_get_or [] p b) \<or>
        a \<noteq> b \<and> (\<exists>edge \<in> set edges. cfge_from_block edge = a \<and> cfge_to_block edge = b))"
proof (induction edges arbitrary: s p)
  case (Cons edge edges)
  obtain s1 p1 where step: "link_edge edge (s, p) = (s1, p1)" by (cases "link_edge edge (s, p)")
  have "(b \<in> set (fm_get_or [] s1 a) \<longleftrightarrow> b \<in> set (fm_get_or [] s a) \<or>
      a \<noteq> b \<and> cfge_from_block edge = a \<and> cfge_to_block edge = b) \<and>
    (a \<in> set (fm_get_or [] p1 b) \<longleftrightarrow> a \<in> set (fm_get_or [] p b) \<or>
      a \<noteq> b \<and> cfge_from_block edge = a \<and> cfge_to_block edge = b)"
    using step by (auto simp: link_edge_def fm_get_or_push split: if_splits)
  moreover have "fold link_edge edges (s1, p1) = (s', p')" using Cons.prems step by simp
  ultimately show ?case using Cons.IH [of s1 p1] by auto
qed simp

lemma from_grouped_wf: "graph_wf (from_grouped function function_fact nodes blocks edges)"
proof -
  obtain s p where run: "fold link_edge edges (fmempty, fmempty) = (s, p)"
    by (cases "fold link_edge edges (fmempty, fmempty)")
  show ?thesis using link_edges_fold [OF run]
    by (simp add: graph_wf_def from_grouped_def run successor_blocks_def predecessor_blocks_def fm_get_or_fmmap)
qed

lemma index_graphs_wf: "graph \<in> set (index_graphs index view) \<Longrightarrow> graph_wf graph"
  by (auto simp: index_graphs_def index_graph_def from_grouped_wf)

lemma group_rows_eq: "fm_get_or [] (group_rows key_of rows) k = filter (\<lambda>row. key_of row = k) rows"
proof -
  have "fm_get_or [] (fold (\<lambda>row. fm_push (key_of row) row) rows m) k =
      fm_get_or [] m k @ filter (\<lambda>row. key_of row = k) rows" for m
    by (induction rows arbitrary: m) (auto simp: fm_get_or_push)
  then show ?thesis by (simp add: group_rows_def)
qed

lemma find_by_id:
  "distinct (map key_of rows) \<Longrightarrow> fmlookup (fm_collect (map (\<lambda>r. (key_of r, r)) rows)) k = find (\<lambda>r. key_of r = k) rows"
proof (induction rows)
  case (Cons r rows)
  have "map_of (rev (map (\<lambda>r. (key_of r, r)) rows)) (key_of r) = None"
    using Cons.prems by (auto simp: map_of_eq_None_iff)
  with Cons show ?case by (auto simp: lookup_fm_collect map_add_def split: option.splits)
qed (simp add: lookup_fm_collect)

text \<open>The graph of the index is the graph built alone, when no two functions have the same id.\<close>

lemma index_graph_eq_new:
  assumes "distinct (map cfgf_id (co_functions output))"
  shows "index_graph (cfg_graph_index_new interner output) function view = cfg_graph_new interner output function view"
proof -
  have pair: "(\<lambda>edge. (cfge_cfg_function edge, cfge_view edge) = (function, view)) =
      (\<lambda>edge. cfge_cfg_function edge = function \<and> cfge_view edge = view)" by auto
  show ?thesis
    unfolding index_graph_def cfg_graph_new_def cfg_graph_index_new_def
    by (simp add: fm_get_or_fmmap group_rows_eq find_by_id [OF assms] pair del: Pair_inject)
qed

end
