(* ===== verification/Dom_Array.thy ===== *)
theory Dom_Array
  imports Prelude
begin

text \<open>
  The iteration of \<open>dom_tree\<close> in \<open>analysis_neutral/cfg/derived.rs\<close> on positions in reverse postorder: \<open>doms\<close> holds
  the current parent of every position, \<open>intersect\<close> walks two positions up to their nearest common ancestor, and
  the outer loop repeats a pass over all positions until nothing changes. The sentinel \<open>UNPROCESSED\<close>, which no
  position reaches, is \<open>None\<close>; following it is an access out of range. An index out of range is a panic and
  an endless loop does not return: both are \<open>None\<close>. The theory \<open>Dom_Array_Correct\<close> shows that neither
  happens.
\<close>

type_synonym doms = "nat option list"

text \<open>The two inner loops of \<open>intersect\<close>, which differ only in the finger they move.\<close>

partial_function (option) climb :: "doms \<Rightarrow> nat \<Rightarrow> nat \<Rightarrow> nat option" where
  "climb doms cursor limit =
     (if cursor > limit
      then if cursor < length doms
           then case doms ! cursor of None \<Rightarrow> None | Some parent \<Rightarrow> climb doms parent limit
           else None
      else Some cursor)"

partial_function (option) intersect :: "doms \<Rightarrow> nat \<Rightarrow> nat \<Rightarrow> nat option" where
  "intersect doms left right =
     (if left = right then Some left
      else Option.bind (climb doms left right) (\<lambda>left.
        Option.bind (climb doms right left) (\<lambda>right. intersect doms left right)))"

text \<open>The loop over the predecessors of one position.\<close>

definition consider_predecessor :: "doms \<Rightarrow> nat \<Rightarrow> nat option \<Rightarrow> nat option option" where
  "consider_predecessor doms predecessor candidate =
     (if predecessor \<ge> length doms then None
      else if doms ! predecessor = None then Some candidate
      else case candidate of
        None \<Rightarrow> Some (Some predecessor)
      | Some current \<Rightarrow> map_option Some (intersect doms predecessor current))"

definition dom_candidate :: "doms \<Rightarrow> nat list \<Rightarrow> nat option option" where
  "dom_candidate doms predecessors = try_fold (consider_predecessor doms) predecessors None"

definition dom_step :: "nat list list \<Rightarrow> nat \<Rightarrow> doms \<times> bool \<Rightarrow> (doms \<times> bool) option" where
  "dom_step predecessors index = (\<lambda>(doms, changed).
     if index \<ge> length predecessors \<or> index \<ge> length doms then None
     else map_option (\<lambda>candidate. case candidate of
         None \<Rightarrow> (doms, changed)
       | Some c \<Rightarrow> if doms ! index \<noteq> Some c then (doms[index := Some c], True) else (doms, changed))
       (dom_candidate doms (predecessors ! index)))"

definition dom_pass :: "nat list list \<Rightarrow> doms \<Rightarrow> (doms \<times> bool) option" where
  "dom_pass predecessors doms = try_fold (dom_step predecessors) [1..<length predecessors] (doms, False)"

partial_function (option) dom_iterate :: "nat list list \<Rightarrow> doms \<Rightarrow> doms option" where
  "dom_iterate predecessors doms =
     Option.bind (dom_pass predecessors doms) (\<lambda>(doms, changed).
       if changed then dom_iterate predecessors doms else Some doms)"

declare climb.simps [code] intersect.simps [code] dom_iterate.simps [code]

definition dom_start :: "nat \<Rightarrow> doms" where
  "dom_start n = (if n = 0 then [] else (replicate n None)[0 := Some 0])"

end
