(* ===== verification/Dom_Tree.thy ===== *)
theory Dom_Tree
  imports Cfg_Graph Dom_Array
begin

text \<open>
  Dominator trees of \<open>analysis_neutral/cfg/derived.rs\<close>: the walk from a root in either direction, the reverse
  postorder of the blocks it reaches, the tree over their positions (computed by the iteration of
  \<open>Dom_Array\<close>), and the queries on the tree. The arguments that \<open>dom_tree\<close> hands to each of its helpers, the
  graph, the root, the direction, the universe and the selected exits, are the record \<open>dom_walk\<close>. The
  positions stored in a tree are positions of its vectors; loops that follow parents are partial functions, and
  \<open>Dom_Tree_Correct\<close> shows that they return.
\<close>

section \<open>Reachable blocks\<close>

definition target_blocks :: "cfg_graph \<Rightarrow> basic_block_id set" where
  "target_blocks graph = (\<Union>targets \<in> fset (fmran (g_successors graph)). set targets)"

lemma finite_target_blocks [simp]: "finite (target_blocks graph)"
  by (simp add: target_blocks_def)

lemma successors_targets: "set (successor_blocks graph block) \<subseteq> target_blocks graph"
  by (cases "fmlookup (g_successors graph) block")
    (auto simp: successor_blocks_def target_blocks_def intro: fmranI)

text \<open>The stack of the loop is kept with its top first.\<close>

function reachable_loop :: "cfg_graph \<Rightarrow> basic_block_id list \<Rightarrow> basic_block_id fset \<Rightarrow> basic_block_id fset" where
  "reachable_loop graph [] seen = seen"
| "reachable_loop graph (block # stack) seen =
     (if block |\<in>| seen then reachable_loop graph stack seen
      else reachable_loop graph (successor_blocks graph block @ stack) (finsert block seen))"
  by pat_completeness auto

termination
proof (relation "inv_image (less_than <*lex*> less_than)
    (\<lambda>(graph, stack, seen). (card ((target_blocks graph \<union> set stack) - fset seen), length stack))", goal_cases)
  case (2 graph block stack seen)
  have "card ((target_blocks graph \<union> set stack) - fset seen) \<le> card ((target_blocks graph \<union> set (block # stack)) - fset seen)"
    by (rule card_mono) auto
  then show ?case by (simp add: le_less)
next
  case (3 graph block stack seen)
  have "card ((target_blocks graph \<union> set (successor_blocks graph block @ stack)) - fset (finsert block seen))
      < card ((target_blocks graph \<union> set (block # stack)) - fset seen)"
    using 3 successors_targets [of graph block] by (intro psubset_card_mono) auto
  then show ?case by simp
qed auto

definition reachable_blocks :: "cfg_graph \<Rightarrow> basic_block_id fset" where
  "reachable_blocks graph =
     (case entry_block graph of None \<Rightarrow> {||} | Some entry \<Rightarrow> reachable_loop graph [entry] {||})"

section \<open>The walk\<close>

datatype direction = Forward | Reverse

record dom_walk =
  dw_graph :: cfg_graph
  dw_root :: basic_block_id
  dw_direction :: direction
  dw_universe :: "basic_block_id fset"
  dw_exits :: "basic_block_id fset"

definition in_universe :: "dom_walk \<Rightarrow> basic_block_id list \<Rightarrow> basic_block_id list" where
  "in_universe w blocks = filter (\<lambda>block. block |\<in>| dw_universe w) blocks"

definition collect_reversed_predecessors :: "dom_walk \<Rightarrow> basic_block_id \<Rightarrow> basic_block_id list" where
  "collect_reversed_predecessors w block =
     (if block = dw_root w then []
      else in_universe w (successor_blocks (dw_graph w) block) @
        (if block |\<in>| dw_exits w then [dw_root w] else []))"

definition walk_predecessors :: "dom_walk \<Rightarrow> basic_block_id \<Rightarrow> basic_block_id list" where
  "walk_predecessors w block =
     (case dw_direction w of
        Forward \<Rightarrow> in_universe w (predecessor_blocks (dw_graph w) block)
      | Reverse \<Rightarrow> collect_reversed_predecessors w block)"

definition walk_successors :: "dom_walk \<Rightarrow> basic_block_id \<Rightarrow> basic_block_id list" where
  "walk_successors w block =
     (case dw_direction w of
        Forward \<Rightarrow> in_universe w (successor_blocks (dw_graph w) block)
      | Reverse \<Rightarrow>
          if block = dw_root w then in_universe w (bt_elems (dw_exits w))
          else in_universe w (predecessor_blocks (dw_graph w) block))"

lemma walk_successors_universe: "x \<in> set (walk_successors w block) \<Longrightarrow> x |\<in>| dw_universe w"
  by (auto simp: walk_successors_def in_universe_def split: direction.splits if_splits)

section \<open>Reverse postorder\<close>

record rpo_frame =
  rf_block :: basic_block_id
  rf_successors :: "basic_block_id list"
  rf_cursor :: nat

type_synonym rpo_state = "rpo_frame list \<times> basic_block_id fset \<times> basic_block_id list"

text \<open>One iteration on a stack, top first, that is not empty.\<close>

definition rpo_open :: "dom_walk \<Rightarrow> basic_block_id \<Rightarrow> rpo_frame" where
  "rpo_open w block = \<lparr> rf_block = block, rf_successors = walk_successors w block, rf_cursor = 0 \<rparr>"

definition rpo_step :: "dom_walk \<Rightarrow> rpo_frame \<Rightarrow> rpo_state \<Rightarrow> rpo_state" where
  "rpo_step w frame = (\<lambda>(frames, visited, postorder).
     if rf_cursor frame \<ge> length (rf_successors frame) then (frames, visited, postorder @ [rf_block frame])
     else (let next_block = rf_successors frame ! rf_cursor frame;
               frames' = frame \<lparr> rf_cursor := rf_cursor frame + 1 \<rparr> # frames
           in if next_block |\<in>| visited then (frames', visited, postorder)
              else (rpo_open w next_block # frames', finsert next_block visited, postorder)))"

definition rpo_ahead :: "dom_walk \<Rightarrow> rpo_frame list \<Rightarrow> basic_block_id fset \<Rightarrow> basic_block_id set" where
  "rpo_ahead w frames visited =
     (fset (dw_universe w) \<union> (\<Union>frame \<in> set frames. set (rf_successors frame))) - fset visited"

definition rpo_remaining :: "rpo_frame list \<Rightarrow> nat" where
  "rpo_remaining frames = sum_list (map (\<lambda>frame. length (rf_successors frame) - rf_cursor frame) frames)"

lemma finite_rpo_ahead [simp]: "finite (rpo_ahead w frames visited)"
  by (simp add: rpo_ahead_def)

lemma rpo_step_decreases:
  assumes "rpo_step w frame (frames, visited, postorder) = (frames', visited', postorder')"
  shows "card (rpo_ahead w frames' visited') < card (rpo_ahead w (frame # frames) visited) \<or>
    card (rpo_ahead w frames' visited') \<le> card (rpo_ahead w (frame # frames) visited) \<and>
    (rpo_remaining frames' < rpo_remaining (frame # frames) \<or>
     rpo_remaining frames' \<le> rpo_remaining (frame # frames) \<and> length frames' < length (frame # frames))"
proof (cases "rf_cursor frame \<ge> length (rf_successors frame)")
  case True
  have "rpo_ahead w frames visited \<subseteq> rpo_ahead w (frame # frames) visited" by (auto simp: rpo_ahead_def)
  with True assms show ?thesis by (auto simp: rpo_step_def rpo_remaining_def intro: card_mono)
next
  case False
  let ?next = "rf_successors frame ! rf_cursor frame"
  show ?thesis
  proof (cases "?next |\<in>| visited")
    case True
    with False assms show ?thesis by (auto simp: rpo_step_def rpo_remaining_def rpo_ahead_def Let_def)
  next
    case fresh: False
    have eqs: "frames' = rpo_open w ?next # frame \<lparr> rf_cursor := rf_cursor frame + 1 \<rparr> # frames"
      "visited' = finsert ?next visited"
      using False fresh assms by (auto simp: rpo_step_def Let_def)
    have "rpo_ahead w frames' visited' \<subseteq> rpo_ahead w (frame # frames) visited - {?next}"
    proof
      fix x assume "x \<in> rpo_ahead w frames' visited'"
      then show "x \<in> rpo_ahead w (frame # frames) visited - {?next}"
        by (auto simp: rpo_ahead_def eqs rpo_open_def walk_successors_universe)
    qed
    moreover have "?next \<in> rpo_ahead w (frame # frames) visited" using False fresh by (auto simp: rpo_ahead_def)
    ultimately have "rpo_ahead w frames' visited' \<subset> rpo_ahead w (frame # frames) visited" by blast
    then show ?thesis by (simp add: psubset_card_mono)
  qed
qed

function rpo_loop :: "dom_walk \<Rightarrow> rpo_state \<Rightarrow> basic_block_id list" where
  "rpo_loop w ([], visited, postorder) = postorder"
| "rpo_loop w (frame # frames, visited, postorder) = rpo_loop w (rpo_step w frame (frames, visited, postorder))"
  by pat_completeness auto

termination
proof (relation "inv_image (less_than <*lex*> less_than <*lex*> less_than)
    (\<lambda>(w, frames, visited, postorder). (card (rpo_ahead w frames visited), rpo_remaining frames, length frames))",
    goal_cases)
  case (2 w frame frames visited postorder)
  obtain frames' visited' postorder' where step: "rpo_step w frame (frames, visited, postorder) = (frames', visited', postorder')"
    by (cases "rpo_step w frame (frames, visited, postorder)")
  from rpo_step_decreases [OF step] show ?case by (auto simp: step)
qed auto

definition reverse_postorder_of :: "dom_walk \<Rightarrow> basic_block_id list" where
  "reverse_postorder_of w =
     (if dw_root w |\<notin>| dw_universe w then []
      else rev (rpo_loop w ([rpo_open w (dw_root w)], {|dw_root w|}, [])))"

section \<open>The tree\<close>

record dom_tree =
  t_order :: "basic_block_id list"
  t_position :: "(basic_block_id, nat) fmap"
  t_idom :: "nat option list"
  t_vacuous :: "basic_block_id fset"
  t_root :: basic_block_id
  t_universe_without_root :: "basic_block_id fset"

definition positions :: "basic_block_id list \<Rightarrow> (basic_block_id, nat) fmap" where
  "positions order = fm_collect (map (\<lambda>(index, block). (block, index)) (List.enumerate 0 order))"

definition predecessor_positions :: "dom_walk \<Rightarrow> basic_block_id list \<Rightarrow> nat list list" where
  "predecessor_positions w order =
     map (\<lambda>block. List.map_filter (fmlookup (positions order)) (walk_predecessors w block)) order"

definition dom_tree_of :: "dom_walk \<Rightarrow> dom_tree option" where
  "dom_tree_of w =
     (let order = reverse_postorder_of w in
      map_option (\<lambda>doms.
        \<lparr> t_order = order, t_position = positions order,
          t_idom = map (\<lambda>(index, parent). if index > 0 then parent else None) (List.enumerate 0 doms),
          t_vacuous = dw_universe w |-| fset_of_list order, t_root = dw_root w,
          t_universe_without_root = dw_universe w |-| {|dw_root w|} \<rparr>)
        (dom_iterate (predecessor_positions w order) (dom_start (length order))))"

definition universe :: "dom_tree \<Rightarrow> basic_block_id fset" where
  "universe t = finsert (t_root t) (t_universe_without_root t)"

definition is_vacuous :: "dom_tree \<Rightarrow> basic_block_id \<Rightarrow> bool" where
  "is_vacuous t block \<longleftrightarrow> block |\<in>| t_vacuous t"

definition immediate :: "dom_tree \<Rightarrow> basic_block_id \<Rightarrow> bool \<Rightarrow> basic_block_id option" where
  "immediate t block strip_root =
     (if is_vacuous t block then find (\<lambda>candidate. candidate \<noteq> block) (bt_elems (t_vacuous t))
      else case fmlookup (t_position t) block of
        None \<Rightarrow> None
      | Some position \<Rightarrow>
          (case t_idom t ! position of
             None \<Rightarrow> None
           | Some q \<Rightarrow>
               (let parent = t_order t ! q
                in if strip_root \<and> parent = t_root t then None else Some parent)))"

partial_function (option) dominator_walk :: "dom_tree \<Rightarrow> nat \<Rightarrow> basic_block_id fset \<Rightarrow> basic_block_id fset option" where
  "dominator_walk t cursor found =
     (let found = finsert (t_order t ! cursor) found in
      case t_idom t ! cursor of
        Some parent \<Rightarrow> dominator_walk t parent found
      | None \<Rightarrow> Some found)"

definition dominator_set :: "dom_tree \<Rightarrow> basic_block_id \<Rightarrow> basic_block_id fset option" where
  "dominator_set t block =
     (if is_vacuous t block then Some (universe t)
      else case fmlookup (t_position t) block of
        None \<Rightarrow> Some {||}
      | Some position \<Rightarrow> dominator_walk t position {||})"

partial_function (option) dominates_walk :: "dom_tree \<Rightarrow> nat \<Rightarrow> nat \<Rightarrow> bool option" where
  "dominates_walk t cursor target =
     (if cursor > target
      then case t_idom t ! cursor of None \<Rightarrow> Some False | Some parent \<Rightarrow> dominates_walk t parent target
      else Some (cursor = target))"

declare dominator_walk.simps [code] dominates_walk.simps [code]

definition dominates :: "dom_tree \<Rightarrow> basic_block_id \<Rightarrow> basic_block_id \<Rightarrow> bool option" where
  "dominates t a b =
     (if is_vacuous t b then Some (a = t_root t \<or> a |\<in>| t_universe_without_root t)
      else case (fmlookup (t_position t) a, fmlookup (t_position t) b) of
        (Some target, Some start) \<Rightarrow> dominates_walk t start target
      | _ \<Rightarrow> Some False)"

section \<open>The reverse tree of a function\<close>

text \<open>Ids are 64-bit: the virtual exit is counted down from the largest.\<close>

definition virtual_exit_for :: "cfg_function_id \<Rightarrow> basic_block_id" where
  "virtual_exit_for function = 2 ^ 64 - 1 - function"

definition selected_exit_blocks :: "cfg_graph \<Rightarrow> basic_block_id fset" where
  "selected_exit_blocks graph =
     (let exits = fset_of_list (map block_id (filter (\<lambda>block.
            block_kind block = Block_ExitNormal \<or> block_kind block = Block_ExitExceptional \<or>
            successor_blocks graph (block_id block) = []) (g_blocks graph)))
      in case synthetic_exit_block graph of None \<Rightarrow> exits | Some exit \<Rightarrow> finsert exit exits)"

definition reverse_walk :: "cfg_graph \<Rightarrow> dom_walk option" where
  "reverse_walk graph =
     (let blocks = fset_of_list (map block_id (g_blocks graph)); exits = selected_exit_blocks graph in
      if blocks = {||} \<or> exits = {||} then None
      else (let virtual_exit = virtual_exit_for (g_function graph)
            in Some \<lparr> dw_graph = graph, dw_root = virtual_exit, dw_direction = Reverse,
                 dw_universe = finsert virtual_exit blocks, dw_exits = exits \<rparr>))"

text \<open>The outer option is a computation that does not return, the inner one an empty relation.\<close>

definition reverse_dom_tree :: "cfg_graph \<Rightarrow> dom_tree option option" where
  "reverse_dom_tree graph =
     (case reverse_walk graph of None \<Rightarrow> Some None | Some w \<Rightarrow> map_option Some (dom_tree_of w))"

definition forward_walk :: "cfg_graph \<Rightarrow> basic_block_id \<Rightarrow> dom_walk" where
  "forward_walk graph entry =
     \<lparr> dw_graph = graph, dw_root = entry, dw_direction = Forward, dw_universe = reachable_blocks graph,
       dw_exits = {||} \<rparr>"

end
