(* ===== verification/Rpo_Correct.thy ===== *)
theory Rpo_Correct
  imports Dom_Tree
begin

text \<open>
  The depth-first walk of \<open>reverse_postorder\<close>: it lists exactly the blocks that the walk reaches from its root,
  each once and the root first, and every other block has a predecessor at an earlier position. The loop of
  \<open>reachable_blocks\<close> collects the same set for the edges of the graph.
\<close>

section \<open>Invariant of the walk\<close>

definition walk_edge :: "dom_walk \<Rightarrow> basic_block_id \<Rightarrow> basic_block_id \<Rightarrow> bool" where
  "walk_edge w a b \<longleftrightarrow> b \<in> set (walk_successors w a)"

definition walk_reachable :: "dom_walk \<Rightarrow> basic_block_id \<Rightarrow> bool" where
  "walk_reachable w b \<longleftrightarrow> (walk_edge w)\<^sup>*\<^sup>* (dw_root w) b"

text \<open>The frames of the stack form a path from the root.\<close>

fun rpo_chain :: "dom_walk \<Rightarrow> rpo_frame list \<Rightarrow> bool" where
  "rpo_chain w [] = True"
| "rpo_chain w [f] = (rf_block f = dw_root w)"
| "rpo_chain w (f # g # fs) = (walk_edge w (rf_block g) (rf_block f) \<and> rpo_chain w (g # fs))"

text \<open>A finished block other than the root has a predecessor that finishes later.\<close>

definition later_parent :: "dom_walk \<Rightarrow> rpo_frame list \<Rightarrow> basic_block_id list \<Rightarrow> nat \<Rightarrow> bool" where
  "later_parent w fs post k \<longleftrightarrow>
     (\<exists>p. walk_edge w p (post ! k) \<and>
       (p \<in> rf_block ` set fs \<or> (\<exists>k' > k. k' < length post \<and> post ! k' = p)))"

definition rpo_inv :: "dom_walk \<Rightarrow> rpo_state \<Rightarrow> bool" where
  "rpo_inv w = (\<lambda>(fs, vis, post).
     distinct (map rf_block fs @ post) \<and> fset vis = rf_block ` set fs \<union> set post \<and>
     dw_root w |\<in>| vis \<and> (\<forall>b. b |\<in>| vis \<longrightarrow> walk_reachable w b) \<and>
     (\<forall>f \<in> set fs. rf_successors f = walk_successors w (rf_block f) \<and>
        set (take (rf_cursor f) (rf_successors f)) \<subseteq> fset vis) \<and>
     (\<forall>b \<in> set post. set (walk_successors w b) \<subseteq> fset vis) \<and> rpo_chain w fs \<and>
     (\<forall>k < length post. post ! k \<noteq> dw_root w \<longrightarrow> later_parent w fs post k) \<and>
     (fs = [] \<longrightarrow> post \<noteq> [] \<and> last post = dw_root w))"

lemma rpo_invD:
  assumes "rpo_inv w (fs, vis, post)"
  shows "distinct (map rf_block fs @ post)" "fset vis = rf_block ` set fs \<union> set post" "dw_root w |\<in>| vis"
    "b |\<in>| vis \<Longrightarrow> walk_reachable w b"
    "f \<in> set fs \<Longrightarrow> rf_successors f = walk_successors w (rf_block f)"
    "f \<in> set fs \<Longrightarrow> set (take (rf_cursor f) (rf_successors f)) \<subseteq> fset vis"
    "b \<in> set post \<Longrightarrow> set (walk_successors w b) \<subseteq> fset vis" "rpo_chain w fs"
    "k < length post \<Longrightarrow> post ! k \<noteq> dw_root w \<Longrightarrow> later_parent w fs post k"
    "fs = [] \<Longrightarrow> post \<noteq> [] \<and> last post = dw_root w"
  using assms unfolding rpo_inv_def prod.case by blast+

lemma later_parent_frames:
  "later_parent w fs post k \<Longrightarrow> rf_block ` set fs \<subseteq> rf_block ` set fs' \<Longrightarrow> later_parent w fs' post k"
  unfolding later_parent_def by blast

lemma rpo_chain_block: "rf_block f = rf_block f' \<Longrightarrow> rpo_chain w (f # fs) = rpo_chain w (f' # fs)"
  by (cases fs) simp_all

lemma finish_later_parent:
  assumes "later_parent w (f # fs) post k" "k < length post"
  shows "later_parent w fs (post @ [rf_block f]) k"
proof -
  obtain p where p: "walk_edge w p (post ! k)"
    "p \<in> rf_block ` set (f # fs) \<or> (\<exists>k' > k. k' < length post \<and> post ! k' = p)"
    using assms(1) by (auto simp: later_parent_def)
  then consider "p = rf_block f" | "p \<in> rf_block ` set fs" | k' where "k' > k" "k' < length post" "post ! k' = p"
    by auto
  then have "p \<in> rf_block ` set fs \<or> (\<exists>k' > k. k' < length (post @ [rf_block f]) \<and> (post @ [rf_block f]) ! k' = p)"
  proof cases
    case 1
    then show ?thesis using assms(2) by (intro disjI2 exI [of _ "length post"]) simp
  next
    case 3
    then show ?thesis by (intro disjI2 exI [of _ k']) (simp add: nth_append)
  qed simp
  moreover have "walk_edge w p ((post @ [rf_block f]) ! k)" using p(1) assms(2) by (simp add: nth_append)
  ultimately show ?thesis unfolding later_parent_def by blast
qed

lemma rpo_step_finish:
  assumes inv: "rpo_inv w (f # fs, vis, post)" and full: "rf_cursor f \<ge> length (rf_successors f)"
  shows "rpo_inv w (fs, vis, post @ [rf_block f])"
proof -
  note D = rpo_invD [OF inv]
  have succ: "set (walk_successors w (rf_block f)) \<subseteq> fset vis" using D(5,6) [of f] full by simp
  have chain: "rpo_chain w fs" using D(8) by (cases fs) simp_all
  have parent: "later_parent w fs (post @ [rf_block f]) k"
    if k: "k < length (post @ [rf_block f])" "(post @ [rf_block f]) ! k \<noteq> dw_root w" for k
  proof (cases "k < length post")
    case True
    with k D(9) show ?thesis by (auto simp: nth_append intro: finish_later_parent)
  next
    case False
    then have "k = length post" using k by simp
    with k D(8) show ?thesis by (cases fs) (auto simp: later_parent_def nth_append)
  qed
  have last: "fs = [] \<Longrightarrow> rf_block f = dw_root w" using D(8) by simp
  show ?thesis unfolding rpo_inv_def prod.case
  proof (intro conjI allI impI ballI)
    show "distinct (map rf_block fs @ post @ [rf_block f])" using D(1) by auto
    show "fset vis = rf_block ` set fs \<union> set (post @ [rf_block f])" using D(2) by auto
    show "set (walk_successors w b) \<subseteq> fset vis" if "b \<in> set (post @ [rf_block f])" for b
      using that succ D(7) by auto
  qed (use D(3,4,5,6) chain parent last in auto)
qed

lemma rpo_step_known:
  assumes inv: "rpo_inv w (f # fs, vis, post)" and more: "rf_cursor f < length (rf_successors f)"
    and known: "rf_successors f ! rf_cursor f |\<in>| vis"
  shows "rpo_inv w (f \<lparr> rf_cursor := rf_cursor f + 1 \<rparr> # fs, vis, post)"
proof -
  note D = rpo_invD [OF inv]
  have taken: "set (take (Suc (rf_cursor f)) (rf_successors f)) \<subseteq> fset vis"
    using D(6) [of f] more known by (auto simp: take_Suc_conv_app_nth)
  have chain: "rpo_chain w (f \<lparr> rf_cursor := rf_cursor f + 1 \<rparr> # fs)"
    using D(8) rpo_chain_block [of "f \<lparr> rf_cursor := rf_cursor f + 1 \<rparr>" f] by simp
  have parent: "later_parent w (f \<lparr> rf_cursor := rf_cursor f + 1 \<rparr> # fs) post k"
    if "k < length post" "post ! k \<noteq> dw_root w" for k
    by (rule later_parent_frames [OF D(9) [OF that]]) auto
  show ?thesis unfolding rpo_inv_def prod.case
  proof (intro conjI allI impI ballI)
    fix g assume g: "g \<in> set (f \<lparr> rf_cursor := rf_cursor f + 1 \<rparr> # fs)"
    then show "rf_successors g = walk_successors w (rf_block g)" using D(5) by auto
    show "set (take (rf_cursor g) (rf_successors g)) \<subseteq> fset vis" using g taken D(6) by auto
  qed (use D(1,2,3,4,7) chain parent in auto)
qed

lemma rpo_step_push:
  assumes inv: "rpo_inv w (f # fs, vis, post)" and more: "rf_cursor f < length (rf_successors f)"
    and b: "b = rf_successors f ! rf_cursor f" and fresh: "b |\<notin>| vis"
  shows "rpo_inv w (rpo_open w b # f \<lparr> rf_cursor := rf_cursor f + 1 \<rparr> # fs, finsert b vis, post)"
proof -
  note D = rpo_invD [OF inv]
  let ?f = "f \<lparr> rf_cursor := rf_cursor f + 1 \<rparr>"
  have edge: "walk_edge w (rf_block f) b" using more b D(5) [of f] by (simp add: walk_edge_def)
  have "rf_block f |\<in>| vis" using D(2) by auto
  then have "walk_reachable w (rf_block f)" by (rule D(4))
  then have reach: "walk_reachable w b" using edge by (auto simp: walk_reachable_def intro: rtranclp.rtrancl_into_rtrancl)
  have new: "b \<notin> rf_block ` set (f # fs) \<union> set post" using fresh D(2) by auto
  have taken: "set (take (Suc (rf_cursor f)) (rf_successors f)) \<subseteq> fset (finsert b vis)"
    using D(6) [of f] more b by (auto simp: take_Suc_conv_app_nth)
  have parent: "later_parent w (rpo_open w b # ?f # fs) post k" if "k < length post" "post ! k \<noteq> dw_root w" for k
    by (rule later_parent_frames [OF D(9) [OF that]]) auto
  have chain: "rpo_chain w (?f # fs)" using D(8) rpo_chain_block [of ?f f] by simp
  show ?thesis unfolding rpo_inv_def prod.case
  proof (intro conjI allI impI ballI)
    fix g assume g: "g \<in> set (rpo_open w b # ?f # fs)"
    then show "rf_successors g = walk_successors w (rf_block g)" using D(5) by (auto simp: rpo_open_def)
    show "set (take (rf_cursor g) (rf_successors g)) \<subseteq> fset (finsert b vis)"
      using g D(6) [of g] taken by (auto simp: rpo_open_def)
  next
    show "distinct (map rf_block (rpo_open w b # ?f # fs) @ post)" using D(1) new by (auto simp: rpo_open_def)
    show "fset (finsert b vis) = rf_block ` set (rpo_open w b # ?f # fs) \<union> set post"
      using D(2) by (simp add: rpo_open_def)
    show "rpo_chain w (rpo_open w b # ?f # fs)" using chain edge by (simp add: rpo_open_def)
    show "set (walk_successors w c) \<subseteq> fset (finsert b vis)" if "c \<in> set post" for c using D(7) [OF that] by auto
    show "walk_reachable w c" if "c |\<in>| finsert b vis" for c using that reach D(4) by auto
  qed (use D(3) parent in auto)
qed

lemma rpo_step_inv:
  assumes inv: "rpo_inv w (f # fs, vis, post)"
  shows "rpo_inv w (rpo_step w f (fs, vis, post))"
proof (cases "rf_cursor f \<ge> length (rf_successors f)")
  case True
  with rpo_step_finish [OF inv] show ?thesis by (simp add: rpo_step_def)
next
  case False
  let ?next = "rf_successors f ! rf_cursor f"
  show ?thesis
  proof (cases "?next |\<in>| vis")
    case True
    with False rpo_step_known [OF inv] show ?thesis by (simp add: rpo_step_def)
  next
    case fresh: False
    with False rpo_step_push [OF inv _ refl] show ?thesis by (simp add: rpo_step_def Let_def)
  qed
qed

lemma rpo_loop_inv: "rpo_inv w s \<Longrightarrow> \<exists>vis. rpo_inv w ([], vis, rpo_loop w s)"
proof (induction w s rule: rpo_loop.induct)
  case (2 w frame frames visited postorder)
  from 2(1) [OF rpo_step_inv [OF 2(2)]] show ?case by simp
qed auto

section \<open>Result of the walk\<close>

text \<open>What the iteration on positions needs of an order of blocks.\<close>

definition rpo_of :: "dom_walk \<Rightarrow> basic_block_id list \<Rightarrow> bool" where
  "rpo_of w order \<longleftrightarrow>
     distinct order \<and> set order = {b. walk_reachable w b} \<and> order \<noteq> [] \<and> order ! 0 = dw_root w \<and>
     (\<forall>i < length order. 0 < i \<longrightarrow> (\<exists>j < i. walk_edge w (order ! j) (order ! i)))"

lemma rpo_start: "rpo_inv w ([rpo_open w (dw_root w)], {|dw_root w|}, [])"
  by (simp add: rpo_inv_def rpo_open_def walk_reachable_def)

lemma reverse_postorder_correct:
  assumes root: "dw_root w |\<in>| dw_universe w"
  shows "rpo_of w (reverse_postorder_of w)"
proof -
  define post where "post = rpo_loop w ([rpo_open w (dw_root w)], {|dw_root w|}, [])"
  obtain vis where inv: "rpo_inv w ([], vis, post)" using rpo_loop_inv [OF rpo_start] by (auto simp: post_def)
  note D = rpo_invD [OF inv]
  have order: "reverse_postorder_of w = rev post" using root by (simp add: reverse_postorder_of_def post_def)
  have "walk_reachable w b \<Longrightarrow> b \<in> set post" for b
    unfolding walk_reachable_def
  proof (induction rule: rtranclp_induct)
    case base
    then show ?case using D(2,3) by auto
  next
    case (step b c)
    then show ?case using D(2,7) by (auto simp: walk_edge_def)
  qed
  then have set: "set post = {b. walk_reachable w b}" using D(2,4) by auto
  have post: "post \<noteq> []" "last post = dw_root w" using D(10) by auto
  have hd: "rev post ! 0 = dw_root w" using post by (simp add: rev_nth last_conv_nth)
  have parent: "\<exists>j < i. walk_edge w (rev post ! j) (rev post ! i)" if i: "i < length post" "0 < i" for i
  proof -
    define k where "k = length post - Suc i"
    have k: "k < length post" "rev post ! i = post ! k" using i by (auto simp: k_def rev_nth)
    have "post ! k \<noteq> dw_root w"
    proof
      assume "post ! k = dw_root w"
      then have "rev post ! i = rev post ! 0" using k hd by simp
      then show False using nth_eq_iff_index_eq [of "rev post" i 0] D(1) i post(1) by simp
    qed
    then obtain p k' where p: "walk_edge w p (post ! k)" "k' > k" "k' < length post" "post ! k' = p"
      using D(9) [OF k(1)] by (auto simp: later_parent_def)
    then have "rev post ! (length post - Suc k') = p" by (simp add: rev_nth Suc_diff_Suc)
    moreover have "length post - Suc k' < i" using p(2,3) i by (auto simp: k_def)
    ultimately show ?thesis using p(1) k(2) by auto
  qed
  show ?thesis using D(1) set post(1) hd parent by (simp add: rpo_of_def order)
qed

section \<open>Reachable blocks\<close>

lemma reachable_loop_sound:
  "\<forall>b. (b \<in> set stack \<or> b |\<in>| seen) \<longrightarrow> (block_edge graph)\<^sup>*\<^sup>* r b \<Longrightarrow> b |\<in>| reachable_loop graph stack seen \<Longrightarrow>
    (block_edge graph)\<^sup>*\<^sup>* r b"
proof (induction graph stack seen rule: reachable_loop.induct)
  case (2 graph block stack seen)
  show ?case
  proof (cases "block |\<in>| seen")
    case False
    have "(block_edge graph)\<^sup>*\<^sup>* r c" if "c \<in> set (successor_blocks graph block)" for c
    proof (rule rtranclp.rtrancl_into_rtrancl)
      show "(block_edge graph)\<^sup>*\<^sup>* r block" using 2(3) by simp
      show "block_edge graph block c" using that by (simp add: block_edge_def)
    qed
    with False 2 show ?thesis by auto
  qed (use 2 in auto)
qed auto

lemma reachable_loop_closed:
  "(\<forall>b c. b |\<in>| seen \<longrightarrow> block_edge graph b c \<longrightarrow> c |\<in>| seen \<or> c \<in> set stack) \<Longrightarrow>
   fset seen \<union> set stack \<subseteq> fset (reachable_loop graph stack seen) \<and>
   (\<forall>b c. b |\<in>| reachable_loop graph stack seen \<longrightarrow> block_edge graph b c \<longrightarrow> c |\<in>| reachable_loop graph stack seen)"
proof (induction graph stack seen rule: reachable_loop.induct)
  case (2 graph block stack seen)
  show ?case
  proof (cases "block |\<in>| seen")
    case True
    with 2 show ?thesis by auto
  next
    case False
    have "\<forall>b c. b |\<in>| finsert block seen \<longrightarrow> block_edge graph b c \<longrightarrow>
        c |\<in>| finsert block seen \<or> c \<in> set (successor_blocks graph block @ stack)"
      using 2(3) by (auto simp: block_edge_def)
    from 2(2) [OF False this] False show ?thesis by auto
  qed
qed auto

lemma reachable_blocks_iff:
  assumes "entry_block graph = Some entry"
  shows "b |\<in>| reachable_blocks graph \<longleftrightarrow> (block_edge graph)\<^sup>*\<^sup>* entry b"
proof
  assume "b |\<in>| reachable_blocks graph"
  then show "(block_edge graph)\<^sup>*\<^sup>* entry b"
    using reachable_loop_sound [of "[entry]" "{||}" graph entry b] assms by (simp add: reachable_blocks_def)
next
  have closed: "entry |\<in>| reachable_blocks graph"
    "b |\<in>| reachable_blocks graph \<Longrightarrow> block_edge graph b c \<Longrightarrow> c |\<in>| reachable_blocks graph" for b c
    using reachable_loop_closed [of "{||}" graph "[entry]"] assms by (auto simp: reachable_blocks_def)
  show "(block_edge graph)\<^sup>*\<^sup>* entry b \<Longrightarrow> b |\<in>| reachable_blocks graph"
    by (induction rule: rtranclp_induct) (use closed in auto)
qed

end
