(* ===== verification/Dom_Array_Correct.thy ===== *)
theory Dom_Array_Correct
  imports Dom_Array
begin

text \<open>
  Correctness of the iteration: on a graph given by the predecessors of positions, in which every position but
  the first has a smaller predecessor, the iteration returns and the ancestors it leaves for a position are
  exactly the positions on every path from the first one. Two invariants carry the argument: the ancestors of a
  position contain its dominators, and the ancestors common to the predecessors of a position are ancestors of
  it, so that a later pass can only move a parent up.
\<close>

section \<open>Ancestors\<close>

function anc :: "doms \<Rightarrow> nat \<Rightarrow> nat set" where
  "anc D x = (case D ! x of Some p \<Rightarrow> if p < x then insert x (anc D p) else {x} | None \<Rightarrow> {x})"
  by pat_completeness auto
termination by (relation "measure snd") auto

declare anc.simps [simp del]

lemma anc_self [simp]: "x \<in> anc D x"
  by (simp add: anc.simps split: option.splits)

lemma anc_le: "e \<in> anc D x \<Longrightarrow> e \<le> x"
proof (induction x rule: less_induct)
  case (less x)
  then show ?case by (subst (asm) anc.simps) (force split: option.splits if_splits)
qed

lemma anc_parent: "D ! x = Some p \<Longrightarrow> p < x \<Longrightarrow> anc D x = insert x (anc D p)"
  by (subst anc.simps) simp

lemma anc_cases:
  assumes "e \<in> anc D x"
  obtains "e = x" | p where "D ! x = Some p" "p < x" "e \<in> anc D p"
  using assms by (subst (asm) anc.simps) (auto split: option.splits if_splits)

lemma anc_trans: "e \<in> anc D y \<Longrightarrow> y \<in> anc D x \<Longrightarrow> e \<in> anc D x"
proof (induction x rule: less_induct)
  case (less x)
  from less.prems(2) show ?case
  proof (cases rule: anc_cases)
    case (2 p)
    with less show ?thesis by (simp add: anc_parent)
  qed (use less in simp)
qed

lemma anc_chain: "e \<in> anc D x \<Longrightarrow> y \<in> anc D x \<Longrightarrow> e \<le> y \<Longrightarrow> e \<in> anc D y"
proof (induction x rule: less_induct)
  case (less x)
  from less.prems(2) show ?case
  proof (cases rule: anc_cases)
    case (2 p)
    with anc_le [OF 2(3)] less.prems(3) have "e \<noteq> x" by simp
    with less.prems(1) 2 have "e \<in> anc D p" by (auto simp: anc_parent)
    with less 2 show ?thesis by simp
  qed (use less in simp)
qed

lemma anc_update_below: "x < i \<Longrightarrow> anc (D[i := v]) x = anc D x"
proof (induction x rule: less_induct)
  case (less x)
  then have "(D[i := v]) ! x = D ! x" by simp
  with less show ?case by (subst (1 2) anc.simps) (auto split: option.splits)
qed

lemma anc_update_above: "i \<le> e \<Longrightarrow> c < i \<Longrightarrow> D ! i = None \<or> (\<exists>p < i. D ! i = Some p) \<Longrightarrow>
  e \<in> anc (D[i := Some c]) x \<longleftrightarrow> e \<in> anc D x"
proof (induction x rule: less_induct)
  case (less x)
  consider "x < i" | "x = i" | "i < x" by linarith
  then show ?case
  proof cases
    case 1
    then show ?thesis using anc_le less.prems by fastforce
  next
    case 2
    have "e \<in> anc E i \<longleftrightarrow> e = i" for E
    proof
      assume "e \<in> anc E i"
      then show "e = i" using anc_le [of e E i] less.prems(1) by simp
    qed simp
    then show ?thesis by (simp add: 2)
  next
    case 3
    then have "(D[i := Some c]) ! x = D ! x" by simp
    with less show ?thesis by (subst (1 2) anc.simps) (auto split: option.splits)
  qed
qed

lemma anc_update_other: "i \<notin> anc D x \<Longrightarrow> anc (D[i := v]) x = anc D x"
proof (induction x rule: less_induct)
  case (less x)
  then have "x \<noteq> i" by auto
  then have "(D[i := v]) ! x = D ! x" by simp
  moreover have "i \<notin> anc D p" if "D ! x = Some p" "p < x" for p
    using less.prems that by (simp add: anc_parent)
  ultimately show ?case using less.IH by (subst (1 2) anc.simps) (auto split: option.splits)
qed

section \<open>Arrays filled up to a position\<close>

definition filled :: "nat \<Rightarrow> doms \<Rightarrow> bool" where
  "filled m D \<longleftrightarrow> 0 < m \<and> m \<le> length D \<and> D ! 0 = Some 0 \<and>
     (\<forall>x < m. 0 < x \<longrightarrow> (\<exists>p < x. D ! x = Some p)) \<and> (\<forall>x < length D. m \<le> x \<longrightarrow> D ! x = None)"

lemma filledD:
  assumes "filled m D"
  shows "0 < m" "m \<le> length D" "D ! 0 = Some 0" "0 < x \<Longrightarrow> x < m \<Longrightarrow> \<exists>p < x. D ! x = Some p"
    "x < length D \<Longrightarrow> m \<le> x \<Longrightarrow> D ! x = None"
  using assms by (auto simp: filled_def)

lemma filled_processed: "filled m D \<Longrightarrow> x < length D \<Longrightarrow> D ! x = None \<longleftrightarrow> m \<le> x"
  by (metis filledD(1,3,4,5) not_le not_gr_zero option.distinct(1))

lemma filled_update:
  "filled m D \<Longrightarrow> 0 < i \<Longrightarrow> i < length D \<Longrightarrow> c < i \<Longrightarrow> i < m \<or> i = m \<Longrightarrow>
    filled (if i < m then m else Suc i) (D[i := Some c])"
  by (auto simp: filled_def nth_list_update less_Suc_eq)

lemma anc_root: "filled m D \<Longrightarrow> x < m \<Longrightarrow> 0 \<in> anc D x"
proof (induction x rule: less_induct)
  case (less x)
  then show ?case using filledD(4) [OF less.prems(1), of x] by (cases "x = 0") (auto simp: anc_parent)
qed

lemma anc_zero [simp]: "anc D 0 = {0}"
  by (simp add: anc.simps split: option.splits)

section \<open>The two-finger walk\<close>

lemma climb_anc:
  "filled m D \<Longrightarrow> x < m \<Longrightarrow> \<exists>y. climb D x r = Some y \<and> y \<in> anc D x \<and> y \<le> r \<and>
     (\<forall>e. e \<in> anc D x \<longrightarrow> e \<le> r \<longrightarrow> e \<in> anc D y)"
proof (induction x rule: less_induct)
  case (less x)
  show ?case
  proof (cases "x \<le> r")
    case True
    then show ?thesis by (subst climb.simps) simp
  next
    case False
    then obtain p where p: "p < x" "D ! x = Some p" using filledD(4) [OF less.prems(1), of x] less.prems by auto
    with less obtain y where y: "climb D p r = Some y" "y \<in> anc D p" "y \<le> r" "\<forall>e. e \<in> anc D p \<longrightarrow> e \<le> r \<longrightarrow> e \<in> anc D y"
      by (meson order.strict_trans)
    have "climb D x r = Some y" using False p y less.prems filledD(2) [OF less.prems(1)] by (subst climb.simps) simp
    with p y False show ?thesis by (auto simp: anc_parent)
  qed
qed

lemma intersect_anc:
  "filled m D \<Longrightarrow> l < m \<Longrightarrow> r < m \<Longrightarrow> \<exists>c. intersect D l r = Some c \<and> anc D c = anc D l \<inter> anc D r"
proof (induction "l + r" arbitrary: l r rule: less_induct)
  case less
  show ?case
  proof (cases "l = r")
    case True
    then show ?thesis by (subst intersect.simps) simp
  next
    case False
    obtain a where a: "climb D l r = Some a" "a \<in> anc D l" "a \<le> r" "\<forall>e. e \<in> anc D l \<longrightarrow> e \<le> r \<longrightarrow> e \<in> anc D a"
      using climb_anc [OF less.prems(1,2), of r] by blast
    obtain b where b: "climb D r a = Some b" "b \<in> anc D r" "b \<le> a" "\<forall>e. e \<in> anc D r \<longrightarrow> e \<le> a \<longrightarrow> e \<in> anc D b"
      using climb_anc [OF less.prems(1,3), of a] by blast
    have ab: "anc D a \<inter> anc D b = anc D l \<inter> anc D r"
      using a b anc_trans anc_le by blast
    have le: "a \<le> l" "b \<le> r" using a(2) b(2) by (auto dest: anc_le)
    have "a + b < l + r" using le a(3) b(3) False by linarith
    moreover have "a < m" "b < m" using le less.prems by auto
    ultimately obtain c where "intersect D a b = Some c" "anc D c = anc D a \<inter> anc D b"
      using less.hyps [of a b] less.prems(1) by blast
    with a(1) b(1) False ab show ?thesis by (subst intersect.simps) simp
  qed
qed

text \<open>The candidate of a position: the nearest common ancestor of the predecessors already processed.\<close>

lemma candidate_fold:
  assumes "filled m D" "\<forall>p \<in> set ps. p < length D" "case cand of None \<Rightarrow> True | Some c \<Rightarrow> c < m"
  shows "\<exists>r. try_fold (consider_predecessor D) ps cand = Some r \<and>
    (case r of
       None \<Rightarrow> cand = None \<and> (\<forall>p \<in> set ps. m \<le> p)
     | Some c \<Rightarrow> c < m \<and> anc D c = (case cand of None \<Rightarrow> UNIV | Some k \<Rightarrow> anc D k) \<inter> (\<Inter>p \<in> {p \<in> set ps. p < m}. anc D p))"
  using assms(2,3)
proof (induction ps arbitrary: cand)
  case Nil
  then show ?case by (auto split: option.splits)
next
  case (Cons p ps)
  show ?case
  proof (cases "p < m")
    case False
    then have "consider_predecessor D p cand = Some cand"
      using Cons.prems assms(1) by (simp add: consider_predecessor_def filled_processed)
    with False Cons.IH [of cand] Cons.prems show ?thesis
      by (fastforce split: option.splits)
  next
    case True
    obtain k where k: "consider_predecessor D p cand = Some (Some k)" "k < m"
      "anc D k = (case cand of None \<Rightarrow> UNIV | Some k \<Rightarrow> anc D k) \<inter> anc D p"
    proof (cases cand)
      case None
      then show thesis
        using that [of p] True Cons.prems assms(1) by (auto simp: consider_predecessor_def filled_processed)
    next
      case (Some j)
      obtain c where c: "intersect D p j = Some c" "anc D c = anc D p \<inter> anc D j"
        using intersect_anc [OF assms(1) True, of j] Cons.prems(2) Some by auto
      from c(2) have "c \<in> anc D p" by (metis Int_iff anc_self)
      then have "c < m" using True by (auto dest: anc_le)
      with that [of c] c Some True Cons.prems assms(1) show thesis
        by (auto simp: consider_predecessor_def filled_processed)
    qed
    have set_p: "{q \<in> set (p # ps). q < m} = insert p {q \<in> set ps. q < m}" using True by auto
    obtain r where r: "try_fold (consider_predecessor D) ps (Some k) = Some r"
      "case r of None \<Rightarrow> False | Some c \<Rightarrow> c < m \<and> anc D c = anc D k \<inter> (\<Inter>p \<in> {p \<in> set ps. p < m}. anc D p)"
      using Cons.IH [of "Some k"] Cons.prems(1) k(2) by (auto split: option.splits)
    then show ?thesis using k unfolding set_p by (auto split: option.splits)
  qed
qed

lemma dom_candidate_anc:
  assumes "filled m D" "\<forall>p \<in> set ps. p < length D" "q \<in> set ps" "q < m"
  obtains c where "dom_candidate D ps = Some (Some c)" "c < m" "c \<le> q"
    "anc D c = (\<Inter>p \<in> {p \<in> set ps. p < m}. anc D p)"
proof -
  obtain r where r: "dom_candidate D ps = Some r" "case r of None \<Rightarrow> \<forall>p \<in> set ps. m \<le> p
     | Some c \<Rightarrow> c < m \<and> anc D c = (\<Inter>p \<in> {p \<in> set ps. p < m}. anc D p)"
    using candidate_fold [OF assms(1,2), of None] by (auto simp: dom_candidate_def split: option.splits)
  then obtain c where c: "r = Some c" "c < m" "anc D c = (\<Inter>p \<in> {p \<in> set ps. p < m}. anc D p)"
    using assms(3,4) by (cases r) auto
  then have "c \<in> anc D q" using assms(3,4) anc_self [of c D] by blast
  with that r c show ?thesis by (auto dest: anc_le)
qed

section \<open>Walks that avoid a node\<close>

text \<open>A node dominates another when no walk from the root reaches the other without it.\<close>

inductive avoids :: "('a \<Rightarrow> 'a \<Rightarrow> bool) \<Rightarrow> 'a \<Rightarrow> 'a \<Rightarrow> 'a \<Rightarrow> bool" for E r d where
  start: "r \<noteq> d \<Longrightarrow> avoids E r d r"
| step: "avoids E r d a \<Longrightarrow> E a b \<Longrightarrow> b \<noteq> d \<Longrightarrow> avoids E r d b"

lemma avoids_not_root: "avoids E r d x \<Longrightarrow> d \<noteq> r"
  by (induction rule: avoids.induct) auto

lemma avoids_neq: "avoids E r d x \<Longrightarrow> x \<noteq> d"
  by (auto elim: avoids.cases)

definition pos_edge :: "nat list list \<Rightarrow> nat \<Rightarrow> nat \<Rightarrow> bool" where
  "pos_edge preds a b \<longleftrightarrow> b < length preds \<and> a \<in> set (preds ! b)"

definition dpar :: "doms \<Rightarrow> nat \<Rightarrow> nat" where
  "dpar D x = the (D ! x)"

definition common :: "nat list list \<Rightarrow> nat \<Rightarrow> doms \<Rightarrow> nat \<Rightarrow> nat set" where
  "common preds m D j = (\<Inter>p \<in> {p \<in> set (preds ! j). p < m}. anc D p)"

text \<open>
  The invariant before position \<open>i\<close> of a pass, with the positions below \<open>m\<close> processed: dominators are ancestors;
  an ancestor reaches its descendant along increasing edges; a parent settled in this pass, and one at \<open>i\<close> or
  above, is an ancestor of every smaller predecessor; the common ancestors of the predecessors are ancestors.
\<close>

definition dom_inv :: "nat list list \<Rightarrow> nat \<Rightarrow> nat \<Rightarrow> doms \<Rightarrow> bool" where
  "dom_inv preds m i D \<longleftrightarrow> filled m D \<and> length D = length preds \<and> i \<le> m \<and>
     (\<forall>x < m. \<forall>d. \<not> avoids (pos_edge preds) 0 d x \<longrightarrow> d \<in> anc D x) \<and>
     (\<forall>x < m. \<forall>e \<in> anc D x. (\<lambda>a b. pos_edge preds a b \<and> a < b)\<^sup>*\<^sup>* e x) \<and>
     (\<forall>j < m. 0 < j \<longrightarrow> j < i \<or> i \<le> dpar D j \<longrightarrow> (\<forall>p \<in> set (preds ! j). p < j \<longrightarrow> dpar D j \<in> anc D p)) \<and>
     (\<forall>j < m. 0 < j \<longrightarrow> common preds m D j \<subseteq> anc D (dpar D j))"

lemma dom_invD:
  assumes "dom_inv preds m i D"
  shows "filled m D" "length D = length preds" "i \<le> m"
    "x < m \<Longrightarrow> \<not> avoids (pos_edge preds) 0 d x \<Longrightarrow> d \<in> anc D x"
    "x < m \<Longrightarrow> e \<in> anc D x \<Longrightarrow> (\<lambda>a b. pos_edge preds a b \<and> a < b)\<^sup>*\<^sup>* e x"
    "j < m \<Longrightarrow> 0 < j \<Longrightarrow> j < i \<or> i \<le> dpar D j \<Longrightarrow> p \<in> set (preds ! j) \<Longrightarrow> p < j \<Longrightarrow> dpar D j \<in> anc D p"
    "j < m \<Longrightarrow> 0 < j \<Longrightarrow> common preds m D j \<subseteq> anc D (dpar D j)"
  using assms unfolding dom_inv_def by (simp_all, blast)

text \<open>The value computed for position \<open>i\<close>.\<close>

definition next_parent :: "nat list list \<Rightarrow> nat \<Rightarrow> nat \<Rightarrow> doms \<Rightarrow> nat \<Rightarrow> bool" where
  "next_parent preds m i D c \<longleftrightarrow>
     dom_inv preds m i D \<and> 0 < i \<and> i < length preds \<and> c < i \<and> anc D c = common preds m D i"

lemma next_parentD:
  assumes "next_parent preds m i D c"
  shows "dom_inv preds m i D" "0 < i" "i < length D" "c < i" "anc D c = common preds m D i" "i \<le> m"
    "D ! i = None \<or> (\<exists>p < i. D ! i = Some p)"
  using assms filledD [of m D] unfolding next_parent_def dom_inv_def
  by (auto, metis not_le)

lemma anc_next:
  assumes "next_parent preds m i D c"
  shows "x < i \<Longrightarrow> anc (D[i := Some c]) x = anc D x"
    and "anc (D[i := Some c]) i = insert i (anc D c)"
    and "i \<le> e \<Longrightarrow> e \<in> anc (D[i := Some c]) x \<longleftrightarrow> e \<in> anc D x"
    and "i \<in> anc D x \<Longrightarrow> e < i \<Longrightarrow> e \<in> anc (D[i := Some c]) x \<longleftrightarrow> e \<in> anc D c"
    and "i \<notin> anc D x \<Longrightarrow> anc (D[i := Some c]) x = anc D x"
proof -
  note np = next_parentD [OF assms]
  let ?D = "D[i := Some c]"
  show below: "x < i \<Longrightarrow> anc ?D x = anc D x" for x by (rule anc_update_below)
  show at: "anc ?D i = insert i (anc D c)" using np by (subst anc_parent [of _ _ c]) (auto simp: below)
  show above: "i \<le> e \<Longrightarrow> e \<in> anc ?D x \<longleftrightarrow> e \<in> anc D x" for e x by (rule anc_update_above [OF _ np(4,7)])
  show "i \<in> anc D x \<Longrightarrow> e < i \<Longrightarrow> e \<in> anc ?D x \<longleftrightarrow> e \<in> anc D c"
  proof -
    assume "i \<in> anc D x" "e < i"
    then have i: "i \<in> anc ?D x" by (simp add: above)
    have "e \<in> anc ?D x \<longleftrightarrow> e \<in> anc ?D i"
      using i \<open>e < i\<close> anc_chain [of e ?D x i] anc_trans [of e ?D i x] by auto
    then show ?thesis using at \<open>e < i\<close> by simp
  qed
  show "i \<notin> anc D x \<Longrightarrow> anc ?D x = anc D x" by (rule anc_update_other)
qed

lemma next_parent_shrinks:
  assumes "next_parent preds m i D c" "x < m"
  shows "anc (D[i := Some c]) x \<subseteq> anc D x"
proof
  note np = next_parentD [OF assms(1)]
  fix e assume e: "e \<in> anc (D[i := Some c]) x"
  show "e \<in> anc D x"
  proof (cases "i \<in> anc D x \<and> e < i")
    case True
    then have "i < m" using assms(2) anc_le by fastforce
    then have "common preds m D i \<subseteq> anc D (dpar D i)" using dom_invD(7) [OF np(1)] np(2) by simp
    moreover have "e \<in> anc D c" using anc_next(4) [OF assms(1)] True e by blast
    ultimately have "e \<in> anc D (dpar D i)" using np(5) by auto
    moreover have "dpar D i \<in> anc D i"
      using filledD(4) [OF dom_invD(1) [OF np(1)] np(2) \<open>i < m\<close>] by (auto simp: dpar_def anc_parent)
    ultimately show ?thesis using True anc_trans by blast
  next
    case False
    then show ?thesis using e anc_next(3,5) [OF assms(1)] by (metis not_le)
  qed
qed

lemma avoids_climb:
  "(\<lambda>a b. E a b \<and> a < b)\<^sup>*\<^sup>* i x \<Longrightarrow> d < i \<Longrightarrow> avoids E r d i \<Longrightarrow> avoids E r d x \<and> d < (x :: nat)"
  by (induction rule: rtranclp_induct) (auto intro: avoids.step)

text \<open>Dominators stay ancestors.\<close>

lemma next_keeps_dominators:
  assumes np: "next_parent preds m i D c" and x: "x < m \<or> x = i"
    and dom: "\<not> avoids (pos_edge preds) 0 d x"
  shows "d \<in> anc (D[i := Some c]) x"
proof -
  note npD = next_parentD [OF np]
  note inv = dom_invD [OF npD(1)]
  have at_i: "d \<in> insert i (anc D c)" if "\<not> avoids (pos_edge preds) 0 d i"
  proof -
    have "d \<in> anc D p" if "d \<noteq> i" "p \<in> set (preds ! i)" "p < m" for p
    proof (rule inv(4) [OF \<open>p < m\<close>])
      show "\<not> avoids (pos_edge preds) 0 d p"
        using \<open>\<not> avoids (pos_edge preds) 0 d i\<close> that npD(3) inv(2) by (auto intro: avoids.step simp: pos_edge_def)
    qed
    then show ?thesis unfolding npD(5) common_def by auto
  qed
  show ?thesis
  proof (cases "x = i")
    case True
    with at_i dom show ?thesis by (simp add: anc_next(2) [OF np])
  next
    case False
    then have d: "d \<in> anc D x" and "x < m" using inv(4) dom x by auto
    show ?thesis
    proof (cases "i \<in> anc D x \<and> d < i")
      case True
      then have "\<not> avoids (pos_edge preds) 0 d i"
        using avoids_climb [OF inv(5) [OF \<open>x < m\<close>]] dom by blast
      with at_i True have "d \<in> anc D c" by auto
      with True show ?thesis using anc_next(4) [OF np] by simp
    next
      case False
      then show ?thesis using d anc_next(3,5) [OF np] by (metis not_le)
    qed
  qed
qed

text \<open>The sum of the parents, which a pass over a filled array lowers when it changes anything.\<close>

definition weight :: "doms \<Rightarrow> nat" where
  "weight D = sum_list (map (\<lambda>v. case v of None \<Rightarrow> 0 | Some p \<Rightarrow> p) D)"

text \<open>The equation of a position at the fixpoint.\<close>

definition stable :: "nat list list \<Rightarrow> doms \<Rightarrow> nat \<Rightarrow> bool" where
  "stable preds D j \<longleftrightarrow> anc D (dpar D j) = common preds (length preds) D j"

text \<open>The laws of a graph in reverse postorder on which the iteration relies.\<close>

locale rpo_graph =
  fixes preds :: "nat list list"
  assumes preds_range: "x < length preds \<Longrightarrow> p \<in> set (preds ! x) \<Longrightarrow> p < length preds"
    and smaller_pred: "0 < x \<Longrightarrow> x < length preds \<Longrightarrow> \<exists>p \<in> set (preds ! x). p < x"
begin

lemma next_exists:
  assumes inv: "dom_inv preds m i D" and i: "0 < i" "i < length preds"
  obtains c where "dom_candidate D (preds ! i) = Some (Some c)" "next_parent preds m i D c"
proof -
  obtain q where q: "q \<in> set (preds ! i)" "q < i" using smaller_pred i by blast
  then have qm: "q < m" using dom_invD(3) [OF inv] by simp
  have range: "\<forall>p \<in> set (preds ! i). p < length D" using preds_range i(2) dom_invD(2) [OF inv] by simp
  obtain c where "dom_candidate D (preds ! i) = Some (Some c)" "c < m" "c \<le> q"
    "anc D c = (\<Inter>p \<in> {p \<in> set (preds ! i). p < m}. anc D p)"
    by (rule dom_candidate_anc [OF dom_invD(1) [OF inv] range q(1) qm])
  with that q inv i show ?thesis by (simp add: next_parent_def common_def)
qed

lemma parent_below_pred:
  assumes "next_parent preds m i D c" "p \<in> set (preds ! i)" "p < m"
  shows "c \<in> anc D p"
  using assms anc_self [of c D] next_parentD(5) [OF assms(1)] by (auto simp: common_def)

lemma next_keeps_climb:
  assumes np: "next_parent preds m i D c" and x: "x < m \<or> x = i" and e: "e \<in> anc (D[i := Some c]) x"
  shows "(\<lambda>a b. pos_edge preds a b \<and> a < b)\<^sup>*\<^sup>* e x" (is "?R e x")
proof -
  note npD = next_parentD [OF np]
  note inv = dom_invD [OF npD(1)]
  show ?thesis
  proof (cases "x < m")
    case True
    then show ?thesis using inv(5) next_parent_shrinks [OF np] e by blast
  next
    case False
    then have [simp]: "x = i" using x by simp
    obtain q where q: "q \<in> set (preds ! i)" "q < i" using smaller_pred npD(2,3) inv(2) by auto
    then have "q < m" using inv(3) by simp
    have "?R e i" if "e \<noteq> i"
    proof -
      have "e \<in> anc D c" using e that by (simp add: anc_next(2) [OF np])
      then have "e \<in> anc D q" using parent_below_pred [OF np q(1) \<open>q < m\<close>] anc_trans by blast
      then have "?R e q" using inv(5) \<open>q < m\<close> by blast
      moreover have "pos_edge preds q i" using q npD(3) inv(2) by (simp add: pos_edge_def)
      ultimately show ?thesis using q(2) by (auto intro: rtranclp.rtrancl_into_rtrancl)
    qed
    then show ?thesis by (cases "e = i") auto
  qed
qed

lemma dpar_next: "next_parent preds m i D c \<Longrightarrow> dpar (D[i := Some c]) j = (if j = i then c else dpar D j)"
  using next_parentD(3) by (simp add: dpar_def)

lemma next_keeps_settled:
  assumes np: "next_parent preds m i D c" and j: "j < m \<or> j = i" "0 < j" "p \<in> set (preds ! j)" "p < j"
    and settled: "j < Suc i \<or> Suc i \<le> dpar (D[i := Some c]) j"
  shows "dpar (D[i := Some c]) j \<in> anc (D[i := Some c]) p"
proof (cases "j = i")
  case True
  have "p < m" using j(4) True next_parentD(6) [OF np] by simp
  with True show ?thesis
    using parent_below_pred [OF np _ \<open>p < m\<close>] j(3,4) by (simp add: dpar_next [OF np] anc_next(1) [OF np])
next
  case False
  have "j < i \<or> i \<le> dpar D j" using settled False by (auto simp: dpar_next [OF np])
  then have d: "dpar D j \<in> anc D p" using dom_invD(6) [OF next_parentD(1) [OF np]] j False by auto
  show ?thesis
  proof (cases "j < i")
    case True
    then show ?thesis using d j(4) False by (simp add: dpar_next [OF np] anc_next(1) [OF np])
  next
    case above: False
    then have "i \<le> dpar D j" using settled False by (simp add: dpar_next [OF np])
    then show ?thesis using d False by (simp add: dpar_next [OF np] anc_next(3) [OF np])
  qed
qed

lemma next_keeps_common:
  assumes np: "next_parent preds m i D c" and j: "j < m \<or> j = i" "0 < j" and m': "m \<le> m'"
  shows "common preds m' (D[i := Some c]) j \<subseteq> anc (D[i := Some c]) (dpar (D[i := Some c]) j)"
proof
  let ?D = "D[i := Some c]"
  note npD = next_parentD [OF np]
  note inv = dom_invD [OF npD(1)]
  fix e assume e: "e \<in> common preds m' ?D j"
  then have e': "e \<in> anc ?D p" if "p \<in> set (preds ! j)" "p < m" for p using that m' by (auto simp: common_def)
  then have eD: "e \<in> common preds m D j" using next_parent_shrinks [OF np] by (fastforce simp: common_def)
  show "e \<in> anc ?D (dpar ?D j)"
  proof (cases "j = i")
    case True
    then show ?thesis using eD npD(4,5) by (simp add: dpar_next [OF np] anc_next(1) [OF np])
  next
    case False
    then have jm: "j < m" using j by simp
    then have ed: "e \<in> anc D (dpar D j)" using inv(7) j(2) eD by blast
    obtain p where p: "p \<in> set (preds ! j)" "p < j"
      using smaller_pred [OF j(2)] less_le_trans [OF jm filledD(2) [OF inv(1)]] inv(2) by auto
    show ?thesis
    proof (cases "i \<in> anc D (dpar D j) \<and> e < i")
      case True
      then have "i \<le> dpar D j" using anc_le by blast
      then have "dpar D j \<in> anc D p" using inv(6) jm j(2) p by blast
      then have "i \<in> anc D p" using True anc_trans by blast
      then have "e \<in> anc D c" using e' [OF p(1)] p jm True anc_next(4) [OF np, of p e] by simp
      then show ?thesis using True False anc_next(4) [OF np] by (simp add: dpar_next [OF np])
    next
      case F: False
      then show ?thesis using ed False anc_next(3,5) [OF np] by (metis dpar_next [OF np] not_le)
    qed
  qed
qed

lemma next_inv:
  assumes np: "next_parent preds m i D c" and m': "m' = (if i < m then m else Suc i)"
  shows "dom_inv preds m' (Suc i) (D[i := Some c])"
proof -
  note npD = next_parentD [OF np]
  note inv = dom_invD [OF npD(1)]
  have below: "x < m' \<Longrightarrow> x < m \<or> x = i" for x using m' npD(6) by (auto split: if_splits)
  have "m \<le> m'" "Suc i \<le> m'" using m' npD(6) by auto
  moreover have "filled m' (D[i := Some c])" unfolding m' using filled_update [OF inv(1) npD(2,3,4)] npD(6) by auto
  ultimately show ?thesis unfolding dom_inv_def
  proof (intro conjI allI impI ballI)
    show "length (D[i := Some c]) = length preds" using inv(2) by simp
    show "d \<in> anc (D[i := Some c]) x" if "x < m'" "\<not> avoids (pos_edge preds) 0 d x" for x d
      by (rule next_keeps_dominators [OF np below [OF that(1)] that(2)])
    show "(\<lambda>a b. pos_edge preds a b \<and> a < b)\<^sup>*\<^sup>* e x" if "x < m'" "e \<in> anc (D[i := Some c]) x" for x e
      by (rule next_keeps_climb [OF np below [OF that(1)] that(2)])
    show "dpar (D[i := Some c]) j \<in> anc (D[i := Some c]) p"
      if "j < m'" "0 < j" "j < Suc i \<or> Suc i \<le> dpar (D[i := Some c]) j" "p \<in> set (preds ! j)" "p < j" for j p
      by (rule next_keeps_settled [OF np below [OF that(1)] that(2,4,5,3)])
    show "common preds m' (D[i := Some c]) j \<subseteq> anc (D[i := Some c]) (dpar (D[i := Some c]) j)"
      if "j < m'" "0 < j" for j
      by (rule next_keeps_common [OF np below [OF that(1)] that(2) \<open>m \<le> m'\<close>])
  qed
qed

lemma dom_step_next:
  assumes "dom_inv preds m i D" "0 < i" "i < length preds"
  obtains c where "next_parent preds m i D c"
    "dom_step preds i (D, changed) = Some (D[i := Some c], changed \<or> D ! i \<noteq> Some c)"
proof -
  obtain c where c: "dom_candidate D (preds ! i) = Some (Some c)" "next_parent preds m i D c"
    by (rule next_exists [OF assms])
  have "D[i := Some c] = D" if "D ! i = Some c" by (metis that list_update_id)
  with that c assms(3) next_parentD(3) [OF c(2)] show ?thesis by (auto simp: dom_step_def)
qed

lemma weight_next:
  assumes np: "next_parent preds m i D c" and "i < m"
  shows "weight (D[i := Some c]) \<le> weight D" and "D ! i \<noteq> Some c \<Longrightarrow> weight (D[i := Some c]) < weight D"
proof -
  note npD = next_parentD [OF np]
  obtain p where p: "D ! i = Some p" using filledD(4) [OF dom_invD(1) [OF npD(1)] npD(2) \<open>i < m\<close>] by auto
  have "c \<in> anc D p"
    using dom_invD(7) [OF npD(1) \<open>i < m\<close> npD(2)] npD(5) anc_self [of c D] p by (auto simp: dpar_def)
  then have "c \<le> p" by (rule anc_le)
  let ?w = "\<lambda>v :: nat option. case v of None \<Rightarrow> 0 | Some p \<Rightarrow> p"
  have "p \<le> weight D" using member_le_sum_list [of p "map ?w D"] npD(3) p nth_mem [of i D]
    by (force simp: weight_def)
  moreover have "weight (D[i := Some c]) = weight D + c - p"
    using npD(3) p by (simp add: weight_def map_update sum_list_update)
  ultimately show "weight (D[i := Some c]) \<le> weight D" "D ! i \<noteq> Some c \<Longrightarrow> weight (D[i := Some c]) < weight D"
    using \<open>c \<le> p\<close> p by auto
qed

lemma pass_from:
  assumes "dom_inv preds m i D" "0 < i" "i \<le> length preds" "m = i \<or> m = length preds"
  shows "\<exists>D' changed'. try_fold (dom_step preds) [i..<length preds] (D, changed) = Some (D', changed') \<and>
    dom_inv preds (length preds) (length preds) D' \<and> (changed \<longrightarrow> changed') \<and>
    (\<not> changed' \<longrightarrow> D' = D \<and> (\<forall>j. i \<le> j \<longrightarrow> j < length preds \<longrightarrow> stable preds D j)) \<and>
    (m = length preds \<longrightarrow> weight D' \<le> weight D \<and> (changed' \<longrightarrow> changed \<or> weight D' < weight D))"
  using assms
proof (induction "length preds - i" arbitrary: i m D changed)
  case 0
  then show ?case by auto
next
  case (Suc k)
  then have i: "i < length preds" and k: "k = length preds - Suc i" by simp_all
  obtain c where np: "next_parent preds m i D c"
    and step: "dom_step preds i (D, changed) = Some (D[i := Some c], changed \<or> D ! i \<noteq> Some c)"
    by (rule dom_step_next [OF Suc.prems(1,2) i])
  define m' where "m' = (if i < m then m else Suc i)"
  have m': "m' = Suc i \<or> m' = length preds" "m = length preds \<Longrightarrow> m' = length preds"
    using Suc.prems(4) i by (auto simp: m'_def)
  let ?D = "D[i := Some c]" and ?ch = "changed \<or> D ! i \<noteq> Some c"
  obtain D' ch' where IH: "try_fold (dom_step preds) [Suc i..<length preds] (?D, ?ch) = Some (D', ch')"
    "dom_inv preds (length preds) (length preds) D'" "?ch \<longrightarrow> ch'"
    "\<not> ch' \<longrightarrow> D' = ?D \<and> (\<forall>j. Suc i \<le> j \<longrightarrow> j < length preds \<longrightarrow> stable preds ?D j)"
    "m' = length preds \<longrightarrow> weight D' \<le> weight ?D \<and> (ch' \<longrightarrow> ?ch \<or> weight D' < weight ?D)"
    using Suc.hyps(1) [OF k next_inv [OF np m'_def] _ Suc_leI [OF i] m'(1), of ?ch] by (elim exE conjE meta_impE) auto
  have run: "try_fold (dom_step preds) [i..<length preds] (D, changed) = Some (D', ch')"
    using i by (simp add: upt_conv_Cons step IH(1))
  moreover have "D' = D \<and> (\<forall>j. i \<le> j \<longrightarrow> j < length preds \<longrightarrow> stable preds D j)" if "\<not> ch'"
  proof -
    have same: "D ! i = Some c" "D[i := Some c] = D" using IH(3) that by (auto, metis list_update_id)
    have "m = length preds"
      using same(1) Suc.prems(4) filledD(5) [OF dom_invD(1) [OF next_parentD(1) [OF np]] next_parentD(3) [OF np]] by auto
    then have "stable preds D i" using next_parentD(5) [OF np] same(1) by (simp add: stable_def dpar_def)
    with IH(4) that same(2) show ?thesis by (metis Suc_leI le_neq_implies_less)
  qed
  moreover have "weight D' \<le> weight D \<and> (ch' \<longrightarrow> changed \<or> weight D' < weight D)" if m: "m = length preds"
    using IH(5) m'(2) [OF m] weight_next [OF np] i m by (meson le_less_trans less_le_trans order.trans)
  ultimately show ?case using IH(2,3) by blast
qed

lemma inv_restart: "dom_inv preds (length preds) (length preds) D \<Longrightarrow> 0 < length preds \<Longrightarrow> dom_inv preds (length preds) 1 D"
  unfolding dom_inv_def by (simp add: Suc_le_eq)

lemma iterate_filled:
  "dom_inv preds (length preds) 1 D \<Longrightarrow> \<exists>D'. dom_iterate preds D = Some D' \<and>
     dom_inv preds (length preds) 1 D' \<and> (\<forall>j. 0 < j \<longrightarrow> j < length preds \<longrightarrow> stable preds D' j)"
proof (induction "weight D" arbitrary: D rule: less_induct)
  case less
  have pos: "0 < length preds" using dom_invD(3) [OF less.prems] by linarith
  obtain D' ch where run: "dom_pass preds D = Some (D', ch)" "dom_inv preds (length preds) (length preds) D'"
    "\<not> ch \<longrightarrow> D' = D \<and> (\<forall>j. 1 \<le> j \<longrightarrow> j < length preds \<longrightarrow> stable preds D j)" "ch \<longrightarrow> weight D' < weight D"
    using pass_from [OF less.prems, of False] pos unfolding dom_pass_def by (fastforce simp: Suc_le_eq)
  note inv' = inv_restart [OF run(2) pos]
  show ?case
  proof (cases ch)
    case True
    with run(4) less.hyps [OF _ inv'] obtain D'' where "dom_iterate preds D' = Some D''"
      "dom_inv preds (length preds) 1 D'' \<and> (\<forall>j. 0 < j \<longrightarrow> j < length preds \<longrightarrow> stable preds D'' j)" by blast
    with run(1) True show ?thesis by (subst dom_iterate.simps) simp
  next
    case False
    with run(3) inv' have "dom_inv preds (length preds) 1 D' \<and> (\<forall>j. 0 < j \<longrightarrow> j < length preds \<longrightarrow> stable preds D' j)"
      by (simp add: Suc_le_eq)
    with run(1) False show ?thesis by (subst dom_iterate.simps) simp
  qed
qed

lemma dom_start_inv: "0 < length preds \<Longrightarrow> dom_inv preds 1 1 (dom_start (length preds))"
proof -
  assume "0 < length preds"
  then have "Suc 0 \<le> length preds" by (rule Suc_leI)
  then have "filled 1 (dom_start (length preds))" "length (dom_start (length preds)) = length preds"
    by (auto simp: filled_def dom_start_def)
  moreover have "Suc 0 \<le> length preds" using \<open>0 < length preds\<close> by linarith
  moreover have "d = 0" if "\<not> avoids (pos_edge preds) 0 d 0" for d
    using that avoids.start [of 0 d "pos_edge preds"] by auto
  ultimately show ?thesis by (auto simp: dom_inv_def)
qed

lemma iterate_start:
  assumes pos: "0 < length preds"
  obtains D where "dom_iterate preds (dom_start (length preds)) = Some D"
    "dom_inv preds (length preds) 1 D" "\<forall>j. 0 < j \<longrightarrow> j < length preds \<longrightarrow> stable preds D j"
proof -
  obtain D ch where run: "dom_pass preds (dom_start (length preds)) = Some (D, ch)"
    "dom_inv preds (length preds) (length preds) D"
    "\<not> ch \<longrightarrow> (\<forall>j. 1 \<le> j \<longrightarrow> j < length preds \<longrightarrow> stable preds D j)"
    using pass_from [OF dom_start_inv [OF pos], of False] pos unfolding dom_pass_def by (fastforce simp: Suc_le_eq)
  note inv = inv_restart [OF run(2) pos]
  show thesis
  proof (cases ch)
    case True
    obtain D' where D': "dom_iterate preds D = Some D'" "dom_inv preds (length preds) 1 D'"
      "\<forall>j. 0 < j \<longrightarrow> j < length preds \<longrightarrow> stable preds D' j"
      using iterate_filled [OF inv] by blast
    have "dom_iterate preds (dom_start (length preds)) = Some D'"
      by (subst dom_iterate.simps) (simp add: run(1) True D'(1))
    then show ?thesis by (rule that [OF _ D'(2,3)])
  next
    case False
    then have "dom_iterate preds (dom_start (length preds)) = Some D"
      by (subst dom_iterate.simps) (simp add: run(1))
    moreover have "\<forall>j. 0 < j \<longrightarrow> j < length preds \<longrightarrow> stable preds D j" using run(3) False by (simp add: Suc_le_eq)
    ultimately show ?thesis using that inv by blast
  qed
qed

text \<open>At the fixpoint an ancestor is on every walk.\<close>

lemma stable_ancestor_dominates:
  assumes inv: "dom_inv preds (length preds) 1 D" and stable: "\<forall>j. 0 < j \<longrightarrow> j < length preds \<longrightarrow> stable preds D j"
  shows "avoids (pos_edge preds) 0 d x \<Longrightarrow> d \<notin> anc D x"
proof (induction rule: avoids.induct)
  case start
  then show ?case by simp
next
  case (step a b)
  show ?case
  proof (cases "b = 0")
    case True
    then show ?thesis using avoids_not_root [OF step.hyps(1)] by simp
  next
    case False
    have b: "b < length preds" "a \<in> set (preds ! b)" using step.hyps(2) by (auto simp: pos_edge_def)
    then have "anc D (dpar D b) \<subseteq> anc D a"
      using stable False preds_range [OF b] by (auto simp: stable_def common_def)
    moreover have "anc D b = insert b (anc D (dpar D b))"
      using filledD(4) [OF dom_invD(1) [OF inv], of b] False b(1) by (auto simp: dpar_def anc_parent)
    ultimately show ?thesis using step by auto
  qed
qed

lemma iterate_exact:
  assumes "0 < length preds"
  obtains D where "dom_iterate preds (dom_start (length preds)) = Some D" "filled (length preds) D"
    "length D = length preds"
    "\<And>x d. x < length preds \<Longrightarrow> d \<in> anc D x \<longleftrightarrow> \<not> avoids (pos_edge preds) 0 d x"
proof -
  obtain D where D: "dom_iterate preds (dom_start (length preds)) = Some D"
    "dom_inv preds (length preds) 1 D" "\<forall>j. 0 < j \<longrightarrow> j < length preds \<longrightarrow> stable preds D j"
    by (rule iterate_start [OF assms])
  show ?thesis
    by (rule that [OF D(1) dom_invD(1,2) [OF D(2)]])
      (use stable_ancestor_dominates [OF D(2,3)] dom_invD(4) [OF D(2)] in blast)
qed

end

end
