(* ===== verification/Dom_Tree_Correct.thy ===== *)
theory Dom_Tree_Correct
  imports Rpo_Correct Dom_Array_Correct
begin

text \<open>
  The dominator tree computes dominance: for the blocks a walk reaches, the queries on the tree return and answer
  by the paths of the walk. The locale \<open>dual_walk\<close> states what the tree needs of its walk, that the two
  neighbour lists are converses of each other; it gives the laws of \<open>rpo_graph\<close> for the positions, and is
  interpreted on the forward walk of the graphs that \<open>graph.rs\<close> builds.
\<close>

section \<open>Positions\<close>

lemma positions_iff:
  assumes "distinct order"
  shows "fmlookup (positions order) b = Some i \<longleftrightarrow> i < length order \<and> order ! i = b"
proof -
  have keys: "map fst (map (\<lambda>(index, block). (block, index)) (List.enumerate 0 order)) = order"
    by (rule nth_equalityI) (simp_all add: nth_enumerate_eq)
  show ?thesis
    unfolding positions_def
    by (subst lookup_fm_collect_distinct) (use assms keys in \<open>auto simp: in_set_enumerate_eq\<close>)
qed

lemma set_positions:
  "distinct order \<Longrightarrow> i \<in> set (List.map_filter (fmlookup (positions order)) blocks) \<longleftrightarrow>
     i < length order \<and> order ! i \<in> set blocks"
  by (auto simp: set_map_filter_iff positions_iff)

section \<open>Walks between blocks and between positions\<close>

abbreviation block_avoids :: "dom_walk \<Rightarrow> basic_block_id \<Rightarrow> basic_block_id \<Rightarrow> bool" where
  "block_avoids w \<equiv> avoids (walk_edge w) (dw_root w)"

lemma avoids_reachable: "block_avoids w d b \<Longrightarrow> walk_reachable w b"
  unfolding walk_reachable_def
  by (induction rule: avoids.induct) (auto intro: rtranclp.rtrancl_into_rtrancl)

lemma avoids_unreachable:
  assumes "walk_reachable w b" "\<not> walk_reachable w d"
  shows "block_avoids w d b"
proof -
  have "(walk_edge w)\<^sup>*\<^sup>* (dw_root w) b" using assms(1) by (simp add: walk_reachable_def)
  then show ?thesis
  proof (induction rule: rtranclp_induct)
    case base
    show ?case using assms(2) by (intro avoids.start) (auto simp: walk_reachable_def)
  next
    case (step b c)
    have "walk_reachable w c" using step(1,2) by (auto simp: walk_reachable_def intro: rtranclp.rtrancl_into_rtrancl)
    with step assms(2) show ?case by (auto intro: avoids.step)
  qed
qed

locale dual_walk =
  fixes w :: dom_walk
  assumes dual: "b \<noteq> dw_root w \<Longrightarrow> b |\<in>| dw_universe w \<Longrightarrow>
    a \<in> set (walk_predecessors w b) \<longleftrightarrow> a |\<in>| dw_universe w \<and> walk_edge w a b"
begin

abbreviation order :: "basic_block_id list" where
  "order \<equiv> reverse_postorder_of w"

abbreviation preds :: "nat list list" where
  "preds \<equiv> predecessor_positions w order"

lemma order_cases: "order = [] \<or> rpo_of w order"
  using reverse_postorder_correct by (auto simp: reverse_postorder_of_def)

lemma distinct_order [simp]: "distinct order"
  using order_cases by (auto simp: rpo_of_def)

lemma length_preds [simp]: "length preds = length order"
  by (simp add: predecessor_positions_def)

lemma root_in: "order \<noteq> [] \<Longrightarrow> dw_root w |\<in>| dw_universe w"
  by (auto simp: reverse_postorder_of_def split: if_splits)

lemma order_nth:
  assumes "i < length order"
  shows "walk_reachable w (order ! i)" "order ! i |\<in>| dw_universe w" "order ! 0 = dw_root w"
    "order ! i = dw_root w \<longleftrightarrow> i = 0"
proof -
  have ne: "order \<noteq> []" using assms by auto
  then have rpo: "rpo_of w order" using order_cases by simp
  have "order ! i \<in> set order" using assms by simp
  then show reach: "walk_reachable w (order ! i)" using rpo by (auto simp: rpo_of_def)
  show root: "order ! 0 = dw_root w" using rpo by (simp add: rpo_of_def)
  show "order ! i = dw_root w \<longleftrightarrow> i = 0" using nth_eq_iff_index_eq [of order i 0] assms root ne by auto
  show "order ! i |\<in>| dw_universe w"
    using reach root_in [OF ne] unfolding walk_reachable_def
    by (cases rule: rtranclp.cases) (auto simp: walk_edge_def dest: walk_successors_universe)
qed

lemma preds_nth:
  "x < length order \<Longrightarrow> p \<in> set (preds ! x) \<longleftrightarrow> p < length order \<and> order ! p \<in> set (walk_predecessors w (order ! x))"
  by (simp add: predecessor_positions_def set_positions)

lemma pos_edge_iff:
  "0 < b \<Longrightarrow> pos_edge preds a b \<longleftrightarrow> b < length order \<and> a < length order \<and> walk_edge w (order ! a) (order ! b)"
  using order_nth [of b] order_nth [of a] dual [of "order ! b" "order ! a"]
  by (auto simp: pos_edge_def preds_nth)

lemma order_graph: "rpo_graph preds"
proof
  show "p < length preds" if "x < length preds" "p \<in> set (preds ! x)" for x p
    using that by (simp add: preds_nth)
  show "\<exists>p \<in> set (preds ! x). p < x" if x: "0 < x" "x < length preds" for x
  proof -
    have "rpo_of w order" using order_cases x by auto
    then have "\<exists>j < x. walk_edge w (order ! j) (order ! x)" using x by (simp add: rpo_of_def)
    then obtain j where j: "j < x" "walk_edge w (order ! j) (order ! x)" by blast
    then have "pos_edge preds j x" using x pos_edge_iff by simp
    with j(1) show ?thesis by (auto simp: pos_edge_def)
  qed
qed

end

sublocale dual_walk \<subseteq> position_graph: rpo_graph "predecessor_positions w (reverse_postorder_of w)"
  by (rule order_graph)

context dual_walk
begin

lemma avoids_positions:
  "avoids (pos_edge preds) 0 d x \<Longrightarrow> x < length order \<Longrightarrow> d < length order \<Longrightarrow> block_avoids w (order ! d) (order ! x)"
proof (induction rule: avoids.induct)
  case start
  then show ?case using order_nth [of d] order_nth [of 0] by (auto intro: avoids.start)
next
  case (step a b)
  have a: "a < length order" using step.hyps(2) step.prems(1) by (auto simp: pos_edge_def preds_nth)
  have ne: "order ! b \<noteq> order ! d" using step.hyps(3) step.prems by (simp add: nth_eq_iff_index_eq)
  show ?case
  proof (cases "b = 0")
    case True
    with ne step.prems show ?thesis using order_nth [of b] by (auto intro: avoids.start)
  next
    case False
    then have "walk_edge w (order ! a) (order ! b)" using step.hyps(2) pos_edge_iff [of b a] by simp
    then show ?thesis by (rule avoids.step [OF step.IH [OF a step.prems(2)] _ ne])
  qed
qed

lemma avoids_blocks:
  "block_avoids w (order ! d) c \<Longrightarrow> d < length order \<Longrightarrow> \<exists>x < length order. order ! x = c \<and> avoids (pos_edge preds) 0 d x"
proof (induction rule: avoids.induct)
  case start
  have "order ! 0 = dw_root w" "0 < length order" using order_nth [of d] start by auto
  moreover have "0 \<noteq> d" using start calculation by metis
  ultimately show ?case by (auto intro: avoids.start)
next
  case (step a b)
  obtain x where x: "x < length order" "order ! x = a" "avoids (pos_edge preds) 0 d x" using step by blast
  have "walk_reachable w b"
    using order_nth(1) [OF x(1)] x(2) step.hyps(2) by (auto simp: walk_reachable_def intro: rtranclp.rtrancl_into_rtrancl)
  moreover have "rpo_of w order" using order_cases x(1) by auto
  ultimately have "b \<in> set order" by (simp add: rpo_of_def)
  then obtain y where y: "y < length order" "order ! y = b" by (auto simp: in_set_conv_nth)
  have "y \<noteq> d" using y step.hyps(3) by auto
  show ?case
  proof (cases "y = 0")
    case True
    then show ?thesis using y \<open>y \<noteq> d\<close> by (auto intro!: exI [of _ 0] avoids.start)
  next
    case False
    then have "pos_edge preds x y" using pos_edge_iff [of y x] x y step.hyps(2) by simp
    with x(3) y \<open>y \<noteq> d\<close> show ?thesis by (auto intro: avoids.step)
  qed
qed

lemma avoids_iff:
  assumes "x < length order" "d < length order"
  shows "avoids (pos_edge preds) 0 d x \<longleftrightarrow> block_avoids w (order ! d) (order ! x)"
proof
  assume "block_avoids w (order ! d) (order ! x)"
  from avoids_blocks [OF this assms(2)] obtain y where "y < length order" "order ! y = order ! x"
    "avoids (pos_edge preds) 0 d y" by blast
  with assms(1) show "avoids (pos_edge preds) 0 d x" by (simp add: nth_eq_iff_index_eq)
qed (rule avoids_positions [OF _ assms])

text \<open>A tree whose parents are an array \<open>D\<close> with the ancestors of the walk.\<close>

definition tree_with :: "dom_tree \<Rightarrow> doms \<Rightarrow> bool" where
  "tree_with t D \<longleftrightarrow> filled (length order) D \<and> length D = length order \<and>
     (\<forall>x < length order. \<forall>d < length order. d \<in> anc D x \<longleftrightarrow> \<not> block_avoids w (order ! d) (order ! x)) \<and>
     t_order t = order \<and> t_position t = positions order \<and> length (t_idom t) = length order \<and>
     (\<forall>x < length order. t_idom t ! x = (if x > 0 then D ! x else None)) \<and>
     t_vacuous t = dw_universe w |-| fset_of_list order \<and> t_root t = dw_root w \<and>
     t_universe_without_root t = dw_universe w |-| {|dw_root w|}"

lemma tree_withD:
  assumes "tree_with t D"
  shows "filled (length order) D" "length D = length order"
    "x < length order \<Longrightarrow> d < length order \<Longrightarrow> d \<in> anc D x \<longleftrightarrow> \<not> block_avoids w (order ! d) (order ! x)"
    "t_order t = order" "t_position t = positions order" "length (t_idom t) = length order"
    "x < length order \<Longrightarrow> t_idom t ! x = (if x > 0 then D ! x else None)"
    "t_vacuous t = dw_universe w |-| fset_of_list order" "t_root t = dw_root w"
    "t_universe_without_root t = dw_universe w |-| {|dw_root w|}"
  using assms unfolding tree_with_def by blast+

lemma dom_tree_exists:
  assumes "dw_root w |\<in>| dw_universe w"
  obtains t D where "dom_tree_of w = Some t" "tree_with t D"
proof -
  have rpo: "rpo_of w order" by (rule reverse_postorder_correct [OF assms])
  then have pos: "0 < length preds" by (auto simp: rpo_of_def)
  obtain D where D: "dom_iterate preds (dom_start (length preds)) = Some D" "filled (length preds) D"
    "length D = length preds" "\<And>x d. x < length preds \<Longrightarrow> d \<in> anc D x \<longleftrightarrow> \<not> avoids (pos_edge preds) 0 d x"
    by (rule position_graph.iterate_exact [OF pos]) blast
  define t where "t = \<lparr> t_order = order, t_position = positions order,
          t_idom = map (\<lambda>(index, parent). if index > 0 then parent else None) (List.enumerate 0 D),
          t_vacuous = dw_universe w |-| fset_of_list order, t_root = dw_root w,
          t_universe_without_root = dw_universe w |-| {|dw_root w|} \<rparr>"
  have "dom_tree_of w = Some t" using D(1) by (simp add: dom_tree_of_def t_def Let_def)
  moreover have "tree_with t D"
    unfolding tree_with_def using D(2,3,4) by (simp add: t_def nth_enumerate_eq avoids_iff)
  ultimately show ?thesis by (rule that)
qed

lemma position_of:
  assumes "tree_with t D" "dw_root w |\<in>| dw_universe w" "walk_reachable w b"
  obtains x where "x < length order" "order ! x = b" "fmlookup (t_position t) b = Some x"
proof -
  have "b \<in> set order" using reverse_postorder_correct [OF assms(2)] assms(3) by (auto simp: rpo_of_def)
  then obtain x where "x < length order" "order ! x = b" by (auto simp: in_set_conv_nth)
  with that tree_withD(5) [OF assms(1)] show ?thesis by (simp add: positions_iff)
qed

lemma reachable_order: "dw_root w |\<in>| dw_universe w \<Longrightarrow> b \<in> set order \<longleftrightarrow> walk_reachable w b"
  using reverse_postorder_correct by (auto simp: rpo_of_def)

lemma vacuous_iff:
  "tree_with t D \<Longrightarrow> dw_root w |\<in>| dw_universe w \<Longrightarrow>
    is_vacuous t b \<longleftrightarrow> b |\<in>| dw_universe w \<and> \<not> walk_reachable w b"
  using tree_withD(8) reachable_order by (auto simp: is_vacuous_def fset_of_list.rep_eq)

lemma idom_cases:
  assumes t: "tree_with t D" and x: "x < length order"
  shows "x = 0 \<and> t_idom t ! x = None \<or> (\<exists>p < x. t_idom t ! x = Some p \<and> anc D x = insert x (anc D p))"
  using tree_withD(7) [OF t x] filledD(4) [OF tree_withD(1) [OF t], of x] x by (auto simp: anc_parent)

lemma dominates_walk_anc:
  "tree_with t D \<Longrightarrow> x < length order \<Longrightarrow> dominates_walk t x target = Some (target \<in> anc D x)"
proof (induction x rule: less_induct)
  case (less x)
  show ?case
  proof (cases "x > target")
    case False
    then show ?thesis using anc_le [of target D x] by (subst dominates_walk.simps) auto
  next
    case True
    then obtain p where p: "p < x" "t_idom t ! x = Some p" "anc D x = insert x (anc D p)"
      using idom_cases [OF less.prems] by auto
    then have "dominates_walk t p target = Some (target \<in> anc D p)" using less by simp
    with True p show ?thesis by (subst dominates_walk.simps) simp
  qed
qed

lemma dominator_walk_anc:
  "tree_with t D \<Longrightarrow> x < length order \<Longrightarrow>
    \<exists>S. dominator_walk t x found = Some S \<and> fset S = fset found \<union> (!) order ` anc D x"
proof (induction x arbitrary: found rule: less_induct)
  case (less x)
  show ?case
  proof (cases "t_idom t ! x")
    case None
    then have "x = 0" using idom_cases [OF less.prems] by auto
    with None tree_withD(4) [OF less.prems(1)] show ?thesis by (subst dominator_walk.simps) (simp add: Let_def)
  next
    case (Some p)
    then have p: "p < x" "anc D x = insert x (anc D p)" using idom_cases [OF less.prems] by auto
    obtain S where "dominator_walk t p (finsert (order ! x) found) = Some S"
      "fset S = fset (finsert (order ! x) found) \<union> (!) order ` anc D p"
      using less.IH [OF p(1) less.prems(1), of "finsert (order ! x) found"] less.prems(2) p(1) by auto
    with Some p tree_withD(4) [OF less.prems(1)] show ?thesis
      by (subst dominator_walk.simps) (simp add: Let_def)
  qed
qed

text \<open>The three queries, for a block that the walk reaches.\<close>

lemma dominates_exact:
  assumes t: "tree_with t D" and root: "dw_root w |\<in>| dw_universe w" and b: "walk_reachable w b"
  shows "dominates t a b = Some (\<not> block_avoids w a b)"
proof -
  obtain x where x: "x < length order" "order ! x = b" "fmlookup (t_position t) b = Some x"
    by (rule position_of [OF t root b])
  have nv: "\<not> is_vacuous t b" using vacuous_iff [OF t root] b by simp
  show ?thesis
  proof (cases "walk_reachable w a")
    case True
    then obtain y where y: "y < length order" "order ! y = a" "fmlookup (t_position t) a = Some y"
      using position_of [OF t root] by blast
    have "dominates t a b = Some (y \<in> anc D x)"
      using nv x y by (simp add: dominates_def dominates_walk_anc [OF t x(1)])
    then show ?thesis using tree_withD(3) [OF t x(1) y(1)] x y by simp
  next
    case False
    then have "a \<notin> set order" using reachable_order [OF root] by simp
    then have "fmlookup (positions order) a \<noteq> Some i" for i using positions_iff [of order a i] by auto
    then have "fmlookup (t_position t) a = None" using tree_withD(5) [OF t] by (metis not_Some_eq)
    with nv avoids_unreachable [OF b False] show ?thesis by (simp add: dominates_def)
  qed
qed

lemma dominator_set_exact:
  assumes t: "tree_with t D" and root: "dw_root w |\<in>| dw_universe w" and b: "walk_reachable w b"
  shows "\<exists>S. dominator_set t b = Some S \<and> fset S = {a. \<not> block_avoids w a b}"
proof -
  obtain x where x: "x < length order" "order ! x = b" "fmlookup (t_position t) b = Some x"
    by (rule position_of [OF t root b])
  have nv: "\<not> is_vacuous t b" using vacuous_iff [OF t root] b by simp
  obtain S where S: "dominator_walk t x {||} = Some S" "fset S = (!) order ` anc D x"
    using dominator_walk_anc [OF t x(1), of "{||}"] by auto
  have "(!) order ` anc D x = {a. \<not> block_avoids w a b}"
  proof (intro set_eqI iffI)
    fix a assume "a \<in> (!) order ` anc D x"
    then obtain y where y: "y \<in> anc D x" "order ! y = a" by auto
    then have "y < length order" using x(1) anc_le [of y D x] by simp
    with y tree_withD(3) [OF t x(1)] x(2) show "a \<in> {a. \<not> block_avoids w a b}" by auto
  next
    fix a assume "a \<in> {a. \<not> block_avoids w a b}"
    then have a: "\<not> block_avoids w a b" by simp
    then have "walk_reachable w a" using avoids_unreachable [OF b] by blast
    then obtain y where y: "y < length order" "order ! y = a" using position_of [OF t root] by blast
    with a tree_withD(3) [OF t x(1) y(1)] x(2) show "a \<in> (!) order ` anc D x" by auto
  qed
  with S nv x show ?thesis by (simp add: dominator_set_def)
qed

lemma immediate_exact:
  assumes t: "tree_with t D" and root: "dw_root w |\<in>| dw_universe w" and b: "walk_reachable w b"
  shows "if b = dw_root w then immediate t b strip = None
    else \<exists>p. immediate t b strip = (if strip \<and> p = dw_root w then None else Some p) \<and> p \<noteq> b \<and>
      walk_reachable w p \<and> (\<forall>a. \<not> block_avoids w a b \<longleftrightarrow> a = b \<or> \<not> block_avoids w a p)"
proof -
  obtain x where x: "x < length order" "order ! x = b" "fmlookup (t_position t) b = Some x"
    by (rule position_of [OF t root b])
  have nv: "\<not> is_vacuous t b" using vacuous_iff [OF t root] b by simp
  show ?thesis
  proof (cases "x = 0")
    case True
    then have "b = dw_root w" using x order_nth [OF x(1)] by simp
    moreover have "t_idom t ! x = None" using idom_cases [OF t x(1)] True by auto
    ultimately show ?thesis using nv x(3) by (simp add: immediate_def)
  next
    case False
    then obtain p where p: "p < x" "t_idom t ! x = Some p" "anc D x = insert x (anc D p)"
      using idom_cases [OF t x(1)] by auto
    have px: "p < length order" using p x by simp
    have ne: "b \<noteq> dw_root w" using x order_nth(4) [OF x(1)] False by simp
    have "immediate t b strip = (if strip \<and> order ! p = dw_root w then None else Some (order ! p))"
      using nv x(3) p(2) tree_withD(4,9) [OF t] by (simp add: immediate_def Let_def)
    moreover have "order ! p \<noteq> b" using p(1) px x by (auto simp: nth_eq_iff_index_eq)
    moreover have "\<not> block_avoids w a b \<longleftrightarrow> a = b \<or> \<not> block_avoids w a (order ! p)" for a
    proof (cases "walk_reachable w a")
      case True
      then obtain y where y: "y < length order" "order ! y = a" using position_of [OF t root] by blast
      have "a = b \<longleftrightarrow> y = x" using x y by (auto simp: nth_eq_iff_index_eq)
      then show ?thesis using tree_withD(3) [OF t x(1) y(1)] tree_withD(3) [OF t px y(1)] p(3) x(2) y(2) by auto
    next
      case False
      then show ?thesis using avoids_unreachable b order_nth(1) [OF px] by blast
    qed
    ultimately show ?thesis using ne order_nth(1) [OF px] by auto
  qed
qed

end

end
