(* ===== verification/Dominance.thy ===== *)
theory Dominance
  imports Dom_Tree_Correct
begin

text \<open>
  The dominator and post-dominator rows of one function, as \<open>derive_dominators_for\<close> and
  \<open>derive_postdominators_for\<close> compute them before they are numbered and keyed. A row is a dominator, a
  dominated block and the flag of the immediate one. The rows are exactly the relation that paths define; under
  the budget only the tree edges are emitted, and their closure is the whole relation.
\<close>

section \<open>Rows of one graph\<close>

datatype dominance_materialization = Full | ImmediateOnly

text \<open>The blocks that one dominated block is paired with, in the order of the loop.\<close>

definition row_sources :: "dominance_materialization \<Rightarrow> dom_tree \<Rightarrow> basic_block_id \<Rightarrow> basic_block_id list option" where
  "row_sources materialization t block =
     (case materialization of
        ImmediateOnly \<Rightarrow> Some (case immediate t block False of None \<Rightarrow> [] | Some parent \<Rightarrow> [parent])
      | Full \<Rightarrow> map_option bt_elems (dominator_set t block))"

type_synonym dominance_row = "basic_block_id \<times> basic_block_id \<times> bool"

definition block_rows :: "dominance_materialization \<Rightarrow> dom_tree \<Rightarrow> basic_block_id \<Rightarrow> dominance_row list option" where
  "block_rows materialization t dominated =
     map_option (map (\<lambda>dominator. (dominator, dominated, immediate t dominated False = Some dominator)))
       (row_sources materialization t dominated)"

definition dominator_rows :: "dominance_materialization \<Rightarrow> cfg_graph \<Rightarrow> dominance_row list option" where
  "dominator_rows materialization graph =
     (case entry_block graph of
        None \<Rightarrow> Some []
      | Some entry \<Rightarrow>
          Option.bind (dom_tree_of (forward_walk graph entry)) (\<lambda>t.
            try_append (block_rows materialization t) (bt_elems (universe t))))"

definition postdominator_rows :: "dominance_materialization \<Rightarrow> cfg_graph \<Rightarrow> dominance_row list option" where
  "postdominator_rows materialization graph =
     Option.bind (reverse_dom_tree graph) (\<lambda>tree. case tree of
        None \<Rightarrow> Some []
      | Some t \<Rightarrow>
          (let virtual_exit = virtual_exit_for (g_function graph) in
           map_option (filter (\<lambda>(postdominator, _, _). postdominator \<noteq> virtual_exit))
             (try_append (block_rows materialization t)
                (filter (\<lambda>block. block \<noteq> virtual_exit) (bt_elems (universe t))))))"

section \<open>The rows of a walk\<close>

definition walk_dominates :: "dom_walk \<Rightarrow> basic_block_id \<Rightarrow> basic_block_id \<Rightarrow> bool" where
  "walk_dominates w a b \<longleftrightarrow> walk_reachable w b \<and> \<not> block_avoids w a b"

text \<open>The immediate dominator: the strict dominator that all strict dominators dominate.\<close>

definition immediately_dominates :: "dom_walk \<Rightarrow> basic_block_id \<Rightarrow> basic_block_id \<Rightarrow> bool" where
  "immediately_dominates w a b \<longleftrightarrow>
     a \<noteq> b \<and> walk_dominates w a b \<and> (\<forall>c. c \<noteq> b \<longrightarrow> walk_dominates w c b \<longrightarrow> walk_dominates w c a)"

lemma walk_dominates_refl: "walk_reachable w b \<Longrightarrow> walk_dominates w b b"
  using avoids_neq [of "walk_edge w" "dw_root w" b b] by (auto simp: walk_dominates_def)

lemma walk_dominates_reachable: "walk_dominates w a b \<Longrightarrow> walk_reachable w a \<and> walk_reachable w b"
  using avoids_unreachable by (auto simp: walk_dominates_def)

lemma walk_dominates_root: "walk_dominates w a (dw_root w) \<longleftrightarrow> a = dw_root w"
  using avoids.start [of "dw_root w" a "walk_edge w"] walk_dominates_refl [of w "dw_root w"]
  by (auto simp: walk_dominates_def walk_reachable_def)

context dual_walk
begin

lemma universe_set:
  "tree_with t D \<Longrightarrow> dw_root w |\<in>| dw_universe w \<Longrightarrow> fset (universe t) = fset (dw_universe w)"
  using tree_withD(9,10) by (auto simp: universe_def)

lemma immediate_law:
  assumes t: "tree_with t D" and root: "dw_root w |\<in>| dw_universe w" and b: "walk_reachable w b"
  shows "immediate t b False = Some p \<longleftrightarrow> immediately_dominates w p b"
proof (cases "b = dw_root w")
  case True
  then show ?thesis using immediate_exact [OF t root b, of False]
    by (auto simp: immediately_dominates_def walk_dominates_root)
next
  case False
  then obtain q where q: "immediate t b False = Some q" "q \<noteq> b" "walk_reachable w q"
    "\<forall>a. \<not> block_avoids w a b \<longleftrightarrow> a = b \<or> \<not> block_avoids w a q"
    using immediate_exact [OF t root b, of False] by auto
  have strict: "walk_dominates w a b \<longleftrightarrow> a = b \<or> walk_dominates w a q" for a
    using q b by (simp add: walk_dominates_def)
  have qq: "walk_dominates w q q" by (rule walk_dominates_refl [OF q(3)])
  have antisym: "a = q" if "walk_dominates w a q" "walk_dominates w q a" for a
  proof -
    have ra: "walk_reachable w a" using that(1) walk_dominates_reachable by blast
    obtain i where i: "i < length order" "order ! i = a" "fmlookup (t_position t) a = Some i"
      by (rule position_of [OF t root ra])
    obtain j where j: "j < length order" "order ! j = q" "fmlookup (t_position t) q = Some j"
      by (rule position_of [OF t root q(3)])
    have "i \<in> anc D j" "j \<in> anc D i"
      using that tree_withD(3) [OF t] i j by (auto simp: walk_dominates_def)
    then have "i = j" by (meson anc_le antisym)
    with i j show ?thesis by simp
  qed
  show ?thesis
  proof
    assume "immediate t b False = Some p"
    with q(1,2) qq strict show "immediately_dominates w p b" by (auto simp: immediately_dominates_def)
  next
    assume p: "immediately_dominates w p b"
    then have "walk_dominates w p q" using strict by (auto simp: immediately_dominates_def)
    moreover have "walk_dominates w q p" using p q(2) qq strict by (auto simp: immediately_dominates_def)
    ultimately have "p = q" by (rule antisym)
    then show "immediate t b False = Some p" using q(1) by simp
  qed
qed

text \<open>The rows of a reachable block.\<close>

lemma block_rows_exact:
  assumes t: "tree_with t D" and root: "dw_root w |\<in>| dw_universe w" and b: "walk_reachable w b"
  shows "\<exists>ys. block_rows Full t b = Some ys \<and>
      set ys = {(a, c, i). c = b \<and> walk_dominates w a b \<and> (i \<longleftrightarrow> immediately_dominates w a b)}"
    and "\<exists>ys. block_rows ImmediateOnly t b = Some ys \<and>
      set ys = {(a, c, i). c = b \<and> immediately_dominates w a b \<and> i}"
proof -
  obtain S where S: "dominator_set t b = Some S" "fset S = {a. walk_dominates w a b}"
    using dominator_set_exact [OF t root b] b by (auto simp: walk_dominates_def)
  note imm = immediate_law [OF t root b]
  show "\<exists>ys. block_rows Full t b = Some ys \<and>
      set ys = {(a, c, i). c = b \<and> walk_dominates w a b \<and> (i \<longleftrightarrow> immediately_dominates w a b)}"
    by (simp add: block_rows_def row_sources_def S imm image_def) auto
  show "\<exists>ys. block_rows ImmediateOnly t b = Some ys \<and>
      set ys = {(a, c, i). c = b \<and> immediately_dominates w a b \<and> i}"
    by (cases "immediate t b False") (auto simp: block_rows_def row_sources_def simp flip: imm)
qed

text \<open>Dominance is the reflexive transitive closure of the tree edges.\<close>

lemma immediate_closure:
  assumes root: "dw_root w |\<in>| dw_universe w" and b: "walk_reachable w b"
  shows "walk_dominates w a b \<longleftrightarrow> (immediately_dominates w)\<^sup>*\<^sup>* a b"
proof -
  obtain t D where t: "dom_tree_of w = Some t" "tree_with t D" by (rule dom_tree_exists [OF root])
  have step: "x < length order \<Longrightarrow> walk_dominates w a (order ! x) \<Longrightarrow> (immediately_dominates w)\<^sup>*\<^sup>* a (order ! x)" for x
  proof (induction x rule: less_induct)
    case (less x)
    note rx = order_nth(1) [OF less.prems(1)]
    show ?case
    proof (cases "x = 0")
      case True
      then show ?thesis using less.prems order_nth [of x] by (simp add: walk_dominates_root)
    next
      case False
      then obtain p where p: "p < x" "t_idom t ! x = Some p" "anc D x = insert x (anc D p)"
        using idom_cases [OF t(2) less.prems(1)] by auto
      have px: "p < length order" using p less.prems by simp
      have "fmlookup (t_position t) (order ! x) = Some x"
        using less.prems tree_withD(5) [OF t(2)] by (simp add: positions_iff)
      then have "immediate t (order ! x) False = Some (order ! p)"
        using p(2) tree_withD(4) [OF t(2)] vacuous_iff [OF t(2) root] rx by (simp add: immediate_def Let_def)
      then have edge: "immediately_dominates w (order ! p) (order ! x)" using immediate_law [OF t(2) root rx] by simp
      have "a = order ! x \<or> walk_dominates w a (order ! p)"
        using edge less.prems(2) by (auto simp: immediately_dominates_def)
      then show ?thesis using less.IH [OF p(1) px] edge by (auto intro: rtranclp.rtrancl_into_rtrancl)
    qed
  qed
  have trans: "walk_dominates w a c" if "walk_dominates w a b" "immediately_dominates w b c" for a b c
  proof -
    have r: "walk_reachable w c" using that(2) by (simp add: immediately_dominates_def walk_dominates_def)
    then have "immediate t c False = Some b" using immediate_law [OF t(2) root] that(2) by simp
    then have "c \<noteq> dw_root w" "\<forall>a. \<not> block_avoids w a c \<longleftrightarrow> a = c \<or> \<not> block_avoids w a b"
      using immediate_exact [OF t(2) root r, of False] by (auto split: if_splits)
    with that(1) r show ?thesis by (simp add: walk_dominates_def)
  qed
  show ?thesis
  proof
    assume "walk_dominates w a b"
    with step b reachable_order [OF root] show "(immediately_dominates w)\<^sup>*\<^sup>* a b"
      by (metis in_set_conv_nth)
  next
    assume "(immediately_dominates w)\<^sup>*\<^sup>* a b"
    then show "walk_dominates w a b"
    proof (induction rule: rtranclp_induct)
      case base
      from \<open>(immediately_dominates w)\<^sup>*\<^sup>* a b\<close> have "walk_reachable w a"
        by (cases rule: converse_rtranclpE) (use b walk_dominates_reachable in \<open>auto simp: immediately_dominates_def\<close>)
      then show ?case by (rule walk_dominates_refl)
    qed (use trans in blast)
  qed
qed

end

section \<open>Dominators of a function\<close>

lemma forward_walk_dual:
  assumes "graph_wf graph"
  shows "dual_walk (forward_walk graph entry)"
proof
  fix a b
  assume "b |\<in>| dw_universe (forward_walk graph entry)"
  then show "a \<in> set (walk_predecessors (forward_walk graph entry) b) \<longleftrightarrow>
      a |\<in>| dw_universe (forward_walk graph entry) \<and> walk_edge (forward_walk graph entry) a b"
    using assms by (auto simp: forward_walk_def walk_predecessors_def walk_edge_def walk_successors_def in_universe_def graph_wf_def)
qed

interpretation forward: dual_walk "forward_walk (from_grouped f fact nodes blocks edges) entry"
  for f fact nodes blocks edges entry
  by (rule forward_walk_dual [OF from_grouped_wf])

text \<open>Dominance by the paths of the graph.\<close>

definition block_dominates :: "cfg_graph \<Rightarrow> basic_block_id \<Rightarrow> basic_block_id \<Rightarrow> basic_block_id \<Rightarrow> bool" where
  "block_dominates graph entry a b \<longleftrightarrow>
     (block_edge graph)\<^sup>*\<^sup>* entry b \<and> \<not> avoids (block_edge graph) entry a b"

definition block_immediate :: "cfg_graph \<Rightarrow> basic_block_id \<Rightarrow> basic_block_id \<Rightarrow> basic_block_id \<Rightarrow> bool" where
  "block_immediate graph entry a b \<longleftrightarrow>
     a \<noteq> b \<and> block_dominates graph entry a b \<and>
     (\<forall>c. c \<noteq> b \<longrightarrow> block_dominates graph entry c b \<longrightarrow> block_dominates graph entry c a)"

lemma forward_edge:
  assumes "entry_block graph = Some entry" "(block_edge graph)\<^sup>*\<^sup>* entry a"
  shows "walk_edge (forward_walk graph entry) a b \<longleftrightarrow> block_edge graph a b"
  using assms rtranclp.rtrancl_into_rtrancl [of "block_edge graph" entry a b]
  by (auto simp: walk_edge_def walk_successors_def in_universe_def forward_walk_def block_edge_def [symmetric]
    reachable_blocks_iff [OF assms(1)])

lemma forward_reachable:
  assumes "entry_block graph = Some entry"
  shows "walk_reachable (forward_walk graph entry) b \<longleftrightarrow> (block_edge graph)\<^sup>*\<^sup>* entry b"
proof
  let ?w = "forward_walk graph entry"
  have root: "dw_root ?w = entry" by (simp add: forward_walk_def)
  assume "walk_reachable ?w b"
  then have "(walk_edge ?w)\<^sup>*\<^sup>* entry b" by (simp add: walk_reachable_def root)
  then show "(block_edge graph)\<^sup>*\<^sup>* entry b"
    by (induction rule: rtranclp_induct)
      (auto simp: forward_edge [OF assms] intro: rtranclp.rtrancl_into_rtrancl)
next
  let ?w = "forward_walk graph entry"
  assume "(block_edge graph)\<^sup>*\<^sup>* entry b"
  then have "(walk_edge ?w)\<^sup>*\<^sup>* entry b"
    by (induction rule: rtranclp_induct)
      (auto simp: forward_edge [OF assms] intro: rtranclp.rtrancl_into_rtrancl)
  then show "walk_reachable ?w b" by (simp add: walk_reachable_def forward_walk_def)
qed

lemma forward_avoids:
  assumes "entry_block graph = Some entry"
  shows "block_avoids (forward_walk graph entry) a b \<longleftrightarrow> avoids (block_edge graph) entry a b"
proof
  let ?w = "forward_walk graph entry"
  have root: "dw_root ?w = entry" by (simp add: forward_walk_def)
  assume "block_avoids ?w a b"
  then have "avoids (block_edge graph) entry a b \<and> (block_edge graph)\<^sup>*\<^sup>* entry b"
    unfolding root
    by (induction rule: avoids.induct)
      (auto simp: forward_edge [OF assms] intro: avoids.intros rtranclp.rtrancl_into_rtrancl)
  then show "avoids (block_edge graph) entry a b" ..
next
  let ?w = "forward_walk graph entry"
  have root: "dw_root ?w = entry" by (simp add: forward_walk_def)
  assume "avoids (block_edge graph) entry a b"
  then have "avoids (walk_edge ?w) entry a b \<and> (block_edge graph)\<^sup>*\<^sup>* entry b"
    by (induction rule: avoids.induct)
      (auto simp: forward_edge [OF assms] intro: avoids.intros rtranclp.rtrancl_into_rtrancl)
  then show "block_avoids ?w a b" by (simp add: root)
qed

lemma forward_dominates:
  assumes "entry_block graph = Some entry"
  shows "walk_dominates (forward_walk graph entry) a b \<longleftrightarrow> block_dominates graph entry a b"
    and "immediately_dominates (forward_walk graph entry) a b \<longleftrightarrow> block_immediate graph entry a b"
proof -
  show dom: "walk_dominates (forward_walk graph entry) a b \<longleftrightarrow> block_dominates graph entry a b" for a b
    by (simp add: walk_dominates_def block_dominates_def forward_reachable [OF assms] forward_avoids [OF assms])
  show "immediately_dominates (forward_walk graph entry) a b \<longleftrightarrow> block_immediate graph entry a b"
    by (simp add: immediately_dominates_def block_immediate_def dom)
qed

lemma forward_rows:
  assumes wf: "graph_wf graph" and entry: "entry_block graph = Some entry"
  shows "\<exists>rows. dominator_rows Full graph = Some rows \<and>
      set rows = {(a, b, i). block_dominates graph entry a b \<and> (i \<longleftrightarrow> block_immediate graph entry a b)}"
    and "\<exists>rows. dominator_rows ImmediateOnly graph = Some rows \<and>
      set rows = {(a, b, i). block_immediate graph entry a b \<and> i}"
proof -
  let ?w = "forward_walk graph entry"
  note dual = forward_walk_dual [OF wf, of entry]
  have root: "dw_root ?w |\<in>| dw_universe ?w" by (simp add: forward_walk_def reachable_blocks_iff [OF entry])
  obtain t D where t: "dom_tree_of ?w = Some t" "dual_walk.tree_with ?w t D"
    by (rule dual_walk.dom_tree_exists [OF dual root])
  have univ: "fset (universe t) = fset (dw_universe ?w)" by (rule dual_walk.universe_set [OF dual t(2) root])
  have reach: "b |\<in>| universe t \<longleftrightarrow> (block_edge graph)\<^sup>*\<^sup>* entry b" for b
    using univ by (auto simp: forward_walk_def reachable_blocks_iff [OF entry])
  have each: "\<exists>ys. block_rows Full t b = Some ys \<and>
        set ys = {(a, c, i). c = b \<and> block_dominates graph entry a b \<and> (i \<longleftrightarrow> block_immediate graph entry a b)}"
      "\<exists>ys. block_rows ImmediateOnly t b = Some ys \<and>
        set ys = {(a, c, i). c = b \<and> block_immediate graph entry a b \<and> i}" if "b \<in> set (bt_elems (universe t))" for b
    using dual_walk.block_rows_exact [OF dual t(2) root, of b] that
    by (simp_all add: reach forward_reachable [OF entry] forward_dominates [OF entry])
  have dom_reach: "block_dominates graph entry a b \<Longrightarrow> (block_edge graph)\<^sup>*\<^sup>* entry b"
    "block_immediate graph entry a b \<Longrightarrow> (block_edge graph)\<^sup>*\<^sup>* entry b" for a b
    by (auto simp: block_dominates_def block_immediate_def)
  obtain full where full: "try_append (block_rows Full t) (bt_elems (universe t)) = Some full"
    "set full = (\<Union>b \<in> set (bt_elems (universe t)).
       {(a, c, i). c = b \<and> block_dominates graph entry a b \<and> (i \<longleftrightarrow> block_immediate graph entry a b)})"
    using try_append_set [of "bt_elems (universe t)" "block_rows Full t", OF each(1)] by blast
  have "set full = {(a, b, i). block_dominates graph entry a b \<and> (i \<longleftrightarrow> block_immediate graph entry a b)}"
    unfolding full(2) using dom_reach(1) by (auto simp: reach)
  with full(1) show "\<exists>rows. dominator_rows Full graph = Some rows \<and>
      set rows = {(a, b, i). block_dominates graph entry a b \<and> (i \<longleftrightarrow> block_immediate graph entry a b)}"
    by (simp add: dominator_rows_def entry t(1))
  obtain tree where tree: "try_append (block_rows ImmediateOnly t) (bt_elems (universe t)) = Some tree"
    "set tree = (\<Union>b \<in> set (bt_elems (universe t)). {(a, c, i). c = b \<and> block_immediate graph entry a b \<and> i})"
    using try_append_set [of "bt_elems (universe t)" "block_rows ImmediateOnly t", OF each(2)] by blast
  have "set tree = {(a, b, i). block_immediate graph entry a b \<and> i}"
    unfolding tree(2) using dom_reach(2) by (auto simp: reach)
  with tree(1) show "\<exists>rows. dominator_rows ImmediateOnly graph = Some rows \<and>
      set rows = {(a, b, i). block_immediate graph entry a b \<and> i}"
    by (simp add: dominator_rows_def entry t(1))
qed

end
