(* ===== verification/Postdominance.thy ===== *)
theory Postdominance
  imports Dominance
begin

text \<open>
  Post-dominance and control dependence. The reverse walk starts at a virtual exit, a block id counted down from
  the largest, that every selected exit feeds. When this id is no block and no end of an edge, the tree of
  the walk decides post-dominance by paths to the virtual exit. The runner of
  \<open>derive_control_dependence_for\<close> then visits exactly the blocks that post-dominate the target of an edge without
  strictly post-dominating its source; it returns also where blocks cannot reach an exit.
\<close>

section \<open>The reverse walk\<close>

definition exit_is_fresh :: "cfg_graph \<Rightarrow> bool" where
  "exit_is_fresh graph \<longleftrightarrow>
     (let e = virtual_exit_for (g_function graph) in
      e \<notin> block_id ` set (g_blocks graph) \<and>
      (\<forall>edge \<in> set (g_edges graph). cfge_from_block edge \<noteq> e \<and> cfge_to_block edge \<noteq> e))"

text \<open>A step back from a block to one that runs into it; the virtual exit is run into by the exits.\<close>

definition exit_edge :: "cfg_graph \<Rightarrow> basic_block_id \<Rightarrow> basic_block_id \<Rightarrow> bool" where
  "exit_edge graph b a \<longleftrightarrow>
     (if b = virtual_exit_for (g_function graph) then a |\<in>| selected_exit_blocks graph
      else a \<in> block_id ` set (g_blocks graph) \<and> block_edge graph a b)"

text \<open>Every path from \<open>b\<close> to the virtual exit passes \<open>a\<close>.\<close>

definition postdominates :: "cfg_graph \<Rightarrow> basic_block_id \<Rightarrow> basic_block_id \<Rightarrow> bool" where
  "postdominates graph a b \<longleftrightarrow> \<not> avoids (exit_edge graph) (virtual_exit_for (g_function graph)) a b"

definition reaches_exit :: "cfg_graph \<Rightarrow> basic_block_id \<Rightarrow> bool" where
  "reaches_exit graph b \<longleftrightarrow> (exit_edge graph)\<^sup>*\<^sup>* (virtual_exit_for (g_function graph)) b"

lemma selected_exits_blocks: "a |\<in>| selected_exit_blocks graph \<Longrightarrow> a \<in> block_id ` set (g_blocks graph)"
  by (auto simp: selected_exit_blocks_def synthetic_exit_block_def fset_of_list.rep_eq find_Some_iff Let_def
      split: option.splits)

lemma reverse_walk_parts:
  assumes "reverse_walk graph = Some w"
  shows "dw_graph w = graph" "dw_root w = virtual_exit_for (g_function graph)" "dw_direction w = Reverse"
    "dw_universe w = finsert (virtual_exit_for (g_function graph)) (fset_of_list (map block_id (g_blocks graph)))"
    "dw_exits w = selected_exit_blocks graph"
  using assms by (auto simp: reverse_walk_def Let_def split: if_splits)

lemma in_reverse_universe:
  "reverse_walk graph = Some w \<Longrightarrow> a |\<in>| dw_universe w \<longleftrightarrow>
     a = virtual_exit_for (g_function graph) \<or> a \<in> block_id ` set (g_blocks graph)"
  using reverse_walk_parts(4) by (auto simp: fset_of_list.rep_eq)

lemma fresh_edges:
  assumes "graph_wf graph" "exit_is_fresh graph"
  shows "\<not> block_edge graph a (virtual_exit_for (g_function graph))"
    "\<not> block_edge graph (virtual_exit_for (g_function graph)) b"
  using assms(2) by (auto simp: block_edge_iff [OF assms(1)] exit_is_fresh_def Let_def)

lemma reverse_edge:
  assumes wf: "graph_wf graph" and fresh: "exit_is_fresh graph" and w: "reverse_walk graph = Some w"
  shows "walk_edge w a b \<longleftrightarrow> exit_edge graph a b"
proof -
  have pred: "b \<in> set (predecessor_blocks graph a) \<longleftrightarrow> block_edge graph b a"
    using wf by (auto simp: graph_wf_def block_edge_def)
  show ?thesis
    using fresh_edges [OF wf fresh] selected_exits_blocks [of b graph]
    by (auto simp: walk_edge_def walk_successors_def reverse_walk_parts [OF w] in_universe_def exit_edge_def
        fset_of_list.rep_eq pred)
qed

lemma reverse_walk_dual:
  assumes wf: "graph_wf graph" and fresh: "exit_is_fresh graph" and w: "reverse_walk graph = Some w"
  shows "dual_walk w"
proof
  fix a b
  assume b: "b \<noteq> dw_root w" "b |\<in>| dw_universe w"
  have "a \<in> set (walk_predecessors w b) \<longleftrightarrow>
      (a |\<in>| dw_universe w \<and> block_edge graph b a) \<or> (b |\<in>| selected_exit_blocks graph \<and> a = dw_root w)"
    using b(1) by (auto simp: walk_predecessors_def collect_reversed_predecessors_def reverse_walk_parts [OF w]
        in_universe_def block_edge_def)
  also have "\<dots> \<longleftrightarrow> a |\<in>| dw_universe w \<and> exit_edge graph a b"
    using b fresh_edges [OF wf fresh] selected_exits_blocks [of b graph]
    by (auto simp: exit_edge_def reverse_walk_parts(2) [OF w] in_reverse_universe [OF w])
  finally show "a \<in> set (walk_predecessors w b) \<longleftrightarrow> a |\<in>| dw_universe w \<and> walk_edge w a b"
    by (simp add: reverse_edge [OF wf fresh w])
qed

lemma reverse_walk_meaning:
  assumes "graph_wf graph" "exit_is_fresh graph" "reverse_walk graph = Some w"
  shows "walk_reachable w b \<longleftrightarrow> reaches_exit graph b"
    "block_avoids w a b \<longleftrightarrow> \<not> postdominates graph a b"
    "walk_dominates w a b \<longleftrightarrow> reaches_exit graph b \<and> postdominates graph a b"
    "dw_root w |\<in>| dw_universe w"
proof -
  have edge: "walk_edge w = exit_edge graph" by (intro ext) (rule reverse_edge [OF assms])
  show "walk_reachable w b \<longleftrightarrow> reaches_exit graph b" "block_avoids w a b \<longleftrightarrow> \<not> postdominates graph a b"
    "walk_dominates w a b \<longleftrightarrow> reaches_exit graph b \<and> postdominates graph a b"
    by (simp_all add: walk_reachable_def reaches_exit_def postdominates_def walk_dominates_def edge
        reverse_walk_parts(2) [OF assms(3)])
  show "dw_root w |\<in>| dw_universe w" by (simp add: in_reverse_universe [OF assms(3)] reverse_walk_parts(2) [OF assms(3)])
qed

section \<open>Rows\<close>

lemma unreachable_postdominates: "\<not> reaches_exit graph b \<Longrightarrow> postdominates graph a b"
proof -
  have "reaches_exit graph b" if "avoids (exit_edge graph) (virtual_exit_for (g_function graph)) a b"
    using that unfolding reaches_exit_def
    by (induction rule: avoids.induct) (auto intro: rtranclp.rtrancl_into_rtrancl)
  then show "\<not> reaches_exit graph b \<Longrightarrow> postdominates graph a b" by (auto simp: postdominates_def)
qed

text \<open>The pairs of one block: all of the universe where no path reaches the exit.\<close>

lemma full_rows_pairs:
  assumes "graph_wf graph" "exit_is_fresh graph" "reverse_walk graph = Some w" "dom_tree_of w = Some t"
    "dual_walk.tree_with w t D" "b |\<in>| dw_universe w"
  shows "\<exists>ys. block_rows Full t b = Some ys \<and>
    (\<lambda>(a, c, _). (a, c)) ` set ys = {(a, c). c = b \<and> a |\<in>| dw_universe w \<and> postdominates graph a b}"
proof -
  note dual = reverse_walk_dual [OF assms(1-3)] and meaning = reverse_walk_meaning [OF assms(1-3)]
  have in_univ: "a |\<in>| dw_universe w" if "walk_reachable w a" for a
    using that meaning(4) unfolding walk_reachable_def
    by (cases rule: rtranclp.cases) (auto simp: walk_edge_def dest: walk_successors_universe)
  show ?thesis
  proof (cases "walk_reachable w b")
    case True
    obtain S where S: "dominator_set t b = Some S" "fset S = {a. \<not> block_avoids w a b}"
      using dual_walk.dominator_set_exact [OF dual assms(5) meaning(4) True] by blast
    have "a |\<in>| S \<longleftrightarrow> a |\<in>| dw_universe w \<and> postdominates graph a b" for a
      using S(2) in_univ [of a] avoids_unreachable [OF True, of a] meaning(2) by auto
    then show ?thesis by (auto simp: block_rows_def row_sources_def S(1) image_iff)
  next
    case False
    then have "is_vacuous t b" using dual_walk.vacuous_iff [OF dual assms(5) meaning(4)] assms(6) by simp
    moreover have "postdominates graph a b" for a using False meaning(1) unreachable_postdominates by simp
    moreover have "fset (universe t) = fset (dw_universe w)" by (rule dual_walk.universe_set [OF dual assms(5) meaning(4)])
    ultimately show ?thesis by (auto simp: block_rows_def row_sources_def dominator_set_def image_iff)
  qed
qed

text \<open>The rows of a function: the pairs of its blocks, with the flag where the exit can be reached.\<close>

lemma postdominator_rows_pairs:
  assumes "graph_wf graph" "exit_is_fresh graph" "reverse_walk graph = Some w"
  shows "\<exists>rows. postdominator_rows Full graph = Some rows \<and>
    (\<lambda>(a, b, _). (a, b)) ` set rows =
      {(a, b). a \<in> block_id ` set (g_blocks graph) \<and> b \<in> block_id ` set (g_blocks graph) \<and> postdominates graph a b}"
proof -
  let ?e = "virtual_exit_for (g_function graph)" and ?blocks = "block_id ` set (g_blocks graph)"
  note dual = reverse_walk_dual [OF assms] and root = reverse_walk_meaning(4) [OF assms]
  have fresh: "?e \<notin> ?blocks" using assms(2) by (simp add: exit_is_fresh_def Let_def)
  obtain t D where t: "dom_tree_of w = Some t" "dual_walk.tree_with w t D"
    by (rule dual_walk.dom_tree_exists [OF dual root])
  have univ: "fset (universe t) = insert ?e ?blocks"
    using dual_walk.universe_set [OF dual t(2) root] in_reverse_universe [OF assms(3)] by auto
  let ?bs = "filter (\<lambda>block. block \<noteq> ?e) (bt_elems (universe t))"
  have "set ?bs = fset (universe t) - {?e}" by auto
  then have bs: "set ?bs = ?blocks" using univ fresh by simp
  define S where "S b = set (the (block_rows Full t b))" for b
  have each: "\<exists>ys. block_rows Full t b = Some ys \<and> set ys = S b"
      "(\<lambda>(a, c, _). (a, c)) ` S b = {(a, c). c = b \<and> (a = ?e \<or> a \<in> ?blocks) \<and> postdominates graph a b}"
    if "b \<in> set ?bs" for b
  proof -
    have "b |\<in>| dw_universe w" using that unfolding bs in_reverse_universe [OF assms(3)] by simp
    from full_rows_pairs [OF assms t this] obtain ys where ys: "block_rows Full t b = Some ys"
      "(\<lambda>(a, c, _). (a, c)) ` set ys = {(a, c). c = b \<and> a |\<in>| dw_universe w \<and> postdominates graph a b}" by blast
    then show "\<exists>ys. block_rows Full t b = Some ys \<and> set ys = S b" by (simp add: S_def)
    show "(\<lambda>(a, c, _). (a, c)) ` S b = {(a, c). c = b \<and> (a = ?e \<or> a \<in> ?blocks) \<and> postdominates graph a b}"
      using ys(2) by (simp add: S_def ys(1) in_reverse_universe [OF assms(3)])
  qed
  obtain rows where rows: "try_append (block_rows Full t) ?bs = Some rows" "set rows = (\<Union>b \<in> set ?bs. S b)"
    using try_append_set [of ?bs "block_rows Full t" S, OF each(1)] by blast
  let ?rows = "filter (\<lambda>(a, _, _). a \<noteq> ?e) rows"
  have run: "postdominator_rows Full graph = Some ?rows"
    by (simp add: postdominator_rows_def reverse_dom_tree_def assms(3) t(1) Let_def rows(1))
  have kept: "(\<lambda>(a, b, _). (a, b)) ` set ?rows =
      {(a, b). a \<noteq> ?e \<and> (a, b) \<in> (\<lambda>(a, b, _). (a, b)) ` set rows}" by force
  have "(\<lambda>(a, c, _). (a, c)) ` S b = {(a, c). c = b \<and> (a = ?e \<or> a \<in> ?blocks) \<and> postdominates graph a b}"
    if "b \<in> ?blocks" for b using each(2) [of b] that unfolding bs .
  then have all: "(\<lambda>(a, b, _). (a, b)) ` set rows =
      {(a, b). b \<in> ?blocks \<and> (a = ?e \<or> a \<in> ?blocks) \<and> postdominates graph a b}"
    unfolding rows(2) bs image_UN by auto
  have "(\<lambda>(a, b, _). (a, b)) ` set ?rows =
      {(a, b). a \<in> ?blocks \<and> b \<in> ?blocks \<and> postdominates graph a b}"
    unfolding kept all
    by (simp only: set_eq_iff split_paired_All mem_Collect_eq prod.case) (use fresh in blast)
  with run show ?thesis by blast
qed

end
