(* ===== verification/Control_Dependence.thy ===== *)
theory Control_Dependence
  imports Postdominance
begin

text \<open>
  Control dependence, as \<open>derive_control_dependence_for\<close> computes it for one function: for every edge that its
  target does not post-dominate, a runner climbs the post-dominator tree from the target to the parent of the
  source. Below an edge into blocks that cannot reach an exit the runner alternates between two of them and is
  stopped at the first repeat. The computation always returns, and where the target reaches an exit the rows
  are the control dependence of the paths.
\<close>

section \<open>The runner\<close>

definition tree_immediate :: "dom_tree option \<Rightarrow> basic_block_id \<Rightarrow> basic_block_id option" where
  "tree_immediate tree block = Option.bind tree (\<lambda>t. immediate t block True)"

type_synonym seen_pairs = "(cfg_edge_id \<times> basic_block_id) fset"

partial_function (option) climb_runner ::
  "dom_tree option \<Rightarrow> basic_block_id option \<Rightarrow> cfg_edge_id \<Rightarrow> basic_block_id \<Rightarrow> basic_block_id list \<Rightarrow>
     seen_pairs \<Rightarrow> basic_block_id list \<Rightarrow> (seen_pairs \<times> basic_block_id list) option" where
  "climb_runner tree stop edge runner walked seen hits =
     (if Some runner = stop \<or> runner \<in> set walked then Some (seen, hits)
      else
        (let hits = (if (edge, runner) |\<in>| seen then hits else hits @ [runner]);
             seen = finsert (edge, runner) seen
         in case tree_immediate tree runner of
              None \<Rightarrow> Some (seen, hits)
            | Some next_block \<Rightarrow>
                if next_block = runner then Some (seen, hits)
                else climb_runner tree stop edge next_block (walked @ [runner]) seen hits))"

declare climb_runner.simps [code]

definition control_edge ::
  "dom_tree option \<Rightarrow> cfg_edge_fact \<Rightarrow> seen_pairs \<times> (cfg_edge_fact \<times> basic_block_id) list \<Rightarrow>
     (seen_pairs \<times> (cfg_edge_fact \<times> basic_block_id) list) option" where
  "control_edge tree edge = (\<lambda>(seen, rows).
     if cfge_from_block edge = cfge_to_block edge then Some (seen, rows)
     else Option.bind (case tree of None \<Rightarrow> Some False | Some t \<Rightarrow> dominates t (cfge_to_block edge) (cfge_from_block edge))
       (\<lambda>skip. if skip then Some (seen, rows)
         else map_option (\<lambda>(seen, hits). (seen, rows @ map (Pair edge) hits))
           (climb_runner tree (tree_immediate tree (cfge_from_block edge)) (cfge_id edge) (cfge_to_block edge)
             [] seen [])))"

definition control_dependence_rows :: "cfg_graph \<Rightarrow> (cfg_edge_fact \<times> basic_block_id) list option" where
  "control_dependence_rows graph =
     Option.bind (reverse_dom_tree graph) (\<lambda>tree.
       map_option snd (try_fold (control_edge tree) (g_edges graph) ({||}, [])))"

section \<open>The runner returns\<close>

text \<open>It does so because it never visits a block twice and stays within a finite set.\<close>

lemma climb_runner_returns:
  "finite F \<Longrightarrow> runner \<in> F \<Longrightarrow> \<forall>b \<in> F. \<forall>c. tree_immediate tree b = Some c \<longrightarrow> c \<in> F \<Longrightarrow>
   \<exists>seen' hits'. climb_runner tree stop edge runner walked seen hits = Some (seen', hits') \<and>
     fset seen \<subseteq> fset seen' \<and> fset seen' \<subseteq> fset seen \<union> {edge} \<times> UNIV"
proof (induction "card (F - set walked)" arbitrary: runner walked seen hits rule: less_induct)
  case less
  let ?hits = "if (edge, runner) |\<in>| seen then hits else hits @ [runner]"
  let ?seen = "finsert (edge, runner) seen"
  consider "Some runner = stop \<or> runner \<in> set walked" | "tree_immediate tree runner = None"
    | "tree_immediate tree runner = Some runner"
    | c where "runner \<notin> set walked" "Some runner \<noteq> stop" "tree_immediate tree runner = Some c" "c \<noteq> runner"
    by (cases "tree_immediate tree runner") auto
  then show ?case
  proof cases
    case (4 c)
    have "card (F - set (walked @ [runner])) < card (F - set walked)"
      using less.prems(1,2) 4(1) by (intro psubset_card_mono) auto
    then obtain seen' hits' where rec: "climb_runner tree stop edge c (walked @ [runner]) ?seen ?hits = Some (seen', hits')"
      "fset ?seen \<subseteq> fset seen'" "fset seen' \<subseteq> fset ?seen \<union> {edge} \<times> UNIV"
      using less.hyps [of "walked @ [runner]" c ?seen ?hits] less.prems 4(3) by blast
    have "climb_runner tree stop edge runner walked seen hits = Some (seen', hits')"
      using 4 rec(1) by (subst climb_runner.simps) (simp add: Let_def)
    with rec(2,3) show ?thesis by auto
  qed (subst climb_runner.simps, auto simp: Let_def)+
qed

section \<open>What the runner visits\<close>

context dual_walk
begin

lemma tree_immediate_position:
  assumes t: "tree_with t D" and root: "dw_root w |\<in>| dw_universe w" and i: "i < length order"
  shows "tree_immediate (Some t) (order ! i) =
    (case t_idom t ! i of None \<Rightarrow> None | Some p \<Rightarrow> if p = 0 then None else Some (order ! p))"
proof -
  have nv: "\<not> is_vacuous t (order ! i)" using vacuous_iff [OF t root] order_nth(1) [OF i] by simp
  have pos: "fmlookup (t_position t) (order ! i) = Some i"
    using i tree_withD(5) [OF t] by (simp add: positions_iff)
  show ?thesis
  proof (cases "t_idom t ! i")
    case None
    then show ?thesis using nv pos by (simp add: tree_immediate_def immediate_def)
  next
    case (Some p)
    then have "p < length order" using idom_cases [OF t i] i by auto
    then have "order ! p = t_root t \<longleftrightarrow> p = 0" using order_nth(4) tree_withD(9) [OF t] by simp
    then show ?thesis using nv pos Some tree_withD(4) [OF t] by (simp add: tree_immediate_def immediate_def Let_def)
  qed
qed

lemma climb_runner_path:
  assumes t: "tree_with t D" and root: "dw_root w |\<in>| dw_universe w"
    and stop: "stop = (if p = 0 then None else Some (order ! p))"
  shows "0 < i \<Longrightarrow> i < length order \<Longrightarrow> p \<in> anc D i \<Longrightarrow>
    \<forall>x \<in> set walked. \<forall>j \<in> anc D i. x \<noteq> order ! j \<Longrightarrow>
    \<exists>seen' hits'. climb_runner (Some t) stop edge (order ! i) walked seen hits = Some (seen', hits') \<and>
      set hits' = set hits \<union> {b \<in> (!) order ` {j \<in> anc D i. p < j}. (edge, b) |\<notin>| seen}"
proof (induction i arbitrary: walked seen hits rule: less_induct)
  case (less i)
  let ?V = "\<lambda>i. (!) order ` {j \<in> anc D i. p < j}"
  let ?hits = "if (edge, order ! i) |\<in>| seen then hits else hits @ [order ! i]"
  let ?seen = "finsert (edge, order ! i) seen"
  have pi: "p \<le> i" using less.prems(3) by (rule anc_le)
  have fresh: "order ! i \<notin> set walked" using less.prems(4) anc_self by blast
  obtain q where q: "q < i" "t_idom t ! i = Some q" "anc D i = insert i (anc D q)"
    using idom_cases [OF t less.prems(2)] less.prems(1) by auto
  note next_up = tree_immediate_position [OF t root less.prems(2)]
  show ?case
  proof (cases "p = i")
    case True
    then have none: "{j \<in> anc D i. p < j} = {}" using anc_le by fastforce
    have run: "climb_runner (Some t) stop edge (order ! i) walked seen hits = Some (seen, hits)"
      using True less.prems(1) stop by (subst climb_runner.simps) simp
    show ?thesis unfolding none by (intro exI conjI, rule run) simp
  next
    case False
    then have "p \<in> anc D q" using less.prems(3) q(3) by auto
    have stop_ne: "Some (order ! i) \<noteq> stop"
      using False less.prems(2) pi stop by (auto simp: nth_eq_iff_index_eq)
    have V: "?V i = insert (order ! i) (?V q)" using q(3) False pi by auto
    show ?thesis
    proof (cases "q = 0")
      case True
      then have "p = 0" using \<open>p \<in> anc D q\<close> by simp
      then have "?V q = {}" using True by auto
      then show ?thesis using True stop_ne fresh q(2) V next_up
        by (subst climb_runner.simps) (auto simp: Let_def)
    next
      case q0: False
      have ne: "order ! q \<noteq> order ! i" using q(1) less.prems(2) by (simp add: nth_eq_iff_index_eq)
      have "\<forall>x \<in> set (walked @ [order ! i]). \<forall>j \<in> anc D q. x \<noteq> order ! j"
      proof (intro ballI notI)
        fix x j assume x: "x \<in> set (walked @ [order ! i])" and j: "j \<in> anc D q" and eq: "x = order ! j"
        have "j < i" using anc_le [OF j] q(1) by simp
        then have "order ! j \<noteq> order ! i" using less.prems(2) by (simp add: nth_eq_iff_index_eq)
        with x eq have "x \<in> set walked" by auto
        with less.prems(4) j eq q(3) show False by auto
      qed
      then obtain seen' hits' where rec:
        "climb_runner (Some t) stop edge (order ! q) (walked @ [order ! i]) ?seen ?hits = Some (seen', hits')"
        "set hits' = set ?hits \<union> {b \<in> ?V q. (edge, b) |\<notin>| ?seen}"
        using less.IH [OF q(1), of "walked @ [order ! i]" ?seen ?hits] q0 q(1) less.prems(2) \<open>p \<in> anc D q\<close> by auto
      have run: "climb_runner (Some t) stop edge (order ! i) walked seen hits = Some (seen', hits')"
        using stop_ne fresh next_up q(2) q0 ne rec(1) by (subst climb_runner.simps) (simp add: Let_def)
      have "order ! i \<notin> ?V q"
      proof
        assume "order ! i \<in> ?V q"
        then obtain j where "j \<in> anc D q" "order ! i = order ! j" by auto
        with anc_le [of j D q] q(1) less.prems(2) show False by (simp add: nth_eq_iff_index_eq)
      qed
      then have "set hits' = set hits \<union> {b \<in> ?V i. (edge, b) |\<notin>| seen}" unfolding rec(2) V by auto
      with run show ?thesis by blast
    qed
  qed
qed

lemma parent_common:
  assumes t: "tree_with t D" and edge: "walk_edge w (order ! v) (order ! u)"
    and uv: "u < length order" "v < length order" "p \<in> anc D u" "p \<noteq> u"
  shows "p \<in> anc D v"
proof -
  have p: "p < length order" using anc_le [OF uv(3)] uv(1) by simp
  have "\<not> block_avoids w (order ! p) (order ! u)" using tree_withD(3) [OF t uv(1) p] uv(3) by simp
  moreover have "order ! u \<noteq> order ! p" using uv(1,4) p by (auto simp: nth_eq_iff_index_eq)
  ultimately have "\<not> block_avoids w (order ! p) (order ! v)" using edge by (auto intro: avoids.step)
  then show ?thesis using tree_withD(3) [OF t uv(2) p] by simp
qed

text \<open>The blocks that one edge controls.\<close>

definition controlled :: "basic_block_id \<Rightarrow> basic_block_id \<Rightarrow> basic_block_id set" where
  "controlled u v = {x. walk_dominates w x v \<and> x \<noteq> dw_root w \<and> \<not> (x \<noteq> u \<and> walk_dominates w x u)}"

lemma controlled_positions:
  assumes t: "tree_with t D" and edge: "walk_edge w (order ! v) (order ! u)"
    and uv: "u < length order" "v < length order" "0 < u" and p: "anc D u = insert u (anc D p)" "p < u"
  shows "controlled (order ! u) (order ! v) = (!) order ` {j \<in> anc D v. p < j}"
proof -
  have dom: "walk_dominates w (order ! j) (order ! i) \<longleftrightarrow> j \<in> anc D i" if "i < length order" "j < length order" for i j
    using tree_withD(3) [OF t that] order_nth(1) [OF that(1)] by (simp add: walk_dominates_def)
  have pv: "p \<in> anc D v" using parent_common [OF t edge uv(1,2)] p by auto
  have up: "u \<notin> anc D p" using anc_le [of u D p] p(2) by auto
  have core: "j \<noteq> 0 \<and> \<not> (j \<noteq> u \<and> j \<in> anc D u) \<longleftrightarrow> p < j" if "j \<in> anc D v" for j
  proof -
    have j: "j \<in> anc D p \<longleftrightarrow> j \<le> p" using anc_chain [OF that pv] anc_le by blast
    have "0 \<in> anc D p" using anc_root [OF tree_withD(1) [OF t]] p(2) uv(1) by simp
    with j up show ?thesis unfolding p(1) by (metis insert_iff not_le)
  qed
  show ?thesis
  proof (intro set_eqI iffI)
    fix x assume x: "x \<in> controlled (order ! u) (order ! v)"
    then have dv: "walk_dominates w x (order ! v)" by (simp add: controlled_def)
    then have "x \<in> set order"
      using walk_dominates_reachable order_cases uv(1) by (fastforce simp: rpo_of_def)
    then obtain j where j: "j < length order" "order ! j = x" by (auto simp: in_set_conv_nth)
    have "j \<in> anc D v" using dv dom [OF uv(2) j(1)] j(2) by simp
    moreover have "x = order ! u \<longleftrightarrow> j = u" using j uv(1) by (auto simp: nth_eq_iff_index_eq)
    moreover have "p < j"
      using core [OF calculation(1)] x dom [OF uv(1) j(1)] calculation(2) j order_nth(4) [OF j(1)]
      by (auto simp: controlled_def)
    ultimately show "x \<in> (!) order ` {j \<in> anc D v. p < j}" using j(2) by auto
  next
    fix x assume "x \<in> (!) order ` {j \<in> anc D v. p < j}"
    then obtain j where j: "j \<in> anc D v" "p < j" "x = order ! j" by auto
    then have jl: "j < length order" using anc_le [OF j(1)] uv(2) by simp
    have "j \<noteq> 0 \<and> \<not> (j \<noteq> u \<and> j \<in> anc D u)" using core [OF j(1)] j(2) by simp
    then show "x \<in> controlled (order ! u) (order ! v)"
      using dom [OF uv(2) jl] dom [OF uv(1) jl] j(1,3) order_nth(4) [OF jl] jl uv(1)
      by (auto simp: controlled_def nth_eq_iff_index_eq)
  qed
qed

lemma tree_immediate_closed:
  assumes t: "tree_with t D" and root: "dw_root w |\<in>| dw_universe w" and c: "tree_immediate (Some t) b = Some c"
  shows "c \<in> set order \<union> fset (t_vacuous t)"
proof (cases "is_vacuous t b")
  case True
  then have "find (\<lambda>x. x \<noteq> b) (bt_elems (t_vacuous t)) = Some c"
    using c by (simp add: tree_immediate_def immediate_def)
  then have "c \<in> set (bt_elems (t_vacuous t))" by (metis find_Some_iff nth_mem)
  then show ?thesis by simp
next
  case False
  with c obtain i where "fmlookup (t_position t) b = Some i"
    by (auto simp: tree_immediate_def immediate_def split: option.splits)
  then have i: "i < length order" "order ! i = b"
    using tree_withD(5) [OF t] positions_iff [of order b i] by auto
  with tree_immediate_position [OF t root i(1)] c idom_cases [OF t i(1)] show ?thesis
    by (auto split: if_splits)
qed

lemma dominates_returns:
  assumes t: "tree_with t D"
  shows "\<exists>r. dominates t a b = Some r"
proof (cases "is_vacuous t b")
  case False
  have "\<exists>r. dominates_walk t i j = Some r" if "fmlookup (t_position t) b = Some i" for i j
    using that dominates_walk_anc [OF t, of i j] tree_withD(5) [OF t] positions_iff [of order b i] by auto
  with False show ?thesis by (auto simp: dominates_def split: option.splits)
qed (simp add: dominates_def)

lemma control_edge_returns:
  assumes t: "tree_with t D" and root: "dw_root w |\<in>| dw_universe w"
  shows "\<exists>seen' hits. control_edge (Some t) edge (seen, rows) = Some (seen', rows @ map (Pair edge) hits) \<and>
    fset seen' \<subseteq> fset seen \<union> {cfge_id edge} \<times> UNIV"
proof -
  let ?F = "insert (cfge_to_block edge) (set order \<union> fset (t_vacuous t))"
  obtain r where r: "dominates t (cfge_to_block edge) (cfge_from_block edge) = Some r"
    using dominates_returns [OF t] by blast
  obtain seen' hits where run: "climb_runner (Some t) (tree_immediate (Some t) (cfge_from_block edge)) (cfge_id edge)
      (cfge_to_block edge) [] seen [] = Some (seen', hits)" "fset seen' \<subseteq> fset seen \<union> {cfge_id edge} \<times> UNIV"
  proof -
    have "\<forall>b \<in> ?F. \<forall>c. tree_immediate (Some t) b = Some c \<longrightarrow> c \<in> ?F"
      using tree_immediate_closed [OF t root] by blast
    from climb_runner_returns [OF _ insertI1 this, of "tree_immediate (Some t) (cfge_from_block edge)" "cfge_id edge" "[]" seen "[]"]
    show thesis using that by auto
  qed
  show ?thesis
  proof (cases "cfge_from_block edge = cfge_to_block edge \<or> r")
    case True
    with r have "control_edge (Some t) edge (seen, rows) = Some (seen, rows @ map (Pair edge) [])"
      by (auto simp: control_edge_def)
    then show ?thesis by blast
  next
    case False
    with r run(1) have "control_edge (Some t) edge (seen, rows) = Some (seen', rows @ map (Pair edge) hits)"
      by (simp add: control_edge_def)
    with run(2) show ?thesis by blast
  qed
qed

lemma control_edge_exact:
  assumes t: "tree_with t D" and root: "dw_root w |\<in>| dw_universe w"
    and edge: "walk_edge w v u" "walk_reachable w v" "u \<noteq> dw_root w" "v \<noteq> dw_root w" "u \<noteq> v"
      "cfge_from_block edge = u" "cfge_to_block edge = v"
    and fresh: "\<forall>x. (cfge_id edge, x) |\<notin>| seen"
  shows "\<exists>seen' hits. control_edge (Some t) edge (seen, rows) = Some (seen', rows @ map (Pair edge) hits) \<and>
    set hits = controlled u v"
proof -
  have "walk_reachable w u"
    using edge(1,2) by (auto simp: walk_reachable_def intro: rtranclp.rtrancl_into_rtrancl)
  then obtain i where i: "i < length order" "order ! i = u" using position_of [OF t root] by blast
  obtain k where k: "k < length order" "order ! k = v" using position_of [OF t root edge(2)] by blast
  have pos: "0 < i" "0 < k" using i k edge(3,4) order_nth(4) by auto
  obtain p where p: "p < i" "t_idom t ! i = Some p" "anc D i = insert i (anc D p)"
    using idom_cases [OF t i(1)] pos by auto
  have e: "walk_edge w (order ! k) (order ! i)" using edge(1) i k by simp
  have pk: "p \<in> anc D k" using parent_common [OF t e i(1) k(1)] p by auto
  have set: "controlled u v = (!) order ` {j \<in> anc D k. p < j}"
    using controlled_positions [OF t e i(1) k(1) pos(1) p(3,1)] i k by simp
  have skip: "dominates t v u = Some (k \<in> anc D i)"
    using tree_withD(3) [OF t i(1) k(1)] dominates_exact [OF t root, of u v] i k order_nth(1) [OF i(1)] by simp
  show ?thesis
  proof (cases "k \<in> anc D i")
    case True
    then have "k \<in> anc D p" using p(3) edge(5) i k by auto
    then have "k = p" using pk anc_le by (meson antisym)
    then have "{j \<in> anc D k. p < j} = {}" using anc_le [of _ D k] by fastforce
    with skip True edge(5,6,7) set have "control_edge (Some t) edge (seen, rows) = Some (seen, rows @ map (Pair edge) [])"
      "set [] = controlled u v" by (auto simp: control_edge_def)
    then show ?thesis by blast
  next
    case False
    have stop: "tree_immediate (Some t) u = (if p = 0 then None else Some (order ! p))"
      using tree_immediate_position [OF t root i(1)] p(2) i(2) by simp
    obtain seen' hits where run: "climb_runner (Some t) (tree_immediate (Some t) u) (cfge_id edge) (order ! k) [] seen []
        = Some (seen', hits)" "set hits = {b \<in> (!) order ` {j \<in> anc D k. p < j}. (cfge_id edge, b) |\<notin>| seen}"
      using climb_runner_path [OF t root stop pos(2) k(1) pk, of "[]" "cfge_id edge" seen "[]"] by auto
    have "control_edge (Some t) edge (seen, rows) = Some (seen', rows @ map (Pair edge) hits)"
      using skip False edge(5,6,7) run(1) k(2) by (simp add: control_edge_def)
    moreover have "set hits = controlled u v" using run(2) set fresh by auto
    ultimately show ?thesis by blast
  qed
qed

lemma control_fold:
  assumes t: "tree_with t D" and root: "dw_root w |\<in>| dw_universe w"
  shows "distinct (map cfge_id edges) \<Longrightarrow> \<forall>edge \<in> set edges. \<forall>x. (cfge_id edge, x) |\<notin>| seen \<Longrightarrow>
    \<exists>seen' new. try_fold (control_edge (Some t)) edges (seen, rows) = Some (seen', rows @ new) \<and>
      fst ` set new \<subseteq> set edges \<and>
      (\<forall>edge \<in> set edges. let u = cfge_from_block edge; v = cfge_to_block edge in
         walk_edge w v u \<and> walk_reachable w v \<and> u \<noteq> dw_root w \<and> v \<noteq> dw_root w \<and> u \<noteq> v \<longrightarrow>
         {x. (edge, x) \<in> set new} = controlled u v)"
proof (induction edges arbitrary: seen rows)
  case (Cons e edges)
  let ?u = "cfge_from_block e" and ?v = "cfge_to_block e"
  let ?ok = "walk_edge w ?v ?u \<and> walk_reachable w ?v \<and> ?u \<noteq> dw_root w \<and> ?v \<noteq> dw_root w \<and> ?u \<noteq> ?v"
  obtain seen1 hits where step: "control_edge (Some t) e (seen, rows) = Some (seen1, rows @ map (Pair e) hits)"
    "fset seen1 \<subseteq> fset seen \<union> {cfge_id e} \<times> UNIV"
    using control_edge_returns [OF t root] by blast
  have hits: "set hits = controlled ?u ?v" if ok: ?ok
  proof -
    have fresh_e: "\<forall>x. (cfge_id e, x) |\<notin>| seen" using Cons.prems(2) by simp
    obtain s2 h2 where "control_edge (Some t) e (seen, rows) = Some (s2, rows @ map (Pair e) h2)" "set h2 = controlled ?u ?v"
      using control_edge_exact [OF t root, of ?v ?u e seen rows] ok fresh_e by blast
    with step(1) show ?thesis by (auto simp: map_eq_conv inj_map_eq_map inj_def)
  qed
  have "\<forall>edge \<in> set edges. \<forall>x. (cfge_id edge, x) |\<notin>| seen1"
  proof (intro ballI allI notI)
    fix edge x assume edge: "edge \<in> set edges" and "(cfge_id edge, x) |\<in>| seen1"
    moreover have "cfge_id edge \<in> cfge_id ` set edges" using edge by (rule imageI)
    moreover have "cfge_id e \<notin> cfge_id ` set edges" using Cons.prems(1) by simp
    ultimately have "(cfge_id edge, x) |\<in>| seen" using step(2) by fastforce
    with Cons.prems(2) edge show False by simp
  qed
  then obtain seen2 new where rest: "try_fold (control_edge (Some t)) edges (seen1, rows @ map (Pair e) hits) =
      Some (seen2, (rows @ map (Pair e) hits) @ new)" "fst ` set new \<subseteq> set edges"
    "\<forall>edge \<in> set edges. let u = cfge_from_block edge; v = cfge_to_block edge in
       walk_edge w v u \<and> walk_reachable w v \<and> u \<noteq> dw_root w \<and> v \<noteq> dw_root w \<and> u \<noteq> v \<longrightarrow>
       {x. (edge, x) \<in> set new} = controlled u v"
    using Cons.IH [of seen1 "rows @ map (Pair e) hits"] Cons.prems(1) by auto
  have e: "e \<notin> set edges" using Cons.prems(1) by auto
  then have "(e, x) \<notin> set new" for x using rest(2) by force
  moreover have "(edge, x) \<notin> set (map (Pair e) hits)" if "edge \<in> set edges" for edge x using that e by auto
  ultimately have "{x. (edge, x) \<in> set (map (Pair e) hits @ new)} =
      (if edge = e then set hits else {x. (edge, x) \<in> set new})" if "edge \<in> set (e # edges)" for edge
    using that by auto
  then have "\<forall>edge \<in> set (e # edges). let u = cfge_from_block edge; v = cfge_to_block edge in
       walk_edge w v u \<and> walk_reachable w v \<and> u \<noteq> dw_root w \<and> v \<noteq> dw_root w \<and> u \<noteq> v \<longrightarrow>
       {x. (edge, x) \<in> set (map (Pair e) hits @ new)} = controlled u v"
    using rest(3) hits by (simp add: Let_def)
  moreover have "fst ` set (map (Pair e) hits @ new) \<subseteq> set (e # edges)" using rest(2) by auto
  moreover have "try_fold (control_edge (Some t)) (e # edges) (seen, rows) = Some (seen2, rows @ map (Pair e) hits @ new)"
    using step(1) rest(1) by simp
  ultimately show ?case by blast
qed simp

lemma control_fold_returns:
  assumes t: "tree_with t D" and root: "dw_root w |\<in>| dw_universe w"
  shows "\<exists>s. try_fold (control_edge (Some t)) edges (seen, rows) = Some s"
proof (induction edges arbitrary: seen rows)
  case (Cons e edges)
  obtain s1 r1 where "control_edge (Some t) e (seen, rows) = Some (s1, r1)"
    using control_edge_returns [OF t root] by blast
  with Cons.IH [of s1 r1] show ?case by simp
qed simp

end

section \<open>Control dependence\<close>

text \<open>The definition of Ferrante, Ottenstein and Warren, for one edge.\<close>

definition controls :: "cfg_graph \<Rightarrow> cfg_edge_fact \<Rightarrow> basic_block_id \<Rightarrow> bool" where
  "controls graph edge x \<longleftrightarrow>
     cfge_from_block edge \<noteq> cfge_to_block edge \<and> x \<noteq> virtual_exit_for (g_function graph) \<and>
     postdominates graph x (cfge_to_block edge) \<and>
     \<not> (x \<noteq> cfge_from_block edge \<and> postdominates graph x (cfge_from_block edge))"

text \<open>A row is controlled by an edge of the graph.\<close>

lemma control_edge_self:
  assumes "try_fold (control_edge tree) edges (seen, rows) = Some (seen', rows')"
    "\<forall>(e, x) \<in> set rows. cfge_from_block e \<noteq> cfge_to_block e"
  shows "\<forall>(e, x) \<in> set rows'. cfge_from_block e \<noteq> cfge_to_block e"
  using assms
proof (induction edges arbitrary: seen rows)
  case (Cons e edges)
  from Cons.prems(1) obtain s1 r1 where step: "control_edge tree e (seen, rows) = Some (s1, r1)"
    "try_fold (control_edge tree) edges (s1, r1) = Some (seen', rows')"
    by (cases "control_edge tree e (seen, rows)") auto
  have "r1 = rows \<or> cfge_from_block e \<noteq> cfge_to_block e \<and> (\<exists>hits. r1 = rows @ map (Pair e) hits)"
    using step(1) by (auto simp: control_edge_def Option.bind_eq_Some_conv split: if_splits)
  then have "\<forall>(e, x) \<in> set r1. cfge_from_block e \<noteq> cfge_to_block e" using Cons.prems(2) by auto
  with Cons.IH [OF step(2)] show ?case by blast
qed auto

lemma control_edge_without_tree: "\<exists>s. control_edge None edge (seen, rows) = Some s"
proof -
  have "\<exists>s. climb_runner None None (cfge_id edge) (cfge_to_block edge) [] seen [] = Some s"
    by (subst climb_runner.simps) (simp add: Let_def tree_immediate_def)
  then show ?thesis by (auto simp: control_edge_def tree_immediate_def)
qed

lemma control_fold_without_tree: "\<exists>s. try_fold (control_edge None) edges (seen, rows) = Some s"
proof (induction edges arbitrary: seen rows)
  case (Cons e edges)
  obtain s1 r1 where "control_edge None e (seen, rows) = Some (s1, r1)"
    using control_edge_without_tree [of e seen rows] by auto
  with Cons.IH [of s1 r1] show ?case by simp
qed simp

lemma control_rows_return:
  assumes wf: "graph_wf graph" and fresh: "exit_is_fresh graph"
  shows "\<exists>rows. control_dependence_rows graph = Some rows"
proof (cases "reverse_walk graph")
  case None
  then show ?thesis using control_fold_without_tree [of "g_edges graph" "{||}" "[]"]
    by (auto simp: control_dependence_rows_def reverse_dom_tree_def)
next
  case (Some w)
  note dual = reverse_walk_dual [OF wf fresh Some] and root = reverse_walk_meaning(4) [OF wf fresh Some]
  obtain t D where t: "dom_tree_of w = Some t" "dual_walk.tree_with w t D"
    by (rule dual_walk.dom_tree_exists [OF dual root])
  obtain s where "try_fold (control_edge (Some t)) (g_edges graph) ({||}, []) = Some s"
    using dual_walk.control_fold_returns [OF dual t(2) root] by blast
  then show ?thesis by (simp add: control_dependence_rows_def reverse_dom_tree_def Some t(1))
qed

lemma reaches_without_walk:
  assumes "reverse_walk graph = None"
  shows "\<not> reaches_exit graph b \<or> b = virtual_exit_for (g_function graph)"
proof -
  have "selected_exit_blocks graph = {||}"
  proof (rule ccontr)
    assume ne: "selected_exit_blocks graph \<noteq> {||}"
    then obtain a where "a |\<in>| selected_exit_blocks graph" by blast
    then have "g_blocks graph \<noteq> []" using selected_exits_blocks by fastforce
    then have "fset_of_list (map block_id (g_blocks graph)) \<noteq> {||}" by (cases "g_blocks graph") simp_all
    then show False using assms ne by (simp add: reverse_walk_def Let_def)
  qed
  then have "\<not> exit_edge graph (virtual_exit_for (g_function graph)) a" for a by (simp add: exit_edge_def)
  then show ?thesis unfolding reaches_exit_def by (metis converse_rtranclpE)
qed

lemma control_rows:
  assumes wf: "graph_wf graph" and fresh: "exit_is_fresh graph" and ids: "distinct (map cfge_id (g_edges graph))"
  shows "\<exists>rows. control_dependence_rows graph = Some rows \<and> (\<forall>edge \<in> set (g_edges graph).
    cfge_from_block edge \<in> block_id ` set (g_blocks graph) \<longrightarrow> reaches_exit graph (cfge_to_block edge) \<longrightarrow>
    {x. (edge, x) \<in> set rows} = {x. controls graph edge x})"
proof (cases "reverse_walk graph")
  case None
  obtain seen rows where "try_fold (control_edge None) (g_edges graph) ({||}, []) = Some (seen, rows)"
    using control_fold_without_tree [of "g_edges graph" "{||}" "[]"] by auto
  then have "control_dependence_rows graph = Some rows"
    by (simp add: control_dependence_rows_def reverse_dom_tree_def None)
  moreover have "\<not> reaches_exit graph (cfge_to_block edge)" if "edge \<in> set (g_edges graph)" for edge
    using reaches_without_walk [OF None] fresh that by (auto simp: exit_is_fresh_def Let_def)
  ultimately show ?thesis by blast
next
  case (Some w)
  note dual = reverse_walk_dual [OF wf fresh Some] and meaning = reverse_walk_meaning [OF wf fresh Some]
  note parts = reverse_walk_parts [OF Some]
  obtain t D where t: "dom_tree_of w = Some t" "dual_walk.tree_with w t D"
    by (rule dual_walk.dom_tree_exists [OF dual meaning(4)])
  have "\<forall>edge \<in> set (g_edges graph). \<forall>x. (cfge_id edge, x) |\<notin>| {||}" by simp
  from dual_walk.control_fold [OF dual t(2) meaning(4) ids this, of "[]"]
  obtain seen rows where run: "try_fold (control_edge (Some t)) (g_edges graph) ({||}, []) = Some (seen, rows)"
    and rows: "\<forall>edge \<in> set (g_edges graph). let u = cfge_from_block edge; v = cfge_to_block edge in
         walk_edge w v u \<and> walk_reachable w v \<and> u \<noteq> dw_root w \<and> v \<noteq> dw_root w \<and> u \<noteq> v \<longrightarrow>
         {x. (edge, x) \<in> set rows} = dual_walk.controlled w u v" by auto
  have self: "\<forall>(e, x) \<in> set rows. cfge_from_block e \<noteq> cfge_to_block e"
    by (rule control_edge_self [OF run]) simp
  have each: "{x. (edge, x) \<in> set rows} = {x. controls graph edge x}"
    if edge: "edge \<in> set (g_edges graph)" and u: "cfge_from_block edge \<in> block_id ` set (g_blocks graph)"
      and v: "reaches_exit graph (cfge_to_block edge)" for edge
  proof (cases "cfge_from_block edge = cfge_to_block edge")
    case True
    with self show ?thesis by (auto simp: controls_def)
  next
    case False
    let ?u = "cfge_from_block edge" and ?v = "cfge_to_block edge"
    have ends: "?u \<noteq> dw_root w" "?v \<noteq> dw_root w"
      using fresh edge by (auto simp: exit_is_fresh_def Let_def parts(2))
    have "block_edge graph ?u ?v" using wf edge False unfolding graph_wf_def block_edge_def by blast
    then have step_back: "exit_edge graph ?v ?u" using u ends(2) by (simp add: exit_edge_def parts(2))
    have ru: "reaches_exit graph ?u"
      using v step_back unfolding reaches_exit_def by (rule rtranclp.rtrancl_into_rtrancl)
    have "{x. (edge, x) \<in> set rows} = dual_walk.controlled w ?u ?v"
      using rows edge False ends step_back v by (simp add: Let_def reverse_edge [OF wf fresh Some] meaning(1))
    also have "\<dots> = {x. controls graph edge x}"
      using False v ru by (auto simp: dual_walk.controlled_def [OF dual] controls_def meaning(3) parts(2))
    finally show ?thesis .
  qed
  have "control_dependence_rows graph = Some rows"
    by (simp add: control_dependence_rows_def reverse_dom_tree_def Some t(1) run)
  with each show ?thesis by blast
qed

end
