(* ===== verification/Parallel_Rows.thy ===== *)
theory Parallel_Rows
  imports Stable_Key
begin

text \<open>
  \<open>derive_rows_per_graph\<close> of \<open>analysis_neutral/cfg/derived.rs\<close>: rows are derived for chunks of graphs in parallel, each
  task numbering its rows from one and interning their keys into an overlay of the interner; the parts are then
  joined in graph order, ids shifted and keys moved onto the interner. The result, and the interner it leaves,
  are those of one sequential walk over all graphs. What a row type contributes, its id, its key
  and an update of both, is the locale \<open>derived_row\<close>.
\<close>

section \<open>Rows\<close>

text \<open>
  The rows of a graph before they get an id and a key: the text of the key with the other fields. Interning
  happens row by row, in the order of the list.
\<close>

type_synonym 'r draft = "string \<times> 'r"

fun push_rows ::
  "(nat \<Rightarrow> stable_key_id \<Rightarrow> 'r \<Rightarrow> 'r) \<Rightarrow> (string \<Rightarrow> 's \<Rightarrow> (stable_key_id \<times> 's) option) \<Rightarrow> 'r draft list \<Rightarrow> nat \<Rightarrow> 's \<Rightarrow>
     ('r list \<times> nat \<times> 's) option" where
  "push_rows place put [] next_id s = Some ([], next_id, s)"
| "push_rows place put ((text, row) # drafts) next_id s =
     (case put text s of
        None \<Rightarrow> None
      | Some (key, s) \<Rightarrow>
          map_option (\<lambda>(rows, next_id', s). (place next_id key row # rows, next_id', s))
            (push_rows place put drafts (next_id + 1) s))"

fun chunks :: "nat \<Rightarrow> 'a list \<Rightarrow> 'a list list" where
  "chunks n [] = []"
| "chunks n (x # xs) = (x # take (n - 1) xs) # chunks n (drop (n - 1) xs)"

definition GRAPHS_PER_TASK :: nat where
  "GRAPHS_PER_TASK = 64"

text \<open>One task: the rows of a chunk, their number, and the overlay with their keys.\<close>

definition derive_task ::
  "(nat \<Rightarrow> stable_key_id \<Rightarrow> 'r \<Rightarrow> 'r) \<Rightarrow> ('g \<Rightarrow> 'r draft list option) \<Rightarrow> interner_state \<Rightarrow> 'g list \<Rightarrow>
     ('r list \<times> nat \<times> overlay_state) option" where
  "derive_task place derive interner chunk =
     Option.bind (overlay interner) (\<lambda>ov. Option.bind (try_append derive chunk) (\<lambda>drafts.
       map_option (\<lambda>(rows, next_id, ov). (rows, next_id - 1, ov))
         (push_rows place (overlay_intern interner) drafts 1 ov)))"

definition relabel ::
  "(nat \<Rightarrow> stable_key_id \<Rightarrow> 'r \<Rightarrow> 'r) \<Rightarrow> ('r \<Rightarrow> nat) \<Rightarrow> ('r \<Rightarrow> stable_key_id) \<Rightarrow> nat \<Rightarrow> stable_key_remap \<Rightarrow> 'r \<Rightarrow> 'r option" where
  "relabel place id_of key_of offset remap row =
     map_option (\<lambda>key. place (id_of row + offset) key row) (remap_apply remap (key_of row))"

definition join_part ::
  "(nat \<Rightarrow> stable_key_id \<Rightarrow> 'r \<Rightarrow> 'r) \<Rightarrow> ('r \<Rightarrow> nat) \<Rightarrow> ('r \<Rightarrow> stable_key_id) \<Rightarrow> 'r list \<times> nat \<times> overlay_state \<Rightarrow>
     'r list \<times> nat \<times> interner_state \<Rightarrow> ('r list \<times> nat \<times> interner_state) option" where
  "join_part place id_of key_of = (\<lambda>(rows, part_rows, ov) (facts, offset, interner).
     Option.bind (absorb ov interner) (\<lambda>(remap, interner).
       map_option (\<lambda>rows. (facts @ rows, offset + part_rows, interner))
         (those (map (relabel place id_of key_of offset remap) rows))))"

definition derive_rows_per_graph ::
  "(nat \<Rightarrow> stable_key_id \<Rightarrow> 'r \<Rightarrow> 'r) \<Rightarrow> ('r \<Rightarrow> nat) \<Rightarrow> ('r \<Rightarrow> stable_key_id) \<Rightarrow> ('g \<Rightarrow> 'r draft list option) \<Rightarrow>
     'g list \<Rightarrow> interner_state \<Rightarrow> ('r list \<times> interner_state) option" where
  "derive_rows_per_graph place id_of key_of derive graphs interner =
     Option.bind (those (map (derive_task place derive interner) (chunks GRAPHS_PER_TASK graphs))) (\<lambda>parts.
       map_option (\<lambda>(facts, _, interner). (facts, interner))
         (try_fold (join_part place id_of key_of) parts ([], 0, interner)))"

text \<open>The sequential walk of the comment: one counter, one interner.\<close>

definition derive_rows_sequential ::
  "(nat \<Rightarrow> stable_key_id \<Rightarrow> 'r \<Rightarrow> 'r) \<Rightarrow> ('g \<Rightarrow> 'r draft list option) \<Rightarrow> 'g list \<Rightarrow> interner_state \<Rightarrow>
     ('r list \<times> interner_state) option" where
  "derive_rows_sequential place derive graphs interner =
     Option.bind (try_append derive graphs) (\<lambda>drafts.
       map_option (\<lambda>(rows, _, interner). (rows, interner)) (push_rows place intern drafts 1 interner))"

section \<open>Keys in order of first occurrence\<close>

fun extend :: "string list \<Rightarrow> string list \<Rightarrow> string list" where
  "extend ks [] = ks"
| "extend ks (t # ts) = extend (if t \<in> set ks then ks else ks @ [t]) ts"

lemma extend_append: "extend ks (ts @ us) = extend (extend ks ts) us"
  by (induction ts arbitrary: ks) simp_all

lemma set_extend [simp]: "set (extend ks ts) = set ks \<union> set ts"
  by (induction ts arbitrary: ks) auto

lemma extend_prefix: "\<exists>new. extend ks ts = ks @ new"
proof (induction ts arbitrary: ks)
  case (Cons t ts)
  obtain new where "extend (if t \<in> set ks then ks else ks @ [t]) ts = (if t \<in> set ks then ks else ks @ [t]) @ new"
    using Cons.IH by blast
  then show ?case by auto
qed simp

text \<open>Extending another list by the new keys only is extending it by all texts.\<close>

lemma extend_new: "set ks \<subseteq> set ls \<Longrightarrow> extend ks ts = ks @ new \<Longrightarrow> extend ls new = extend ls ts"
proof (induction ts arbitrary: ks ls new)
  case (Cons t ts)
  show ?case
  proof (cases "t \<in> set ks")
    case True
    with Cons show ?thesis by auto
  next
    case False
    obtain new' where "extend (ks @ [t]) ts = (ks @ [t]) @ new'" using extend_prefix by blast
    moreover from this have "new = t # new'" using Cons.prems(2) False by simp
    moreover have "set (ks @ [t]) \<subseteq> set (if t \<in> set ls then ls else ls @ [t])" using Cons.prems(1) by auto
    ultimately show ?thesis using Cons.IH [of "ks @ [t]" "if t \<in> set ls then ls else ls @ [t]" new'] by simp
  qed
qed simp

lemma interner_eqI: "interner_wf b s \<Longrightarrow> interner_wf b s' \<Longrightarrow> keys s = keys s' \<Longrightarrow> s = s'"
proof -
  assume wf: "interner_wf b s" "interner_wf b s'" and eq: "keys s = keys s'"
  have "fmlookup (ids s) k = Some i \<longleftrightarrow> fmlookup (ids s') k = Some i" for k i
    using wf eq by (simp add: interner_wf_def)
  then have "fmlookup (ids s) k = fmlookup (ids s') k" for k by (metis not_Some_eq)
  then have "ids s = ids s'" by (intro fmap_ext)
  with eq show ?thesis by simp
qed

lemma intern_cases:
  assumes "interner_wf 0 s" "intern t s = Some (i, s')"
  shows "interner_wf 0 s' \<and> keys s' = extend (keys s) [t]"
proof -
  have "t \<notin> set (keys s) \<longleftrightarrow> fmlookup (ids s) t = None" using wf_lookup_None [OF assms(1)] by simp
  moreover have "interner_wf 0 s'" by (rule root.put_inv [OF assms])
  ultimately show ?thesis using assms(2)
    by (auto simp: intern_def push_from_def Let_def split: option.splits if_splits)
qed

lemma put_defined:
  assumes "interner_wf 0 s" "length (extend (keys s) [t]) \<le> U32_MAX + 1"
  shows "\<exists>i s'. intern t s = Some (i, s')"
  using assms wf_lookup_None [OF assms(1), of t]
  by (auto simp: intern_def push_from_def Let_def split: option.splits if_splits)

lemma keys_distinct_le:
  "interner_wf b s \<Longrightarrow> distinct ks \<Longrightarrow> set ks \<subseteq> set (keys s) \<Longrightarrow> length ks \<le> length (keys s)"
  by (metis card_mono distinct_card interner_wf_def List.finite_set)

lemma distinct_extend: "distinct ks \<Longrightarrow> distinct (extend ks ts)"
  by (induction ts arbitrary: ks) auto

text \<open>Room for the keys that a list of texts adds.\<close>

definition fits :: "string list \<Rightarrow> string list \<Rightarrow> bool" where
  "fits ks ts \<longleftrightarrow> extend ks ts = ks \<or> length (extend ks ts) \<le> U32_MAX + 1"

lemma length_extend: "length ks \<le> length (extend ks ts)"
  using extend_prefix [of ks ts] by auto

lemma fits_Cons: "fits ks (t # ts) \<longleftrightarrow>
    (t \<in> set ks \<or> length ks \<le> U32_MAX) \<and> fits (if t \<in> set ks then ks else ks @ [t]) ts"
proof (cases "t \<in> set ks")
  case False
  obtain new where new: "extend (ks @ [t]) ts = (ks @ [t]) @ new" using extend_prefix by blast
  then show ?thesis using False by (auto simp: fits_def)
qed (simp add: fits_def)

section \<open>Interning a list of texts\<close>

lemma root_intern_all:
  "interner_wf 0 s \<Longrightarrow> intern_all intern ts s = Some (is, s') \<Longrightarrow>
    interner_wf 0 s' \<and> keys s' = extend (keys s) ts \<and> fits (keys s) ts"
proof (induction ts arbitrary: s "is")
  case (Cons t ts)
  obtain i s1 is1 where put: "intern t s = Some (i, s1)" and rest: "intern_all intern ts s1 = Some (is1, s')"
    using Cons.prems(2) by (auto split: option.splits)
  have s1: "interner_wf 0 s1" "keys s1 = (if t \<in> set (keys s) then keys s else keys s @ [t])"
    using intern_cases [OF Cons.prems(1) put] by simp_all
  have "t \<in> set (keys s) \<or> length (keys s) \<le> U32_MAX"
    using put wf_lookup_None [OF Cons.prems(1), of t]
    by (auto simp: intern_def push_from_def split: option.splits if_splits)
  with Cons.IH [OF s1(1) rest] s1(2) show ?case by (simp add: fits_Cons)
qed (simp add: fits_def)

lemma root_intern_all_defined:
  "interner_wf 0 s \<Longrightarrow> fits (keys s) ts \<Longrightarrow> \<exists>is s'. intern_all intern ts s = Some (is, s')"
proof (induction ts arbitrary: s)
  case (Cons t ts)
  have "length (extend (keys s) [t]) \<le> U32_MAX + 1 \<or> t \<in> set (keys s)" using Cons.prems(2) by (auto simp: fits_Cons)
  then obtain i s1 where put: "intern t s = Some (i, s1)"
    using put_defined [OF Cons.prems(1), of t] wf_lookup_None [OF Cons.prems(1), of t] by (auto simp: intern_def split: option.splits)
  have s1: "interner_wf 0 s1" "keys s1 = (if t \<in> set (keys s) then keys s else keys s @ [t])"
    using intern_cases [OF Cons.prems(1) put] by simp_all
  then obtain "is" s' where "intern_all intern ts s1 = Some (is, s')"
    using Cons.IH [of s1] Cons.prems(2) by (auto simp: fits_Cons split: if_splits)
  with put show ?case by simp
qed simp

text \<open>An overlay taken when the root had the keys it still has.\<close>

definition over :: "interner_state \<Rightarrow> overlay_state \<Rightarrow> bool" where
  "over r ov \<longleftrightarrow> overlay_wf r ov \<and> overlay_base ov = length (keys r)"

lemma over_intern:
  assumes ov: "over r ov" and put: "overlay_intern r t ov = Some (i, ov')"
  shows "over r ov' \<and> keys r @ keys (own ov') = extend (keys r @ keys (own ov)) [t]"
proof -
  have wf: "overlay_wf r ov" and base: "overlay_base ov = length (keys r)" using ov by (auto simp: over_def)
  have "overlay_wf r ov'" by (rule layered.put_inv [OF wf put])
  with overlay_intern_cases [OF wf put] base wf wf_lookup_None [of "overlay_base ov" "own ov" t]
  show ?thesis by (auto simp: over_def overlay_wf_def)
qed

lemma over_intern_defined:
  assumes ov: "over r ov" and room: "t \<in> set (keys r @ keys (own ov)) \<or> length (keys r @ keys (own ov)) \<le> U32_MAX"
  shows "\<exists>i ov'. overlay_intern r t ov = Some (i, ov')"
proof -
  have wf: "overlay_wf r ov" and base: "overlay_base ov = length (keys r)" using ov by (auto simp: over_def)
  then have "parent_id r ov t = None \<longleftrightarrow> t \<notin> set (keys r)" "fmlookup (ids (own ov)) t = None \<longleftrightarrow> t \<notin> set (keys (own ov))"
    using parent_id_None [of r ov t] wf_lookup_None [of "overlay_base ov" "own ov" t] by (auto simp: overlay_wf_def)
  with room base show ?thesis
    by (auto simp: overlay_intern_def push_from_def Let_def split: option.splits)
qed

lemma over_intern_all:
  "over r ov \<Longrightarrow> fits (keys r @ keys (own ov)) ts \<Longrightarrow>
    \<exists>is ov'. intern_all (overlay_intern r) ts ov = Some (is, ov') \<and> over r ov' \<and>
      keys r @ keys (own ov') = extend (keys r @ keys (own ov)) ts"
proof (induction ts arbitrary: ov)
  case (Cons t ts)
  obtain i ov1 where put: "overlay_intern r t ov = Some (i, ov1)"
    using over_intern_defined [OF Cons.prems(1), of t] Cons.prems(2) by (auto simp: fits_Cons)
  note ov1 = over_intern [OF Cons.prems(1) put]
  then have "fits (keys r @ keys (own ov1)) ts" using Cons.prems(2) by (simp add: fits_Cons split: if_splits)
  with Cons.IH [of ov1] ov1 put show ?case by auto
qed simp

section \<open>Labels\<close>

fun label_rows ::
  "(nat \<Rightarrow> stable_key_id \<Rightarrow> 'r \<Rightarrow> 'r) \<Rightarrow> nat \<Rightarrow> stable_key_id list \<Rightarrow> 'r draft list \<Rightarrow> 'r list" where
  "label_rows place n (k # ks) ((text, row) # drafts) = place n k row # label_rows place (n + 1) ks drafts"
| "label_rows place n _ _ = []"

lemma push_rows_eq:
  "push_rows place put drafts n s =
     map_option (\<lambda>(ks, s'). (label_rows place n ks drafts, n + length drafts, s')) (intern_all put (map fst drafts) s)"
proof (induction drafts arbitrary: n s)
  case (Cons d drafts)
  show ?case
    by (cases d; cases "put (fst d) s") (auto simp: Cons.IH option.map_comp comp_def intro!: option.map_cong0)
qed simp

lemma label_rows_nth:
  "length ks = length drafts \<Longrightarrow> i < length drafts \<Longrightarrow>
    label_rows place n ks drafts ! i = place (n + i) (ks ! i) (snd (drafts ! i))"
proof (induction place n ks drafts arbitrary: i rule: label_rows.induct)
  case (1 place n k ks t row drafts)
  then show ?case by (cases i) simp_all
qed simp_all

lemma length_label_rows [simp]: "length ks = length drafts \<Longrightarrow> length (label_rows place n ks drafts) = length drafts"
  by (induction place n ks drafts rule: label_rows.induct) simp_all

lemma label_rows_append:
  "length ks = length ds \<Longrightarrow>
    label_rows place n (ks @ ks') (ds @ ds') = label_rows place n ks ds @ label_rows place (n + length ds) ks' ds'"
  by (induction place n ks ds rule: label_rows.induct) auto

lemma those_nth: "length ys = length xs \<Longrightarrow> (\<And>i. i < length xs \<Longrightarrow> f (xs ! i) = Some (ys ! i)) \<Longrightarrow>
    those (map f xs) = Some ys"
proof (induction xs arbitrary: ys)
  case (Cons x xs)
  then obtain y ys' where ys: "ys = y # ys'" by (cases ys) auto
  have "f x = Some y" using Cons.prems(2) [of 0] ys by simp
  moreover have "those (map f xs) = Some ys'"
    using Cons.IH [of ys'] Cons.prems(1) Cons.prems(2) [of "Suc _"] ys by fastforce
  ultimately show ?case by (simp add: ys)
qed simp

lemma intern_all_append:
  "intern_all put (ts @ us) s = Option.bind (intern_all put ts s) (\<lambda>(js, s').
     map_option (\<lambda>(ks, s''). (js @ ks, s'')) (intern_all put us s'))"
proof (induction ts arbitrary: s)
  case Nil
  show ?case by (cases "intern_all put us s") auto
next
  case (Cons t ts)
  show ?case
  proof (cases "put t s")
    case (Some r)
    then obtain i s1 where put: "put t s = Some (i, s1)" by (cases r) auto
    show ?thesis
    proof (cases "intern_all put ts s1")
      case (Some q)
      then obtain js s2 where ts: "intern_all put ts s1 = Some (js, s2)" by (cases q) auto
      then show ?thesis using put Cons.IH [of s1] by (cases "intern_all put us s2") auto
    qed (use put Cons.IH [of s1] in simp)
  qed simp
qed

lemma try_append_append:
  "try_append f (xs @ ys) = Some zs \<longleftrightarrow>
    (\<exists>us vs. try_append f xs = Some us \<and> try_append f ys = Some vs \<and> zs = us @ vs)"
proof (induction xs arbitrary: zs)
  case (Cons x xs)
  show ?case by (cases "f x") (auto simp: Cons.IH)
qed auto

section \<open>The contract of a row type\<close>

locale derived_row =
  fixes place :: "nat \<Rightarrow> stable_key_id \<Rightarrow> 'r \<Rightarrow> 'r" and id_of :: "'r \<Rightarrow> nat" and key_of :: "'r \<Rightarrow> stable_key_id"
  assumes id_place: "id_of (place i k r) = i"
    and key_place: "key_of (place i k r) = k"
    and place_place: "place i k (place j l r) = place i k r"
begin

text \<open>A part joined onto an interner that has grown since the overlay was taken.\<close>

lemma join_part_sequential:
  assumes start: "over start ov0" "keys (own ov0) = []"
    and part: "intern_all (overlay_intern start) (map fst drafts) ov0 = Some (oks, ov)"
    and over: "over start ov" "keys start @ keys (own ov) = extend (keys start) (map fst drafts)"
    and grown: "grows start root"
    and seq: "intern_all intern (map fst drafts) root = Some (ks, root')"
  shows "join_part place id_of key_of (label_rows place 1 oks drafts, length drafts, ov) (facts, offset, root) =
    Some (facts @ label_rows place (offset + 1) ks drafts, offset + length drafts, root')"
proof -
  let ?ts = "map fst drafts"
  have wf0: "interner_wf 0 start" "interner_wf 0 root" using grown by (auto simp: grows_def)
  have sub: "set (keys start) \<subseteq> set (keys root)" using grown by (auto simp: grows_def prefix_def)
  note root' = root_intern_all [OF wf0(2) seq]
  have same: "extend (keys root) (keys (own ov)) = extend (keys root) ?ts"
    by (rule extend_new [OF sub over(2) [symmetric]])
  have "fits (keys root) (keys (own ov))" using root' by (simp add: fits_def same)
  then obtain aks root2 where abs: "intern_all intern (keys (own ov)) root = Some (aks, root2)"
    using root_intern_all_defined [OF wf0(2)] by blast
  have "keys root2 = keys root'" "interner_wf 0 root2" using root_intern_all [OF wf0(2) abs] root' same by simp_all
  then have [simp]: "root2 = root'" using root' by (auto intro: interner_eqI)
  define remap where "remap = \<lparr> remap_base = overlay_base ov, absorbed = aks \<rparr>"
  have absorb: "absorb ov root = Some (remap, root')" by (simp add: absorb_def abs remap_def)
  have laks: "length aks = length (keys (own ov))" using root.intern_all_keeps [OF wf0(2) abs] by simp
  have lks: "length ks = length drafts" using root.intern_all_keeps [OF wf0(2) seq] by simp
  have loks: "length oks = length drafts"
    using layered.intern_all_keeps [of start ov0 ?ts oks ov] start(1) part by (simp add: over_def)
  have base: "overlay_base ov = length (keys start)" using over(1) by (simp add: over_def)
  have moved: "remap_apply remap (oks ! i) = Some (ks ! i)" if i: "i < length drafts" for i
  proof -
    have t: "overlay_resolve start ov (oks ! i) = Some (?ts ! i)"
      using layered.intern_all_get [of start ov0 ?ts oks ov i] start(1) part i by (simp add: over_def)
    have "\<exists>j. remap_apply remap (oks ! i) = Some j \<and> resolve root' j = Some (?ts ! i)"
    proof (cases "oks ! i < overlay_base ov")
      case True
      then have "resolve start (oks ! i) = Some (?ts ! i)" using t by (simp add: overlay_resolve_def)
      moreover have "grows root root'" by (rule intern_all_grows [OF wf0(2) seq])
      ultimately have "resolve root' (oks ! i) = Some (?ts ! i)"
        using grows_resolve [OF grown] grows_resolve [of root root'] True base grown
        by (metis grows_take order.refl order.strict_trans2)
      with True show ?thesis by (simp add: remap_apply_def remap_def)
    next
      case False
      let ?n = "oks ! i - overlay_base ov"
      have n: "?n < length (keys (own ov))" "keys (own ov) ! ?n = ?ts ! i"
        using t False by (auto simp: overlay_resolve_def split: if_splits)
      have "resolve root' (aks ! ?n) = Some (?ts ! i)"
        using root.intern_all_get [OF wf0(2) abs n(1)] n(2) by simp
      with False n(1) laks show ?thesis by (auto simp: remap_apply_def remap_def Let_def)
    qed
    then obtain j where j: "remap_apply remap (oks ! i) = Some j" "resolve root' j = Some (?ts ! i)" by blast
    have "resolve root' (ks ! i) = Some (?ts ! i)" using root.intern_all_get [OF wf0(2) seq, of i] i by simp
    then have "j = ks ! i" using root.get_inj [of root' j "?ts ! i" "ks ! i"] j(2) root' by simp
    with j(1) show ?thesis by simp
  qed
  have "those (map (relabel place id_of key_of offset remap) (label_rows place 1 oks drafts)) =
      Some (label_rows place (offset + 1) ks drafts)"
  proof (rule those_nth)
    show "length (label_rows place (offset + 1) ks drafts) = length (label_rows place 1 oks drafts)"
      using lks loks by simp
    fix i assume "i < length (label_rows place 1 oks drafts)"
    then have i: "i < length drafts" using loks by simp
    show "relabel place id_of key_of offset remap (label_rows place 1 oks drafts ! i) =
        Some (label_rows place (offset + 1) ks drafts ! i)"
      using moved [OF i] by (simp add: label_rows_nth lks loks i relabel_def id_place key_place place_place ac_simps)
  qed
  then show ?thesis by (simp add: join_part_def absorb)
qed

lemma parallel_parts:
  assumes wf: "interner_wf 0 start" and room: "overlay start = Some ov0"
  shows "try_append derive (concat cs) = Some drafts \<Longrightarrow> grows start root \<Longrightarrow>
    intern_all intern (map fst drafts) root = Some (ks, root') \<Longrightarrow> length (keys root) \<le> U32_MAX + 1 \<Longrightarrow>
    \<exists>parts. those (map (derive_task place derive start) cs) = Some parts \<and>
      try_fold (join_part place id_of key_of) parts (facts, offset, root) =
        Some (facts @ label_rows place (offset + 1) ks drafts, offset + length drafts, root')"
proof (induction cs arbitrary: drafts root ks facts offset)
  case Nil
  then show ?case by simp
next
  case (Cons c cs)
  obtain ds es where drafts: "try_append derive c = Some ds" "try_append derive (concat cs) = Some es" "drafts = ds @ es"
    using Cons.prems(1) by (auto simp: try_append_append)
  obtain js ls root1 where seq: "intern_all intern (map fst ds) root = Some (js, root1)"
    "intern_all intern (map fst es) root1 = Some (ls, root')" "ks = js @ ls"
    using Cons.prems(3)
    by (cases "intern_all intern (map fst ds) root") (auto simp: drafts(3) intern_all_append)
  have wfr: "interner_wf 0 root" using Cons.prems(2) by (simp add: grows_def)
  have grow1: "grows root root1" by (rule intern_all_grows [OF wfr seq(1)])
  then have grown1: "grows start root1" using Cons.prems(2) unfolding grows_def using prefix_order.trans by blast
  have bound1: "length (keys root1) \<le> U32_MAX + 1"
    using root_intern_all [OF wfr seq(1)] Cons.prems(4) by (auto simp: fits_def)
  have ov0: "over start ov0" "keys (own ov0) = []"
    using overlay_start_wf [OF wf room] room by (auto simp: over_def overlay_def interner_default_def split: if_splits)
  have "fits (keys start) (map fst ds)"
  proof (cases "set (map fst ds) \<subseteq> set (keys start)")
    case True
    then have "extend (keys start) (map fst ds) = keys start" by (induction ds) auto
    then show ?thesis by (simp add: fits_def)
  next
    case False
    have r1: "interner_wf 0 root1" "keys root1 = extend (keys root) (map fst ds)" "fits (keys root) (map fst ds)"
      using root_intern_all [OF wfr seq(1)] by simp_all
    have sub: "set (extend (keys start) (map fst ds)) \<subseteq> set (keys root1)"
      using Cons.prems(2) r1(2) by (auto simp: grows_def prefix_def)
    have "distinct (extend (keys start) (map fst ds))" using wf by (intro distinct_extend) (simp add: interner_wf_def)
    then have le: "length (extend (keys start) (map fst ds)) \<le> length (keys root1)"
      by (rule keys_distinct_le [OF r1(1) _ sub])
    moreover have "length (keys root1) \<le> U32_MAX + 1" using r1(2,3) Cons.prems(4) by (auto simp: fits_def)
    ultimately show ?thesis by (simp add: fits_def)
  qed
  then obtain oks ov where part: "intern_all (overlay_intern start) (map fst ds) ov0 = Some (oks, ov)"
    "over start ov" "keys start @ keys (own ov) = extend (keys start) (map fst ds)"
    using over_intern_all [OF ov0(1), of "map fst ds"] ov0(2) by auto
  have task: "derive_task place derive start c = Some (label_rows place 1 oks ds, length ds, ov)"
    by (simp add: derive_task_def room drafts(1) push_rows_eq part(1))
  have ljs: "length js = length ds" using root.intern_all_keeps [OF wfr seq(1)] by simp
  obtain parts where parts: "those (map (derive_task place derive start) cs) = Some parts"
    "try_fold (join_part place id_of key_of) parts (facts @ label_rows place (offset + 1) js ds, offset + length ds, root1) =
      Some ((facts @ label_rows place (offset + 1) js ds) @ label_rows place (offset + length ds + 1) ls es,
        offset + length ds + length es, root')"
    using Cons.IH [OF drafts(2) grown1 seq(2) bound1] by blast
  have "join_part place id_of key_of (label_rows place 1 oks ds, length ds, ov) (facts, offset, root) =
      Some (facts @ label_rows place (offset + 1) js ds, offset + length ds, root1)"
    by (rule join_part_sequential [OF ov0 part Cons.prems(2) seq(1)])
  with parts show ?case
    by (simp add: task seq(3) drafts(3) label_rows_append ljs ac_simps)
qed

lemma concat_chunks: "concat (chunks n xs) = xs"
  by (induction n xs rule: chunks.induct) simp_all

lemma parallel_is_sequential:
  assumes wf: "interner_wf 0 interner" and room: "length (keys interner) \<le> U32_MAX"
    and seq: "derive_rows_sequential place derive graphs interner = Some result"
  shows "derive_rows_per_graph place id_of key_of derive graphs interner = Some result"
proof -
  obtain drafts where drafts: "try_append derive graphs = Some drafts"
    using seq by (cases "try_append derive graphs") (auto simp: derive_rows_sequential_def)
  obtain ks root' where run: "intern_all intern (map fst drafts) interner = Some (ks, root')"
    "result = (label_rows place 1 ks drafts, root')"
    using seq by (auto simp: derive_rows_sequential_def drafts push_rows_eq)
  obtain ov0 where ov0: "overlay interner = Some ov0" using room by (auto simp: overlay_def)
  have refl: "grows interner interner" using wf by (simp add: grows_def)
  have bound: "length (keys interner) \<le> U32_MAX + 1" using room by simp
  have cat: "try_append derive (concat (chunks GRAPHS_PER_TASK graphs)) = Some drafts"
    by (simp add: concat_chunks drafts)
  obtain parts where parts: "those (map (derive_task place derive interner) (chunks GRAPHS_PER_TASK graphs)) = Some parts"
    "try_fold (join_part place id_of key_of) parts ([], 0, interner) =
      Some ([] @ label_rows place (0 + 1) ks drafts, 0 + length drafts, root')"
    using parallel_parts [OF wf ov0 cat refl run(1) bound, of "[]" 0] by blast
  then show ?thesis by (simp add: derive_rows_per_graph_def run(2))
qed

text \<open>With room for one key per row the derivation returns, and says what its rows are.\<close>

lemma sequential_described:
  assumes wf: "interner_wf 0 interner" and drafts: "try_append derive graphs = Some drafts"
    and room: "length (keys interner) + length drafts \<le> U32_MAX"
  shows "\<exists>ks interner'.
    derive_rows_sequential place derive graphs interner = Some (label_rows place 1 ks drafts, interner') \<and>
    intern_all intern (map fst drafts) interner = Some (ks, interner') \<and> length ks = length drafts \<and>
    length (keys interner') \<le> length (keys interner) + length drafts"
proof -
  have len: "length (extend ks ts) \<le> length ks + length ts" for ks ts :: "string list"
  proof (induction ts arbitrary: ks)
    case (Cons t ts)
    from Cons.IH [of "if t \<in> set ks then ks else ks @ [t]"] show ?case by (auto split: if_splits)
  qed simp
  have "fits (keys interner) (map fst drafts)"
    using len [of "keys interner" "map fst drafts"] room by (simp add: fits_def)
  then obtain ks interner' where run: "intern_all intern (map fst drafts) interner = Some (ks, interner')"
    using root_intern_all_defined [OF wf] by blast
  have "derive_rows_sequential place derive graphs interner = Some (label_rows place 1 ks drafts, interner')"
    by (simp add: derive_rows_sequential_def drafts push_rows_eq run)
  moreover have "length ks = length drafts" using root.intern_all_keeps [OF wf run] by simp
  moreover have "length (keys interner') \<le> length (keys interner) + length drafts"
    using root_intern_all [OF wf run] len [of "keys interner" "map fst drafts"] by simp
  ultimately show ?thesis using run by blast
qed

lemma rows_described:
  assumes wf: "interner_wf 0 interner" and drafts: "try_append derive graphs = Some drafts"
    and room: "length (keys interner) + length drafts \<le> U32_MAX"
  shows "\<exists>ks interner'.
    derive_rows_per_graph place id_of key_of derive graphs interner = Some (label_rows place 1 ks drafts, interner') \<and>
    length ks = length drafts \<and> (\<forall>i < length drafts. resolve interner' (ks ! i) = Some (fst (drafts ! i))) \<and>
    grows interner interner' \<and> length (keys interner') \<le> length (keys interner) + length drafts"
proof -
  obtain ks interner' where seq:
    "derive_rows_sequential place derive graphs interner = Some (label_rows place 1 ks drafts, interner')"
    "intern_all intern (map fst drafts) interner = Some (ks, interner')" "length ks = length drafts"
    "length (keys interner') \<le> length (keys interner) + length drafts"
    using sequential_described [OF assms] by blast
  have "derive_rows_per_graph place id_of key_of derive graphs interner = Some (label_rows place 1 ks drafts, interner')"
    using parallel_is_sequential [OF wf _ seq(1)] room by simp
  moreover have "\<forall>i < length drafts. resolve interner' (ks ! i) = Some (fst (drafts ! i))"
    using root.intern_all_get [OF wf seq(2)] by simp
  moreover have "grows interner interner'" by (rule intern_all_grows [OF wf seq(2)])
  ultimately show ?thesis using seq(3,4) by blast
qed

end

text \<open>The fields of the rows other than id and key are those of the drafts.\<close>

lemma set_label_rows:
  assumes "\<And>i k r. f (place i k r) = f r" "length ks = length drafts"
  shows "f ` set (label_rows place n ks drafts) = f ` set (map snd drafts)"
proof -
  have "map f (label_rows place n ks drafts) = map (f \<circ> snd) drafts"
    by (rule nth_equalityI) (simp_all add: assms label_rows_nth)
  then have "set (map f (label_rows place n ks drafts)) = set (map (f \<circ> snd) drafts)" by simp
  then show ?thesis by (simp add: image_comp)
qed

end
