(* ===== verification/Cfg_Derived.thy ===== *)
theory Cfg_Derived
  imports Control_Dependence Parallel_Rows Key_Text
begin

text \<open>
  The derived control-flow facts of \<open>analysis_neutral/cfg/derived.rs\<close>: reachability, dominators, post-dominators
  and control dependence, each derived per graph, numbered and keyed by \<open>derive_rows_per_graph\<close> and sorted by the
  text of the key; the budget of \<open>cfg/budget.rs\<close>, which decides how much of the dominance relation is emitted; and
  their composition in \<open>cfg/provider.rs\<close>. The interner is threaded through the four derivations.
\<close>

section \<open>Facts\<close>

record reachability_fact =
  rf_id :: nat
  rf_cfg_function :: cfg_function_id
  rf_view :: cfg_view
  rf_block_id :: basic_block_id
  rf_reachable :: bool
  rf_stable_key :: stable_key_id
  rf_status :: cfg_status
  rf_precision :: cfg_precision

record dominator_fact =
  df_id :: nat
  df_cfg_function :: cfg_function_id
  df_view :: cfg_view
  df_dominator :: basic_block_id
  df_dominated :: basic_block_id
  df_immediate :: bool
  df_stable_key :: stable_key_id
  df_status :: cfg_status
  df_precision :: cfg_precision

record post_dominator_fact =
  pd_id :: nat
  pd_cfg_function :: cfg_function_id
  pd_view :: cfg_view
  pd_postdominator :: basic_block_id
  pd_postdominated :: basic_block_id
  pd_immediate :: bool
  pd_stable_key :: stable_key_id
  pd_status :: cfg_status
  pd_precision :: cfg_precision

record control_dependence_fact =
  cd_id :: nat
  cd_cfg_function :: cfg_function_id
  cd_view :: cfg_view
  cd_controlling_edge :: cfg_edge_id
  cd_controlling_edge_kind :: cfg_edge_kind
  cd_controlled_block :: basic_block_id
  cd_stable_key :: stable_key_id
  cd_status :: cfg_status
  cd_precision :: cfg_precision

text \<open>The two fields that numbering and relabelling set.\<close>

definition place_reachability :: "nat \<Rightarrow> stable_key_id \<Rightarrow> reachability_fact \<Rightarrow> reachability_fact" where
  "place_reachability i k row = row \<lparr> rf_id := i, rf_stable_key := k \<rparr>"

definition place_dominator :: "nat \<Rightarrow> stable_key_id \<Rightarrow> dominator_fact \<Rightarrow> dominator_fact" where
  "place_dominator i k row = row \<lparr> df_id := i, df_stable_key := k \<rparr>"

definition place_post_dominator :: "nat \<Rightarrow> stable_key_id \<Rightarrow> post_dominator_fact \<Rightarrow> post_dominator_fact" where
  "place_post_dominator i k row = row \<lparr> pd_id := i, pd_stable_key := k \<rparr>"

definition place_control_dependence :: "nat \<Rightarrow> stable_key_id \<Rightarrow> control_dependence_fact \<Rightarrow> control_dependence_fact" where
  "place_control_dependence i k row = row \<lparr> cd_id := i, cd_stable_key := k \<rparr>"

interpretation reachability_row: derived_row place_reachability rf_id rf_stable_key
  by unfold_locales (simp_all add: place_reachability_def)

interpretation dominator_row: derived_row place_dominator df_id df_stable_key
  by unfold_locales (simp_all add: place_dominator_def)

interpretation post_dominator_row: derived_row place_post_dominator pd_id pd_stable_key
  by unfold_locales (simp_all add: place_post_dominator_def)

interpretation control_dependence_row: derived_row place_control_dependence cd_id cd_stable_key
  by unfold_locales (simp_all add: place_control_dependence_def)

section \<open>Rows of a graph with the texts of their keys\<close>

definition cfg_view_debug :: "cfg_view \<Rightarrow> string" where
  "cfg_view_debug view =
     (case view of NormalControl \<Rightarrow> ''NormalControl'' | AbruptAware \<Rightarrow> ''AbruptAware''
      | ExceptionConservative \<Rightarrow> ''ExceptionConservative'')"

definition block_key_map :: "interner_state \<Rightarrow> cfg_graph \<Rightarrow> (basic_block_id, string) fmap" where
  "block_key_map interner graph =
     fm_collect (map (\<lambda>block. (block_id block, key_text interner (block_stable_key block))) (g_blocks graph))"

definition stable_block_key :: "(basic_block_id, string) fmap \<Rightarrow> basic_block_id \<Rightarrow> string" where
  "stable_block_key block_keys block =
     (case fmlookup block_keys block of
        Some key \<Rightarrow> key | None \<Rightarrow> ''<missing-block:'' @ show_nat block @ ''>'')"

definition reachability_drafts ::
  "(string \<Rightarrow> 8 word list) \<Rightarrow> interner_state \<Rightarrow> cfg_view \<Rightarrow> cfg_graph \<Rightarrow> reachability_fact draft list option" where
  "reachability_drafts sha256 interner view graph =
     (let reachable = reachable_blocks graph in
      Some (map (\<lambda>block.
        (stable_key_text_from_parts sha256 Ff_CfgReachability
           [(''function'', function_stable_key interner graph), (''view'', cfg_view_debug view),
            (''block'', key_text interner (block_stable_key block))],
         \<lparr> rf_id = 0, rf_cfg_function = g_function graph, rf_view = view, rf_block_id = block_id block,
           rf_reachable = (block_id block |\<in>| reachable), rf_stable_key = 0, rf_status = Cfg_Resolved,
           rf_precision = Cfg_ExactLowered \<rparr>)) (g_blocks graph)))"

definition dominator_drafts ::
  "(string \<Rightarrow> 8 word list) \<Rightarrow> interner_state \<Rightarrow> cfg_view \<Rightarrow> dominance_materialization \<Rightarrow> cfg_graph \<Rightarrow>
     dominator_fact draft list option" where
  "dominator_drafts sha256 interner view materialization graph =
     (let block_keys = block_key_map interner graph in
      map_option (map (\<lambda>(dominator, dominated, is_immediate).
        (stable_key_text_from_parts sha256 Ff_CfgDominator
           [(''function'', function_stable_key interner graph), (''view'', cfg_view_debug view),
            (''dominator'', stable_block_key block_keys dominator),
            (''dominated'', stable_block_key block_keys dominated)],
         \<lparr> df_id = 0, df_cfg_function = g_function graph, df_view = view, df_dominator = dominator,
           df_dominated = dominated, df_immediate = is_immediate, df_stable_key = 0, df_status = Cfg_Resolved,
           df_precision = Cfg_ExactLowered \<rparr>))) (dominator_rows materialization graph))"

definition postdominator_drafts ::
  "(string \<Rightarrow> 8 word list) \<Rightarrow> interner_state \<Rightarrow> cfg_view \<Rightarrow> dominance_materialization \<Rightarrow> cfg_graph \<Rightarrow>
     post_dominator_fact draft list option" where
  "postdominator_drafts sha256 interner view materialization graph =
     (let block_keys = block_key_map interner graph in
      map_option (map (\<lambda>(postdominator, postdominated, is_immediate).
        (stable_key_text_from_parts sha256 Ff_CfgPostDominator
           [(''function'', function_stable_key interner graph), (''view'', cfg_view_debug view),
            (''postdominator'', stable_block_key block_keys postdominator),
            (''postdominated'', stable_block_key block_keys postdominated)],
         \<lparr> pd_id = 0, pd_cfg_function = g_function graph, pd_view = view, pd_postdominator = postdominator,
           pd_postdominated = postdominated, pd_immediate = is_immediate, pd_stable_key = 0,
           pd_status = Cfg_Resolved, pd_precision = Cfg_ExactLowered \<rparr>))) (postdominator_rows materialization graph))"

definition control_dependence_draft ::
  "(string \<Rightarrow> 8 word list) \<Rightarrow> interner_state \<Rightarrow> cfg_view \<Rightarrow> cfg_graph \<Rightarrow> cfg_edge_fact \<times> basic_block_id \<Rightarrow>
     control_dependence_fact draft" where
  "control_dependence_draft sha256 interner view graph = (\<lambda>(edge, block).
     (stable_key_text_from_parts sha256 Ff_CfgControlDependence
        [(''function'', function_stable_key interner graph), (''view'', cfg_view_debug view),
         (''edge'', key_text interner (cfge_stable_key edge)),
         (''controlled_block'', stable_block_key (block_key_map interner graph) block)],
      \<lparr> cd_id = 0, cd_cfg_function = g_function graph, cd_view = view, cd_controlling_edge = cfge_id edge,
        cd_controlling_edge_kind = cfge_kind edge, cd_controlled_block = block, cd_stable_key = 0,
        cd_status = cfge_status edge, cd_precision = cfge_precision edge \<rparr>))"

definition control_dependence_drafts ::
  "(string \<Rightarrow> 8 word list) \<Rightarrow> interner_state \<Rightarrow> cfg_view \<Rightarrow> cfg_graph \<Rightarrow> control_dependence_fact draft list option" where
  "control_dependence_drafts sha256 interner view graph =
     map_option (map (control_dependence_draft sha256 interner view graph)) (control_dependence_rows graph)"

section \<open>The four derivations\<close>

definition sort_facts :: "('r \<Rightarrow> stable_key_id) \<Rightarrow> 'r list \<times> interner_state \<Rightarrow> 'r list \<times> interner_state" where
  "sort_facts key_of = (\<lambda>(facts, interner). (sort_key (\<lambda>row. key_text interner (key_of row)) facts, interner))"

definition derive_reachability_for ::
  "(string \<Rightarrow> 8 word list) \<Rightarrow> cfg_graph list \<Rightarrow> cfg_view \<Rightarrow> interner_state \<Rightarrow>
     (reachability_fact list \<times> interner_state) option" where
  "derive_reachability_for sha256 graphs view interner =
     map_option (sort_facts rf_stable_key)
       (derive_rows_per_graph place_reachability rf_id rf_stable_key
          (reachability_drafts sha256 interner view) graphs interner)"

definition derive_dominators_for ::
  "(string \<Rightarrow> 8 word list) \<Rightarrow> cfg_graph list \<Rightarrow> cfg_view \<Rightarrow> dominance_materialization \<Rightarrow> interner_state \<Rightarrow>
     (dominator_fact list \<times> interner_state) option" where
  "derive_dominators_for sha256 graphs view materialization interner =
     map_option (sort_facts df_stable_key)
       (derive_rows_per_graph place_dominator df_id df_stable_key
          (dominator_drafts sha256 interner view materialization) graphs interner)"

definition derive_postdominators_for ::
  "(string \<Rightarrow> 8 word list) \<Rightarrow> cfg_graph list \<Rightarrow> cfg_view \<Rightarrow> dominance_materialization \<Rightarrow> interner_state \<Rightarrow>
     (post_dominator_fact list \<times> interner_state) option" where
  "derive_postdominators_for sha256 graphs view materialization interner =
     map_option (sort_facts pd_stable_key)
       (derive_rows_per_graph place_post_dominator pd_id pd_stable_key
          (postdominator_drafts sha256 interner view materialization) graphs interner)"

definition derive_control_dependence_for ::
  "(string \<Rightarrow> 8 word list) \<Rightarrow> cfg_graph list \<Rightarrow> cfg_view \<Rightarrow> interner_state \<Rightarrow>
     (control_dependence_fact list \<times> interner_state) option" where
  "derive_control_dependence_for sha256 graphs view interner =
     map_option (sort_facts cd_stable_key)
       (derive_rows_per_graph place_control_dependence cd_id cd_stable_key
          (control_dependence_drafts sha256 interner view) graphs interner)"

section \<open>Budget and composition\<close>

definition USIZE_MAX :: nat where
  "USIZE_MAX = 2 ^ 64 - 1"

definition saturating_mul :: "nat \<Rightarrow> nat \<Rightarrow> nat" where
  "saturating_mul a b = min (a * b) USIZE_MAX"

definition saturating_add :: "nat \<Rightarrow> nat \<Rightarrow> nat" where
  "saturating_add a b = min (a + b) USIZE_MAX"

definition blocks_per_function :: "basic_block_fact list \<Rightarrow> (cfg_function_id, nat) fmap" where
  "blocks_per_function blocks =
     fold (\<lambda>block m. fmupd (block_cfg_function block) (fm_get_or 0 m (block_cfg_function block) + 1) m) blocks fmempty"

text \<open>The sum over the functions wraps, the products saturate.\<close>

definition worst_case_dominance_pairs :: "cfg_rows \<Rightarrow> nat" where
  "worst_case_dominance_pairs output =
     saturating_mul
       (sum_list (map (\<lambda>blocks. saturating_mul blocks (saturating_add blocks 1) div 2)
          (bt_values (blocks_per_function (co_blocks output)))) mod 2 ^ 64) 2"

definition DEFAULT_MAX_DOMINANCE_PAIRS :: nat where
  "DEFAULT_MAX_DOMINANCE_PAIRS = 250000"

record dominance_budget_trip =
  estimated_pairs :: nat
  pair_limit :: nat

record derived_output =
  do_reachability :: "reachability_fact list"
  do_dominators :: "dominator_fact list"
  do_postdominators :: "post_dominator_fact list"
  do_control_dependence :: "control_dependence_fact list"

definition derived_output_empty :: derived_output where
  "derived_output_empty =
     \<lparr> do_reachability = [], do_dominators = [], do_postdominators = [], do_control_dependence = [] \<rparr>"

text \<open>The limit is the result of \<open>max_dominance_pairs\<close>, which reads the environment.\<close>

definition append_derived_rows ::
  "(string \<Rightarrow> 8 word list) \<Rightarrow> nat \<Rightarrow> cfg_rows \<Rightarrow> cfg_view \<Rightarrow> interner_state \<Rightarrow>
     (derived_output \<times> dominance_budget_trip option \<times> interner_state) option" where
  "append_derived_rows sha256 limit output view interner =
     (if co_functions output = [] then Some (derived_output_empty, None, interner)
      else
        (let estimated = worst_case_dominance_pairs output;
             bounded = (estimated > limit);
             materialization = (if bounded then ImmediateOnly else Full);
             graphs = index_graphs (cfg_graph_index_new interner output) view
         in Option.bind (derive_reachability_for sha256 graphs view interner) (\<lambda>(reachability, interner).
            Option.bind (derive_dominators_for sha256 graphs view materialization interner) (\<lambda>(dominators, interner).
            Option.bind (derive_postdominators_for sha256 graphs view materialization interner) (\<lambda>(postdominators, interner).
            map_option (\<lambda>(control_dependence, interner).
              (\<lparr> do_reachability = reachability, do_dominators = dominators, do_postdominators = postdominators,
                 do_control_dependence = control_dependence \<rparr>,
               if bounded then Some \<lparr> estimated_pairs = estimated, pair_limit = limit \<rparr> else None, interner))
              (derive_control_dependence_for sha256 graphs view interner))))))"

end
