(* ===== verification/Cfg_Derived_Correct.thy ===== *)
theory Cfg_Derived_Correct
  imports Cfg_Derived
begin

text \<open>
  The derived facts of a whole output: for an interner with room for one key per row the derivations return, and
  their facts are the dominance and control dependence of the graphs of the index. The budget of the dominance
  rows is compared with the rows: the tree edges that remain under the budget carry the relation, and the
  estimate bounds the dominator rows, but not the rows of blocks that cannot reach an exit.
\<close>

section \<open>Rows of a graph\<close>

lemma graph_rows_return:
  assumes wf: "graph_wf graph" and fresh: "exit_is_fresh graph"
  shows "\<exists>rows. dominator_rows materialization graph = Some rows"
    and "\<exists>rows. postdominator_rows materialization graph = Some rows"
proof -
  show "\<exists>rows. dominator_rows materialization graph = Some rows"
  proof (cases "entry_block graph")
    case None
    then show ?thesis by (simp add: dominator_rows_def)
  next
    case (Some entry)
    then show ?thesis using forward_rows [OF wf Some] by (cases materialization) blast+
  qed
  show "\<exists>rows. postdominator_rows materialization graph = Some rows"
  proof (cases "reverse_walk graph")
    case None
    then show ?thesis by (simp add: postdominator_rows_def reverse_dom_tree_def)
  next
    case (Some w)
    note dual = reverse_walk_dual [OF wf fresh Some] and root = reverse_walk_meaning(4) [OF wf fresh Some]
    obtain t D where t: "dom_tree_of w = Some t" "dual_walk.tree_with w t D"
      by (rule dual_walk.dom_tree_exists [OF dual root])
    have total: "\<exists>ys. block_rows ImmediateOnly t b = Some ys \<and> set ys = set (the (block_rows ImmediateOnly t b))" for b
      by (simp add: block_rows_def row_sources_def)
    obtain ys where "try_append (block_rows ImmediateOnly t)
        (filter (\<lambda>block. block \<noteq> virtual_exit_for (g_function graph)) (bt_elems (universe t))) = Some ys"
      using try_append_set [of _ "block_rows ImmediateOnly t" "\<lambda>b. set (the (block_rows ImmediateOnly t b))", OF total] by blast
    then show ?thesis
      using postdominator_rows_pairs [OF wf fresh Some] t(1)
      by (cases materialization) (auto simp: postdominator_rows_def reverse_dom_tree_def Some Let_def)
  qed
qed

section \<open>Facts of an output\<close>

text \<open>The number of rows of a family over a list of graphs.\<close>

definition row_count :: "(cfg_graph \<Rightarrow> 'a list option) \<Rightarrow> cfg_graph list \<Rightarrow> nat" where
  "row_count rows graphs = sum_list (map (\<lambda>graph. length (the (rows graph))) graphs)"

lemma try_append_length:
  "try_append f xs = Some ys \<Longrightarrow> length ys = sum_list (map (\<lambda>x. length (the (f x))) xs)"
  by (induction xs arbitrary: ys) (auto split: option.splits)

lemma try_append_defined:
  assumes "\<forall>x \<in> set xs. \<exists>ys. f x = Some ys"
  shows "\<exists>zs. try_append f xs = Some zs \<and> set zs = (\<Union>x \<in> set xs. set (the (f x)))"
proof (rule try_append_set)
  show "\<exists>ys. f x = Some ys \<and> set ys = set (the (f x))" if "x \<in> set xs" for x using assms that by force
qed

text \<open>The facts of a family, when its drafts exist and there is room for their keys.\<close>

lemma set_sort_facts: "set (fst (sort_facts key_of (rows, s))) = set rows"
  by (simp add: sort_facts_def)

lemma snd_sort_facts [simp]: "snd (sort_facts key_of (rows, s)) = s"
  by (simp add: sort_facts_def)

context derived_row
begin

lemma facts_described:
  assumes wf: "interner_wf 0 interner" and each: "\<forall>graph \<in> set graphs. \<exists>ds. derive graph = Some ds"
    and room: "length (keys interner) + row_count derive graphs \<le> U32_MAX"
    and keep: "\<And>i k r. f (place i k r) = f r"
  shows "\<exists>rows interner'.
    map_option (sort_facts key_of) (derive_rows_per_graph place id_of key_of derive graphs interner) =
      Some (sort_facts key_of (rows, interner')) \<and>
    f ` set rows = (\<Union>graph \<in> set graphs. f ` snd ` set (the (derive graph))) \<and>
    interner_wf 0 interner' \<and> length (keys interner') \<le> length (keys interner) + row_count derive graphs"
proof -
  obtain drafts where drafts: "try_append derive graphs = Some drafts"
    "set drafts = (\<Union>graph \<in> set graphs. set (the (derive graph)))"
    using try_append_defined [OF each] by blast
  have len: "length drafts = row_count derive graphs"
    using try_append_length [OF drafts(1)] by (simp add: row_count_def)
  obtain ks interner' where run:
    "derive_rows_per_graph place id_of key_of derive graphs interner = Some (label_rows place 1 ks drafts, interner')"
    "length ks = length drafts" "grows interner interner'"
    "length (keys interner') \<le> length (keys interner) + length drafts"
    using rows_described [OF wf drafts(1)] room len by auto
  have "f ` set (label_rows place 1 ks drafts) = (\<Union>graph \<in> set graphs. f ` snd ` set (the (derive graph)))"
    by (simp add: set_label_rows [of f, OF keep run(2)] drafts(2) image_UN)
  moreover have "interner_wf 0 interner'" using run(3) by (simp add: grows_def)
  ultimately show ?thesis using run(1,4) len by auto
qed

end

lemma place_fields:
  "(\<lambda>fact. (df_cfg_function fact, df_dominator fact, df_dominated fact, df_immediate fact)) (place_dominator i k r) =
   (df_cfg_function r, df_dominator r, df_dominated r, df_immediate r)"
  by (simp add: place_dominator_def)

lemma dominator_drafts_length:
  "length (the (dominator_drafts sha256 interner view materialization graph)) =
     length (the (dominator_rows materialization graph))" if "dominator_rows materialization graph \<noteq> None"
  using that by (auto simp: dominator_drafts_def Let_def)

lemma postdominator_drafts_length:
  "length (the (postdominator_drafts sha256 interner view materialization graph)) =
     length (the (postdominator_rows materialization graph))" if "postdominator_rows materialization graph \<noteq> None"
  using that by (auto simp: postdominator_drafts_def Let_def)

lemma control_drafts_length:
  "length (the (control_dependence_drafts sha256 interner view graph)) =
     length (the (control_dependence_rows graph))" if "control_dependence_rows graph \<noteq> None"
  using that by (auto simp: control_dependence_drafts_def)

lemma index_graph_in: "graph \<in> set (index_graphs index view) \<Longrightarrow> graph_wf graph"
  by (rule index_graphs_wf)

lemma dominator_rows_defined:
  assumes "graph \<in> set (index_graphs index view)"
  shows "\<exists>rows. dominator_rows materialization graph = Some rows"
proof (cases "entry_block graph")
  case None
  then show ?thesis by (simp add: dominator_rows_def)
next
  case (Some entry)
  then show ?thesis using forward_rows [OF index_graphs_wf [OF assms] Some] by (cases materialization) blast+
qed

text \<open>The facts of one graph.\<close>

lemma graph_dominator_facts:
  assumes "graph \<in> set (index_graphs index view)"
  shows "(\<lambda>fact. (df_cfg_function fact, df_dominator fact, df_dominated fact, df_immediate fact)) `
      snd ` set (the (dominator_drafts sha256 interner v Full graph)) =
    {(f, a, b, i). \<exists>entry. f = g_function graph \<and> entry_block graph = Some entry \<and>
      block_dominates graph entry a b \<and> (i \<longleftrightarrow> block_immediate graph entry a b)}"
proof (cases "entry_block graph")
  case None
  then show ?thesis by (simp add: dominator_drafts_def dominator_rows_def Let_def)
next
  case (Some entry)
  obtain rows where rows: "dominator_rows Full graph = Some rows"
    "set rows = {(a, b, i). block_dominates graph entry a b \<and> (i \<longleftrightarrow> block_immediate graph entry a b)}"
    using forward_rows(1) [OF index_graphs_wf [OF assms] Some] by blast
  have "(\<lambda>fact. (df_cfg_function fact, df_dominator fact, df_dominated fact, df_immediate fact)) `
      snd ` set (the (dominator_drafts sha256 interner v Full graph)) = (\<lambda>(a, b, i). (g_function graph, a, b, i)) ` set rows"
    by (simp add: dominator_drafts_def Let_def rows(1) image_image case_prod_unfold)
  also have "\<dots> = {(f, a, b, i). \<exists>entry. f = g_function graph \<and> entry_block graph = Some entry \<and>
      block_dominates graph entry a b \<and> (i \<longleftrightarrow> block_immediate graph entry a b)}"
    unfolding rows(2) using Some by auto
  finally show ?thesis .
qed

section \<open>Properties\<close>

text \<open>
  C2: The dominator facts of an output are the dominance relation of its graphs. For an interner with room for one
  key per row, the derivation over all functions returns; a fact names a dominator and a dominated block of a
  function exactly when every path of the function's graph from its entry to the reachable block passes the
  dominator, and its flag says whether all other strict dominators dominate it in turn.
\<close>

theorem dominator_facts_exact:
  assumes wf: "interner_wf 0 interner"
    and room: "length (keys interner) + row_count (dominator_rows Full) (index_graphs index view) \<le> U32_MAX"
  shows "\<exists>facts interner'.
    derive_dominators_for sha256 (index_graphs index view) view Full interner = Some (facts, interner') \<and>
    (\<lambda>fact. (df_cfg_function fact, df_dominator fact, df_dominated fact, df_immediate fact)) ` set facts =
      {(f, a, b, i). \<exists>graph \<in> set (index_graphs index view). \<exists>entry.
         f = g_function graph \<and> entry_block graph = Some entry \<and> block_dominates graph entry a b \<and>
         (i \<longleftrightarrow> block_immediate graph entry a b)}"
proof -
  let ?graphs = "index_graphs index view" and ?drafts = "dominator_drafts sha256 interner view Full"
  let ?f = "\<lambda>fact. (df_cfg_function fact, df_dominator fact, df_dominated fact, df_immediate fact)"
  have rows: "\<exists>rows. dominator_rows Full graph = Some rows" if "graph \<in> set ?graphs" for graph
    by (rule dominator_rows_defined [OF that])
  then have each: "\<forall>graph \<in> set ?graphs. \<exists>ds. ?drafts graph = Some ds"
    by (fastforce simp: dominator_drafts_def Let_def)
  have "row_count ?drafts ?graphs = row_count (dominator_rows Full) ?graphs"
    unfolding row_count_def
    by (rule arg_cong [of _ _ sum_list], rule map_cong [OF refl], rule dominator_drafts_length) (use rows in fastforce)
  then have "length (keys interner) + row_count ?drafts ?graphs \<le> U32_MAX" using room by simp
  then obtain facts interner' where run:
    "map_option (sort_facts df_stable_key) (derive_rows_per_graph place_dominator df_id df_stable_key ?drafts ?graphs interner) =
      Some (sort_facts df_stable_key (facts, interner'))"
    "?f ` set facts = (\<Union>graph \<in> set ?graphs. ?f ` snd ` set (the (?drafts graph)))"
    using dominator_row.facts_described [OF wf each, of ?f] place_fields by blast
  have graph_facts: "?f ` snd ` set (the (?drafts graph)) = {(f, a, b, i). \<exists>entry.
      f = g_function graph \<and> entry_block graph = Some entry \<and> block_dominates graph entry a b \<and>
      (i \<longleftrightarrow> block_immediate graph entry a b)}" if "graph \<in> set ?graphs" for graph
    by (rule graph_dominator_facts [OF that])
  have "?f ` set (fst (sort_facts df_stable_key (facts, interner'))) = (\<Union>graph \<in> set ?graphs. {(f, a, b, i). \<exists>entry.
      f = g_function graph \<and> entry_block graph = Some entry \<and> block_dominates graph entry a b \<and>
      (i \<longleftrightarrow> block_immediate graph entry a b)})"
    unfolding set_sort_facts run(2) by (rule SUP_cong [OF refl graph_facts])
  moreover have "\<dots> = {(f, a, b, i). \<exists>graph \<in> set ?graphs. \<exists>entry.
         f = g_function graph \<and> entry_block graph = Some entry \<and> block_dominates graph entry a b \<and>
         (i \<longleftrightarrow> block_immediate graph entry a b)}" by auto
  ultimately show ?thesis
    using run(1) unfolding derive_dominators_for_def by (metis prod.collapse)
qed


text \<open>
  C19: Post-dominator rows are post-dominance by paths: where the virtual exit is no block and no end of an edge, and
  the function has an exit, the pairs of the rows are the pairs of blocks \<open>a\<close>, \<open>b\<close> such that every path from \<open>b\<close> to
  the virtual exit passes \<open>a\<close>; for a block without such a path these are all blocks.
\<close>

theorem postdominator_pairs_exact:
  assumes "graph \<in> set (index_graphs index view)" "exit_is_fresh graph" "selected_exit_blocks graph \<noteq> {||}"
  shows "\<exists>rows. postdominator_rows Full graph = Some rows \<and>
    (\<lambda>(a, b, _). (a, b)) ` set rows =
      {(a, b). a \<in> block_id ` set (g_blocks graph) \<and> b \<in> block_id ` set (g_blocks graph) \<and> postdominates graph a b}"
proof -
  have "g_blocks graph \<noteq> []" using assms(3) selected_exits_blocks by fastforce
  then have "fset_of_list (map block_id (g_blocks graph)) \<noteq> {||}" by (cases "g_blocks graph") simp_all
  then obtain w where "reverse_walk graph = Some w" using assms(3) by (auto simp: reverse_walk_def Let_def)
  then show ?thesis by (rule postdominator_rows_pairs [OF index_graphs_wf [OF assms(1)] assms(2)])
qed


text \<open>
  C18: Deriving rows in parallel tasks over overlays is deriving them one after another: whenever the sequential walk
  over the graphs, with one counter and one interner, returns dominator rows and an interner, the chunked
  derivation returns the same rows, with the same ids and keys, and leaves the same interner.
\<close>

theorem parallel_rows_are_sequential:
  assumes "interner_wf 0 interner" "length (keys interner) \<le> U32_MAX"
    and "derive_rows_sequential place_dominator (dominator_drafts sha256 interner view materialization) graphs interner =
      Some (rows, interner')"
  shows "derive_dominators_for sha256 graphs view materialization interner =
    Some (sort_facts df_stable_key (rows, interner'))"
  by (simp add: derive_dominators_for_def dominator_row.parallel_is_sequential [OF assms])

section \<open>The derivation of an output returns\<close>

definition derived_row_count :: "dominance_materialization \<Rightarrow> cfg_graph list \<Rightarrow> nat" where
  "derived_row_count materialization graphs =
     row_count (\<lambda>graph. Some (g_blocks graph)) graphs + row_count (dominator_rows materialization) graphs +
     row_count (postdominator_rows materialization) graphs + row_count control_dependence_rows graphs"

lemma row_count_cong:
  "(\<And>graph. graph \<in> set graphs \<Longrightarrow> length (the (f graph)) = length (the (g graph))) \<Longrightarrow> row_count f graphs = row_count g graphs"
  unfolding row_count_def by (rule arg_cong [of _ _ sum_list], rule map_cong [OF refl])

text \<open>One step of the composition: a family returns and uses up room for its rows.\<close>

context derived_row
begin

lemma step_returns:
  "interner_wf 0 interner \<Longrightarrow> \<forall>graph \<in> set graphs. \<exists>ds. derive graph = Some ds \<Longrightarrow>
   length (keys interner) + row_count derive graphs \<le> U32_MAX \<Longrightarrow>
   \<exists>facts interner'. map_option (sort_facts key_of) (derive_rows_per_graph place id_of key_of derive graphs interner) =
     Some (facts, interner') \<and> interner_wf 0 interner' \<and>
     length (keys interner') \<le> length (keys interner) + row_count derive graphs"
  using facts_described [of interner graphs derive "\<lambda>_. ()"] unfolding sort_facts_def by fastforce

end

text \<open>
  C21: Appending the derived rows to an output returns: when the virtual exits collide with no block and no edge of
  their function and the interner has room for one key per derived row, no step panics or loops, and the run
  reports a bounded dominance relation exactly when the estimate exceeds the limit.
\<close>

theorem derived_output_returns:
  assumes wf: "interner_wf 0 interner"
    and graphs: "graphs = index_graphs (cfg_graph_index_new interner output) view"
    and fresh: "\<forall>graph \<in> set graphs. exit_is_fresh graph"
    and bounded: "bounded \<longleftrightarrow> limit < worst_case_dominance_pairs output"
    and room: "length (keys interner) + derived_row_count (if bounded then ImmediateOnly else Full) graphs \<le> U32_MAX"
  shows "\<exists>derived trip interner'. append_derived_rows sha256 limit output view interner = Some (derived, trip, interner') \<and>
    interner_wf 0 interner' \<and> (trip \<noteq> None \<longleftrightarrow> co_functions output \<noteq> [] \<and> bounded)"
proof (cases "co_functions output = []")
  case True
  then show ?thesis using wf by (simp add: append_derived_rows_def)
next
  case False
  let ?m = "if bounded then ImmediateOnly else Full"
  have gwf: "graph_wf graph" if "graph \<in> set graphs" for graph
    using that unfolding graphs by (rule index_graphs_wf)
  have rows: "\<exists>rows. dominator_rows ?m graph = Some rows" "\<exists>rows. postdominator_rows ?m graph = Some rows"
    "\<exists>rows. control_dependence_rows graph = Some rows" if "graph \<in> set graphs" for graph
    using graph_rows_return [OF gwf [OF that], of ?m] control_rows_return [OF gwf [OF that]] fresh that by blast+
  have reach: "row_count (reachability_drafts sha256 i view) graphs = row_count (\<lambda>graph. Some (g_blocks graph)) graphs" for i
    by (rule row_count_cong) (simp add: reachability_drafts_def Let_def)
  have dom: "row_count (dominator_drafts sha256 i view ?m) graphs = row_count (dominator_rows ?m) graphs" for i
    by (rule row_count_cong, rule dominator_drafts_length) (use rows(1) in fastforce)
  have post: "row_count (postdominator_drafts sha256 i view ?m) graphs = row_count (postdominator_rows ?m) graphs" for i
    by (rule row_count_cong, rule postdominator_drafts_length) (use rows(2) in fastforce)
  have ctl: "row_count (control_dependence_drafts sha256 i view) graphs = row_count control_dependence_rows graphs" for i
    by (rule row_count_cong, rule control_drafts_length) (use rows(3) in fastforce)
  have defined: "\<forall>graph \<in> set graphs. \<exists>ds. reachability_drafts sha256 i view graph = Some ds"
    "\<forall>graph \<in> set graphs. \<exists>ds. dominator_drafts sha256 i view ?m graph = Some ds"
    "\<forall>graph \<in> set graphs. \<exists>ds. postdominator_drafts sha256 i view ?m graph = Some ds"
    "\<forall>graph \<in> set graphs. \<exists>ds. control_dependence_drafts sha256 i view graph = Some ds" for i
    using rows by (fastforce simp: reachability_drafts_def dominator_drafts_def postdominator_drafts_def
        control_dependence_drafts_def Let_def)+
  note room' = room [unfolded derived_row_count_def]
  obtain r i1 where s1: "derive_reachability_for sha256 graphs view interner = Some (r, i1)" "interner_wf 0 i1"
    "length (keys i1) \<le> length (keys interner) + row_count (\<lambda>graph. Some (g_blocks graph)) graphs"
    using reachability_row.step_returns [OF wf defined(1) [of interner]] room'
    unfolding derive_reachability_for_def reach by auto
  obtain d i2 where s2: "derive_dominators_for sha256 graphs view ?m i1 = Some (d, i2)" "interner_wf 0 i2"
    "length (keys i2) \<le> length (keys i1) + row_count (dominator_rows ?m) graphs"
    using dominator_row.step_returns [OF s1(2) defined(2) [of i1]] room' s1(3)
    unfolding derive_dominators_for_def dom by auto
  obtain p i3 where s3: "derive_postdominators_for sha256 graphs view ?m i2 = Some (p, i3)" "interner_wf 0 i3"
    "length (keys i3) \<le> length (keys i2) + row_count (postdominator_rows ?m) graphs"
    using post_dominator_row.step_returns [OF s2(2) defined(3) [of i2]] room' s1(3) s2(3)
    unfolding derive_postdominators_for_def post by auto
  obtain c i4 where s4: "derive_control_dependence_for sha256 graphs view i3 = Some (c, i4)" "interner_wf 0 i4"
    using control_dependence_row.step_returns [OF s3(2) defined(4) [of i3]] room' s1(3) s2(3) s3(3)
    unfolding derive_control_dependence_for_def ctl by auto
  have "append_derived_rows sha256 limit output view interner = Some
      (\<lparr> do_reachability = r, do_dominators = d, do_postdominators = p, do_control_dependence = c \<rparr>,
       if bounded then Some \<lparr> estimated_pairs = worst_case_dominance_pairs output, pair_limit = limit \<rparr> else None, i4)"
    using False by (simp add: append_derived_rows_def Let_def graphs [symmetric] bounded [symmetric]
        s1(1) s2(1) s3(1) s4(1) split del: if_split)
  with s4(2) False show ?thesis by auto
qed

end
