(* ===== verification/Dominance_Bounds.thy ===== *)
theory Dominance_Bounds
  imports Control_Dependence
begin

text \<open>
  How many dominance rows a function has. The block at position \<open>x\<close> of the reverse postorder has at most \<open>x + 1\<close>
  dominators, the root among them; summed over the reachable blocks this is the number that the budget of
  \<open>cfg/budget.rs\<close> counts per relation.
\<close>

section \<open>Counting appended rows\<close>

lemma try_append_filter_length:
  "try_append f xs = Some ys \<Longrightarrow> length (filter P ys) = sum_list (map (\<lambda>x. length (filter P (the (f x)))) xs)"
  by (induction xs arbitrary: ys) (auto split: option.splits)

lemma length_filter_bt_elems: "length (filter P (bt_elems s)) = card {a \<in> fset s. P a}"
  by (simp add: distinct_length_filter Collect_conj_eq Int_commute)

lemma nth_image_all: "(!) xs ` {0..<length xs} = set xs"
  by (auto simp: set_conv_nth)

text \<open>A sum over the blocks of a list is a sum over their positions.\<close>

lemma sum_list_positions:
  assumes "distinct bs" "set bs = (!) xs ` I" "inj_on ((!) xs) I" "\<And>x. x \<in> I \<Longrightarrow> g (xs ! x) \<le> h x"
  shows "sum_list (map g bs) \<le> sum (h :: nat \<Rightarrow> nat) I"
proof -
  have "sum_list (map g bs) = sum g (set bs)" by (rule sum_list_distinct_conv_sum_set [OF assms(1)])
  also have "\<dots> = (\<Sum>x \<in> I. g (xs ! x))" unfolding assms(2) by (simp add: sum.reindex [OF assms(3)])
  also have "\<dots> \<le> sum h I" by (rule sum_mono) (rule assms(4))
  finally show ?thesis .
qed

lemma triangle: "(\<Sum>x \<in> {1..<Suc n}. x) = n * (n + 1) div 2" "(\<Sum>x \<in> {0..<n}. Suc x) = n * (n + 1) div 2"
proof -
  show "(\<Sum>x \<in> {1..<Suc n}. x) = n * (n + 1) div 2" by (induction n) auto
  show "(\<Sum>x \<in> {0..<n}. Suc x) = n * (n + 1) div 2" by (induction n) auto
qed

section \<open>Rows of a block\<close>

context dual_walk
begin

lemma block_rows_length:
  assumes t: "tree_with t D" and root: "dw_root w |\<in>| dw_universe w" and x: "x < length order"
  shows "\<exists>ys. block_rows Full t (order ! x) = Some ys \<and> length ys \<le> Suc x \<and>
    length (filter (\<lambda>(a, _, _). a \<noteq> dw_root w) ys) \<le> x"
proof -
  obtain S where S: "dominator_walk t x {||} = Some S" "fset S = (!) order ` anc D x"
    using dominator_walk_anc [OF t x, of "{||}"] by auto
  have "fmlookup (t_position t) (order ! x) = Some x"
    using x tree_withD(5) [OF t] by (simp add: positions_iff)
  moreover have "\<not> is_vacuous t (order ! x)" using vacuous_iff [OF t root] order_nth(1) [OF x] by simp
  ultimately have set: "dominator_set t (order ! x) = Some S" using S(1) by (simp add: dominator_set_def)
  have sub: "anc D x \<subseteq> {..x}" using anc_le by auto
  then have fin: "finite (anc D x)" by (rule finite_subset) simp
  have "card (fset S) \<le> Suc x"
    unfolding S(2) using card_image_le [OF fin, of "(!) order"] card_mono [OF _ sub] by simp
  then have len: "length (bt_elems S) \<le> Suc x" using length_filter_bt_elems [of "\<lambda>_. True" S] by simp
  have "fset S - {dw_root w} \<subseteq> (!) order ` (anc D x - {0})"
    unfolding S(2) using order_nth(3) [OF x] by auto
  then have "card (fset S - {dw_root w}) \<le> card (anc D x - {0})"
    using fin by (meson card_image_le card_mono finite_Diff finite_imageI le_trans)
  also have "\<dots> \<le> card {1..x}" using sub by (intro card_mono) auto
  finally have strip: "length (filter (\<lambda>a. a \<noteq> dw_root w) (bt_elems S)) \<le> x"
    by (simp add: length_filter_bt_elems set_diff_eq)
  show ?thesis
    using len strip by (simp add: block_rows_def row_sources_def set filter_map comp_def)
qed

end

section \<open>Rows of a function\<close>

text \<open>The triangle of the reachable blocks, without the root where it stands for no block.\<close>

lemma forward_rows_bounded:
  assumes wf: "graph_wf graph" and entry: "entry_block graph = Some entry"
  shows "\<exists>rows. dominator_rows Full graph = Some rows \<and>
    length rows \<le> fcard (reachable_blocks graph) * (fcard (reachable_blocks graph) + 1) div 2"
proof -
  let ?w = "forward_walk graph entry"
  let ?order = "reverse_postorder_of ?w"
  note dual = forward_walk_dual [OF wf, of entry]
  have root: "dw_root ?w |\<in>| dw_universe ?w" by (simp add: forward_walk_def reachable_blocks_iff [OF entry])
  obtain t D where t: "dom_tree_of ?w = Some t" "dual_walk.tree_with ?w t D"
    by (rule dual_walk.dom_tree_exists [OF dual root])
  have univ: "fset (universe t) = fset (reachable_blocks graph)"
    using dual_walk.universe_set [OF dual t(2) root] by (simp add: forward_walk_def)
  have order: "set ?order = fset (reachable_blocks graph)"
    using dual_walk.reachable_order [OF dual root]
    by (intro set_eqI) (simp add: reachable_blocks_iff [OF entry] forward_reachable [OF entry])
  then have blocks: "set (bt_elems (universe t)) = (!) ?order ` {0..<length ?order}"
    by (simp add: univ nth_image_all)
  obtain rows where rows: "dominator_rows Full graph = Some rows" using forward_rows(1) [OF wf entry] by blast
  then have run: "try_append (block_rows Full t) (bt_elems (universe t)) = Some rows"
    by (simp add: dominator_rows_def entry t(1))
  note block = dual_walk.block_rows_length [OF dual t(2) root]
  have "length rows = sum_list (map (\<lambda>b. length (the (block_rows Full t b))) (bt_elems (universe t)))"
    using try_append_filter_length [OF run, of "\<lambda>_. True"] by simp
  also have "\<dots> \<le> (\<Sum>x \<in> {0..<length ?order}. Suc x)"
  proof (rule sum_list_positions [OF distinct_bt_elems blocks])
    show "inj_on ((!) ?order) {0..<length ?order}"
      using dual_walk.distinct_order [OF dual] by (auto simp: inj_on_def nth_eq_iff_index_eq)
    show "length (the (block_rows Full t (?order ! x))) \<le> Suc x" if "x \<in> {0..<length ?order}" for x
      using block [of x] that by auto
  qed
  also have "\<dots> = length ?order * (length ?order + 1) div 2" by (rule triangle(2))
  also have "length ?order = fcard (reachable_blocks graph)"
    using distinct_card [OF dual_walk.distinct_order [OF dual]] order by (simp add: fcard.rep_eq)
  finally show ?thesis using rows by blast
qed

lemma reverse_rows_bounded:
  assumes wf: "graph_wf graph" and fresh: "exit_is_fresh graph" and w: "reverse_walk graph = Some w"
    and reach: "\<forall>b \<in> block_id ` set (g_blocks graph). reaches_exit graph b"
  shows "\<exists>rows. postdominator_rows Full graph = Some rows \<and>
    length rows \<le> card (block_id ` set (g_blocks graph)) * (card (block_id ` set (g_blocks graph)) + 1) div 2"
proof -
  let ?e = "virtual_exit_for (g_function graph)" and ?blocks = "block_id ` set (g_blocks graph)"
  let ?order = "reverse_postorder_of w" and ?kept = "\<lambda>(a, _, _). a \<noteq> virtual_exit_for (g_function graph)"
  note dual = reverse_walk_dual [OF wf fresh w] and meaning = reverse_walk_meaning [OF wf fresh w]
    and parts = reverse_walk_parts [OF w]
  have new: "?e \<notin> ?blocks" using fresh by (simp add: exit_is_fresh_def Let_def)
  obtain t D where t: "dom_tree_of w = Some t" "dual_walk.tree_with w t D"
    by (rule dual_walk.dom_tree_exists [OF dual meaning(4)])
  note block = dual_walk.block_rows_length [OF dual t(2) meaning(4)]
  have univ: "fset (universe t) = insert ?e ?blocks"
    using dual_walk.universe_set [OF dual t(2) meaning(4)] by (simp add: parts(4) fset_of_list.rep_eq)
  have "reaches_exit graph b \<Longrightarrow> b \<in> insert ?e ?blocks" for b
    using meaning(1) dual_walk.reachable_order [OF dual meaning(4), of b] dual_walk.order_nth(2) [OF dual]
    by (auto simp: in_set_conv_nth in_reverse_universe [OF w])
  moreover have "reaches_exit graph ?e" by (simp add: reaches_exit_def)
  ultimately have order: "set ?order = insert ?e ?blocks"
    using dual_walk.reachable_order [OF dual meaning(4)] meaning(1) reach by (intro set_eqI) blast
  have len: "length ?order = Suc (card ?blocks)"
    using distinct_card [OF dual_walk.distinct_order [OF dual]] order new by simp
  let ?bs = "filter (\<lambda>b. b \<noteq> ?e) (bt_elems (universe t))"
  have "set ?bs = fset (universe t) - {?e}" by auto
  also have "\<dots> = set ?order - {?e}" by (simp only: univ order)
  also have "\<dots> = (!) ?order ` {1..<length ?order}"
    using dual_walk.order_nth(3,4) [OF dual] parts(2) by (fastforce simp: set_conv_nth image_iff)
  finally have blocks: "set ?bs = (!) ?order ` {1..<length ?order}" .
  obtain rows where rows: "try_append (block_rows Full t) ?bs = Some rows"
    "postdominator_rows Full graph = Some (filter ?kept rows)"
    using postdominator_rows_pairs [OF wf fresh w]
    by (auto simp: postdominator_rows_def reverse_dom_tree_def w t(1) Let_def)
  have "length (filter ?kept rows) = sum_list (map (\<lambda>b. length (filter ?kept (the (block_rows Full t b)))) ?bs)"
    by (rule try_append_filter_length [OF rows(1)])
  also have "\<dots> \<le> (\<Sum>x \<in> {1..<length ?order}. x)"
  proof (rule sum_list_positions [OF _ blocks])
    show "inj_on ((!) ?order) {1..<length ?order}"
      using dual_walk.distinct_order [OF dual] by (auto simp: inj_on_def nth_eq_iff_index_eq)
    show "length (filter ?kept (the (block_rows Full t (?order ! x)))) \<le> x" if "x \<in> {1..<length ?order}" for x
      using block [of x] that parts(2) by auto
  qed simp
  also have "\<dots> = card ?blocks * (card ?blocks + 1) div 2" unfolding len by (rule triangle(1))
  finally show ?thesis using rows(2) by blast
qed

end
