(* ===== verification/Dominance_Budget.thy ===== *)
theory Dominance_Budget
  imports Cfg_Derived_Correct Dominance_Bounds
begin

text \<open>
  The estimate of \<open>cfg/budget.rs\<close> against the rows it stands for. Where every block reaches an exit, the dominator
  and post-dominator rows of an output are at most as many as estimated, so a run within the budget emits no more
  rows than the limit. Where blocks cannot reach an exit this fails: each of them is paired with all blocks.
\<close>

section \<open>Blocks per function\<close>

lemma blocks_per_function_lookup:
  "fmlookup (blocks_per_function blocks) f =
     (let n = length (filter (\<lambda>block. block_cfg_function block = f) blocks) in if n = 0 then None else Some n)"
proof -
  let ?step = "\<lambda>block m. fmupd (block_cfg_function block) (fm_get_or 0 m (block_cfg_function block) + 1) m"
  let ?n = "\<lambda>blocks. length (filter (\<lambda>block. block_cfg_function block = f) blocks)"
  have "fmlookup (fold ?step blocks m) f =
      (if ?n blocks = 0 then fmlookup m f else Some (fm_get_or 0 m f + ?n blocks))" for m
    by (induction blocks arbitrary: m) (auto simp: fm_get_or_fmupd)
  then show ?thesis by (simp add: blocks_per_function_def Let_def)
qed

lemma sum_bt_values:
  "sum_list (map g (bt_values m)) = (\<Sum>k \<in> fset (fmdom m). g (the (fmlookup m k)))"
proof -
  have "sum_list (map g (bt_values m)) = sum_list (map (\<lambda>k. g (the (fmlookup m k))) (bt_elems (fmdom m)))"
    by (simp add: bt_values_def bt_entries_def bt_elems_def comp_def)
  then show ?thesis by (simp add: sum_list_distinct_conv_sum_set)
qed

text \<open>The estimate without overflow: the triangle of every function, for both relations.\<close>

definition function_blocks :: "cfg_rows \<Rightarrow> cfg_function_id \<Rightarrow> nat" where
  "function_blocks output f = length (filter (\<lambda>block. block_cfg_function block = f) (co_blocks output))"

lemma function_blocks_sum:
  assumes "finite F"
  shows "(\<Sum>f \<in> F. function_blocks output f) \<le> length (co_blocks output)"
proof -
  have "(\<Sum>f \<in> F. length (filter (\<lambda>b. block_cfg_function b = f) blocks)) \<le> length blocks" for blocks
  proof (induction blocks)
    case (Cons b blocks)
    have "(\<Sum>f \<in> F. length (filter (\<lambda>b. block_cfg_function b = f) (b # blocks))) =
        (\<Sum>f \<in> F. (if block_cfg_function b = f then 1 else 0) + length (filter (\<lambda>b. block_cfg_function b = f) blocks))"
      by (rule sum.cong) auto
    also have "\<dots> \<le> Suc (length blocks)" using Cons.IH assms by (simp add: sum.distrib)
    finally show ?case by simp
  qed simp
  then show ?thesis by (simp add: function_blocks_def)
qed

lemma estimate_eq:
  assumes "length (co_blocks output) < 2 ^ 32" "finite F"
  shows "2 * (\<Sum>f \<in> F. function_blocks output f * (function_blocks output f + 1) div 2) \<le> worst_case_dominance_pairs output"
proof -
  let ?n = "function_blocks output" and ?N = "length (co_blocks output)"
  let ?m = "blocks_per_function (co_blocks output)"
  let ?T = "\<Sum>f \<in> fset (fmdom ?m). ?n f * (?n f + 1) div 2"
  have dom: "f |\<in>| fmdom ?m \<longleftrightarrow> ?n f \<noteq> 0" for f
    by (simp add: fmlookup_dom_iff blocks_per_function_lookup function_blocks_def Let_def)
  have val: "f |\<in>| fmdom ?m \<Longrightarrow> the (fmlookup ?m f) = ?n f" for f
    using dom [of f] by (simp add: blocks_per_function_lookup function_blocks_def Let_def)
  have each: "?n f \<le> ?N" for f by (simp add: function_blocks_def)
  have sq: "?N * (?N + 1) < 2 ^ 64"
  proof -
    have "?N * (?N + 1) \<le> (2 ^ 32 - 1) * 2 ^ 32" using assms(1) by (intro mult_mono) auto
    then show ?thesis by simp
  qed
  have small: "saturating_mul (?n f) (saturating_add (?n f) 1) = ?n f * (?n f + 1)" for f
  proof -
    have "?n f * (?n f + 1) \<le> ?N * (?N + 1)" using each [of f] by (intro mult_mono) auto
    moreover have "?n f + 1 \<le> USIZE_MAX" using each [of f] assms(1) by (simp add: USIZE_MAX_def)
    ultimately show ?thesis using sq by (simp add: saturating_mul_def saturating_add_def USIZE_MAX_def)
  qed
  have half: "2 * ?T = (\<Sum>f \<in> fset (fmdom ?m). ?n f * (?n f + 1))" by (simp add: sum_distrib_left)
  also have "\<dots> \<le> (\<Sum>f \<in> fset (fmdom ?m). ?n f * (?N + 1))" by (rule sum_mono) (simp add: each)
  also have "\<dots> = (\<Sum>f \<in> fset (fmdom ?m). ?n f) * (?N + 1)" by (rule sum_distrib_right [symmetric])
  also have "\<dots> \<le> ?N * (?N + 1)" using function_blocks_sum [of "fset (fmdom ?m)"] by (intro mult_right_mono) auto
  finally have bound: "2 * ?T < 2 ^ 64" using sq by simp
  have "sum_list (map (\<lambda>blocks. saturating_mul blocks (saturating_add blocks 1) div 2) (bt_values ?m)) = ?T"
    unfolding sum_bt_values by (rule sum.cong [OF refl], simp only: val small)
  then have "worst_case_dominance_pairs output = 2 * ?T"
    using bound by (simp add: worst_case_dominance_pairs_def saturating_mul_def USIZE_MAX_def)
  moreover have "(\<Sum>f \<in> F. ?n f * (?n f + 1) div 2) = (\<Sum>f \<in> F \<inter> fset (fmdom ?m). ?n f * (?n f + 1) div 2)"
    by (rule sum.mono_neutral_right [OF assms(2)]) (auto simp: dom)
  moreover have "\<dots> \<le> ?T" by (rule sum_mono2) auto
  ultimately show ?thesis by simp
qed

section \<open>Rows of an output\<close>

lemma index_graph_blocks:
  "length (g_blocks (index_graph (cfg_graph_index_new interner output) f view)) = function_blocks output f"
  "g_function (index_graph (cfg_graph_index_new interner output) f view) = f"
  by (simp_all add: index_graph_def from_grouped_def cfg_graph_index_new_def fm_get_or_fmmap group_rows_eq
      function_blocks_def case_prod_unfold Let_def)

text \<open>Edges end in blocks of their function, and every block has a path to the virtual exit.\<close>

definition exits_reached :: "cfg_graph \<Rightarrow> bool" where
  "exits_reached graph \<longleftrightarrow> exit_is_fresh graph \<and>
     (\<forall>edge \<in> set (g_edges graph). cfge_to_block edge \<in> block_id ` set (g_blocks graph)) \<and>
     (\<forall>b \<in> block_id ` set (g_blocks graph). reaches_exit graph b)"

lemma triangle_mono: "(m :: nat) \<le> n \<Longrightarrow> m * (m + 1) div 2 \<le> n * (n + 1) div 2"
  by (intro div_le_mono mult_mono) auto

lemma graph_rows_bounded:
  assumes wf: "graph_wf graph" and ok: "exits_reached graph"
  shows "length (the (dominator_rows Full graph)) \<le> length (g_blocks graph) * (length (g_blocks graph) + 1) div 2"
    and "length (the (postdominator_rows Full graph)) \<le> length (g_blocks graph) * (length (g_blocks graph) + 1) div 2"
proof -
  let ?blocks = "block_id ` set (g_blocks graph)"
  have card: "card ?blocks \<le> length (g_blocks graph)"
    using card_image_le [of "set (g_blocks graph)" block_id] card_length [of "g_blocks graph"] by simp
  show "length (the (dominator_rows Full graph)) \<le> length (g_blocks graph) * (length (g_blocks graph) + 1) div 2"
  proof (cases "entry_block graph")
    case None
    then show ?thesis by (simp add: dominator_rows_def)
  next
    case (Some entry)
    have entry: "entry \<in> ?blocks" using Some by (auto simp: entry_block_def find_Some_iff)
    have edge: "b \<in> ?blocks" if step: "block_edge graph a b" for a b
    proof -
      obtain edge where "edge \<in> set (g_edges graph)" "cfge_to_block edge = b"
        using step unfolding block_edge_iff [OF wf] by blast
      with ok show ?thesis by (auto simp: exits_reached_def)
    qed
    have "b \<in> ?blocks" if "b |\<in>| reachable_blocks graph" for b
      using that unfolding reachable_blocks_iff [OF Some] by (induction rule: rtranclp_induct) (rule entry, rule edge)
    then have "fset (reachable_blocks graph) \<subseteq> ?blocks" by (rule subsetI)
    then have "fcard (reachable_blocks graph) \<le> length (g_blocks graph)"
      using card_mono [of ?blocks "fset (reachable_blocks graph)"] card by (simp add: fcard.rep_eq)
    from triangle_mono [OF this] show ?thesis using forward_rows_bounded [OF wf Some] by auto
  qed
  show "length (the (postdominator_rows Full graph)) \<le> length (g_blocks graph) * (length (g_blocks graph) + 1) div 2"
  proof (cases "reverse_walk graph")
    case None
    then show ?thesis by (simp add: postdominator_rows_def reverse_dom_tree_def)
  next
    case (Some w)
    show ?thesis
      using reverse_rows_bounded [OF wf _ Some] ok triangle_mono [OF card] by (fastforce simp: exits_reached_def)
  qed
qed

lemma dominance_rows_bounded:
  assumes graphs: "graphs = index_graphs (cfg_graph_index_new interner output) view"
    and ids: "distinct (map cfgf_id (co_functions output))"
    and ok: "\<forall>graph \<in> set graphs. exits_reached graph"
    and small: "length (co_blocks output) < 2 ^ 32"
  shows "row_count (dominator_rows Full) graphs + row_count (postdominator_rows Full) graphs
    \<le> worst_case_dominance_pairs output"
proof -
  let ?n = "function_blocks output" and ?F = "cfgf_id ` set (co_functions output)"
  let ?tri = "\<lambda>f. ?n f * (?n f + 1) div 2"
  let ?sorted = "sort_key (\<lambda>row. key_text interner (cfgf_stable_key row)) (co_functions output)"
  have list: "graphs = map (\<lambda>f. index_graph (cfg_graph_index_new interner output) f view) (map cfgf_id ?sorted)"
    by (simp add: graphs index_graphs_def cfg_graph_index_new_def comp_def)
  have "mset (map cfgf_id ?sorted) = mset (map cfgf_id (co_functions output))" by simp
  then have dist: "distinct (map cfgf_id ?sorted)" using ids by (metis distinct_count_atmost_1 set_mset_mset mset_eq_setD)
  have bound: "row_count rows graphs \<le> sum ?tri ?F"
    if "\<And>graph. graph \<in> set graphs \<Longrightarrow> length (the (rows graph)) \<le> length (g_blocks graph) * (length (g_blocks graph) + 1) div 2"
    for rows :: "cfg_graph \<Rightarrow> dominance_row list option"
  proof -
    have "row_count rows graphs \<le> sum_list (map (\<lambda>graph. length (g_blocks graph) * (length (g_blocks graph) + 1) div 2) graphs)"
      unfolding row_count_def by (rule sum_list_mono) (rule that)
    also have "\<dots> = sum_list (map ?tri (map cfgf_id ?sorted))"
      unfolding list by (simp add: comp_def index_graph_blocks)
    also have "\<dots> = sum ?tri ?F" by (subst sum_list_distinct_conv_sum_set [OF dist]) simp
    finally show ?thesis .
  qed
  have wf: "graph_wf graph" if "graph \<in> set graphs" for graph using that unfolding graphs by (rule index_graphs_wf)
  have "row_count (dominator_rows Full) graphs \<le> sum ?tri ?F"
    by (rule bound, rule graph_rows_bounded(1)) (use wf ok in auto)
  moreover have "row_count (postdominator_rows Full) graphs \<le> sum ?tri ?F"
    by (rule bound, rule graph_rows_bounded(2)) (use wf ok in auto)
  ultimately show ?thesis using estimate_eq [OF small, of ?F] by simp
qed

text \<open>
  C22: The dominance budget holds where every block reaches an exit: if the functions have distinct ids, edges end in
  blocks of their function, every block has a path to the virtual exit and there are less than \<open>2 ^ 32\<close> blocks, the
  dominator and post-dominator rows of an output are together at most as many as the estimate, and hence at most
  the limit whenever the full relation is emitted.
\<close>

theorem dominance_budget_holds:
  assumes graphs: "graphs = index_graphs (cfg_graph_index_new interner output) view"
    and ids: "distinct (map cfgf_id (co_functions output))"
    and ok: "\<forall>graph \<in> set graphs. exits_reached graph"
    and small: "length (co_blocks output) < 2 ^ 32"
    and full: "\<not> limit < worst_case_dominance_pairs output"
  shows "row_count (dominator_rows Full) graphs + row_count (postdominator_rows Full) graphs \<le> limit"
  using dominance_rows_bounded [OF graphs ids ok small] full by simp

end
