(* ===== verification/Cfg_Samples.thy ===== *)
theory Cfg_Samples
  imports Dominance_Budget "HOL-Library.Code_Target_Nat"
begin

text \<open>
  Two functions on which the derivations are run: a branch whose arms meet in the exit, and a loop that is never
  left. On the first the properties of the derived facts are evaluated; on the second the rows exceed the estimate
  of the budget.
\<close>

section \<open>A branch and a loop\<close>

definition flow_interner :: interner_state where
  "flow_interner = \<lparr> keys = [''k''], ids = fmupd ''k'' 0 fmempty \<rparr>"

definition flow_span :: span where
  "flow_span = \<lparr> span_file = 1, start_byte = 0, end_byte = 0, start_line = 1, start_col = 1,
                 end_line = 1, end_col = 1 \<rparr>"

definition flow_function :: cfg_function_fact where
  "flow_function =
     \<lparr> cfgf_id = 1, cfgf_body = 0, cfgf_function = 0, cfgf_language = Lang_Go, cfgf_file = 0, cfgf_span = flow_span,
       entry_node = 0, normal_exit_node = 0, exceptional_exit_node = None, cfgf_stable_key = 0,
       cfgf_status = Cfg_Resolved, cfgf_precision = Cfg_ExactLowered \<rparr>"

definition flow_block :: "nat \<Rightarrow> basic_block_kind \<Rightarrow> basic_block_fact" where
  "flow_block i kind =
     \<lparr> block_id = i, block_cfg_function = 1, block_kind = kind, first_node = None, last_node = None,
       block_reachable = True, reverse_postorder = i, block_stable_key = 0, block_status = Cfg_Resolved,
       block_precision = Cfg_ExactLowered \<rparr>"

definition flow_edge :: "nat \<Rightarrow> nat \<Rightarrow> nat \<Rightarrow> cfg_edge_fact" where
  "flow_edge i a b =
     \<lparr> cfge_id = i, cfge_cfg_function = 1, cfge_view = NormalControl, cfge_from = 0, cfge_to = 0,
       cfge_from_block = a, cfge_to_block = b, cfge_kind = Edge_Normal, cfge_label = None, cfge_stable_key = 0,
       cfge_status = Cfg_Resolved, cfge_precision = Cfg_ExactLowered \<rparr>"

definition branch_rows :: cfg_rows where
  "branch_rows =
     \<lparr> co_functions = [flow_function], co_nodes = [],
       co_blocks = [flow_block 1 Block_Entry, flow_block 2 Block_Branch, flow_block 3 Block_StraightLine,
         flow_block 4 Block_ExitNormal],
       co_edges = [flow_edge 1 1 2, flow_edge 2 2 3, flow_edge 3 2 4, flow_edge 4 3 4] \<rparr>"

definition loop_rows :: cfg_rows where
  "loop_rows =
     \<lparr> co_functions = [flow_function], co_nodes = [],
       co_blocks = [flow_block 1 Block_Entry, flow_block 2 Block_LoopHeader, flow_block 3 Block_LoopBody,
         flow_block 4 Block_LoopBody, flow_block 5 Block_ExitNormal],
       co_edges = [flow_edge 1 1 2, flow_edge 2 2 3, flow_edge 3 3 4, flow_edge 4 4 2] \<rparr>"

abbreviation flow_index :: "cfg_rows \<Rightarrow> cfg_graph_index" where
  "flow_index \<equiv> cfg_graph_index_new flow_interner"

definition branch_graph :: cfg_graph where
  "branch_graph = index_graph (flow_index branch_rows) 1 NormalControl"

definition loop_graph :: cfg_graph where
  "loop_graph = index_graph (flow_index loop_rows) 1 NormalControl"

lemma flow_interner_wf: "interner_wf 0 flow_interner"
  by (auto simp: interner_wf_def flow_interner_def)

lemma flow_graphs:
  "index_graphs (flow_index branch_rows) NormalControl = [branch_graph]"
  "index_graphs (flow_index loop_rows) NormalControl = [loop_graph]"
  by (simp_all add: index_graphs_def branch_graph_def loop_graph_def cfg_graph_index_new_def branch_rows_def
      loop_rows_def flow_function_def)

lemma branch_evaluated:
  "entry_block branch_graph = Some 1"
  "exit_is_fresh branch_graph"
  "selected_exit_blocks branch_graph = {|4|}"
  "map block_id (g_blocks branch_graph) = [1, 2, 3, 4]"
  "g_edges branch_graph = [flow_edge 1 1 2, flow_edge 2 2 3, flow_edge 3 2 4, flow_edge 4 3 4]"
  "dominator_rows Full branch_graph = Some
     [(1, 1, False), (1, 2, True), (2, 2, False), (1, 3, False), (2, 3, True), (3, 3, False), (1, 4, False),
      (2, 4, True), (4, 4, False)]"
  "dominator_rows ImmediateOnly branch_graph = Some [(1, 2, True), (2, 3, True), (2, 4, True)]"
  "postdominator_rows ImmediateOnly branch_graph = Some [(2, 1, True), (4, 2, True), (4, 3, True)]"
  "postdominator_rows Full branch_graph = Some
     [(1, 1, False), (2, 1, True), (4, 1, False), (2, 2, False), (4, 2, True), (3, 3, False), (4, 3, True),
      (4, 4, False)]"
  "control_dependence_rows branch_graph = Some [(flow_edge 2 2 3, 3)]"
  "worst_case_dominance_pairs branch_rows = 20"
  by code_simp+

lemma loop_evaluated:
  "length (the (dominator_rows Full loop_graph)) = 10"
  "length (the (postdominator_rows Full loop_graph)) = 21"
  "(5, 1, False) \<in> set (the (postdominator_rows Full loop_graph))"
  "postdominator_rows ImmediateOnly loop_graph = Some [(2, 1, True), (1, 2, True), (1, 3, True), (1, 4, True)]"
  "worst_case_dominance_pairs loop_rows = 30"
  by code_simp+

section \<open>The properties on the branch\<close>

lemma branch_in: "branch_graph \<in> set (index_graphs (flow_index branch_rows) NormalControl)"
  by (simp add: flow_graphs)

lemma branch_lengths: "length (g_blocks branch_graph) = 4"
  using arg_cong [OF branch_evaluated(4), of length] by simp

lemma branch_room: "length (keys flow_interner) + row_count (dominator_rows Full) [branch_graph] \<le> U32_MAX"
  by (simp add: row_count_def branch_evaluated flow_interner_def U32_MAX_def)

lemma branch_ids: "set (g_blocks branch_graph) \<noteq> {}" "block_id ` set (g_blocks branch_graph) = {1, 2, 3, 4}"
proof -
  have "block_id ` set (g_blocks branch_graph) = set (map block_id (g_blocks branch_graph))"
    by simp
  then show ids: "block_id ` set (g_blocks branch_graph) = {1, 2, 3, 4}"
    unfolding branch_evaluated by simp
  then show "set (g_blocks branch_graph) \<noteq> {}" by auto
qed

lemma branch_function: "g_function branch_graph = 1"
  by (simp add: branch_graph_def index_graph_blocks)

theorem dominator_facts_exact_witness:
  "\<exists>facts interner'.
    derive_dominators_for (\<lambda>_. []) [branch_graph] NormalControl Full flow_interner = Some (facts, interner') \<and>
    (\<lambda>fact. (df_cfg_function fact, df_dominator fact, df_dominated fact, df_immediate fact)) ` set facts =
      {(1, 1, 1, False), (1, 1, 2, True), (1, 2, 2, False), (1, 1, 3, False), (1, 2, 3, True), (1, 3, 3, False),
       (1, 1, 4, False), (1, 2, 4, True), (1, 4, 4, False)}"
proof -
  have rows: "{(a, b, i). block_dominates branch_graph 1 a b \<and> (i \<longleftrightarrow> block_immediate branch_graph 1 a b)} =
      {(1, 1, False), (1, 2, True), (2, 2, False), (1, 3, False), (2, 3, True), (3, 3, False), (1, 4, False),
       (2, 4, True), (4, 4, False)}" (is "?D = ?R")
    using forward_rows(1) [OF index_graphs_wf [OF branch_in] branch_evaluated(1)] by (simp add: branch_evaluated(6))
  have "{(f, a, b, i). \<exists>graph \<in> set [branch_graph]. \<exists>entry.
      f = g_function graph \<and> entry_block graph = Some entry \<and> block_dominates graph entry a b \<and>
      (i \<longleftrightarrow> block_immediate graph entry a b)} = Pair 1 ` ?D"
    by (auto simp: branch_evaluated(1) branch_function)
  also have "\<dots> = {(1, 1, 1, False), (1, 1, 2, True), (1, 2, 2, False), (1, 1, 3, False), (1, 2, 3, True), (1, 3, 3, False),
       (1, 1, 4, False), (1, 2, 4, True), (1, 4, 4, False)}" unfolding rows by simp
  finally show ?thesis
    using dominator_facts_exact [OF flow_interner_wf, of "flow_index branch_rows" NormalControl "\<lambda>_. []"] branch_room
    unfolding flow_graphs by simp
qed


theorem postdominator_pairs_exact_witness:
  "{(a, b). a \<in> {1, 2, 3, 4} \<and> b \<in> {1, 2, 3, 4} \<and> postdominates branch_graph a b} =
   {(1, 1), (2, 1), (4, 1), (2, 2), (4, 2), (3, 3), (4, 3), (4, 4)}"
  using postdominator_pairs_exact [OF branch_in branch_evaluated(2)]
  by (simp add: branch_evaluated(3,9) branch_ids)

lemma branch_reaches: "reaches_exit branch_graph b" if "b \<in> {1, 2, 3, 4}"
proof -
  let ?g = "branch_graph"
  have steps: "exit_edge ?g (virtual_exit_for (g_function ?g)) 4" "exit_edge ?g 4 2" "exit_edge ?g 4 3" "exit_edge ?g 2 1"
    by code_simp+
  have four: "reaches_exit ?g 4" unfolding reaches_exit_def using steps(1) by (rule r_into_rtranclp [where r = "exit_edge ?g"])
  have more: "reaches_exit ?g c" if "reaches_exit ?g b" "exit_edge ?g b c" for b c
    using that unfolding reaches_exit_def by (rule rtranclp.rtrancl_into_rtrancl)
  from more [OF four steps(2)] more [OF four steps(3)] more [OF more [OF four steps(2)] steps(4)] four that
  show ?thesis by auto
qed


theorem dominance_budget_holds_witness:
  "row_count (dominator_rows Full) [branch_graph] + row_count (postdominator_rows Full) [branch_graph] \<le> 250000"
proof -
  have "exits_reached branch_graph"
    unfolding exits_reached_def branch_ids using branch_evaluated(2) branch_reaches
    by (auto simp: branch_evaluated(5) flow_edge_def)
  then show ?thesis
    using dominance_budget_holds [of "[branch_graph]" flow_interner branch_rows NormalControl 250000]
    by (simp add: flow_graphs branch_evaluated(11)) (simp add: branch_rows_def flow_function_def)
qed

theorem derived_output_returns_witness:
  "\<exists>derived trip interner'.
    append_derived_rows (\<lambda>_. []) 10 branch_rows NormalControl flow_interner = Some (derived, trip, interner') \<and> trip \<noteq> None"
proof -
  have room: "length (keys flow_interner) + derived_row_count ImmediateOnly [branch_graph] \<le> U32_MAX"
    by (simp add: derived_row_count_def row_count_def branch_evaluated branch_lengths)
      (simp add: flow_interner_def U32_MAX_def)
  have "co_functions branch_rows \<noteq> []" by (simp add: branch_rows_def)
  then show ?thesis
    using derived_output_returns [OF flow_interner_wf flow_graphs(1) [symmetric], of True 10 "\<lambda>_. []"] room
    by (simp add: branch_evaluated(2,11)) blast
qed

theorem parallel_rows_are_sequential_witness:
  "\<exists>rows interner'.
    derive_dominators_for (\<lambda>_. []) [branch_graph] NormalControl Full flow_interner =
      Some (sort_facts df_stable_key (rows, interner')) \<and> length rows = 9"
proof -
  let ?drafts = "the (dominator_drafts (\<lambda>_. []) flow_interner NormalControl Full branch_graph)"
  have drafts: "try_append (dominator_drafts (\<lambda>_. []) flow_interner NormalControl Full) [branch_graph] = Some ?drafts"
    "length ?drafts = 9"
    by (simp_all add: dominator_drafts_def Let_def branch_evaluated(6))
  have full: "length (keys flow_interner) \<le> U32_MAX" by (simp add: flow_interner_def U32_MAX_def)
  have "length (keys flow_interner) + length ?drafts \<le> U32_MAX"
    unfolding drafts(2) by (simp add: flow_interner_def U32_MAX_def)
  then obtain rows interner' where run:
    "derive_rows_sequential place_dominator (dominator_drafts (\<lambda>_. []) flow_interner NormalControl Full) [branch_graph] flow_interner =
      Some (rows, interner')" "length rows = length ?drafts"
    using dominator_row.sequential_described [OF flow_interner_wf drafts(1)] by auto
  from parallel_rows_are_sequential [OF flow_interner_wf full run(1)] run(2) drafts(2) show ?thesis by auto
qed

section \<open>The loop that is never left\<close>



end
