(* ===== verification/Evidence_Facts.thy ===== *)
theory Evidence_Facts
  imports Facts Row_Order
begin

text \<open>
  The facts of \<open>analysis_neutral/evidence/facts.rs\<close>: nodes and edges of the evidence graph with their status, precision
  and provenance, and the rows that refer to them, bundles, paths, slices, unknowns, omitted regions and replay
  keys. The candidates of extensions are not modelled.
\<close>

section \<open>Facts\<close>

type_synonym evidence_node_id = nat
type_synonym evidence_edge_id = nat
type_synonym evidence_bundle_id = nat
type_synonym evidence_path_id = nat
type_synonym evidence_slice_id = nat
type_synonym evidence_omitted_region_id = nat

datatype evidence_node_kind =
    Evn_Operation | Evn_Statement | Evn_Symbol | Evn_Place | Evn_CallSite | Evn_FunctionEntry | Evn_FunctionExit
  | Evn_Summary | Evn_Model | Evn_Diagnostic | Evn_Synthetic

datatype evidence_edge_kind =
    Eve_DataValue | Eve_DataTaint | Eve_DataAddress | Eve_Control | Eve_Call | Eve_Return | Eve_ParameterIn
  | Eve_ParameterOut | Eve_Summary | Eve_Model | Eve_Alias | Eve_Unknown | Eve_ExplanationOnly

datatype evidence_query_mode =
    Evq_ThinBackward | Evq_FullBackward | Evq_ForwardImpact | Evq_Chop | Evq_Path | Evq_Expansion

datatype evidence_status =
    Evs_Present | Evs_Partial | Evs_Unknown | Evs_Unsupported | Evs_SetupMissing | Evs_BudgetExceeded | Evs_Rejected

datatype evidence_precision =
    Evp_Exact | Evp_SetupAware | Evp_Syntax | Evp_Conservative | Evp_Heuristic | Evp_Unknown

datatype evidence_provenance =
    Evo_Native | Evo_Summary | Evo_Extension | Evo_Model | Evo_Query | Evo_Synthetic

datatype evidence_validation =
    Evv_Native | Evv_ReferentiallyValidated | Evv_ExtensionValidated | Evv_BudgetValidated | Evv_RendererValidated
  | Evv_Rejected

datatype evidence_confidence = Evc_High | Evc_Medium | Evc_Low

datatype evidence_expansion =
    Evx_None | Evx_Expandable string | Evx_Opaque string | Evx_ExternalModel string

record evidence_node_fact =
  evn_id :: evidence_node_id
  evn_kind :: evidence_node_kind
  evn_language :: language
  evn_file :: "file_id option"
  evn_function :: "function_id option"
  evn_body :: "mir_body_id option"
  evn_operation :: "mir_op_id option"
  evn_cfg_node :: "cfg_node_id option"
  evn_place :: "place_id option"
  evn_symbol :: "symbol_id option"
  evn_reference :: "reference_id option"
  evn_call_site :: "call_site_id option"
  evn_span :: "span option"
  evn_status :: evidence_status
  evn_precision :: evidence_precision
  evn_provenance :: evidence_provenance
  evn_validation :: evidence_validation
  evn_confidence :: evidence_confidence
  evn_compact_label :: "string option"
  evn_source_keys :: "string list"
  evn_stable_key :: stable_key_id

record evidence_edge_fact =
  eve_id :: evidence_edge_id
  eve_from :: evidence_node_id
  eve_to :: evidence_node_id
  eve_kind :: evidence_edge_kind
  eve_query_mode :: evidence_query_mode
  eve_status :: evidence_status
  eve_precision :: evidence_precision
  eve_provenance :: evidence_provenance
  eve_validation :: evidence_validation
  eve_confidence :: evidence_confidence
  eve_call_site :: "call_site_id option"
  eve_summary_key :: "string option"
  eve_expansion :: evidence_expansion
  eve_compact_label :: "string option"
  eve_source_keys :: "string list"
  eve_stable_key :: stable_key_id

record evidence_bundle_fact =
  evb_id :: evidence_bundle_id
  evb_diagnostic_key :: stable_key_id
  evb_query_mode :: evidence_query_mode
  evb_status :: evidence_status
  evb_precision :: evidence_precision
  evb_provenance :: evidence_provenance
  evb_validation :: evidence_validation
  evb_confidence :: evidence_confidence
  evb_entry_node :: "evidence_node_id option"
  evb_selected_paths :: "evidence_path_id list"
  evb_selected_slices :: "evidence_slice_id list"
  evb_replay_key :: "string option"
  evb_stable_key :: stable_key_id

record evidence_rank_score =
  native_exact_edges :: nat
  unknown_edges :: nat
  unvalidated_edges :: nat
  model_or_heuristic_edges :: nat
  edge_count :: nat

record evidence_path_fact =
  epf_id :: evidence_path_id
  epf_bundle :: "evidence_bundle_id option"
  epf_query_mode :: evidence_query_mode
  epf_nodes :: "evidence_node_id list"
  epf_edges :: "evidence_edge_id list"
  epf_rank :: nat
  epf_score :: evidence_rank_score
  epf_status :: evidence_status
  epf_hidden_node_count :: nat
  epf_omitted_regions :: "evidence_omitted_region_id list"
  epf_stable_key :: stable_key_id

record evidence_slice_fact =
  esf_id :: evidence_slice_id
  esf_bundle :: "evidence_bundle_id option"
  esf_query_mode :: evidence_query_mode
  esf_root_nodes :: "evidence_node_id list"
  esf_nodes :: "evidence_node_id list"
  esf_edges :: "evidence_edge_id list"
  esf_status :: evidence_status
  esf_omitted_regions :: "evidence_omitted_region_id list"
  esf_stable_key :: stable_key_id

datatype evidence_unknown_reason =
    Evu_DynamicCall | Evu_UnsupportedEdge | Evu_SetupMissing | Evu_BudgetExceeded | Evu_OpaqueSummary

record evidence_unknown_fact =
  evu_bundle :: "evidence_bundle_id option"
  evu_path :: "evidence_path_id option"
  evu_slice :: "evidence_slice_id option"
  evu_edge :: "evidence_edge_id option"
  evu_reason :: evidence_unknown_reason
  evu_message :: string
  evu_source_keys :: "string list"
  evu_stable_key :: stable_key_id

datatype evidence_omitted_reason = Evm_NodeLimit | Evm_EdgeLimit | Evm_PathDepth | Evm_PathCount | Evm_CompactRendering

record evidence_omitted_region_fact =
  evm_id :: evidence_omitted_region_id
  evm_bundle :: "evidence_bundle_id option"
  evm_path :: "evidence_path_id option"
  evm_slice :: "evidence_slice_id option"
  evm_reason :: evidence_omitted_reason
  evm_hidden_node_count :: nat
  evm_hidden_edge_count :: nat
  evm_budget_label :: "string option"
  evm_stable_key :: stable_key_id

datatype evidence_ranking_mode = Rank_DeterministicDisplay | Rank_StableKey

datatype evidence_renderer_mode = Render_Json | Render_Sarif | Render_Human | Render_Debug

record evidence_query_budget =
  eqb_max_paths :: nat
  eqb_max_nodes :: nat
  eqb_max_edges :: nat
  eqb_max_depth :: nat

definition evidence_query_budget_default :: evidence_query_budget where
  "evidence_query_budget_default = \<lparr> eqb_max_paths = 5, eqb_max_nodes = 64, eqb_max_edges = 96, eqb_max_depth = 32 \<rparr>"

record evidence_replay_key_fact =
  evr_bundle :: evidence_bundle_id
  evr_query_mode :: evidence_query_mode
  evr_graph_schema :: string
  evr_query_budget :: evidence_query_budget
  evr_ranking :: evidence_ranking_mode
  evr_renderer :: evidence_renderer_mode
  evr_upstream_digest_keys :: "string list"
  evr_stable_key :: stable_key_id

record evidence_output =
  evo_nodes :: "evidence_node_fact list"
  evo_edges :: "evidence_edge_fact list"
  evo_bundles :: "evidence_bundle_fact list"
  evo_paths :: "evidence_path_fact list"
  evo_slices :: "evidence_slice_fact list"
  evo_unknowns :: "evidence_unknown_fact list"
  evo_omitted_regions :: "evidence_omitted_region_fact list"
  evo_replay_keys :: "evidence_replay_key_fact list"

text \<open>The derived order of the enums is the order of their declaration.\<close>

definition evidence_node_kind_index :: "evidence_node_kind \<Rightarrow> nat" where
  "evidence_node_kind_index kind =
     (case kind of Evn_Operation \<Rightarrow> 0 | Evn_Statement \<Rightarrow> 1 | Evn_Symbol \<Rightarrow> 2 | Evn_Place \<Rightarrow> 3 | Evn_CallSite \<Rightarrow> 4
      | Evn_FunctionEntry \<Rightarrow> 5 | Evn_FunctionExit \<Rightarrow> 6 | Evn_Summary \<Rightarrow> 7 | Evn_Model \<Rightarrow> 8 | Evn_Diagnostic \<Rightarrow> 9
      | Evn_Synthetic \<Rightarrow> 10)"

definition evidence_edge_kind_index :: "evidence_edge_kind \<Rightarrow> nat" where
  "evidence_edge_kind_index kind =
     (case kind of Eve_DataValue \<Rightarrow> 0 | Eve_DataTaint \<Rightarrow> 1 | Eve_DataAddress \<Rightarrow> 2 | Eve_Control \<Rightarrow> 3 | Eve_Call \<Rightarrow> 4
      | Eve_Return \<Rightarrow> 5 | Eve_ParameterIn \<Rightarrow> 6 | Eve_ParameterOut \<Rightarrow> 7 | Eve_Summary \<Rightarrow> 8 | Eve_Model \<Rightarrow> 9
      | Eve_Alias \<Rightarrow> 10 | Eve_Unknown \<Rightarrow> 11 | Eve_ExplanationOnly \<Rightarrow> 12)"

definition evidence_query_mode_index :: "evidence_query_mode \<Rightarrow> nat" where
  "evidence_query_mode_index mode =
     (case mode of Evq_ThinBackward \<Rightarrow> 0 | Evq_FullBackward \<Rightarrow> 1 | Evq_ForwardImpact \<Rightarrow> 2 | Evq_Chop \<Rightarrow> 3
      | Evq_Path \<Rightarrow> 4 | Evq_Expansion \<Rightarrow> 5)"

definition evidence_unknown_reason_index :: "evidence_unknown_reason \<Rightarrow> nat" where
  "evidence_unknown_reason_index reason =
     (case reason of Evu_DynamicCall \<Rightarrow> 0 | Evu_UnsupportedEdge \<Rightarrow> 1 | Evu_SetupMissing \<Rightarrow> 2 | Evu_BudgetExceeded \<Rightarrow> 3
      | Evu_OpaqueSummary \<Rightarrow> 4)"

definition evidence_omitted_reason_index :: "evidence_omitted_reason \<Rightarrow> nat" where
  "evidence_omitted_reason_index reason =
     (case reason of Evm_NodeLimit \<Rightarrow> 0 | Evm_EdgeLimit \<Rightarrow> 1 | Evm_PathDepth \<Rightarrow> 2 | Evm_PathCount \<Rightarrow> 3
      | Evm_CompactRendering \<Rightarrow> 4)"

section \<open>Rows in normal form\<close>

text \<open>Lists whose order does not matter are sorted, and repetitions removed.\<close>

definition sort_dedup :: "'a::linorder list \<Rightarrow> 'a list" where
  "sort_dedup xs = vec_dedup (sort xs)"

definition normalized_node :: "evidence_node_fact \<Rightarrow> evidence_node_fact" where
  "normalized_node node = node \<lparr> evn_source_keys := sort_dedup (evn_source_keys node) \<rparr>"

definition normalized_edge :: "evidence_edge_fact \<Rightarrow> evidence_edge_fact" where
  "normalized_edge edge = edge \<lparr> eve_source_keys := sort_dedup (eve_source_keys edge) \<rparr>"

definition normalized_bundle :: "evidence_bundle_fact \<Rightarrow> evidence_bundle_fact" where
  "normalized_bundle bundle =
     bundle \<lparr> evb_selected_paths := sort_dedup (evb_selected_paths bundle),
       evb_selected_slices := sort_dedup (evb_selected_slices bundle) \<rparr>"

definition normalized_path :: "evidence_path_fact \<Rightarrow> evidence_path_fact" where
  "normalized_path path = path \<lparr> epf_omitted_regions := sort_dedup (epf_omitted_regions path) \<rparr>"

definition normalized_slice :: "evidence_slice_fact \<Rightarrow> evidence_slice_fact" where
  "normalized_slice slice =
     slice \<lparr> esf_root_nodes := sort_dedup (esf_root_nodes slice), esf_nodes := sort_dedup (esf_nodes slice),
       esf_edges := sort_dedup (esf_edges slice), esf_omitted_regions := sort_dedup (esf_omitted_regions slice) \<rparr>"

definition normalized_unknown :: "evidence_unknown_fact \<Rightarrow> evidence_unknown_fact" where
  "normalized_unknown unknown = unknown \<lparr> evu_source_keys := sort_dedup (evu_source_keys unknown) \<rparr>"

definition normalized_replay_key :: "evidence_replay_key_fact \<Rightarrow> evidence_replay_key_fact" where
  "normalized_replay_key replay = replay \<lparr> evr_upstream_digest_keys := sort_dedup (evr_upstream_digest_keys replay) \<rparr>"

end
