(* ===== verification/Evidence_Store.thy ===== *)
theory Evidence_Store
  imports Evidence_Facts
begin

text \<open>
  The evidence store of \<open>analysis_neutral/evidence/store.rs\<close>: the normal form of an output, which sorts the rows of each
  family by the text of their keys, renumbers them and remaps what refers to them, and
  \<open>EvidenceStore::from_output\<close>, which rejects repeated and dangling rows and indexes the rest.
\<close>

section \<open>Normal form\<close>

definition normalize_nodes :: "evidence_node_fact list \<Rightarrow> interner_state \<Rightarrow> evidence_node_fact list option" where
  "normalize_nodes nodes interner =
     sort_rows interner evn_stable_key (\<lambda>node. (evidence_node_kind_index (evn_kind node), evn_id node))
       (map normalized_node nodes)"

definition remap_required :: "('i, 'i) fmap \<Rightarrow> 'i \<Rightarrow> 'i" where
  "remap_required remap value = (case fmlookup remap value of Some remapped \<Rightarrow> remapped | None \<Rightarrow> value)"

definition position_remap :: "('r \<Rightarrow> 'i) \<Rightarrow> 'r list \<Rightarrow> ('i, nat) fmap" where
  "position_remap id_of rows = fm_collect (map (\<lambda>(index, row). (id_of row, index)) (List.enumerate 0 rows))"

definition remap_option :: "('i, 'i) fmap \<Rightarrow> 'i option \<Rightarrow> 'i option" where
  "remap_option remap value = (case Option.bind value (fmlookup remap) of Some remapped \<Rightarrow> Some remapped | None \<Rightarrow> value)"

definition remap_vec :: "('i, 'i) fmap \<Rightarrow> 'i list \<Rightarrow> 'i list" where
  "remap_vec remap values = map (remap_required remap) values"

definition normalize_omitted_regions ::
  "evidence_omitted_region_fact list \<Rightarrow> interner_state \<Rightarrow> evidence_omitted_region_fact list option" where
  "normalize_omitted_regions regions interner =
     sort_rows interner evm_stable_key (\<lambda>region. (evidence_omitted_reason_index (evm_reason region), evm_id region)) regions"

definition normalize_bundles :: "evidence_bundle_fact list \<Rightarrow> interner_state \<Rightarrow> evidence_bundle_fact list option" where
  "normalize_bundles bundles interner =
     sort_rows interner evb_stable_key (\<lambda>bundle. (evidence_query_mode_index (evb_query_mode bundle), evb_id bundle))
       (map normalized_bundle bundles)"

definition remap_edge :: "(evidence_node_id, evidence_node_id) fmap \<Rightarrow> evidence_edge_fact \<Rightarrow> evidence_edge_fact" where
  "remap_edge node_remap edge =
     edge \<lparr> eve_from := remap_required node_remap (eve_from edge), eve_to := remap_required node_remap (eve_to edge) \<rparr>"

definition edge_order :: "evidence_edge_fact \<Rightarrow> nat \<times> nat \<times> nat \<times> nat \<times> nat" where
  "edge_order edge =
     (eve_from edge, eve_to edge, evidence_edge_kind_index (eve_kind edge), evidence_query_mode_index (eve_query_mode edge),
      eve_id edge)"

text \<open>The remappings from old ids to positions, per family.\<close>

record evidence_remaps =
  rm_nodes :: "(evidence_node_id, evidence_node_id) fmap"
  rm_omitted :: "(evidence_omitted_region_id, evidence_omitted_region_id) fmap"
  rm_bundles :: "(evidence_bundle_id, evidence_bundle_id) fmap"
  rm_edges :: "(evidence_edge_id, evidence_edge_id) fmap"
  rm_paths :: "(evidence_path_id, evidence_path_id) fmap"
  rm_slices :: "(evidence_slice_id, evidence_slice_id) fmap"

definition remap_path :: "evidence_remaps \<Rightarrow> evidence_path_fact \<Rightarrow> evidence_path_fact" where
  "remap_path rm path =
     path \<lparr> epf_bundle := remap_option (rm_bundles rm) (epf_bundle path), epf_nodes := remap_vec (rm_nodes rm) (epf_nodes path),
       epf_edges := remap_vec (rm_edges rm) (epf_edges path),
       epf_omitted_regions := remap_vec (rm_omitted rm) (epf_omitted_regions path) \<rparr>"

definition remap_slice :: "evidence_remaps \<Rightarrow> evidence_slice_fact \<Rightarrow> evidence_slice_fact" where
  "remap_slice rm slice =
     slice \<lparr> esf_bundle := remap_option (rm_bundles rm) (esf_bundle slice),
       esf_root_nodes := remap_vec (rm_nodes rm) (esf_root_nodes slice), esf_nodes := remap_vec (rm_nodes rm) (esf_nodes slice),
       esf_edges := remap_vec (rm_edges rm) (esf_edges slice),
       esf_omitted_regions := remap_vec (rm_omitted rm) (esf_omitted_regions slice) \<rparr>"

definition remap_bundle :: "evidence_remaps \<Rightarrow> evidence_bundle_fact \<Rightarrow> evidence_bundle_fact" where
  "remap_bundle rm bundle =
     bundle \<lparr> evb_entry_node := remap_option (rm_nodes rm) (evb_entry_node bundle),
       evb_selected_paths := remap_vec (rm_paths rm) (evb_selected_paths bundle),
       evb_selected_slices := remap_vec (rm_slices rm) (evb_selected_slices bundle) \<rparr>"

definition remap_omitted :: "evidence_remaps \<Rightarrow> evidence_omitted_region_fact \<Rightarrow> evidence_omitted_region_fact" where
  "remap_omitted rm region =
     region \<lparr> evm_bundle := remap_option (rm_bundles rm) (evm_bundle region),
       evm_path := remap_option (rm_paths rm) (evm_path region), evm_slice := remap_option (rm_slices rm) (evm_slice region) \<rparr>"

definition remap_unknown :: "evidence_remaps \<Rightarrow> evidence_unknown_fact \<Rightarrow> evidence_unknown_fact" where
  "remap_unknown rm unknown =
     unknown \<lparr> evu_bundle := remap_option (rm_bundles rm) (evu_bundle unknown),
       evu_path := remap_option (rm_paths rm) (evu_path unknown), evu_slice := remap_option (rm_slices rm) (evu_slice unknown),
       evu_edge := remap_option (rm_edges rm) (evu_edge unknown) \<rparr>"

definition remap_replay_key :: "evidence_remaps \<Rightarrow> evidence_replay_key_fact \<Rightarrow> evidence_replay_key_fact" where
  "remap_replay_key rm replay = replay \<lparr> evr_bundle := remap_required (rm_bundles rm) (evr_bundle replay) \<rparr>"

text \<open>The normal form. The result is undefined when a sort resolves a key that was never interned.\<close>

definition evidence_normalized :: "evidence_output \<Rightarrow> interner_state \<Rightarrow> evidence_output option" where
  "evidence_normalized output interner =
     Option.bind (normalize_nodes (evo_nodes output) interner) (\<lambda>nodes.
     Option.bind (normalize_omitted_regions (evo_omitted_regions output) interner) (\<lambda>regions.
     Option.bind (normalize_bundles (evo_bundles output) interner) (\<lambda>bundles.
     let rm = \<lparr> rm_nodes = position_remap evn_id nodes, rm_omitted = position_remap evm_id regions,
                rm_bundles = position_remap evb_id bundles, rm_edges = fmempty, rm_paths = fmempty, rm_slices = fmempty \<rparr> in
     Option.bind (sort_rows interner eve_stable_key edge_order
         (map (remap_edge (rm_nodes rm) \<circ> normalized_edge) (evo_edges output))) (\<lambda>edges.
     let rm = rm \<lparr> rm_edges := position_remap eve_id edges \<rparr> in
     Option.bind (sort_rows interner epf_stable_key (\<lambda>path. (epf_rank path, epf_id path))
         (map (remap_path rm \<circ> normalized_path) (evo_paths output))) (\<lambda>paths.
     let rm = rm \<lparr> rm_paths := position_remap epf_id paths \<rparr> in
     Option.bind (sort_rows interner esf_stable_key (\<lambda>slice. (evidence_query_mode_index (esf_query_mode slice), esf_id slice))
         (map (remap_slice rm \<circ> normalized_slice) (evo_slices output))) (\<lambda>slices.
     let rm = rm \<lparr> rm_slices := position_remap esf_id slices \<rparr> in
     Option.bind (sort_rows interner evu_stable_key (\<lambda>unknown. evidence_unknown_reason_index (evu_reason unknown))
         (map (remap_unknown rm \<circ> normalized_unknown) (evo_unknowns output))) (\<lambda>unknowns.
     Option.bind (sort_rows interner evr_stable_key (\<lambda>replay. evidence_query_mode_index (evr_query_mode replay))
         (map (remap_replay_key rm \<circ> normalized_replay_key) (evo_replay_keys output))) (\<lambda>replays.
       Some \<lparr> evo_nodes = renumber_rows (\<lambda>index node. node \<lparr> evn_id := index \<rparr>) nodes,
              evo_edges = renumber_rows (\<lambda>index edge. edge \<lparr> eve_id := index \<rparr>) edges,
              evo_bundles = map (remap_bundle rm) (renumber_rows (\<lambda>index bundle. bundle \<lparr> evb_id := index \<rparr>) bundles),
              evo_paths = renumber_rows (\<lambda>index path. path \<lparr> epf_id := index \<rparr>) paths,
              evo_slices = renumber_rows (\<lambda>index slice. slice \<lparr> esf_id := index \<rparr>) slices,
              evo_unknowns = unknowns,
              evo_omitted_regions = map (remap_omitted rm) (renumber_rows (\<lambda>index region. region \<lparr> evm_id := index \<rparr>) regions),
              evo_replay_keys = replays \<rparr>))))))))"

section \<open>Validation\<close>

text \<open>A computation panics when it resolves a key that was never interned; an error carries its reason.\<close>

datatype 'a checked = Panicked | InvalidFact string | Checked 'a

fun checked_bind :: "'a checked \<Rightarrow> ('a \<Rightarrow> 'b checked) \<Rightarrow> 'b checked" where
  "checked_bind Panicked f = Panicked"
| "checked_bind (InvalidFact reason) f = InvalidFact reason"
| "checked_bind (Checked x) f = f x"

fun first_repeat :: "'i fset \<Rightarrow> 'i list \<Rightarrow> 'i option" where
  "first_repeat seen [] = None"
| "first_repeat seen (i # is) = (if i |\<in>| seen then Some i else first_repeat (finsert i seen) is)"

definition reject_duplicate_ids :: "string \<Rightarrow> string \<Rightarrow> nat list \<Rightarrow> unit checked" where
  "reject_duplicate_ids type_name label row_ids =
     (case first_repeat {||} row_ids of
        None \<Rightarrow> Checked ()
      | Some i \<Rightarrow> InvalidFact (''duplicate '' @ label @ '' `'' @ type_name @ ''('' @ show_nat i @ '')`''))"

definition reject_duplicates :: "interner_state \<Rightarrow> string \<Rightarrow> stable_key_id list \<Rightarrow> unit checked" where
  "reject_duplicates interner label row_keys =
     (case first_repeat {||} row_keys of
        None \<Rightarrow> Checked ()
      | Some key \<Rightarrow>
          (case resolve interner key of
             None \<Rightarrow> Panicked | Some text \<Rightarrow> InvalidFact (''duplicate '' @ label @ '' `'' @ text @ ''`'')))"

fun check_endpoints :: "interner_state \<Rightarrow> evidence_node_id fset \<Rightarrow> evidence_edge_fact list \<Rightarrow> unit checked" where
  "check_endpoints interner nodes [] = Checked ()"
| "check_endpoints interner nodes (edge # edges) =
     (if eve_from edge |\<notin>| nodes \<or> eve_to edge |\<notin>| nodes then
        (case resolve interner (eve_stable_key edge) of
           None \<Rightarrow> Panicked
         | Some text \<Rightarrow> InvalidFact (''evidence edge `'' @ text @ ''` references missing endpoint''))
      else check_endpoints interner nodes edges)"

text \<open>A reference with the text of its owner, which is resolved before the check.\<close>

definition resolved :: "interner_state \<Rightarrow> stable_key_id \<Rightarrow> (string \<Rightarrow> 'a checked) \<Rightarrow> 'a checked" where
  "resolved interner key f = (case resolve interner key of None \<Rightarrow> Panicked | Some text \<Rightarrow> f text)"

definition require_one :: "'i \<Rightarrow> 'i fset \<Rightarrow> string \<Rightarrow> string \<Rightarrow> string \<Rightarrow> unit checked" where
  "require_one value allowed label owner_key owner_kind =
     (if value |\<in>| allowed then Checked ()
      else InvalidFact (''evidence '' @ owner_kind @ '' `'' @ owner_key @ ''` references missing '' @ label))"

definition require_option :: "'i option \<Rightarrow> 'i fset \<Rightarrow> string \<Rightarrow> string \<Rightarrow> string \<Rightarrow> unit checked" where
  "require_option value allowed label owner_key owner_kind =
     (case value of None \<Rightarrow> Checked () | Some value \<Rightarrow> require_one value allowed label owner_key owner_kind)"

text \<open>Checks of a list of rows, one after the other.\<close>

fun check_each :: "('r \<Rightarrow> unit checked) \<Rightarrow> 'r list \<Rightarrow> unit checked" where
  "check_each f [] = Checked ()"
| "check_each f (row # rows) = checked_bind (f row) (\<lambda>_. check_each f rows)"

definition require_all :: "'i list \<Rightarrow> 'i fset \<Rightarrow> string \<Rightarrow> string \<Rightarrow> string \<Rightarrow> unit checked" where
  "require_all values allowed label owner_key owner_kind =
     check_each (\<lambda>value. require_one value allowed label owner_key owner_kind) values"

text \<open>The ids of an output, per family.\<close>

record evidence_ids =
  ei_nodes :: "evidence_node_id fset"
  ei_edges :: "evidence_edge_id fset"
  ei_bundles :: "evidence_bundle_id fset"
  ei_paths :: "evidence_path_id fset"
  ei_slices :: "evidence_slice_id fset"
  ei_omitted :: "evidence_omitted_region_id fset"

definition output_ids :: "evidence_output \<Rightarrow> evidence_ids" where
  "output_ids output =
     \<lparr> ei_nodes = fset_of_list (map evn_id (evo_nodes output)), ei_edges = fset_of_list (map eve_id (evo_edges output)),
       ei_bundles = fset_of_list (map evb_id (evo_bundles output)), ei_paths = fset_of_list (map epf_id (evo_paths output)),
       ei_slices = fset_of_list (map esf_id (evo_slices output)),
       ei_omitted = fset_of_list (map evm_id (evo_omitted_regions output)) \<rparr>"

definition validate_bundle :: "interner_state \<Rightarrow> evidence_ids \<Rightarrow> evidence_bundle_fact \<Rightarrow> unit checked" where
  "validate_bundle interner allowed bundle =
     checked_bind
       (case evb_entry_node bundle of
          None \<Rightarrow> Checked ()
        | Some node \<Rightarrow>
            if node |\<in>| ei_nodes allowed then Checked ()
            else resolved interner (evb_stable_key bundle) (\<lambda>text.
              InvalidFact (''evidence bundle `'' @ text @ ''` references missing entry node''))) (\<lambda>_.
     resolved interner (evb_stable_key bundle) (\<lambda>text.
       checked_bind (require_all (evb_selected_paths bundle) (ei_paths allowed) ''path'' text ''bundle'') (\<lambda>_.
         require_all (evb_selected_slices bundle) (ei_slices allowed) ''slice'' text ''bundle'')))"

definition validate_path :: "interner_state \<Rightarrow> evidence_ids \<Rightarrow> evidence_path_fact \<Rightarrow> unit checked" where
  "validate_path interner allowed path =
     resolved interner (epf_stable_key path) (\<lambda>text.
       checked_bind (require_option (epf_bundle path) (ei_bundles allowed) ''bundle'' text ''path'') (\<lambda>_.
       checked_bind (require_all (epf_nodes path) (ei_nodes allowed) ''node'' text ''path'') (\<lambda>_.
       checked_bind (require_all (epf_edges path) (ei_edges allowed) ''edge'' text ''path'') (\<lambda>_.
         require_all (epf_omitted_regions path) (ei_omitted allowed) ''omitted region'' text ''path''))))"

definition validate_slice :: "interner_state \<Rightarrow> evidence_ids \<Rightarrow> evidence_slice_fact \<Rightarrow> unit checked" where
  "validate_slice interner allowed slice =
     resolved interner (esf_stable_key slice) (\<lambda>text.
       checked_bind (require_option (esf_bundle slice) (ei_bundles allowed) ''bundle'' text ''slice'') (\<lambda>_.
       checked_bind (require_all (esf_root_nodes slice) (ei_nodes allowed) ''root node'' text ''slice'') (\<lambda>_.
       checked_bind (require_all (esf_nodes slice) (ei_nodes allowed) ''node'' text ''slice'') (\<lambda>_.
       checked_bind (require_all (esf_edges slice) (ei_edges allowed) ''edge'' text ''slice'') (\<lambda>_.
         require_all (esf_omitted_regions slice) (ei_omitted allowed) ''omitted region'' text ''slice'')))))"

definition validate_unknown :: "interner_state \<Rightarrow> evidence_ids \<Rightarrow> evidence_unknown_fact \<Rightarrow> unit checked" where
  "validate_unknown interner allowed unknown =
     resolved interner (evu_stable_key unknown) (\<lambda>text.
       checked_bind (require_option (evu_bundle unknown) (ei_bundles allowed) ''bundle'' text ''unknown'') (\<lambda>_.
       checked_bind (require_option (evu_path unknown) (ei_paths allowed) ''path'' text ''unknown'') (\<lambda>_.
       checked_bind (require_option (evu_slice unknown) (ei_slices allowed) ''slice'' text ''unknown'') (\<lambda>_.
         require_option (evu_edge unknown) (ei_edges allowed) ''edge'' text ''unknown''))))"

definition validate_omitted :: "interner_state \<Rightarrow> evidence_ids \<Rightarrow> evidence_omitted_region_fact \<Rightarrow> unit checked" where
  "validate_omitted interner allowed region =
     resolved interner (evm_stable_key region) (\<lambda>text.
       checked_bind (require_option (evm_bundle region) (ei_bundles allowed) ''bundle'' text ''omitted'') (\<lambda>_.
       checked_bind (require_option (evm_path region) (ei_paths allowed) ''path'' text ''omitted'') (\<lambda>_.
         require_option (evm_slice region) (ei_slices allowed) ''slice'' text ''omitted'')))"

definition validate_replay_key :: "interner_state \<Rightarrow> evidence_ids \<Rightarrow> evidence_replay_key_fact \<Rightarrow> unit checked" where
  "validate_replay_key interner allowed replay =
     resolved interner (evr_stable_key replay) (\<lambda>text.
       require_one (evr_bundle replay) (ei_bundles allowed) ''bundle'' text ''replay'')"

definition validate_references :: "evidence_output \<Rightarrow> interner_state \<Rightarrow> unit checked" where
  "validate_references output interner =
     checked_bind (reject_duplicate_ids ''EvidenceNodeId'' ''evidence node id'' (map evn_id (evo_nodes output))) (\<lambda>_.
     checked_bind (reject_duplicate_ids ''EvidenceEdgeId'' ''evidence edge id'' (map eve_id (evo_edges output))) (\<lambda>_.
     checked_bind (reject_duplicate_ids ''EvidenceBundleId'' ''evidence bundle id'' (map evb_id (evo_bundles output))) (\<lambda>_.
     checked_bind (reject_duplicate_ids ''EvidencePathId'' ''evidence path id'' (map epf_id (evo_paths output))) (\<lambda>_.
     checked_bind (reject_duplicate_ids ''EvidenceSliceId'' ''evidence slice id'' (map esf_id (evo_slices output))) (\<lambda>_.
     checked_bind (reject_duplicate_ids ''EvidenceOmittedRegionId'' ''evidence omitted-region id''
         (map evm_id (evo_omitted_regions output))) (\<lambda>_.
     let allowed = output_ids output in
     checked_bind (check_endpoints interner (ei_nodes allowed) (evo_edges output)) (\<lambda>_.
     checked_bind (check_each (validate_bundle interner allowed) (evo_bundles output)) (\<lambda>_.
     checked_bind (check_each (validate_path interner allowed) (evo_paths output)) (\<lambda>_.
     checked_bind (check_each (validate_slice interner allowed) (evo_slices output)) (\<lambda>_.
     checked_bind (check_each (validate_unknown interner allowed) (evo_unknowns output)) (\<lambda>_.
     checked_bind (check_each (validate_omitted interner allowed) (evo_omitted_regions output)) (\<lambda>_.
       check_each (validate_replay_key interner allowed) (evo_replay_keys output)))))))))))))"

section \<open>The store\<close>

record evidence_store =
  evt_output :: evidence_output
  evt_interner :: interner_state
  evt_by_node_kind :: "(evidence_node_kind, nat list) fmap"
  evt_by_edge_kind :: "(evidence_edge_kind, nat list) fmap"
  evt_by_bundle :: "(evidence_bundle_id, nat list) fmap"
  evt_by_diagnostic_key :: "(stable_key_id, nat list) fmap"
  evt_by_source_key :: "(string, nat list) fmap"
  evt_by_query_mode :: "(evidence_query_mode, nat list) fmap"
  evt_by_status :: "(evidence_status, nat list) fmap"
  evt_by_provenance :: "(evidence_provenance, nat list) fmap"
  evt_by_replay_key :: "(string, nat list) fmap"
  evt_outgoing :: "(evidence_node_id, nat list) fmap"
  evt_incoming :: "(evidence_node_id, nat list) fmap"

text \<open>Some indexes collect the positions of two families, one after the other.\<close>

definition index_more :: "('r \<Rightarrow> 'k list) \<Rightarrow> 'r list \<Rightarrow> ('k, nat list) fmap \<Rightarrow> ('k, nat list) fmap" where
  "index_more keys_of rows index =
     fold (\<lambda>(position, row) m. fold (\<lambda>k. fm_push k position) (keys_of row) m) (List.enumerate 0 rows) index"

definition index_evidence :: "evidence_output \<Rightarrow> interner_state \<Rightarrow> evidence_store" where
  "index_evidence output interner =
     \<lparr> evt_output = output, evt_interner = interner,
       evt_by_node_kind = index_rows (\<lambda>node. [evn_kind node]) (evo_nodes output),
       evt_by_edge_kind = index_rows (\<lambda>edge. [eve_kind edge]) (evo_edges output),
       evt_by_bundle = index_rows (\<lambda>path. case epf_bundle path of None \<Rightarrow> [] | Some bundle \<Rightarrow> [bundle]) (evo_paths output),
       evt_by_diagnostic_key = index_rows (\<lambda>bundle. [evb_diagnostic_key bundle]) (evo_bundles output),
       evt_by_source_key = index_more eve_source_keys (evo_edges output) (index_rows evn_source_keys (evo_nodes output)),
       evt_by_query_mode = index_more (\<lambda>bundle. [evb_query_mode bundle]) (evo_bundles output)
         (index_rows (\<lambda>edge. [eve_query_mode edge]) (evo_edges output)),
       evt_by_status = index_more (\<lambda>edge. [eve_status edge]) (evo_edges output)
         (index_rows (\<lambda>node. [evn_status node]) (evo_nodes output)),
       evt_by_provenance = index_more (\<lambda>edge. [eve_provenance edge]) (evo_edges output)
         (index_rows (\<lambda>node. [evn_provenance node]) (evo_nodes output)),
       evt_by_replay_key = index_rows (\<lambda>bundle. case evb_replay_key bundle of None \<Rightarrow> [] | Some key \<Rightarrow> [key]) (evo_bundles output),
       evt_outgoing = index_rows (\<lambda>edge. [eve_from edge]) (evo_edges output),
       evt_incoming = index_rows (\<lambda>edge. [eve_to edge]) (evo_edges output) \<rparr>"

definition evidence_store_from_output :: "evidence_output \<Rightarrow> interner_state \<Rightarrow> evidence_store checked" where
  "evidence_store_from_output output interner =
     checked_bind (validate_references output interner) (\<lambda>_.
       (case evidence_normalized output interner of
          None \<Rightarrow> Panicked
        | Some output \<Rightarrow>
            checked_bind (validate_references output interner) (\<lambda>_.
            checked_bind (reject_duplicates interner ''evidence node stable key'' (map evn_stable_key (evo_nodes output))) (\<lambda>_.
            checked_bind (reject_duplicates interner ''evidence edge stable key'' (map eve_stable_key (evo_edges output))) (\<lambda>_.
            checked_bind (reject_duplicates interner ''evidence bundle stable key'' (map evb_stable_key (evo_bundles output))) (\<lambda>_.
            checked_bind (reject_duplicates interner ''evidence path stable key'' (map epf_stable_key (evo_paths output))) (\<lambda>_.
            checked_bind (reject_duplicates interner ''evidence slice stable key'' (map esf_stable_key (evo_slices output))) (\<lambda>_.
            checked_bind (reject_duplicates interner ''evidence omitted-region stable key''
                (map evm_stable_key (evo_omitted_regions output))) (\<lambda>_.
            checked_bind (reject_duplicates interner ''evidence unknown stable key'' (map evu_stable_key (evo_unknowns output))) (\<lambda>_.
            checked_bind (reject_duplicates interner ''evidence replay key stable key''
                (map evr_stable_key (evo_replay_keys output))) (\<lambda>_.
              Checked (index_evidence output interner))))))))))))"

definition evidence_node :: "evidence_store \<Rightarrow> evidence_node_id \<Rightarrow> evidence_node_fact option" where
  "evidence_node store node =
     (let nodes = evo_nodes (evt_output store) in if node < length nodes then Some (nodes ! node) else None)"

definition evidence_edge :: "evidence_store \<Rightarrow> evidence_edge_id \<Rightarrow> evidence_edge_fact option" where
  "evidence_edge store edge =
     (let edges = evo_edges (evt_output store) in if edge < length edges then Some (edges ! edge) else None)"

definition evidence_edge_refs :: "evidence_store \<Rightarrow> nat list option \<Rightarrow> evidence_edge_fact list" where
  "evidence_edge_refs store indexes =
     (case indexes of None \<Rightarrow> [] | Some indexes \<Rightarrow> map (\<lambda>index. evo_edges (evt_output store) ! index) indexes)"

definition evidence_by_edge_kind :: "evidence_store \<Rightarrow> evidence_edge_kind \<Rightarrow> evidence_edge_fact list" where
  "evidence_by_edge_kind store kind = evidence_edge_refs store (fmlookup (evt_by_edge_kind store) kind)"

definition evidence_incoming :: "evidence_store \<Rightarrow> evidence_node_id \<Rightarrow> evidence_edge_fact list" where
  "evidence_incoming store node = evidence_edge_refs store (fmlookup (evt_incoming store) node)"

definition evidence_outgoing :: "evidence_store \<Rightarrow> evidence_node_id \<Rightarrow> evidence_edge_fact list" where
  "evidence_outgoing store node = evidence_edge_refs store (fmlookup (evt_outgoing store) node)"

section \<open>Lemmas\<close>

lemma checked_bind_Checked:
  "checked_bind m f = Checked y \<longleftrightarrow> (\<exists>x. m = Checked x \<and> f x = Checked y)"
  by (cases m) auto

lemma first_repeat_None: "first_repeat seen is = None \<longleftrightarrow> distinct is \<and> set is \<inter> fset seen = {}"
  by (induction seen "is" rule: first_repeat.induct) auto

lemma check_endpoints_Checked:
  "check_endpoints interner nodes edges = Checked u \<longleftrightarrow> (\<forall>edge \<in> set edges. eve_from edge |\<in>| nodes \<and> eve_to edge |\<in>| nodes)"
  by (induction interner nodes edges rule: check_endpoints.induct) (auto split: option.splits)

lemma reject_duplicate_ids_Checked: "reject_duplicate_ids type_name label row_ids = Checked u \<longleftrightarrow> distinct row_ids"
  using first_repeat_None [of "{||}" row_ids] by (auto simp: reject_duplicate_ids_def split: option.splits)

lemma reject_duplicates_Checked: "reject_duplicates interner label row_keys = Checked u \<longleftrightarrow> distinct row_keys"
  using first_repeat_None [of "{||}" row_keys] by (auto simp: reject_duplicates_def split: option.splits)

lemma require_Checked:
  "require_one value allowed label owner_key owner_kind = Checked u \<longleftrightarrow> value |\<in>| allowed"
  "require_option v allowed label owner_key owner_kind = Checked u \<longleftrightarrow> (\<forall>value. v = Some value \<longrightarrow> value |\<in>| allowed)"
  by (auto simp: require_one_def require_option_def split: option.split)

lemma check_each_Checked: "check_each f rows = Checked u \<longleftrightarrow> (\<forall>row \<in> set rows. f row = Checked ())"
  by (induction rows) (auto simp: checked_bind_Checked)

lemma require_all_Checked:
  "require_all values allowed label owner_key owner_kind = Checked u \<longleftrightarrow> set values \<subseteq> fset allowed"
  by (auto simp: require_all_def check_each_Checked require_Checked)

lemma resolved_Checked: "resolved interner key f = Checked y \<longleftrightarrow> (\<exists>text. resolve interner key = Some text \<and> f text = Checked y)"
  by (auto simp: resolved_def split: option.split)

lemmas checked_simps = checked_bind_Checked resolved_Checked require_Checked require_all_Checked check_each_Checked

text \<open>What refers to a row of the output refers to one that exists.\<close>

definition references_valid :: "evidence_output \<Rightarrow> bool" where
  "references_valid output \<longleftrightarrow>
     (let allowed = output_ids output in
      (\<forall>edge \<in> set (evo_edges output). eve_from edge |\<in>| ei_nodes allowed \<and> eve_to edge |\<in>| ei_nodes allowed) \<and>
      (\<forall>bundle \<in> set (evo_bundles output). set_option (evb_entry_node bundle) \<subseteq> fset (ei_nodes allowed) \<and>
         set (evb_selected_paths bundle) \<subseteq> fset (ei_paths allowed) \<and> set (evb_selected_slices bundle) \<subseteq> fset (ei_slices allowed)) \<and>
      (\<forall>path \<in> set (evo_paths output). set_option (epf_bundle path) \<subseteq> fset (ei_bundles allowed) \<and>
         set (epf_nodes path) \<subseteq> fset (ei_nodes allowed) \<and> set (epf_edges path) \<subseteq> fset (ei_edges allowed) \<and>
         set (epf_omitted_regions path) \<subseteq> fset (ei_omitted allowed)) \<and>
      (\<forall>slice \<in> set (evo_slices output). set_option (esf_bundle slice) \<subseteq> fset (ei_bundles allowed) \<and>
         set (esf_root_nodes slice) \<subseteq> fset (ei_nodes allowed) \<and> set (esf_nodes slice) \<subseteq> fset (ei_nodes allowed) \<and>
         set (esf_edges slice) \<subseteq> fset (ei_edges allowed) \<and> set (esf_omitted_regions slice) \<subseteq> fset (ei_omitted allowed)) \<and>
      (\<forall>unknown \<in> set (evo_unknowns output). set_option (evu_bundle unknown) \<subseteq> fset (ei_bundles allowed) \<and>
         set_option (evu_path unknown) \<subseteq> fset (ei_paths allowed) \<and> set_option (evu_slice unknown) \<subseteq> fset (ei_slices allowed) \<and>
         set_option (evu_edge unknown) \<subseteq> fset (ei_edges allowed)) \<and>
      (\<forall>region \<in> set (evo_omitted_regions output). set_option (evm_bundle region) \<subseteq> fset (ei_bundles allowed) \<and>
         set_option (evm_path region) \<subseteq> fset (ei_paths allowed) \<and> set_option (evm_slice region) \<subseteq> fset (ei_slices allowed)) \<and>
      (\<forall>replay \<in> set (evo_replay_keys output). evr_bundle replay |\<in>| ei_bundles allowed))"

lemma validate_row:
  "validate_bundle interner allowed bundle = Checked u \<Longrightarrow> set_option (evb_entry_node bundle) \<subseteq> fset (ei_nodes allowed) \<and>
     set (evb_selected_paths bundle) \<subseteq> fset (ei_paths allowed) \<and> set (evb_selected_slices bundle) \<subseteq> fset (ei_slices allowed)"
  "validate_path interner allowed path = Checked u \<Longrightarrow> set_option (epf_bundle path) \<subseteq> fset (ei_bundles allowed) \<and>
     set (epf_nodes path) \<subseteq> fset (ei_nodes allowed) \<and> set (epf_edges path) \<subseteq> fset (ei_edges allowed) \<and>
     set (epf_omitted_regions path) \<subseteq> fset (ei_omitted allowed)"
  "validate_slice interner allowed slice = Checked u \<Longrightarrow> set_option (esf_bundle slice) \<subseteq> fset (ei_bundles allowed) \<and>
     set (esf_root_nodes slice) \<subseteq> fset (ei_nodes allowed) \<and> set (esf_nodes slice) \<subseteq> fset (ei_nodes allowed) \<and>
     set (esf_edges slice) \<subseteq> fset (ei_edges allowed) \<and> set (esf_omitted_regions slice) \<subseteq> fset (ei_omitted allowed)"
  "validate_unknown interner allowed unknown = Checked u \<Longrightarrow> set_option (evu_bundle unknown) \<subseteq> fset (ei_bundles allowed) \<and>
     set_option (evu_path unknown) \<subseteq> fset (ei_paths allowed) \<and> set_option (evu_slice unknown) \<subseteq> fset (ei_slices allowed) \<and>
     set_option (evu_edge unknown) \<subseteq> fset (ei_edges allowed)"
  "validate_omitted interner allowed region = Checked u \<Longrightarrow> set_option (evm_bundle region) \<subseteq> fset (ei_bundles allowed) \<and>
     set_option (evm_path region) \<subseteq> fset (ei_paths allowed) \<and> set_option (evm_slice region) \<subseteq> fset (ei_slices allowed)"
  "validate_replay_key interner allowed replay = Checked u \<Longrightarrow> evr_bundle replay |\<in>| ei_bundles allowed"
  by (auto simp: validate_bundle_def validate_path_def validate_slice_def validate_unknown_def validate_omitted_def
      validate_replay_key_def checked_simps split: option.splits if_splits)

lemma validate_references_Checked:
  assumes "validate_references output interner = Checked u"
  shows "distinct (map evn_id (evo_nodes output))" "distinct (map eve_id (evo_edges output))"
    and "\<forall>edge \<in> set (evo_edges output). eve_from edge \<in> evn_id ` set (evo_nodes output) \<and>
      eve_to edge \<in> evn_id ` set (evo_nodes output)"
    and "references_valid output"
proof -
  have parts: "distinct (map evn_id (evo_nodes output))" "distinct (map eve_id (evo_edges output))"
    "\<forall>edge \<in> set (evo_edges output). eve_from edge |\<in>| ei_nodes (output_ids output) \<and> eve_to edge |\<in>| ei_nodes (output_ids output)"
    "\<forall>row \<in> set (evo_bundles output). validate_bundle interner (output_ids output) row = Checked ()"
    "\<forall>row \<in> set (evo_paths output). validate_path interner (output_ids output) row = Checked ()"
    "\<forall>row \<in> set (evo_slices output). validate_slice interner (output_ids output) row = Checked ()"
    "\<forall>row \<in> set (evo_unknowns output). validate_unknown interner (output_ids output) row = Checked ()"
    "\<forall>row \<in> set (evo_omitted_regions output). validate_omitted interner (output_ids output) row = Checked ()"
    "\<forall>row \<in> set (evo_replay_keys output). validate_replay_key interner (output_ids output) row = Checked ()"
    using assms unfolding validate_references_def Let_def checked_bind_Checked reject_duplicate_ids_Checked
      check_endpoints_Checked check_each_Checked by blast+
  show "distinct (map evn_id (evo_nodes output))" "distinct (map eve_id (evo_edges output))" by (rule parts)+
  show "\<forall>edge \<in> set (evo_edges output). eve_from edge \<in> evn_id ` set (evo_nodes output) \<and>
      eve_to edge \<in> evn_id ` set (evo_nodes output)"
    using parts(3) by (simp add: output_ids_def fset_of_list.rep_eq)
  show "references_valid output"
    unfolding references_valid_def Let_def
    by (intro conjI; rule ballI;
        (erule parts(3) [THEN bspec] | rule validate_row, erule parts(4) [THEN bspec] | rule validate_row, erule parts(5) [THEN bspec]
          | rule validate_row, erule parts(6) [THEN bspec] | rule validate_row, erule parts(7) [THEN bspec]
          | rule validate_row, erule parts(8) [THEN bspec] | rule validate_row, erule parts(9) [THEN bspec]))
qed

text \<open>The two indexes list the edges of a node in the order of the rows.\<close>

lemma map_nth_filter_enumerate:
  "map ((!) rows) (concat (map (\<lambda>(i, row). if P row then [i] else []) (List.enumerate 0 rows))) = filter P rows"
proof -
  have "map ((!) rows) (concat (map (\<lambda>(i, row). if P row then [i] else []) (List.enumerate (length pre) suf))) = filter P suf"
    if "rows = pre @ suf" for pre suf
    using that
  proof (induction suf arbitrary: pre)
    case (Cons row suf)
    from Cons.IH [of "pre @ [row]"] Cons.prems show ?case by (simp add: nth_append)
  qed simp
  from this [of "[]" rows] show ?thesis by simp
qed

lemma edge_refs_index:
  assumes "evt_output store = output" "index = index_rows (\<lambda>edge. [f edge]) (evo_edges output)"
  shows "evidence_edge_refs store (fmlookup index k) = filter (\<lambda>edge. f edge = k) (evo_edges output)"
proof -
  have refs: "evidence_edge_refs store (fmlookup index k) = map ((!) (evo_edges output)) (fm_get_or [] index k)"
    using assms(1) by (simp add: evidence_edge_refs_def fm_get_or_def split: option.split)
  have eq: "(\<lambda>(i, row). replicate (count_list [f row] k) i) = (\<lambda>(i, row). if f row = k then [i] else [])"
    by (auto simp: fun_eq_iff)
  show ?thesis unfolding refs unfolding assms(2) index_rows_lookup eq by (rule map_nth_filter_enumerate)
qed

text \<open>An index has finitely many entries, so finitely many nodes are next to one.\<close>

lemma finite_adjacent: "finite (\<Union>k. g ` set (evidence_edge_refs store (fmlookup index k)))"
proof -
  let ?rows = "\<lambda>k. g ` set (evidence_edge_refs store (fmlookup index k))"
  have "?rows k \<subseteq> (\<Union>k \<in> fset (fmdom index). ?rows k)" for k
  proof (cases "fmlookup index k")
    case (Some indexes)
    then have "k \<in> fset (fmdom index)" by (rule fmdomI)
    then show ?thesis by (rule UN_upper)
  qed (simp add: evidence_edge_refs_def)
  then have "(\<Union>k. ?rows k) \<subseteq> (\<Union>k \<in> fset (fmdom index). ?rows k)" by (intro UN_least)
  then show ?thesis by (rule finite_subset) simp
qed

text \<open>The invariant of a store.\<close>

definition evidence_store_ok :: "evidence_store \<Rightarrow> bool" where
  "evidence_store_ok store \<longleftrightarrow>
     (let nodes = evo_nodes (evt_output store); edges = evo_edges (evt_output store) in
      (\<forall>i < length nodes. evn_id (nodes ! i) = i) \<and> (\<forall>i < length edges. eve_id (edges ! i) = i) \<and>
      (\<forall>edge \<in> set edges. eve_from edge < length nodes \<and> eve_to edge < length nodes) \<and>
      (\<forall>node. evidence_outgoing store node = filter (\<lambda>edge. eve_from edge = node) edges) \<and>
      (\<forall>node. evidence_incoming store node = filter (\<lambda>edge. eve_to edge = node) edges))"

lemma ok_adjacent:
  assumes "evidence_store_ok store"
  shows "edge \<in> set (evidence_outgoing store node) \<longleftrightarrow> edge \<in> set (evo_edges (evt_output store)) \<and> eve_from edge = node"
    and "edge \<in> set (evidence_incoming store node) \<longleftrightarrow> edge \<in> set (evo_edges (evt_output store)) \<and> eve_to edge = node"
  using assms by (auto simp: evidence_store_ok_def Let_def)

lemma ok_edge:
  assumes "evidence_store_ok store"
  shows "edge \<in> set (evo_edges (evt_output store)) \<longleftrightarrow> evidence_edge store (eve_id edge) = Some edge"
  using assms by (auto simp: evidence_store_ok_def evidence_edge_def Let_def in_set_conv_nth)

lemma ok_edge_id: "evidence_store_ok store \<Longrightarrow> evidence_edge store i = Some edge \<Longrightarrow> eve_id edge = i"
  by (auto simp: evidence_store_ok_def evidence_edge_def Let_def split: if_splits)

section \<open>What a store keeps\<close>

text \<open>An edge with its ends, by the keys of the rows.\<close>

definition edge_ends :: "evidence_output \<Rightarrow> (stable_key_id \<times> stable_key_id \<times> stable_key_id) set" where
  "edge_ends output =
     {(eve_stable_key edge, evn_stable_key f, evn_stable_key t) | edge f t.
        edge \<in> set (evo_edges output) \<and> f \<in> set (evo_nodes output) \<and> t \<in> set (evo_nodes output) \<and>
        eve_from edge = evn_id f \<and> eve_to edge = evn_id t}"

lemma position_remap_nth:
  assumes "distinct (map id_of rows)" "i < length rows"
  shows "fmlookup (position_remap id_of rows) (id_of (rows ! i)) = Some i"
proof -
  let ?ps = "map (\<lambda>(index, row). (id_of row, index)) (List.enumerate 0 rows)"
  have "map fst ?ps = map id_of rows"
    by (rule nth_equalityI) (simp_all add: nth_enumerate_eq)
  then have "distinct (map fst ?ps)" using assms(1) by simp
  moreover have "(id_of (rows ! i), i) \<in> set ?ps" using assms(2) by (force simp: in_set_enumerate_eq)
  ultimately show ?thesis by (simp add: position_remap_def lookup_fm_collect_distinct)
qed

lemma remap_ends:
  assumes "E' = (\<lambda>(k, f, t). (k, r f, r t)) ` E"
    and "\<And>k f t. (k, f, t) \<in> E \<Longrightarrow> f \<in> I \<and> t \<in> I"
    and "\<And>f kf. f \<in> I \<Longrightarrow> (r f, kf) \<in> N' \<longleftrightarrow> (f, kf) \<in> N"
  shows "{(k, kf, kt). \<exists>f t. (k, f, t) \<in> E' \<and> (f, kf) \<in> N' \<and> (t, kt) \<in> N'} =
    {(k, kf, kt). \<exists>f t. (k, f, t) \<in> E \<and> (f, kf) \<in> N \<and> (t, kt) \<in> N}"
proof (intro set_eqI, clarify)
  fix k kf kt
  have "(\<exists>f t. (k, f, t) \<in> E' \<and> (f, kf) \<in> N' \<and> (t, kt) \<in> N') \<longleftrightarrow>
      (\<exists>f t. (k, f, t) \<in> E \<and> (r f, kf) \<in> N' \<and> (r t, kt) \<in> N')" unfolding assms(1) by force
  also have "\<dots> \<longleftrightarrow> (\<exists>f t. (k, f, t) \<in> E \<and> (f, kf) \<in> N \<and> (t, kt) \<in> N)"
    by (intro iff_exI conj_cong refl) (simp_all add: assms(2,3))
  finally show "((k, kf, kt) \<in> {(k, kf, kt). \<exists>f t. (k, f, t) \<in> E' \<and> (f, kf) \<in> N' \<and> (t, kt) \<in> N'}) =
      ((k, kf, kt) \<in> {(k, kf, kt). \<exists>f t. (k, f, t) \<in> E \<and> (f, kf) \<in> N \<and> (t, kt) \<in> N})" by simp
qed

lemma normalized_parts:
  assumes run: "evidence_normalized output interner = Some normal"
    and distinct: "distinct (map evn_id (evo_nodes output))"
    and ends: "\<forall>edge \<in> set (evo_edges output). eve_from edge \<in> evn_id ` set (evo_nodes output) \<and>
      eve_to edge \<in> evn_id ` set (evo_nodes output)"
  shows "edge_ends normal = edge_ends output"
    and "i < length (evo_nodes normal) \<Longrightarrow> evn_id (evo_nodes normal ! i) = i"
    and "i < length (evo_edges normal) \<Longrightarrow> eve_id (evo_edges normal ! i) = i"
proof -
  obtain nodes edges where nodes: "normalize_nodes (evo_nodes output) interner = Some nodes"
    and edges: "sort_rows interner eve_stable_key edge_order
      (map (remap_edge (position_remap evn_id nodes) \<circ> normalized_edge) (evo_edges output)) = Some edges"
    and normal: "evo_nodes normal = renumber_rows (\<lambda>index node. node \<lparr> evn_id := index \<rparr>) nodes"
      "evo_edges normal = renumber_rows (\<lambda>index edge. edge \<lparr> eve_id := index \<rparr>) edges"
    using run by (auto simp: evidence_normalized_def Let_def bind_eq_Some_conv)
  show "i < length (evo_nodes normal) \<Longrightarrow> evn_id (evo_nodes normal ! i) = i" by (simp add: normal)
  show "i < length (evo_edges normal) \<Longrightarrow> eve_id (evo_edges normal ! i) = i" by (simp add: normal)
  have mset: "mset nodes = mset (map normalized_node (evo_nodes output))"
    using nodes unfolding normalize_nodes_def by (rule mset_sort_rows)
  have same: "map evn_id (map normalized_node rows) = map evn_id rows" for rows
    by (simp add: normalized_node_def comp_def)
  have "mset (map evn_id nodes) = mset (map evn_id (evo_nodes output))"
    using arg_cong [OF mset, of "image_mset evn_id"] by (simp add: normalized_node_def comp_def image_mset.compositionality)
  then have dist: "distinct (map evn_id nodes)" using distinct mset_eq_imp_distinct_iff by blast
  let ?row = "\<lambda>node. (evn_id node, evn_stable_key node)" and ?ends = "\<lambda>edge. (eve_stable_key edge, eve_from edge, eve_to edge)"
  let ?r = "remap_required (position_remap evn_id nodes)"
  have N: "?row ` set nodes = ?row ` set (evo_nodes output)"
    using mset_eq_setD [OF mset] by (simp add: image_image normalized_node_def)
  have N': "?row ` set (evo_nodes normal) = {(i, evn_stable_key (nodes ! i)) | i. i < length nodes}"
    unfolding normal set_renumber_rows by (simp add: setcompr_eq_image image_image)
  have E': "?ends ` set (evo_edges normal) = (\<lambda>(k, f, t). (k, ?r f, ?r t)) ` ?ends ` set (evo_edges output)"
  proof -
    have "?ends ` set (evo_edges normal) = ?ends ` set edges"
      unfolding normal set_renumber_rows set_conv_nth [of edges] by (simp add: setcompr_eq_image image_image)
    also have "\<dots> = (\<lambda>(k, f, t). (k, ?r f, ?r t)) ` ?ends ` set (evo_edges output)"
      unfolding set_sort_rows [OF edges] by (simp add: image_image remap_edge_def normalized_edge_def)
    finally show ?thesis .
  qed
  have key: "(?r f, kf) \<in> ?row ` set (evo_nodes normal) \<longleftrightarrow> (f, kf) \<in> ?row ` set (evo_nodes output)"
    if "f \<in> evn_id ` set (evo_nodes output)" for f kf
  proof -
    have "f \<in> fst ` ?row ` set nodes" using that unfolding N by force
    then obtain i where i: "i < length nodes" "evn_id (nodes ! i) = f" by (auto simp: in_set_conv_nth)
    then have "?r f = i" using position_remap_nth [OF dist i(1)] by (simp add: remap_required_def)
    moreover have only: "node = nodes ! i" if "node \<in> set nodes" "evn_id node = f" for node
      using dist that i nth_mem [OF i(1)] unfolding distinct_map inj_on_def by blast
    have "(f, kf) \<in> ?row ` set nodes \<longleftrightarrow> kf = evn_stable_key (nodes ! i)"
    proof
      assume "(f, kf) \<in> ?row ` set nodes"
      then obtain node where "node \<in> set nodes" "f = evn_id node" "kf = evn_stable_key node" by blast
      then show "kf = evn_stable_key (nodes ! i)" using only by simp
    next
      assume "kf = evn_stable_key (nodes ! i)"
      then show "(f, kf) \<in> ?row ` set nodes"
        by (intro image_eqI [OF _ nth_mem [OF i(1)]]) (simp add: i(2))
    qed
    ultimately show ?thesis unfolding N [symmetric] N' using i(1) by auto
  qed
  have ends': "f \<in> evn_id ` set (evo_nodes output) \<and> t \<in> evn_id ` set (evo_nodes output)"
    if "(k, f, t) \<in> ?ends ` set (evo_edges output)" for k f t
    using that ends by auto
  have meaning: "edge_ends out = {(k, kf, kt). \<exists>f t. (k, f, t) \<in> ?ends ` set (evo_edges out) \<and>
      (f, kf) \<in> ?row ` set (evo_nodes out) \<and> (t, kt) \<in> ?row ` set (evo_nodes out)}" for out
    unfolding edge_ends_def by force
  show "edge_ends normal = edge_ends output" unfolding meaning
    by (rule remap_ends [OF E', of "evn_id ` set (evo_nodes output)"]) (erule ends', erule key)
qed

lemma index_evidence_ok:
  assumes "\<And>i. i < length (evo_nodes output) \<Longrightarrow> evn_id (evo_nodes output ! i) = i"
    and "\<And>i. i < length (evo_edges output) \<Longrightarrow> eve_id (evo_edges output ! i) = i"
    and "\<forall>edge \<in> set (evo_edges output). eve_from edge \<in> evn_id ` set (evo_nodes output) \<and>
      eve_to edge \<in> evn_id ` set (evo_nodes output)"
  shows "evidence_store_ok (index_evidence output interner)"
proof -
  have ids: "i \<in> evn_id ` set (evo_nodes output) \<Longrightarrow> i < length (evo_nodes output)" for i
    using assms(1) by (auto simp: in_set_conv_nth)
  have out: "evt_output (index_evidence output interner) = output" by (simp add: index_evidence_def)
  have adjacent: "evidence_outgoing (index_evidence output interner) node = filter (\<lambda>edge. eve_from edge = node) (evo_edges output)"
    "evidence_incoming (index_evidence output interner) node = filter (\<lambda>edge. eve_to edge = node) (evo_edges output)" for node
    using edge_refs_index [OF out refl, of eve_from node] edge_refs_index [OF out refl, of eve_to node]
    by (simp_all add: evidence_outgoing_def evidence_incoming_def index_evidence_def)
  show ?thesis
    unfolding evidence_store_ok_def Let_def adjacent using assms ids by (simp add: index_evidence_def)
qed

lemma from_output_ok:
  assumes "evidence_store_from_output output interner = Checked store"
  shows "evidence_store_ok store" "references_valid (evt_output store)" "edge_ends (evt_output store) = edge_ends output"
proof -
  obtain normal where valid: "validate_references output interner = Checked ()" "validate_references normal interner = Checked ()"
    and normal: "evidence_normalized output interner = Some normal" and store: "store = index_evidence normal interner"
    using assms by (auto simp: evidence_store_from_output_def checked_bind_Checked split: option.splits)
  note old = validate_references_Checked [OF valid(1)] and new = validate_references_Checked [OF valid(2)]
  note parts = normalized_parts [OF normal old(1,3)]
  show "evidence_store_ok store" unfolding store by (rule index_evidence_ok [OF parts(2,3) new(3)])
  have "evt_output store = normal" by (simp add: store index_evidence_def)
  then show "references_valid (evt_output store)" "edge_ends (evt_output store) = edge_ends output" using new(4) parts(1) by simp_all
qed


end
