(* ===== verification/Evidence_Summary.thy ===== *)
theory Evidence_Summary
  imports Evidence_Store "HOL-Library.Sublist"
begin

text \<open>
  The compressed steps of \<open>slicing/paths.rs\<close>: an edge that stands for a summary is shown as one step with the callable
  and the domain that its source keys name.
\<close>

record summary_step =
  sst_edge :: evidence_edge_id
  sst_text :: string
  sst_summary_text :: string
  sst_callable_text :: "string option"
  sst_domain :: "string option"
  sst_input :: evidence_node_id
  sst_output :: evidence_node_id
  sst_status :: evidence_status
  sst_precision :: evidence_precision
  sst_provenance :: evidence_provenance
  sst_expansion :: evidence_expansion

definition is_callable_key :: "string \<Rightarrow> bool" where
  "is_callable_key key \<longleftrightarrow>
     prefix ''callable:'' key \<or> sublist ''Function'' key \<or> sublist ''CallTarget'' key \<or> sublist ''RefinedCallEdge'' key"

definition summary_domain_from_key :: "string \<Rightarrow> string option" where
  "summary_domain_from_key key =
     (if sublist ''data_flow_tito'' key \<or> sublist ''SummaryTito'' key then Some ''data_flow_tito''
      else if sublist ''control_effects'' key \<or> sublist ''SummaryControl'' key then Some ''control_effects''
      else if sublist ''call_effects'' key \<or> sublist ''SummaryCall'' key then Some ''call_effects''
      else if sublist ''memory_effects'' key \<or> sublist ''SummaryMemory'' key then Some ''memory_effects''
      else None)"

fun find_some :: "('a \<Rightarrow> 'b option) \<Rightarrow> 'a list \<Rightarrow> 'b option" where
  "find_some f [] = None"
| "find_some f (x # xs) = (case f x of Some y \<Rightarrow> Some y | None \<Rightarrow> find_some f xs)"

definition compressed_step_for_edge :: "evidence_store \<Rightarrow> evidence_edge_id \<Rightarrow> summary_step option" where
  "compressed_step_for_edge store edge_id =
     Option.bind (evidence_edge store edge_id) (\<lambda>edge.
     Option.bind (eve_summary_key edge) (\<lambda>summary_key.
       if eve_kind edge \<noteq> Eve_Summary \<and> eve_expansion edge = Evx_None then None
       else Some
         \<lparr> sst_edge = eve_id edge, sst_text = key_text (evt_interner store) (eve_stable_key edge), sst_summary_text = summary_key,
           sst_callable_text = List.find is_callable_key (eve_source_keys edge),
           sst_domain = (case find_some summary_domain_from_key (eve_source_keys edge) of
               Some domain \<Rightarrow> Some domain
             | None \<Rightarrow> Option.bind (eve_compact_label edge) summary_domain_from_key),
           sst_input = eve_from edge, sst_output = eve_to edge, sst_status = eve_status edge,
           sst_precision = eve_precision edge, sst_provenance = eve_provenance edge, sst_expansion = eve_expansion edge \<rparr>))"

definition compressed_steps :: "evidence_store \<Rightarrow> summary_step list" where
  "compressed_steps store =
     sort_key sst_text (List.map_filter (\<lambda>edge. compressed_step_for_edge store (eve_id edge)) (evo_edges (evt_output store)))"

text \<open>The steps are those of the edges with a summary that are summaries or can be expanded, with the ends of the edge.\<close>

lemma compressed_steps_edges:
  assumes "evidence_store_ok store"
  shows "(\<lambda>step. (sst_edge step, sst_input step, sst_output step)) ` set (compressed_steps store) =
    {(eve_id edge, eve_from edge, eve_to edge) | edge. edge \<in> set (evo_edges (evt_output store)) \<and>
       eve_summary_key edge \<noteq> None \<and> (eve_kind edge = Eve_Summary \<or> eve_expansion edge \<noteq> Evx_None)}"
proof -
  have step: "compressed_step_for_edge store (eve_id edge) = Some step \<Longrightarrow>
      sst_edge step = eve_id edge \<and> sst_input step = eve_from edge \<and> sst_output step = eve_to edge"
    and some: "(\<exists>step. compressed_step_for_edge store (eve_id edge) = Some step) \<longleftrightarrow>
      eve_summary_key edge \<noteq> None \<and> (eve_kind edge = Eve_Summary \<or> eve_expansion edge \<noteq> Evx_None)"
    if "edge \<in> set (evo_edges (evt_output store))" for edge step
    using iffD1 [OF ok_edge [OF assms] that]
    by (auto simp: compressed_step_for_edge_def bind_eq_Some_conv split: if_splits)
  show ?thesis
  proof (intro set_eqI iffI)
    fix x assume "x \<in> (\<lambda>step. (sst_edge step, sst_input step, sst_output step)) ` set (compressed_steps store)"
    then obtain step edge where "x = (sst_edge step, sst_input step, sst_output step)" "edge \<in> set (evo_edges (evt_output store))"
      "compressed_step_for_edge store (eve_id edge) = Some step"
      by (auto simp: compressed_steps_def set_map_filter_iff)
    then show "x \<in> {(eve_id edge, eve_from edge, eve_to edge) | edge. edge \<in> set (evo_edges (evt_output store)) \<and>
       eve_summary_key edge \<noteq> None \<and> (eve_kind edge = Eve_Summary \<or> eve_expansion edge \<noteq> Evx_None)}"
      using step some by blast
  next
    fix x assume "x \<in> {(eve_id edge, eve_from edge, eve_to edge) | edge. edge \<in> set (evo_edges (evt_output store)) \<and>
       eve_summary_key edge \<noteq> None \<and> (eve_kind edge = Eve_Summary \<or> eve_expansion edge \<noteq> Evx_None)}"
    then obtain edge where edge: "x = (eve_id edge, eve_from edge, eve_to edge)" "edge \<in> set (evo_edges (evt_output store))"
      "eve_summary_key edge \<noteq> None \<and> (eve_kind edge = Eve_Summary \<or> eve_expansion edge \<noteq> Evx_None)" by blast
    then obtain s where s: "compressed_step_for_edge store (eve_id edge) = Some s" using some by blast
    have "s \<in> set (compressed_steps store)" using s edge(2) by (auto simp: compressed_steps_def set_map_filter_iff)
    moreover have "x = (sst_edge s, sst_input s, sst_output s)" using step [OF edge(2) s] edge(1) by simp
    ultimately show "x \<in> (\<lambda>step. (sst_edge step, sst_input step, sst_output step)) ` set (compressed_steps store)" by blast
  qed
qed

end
