(* ===== verification/Slice_Local.thy ===== *)
theory Slice_Local
  imports Evidence_Store
begin

text \<open>
  \<open>local_slice\<close> of \<open>analysis_neutral/slicing/local.rs\<close>: a breadth-first walk over the evidence graph from a root,
  backward or forward, with a filter on edge kinds and limits on nodes, edges and depth. A slice lies in
  what the filter lets the root reach and within its limits; without an omission at a limit it is all of
  that.
\<close>

section \<open>Queries and results\<close>

datatype slice_direction = Slice_Backward | Slice_Forward

datatype slice_mode = Slice_ThinBackward | Slice_FullBackward | Slice_FullLocal | Slice_ForwardImpact

datatype edge_filter = Filter_Thin | Filter_FullLocal

record slice_budget =
  sb_max_nodes :: nat
  sb_max_edges :: nat
  sb_max_depth :: nat

definition slice_budget_default :: slice_budget where
  "slice_budget_default = \<lparr> sb_max_nodes = 64, sb_max_edges = 96, sb_max_depth = 32 \<rparr>"

record slice_query =
  sq_root :: evidence_node_id
  sq_direction :: slice_direction
  sq_mode :: slice_mode
  sq_edge_filter :: edge_filter
  sq_budget :: slice_budget

datatype slice_omitted_reason = Slice_NodeLimit | Slice_EdgeLimit | Slice_DepthLimit | Slice_FilteredEdges

record slice_omitted_region =
  so_reason :: slice_omitted_reason
  so_hidden_node_count :: nat
  so_hidden_edge_count :: nat

record slice_stats =
  visited_nodes :: nat
  visited_edges :: nat
  filtered_edges :: nat
  max_depth_reached :: nat

record slice_result =
  slr_nodes :: "evidence_node_id list"
  slr_edges :: "evidence_edge_id list"
  slr_omitted_regions :: "slice_omitted_region list"
  slr_unknown_edges :: "evidence_edge_id list"
  slr_status :: evidence_status
  slr_precision :: evidence_precision
  slr_stats :: slice_stats

definition slice_query_mode :: "slice_mode \<Rightarrow> evidence_query_mode" where
  "slice_query_mode mode =
     (case mode of Slice_ThinBackward \<Rightarrow> Evq_ThinBackward | Slice_FullBackward \<Rightarrow> Evq_FullBackward
      | Slice_FullLocal \<Rightarrow> Evq_FullBackward | Slice_ForwardImpact \<Rightarrow> Evq_ForwardImpact)"

definition candidate_edges :: "evidence_store \<Rightarrow> evidence_node_id \<Rightarrow> slice_direction \<Rightarrow> evidence_edge_fact list" where
  "candidate_edges store node direction =
     (case direction of Slice_Backward \<Rightarrow> evidence_incoming store node | Slice_Forward \<Rightarrow> evidence_outgoing store node)"

definition next_node :: "evidence_edge_fact \<Rightarrow> slice_direction \<Rightarrow> evidence_node_id" where
  "next_node edge direction = (case direction of Slice_Backward \<Rightarrow> eve_from edge | Slice_Forward \<Rightarrow> eve_to edge)"

definition edge_allowed :: "evidence_edge_kind \<Rightarrow> edge_filter \<Rightarrow> bool" where
  "edge_allowed kind edge_filter =
     (case edge_filter of
        Filter_Thin \<Rightarrow> kind \<in> {Eve_DataValue, Eve_Summary, Eve_Model}
      | Filter_FullLocal \<Rightarrow>
          kind \<in> {Eve_DataValue, Eve_DataTaint, Eve_DataAddress, Eve_Control, Eve_Call, Eve_Return, Eve_ParameterIn,
            Eve_ParameterOut, Eve_Summary, Eve_Model, Eve_Alias, Eve_Unknown})"

section \<open>The walk\<close>

record slice_search =
  ss_nodes :: "evidence_node_id fset"
  ss_edges :: "evidence_edge_id fset"
  ss_unknown :: "evidence_edge_id fset"
  ss_omitted :: "slice_omitted_region list"
  ss_queue :: "(evidence_node_id \<times> nat) list"
  ss_filtered :: nat
  ss_depth_hit :: bool

definition omit_region :: "slice_omitted_reason \<Rightarrow> nat \<Rightarrow> nat \<Rightarrow> slice_search \<Rightarrow> slice_search" where
  "omit_region reason hidden_nodes hidden_edges st =
     st \<lparr> ss_omitted := ss_omitted st @
       [\<lparr> so_reason = reason, so_hidden_node_count = hidden_nodes, so_hidden_edge_count = hidden_edges \<rparr>] \<rparr>"

definition uncertain_edge :: "evidence_edge_fact \<Rightarrow> bool" where
  "uncertain_edge edge \<longleftrightarrow> eve_kind edge = Eve_Unknown \<or> eve_status edge \<noteq> Evs_Present"

definition slice_edge :: "slice_query \<Rightarrow> nat \<Rightarrow> evidence_edge_fact \<Rightarrow> slice_search \<Rightarrow> slice_search" where
  "slice_edge query depth edge st =
     (if \<not> edge_allowed (eve_kind edge) (sq_edge_filter query) then st \<lparr> ss_filtered := ss_filtered st + 1 \<rparr>
      else if fcard (ss_edges st) \<ge> sb_max_edges (sq_budget query) then omit_region Slice_EdgeLimit 0 1 st
      else
        (let target = next_node edge (sq_direction query); fresh = (target |\<notin>| ss_nodes st) in
         if fresh \<and> fcard (ss_nodes st) \<ge> sb_max_nodes (sq_budget query) then omit_region Slice_NodeLimit 1 0 st
         else
           (let st = (if fresh then st \<lparr> ss_nodes := finsert target (ss_nodes st),
                        ss_queue := ss_queue st @ [(target, depth + 1)] \<rparr> else st)
            in st \<lparr> ss_edges := finsert (eve_id edge) (ss_edges st),
                 ss_unknown := (if uncertain_edge edge then finsert (eve_id edge) (ss_unknown st) else ss_unknown st) \<rparr>)))"

definition slice_node ::
  "evidence_store \<Rightarrow> slice_query \<Rightarrow> evidence_node_id \<Rightarrow> nat \<Rightarrow> slice_search \<Rightarrow> slice_search" where
  "slice_node store query node depth st =
     (let edges = candidate_edges store node (sq_direction query) in
      if depth \<ge> sb_max_depth (sq_budget query) then
        st \<lparr> ss_depth_hit := (ss_depth_hit st \<or>
          list_ex (\<lambda>edge. next_node edge (sq_direction query) |\<notin>| ss_nodes st) edges) \<rparr>
      else fold (slice_edge query depth) edges st)"

text \<open>The loop ends: a node enters the queue only when it enters the set of nodes.\<close>

definition slice_targets :: "evidence_store \<Rightarrow> slice_query \<Rightarrow> evidence_node_id set" where
  "slice_targets store query =
     (\<Union>node. (\<lambda>edge. next_node edge (sq_direction query)) ` set (candidate_edges store node (sq_direction query)))"

lemma finite_slice_targets [simp]: "finite (slice_targets store query)"
  using finite_adjacent
  by (cases "sq_direction query") (simp_all add: slice_targets_def candidate_edges_def evidence_incoming_def evidence_outgoing_def)

text \<open>What a step over some edges of a node adds.\<close>

lemma slice_edge_grows:
  "\<exists>new. ss_queue (slice_edge query depth edge st) = ss_queue st @ new \<and>
     ss_nodes (slice_edge query depth edge st) = ss_nodes st |\<union>| fset_of_list (map fst new) \<and>
     (\<forall>p \<in> set new. fst p |\<notin>| ss_nodes st \<and> fst p = next_node edge (sq_direction query) \<and> snd p = depth + 1)"
  by (auto simp: slice_edge_def omit_region_def Let_def)

lemma slice_fold_grows:
  "\<exists>new. ss_queue (fold (slice_edge query depth) edges st) = ss_queue st @ new \<and>
     ss_nodes (fold (slice_edge query depth) edges st) = ss_nodes st |\<union>| fset_of_list (map fst new) \<and>
     (\<forall>p \<in> set new. fst p |\<notin>| ss_nodes st \<and> fst p \<in> (\<lambda>edge. next_node edge (sq_direction query)) ` set edges)"
proof (induction edges arbitrary: st)
  case (Cons edge edges)
  obtain new where new: "ss_queue (slice_edge query depth edge st) = ss_queue st @ new"
    "ss_nodes (slice_edge query depth edge st) = ss_nodes st |\<union>| fset_of_list (map fst new)"
    "\<forall>p \<in> set new. fst p |\<notin>| ss_nodes st \<and> fst p = next_node edge (sq_direction query) \<and> snd p = depth + 1"
    using slice_edge_grows by blast
  obtain more where more: "ss_queue (fold (slice_edge query depth) edges (slice_edge query depth edge st)) =
      ss_queue (slice_edge query depth edge st) @ more"
    "ss_nodes (fold (slice_edge query depth) edges (slice_edge query depth edge st)) =
      ss_nodes (slice_edge query depth edge st) |\<union>| fset_of_list (map fst more)"
    "\<forall>p \<in> set more. fst p |\<notin>| ss_nodes (slice_edge query depth edge st) \<and>
      fst p \<in> (\<lambda>edge. next_node edge (sq_direction query)) ` set edges"
    using Cons.IH by blast
  show ?case
    by (rule exI [of _ "new @ more"]) (use new more in \<open>auto simp: funion_assoc\<close>)
qed simp

lemma slice_node_decreases:
  assumes "st' = slice_node store query node depth (st \<lparr> ss_queue := queue \<rparr>)"
  shows "card (slice_targets store query - fset (ss_nodes st')) < card (slice_targets store query - fset (ss_nodes st)) \<or>
    ss_nodes st' = ss_nodes st \<and> ss_queue st' = queue"
proof (cases "depth \<ge> sb_max_depth (sq_budget query)")
  case True
  then show ?thesis by (simp add: assms slice_node_def Let_def)
next
  case False
  let ?edges = "candidate_edges store node (sq_direction query)"
  have st': "st' = fold (slice_edge query depth) ?edges (st \<lparr> ss_queue := queue \<rparr>)"
    using False by (simp add: assms slice_node_def Let_def)
  obtain new where new: "ss_queue st' = queue @ new" "ss_nodes st' = ss_nodes st |\<union>| fset_of_list (map fst new)"
    "\<forall>p \<in> set new. fst p |\<notin>| ss_nodes st \<and> fst p \<in> (\<lambda>edge. next_node edge (sq_direction query)) ` set ?edges"
    using slice_fold_grows [of query depth ?edges "st \<lparr> ss_queue := queue \<rparr>"] unfolding st' by auto
  show ?thesis
  proof (cases new)
    case Nil
    with new show ?thesis by simp
  next
    case (Cons p more)
    then have "fst p \<in> slice_targets store query" "fst p |\<notin>| ss_nodes st" "fst p |\<in>| ss_nodes st'"
      using new by (auto simp: slice_targets_def)
    then have "slice_targets store query - fset (ss_nodes st') \<subset> slice_targets store query - fset (ss_nodes st)"
      using new(2) by (auto simp: sup_fset.rep_eq)
    then show ?thesis by (simp add: psubset_card_mono)
  qed
qed

function slice_loop :: "evidence_store \<Rightarrow> slice_query \<Rightarrow> slice_search \<Rightarrow> slice_search" where
  "slice_loop store query st =
     (case ss_queue st of
        [] \<Rightarrow> st
      | (node, depth) # queue \<Rightarrow> slice_loop store query (slice_node store query node depth (st \<lparr> ss_queue := queue \<rparr>)))"
  by pat_completeness auto

termination
proof (relation "inv_image (less_than <*lex*> less_than)
    (\<lambda>(store, query, st). (card (slice_targets store query - fset (ss_nodes st)), length (ss_queue st)))", goal_cases)
  case (2 store query st p queue node depth)
  then show ?case
    using slice_node_decreases [where store = store and query = query and node = node and depth = depth and st = st
        and queue = queue, OF refl] by auto
qed auto

declare slice_loop.simps [simp del]

definition slice_start :: "slice_query \<Rightarrow> slice_search" where
  "slice_start query =
     \<lparr> ss_nodes = {|sq_root query|}, ss_edges = {||}, ss_unknown = {||}, ss_omitted = [],
       ss_queue = [(sq_root query, 0)], ss_filtered = 0, ss_depth_hit = False \<rparr>"

definition slice_finish :: "slice_query \<Rightarrow> slice_search \<Rightarrow> slice_result" where
  "slice_finish query st =
     (let st = (if ss_filtered st > 0 \<and> sq_edge_filter query = Filter_Thin
                then omit_region Slice_FilteredEdges 0 (ss_filtered st mod 2 ^ 32) st else st);
          st = (if ss_depth_hit st then omit_region Slice_DepthLimit 0 1 st else st);
          status = (if ss_omitted st \<noteq> [] then Evs_Partial
                    else if ss_unknown st \<noteq> {||} then Evs_Unknown else Evs_Present);
          precision = (case sq_edge_filter query of Filter_Thin \<Rightarrow> Evp_Syntax | Filter_FullLocal \<Rightarrow> Evp_Conservative);
          nodes = bt_elems (ss_nodes st); edges = bt_elems (ss_edges st)
      in \<lparr> slr_nodes = nodes, slr_edges = edges, slr_omitted_regions = ss_omitted st,
           slr_unknown_edges = bt_elems (ss_unknown st), slr_status = status, slr_precision = precision,
           slr_stats = \<lparr> visited_nodes = length nodes, visited_edges = length edges, filtered_edges = ss_filtered st,
             max_depth_reached = sb_max_depth (sq_budget query) \<rparr> \<rparr>)"

definition local_slice :: "evidence_store \<Rightarrow> slice_query \<Rightarrow> slice_result" where
  "local_slice store query = slice_finish query (slice_loop store query (slice_start query))"

section \<open>The invariant of the walk\<close>

text \<open>An edge that the filter lets through from a node, and the step it allows.\<close>

definition slice_link :: "evidence_store \<Rightarrow> slice_query \<Rightarrow> evidence_node_id \<Rightarrow> evidence_edge_fact \<Rightarrow> bool" where
  "slice_link store query node edge \<longleftrightarrow>
     edge \<in> set (candidate_edges store node (sq_direction query)) \<and> edge_allowed (eve_kind edge) (sq_edge_filter query)"

definition slice_step :: "evidence_store \<Rightarrow> slice_query \<Rightarrow> evidence_node_id \<Rightarrow> evidence_node_id \<Rightarrow> bool" where
  "slice_step store query a b \<longleftrightarrow> (\<exists>edge. slice_link store query a edge \<and> next_node edge (sq_direction query) = b)"

definition slice_reaches :: "evidence_store \<Rightarrow> slice_query \<Rightarrow> evidence_node_id \<Rightarrow> bool" where
  "slice_reaches store query = (slice_step store query)\<^sup>*\<^sup>* (sq_root query)"

definition slice_inv :: "evidence_store \<Rightarrow> slice_query \<Rightarrow> slice_search \<Rightarrow> bool" where
  "slice_inv store query st \<longleftrightarrow>
     sq_root query |\<in>| ss_nodes st \<and> (\<forall>n. n |\<in>| ss_nodes st \<longrightarrow> slice_reaches store query n) \<and>
     (\<forall>p \<in> set (ss_queue st). fst p |\<in>| ss_nodes st \<and> snd p < fcard (ss_nodes st)) \<and>
     (\<forall>i. i |\<in>| ss_edges st \<longrightarrow> (\<exists>n edge. n |\<in>| ss_nodes st \<and> slice_link store query n edge \<and> eve_id edge = i \<and>
        next_node edge (sq_direction query) |\<in>| ss_nodes st \<and> (i |\<in>| ss_unknown st \<longleftrightarrow> uncertain_edge edge))) \<and>
     ss_unknown st |\<subseteq>| ss_edges st \<and>
     fcard (ss_nodes st) \<le> max 1 (sb_max_nodes (sq_budget query)) \<and>
     fcard (ss_edges st) \<le> sb_max_edges (sq_budget query)"

definition unlimited :: "slice_search \<Rightarrow> bool" where
  "unlimited st \<longleftrightarrow> \<not> ss_depth_hit st \<and>
     (\<forall>region \<in> set (ss_omitted st). so_reason region \<notin> {Slice_NodeLimit, Slice_EdgeLimit})"

lemma link_edge_of_store:
  assumes "evidence_store_ok store" "slice_link store query n edge"
  shows "evidence_edge store (eve_id edge) = Some edge"
    and "edge \<in> set (evo_edges (evt_output store))"
proof -
  have "edge \<in> set (candidate_edges store n (sq_direction query))" using assms(2) by (simp add: slice_link_def)
  then show rows: "edge \<in> set (evo_edges (evt_output store))"
    using ok_adjacent [OF assms(1)] by (cases "sq_direction query") (simp_all add: candidate_edges_def)
  show "evidence_edge store (eve_id edge) = Some edge" by (rule iffD1 [OF ok_edge [OF assms(1)] rows])
qed

lemma same_id_same_edge:
  assumes "evidence_store_ok store" "slice_link store query n edge" "slice_link store query m edge'" "eve_id edge = eve_id edge'"
  shows "edge = edge'"
  by (metis link_edge_of_store(1) [OF assms(1,2)] link_edge_of_store(1) [OF assms(1,3)] assms(4) option.inject)

lemma fcard_finsert_new: "x |\<notin>| A \<Longrightarrow> fcard (finsert x A) = Suc (fcard A)"
  by (simp add: fcard_finsert_disjoint)

text \<open>Taking an edge, with its target where that is new.\<close>

definition take_edge :: "slice_query \<Rightarrow> nat \<Rightarrow> evidence_edge_fact \<Rightarrow> slice_search \<Rightarrow> slice_search" where
  "take_edge query depth edge st =
     (let target = next_node edge (sq_direction query);
          st = (if target |\<notin>| ss_nodes st then st \<lparr> ss_nodes := finsert target (ss_nodes st),
                  ss_queue := ss_queue st @ [(target, depth + 1)] \<rparr> else st)
      in st \<lparr> ss_edges := finsert (eve_id edge) (ss_edges st),
           ss_unknown := (if uncertain_edge edge then finsert (eve_id edge) (ss_unknown st) else ss_unknown st) \<rparr>)"

lemma slice_edge_cases:
  "slice_edge query depth edge st =
     (if \<not> edge_allowed (eve_kind edge) (sq_edge_filter query) then st \<lparr> ss_filtered := ss_filtered st + 1 \<rparr>
      else if fcard (ss_edges st) \<ge> sb_max_edges (sq_budget query) then omit_region Slice_EdgeLimit 0 1 st
      else if next_node edge (sq_direction query) |\<notin>| ss_nodes st \<and> fcard (ss_nodes st) \<ge> sb_max_nodes (sq_budget query)
      then omit_region Slice_NodeLimit 1 0 st else take_edge query depth edge st)"
  by (simp add: slice_edge_def take_edge_def Let_def)

lemma take_edge_fields:
  "ss_nodes (take_edge query depth edge st) = finsert (next_node edge (sq_direction query)) (ss_nodes st)"
  "ss_edges (take_edge query depth edge st) = finsert (eve_id edge) (ss_edges st)"
  "ss_unknown (take_edge query depth edge st) =
     (if uncertain_edge edge then finsert (eve_id edge) (ss_unknown st) else ss_unknown st)"
  "ss_queue (take_edge query depth edge st) = (if next_node edge (sq_direction query) |\<notin>| ss_nodes st
     then ss_queue st @ [(next_node edge (sq_direction query), depth + 1)] else ss_queue st)"
  "ss_omitted (take_edge query depth edge st) = ss_omitted st"
  "ss_depth_hit (take_edge query depth edge st) = ss_depth_hit st"
  by (auto simp: take_edge_def Let_def)

lemma take_edge_inv:
  assumes ok: "evidence_store_ok store" and inv: "slice_inv store query st"
    and node: "node |\<in>| ss_nodes st" "depth < fcard (ss_nodes st)" and link: "slice_link store query node edge"
    and room: "fcard (ss_edges st) < sb_max_edges (sq_budget query)"
      "next_node edge (sq_direction query) |\<in>| ss_nodes st \<or> fcard (ss_nodes st) < sb_max_nodes (sq_budget query)"
  shows "slice_inv store query (take_edge query depth edge st)"
proof -
  let ?t = "next_node edge (sq_direction query)" and ?st = "take_edge query depth edge st"
  note parts = inv [unfolded slice_inv_def] and fields = take_edge_fields [of query depth edge st]
  have grow: "ss_nodes st |\<subseteq>| ss_nodes ?st" by (auto simp: fields)
  have "slice_step store query node ?t" using link by (auto simp: slice_step_def)
  moreover have "slice_reaches store query node" using parts node by blast
  ultimately have "slice_reaches store query ?t"
    unfolding slice_reaches_def by (rule rtranclp.rtrancl_into_rtrancl [rotated])
  then have reach: "\<forall>n. n |\<in>| ss_nodes ?st \<longrightarrow> slice_reaches store query n" using parts by (simp add: fields)
  have card: "fcard (ss_nodes st) \<le> fcard (ss_nodes ?st)"
    "?t |\<notin>| ss_nodes st \<longrightarrow> fcard (ss_nodes ?st) = Suc (fcard (ss_nodes st))"
    using fcard_mono [OF grow] by (simp_all add: fields fcard_finsert_new)
  have queue: "fst p |\<in>| ss_nodes ?st \<and> snd p < fcard (ss_nodes ?st)" if "p \<in> set (ss_queue ?st)" for p
  proof (cases "p \<in> set (ss_queue st)")
    case True
    then have "fst p |\<in>| ss_nodes st" "snd p < fcard (ss_nodes st)" using parts by blast+
    then show ?thesis using card(1) grow by (meson fsubsetD less_le_trans)
  next
    case False
    then have "p = (?t, depth + 1)" "?t |\<notin>| ss_nodes st" using that by (auto simp: fields split: if_splits)
    then show ?thesis using card(2) node(2) by (simp add: fields)
  qed
  have edges: "\<exists>n e. n |\<in>| ss_nodes ?st \<and> slice_link store query n e \<and> eve_id e = i \<and>
      next_node e (sq_direction query) |\<in>| ss_nodes ?st \<and> (i |\<in>| ss_unknown ?st \<longleftrightarrow> uncertain_edge e)"
    if "i |\<in>| ss_edges ?st" for i
  proof (cases "i |\<in>| ss_edges st")
    case True
    then obtain n e where old: "n |\<in>| ss_nodes st" "slice_link store query n e" "eve_id e = i"
      "next_node e (sq_direction query) |\<in>| ss_nodes st" "i |\<in>| ss_unknown st \<longleftrightarrow> uncertain_edge e" using parts by blast
    have "i |\<in>| ss_unknown ?st \<longleftrightarrow> uncertain_edge e"
    proof (cases "i = eve_id edge")
      case True
      then have "e = edge" using same_id_same_edge [OF ok old(2) link] old(3) by simp
      with True old(5) show ?thesis by (simp add: fields)
    qed (simp add: fields old(5))
    with old grow show ?thesis by blast
  next
    case False
    then have i: "i = eve_id edge" using that by (simp add: fields)
    have "i |\<notin>| ss_unknown st" using parts False by blast
    then have "i |\<in>| ss_unknown ?st \<longleftrightarrow> uncertain_edge edge" by (simp add: fields i)
    moreover have "?t |\<in>| ss_nodes ?st" by (simp add: fields)
    moreover have "node |\<in>| ss_nodes ?st" using node(1) grow by blast
    ultimately show ?thesis using link i by blast
  qed
  have "ss_unknown ?st |\<subseteq>| ss_edges ?st" using parts by (auto simp: fields)
  moreover have "fcard (ss_nodes ?st) \<le> max 1 (sb_max_nodes (sq_budget query))"
    using parts room(2) card(2) by (cases "?t |\<in>| ss_nodes st") (auto simp: fields finsert_absorb)
  moreover have "fcard (ss_edges ?st) \<le> sb_max_edges (sq_budget query)"
    using room(1) by (cases "eve_id edge |\<in>| ss_edges st") (simp_all add: fields finsert_absorb fcard_finsert_new)
  moreover have "sq_root query |\<in>| ss_nodes ?st" using parts grow by blast
  ultimately show ?thesis using reach queue edges unfolding slice_inv_def by blast
qed

lemma slice_edge_inv:
  assumes ok: "evidence_store_ok store" and inv: "slice_inv store query st"
    and node: "node |\<in>| ss_nodes st" "depth < fcard (ss_nodes st)"
    and edge: "edge \<in> set (candidate_edges store node (sq_direction query))"
  shows "slice_inv store query (slice_edge query depth edge st)"
proof -
  have same: "slice_inv store query (st \<lparr> ss_filtered := k \<rparr>)" "slice_inv store query (omit_region reason i j st)" for k reason i j
    using inv by (simp_all add: slice_inv_def omit_region_def)
  show ?thesis
    unfolding slice_edge_cases using same take_edge_inv [OF ok inv node] edge by (simp add: slice_link_def)
qed

lemma slice_edge_effect:
  "ss_nodes st |\<subseteq>| ss_nodes (slice_edge query depth edge st)"
  "ss_edges st |\<subseteq>| ss_edges (slice_edge query depth edge st)"
  "unlimited (slice_edge query depth edge st) \<Longrightarrow> unlimited st \<and>
     (edge_allowed (eve_kind edge) (sq_edge_filter query) \<longrightarrow>
       next_node edge (sq_direction query) |\<in>| ss_nodes (slice_edge query depth edge st) \<and>
       eve_id edge |\<in>| ss_edges (slice_edge query depth edge st))"
  unfolding slice_edge_cases by (auto simp: take_edge_fields omit_region_def unlimited_def split: if_splits)

lemma slice_fold_inv:
  assumes ok: "evidence_store_ok store"
  shows "slice_inv store query st \<Longrightarrow> node |\<in>| ss_nodes st \<Longrightarrow> depth < fcard (ss_nodes st) \<Longrightarrow>
    set edges \<subseteq> set (candidate_edges store node (sq_direction query)) \<Longrightarrow>
    st' = fold (slice_edge query depth) edges st \<Longrightarrow>
    slice_inv store query st' \<and> ss_nodes st |\<subseteq>| ss_nodes st' \<and> ss_edges st |\<subseteq>| ss_edges st' \<and>
    (unlimited st' \<longrightarrow> unlimited st \<and> (\<forall>edge \<in> set edges. edge_allowed (eve_kind edge) (sq_edge_filter query) \<longrightarrow>
      next_node edge (sq_direction query) |\<in>| ss_nodes st' \<and> eve_id edge |\<in>| ss_edges st'))"
proof (induction edges arbitrary: st)
  case Nil
  then show ?case by simp
next
  case (Cons edge edges)
  let ?st1 = "slice_edge query depth edge st"
  have edge: "edge \<in> set (candidate_edges store node (sq_direction query))" using Cons.prems(4) by simp
  note inv1 = slice_edge_inv [OF ok Cons.prems(1-3) edge] and effect = slice_edge_effect [where st = st and query = query and depth = depth and edge = edge]
  have node1: "node |\<in>| ss_nodes ?st1" using effect(1) Cons.prems(2) by blast
  have depth1: "depth < fcard (ss_nodes ?st1)" using fcard_mono [OF effect(1)] Cons.prems(3) by simp
  have st': "st' = fold (slice_edge query depth) edges ?st1" using Cons.prems(5) by simp
  have rest: "set edges \<subseteq> set (candidate_edges store node (sq_direction query))" using Cons.prems(4) by simp
  note IH = Cons.IH [OF inv1 node1 depth1 rest st']
  have mono: "ss_nodes st |\<subseteq>| ss_nodes st'" "ss_edges st |\<subseteq>| ss_edges st'"
    using IH effect(1,2) by (meson order_trans)+
  have taken: "unlimited st \<and> (\<forall>e \<in> set (edge # edges). edge_allowed (eve_kind e) (sq_edge_filter query) \<longrightarrow>
      next_node e (sq_direction query) |\<in>| ss_nodes st' \<and> eve_id e |\<in>| ss_edges st')" if "unlimited st'"
  proof -
    have one: "unlimited ?st1" using IH that by blast
    note effect(3) [OF one]
    moreover have "ss_nodes ?st1 |\<subseteq>| ss_nodes st'" "ss_edges ?st1 |\<subseteq>| ss_edges st'" using IH by blast+
    ultimately show ?thesis using IH that by (auto dest: fsubsetD)
  qed
  from IH mono taken show ?case by blast
qed

text \<open>Nodes taken from the queue have all their steps in the slice.\<close>

definition slice_closed :: "evidence_store \<Rightarrow> slice_query \<Rightarrow> slice_search \<Rightarrow> bool" where
  "slice_closed store query st \<longleftrightarrow> (unlimited st \<longrightarrow>
     (\<forall>n. n |\<in>| ss_nodes st \<longrightarrow> n \<notin> fst ` set (ss_queue st) \<longrightarrow>
        (\<forall>edge. slice_link store query n edge \<longrightarrow> next_node edge (sq_direction query) |\<in>| ss_nodes st \<and>
           (fcard (ss_nodes st) \<le> sb_max_depth (sq_budget query) \<longrightarrow> eve_id edge |\<in>| ss_edges st))))"

lemma slice_node_inv:
  assumes ok: "evidence_store_ok store" and inv: "slice_inv store query st" and closed: "slice_closed store query st"
    and queue: "ss_queue st = (node, depth) # queue"
  defines "st' \<equiv> slice_node store query node depth (st \<lparr> ss_queue := queue \<rparr>)"
  shows "slice_inv store query st' \<and> slice_closed store query st'"
proof -
  let ?st = "st \<lparr> ss_queue := queue \<rparr>" and ?edges = "candidate_edges store node (sq_direction query)"
  note parts = inv [unfolded slice_inv_def]
  have node: "node |\<in>| ss_nodes st" "depth < fcard (ss_nodes st)" using parts queue by auto
  have inv0: "slice_inv store query ?st" using inv queue by (simp add: slice_inv_def)
  have link: "slice_link store query n edge \<Longrightarrow> n = node \<Longrightarrow>
      edge \<in> set ?edges \<and> edge_allowed (eve_kind edge) (sq_edge_filter query)" for n edge
    by (simp add: slice_link_def)
  show ?thesis
  proof (cases "depth \<ge> sb_max_depth (sq_budget query)")
    case True
    have st': "st' = ?st \<lparr> ss_depth_hit := (ss_depth_hit st \<or>
        list_ex (\<lambda>edge. next_node edge (sq_direction query) |\<notin>| ss_nodes st) ?edges) \<rparr>"
      using True by (simp add: st'_def slice_node_def Let_def)
    have "slice_inv store query st'" using inv0 unfolding st' by (simp add: slice_inv_def)
    moreover have "slice_closed store query st'"
      unfolding slice_closed_def
    proof (intro impI allI)
      fix n edge
      assume un: "unlimited st'" and n: "n |\<in>| ss_nodes st'" "n \<notin> fst ` set (ss_queue st')" and e: "slice_link store query n edge"
      have un0: "unlimited st" and seen: "\<forall>edge \<in> set ?edges. next_node edge (sq_direction query) |\<in>| ss_nodes st"
        using un by (auto simp: st' unlimited_def list_ex_iff)
      have deep: "\<not> fcard (ss_nodes st) \<le> sb_max_depth (sq_budget query)" using node(2) True by simp
      show "next_node edge (sq_direction query) |\<in>| ss_nodes st' \<and>
          (fcard (ss_nodes st') \<le> sb_max_depth (sq_budget query) \<longrightarrow> eve_id edge |\<in>| ss_edges st')"
      proof (cases "n = node")
        case True
        with seen link [OF e] deep show ?thesis by (simp add: st')
      next
        case False
        then have "n \<notin> fst ` set (ss_queue st)" using n(2) by (simp add: st' queue)
        with closed un0 n(1) e deep show ?thesis by (simp add: slice_closed_def st')
      qed
    qed
    ultimately show ?thesis ..
  next
    case False
    have st': "st' = fold (slice_edge query depth) ?edges ?st" using False by (simp add: st'_def slice_node_def Let_def)
    have fold: "slice_inv store query st'" "ss_nodes st |\<subseteq>| ss_nodes st'" "ss_edges st |\<subseteq>| ss_edges st'"
      "unlimited st' \<longrightarrow> unlimited ?st \<and> (\<forall>edge \<in> set ?edges. edge_allowed (eve_kind edge) (sq_edge_filter query) \<longrightarrow>
        next_node edge (sq_direction query) |\<in>| ss_nodes st' \<and> eve_id edge |\<in>| ss_edges st')"
      using slice_fold_inv [OF ok inv0 _ _ order_refl st'] node by simp_all
    obtain new where new: "ss_queue st' = queue @ new" "ss_nodes st' = ss_nodes st |\<union>| fset_of_list (map fst new)"
      using slice_fold_grows [of query depth ?edges ?st] unfolding st' by auto
    have "slice_closed store query st'"
      unfolding slice_closed_def
    proof (intro impI allI)
      fix n edge
      assume un: "unlimited st'" and n: "n |\<in>| ss_nodes st'" "n \<notin> fst ` set (ss_queue st')" and e: "slice_link store query n edge"
      have "unlimited ?st" using fold(4) un by blast
      then have un0: "unlimited st" by (simp add: unlimited_def)
      show "next_node edge (sq_direction query) |\<in>| ss_nodes st' \<and>
          (fcard (ss_nodes st') \<le> sb_max_depth (sq_budget query) \<longrightarrow> eve_id edge |\<in>| ss_edges st')"
      proof (cases "n = node")
        case True
        with fold(4) un link [OF e] show ?thesis by blast
      next
        case False
        have "n |\<notin>| fset_of_list (map fst new)" using n(2) by (auto simp: new(1) fset_of_list.rep_eq)
        then have old: "n |\<in>| ss_nodes st" using n(1) unfolding new(2) by blast
        have waiting: "n \<notin> fst ` set (ss_queue st)" using n(2) False unfolding new(1) queue by (simp add: image_Un)
        have "fcard (ss_nodes st) \<le> fcard (ss_nodes st')" by (rule fcard_mono [OF fold(2)])
        then have "next_node edge (sq_direction query) |\<in>| ss_nodes st \<and>
            (fcard (ss_nodes st') \<le> sb_max_depth (sq_budget query) \<longrightarrow> eve_id edge |\<in>| ss_edges st)"
          using closed un0 old waiting e unfolding slice_closed_def by (meson le_trans)
        with fold(2,3) show ?thesis by blast
      qed
    qed
    with fold(1) show ?thesis ..
  qed
qed

lemma slice_loop_inv:
  shows "evidence_store_ok store \<Longrightarrow> slice_inv store query st \<Longrightarrow> slice_closed store query st \<Longrightarrow>
    slice_inv store query (slice_loop store query st) \<and> slice_closed store query (slice_loop store query st) \<and>
    ss_queue (slice_loop store query st) = []"
proof (induction store query st rule: slice_loop.induct)
  case (1 store query st)
  show ?case
  proof (cases "ss_queue st")
    case Nil
    then show ?thesis using 1 by (subst (1 2 3) slice_loop.simps) simp
  next
    case (Cons p queue)
    obtain node depth where p: "p = (node, depth)" by (cases p)
    let ?next = "slice_node store query node depth (st \<lparr> ss_queue := queue \<rparr>)"
    have run: "slice_loop store query st = slice_loop store query ?next"
      by (subst slice_loop.simps) (simp add: Cons p)
    have "slice_inv store query ?next \<and> slice_closed store query ?next"
      by (rule slice_node_inv [OF 1(2,3,4)]) (simp add: Cons p)
    then show ?thesis unfolding run using 1(1) [OF Cons p [symmetric] 1(2)] by blast
  qed
qed

section \<open>Properties of a slice\<close>

lemma slice_finish_fields:
  "set (slr_nodes (slice_finish query st)) = fset (ss_nodes st)"
  "set (slr_edges (slice_finish query st)) = fset (ss_edges st)"
  "set (slr_unknown_edges (slice_finish query st)) = fset (ss_unknown st)"
  "length (slr_nodes (slice_finish query st)) = fcard (ss_nodes st)"
  "length (slr_edges (slice_finish query st)) = fcard (ss_edges st)"
  by (simp_all add: slice_finish_def Let_def omit_region_def bt_elems_def sorted_list_of_fset.rep_eq fcard.rep_eq)

lemma slice_start_inv: "slice_inv store query (slice_start query)" "slice_closed store query (slice_start query)"
  by (simp_all add: slice_inv_def slice_closed_def slice_start_def slice_reaches_def fcard.rep_eq)

lemma local_slice_state:
  assumes "evidence_store_ok store"
  obtains st where "local_slice store query = slice_finish query st" "slice_inv store query st" "slice_closed store query st"
    "ss_queue st = []"
  using slice_loop_inv [OF assms slice_start_inv] that unfolding local_slice_def by blast

text \<open>No limit was hit.\<close>

definition slice_limit_free :: "slice_result \<Rightarrow> bool" where
  "slice_limit_free r \<longleftrightarrow>
     (\<forall>region \<in> set (slr_omitted_regions r). so_reason region \<notin> {Slice_NodeLimit, Slice_EdgeLimit, Slice_DepthLimit})"

lemma finish_regions:
  "slr_omitted_regions (slice_finish query st) = ss_omitted st @
     (if ss_filtered st > 0 \<and> sq_edge_filter query = Filter_Thin
      then [\<lparr> so_reason = Slice_FilteredEdges, so_hidden_node_count = 0, so_hidden_edge_count = ss_filtered st mod 2 ^ 32 \<rparr>]
      else []) @
     (if ss_depth_hit st then [\<lparr> so_reason = Slice_DepthLimit, so_hidden_node_count = 0, so_hidden_edge_count = 1 \<rparr>] else [])"
  by (simp add: slice_finish_def omit_region_def Let_def)

lemma finish_unlimited: "slice_limit_free (slice_finish query st) \<Longrightarrow> unlimited st"
  unfolding slice_limit_free_def finish_regions unlimited_def by (cases "ss_depth_hit st") simp_all

lemma slice_nodes_exact:
  assumes ok: "evidence_store_ok store" and free: "slice_limit_free (local_slice store query)"
  shows "set (slr_nodes (local_slice store query)) = {n. slice_reaches store query n}"
    and "length (slr_nodes (local_slice store query)) \<le> sb_max_depth (sq_budget query) \<Longrightarrow>
      set (slr_edges (local_slice store query)) =
        {eve_id edge | n edge. slice_reaches store query n \<and> slice_link store query n edge}"
proof -
  obtain st where st: "local_slice store query = slice_finish query st" "slice_inv store query st"
    "slice_closed store query st" "ss_queue st = []" by (rule local_slice_state [OF ok])
  note parts = st(2) [unfolded slice_inv_def] and fields = slice_finish_fields [of query st]
  have closed: "slice_link store query n edge \<Longrightarrow> n |\<in>| ss_nodes st \<Longrightarrow>
      next_node edge (sq_direction query) |\<in>| ss_nodes st \<and>
      (fcard (ss_nodes st) \<le> sb_max_depth (sq_budget query) \<longrightarrow> eve_id edge |\<in>| ss_edges st)" for n edge
    using st(3,4) finish_unlimited [OF free [unfolded st(1)]] by (simp add: slice_closed_def)
  have "n |\<in>| ss_nodes st" if "slice_reaches store query n" for n
    using that unfolding slice_reaches_def
  proof (induction rule: rtranclp_induct)
    case base
    show ?case using parts by blast
  next
    case (step a b)
    then show ?case using closed by (auto simp: slice_step_def)
  qed
  then have nodes: "n |\<in>| ss_nodes st \<longleftrightarrow> slice_reaches store query n" for n using parts by blast
  then show "set (slr_nodes (local_slice store query)) = {n. slice_reaches store query n}"
    unfolding st(1) fields by auto
  show "set (slr_edges (local_slice store query)) =
      {eve_id edge | n edge. slice_reaches store query n \<and> slice_link store query n edge}"
    if "length (slr_nodes (local_slice store query)) \<le> sb_max_depth (sq_budget query)"
  proof -
    have small: "fcard (ss_nodes st) \<le> sb_max_depth (sq_budget query)" using that unfolding st(1) fields .
    show ?thesis unfolding st(1) fields
    proof (intro set_eqI iffI)
      fix i assume "i \<in> fset (ss_edges st)"
      then obtain n edge where "n |\<in>| ss_nodes st" "slice_link store query n edge" "eve_id edge = i" using parts by blast
      then show "i \<in> {eve_id edge | n edge. slice_reaches store query n \<and> slice_link store query n edge}" using nodes by blast
    next
      fix i assume "i \<in> {eve_id edge | n edge. slice_reaches store query n \<and> slice_link store query n edge}"
      then show "i \<in> fset (ss_edges st)" using closed nodes small by blast
    qed
  qed
qed

lemma slice_inside:
  assumes ok: "evidence_store_ok store"
  shows "set (slr_nodes (local_slice store query)) \<subseteq> {n. slice_reaches store query n}"
    and "i \<in> set (slr_edges (local_slice store query)) \<Longrightarrow> \<exists>n edge. evidence_edge store i = Some edge \<and>
      slice_link store query n edge \<and> n \<in> set (slr_nodes (local_slice store query)) \<and>
      next_node edge (sq_direction query) \<in> set (slr_nodes (local_slice store query)) \<and>
      (i \<in> set (slr_unknown_edges (local_slice store query)) \<longleftrightarrow> uncertain_edge edge)"
    and "length (slr_nodes (local_slice store query)) \<le> max 1 (sb_max_nodes (sq_budget query))"
    and "length (slr_edges (local_slice store query)) \<le> sb_max_edges (sq_budget query)"
proof -
  obtain st where st: "local_slice store query = slice_finish query st" "slice_inv store query st"
    by (rule local_slice_state [OF ok])
  note parts = st(2) [unfolded slice_inv_def] and fields = slice_finish_fields [of query st]
  show "set (slr_nodes (local_slice store query)) \<subseteq> {n. slice_reaches store query n}"
    unfolding st(1) fields using parts by auto
  show "length (slr_nodes (local_slice store query)) \<le> max 1 (sb_max_nodes (sq_budget query))"
    "length (slr_edges (local_slice store query)) \<le> sb_max_edges (sq_budget query)"
    unfolding st(1) fields using parts by blast+
  show "\<exists>n edge. evidence_edge store i = Some edge \<and>
      slice_link store query n edge \<and> n \<in> set (slr_nodes (local_slice store query)) \<and>
      next_node edge (sq_direction query) \<in> set (slr_nodes (local_slice store query)) \<and>
      (i \<in> set (slr_unknown_edges (local_slice store query)) \<longleftrightarrow> uncertain_edge edge)"
    if i: "i \<in> set (slr_edges (local_slice store query))"
  proof -
    have "i |\<in>| ss_edges st" using i unfolding st(1) fields .
    then obtain n edge where e: "n |\<in>| ss_nodes st" "slice_link store query n edge" "eve_id edge = i"
      "next_node edge (sq_direction query) |\<in>| ss_nodes st" "i |\<in>| ss_unknown st \<longleftrightarrow> uncertain_edge edge"
      using parts by blast
    have "evidence_edge store i = Some edge" using link_edge_of_store(1) [OF ok e(2)] unfolding e(3) .
    with e show ?thesis unfolding st(1) fields by blast
  qed
qed

end
