(* ===== verification/Frame_Search.thy ===== *)
theory Frame_Search
  imports Prelude "HOL-Library.Multiset"
begin

text \<open>
  Breadth-first enumeration of paths. A search takes frames from a queue; a goal is collected, any other frame is
  replaced by its continuations at the end of the queue. The locale \<open>frame_search\<close> fixes what a client provides, the
  goals, the choices at a frame and the frame after a choice; a run without omission collects exactly the frames
  at the end of a trail of choices. The locale \<open>config_search\<close> extends it for frames that stand at a configuration
  and never return to one they have seen: their trails are the runs without repetition. The length of a
  frame's trail bounds the loops that use it, and the locale \<open>frame_loop\<close> shows once what such a loop collects.
\<close>

locale frame_search =
  fixes goal :: "'f \<Rightarrow> bool" and choices :: "'f \<Rightarrow> 'e list" and step :: "'f \<Rightarrow> 'e \<Rightarrow> 'f option"
    and size_of :: "'f \<Rightarrow> nat"
  assumes step_size: "step f e = Some g \<Longrightarrow> size_of g = Suc (size_of f)"
begin

text \<open>A trail of choices, none of them at a goal.\<close>

fun trail :: "'f \<Rightarrow> 'e list \<Rightarrow> 'f option" where
  "trail f [] = Some f"
| "trail f (e # es) = (if goal f \<or> e \<notin> set (choices f) then None else Option.bind (step f e) (\<lambda>g. trail g es))"

text \<open>A run from a queue and what it collects. A whole run leaves nothing out.\<close>

inductive covers :: "bool \<Rightarrow> 'f list \<Rightarrow> 'f list \<Rightarrow> bool" for whole :: bool where
  finished: "(whole \<Longrightarrow> queue = []) \<Longrightarrow> covers whole queue []"
| collect: "goal f \<Longrightarrow> covers whole queue found \<Longrightarrow> covers whole (f # queue) (f # found)"
| expand: "\<not> goal f \<Longrightarrow> set new \<subseteq> set (List.map_filter (step f) (choices f)) \<Longrightarrow>
    (whole \<Longrightarrow> new = List.map_filter (step f) (choices f)) \<Longrightarrow> covers whole (queue @ new) found \<Longrightarrow>
    covers whole (f # queue) found"

lemma trail_size: "trail f es = Some g \<Longrightarrow> size_of g = size_of f + length es"
  by (induction f es rule: trail.induct) (auto simp: bind_eq_Some_conv step_size split: if_splits)

lemma trail_first:
  assumes "\<not> goal f" "goal g"
  shows "(\<exists>es. trail f es = Some g) \<longleftrightarrow> (\<exists>h \<in> set (List.map_filter (step f) (choices f)). \<exists>es. trail h es = Some g)"
proof
  assume "\<exists>es. trail f es = Some g"
  then obtain es where es: "trail f es = Some g" by blast
  with assms obtain e rest where "es = e # rest" by (cases es) auto
  with es obtain h where "e \<in> set (choices f)" "step f e = Some h" "trail h rest = Some g"
    by (auto simp: bind_eq_Some_conv split: if_splits)
  then show "\<exists>h \<in> set (List.map_filter (step f) (choices f)). \<exists>es. trail h es = Some g"
    unfolding set_map_filter_iff Bex_def by blast
next
  assume "\<exists>h \<in> set (List.map_filter (step f) (choices f)). \<exists>es. trail h es = Some g"
  then obtain h e es where "e \<in> set (choices f)" "step f e = Some h" "trail h es = Some g"
    unfolding set_map_filter_iff Bex_def by blast
  then have "trail f (e # es) = Some g" using assms(1) by simp
  then show "\<exists>es. trail f es = Some g" by blast
qed

definition ends :: "'f list \<Rightarrow> 'f set" where
  "ends queue = {g. goal g \<and> (\<exists>f \<in> set queue. \<exists>es. trail f es = Some g)}"

lemma ends_Cons:
  "goal f \<Longrightarrow> ends (f # queue) = insert f (ends queue)"
  "\<not> goal f \<Longrightarrow> ends (f # queue) = ends (List.map_filter (step f) (choices f)) \<union> ends queue"
proof -
  assume goal: "goal f"
  have "trail f es = Some g \<longleftrightarrow> es = [] \<and> g = f" for es g using goal by (cases es) auto
  with goal show "ends (f # queue) = insert f (ends queue)" by (auto simp: ends_def)
next
  assume "\<not> goal f"
  from trail_first [OF this] show "ends (f # queue) = ends (List.map_filter (step f) (choices f)) \<union> ends queue"
    by (auto simp: ends_def)
qed

lemma ends_union: "ends (queue @ new) = ends queue \<union> ends new" "set new \<subseteq> set fs \<Longrightarrow> ends new \<subseteq> ends fs"
  by (auto simp: ends_def)

lemma covers_ends: "covers whole queue found \<Longrightarrow> set found \<subseteq> ends queue \<and> (whole \<longrightarrow> ends queue \<subseteq> set found)"
proof (induction rule: covers.induct)
  case (finished queue)
  then show ?case by (auto simp: ends_def)
next
  case (collect f queue found)
  then show ?case by (auto simp: ends_Cons)
next
  case (expand f new queue found)
  then show ?case using ends_union(2) [OF expand.hyps(2)] unfolding ends_Cons(2) [OF expand.hyps(1)] ends_union(1) by blast
qed

text \<open>Trails can be extended at their end.\<close>

lemma trail_snoc:
  "trail f (es @ [e]) = Some g \<longleftrightarrow>
     (\<exists>h. trail f es = Some h \<and> \<not> goal h \<and> e \<in> set (choices h) \<and> step h e = Some g)"
  by (induction f es rule: trail.induct) (auto simp: bind_eq_Some_conv)

end

section \<open>Runs through configurations\<close>

text \<open>The configurations that a sequence of moves passes.\<close>

fun config_run :: "('c \<Rightarrow> 'e list) \<Rightarrow> ('c \<Rightarrow> 'e \<Rightarrow> 'c option) \<Rightarrow> 'c \<Rightarrow> 'e list \<Rightarrow> 'c list option" where
  "config_run moves move c [] = Some [c]"
| "config_run moves move c (e # es) =
     (if e \<in> set (moves c) then Option.bind (move c e) (\<lambda>d. map_option (Cons c) (config_run moves move d es)) else None)"

definition config_step :: "('c \<Rightarrow> 'e list) \<Rightarrow> ('c \<Rightarrow> 'e \<Rightarrow> 'c option) \<Rightarrow> 'c \<Rightarrow> 'c \<Rightarrow> bool" where
  "config_step moves move c d \<longleftrightarrow> (\<exists>e \<in> set (moves c). move c e = Some d)"

lemma config_run_starts: "config_run moves move c es = Some cs \<Longrightarrow> cs \<noteq> [] \<and> hd cs = c \<and> length cs = Suc (length es)"
  by (induction moves move c es arbitrary: cs rule: config_run.induct) (auto simp: bind_eq_Some_conv split: if_splits)

lemma config_run_snoc:
  "config_run moves move c (es @ [e]) = Some cs \<longleftrightarrow>
     (\<exists>cs0 d. config_run moves move c es = Some cs0 \<and> e \<in> set (moves (last cs0)) \<and> move (last cs0) e = Some d \<and> cs = cs0 @ [d])"
proof (induction es arbitrary: c cs)
  case (Cons a es)
  have full: "ds \<noteq> []" if "config_run moves move d es = Some ds" for d ds
    using config_run_starts [OF that] by blast
  show ?case
    by (auto simp: bind_eq_Some_conv Cons.IH dest: full split: if_splits)
qed (auto simp: bind_eq_Some_conv)

lemma config_run_prefix:
  "config_run moves move c es = Some cs \<Longrightarrow> x \<in> set cs \<Longrightarrow>
    \<exists>es' cs' rest. config_run moves move c es' = Some cs' \<and> last cs' = x \<and> cs = cs' @ rest"
proof (induction es arbitrary: cs rule: rev_induct)
  case Nil
  then have "config_run moves move c [] = Some [c] \<and> last [c] = x \<and> cs = [c] @ []" by auto
  then show ?case by blast
next
  case (snoc e es)
  from snoc.prems(1) obtain cs0 d where run: "config_run moves move c es = Some cs0" and cs: "cs = cs0 @ [d]"
    unfolding config_run_snoc by blast
  show ?case
  proof (cases "x \<in> set cs0")
    case True
    then obtain es' cs' rest where "config_run moves move c es' = Some cs'" "last cs' = x" "cs0 = cs' @ rest"
      using snoc.IH [OF run] by blast
    then show ?thesis unfolding cs by (metis append.assoc)
  next
    case False
    then have "last cs = x" "cs = cs @ []" using snoc.prems(2) cs by auto
    then show ?thesis using snoc.prems(1) by blast
  qed
qed

lemma config_run_reaches: "config_run moves move c es = Some cs \<Longrightarrow> x \<in> set cs \<Longrightarrow> (config_step moves move)\<^sup>*\<^sup>* c x"
proof (induction es arbitrary: c cs)
  case (Cons e es)
  from Cons.prems(1) obtain d ds where d: "e \<in> set (moves c)" "move c e = Some d" "config_run moves move d es = Some ds" "cs = c # ds"
    by (auto simp: bind_eq_Some_conv split: if_splits)
  show ?case
  proof (cases "x = c")
    case False
    then have "(config_step moves move)\<^sup>*\<^sup>* d x" using Cons.IH [OF d(3)] Cons.prems(2) d(4) by simp
    moreover have "config_step moves move c d" using d by (auto simp: config_step_def)
    ultimately show ?thesis by (rule converse_rtranclp_into_rtranclp [rotated])
  qed simp
qed simp

text \<open>A goal that can be reached is reached by a run without repetition that meets no goal before its end.\<close>

definition direct_run :: "('c \<Rightarrow> 'e list) \<Rightarrow> ('c \<Rightarrow> 'e \<Rightarrow> 'c option) \<Rightarrow> ('c \<Rightarrow> bool) \<Rightarrow> 'c \<Rightarrow> 'e list \<Rightarrow> 'c list \<Rightarrow> bool" where
  "direct_run moves move at_goal c es cs \<longleftrightarrow>
     config_run moves move c es = Some cs \<and> distinct cs \<and> (\<forall>x \<in> set (butlast cs). \<not> at_goal x)"

lemma no_goal_before:
  assumes "cs \<noteq> []" "\<forall>x \<in> set (butlast cs). \<not> P x" "\<not> P (last cs)"
  shows "\<forall>x \<in> set cs. \<not> P x"
proof -
  have "set cs = insert (last cs) (set (butlast cs))" using append_butlast_last_id [OF assms(1)]
    by (metis list.simps(15) rotate1.simps(2) set_rotate1)
  then show ?thesis using assms by simp
qed

lemma direct_run_snoc:
  assumes "direct_run moves move at_goal c es cs" "\<not> at_goal (last cs)" "e \<in> set (moves (last cs))"
    "move (last cs) e = Some d" "d \<notin> set cs"
  shows "direct_run moves move at_goal c (es @ [e]) (cs @ [d])"
proof -
  have run: "config_run moves move c es = Some cs" "distinct cs" "\<forall>x \<in> set (butlast cs). \<not> at_goal x"
    using assms(1) by (auto simp: direct_run_def)
  then have "\<forall>x \<in> set cs. \<not> at_goal x" using no_goal_before [of cs] assms(2) config_run_starts [OF run(1)] by blast
  moreover have "config_run moves move c (es @ [e]) = Some (cs @ [d])"
    unfolding config_run_snoc using run(1) assms(3,4) by blast
  ultimately show ?thesis using run(2) assms(5) by (simp add: direct_run_def)
qed

lemma direct_run_exists:
  assumes "(config_step moves move)\<^sup>*\<^sup>* c d" "at_goal d"
  shows "\<exists>es cs. direct_run moves move at_goal c es cs \<and> at_goal (last cs)"
proof -
  have "(\<exists>es cs. direct_run moves move at_goal c es cs \<and> last cs = d) \<or>
      (\<exists>es cs. direct_run moves move at_goal c es cs \<and> at_goal (last cs))"
    using assms(1)
  proof (induction rule: rtranclp_induct)
    case base
    have "direct_run moves move at_goal c [] [c] \<and> last [c] = c" by (simp add: direct_run_def)
    then show ?case by blast
  next
    case (step x y)
    from step.IH show ?case
    proof (elim disjE exE conjE)
      fix es cs assume run: "direct_run moves move at_goal c es cs" and x: "last cs = x"
      have parts: "config_run moves move c es = Some cs" "distinct cs" "\<forall>z \<in> set (butlast cs). \<not> at_goal z"
        using run by (auto simp: direct_run_def)
      have cs: "cs \<noteq> []" using config_run_starts [OF parts(1)] by blast
      show ?case
      proof (cases "at_goal x")
        case True
        then show ?thesis using run x by blast
      next
        case False
        then have last: "\<not> at_goal (last cs)" unfolding x .
        have free: "\<forall>z \<in> set cs. \<not> at_goal z" by (rule no_goal_before [OF cs parts(3) last])
        show ?thesis
        proof (cases "y \<in> set cs")
          case True
          obtain es' cs' rest where pre: "config_run moves move c es' = Some cs'" "last cs' = y" "cs = cs' @ rest"
            using config_run_prefix [OF parts(1) True] by blast
          have "distinct cs'" "\<forall>z \<in> set (butlast cs'). \<not> at_goal z"
            using parts(2) free pre(3) in_set_butlastD [of _ cs'] by auto
          then have "direct_run moves move at_goal c es' cs'" using pre(1) by (simp add: direct_run_def)
          then show ?thesis using pre(2) by blast
        next
          case False
          obtain e where e: "e \<in> set (moves x)" "move x e = Some y" using step.hyps(2) by (auto simp: config_step_def)
          have "direct_run moves move at_goal c (es @ [e]) (cs @ [y])"
            by (rule direct_run_snoc [OF run]) (use e x \<open>\<not> at_goal x\<close> False in simp_all)
          moreover have "last (cs @ [y]) = y" by simp
          ultimately show ?thesis by blast
        qed
      qed
    qed blast
  qed
  then show ?thesis using assms(2) by blast
qed

section \<open>Searches through configurations\<close>

locale config_search = frame_search goal choices step size_of
  for goal :: "'f \<Rightarrow> bool" and choices :: "'f \<Rightarrow> 'e list" and step :: "'f \<Rightarrow> 'e \<Rightarrow> 'f option" and size_of :: "'f \<Rightarrow> nat" +
  fixes config_of :: "'f \<Rightarrow> 'c" and seen :: "'f \<Rightarrow> 'c set" and moves :: "'c \<Rightarrow> 'e list"
    and move :: "'c \<Rightarrow> 'e \<Rightarrow> 'c option" and at_goal :: "'c \<Rightarrow> bool"
  assumes goal_config: "goal f = at_goal (config_of f)" and choices_config: "set (choices f) = set (moves (config_of f))"
    and step_moves: "step f e = Some g \<Longrightarrow> move (config_of f) e = Some (config_of g) \<and> config_of g \<notin> seen f \<and>
      seen g = insert (config_of g) (seen f)"
    and moves_step: "move (config_of f) e = Some d \<Longrightarrow> d \<notin> seen f \<Longrightarrow> \<exists>g. step f e = Some g"
begin

text \<open>From a frame that has seen only its own configuration the trails are the direct runs.\<close>

lemma trail_run:
  assumes "seen f = {config_of f}"
  shows "trail f es = Some g \<Longrightarrow> \<exists>cs. direct_run moves move at_goal (config_of f) es cs \<and> config_of g = last cs \<and> seen g = set cs"
proof (induction es arbitrary: g rule: rev_induct)
  case Nil
  then have "direct_run moves move at_goal (config_of f) [] [config_of f]" by (simp add: direct_run_def)
  then show ?case using Nil assms by force
next
  case (snoc e es)
  from snoc.prems obtain h where h: "trail f es = Some h" "\<not> goal h" "e \<in> set (choices h)" "step h e = Some g"
    unfolding trail_snoc by blast
  from snoc.IH [OF h(1)] obtain cs where cs: "direct_run moves move at_goal (config_of f) es cs" "config_of h = last cs"
    "seen h = set cs" by blast
  note new = step_moves [OF h(4)]
  have "direct_run moves move at_goal (config_of f) (es @ [e]) (cs @ [config_of g])"
    by (rule direct_run_snoc [OF cs(1)]) (use h(2,3) new cs(2,3) in \<open>simp_all add: goal_config choices_config\<close>)
  moreover have "config_of g = last (cs @ [config_of g])" "seen g = set (cs @ [config_of g])" using new cs(3) by simp_all
  ultimately show ?case by blast
qed

lemma run_trail:
  assumes "seen f = {config_of f}"
  shows "direct_run moves move at_goal (config_of f) es cs \<Longrightarrow> \<exists>g. trail f es = Some g"
proof (induction es arbitrary: cs rule: rev_induct)
  case (snoc e es)
  from snoc.prems obtain cs0 d where run: "config_run moves move (config_of f) es = Some cs0" "e \<in> set (moves (last cs0))"
    "move (last cs0) e = Some d" and cs: "cs = cs0 @ [d]"
    unfolding direct_run_def config_run_snoc by blast
  have whole: "distinct (cs0 @ [d])" "\<forall>x \<in> set cs0. \<not> at_goal x"
    using snoc.prems by (simp_all add: direct_run_def cs)
  then have direct: "direct_run moves move at_goal (config_of f) es cs0"
    using run(1) in_set_butlastD [of _ cs0] by (auto simp: direct_run_def)
  then obtain h where h: "trail f es = Some h" using snoc.IH by blast
  from trail_run [OF assms h] obtain cs1 where cs1: "config_run moves move (config_of f) es = Some cs1" "config_of h = last cs1"
    "seen h = set cs1" unfolding direct_run_def by blast
  have same: "cs1 = cs0" using cs1(1) run(1) by simp
  have "cs0 \<noteq> []" using config_run_starts [OF run(1)] by blast
  then have "\<not> goal h" using whole(2) cs1(2) by (simp add: same goal_config)
  moreover obtain g where "step h e = Some g"
    using moves_step [of h e d] run(3) whole(1) cs1(2,3) by (auto simp: same)
  moreover have "e \<in> set (choices h)" using run(2) cs1(2) by (simp add: choices_config same)
  ultimately show ?case using h unfolding trail_snoc by blast
qed simp

end

section \<open>A measure for bounded queues\<close>

text \<open>Replacing a frame by frames with less fuel.\<close>

definition fuel_less :: "('f \<Rightarrow> nat) \<Rightarrow> ('f list \<times> 'f list) set" where
  "fuel_less fuel = inv_image (mult less_than) (\<lambda>queue. image_mset fuel (mset queue))"

lemma wf_fuel_less: "wf (fuel_less fuel)"
  by (simp add: fuel_less_def wf_mult)

lemma fuel_less_expand:
  assumes "\<forall>g \<in> set new. fuel g < fuel f"
  shows "(queue @ new, f # queue) \<in> fuel_less fuel"
proof -
  have "(image_mset fuel (mset queue) + image_mset fuel (mset new), image_mset fuel (mset queue) + {#fuel f#}) \<in> mult less_than"
    using assms by (intro one_step_implies_mult) auto
  then show ?thesis by (simp add: fuel_less_def)
qed

lemma fuel_less_drop: "(queue, f # queue) \<in> fuel_less fuel"
  using fuel_less_expand [of "[]"] by simp

section \<open>Loops over frames\<close>

text \<open>
  A loop that takes frames from a queue in its state, collects goals up to a limit and expands other frames. Its state
  says whether something was omitted and whether something uncertain was met. The client has two readings of its
  edges: those that the loop follows, and those that it follows or is uncertain about.
\<close>

locale frame_loop = usable: frame_search goal usable_choices step size_of + possible: frame_search goal possible_choices step size_of
  for goal :: "'f \<Rightarrow> bool" and usable_choices possible_choices :: "'f \<Rightarrow> 'e list" and step :: "'f \<Rightarrow> 'e \<Rightarrow> 'f option"
    and size_of :: "'f \<Rightarrow> nat" +
  fixes queue_of :: "'s \<Rightarrow> 'f list" and found_of :: "'s \<Rightarrow> 'p list" and path_of :: "'f \<Rightarrow> 'p" and whole certain :: "'s \<Rightarrow> bool"
    and fits :: "'f \<Rightarrow> bool" and limit :: nat and fuel :: "'f \<Rightarrow> nat" and collect expand loop :: "'s \<Rightarrow> 's"
  assumes usable_possible: "set (usable_choices f) \<subseteq> set (possible_choices f)"
    and collect_goal: "queue_of st = f # fs \<Longrightarrow> queue_of (collect st) = fs \<and> found_of (collect st) = found_of st @ [path_of f] \<and>
      certain (collect st) = certain st \<and> (whole (collect st) \<longrightarrow> whole st) \<and>
      (limit \<le> Suc (length (found_of st)) \<and> whole (collect st) \<longrightarrow> fs = [])"
    and expand_frame: "queue_of st = f # fs \<Longrightarrow> \<exists>new. queue_of (expand st) = fs @ new \<and> found_of (expand st) = found_of st \<and>
      set new \<subseteq> set (List.map_filter (step f) (usable_choices f)) \<and> (\<forall>g \<in> set new. (fits f \<longrightarrow> fits g) \<and> fuel g < fuel f) \<and>
      (whole (expand st) \<longrightarrow> whole st \<and> new = List.map_filter (step f) (usable_choices f)) \<and>
      (whole (expand st) \<and> certain (expand st) \<longrightarrow> certain st \<and> new = List.map_filter (step f) (possible_choices f))"
    and loop_unfold: "loop st = (case queue_of st of [] \<Rightarrow> st
      | f # fs \<Rightarrow> if goal f then (if limit \<le> Suc (length (found_of st)) then collect st else loop (collect st)) else loop (expand st))"
begin

text \<open>How a state leads to another: what is collected, within which limits, and what is kept.\<close>

definition outcome :: "'s \<Rightarrow> 's \<Rightarrow> 'f list \<Rightarrow> bool" where
  "outcome st st' found \<longleftrightarrow>
     found_of st' = found_of st @ map path_of found \<and> length (found_of st') \<le> limit \<and> (\<forall>f \<in> set found. fits f) \<and>
     (whole st' \<longrightarrow> whole st) \<and> (whole st' \<and> certain st' \<longrightarrow> certain st) \<and>
     usable.covers (whole st') (queue_of st) found \<and> possible.covers (whole st' \<and> certain st') (queue_of st) found"

lemma outcome_collect:
  assumes queue: "queue_of st = f # fs" and goal: "goal f" "fits f" and outcome: "outcome (collect st) st' found"
  shows "outcome st st' (f # found)"
  using outcome goal(2) collect_goal [OF queue] unfolding outcome_def queue
  by (auto intro: usable.covers.collect [OF goal(1)] possible.covers.collect [OF goal(1)])

lemma outcome_expand:
  assumes queue: "queue_of st = f # fs" and other: "\<not> goal f" and outcome: "outcome (expand st) st' found"
  shows "outcome st st' found"
proof -
  from expand_frame [OF queue] obtain new where new: "queue_of (expand st) = fs @ new" "found_of (expand st) = found_of st"
    "set new \<subseteq> set (List.map_filter (step f) (usable_choices f))"
    "whole (expand st) \<Longrightarrow> whole st \<and> new = List.map_filter (step f) (usable_choices f)"
    "whole (expand st) \<Longrightarrow> certain (expand st) \<Longrightarrow> certain st \<and> new = List.map_filter (step f) (possible_choices f)"
    by blast
  note parts = outcome [unfolded outcome_def new(1,2)]
  have more: "set new \<subseteq> set (List.map_filter (step f) (possible_choices f))"
    using new(3) usable_possible unfolding set_map_filter_iff subset_iff by blast
  have "usable.covers (whole st') (f # fs) found"
    by (rule usable.covers.expand [OF other new(3)]) (use parts new(4) in blast)+
  moreover have "possible.covers (whole st' \<and> certain st') (f # fs) found"
    by (rule possible.covers.expand [OF other more]) (use parts new(5) in blast)+
  ultimately show ?thesis unfolding outcome_def queue using parts new(4,5) by blast
qed

lemma loop_outcome:
  "length (found_of st) < limit \<Longrightarrow> \<forall>f \<in> set (queue_of st). fits f \<Longrightarrow> \<exists>found. outcome st (loop st) found"
proof (induction "queue_of st" arbitrary: st rule: wf_induct_rule [OF wf_fuel_less [of fuel]])
  case 1
  show ?case
  proof (cases "queue_of st")
    case Nil
    then have "outcome st (loop st) []"
      using 1(2) by (auto simp: loop_unfold [of st] outcome_def intro: usable.covers.finished possible.covers.finished)
    then show ?thesis ..
  next
    case (Cons f fs)
    have fits: "fits f" "\<forall>f \<in> set fs. fits f" using 1(3) Cons by simp_all
    show ?thesis
    proof (cases "goal f")
      case True
      note one = collect_goal [OF Cons]
      show ?thesis
      proof (cases "limit \<le> Suc (length (found_of st))")
        case stop: True
        have run: "loop st = collect st" using stop True by (simp add: loop_unfold [of st] Cons)
        have "outcome (collect st) (collect st) []"
          using one stop 1(2) by (auto simp: outcome_def intro: usable.covers.finished possible.covers.finished)
        from outcome_collect [OF Cons True fits(1) this] show ?thesis unfolding run ..
      next
        case False
        have run: "loop st = loop (collect st)" using False True by (simp add: loop_unfold [of st] Cons)
        have "(queue_of (collect st), queue_of st) \<in> fuel_less fuel" using one fuel_less_drop by (simp add: Cons)
        then have "\<exists>found. outcome (collect st) (loop (collect st)) found" using 1(1) False one fits(2) by simp
        then show ?thesis unfolding run using outcome_collect [OF Cons True fits(1)] by blast
      qed
    next
      case False
      have run: "loop st = loop (expand st)" using False by (simp add: loop_unfold [of st] Cons)
      from expand_frame [OF Cons] obtain new where new: "queue_of (expand st) = fs @ new" "found_of (expand st) = found_of st"
        "\<forall>g \<in> set new. fits g \<and> fuel g < fuel f" using fits(1) by blast
      have less: "(queue_of (expand st), queue_of st) \<in> fuel_less fuel" unfolding Cons new(1) using new(3) by (intro fuel_less_expand) blast
      have "length (found_of (expand st)) < limit" "\<forall>f \<in> set (queue_of (expand st)). fits f" using 1(2) new fits(2) by auto
      from 1(1) [OF less this] have "\<exists>found. outcome (expand st) (loop (expand st)) found" .
      then show ?thesis unfolding run using outcome_expand [OF Cons False] by blast
    qed
  qed
qed

text \<open>What a loop from a single frame lists.\<close>

lemma loop_lists:
  assumes "limit > 0" "fits f" "queue_of st = [f]" "found_of st = []"
  shows "\<exists>found. found_of (loop st) = map path_of found \<and> length (found_of (loop st)) \<le> limit \<and> (\<forall>g \<in> set found. fits g) \<and>
    set found \<subseteq> usable.ends [f] \<and> (whole (loop st) \<longrightarrow> set found = usable.ends [f]) \<and>
    (whole (loop st) \<and> certain (loop st) \<longrightarrow> set found = possible.ends [f])"
proof -
  obtain found where outcome: "outcome st (loop st) found" using loop_outcome [of st] assms by auto
  then have covers: "usable.covers (whole (loop st)) [f] found" "possible.covers (whole (loop st) \<and> certain (loop st)) [f] found"
    using assms(3) by (auto simp: outcome_def)
  show ?thesis
    using outcome assms(4) usable.covers_ends [OF covers(1)] possible.covers_ends [OF covers(2)]
    by (intro exI [of _ found]) (auto simp: outcome_def)
qed

end

end
