(* ===== verification/Evidence_Paths.thy ===== *)
theory Evidence_Paths
  imports Evidence_Store Frame_Search
begin

text \<open>
  Paths through the evidence graph: the ranking of \<open>evidence/rank.rs\<close>, \<open>find_paths\<close> and \<open>chop\<close> of \<open>slicing/paths.rs\<close>
  and \<open>find_interprocedural_paths\<close> of \<open>slicing/interprocedural.rs\<close>. The first enumerates simple paths, the last
  paths whose returns match their calls; \<open>chop\<close> intersects what a source reaches with what reaches a sink. The
  two files have the same helpers for availability, status and edge order, which are stated once.
\<close>

section \<open>Ranking\<close>

record path_rank_score =
  unknown_penalty :: nat
  unvalidated_penalty :: nat
  model_or_heuristic_penalty :: nat
  length_penalty :: nat
  summary_opaque_penalty :: nat
  native_exact_bonus :: nat
  direct_source_sink_bonus :: nat

definition path_rank_score_default :: path_rank_score where
  "path_rank_score_default =
     \<lparr> unknown_penalty = 0, unvalidated_penalty = 0, model_or_heuristic_penalty = 0, length_penalty = 0,
       summary_opaque_penalty = 0, native_exact_bonus = 0, direct_source_sink_bonus = 0 \<rparr>"

definition score_edge :: "evidence_store \<Rightarrow> evidence_edge_id \<Rightarrow> path_rank_score \<Rightarrow> path_rank_score" where
  "score_edge store edge_id score =
     (case evidence_edge store edge_id of
        None \<Rightarrow> score \<lparr> unknown_penalty := unknown_penalty score + 1 \<rparr>
      | Some edge \<Rightarrow>
          (let score = (if eve_status edge \<noteq> Evs_Present \<or> eve_kind edge = Eve_Unknown
                 then score \<lparr> unknown_penalty := unknown_penalty score + 1 \<rparr> else score);
               score = (if eve_validation edge \<notin> {Evv_Native, Evv_ReferentiallyValidated}
                 then score \<lparr> unvalidated_penalty := unvalidated_penalty score + 1 \<rparr> else score);
               score = (if eve_provenance edge \<in> {Evo_Model, Evo_Extension} \<or>
                   eve_precision edge \<in> {Evp_Heuristic, Evp_Conservative} \<or> eve_kind edge = Eve_Model
                 then score \<lparr> model_or_heuristic_penalty := model_or_heuristic_penalty score + 1 \<rparr> else score);
               score = (if eve_provenance edge = Evo_Native \<and> eve_precision edge = Evp_Exact
                 then score \<lparr> native_exact_bonus := native_exact_bonus score + 1 \<rparr> else score)
           in case eve_expansion edge of
                Evx_Opaque _ \<Rightarrow> score \<lparr> summary_opaque_penalty := summary_opaque_penalty score + 1 \<rparr>
              | _ \<Rightarrow> score))"

text \<open>Counters are 32-bit; a path is never long enough for the increments to overflow, and its length is truncated.\<close>

definition rank_score_for_edges :: "evidence_store \<Rightarrow> evidence_edge_id list \<Rightarrow> path_rank_score" where
  "rank_score_for_edges store edges =
     (let score = fold (score_edge store) edges (path_rank_score_default \<lparr> length_penalty := length edges mod 2 ^ 32 \<rparr>)
      in if length edges = 1 then score \<lparr> direct_source_sink_bonus := 1 \<rparr> else score)"

text \<open>\<open>compare_scores\<close> as a sort key; the bonuses are compared in reverse.\<close>

definition score_key :: "path_rank_score \<Rightarrow> nat \<times> nat \<times> nat \<times> nat \<times> nat \<times> int \<times> int" where
  "score_key score =
     (unknown_penalty score, unvalidated_penalty score, model_or_heuristic_penalty score, summary_opaque_penalty score,
      length_penalty score, - int (native_exact_bonus score), - int (direct_source_sink_bonus score))"

section \<open>Queries and results\<close>

datatype path_mode = Path_Local | Path_SourceToSink

record path_budget =
  pb_max_paths :: nat
  pb_max_nodes :: nat
  pb_max_edges :: nat
  pb_max_depth :: nat

definition path_budget_default :: path_budget where
  "path_budget_default = \<lparr> pb_max_paths = 5, pb_max_nodes = 64, pb_max_edges = 96, pb_max_depth = 32 \<rparr>"

record path_query =
  pq_source :: evidence_node_id
  pq_sink :: evidence_node_id
  pq_mode :: path_mode
  pq_budget :: path_budget

record evidence_path =
  evp_nodes :: "evidence_node_id list"
  evp_edges :: "evidence_edge_id list"
  evp_score :: path_rank_score
  evp_status :: evidence_status
  evp_precision :: evidence_precision
  evp_stable_key_text :: string

datatype path_omitted_reason = Omit_PathCount | Omit_NodeLimit | Omit_EdgeLimit | Omit_DepthLimit

record path_omitted_region =
  po_reason :: path_omitted_reason
  po_hidden_node_count :: nat
  po_hidden_edge_count :: nat

definition omitted :: "path_omitted_reason \<Rightarrow> nat \<Rightarrow> nat \<Rightarrow> path_omitted_region" where
  "omitted reason hidden_nodes hidden_edges =
     \<lparr> po_reason = reason, po_hidden_node_count = hidden_nodes, po_hidden_edge_count = hidden_edges \<rparr>"

record path_result =
  pr_paths :: "evidence_path list"
  pr_omitted_regions :: "path_omitted_region list"
  pr_status :: evidence_status

section \<open>Helpers\<close>

definition node_available_for_path :: "evidence_store \<Rightarrow> evidence_node_id \<Rightarrow> bool" where
  "node_available_for_path store node =
     (case evidence_node store node of None \<Rightarrow> False | Some node \<Rightarrow> evn_status node = Evs_Present)"

definition unavailable_node_status :: "evidence_store \<Rightarrow> evidence_node_id \<Rightarrow> evidence_node_id \<Rightarrow> evidence_status" where
  "unavailable_node_status store source sink =
     (if list_ex (\<lambda>node. case evidence_node store node of None \<Rightarrow> False | Some node \<Rightarrow> evn_status node = Evs_BudgetExceeded)
        [source, sink]
      then Evs_BudgetExceeded else Evs_Unknown)"

definition outgoing_ranked_edges :: "evidence_store \<Rightarrow> evidence_node_id \<Rightarrow> evidence_edge_fact list" where
  "outgoing_ranked_edges store node =
     sort_key (\<lambda>edge. key_text (evt_interner store) (eve_stable_key edge)) (evidence_outgoing store node)"

definition path_edge_allowed :: "evidence_edge_kind \<Rightarrow> path_mode \<Rightarrow> bool" where
  "path_edge_allowed kind mode =
     (case mode of
        Path_Local \<Rightarrow> kind \<notin> {Eve_ExplanationOnly, Eve_Unknown}
      | Path_SourceToSink \<Rightarrow>
          kind \<in> {Eve_DataValue, Eve_DataTaint, Eve_DataAddress, Eve_Call, Eve_Return, Eve_ParameterIn, Eve_ParameterOut,
            Eve_Summary, Eve_Model, Eve_Alias})"

text \<open>An edge that no search follows but that leaves its answer uncertain.\<close>

definition unavailable_edge :: "evidence_store \<Rightarrow> evidence_edge_fact \<Rightarrow> bool" where
  "unavailable_edge store edge \<longleftrightarrow>
     eve_status edge \<noteq> Evs_Present \<or> eve_kind edge = Eve_Unknown \<or>
     \<not> node_available_for_path store (eve_from edge) \<or> \<not> node_available_for_path store (eve_to edge)"

fun join_texts :: "string \<Rightarrow> string list \<Rightarrow> string" where
  "join_texts sep [] = []"
| "join_texts sep [text] = text"
| "join_texts sep (text # texts) = text @ sep @ join_texts sep texts"

definition path_key_text :: "evidence_store \<Rightarrow> evidence_edge_id list \<Rightarrow> string" where
  "path_key_text store edges =
     join_texts ''>'' (map (\<lambda>edge. case evidence_edge store edge of
        None \<Rightarrow> ''missing'' | Some edge \<Rightarrow> key_text (evt_interner store) (eve_stable_key edge)) edges)"

section \<open>Simple paths\<close>

record evidence_frame =
  ef_node :: evidence_node_id
  ef_nodes :: "evidence_node_id list"
  ef_edges :: "evidence_edge_id list"
  ef_visited :: "evidence_node_id fset"

definition evidence_path_from_frame :: "evidence_store \<Rightarrow> evidence_frame \<Rightarrow> evidence_path" where
  "evidence_path_from_frame store frame =
     \<lparr> evp_nodes = ef_nodes frame, evp_edges = ef_edges frame, evp_score = rank_score_for_edges store (ef_edges frame),
       evp_status = Evs_Present,
       evp_precision = (if list_all (\<lambda>edge. case evidence_edge store edge of
            None \<Rightarrow> False | Some edge \<Rightarrow> eve_precision edge = Evp_Exact) (ef_edges frame)
          then Evp_Exact else Evp_Heuristic),
       evp_stable_key_text = path_key_text store (ef_edges frame) \<rparr>"

record path_search =
  ps_queue :: "evidence_frame list"
  ps_paths :: "evidence_path list"
  ps_omitted :: "path_omitted_region list"
  ps_uncertain :: bool
  ps_expanded :: nat

definition search_edge ::
  "evidence_store \<Rightarrow> path_query \<Rightarrow> evidence_frame \<Rightarrow> evidence_edge_fact \<Rightarrow> path_search \<Rightarrow> path_search" where
  "search_edge store query frame edge st =
     (if eve_status edge = Evs_BudgetExceeded then st \<lparr> ps_omitted := ps_omitted st @ [omitted Omit_EdgeLimit 0 1] \<rparr>
      else if unavailable_edge store edge then st \<lparr> ps_uncertain := True \<rparr>
      else if \<not> path_edge_allowed (eve_kind edge) (pq_mode query) then st
      else if ps_expanded st \<ge> pb_max_edges (pq_budget query) then
        st \<lparr> ps_omitted := ps_omitted st @ [omitted Omit_EdgeLimit 0 1] \<rparr>
      else
        (let st = st \<lparr> ps_expanded := ps_expanded st + 1 \<rparr> in
         if eve_to edge |\<in>| ef_visited frame then st
         else if length (ef_nodes frame) \<ge> pb_max_nodes (pq_budget query) then
           st \<lparr> ps_omitted := ps_omitted st @ [omitted Omit_NodeLimit 1 0] \<rparr>
         else st \<lparr> ps_queue := ps_queue st @
           [\<lparr> ef_node = eve_to edge, ef_nodes = ef_nodes frame @ [eve_to edge], ef_edges = ef_edges frame @ [eve_id edge],
              ef_visited = finsert (eve_to edge) (ef_visited frame) \<rparr>] \<rparr>))"

definition expand_path_frame :: "evidence_store \<Rightarrow> path_query \<Rightarrow> evidence_frame \<Rightarrow> path_search \<Rightarrow> path_search" where
  "expand_path_frame store query frame st =
     (if length (ef_edges frame) \<ge> pb_max_depth (pq_budget query) then
        (if outgoing_ranked_edges store (ef_node frame) \<noteq> []
         then st \<lparr> ps_omitted := ps_omitted st @ [omitted Omit_DepthLimit 0 1] \<rparr> else st)
      else fold (search_edge store query frame) (outgoing_ranked_edges store (ef_node frame)) st)"

definition collect_path :: "evidence_store \<Rightarrow> path_query \<Rightarrow> evidence_frame \<Rightarrow> path_search \<Rightarrow> path_search" where
  "collect_path store query frame st =
     (let st = st \<lparr> ps_paths := ps_paths st @ [evidence_path_from_frame store frame] \<rparr> in
      if length (ps_paths st) \<ge> pb_max_paths (pq_budget query) \<and> ps_queue st \<noteq> [] then
        st \<lparr> ps_omitted := ps_omitted st @ [omitted Omit_PathCount 0 (length (ps_queue st) mod 2 ^ 32)] \<rparr>
      else st)"

definition path_fuel :: "path_query \<Rightarrow> evidence_frame \<Rightarrow> nat" where
  "path_fuel query frame = Suc (pb_max_depth (pq_budget query)) - length (ef_edges frame)"

lemma search_edge_queue:
  "\<exists>new. ps_queue (search_edge store query frame edge st) = ps_queue st @ new \<and>
     (\<forall>f \<in> set new. length (ef_edges f) = Suc (length (ef_edges frame)))"
  by (simp add: search_edge_def Let_def)

lemma search_fold_queue:
  "\<exists>new. ps_queue (fold (search_edge store query frame) edges st) = ps_queue st @ new \<and>
     (\<forall>f \<in> set new. length (ef_edges f) = Suc (length (ef_edges frame)))"
proof (induction edges arbitrary: st)
  case (Cons edge edges)
  obtain new where "ps_queue (search_edge store query frame edge st) = ps_queue st @ new"
    "\<forall>f \<in> set new. length (ef_edges f) = Suc (length (ef_edges frame))"
    using search_edge_queue by blast
  moreover obtain more where "ps_queue (fold (search_edge store query frame) edges (search_edge store query frame edge st)) =
      ps_queue (search_edge store query frame edge st) @ more"
    "\<forall>f \<in> set more. length (ef_edges f) = Suc (length (ef_edges frame))"
    using Cons.IH by blast
  ultimately show ?case by (intro exI [of _ "new @ more"]) auto
qed simp

lemma expand_path_frame_queue:
  "(ps_queue (expand_path_frame store query frame (st \<lparr> ps_queue := queue \<rparr>)), frame # queue) \<in> fuel_less (path_fuel query)"
proof (cases "length (ef_edges frame) \<ge> pb_max_depth (pq_budget query)")
  case True
  then show ?thesis by (simp add: expand_path_frame_def fuel_less_drop)
next
  case False
  obtain new where "ps_queue (expand_path_frame store query frame (st \<lparr> ps_queue := queue \<rparr>)) = queue @ new"
    "\<forall>f \<in> set new. length (ef_edges f) = Suc (length (ef_edges frame))"
    using False search_fold_queue [of store query frame "outgoing_ranked_edges store (ef_node frame)" "st \<lparr> ps_queue := queue \<rparr>"]
    by (auto simp: expand_path_frame_def)
  moreover from this False have "\<forall>f \<in> set new. path_fuel query f < path_fuel query frame" by (auto simp: path_fuel_def)
  ultimately show ?thesis using fuel_less_expand by metis
qed

function path_loop :: "evidence_store \<Rightarrow> path_query \<Rightarrow> path_search \<Rightarrow> path_search" where
  "path_loop store query st =
     (case ps_queue st of
        [] \<Rightarrow> st
      | frame # queue \<Rightarrow>
          (let st = st \<lparr> ps_queue := queue \<rparr> in
           if ef_node frame = pq_sink query then
             (if length (ps_paths st) + 1 \<ge> pb_max_paths (pq_budget query) then collect_path store query frame st
              else path_loop store query (collect_path store query frame st))
           else path_loop store query (expand_path_frame store query frame st)))"
  by pat_completeness auto

termination
proof (relation "inv_image (mult less_than) (\<lambda>(store, query, st). image_mset (path_fuel query) (mset (ps_queue st)))", goal_cases)
  case 1
  show ?case by (simp add: wf_mult)
qed (use fuel_less_drop expand_path_frame_queue in \<open>auto simp: fuel_less_def collect_path_def Let_def\<close>)

declare path_loop.simps [simp del]

definition path_start :: "path_query \<Rightarrow> path_search" where
  "path_start query =
     \<lparr> ps_queue = [\<lparr> ef_node = pq_source query, ef_nodes = [pq_source query], ef_edges = [], ef_visited = {|pq_source query|} \<rparr>],
       ps_paths = [], ps_omitted = [], ps_uncertain = False, ps_expanded = 0 \<rparr>"

definition path_status :: "path_search \<Rightarrow> evidence_status" where
  "path_status st =
     (if ps_omitted st \<noteq> [] then Evs_BudgetExceeded
      else if ps_paths st = [] \<or> ps_uncertain st then Evs_Unknown else Evs_Present)"

definition find_paths :: "evidence_store \<Rightarrow> path_query \<Rightarrow> path_result" where
  "find_paths store query =
     (if pb_max_paths (pq_budget query) = 0 then
        \<lparr> pr_paths = [], pr_omitted_regions = [omitted Omit_PathCount 0 1], pr_status = Evs_BudgetExceeded \<rparr>
      else if \<not> node_available_for_path store (pq_source query) \<or> \<not> node_available_for_path store (pq_sink query) then
        \<lparr> pr_paths = [], pr_omitted_regions = [],
          pr_status = unavailable_node_status store (pq_source query) (pq_sink query) \<rparr>
      else
        (let st = path_loop store query (path_start query)
         in \<lparr> pr_paths = sort_key (\<lambda>path. (score_key (evp_score path), evp_stable_key_text path)) (ps_paths st),
              pr_omitted_regions = ps_omitted st, pr_status = path_status st \<rparr>))"

section \<open>Chops\<close>

datatype chop_direction = Chop_Forward | Chop_Backward

record chop_query =
  cq_source :: evidence_node_id
  cq_sink :: evidence_node_id
  cq_budget :: path_budget

record chop_result =
  cr_nodes :: "evidence_node_id list"
  cr_status :: evidence_status

definition chop_edge_allowed :: "evidence_edge_kind \<Rightarrow> bool" where
  "chop_edge_allowed kind \<longleftrightarrow>
     path_edge_allowed kind Path_SourceToSink \<and> kind \<notin> {Eve_Call, Eve_Return, Eve_ParameterIn, Eve_ParameterOut}"

definition chop_edges :: "evidence_store \<Rightarrow> chop_direction \<Rightarrow> evidence_node_id \<Rightarrow> evidence_edge_fact list" where
  "chop_edges store direction node =
     (case direction of Chop_Forward \<Rightarrow> evidence_outgoing store node | Chop_Backward \<Rightarrow> evidence_incoming store node)"

definition chop_next :: "chop_direction \<Rightarrow> evidence_edge_fact \<Rightarrow> evidence_node_id" where
  "chop_next direction edge = (case direction of Chop_Forward \<Rightarrow> eve_to edge | Chop_Backward \<Rightarrow> eve_from edge)"

record chop_search =
  cs_seen :: "evidence_node_id fset"
  cs_queue :: "(evidence_node_id \<times> nat) list"
  cs_uncertain :: bool
  cs_exceeded :: bool
  cs_expanded :: nat

definition reach_edge ::
  "evidence_store \<Rightarrow> chop_direction \<Rightarrow> path_budget \<Rightarrow> nat \<Rightarrow> evidence_edge_fact \<Rightarrow> chop_search \<Rightarrow> chop_search" where
  "reach_edge store direction budget depth edge st =
     (if eve_status edge = Evs_BudgetExceeded then st \<lparr> cs_exceeded := True \<rparr>
      else if unavailable_edge store edge then st \<lparr> cs_uncertain := True \<rparr>
      else if \<not> chop_edge_allowed (eve_kind edge) then st
      else if cs_expanded st \<ge> pb_max_edges budget then st \<lparr> cs_exceeded := True \<rparr>
      else
        (let st = st \<lparr> cs_expanded := cs_expanded st + 1 \<rparr>; target = chop_next direction edge in
         if target |\<notin>| cs_seen st
         then st \<lparr> cs_seen := finsert target (cs_seen st), cs_queue := cs_queue st @ [(target, depth + 1)] \<rparr> else st))"

definition reach_node ::
  "evidence_store \<Rightarrow> chop_direction \<Rightarrow> path_budget \<Rightarrow> evidence_node_id \<Rightarrow> nat \<Rightarrow> chop_search \<Rightarrow> chop_search" where
  "reach_node store direction budget node depth st =
     (if fcard (cs_seen st) \<ge> pb_max_nodes budget \<or> depth \<ge> pb_max_depth budget then st \<lparr> cs_exceeded := True \<rparr>
      else fold (reach_edge store direction budget depth) (chop_edges store direction node) st)"

definition chop_targets :: "evidence_store \<Rightarrow> chop_direction \<Rightarrow> evidence_node_id set" where
  "chop_targets store direction = (\<Union>node. chop_next direction ` set (chop_edges store direction node))"

lemma finite_chop_targets [simp]: "finite (chop_targets store direction)"
  using finite_adjacent
  by (cases direction) (simp_all add: chop_targets_def chop_edges_def evidence_incoming_def evidence_outgoing_def)

text \<open>A node enters the queue only when it is new, so the walk ends.\<close>

lemma reach_edge_grows:
  "\<exists>new. cs_queue (reach_edge store direction budget depth edge st) = cs_queue st @ new \<and>
     cs_seen (reach_edge store direction budget depth edge st) = cs_seen st |\<union>| fset_of_list (map fst new) \<and>
     fst ` set new \<subseteq> {chop_next direction edge} - fset (cs_seen st)"
  by (auto simp: reach_edge_def Let_def)

lemma reach_fold_grows:
  "\<exists>new. cs_queue (fold (reach_edge store direction budget depth) edges st) = cs_queue st @ new \<and>
     cs_seen (fold (reach_edge store direction budget depth) edges st) = cs_seen st |\<union>| fset_of_list (map fst new) \<and>
     fst ` set new \<subseteq> chop_next direction ` set edges - fset (cs_seen st)"
proof (induction edges arbitrary: st)
  case (Cons edge edges)
  let ?st = "reach_edge store direction budget depth edge st"
  obtain new where new: "cs_queue ?st = cs_queue st @ new" "cs_seen ?st = cs_seen st |\<union>| fset_of_list (map fst new)"
    "fst ` set new \<subseteq> {chop_next direction edge} - fset (cs_seen st)"
    using reach_edge_grows by blast
  obtain more where more: "cs_queue (fold (reach_edge store direction budget depth) edges ?st) = cs_queue ?st @ more"
    "cs_seen (fold (reach_edge store direction budget depth) edges ?st) = cs_seen ?st |\<union>| fset_of_list (map fst more)"
    "fst ` set more \<subseteq> chop_next direction ` set edges - fset (cs_seen ?st)"
    using Cons.IH by blast
  have "fst ` set (new @ more) \<subseteq> chop_next direction ` set (edge # edges) - fset (cs_seen st)"
    using new(2,3) more(3) by (auto simp: fset_of_list.rep_eq)
  with new(1,2) more(1,2) show ?case by (intro exI [of _ "new @ more"]) (simp add: funion_assoc)
qed simp

lemma reach_node_decreases:
  assumes "st' = reach_node store direction budget node depth (st \<lparr> cs_queue := queue \<rparr>)"
  shows "card (chop_targets store direction - fset (cs_seen st')) < card (chop_targets store direction - fset (cs_seen st)) \<or>
    cs_seen st' = cs_seen st \<and> cs_queue st' = queue"
proof (cases "fcard (cs_seen st) \<ge> pb_max_nodes budget \<or> depth \<ge> pb_max_depth budget")
  case True
  then show ?thesis by (auto simp: assms reach_node_def)
next
  case False
  let ?edges = "chop_edges store direction node"
  obtain new where new: "cs_queue st' = queue @ new" "cs_seen st' = cs_seen st |\<union>| fset_of_list (map fst new)"
    "fst ` set new \<subseteq> chop_next direction ` set ?edges - fset (cs_seen st)"
    using False reach_fold_grows [of store direction budget depth ?edges "st \<lparr> cs_queue := queue \<rparr>"]
    unfolding assms reach_node_def by auto
  show ?thesis
  proof (cases new)
    case Nil
    with new show ?thesis by simp
  next
    case (Cons p more)
    then have "fst p \<in> chop_targets store direction" "fst p \<notin> fset (cs_seen st)" "fst p \<in> fset (cs_seen st')"
      using new by (auto simp: chop_targets_def)
    then have "chop_targets store direction - fset (cs_seen st') \<subset> chop_targets store direction - fset (cs_seen st)"
      using new(2) by (auto simp: sup_fset.rep_eq)
    then show ?thesis by (simp add: psubset_card_mono)
  qed
qed

function reach_loop :: "evidence_store \<Rightarrow> chop_direction \<Rightarrow> path_budget \<Rightarrow> chop_search \<Rightarrow> chop_search" where
  "reach_loop store direction budget st =
     (case cs_queue st of
        [] \<Rightarrow> st
      | (node, depth) # queue \<Rightarrow>
          reach_loop store direction budget (reach_node store direction budget node depth (st \<lparr> cs_queue := queue \<rparr>)))"
  by pat_completeness auto

termination
proof (relation "inv_image (less_than <*lex*> less_than)
    (\<lambda>(store, direction, budget, st). (card (chop_targets store direction - fset (cs_seen st)), length (cs_queue st)))", goal_cases)
  case (2 store direction budget st p queue node depth)
  then show ?case
    using reach_node_decreases [where store = store and direction = direction and budget = budget and node = node
        and depth = depth and st = st and queue = queue, OF refl] by auto
qed auto

declare reach_loop.simps [simp del]

definition chop_start :: "evidence_node_id \<Rightarrow> chop_search" where
  "chop_start node =
     \<lparr> cs_seen = {|node|}, cs_queue = [(node, 0)], cs_uncertain = False, cs_exceeded = False, cs_expanded = 0 \<rparr>"

definition reachable :: "evidence_store \<Rightarrow> evidence_node_id \<Rightarrow> chop_direction \<Rightarrow> path_budget \<Rightarrow> chop_search" where
  "reachable store start direction budget = reach_loop store direction budget (chop_start start)"

definition chop :: "evidence_store \<Rightarrow> chop_query \<Rightarrow> chop_result" where
  "chop store query =
     (let onward = reachable store (cq_source query) Chop_Forward (cq_budget query);
          backward = reachable store (cq_sink query) Chop_Backward (cq_budget query);
          nodes = bt_elems (cs_seen onward |\<inter>| cs_seen backward)
      in \<lparr> cr_nodes = nodes,
           cr_status = (if cs_exceeded onward \<or> cs_exceeded backward then Evs_BudgetExceeded
             else if nodes = [] \<or> cs_uncertain onward \<or> cs_uncertain backward then Evs_Unknown
             else Evs_Present) \<rparr>)"

end
