(* ===== verification/Evidence_Paths_Correct.thy ===== *)
theory Evidence_Paths_Correct
  imports Evidence_Paths
begin

text \<open>
  What \<open>find_paths\<close> promises. Every listed path is a simple path of usable edges from the source to the sink;
  without an omitted region all of them are listed, and a path exists exactly when the sink can be reached.
\<close>

section \<open>The search is a search through nodes\<close>

definition usable_edge :: "evidence_store \<Rightarrow> path_mode \<Rightarrow> evidence_edge_fact \<Rightarrow> bool" where
  "usable_edge store mode edge \<longleftrightarrow> \<not> unavailable_edge store edge \<and> path_edge_allowed (eve_kind edge) mode"

text \<open>An edge of a kind that the mode follows, whatever its status, or of unknown kind.\<close>

definition possible_edge :: "path_mode \<Rightarrow> evidence_edge_fact \<Rightarrow> bool" where
  "possible_edge mode edge \<longleftrightarrow> path_edge_allowed (eve_kind edge) mode \<or> eve_kind edge = Eve_Unknown"

definition node_moves :: "(evidence_edge_fact \<Rightarrow> bool) \<Rightarrow> evidence_store \<Rightarrow> evidence_node_id \<Rightarrow> evidence_edge_fact list" where
  "node_moves P store node = filter P (evidence_outgoing store node)"

definition node_move :: "evidence_node_id \<Rightarrow> evidence_edge_fact \<Rightarrow> evidence_node_id option" where
  "node_move node edge = Some (eve_to edge)"

definition frame_choices :: "(evidence_edge_fact \<Rightarrow> bool) \<Rightarrow> evidence_store \<Rightarrow> evidence_frame \<Rightarrow> evidence_edge_fact list" where
  "frame_choices P store frame = filter P (outgoing_ranked_edges store (ef_node frame))"

definition frame_step :: "evidence_frame \<Rightarrow> evidence_edge_fact \<Rightarrow> evidence_frame option" where
  "frame_step frame edge =
     (if eve_to edge |\<in>| ef_visited frame then None
      else Some \<lparr> ef_node = eve_to edge, ef_nodes = ef_nodes frame @ [eve_to edge], ef_edges = ef_edges frame @ [eve_id edge],
        ef_visited = finsert (eve_to edge) (ef_visited frame) \<rparr>)"

interpretation paths: config_search "\<lambda>frame. ef_node frame = sink" "frame_choices P store" frame_step
    "\<lambda>frame. length (ef_edges frame)" ef_node "\<lambda>frame. fset (ef_visited frame)" "node_moves P store" node_move
    "\<lambda>node. node = sink"
  for P store sink
  by unfold_locales
    (auto simp: frame_step_def node_move_def frame_choices_def node_moves_def outgoing_ranked_edges_def split: if_splits)

text \<open>A step over the edges of a frame queues the frames of some choices, and of all choices unless it omits an edge.\<close>

definition chosen :: "evidence_frame \<Rightarrow> (evidence_edge_fact \<Rightarrow> bool) \<Rightarrow> evidence_edge_fact list \<Rightarrow> evidence_frame list" where
  "chosen frame P edges = List.map_filter (frame_step frame) (filter P edges)"

lemma chosen_simps [simp]:
  "chosen frame P [] = []" "chosen frame P (edges @ rest) = chosen frame P edges @ chosen frame P rest"
  by (simp_all add: chosen_def List.map_filter_def)

lemma search_edge_effect:
  fixes st
  assumes "st' = search_edge store query frame edge st" "mode = pq_mode query"
  shows "\<exists>new. ps_queue st' = ps_queue st @ new \<and> set new \<subseteq> set (chosen frame (usable_edge store mode) [edge]) \<and>
    (\<forall>f \<in> set new. length (ef_nodes f) \<le> pb_max_nodes (pq_budget query)) \<and> ps_paths st' = ps_paths st \<and>
    (ps_omitted st' = [] \<longrightarrow> ps_omitted st = [] \<and> new = chosen frame (usable_edge store mode) [edge]) \<and>
    (ps_omitted st' = [] \<and> \<not> ps_uncertain st' \<longrightarrow> \<not> ps_uncertain st \<and> (usable_edge store mode edge \<longleftrightarrow> possible_edge mode edge))"
  unfolding assms
  by (auto simp: search_edge_def Let_def usable_edge_def possible_edge_def frame_step_def unavailable_edge_def
      chosen_def List.map_filter_def)

lemma search_fold_effect:
  assumes "st' = fold (search_edge store query frame) edges st" "mode = pq_mode query"
  shows "\<exists>new. ps_queue st' = ps_queue st @ new \<and> set new \<subseteq> set (chosen frame (usable_edge store mode) edges) \<and>
    (\<forall>f \<in> set new. length (ef_nodes f) \<le> pb_max_nodes (pq_budget query)) \<and> ps_paths st' = ps_paths st \<and>
    (ps_omitted st' = [] \<longrightarrow> ps_omitted st = [] \<and> new = chosen frame (usable_edge store mode) edges) \<and>
    (ps_omitted st' = [] \<and> \<not> ps_uncertain st' \<longrightarrow> \<not> ps_uncertain st \<and>
       (\<forall>edge \<in> set edges. usable_edge store mode edge \<longleftrightarrow> possible_edge mode edge))"
  using assms(1)
proof (induction edges arbitrary: st' rule: rev_induct)
  case (snoc edge edges)
  let ?st = "fold (search_edge store query frame) edges st"
  from snoc.IH [OF refl] obtain new where new: "ps_queue ?st = ps_queue st @ new"
    "set new \<subseteq> set (chosen frame (usable_edge store mode) edges)"
    "\<forall>f \<in> set new. length (ef_nodes f) \<le> pb_max_nodes (pq_budget query)" "ps_paths ?st = ps_paths st"
    "ps_omitted ?st = [] \<Longrightarrow> ps_omitted st = [] \<and> new = chosen frame (usable_edge store mode) edges"
    "ps_omitted ?st = [] \<Longrightarrow> \<not> ps_uncertain ?st \<Longrightarrow> \<not> ps_uncertain st \<and>
       (\<forall>edge \<in> set edges. usable_edge store mode edge \<longleftrightarrow> possible_edge mode edge)" by blast
  have st': "st' = search_edge store query frame edge ?st" using snoc.prems by simp
  from search_edge_effect [OF st' assms(2)] obtain one where one: "ps_queue st' = ps_queue ?st @ one"
    "set one \<subseteq> set (chosen frame (usable_edge store mode) [edge])"
    "\<forall>f \<in> set one. length (ef_nodes f) \<le> pb_max_nodes (pq_budget query)" "ps_paths st' = ps_paths ?st"
    "ps_omitted st' = [] \<Longrightarrow> ps_omitted ?st = [] \<and> one = chosen frame (usable_edge store mode) [edge]"
    "ps_omitted st' = [] \<Longrightarrow> \<not> ps_uncertain st' \<Longrightarrow> \<not> ps_uncertain ?st \<and>
       (usable_edge store mode edge \<longleftrightarrow> possible_edge mode edge)" by blast
  have "ps_queue st' = ps_queue st @ (new @ one)" using new(1) one(1) by simp
  moreover have "set (new @ one) \<subseteq> set (chosen frame (usable_edge store mode) (edges @ [edge]))" using new(2) one(2) by auto
  moreover have "\<forall>f \<in> set (new @ one). length (ef_nodes f) \<le> pb_max_nodes (pq_budget query)" using new(3) one(3) by auto
  moreover have "ps_omitted st' = [] \<longrightarrow> ps_omitted st = [] \<and> new @ one = chosen frame (usable_edge store mode) (edges @ [edge])"
    using new(5) one(5) by auto
  moreover have "ps_omitted st' = [] \<and> \<not> ps_uncertain st' \<longrightarrow> \<not> ps_uncertain st \<and>
       (\<forall>edge \<in> set (edges @ [edge]). usable_edge store mode edge \<longleftrightarrow> possible_edge mode edge)"
    using new(6) one(5,6) by auto
  moreover have "ps_paths st' = ps_paths st" using new(4) one(4) by simp
  ultimately show ?case by blast
qed (auto simp: chosen_def)

text \<open>The same for a whole frame, which may also be cut at the depth limit.\<close>

lemma expand_path_frame_effect:
  assumes "st' = expand_path_frame store query frame st" "mode = pq_mode query"
  shows "\<exists>new. ps_queue st' = ps_queue st @ new \<and>
    set new \<subseteq> set (List.map_filter (frame_step frame) (frame_choices (usable_edge store mode) store frame)) \<and>
    (\<forall>f \<in> set new. length (ef_nodes f) \<le> pb_max_nodes (pq_budget query) \<and> length (ef_edges f) \<le> pb_max_depth (pq_budget query)) \<and>
    ps_paths st' = ps_paths st \<and>
    (ps_omitted st' = [] \<longrightarrow> ps_omitted st = [] \<and>
       new = List.map_filter (frame_step frame) (frame_choices (usable_edge store mode) store frame)) \<and>
    (ps_omitted st' = [] \<and> \<not> ps_uncertain st' \<longrightarrow> \<not> ps_uncertain st \<and>
       new = List.map_filter (frame_step frame) (frame_choices (possible_edge mode) store frame))"
proof (cases "length (ef_edges frame) \<ge> pb_max_depth (pq_budget query)")
  case True
  then show ?thesis
    unfolding assms expand_path_frame_def by (auto simp: frame_choices_def List.map_filter_def)
next
  case False
  let ?edges = "outgoing_ranked_edges store (ef_node frame)"
  have st': "st' = fold (search_edge store query frame) ?edges st" using False by (simp add: assms expand_path_frame_def)
  from search_fold_effect [OF st' assms(2)] obtain new where new: "ps_queue st' = ps_queue st @ new"
    "set new \<subseteq> set (chosen frame (usable_edge store mode) ?edges)"
    "\<forall>f \<in> set new. length (ef_nodes f) \<le> pb_max_nodes (pq_budget query)" "ps_paths st' = ps_paths st"
    "ps_omitted st' = [] \<Longrightarrow> ps_omitted st = [] \<and> new = chosen frame (usable_edge store mode) ?edges"
    "ps_omitted st' = [] \<Longrightarrow> \<not> ps_uncertain st' \<Longrightarrow> \<not> ps_uncertain st \<and>
       (\<forall>edge \<in> set ?edges. usable_edge store mode edge \<longleftrightarrow> possible_edge mode edge)" by blast
  have all: "chosen frame P ?edges = List.map_filter (frame_step frame) (frame_choices P store frame)" for P
    by (simp add: chosen_def frame_choices_def)
  have depth: "length (ef_edges f) \<le> pb_max_depth (pq_budget query)" if "f \<in> set new" for f
  proof -
    have "f \<in> set (chosen frame (usable_edge store mode) ?edges)" using that new(2) by blast
    then show ?thesis using False by (auto simp: chosen_def set_map_filter_iff frame_step_def split: if_splits)
  qed
  have "chosen frame (usable_edge store mode) ?edges = chosen frame (possible_edge mode) ?edges"
    if "ps_omitted st' = []" "\<not> ps_uncertain st'"
  proof -
    have "filter (usable_edge store mode) ?edges = filter (possible_edge mode) ?edges"
      using new(6) [OF that] by (intro filter_cong) auto
    then show ?thesis by (simp add: chosen_def)
  qed
  then show ?thesis using new depth unfolding all [symmetric] by auto
qed

text \<open>The loop of \<open>find_paths\<close> is such a loop over frames.\<close>

definition frame_fits :: "path_budget \<Rightarrow> evidence_frame \<Rightarrow> bool" where
  "frame_fits budget frame \<longleftrightarrow>
     length (ef_nodes frame) \<le> max 1 (pb_max_nodes budget) \<and> length (ef_edges frame) \<le> pb_max_depth budget"

definition collect_first :: "evidence_store \<Rightarrow> path_query \<Rightarrow> path_search \<Rightarrow> path_search" where
  "collect_first store query st = collect_path store query (hd (ps_queue st)) (st \<lparr> ps_queue := tl (ps_queue st) \<rparr>)"

definition expand_first :: "evidence_store \<Rightarrow> path_query \<Rightarrow> path_search \<Rightarrow> path_search" where
  "expand_first store query st = expand_path_frame store query (hd (ps_queue st)) (st \<lparr> ps_queue := tl (ps_queue st) \<rparr>)"

interpretation path_loops: frame_loop "\<lambda>frame. ef_node frame = pq_sink query"
    "frame_choices (usable_edge store (pq_mode query)) store" "frame_choices (possible_edge (pq_mode query)) store" frame_step
    "\<lambda>frame. length (ef_edges frame)" ps_queue ps_paths "evidence_path_from_frame store" "\<lambda>st. ps_omitted st = []"
    "\<lambda>st. \<not> ps_uncertain st" "frame_fits (pq_budget query)" "pb_max_paths (pq_budget query)" "path_fuel query"
    "collect_first store query" "expand_first store query" "path_loop store query"
  for store query
proof unfold_locales
  show "set (frame_choices (usable_edge store (pq_mode query)) store f) \<subseteq> set (frame_choices (possible_edge (pq_mode query)) store f)"
    for f by (auto simp: frame_choices_def usable_edge_def possible_edge_def)
next
  fix st :: path_search and f fs assume "ps_queue st = f # fs"
  then show "ps_queue (collect_first store query st) = fs \<and>
      ps_paths (collect_first store query st) = ps_paths st @ [evidence_path_from_frame store f] \<and>
      (\<not> ps_uncertain (collect_first store query st)) = (\<not> ps_uncertain st) \<and>
      (ps_omitted (collect_first store query st) = [] \<longrightarrow> ps_omitted st = []) \<and>
      (pb_max_paths (pq_budget query) \<le> Suc (length (ps_paths st)) \<and> ps_omitted (collect_first store query st) = [] \<longrightarrow> fs = [])"
    by (auto simp: collect_first_def collect_path_def Let_def)
next
  fix st :: path_search and f fs assume queue: "ps_queue st = f # fs"
  let ?all = "\<lambda>P. List.map_filter (frame_step f) (frame_choices P store f)" and ?st = "expand_first store query st"
  have st': "?st = expand_path_frame store query f (st \<lparr> ps_queue := fs \<rparr>)" by (simp add: expand_first_def queue)
  from expand_path_frame_effect [OF st' refl] obtain new where new: "ps_queue ?st = fs @ new" "ps_paths ?st = ps_paths st"
    "set new \<subseteq> set (?all (usable_edge store (pq_mode query)))"
    "\<forall>g \<in> set new. length (ef_nodes g) \<le> pb_max_nodes (pq_budget query) \<and> length (ef_edges g) \<le> pb_max_depth (pq_budget query)"
    "ps_omitted ?st = [] \<Longrightarrow> ps_omitted st = [] \<and> new = ?all (usable_edge store (pq_mode query))"
    "ps_omitted ?st = [] \<Longrightarrow> \<not> ps_uncertain ?st \<Longrightarrow> \<not> ps_uncertain st \<and> new = ?all (possible_edge (pq_mode query))" by auto
  have "frame_fits (pq_budget query) g \<and> path_fuel query g < path_fuel query f" if g: "g \<in> set new" for g
  proof -
    have "g \<in> set (?all (usable_edge store (pq_mode query)))" using g new(3) by blast
    then have "length (ef_edges g) = Suc (length (ef_edges f))" by (auto simp: set_map_filter_iff frame_step_def split: if_splits)
    then show ?thesis using new(4) g by (auto simp: frame_fits_def path_fuel_def)
  qed
  then show "\<exists>new. ps_queue ?st = fs @ new \<and> ps_paths ?st = ps_paths st \<and> set new \<subseteq> set (?all (usable_edge store (pq_mode query))) \<and>
      (\<forall>g \<in> set new. (frame_fits (pq_budget query) f \<longrightarrow> frame_fits (pq_budget query) g) \<and> path_fuel query g < path_fuel query f) \<and>
      (ps_omitted ?st = [] \<longrightarrow> ps_omitted st = [] \<and> new = ?all (usable_edge store (pq_mode query))) \<and>
      (ps_omitted ?st = [] \<and> \<not> ps_uncertain ?st \<longrightarrow> \<not> ps_uncertain st \<and> new = ?all (possible_edge (pq_mode query)))"
    using new by blast
next
  fix st :: path_search
  show "path_loop store query st = (case ps_queue st of [] \<Rightarrow> st | f # fs \<Rightarrow>
      if ef_node f = pq_sink query
      then if pb_max_paths (pq_budget query) \<le> Suc (length (ps_paths st)) then collect_first store query st
        else path_loop store query (collect_first store query st)
      else path_loop store query (expand_first store query st))"
    by (subst path_loop.simps) (simp add: collect_first_def expand_first_def Let_def split: list.split)
qed

section \<open>Simple paths\<close>

definition simple_path ::
  "(evidence_edge_fact \<Rightarrow> bool) \<Rightarrow> evidence_store \<Rightarrow> evidence_node_id \<Rightarrow> evidence_node_id \<Rightarrow> evidence_node_id list \<Rightarrow>
    evidence_edge_fact list \<Rightarrow> bool" where
  "simple_path P store source sink nodes es \<longleftrightarrow>
     nodes = source # map eve_to es \<and> distinct nodes \<and> last nodes = sink \<and>
     (\<forall>i < length es. es ! i \<in> set (evo_edges (evt_output store)) \<and> P (es ! i) \<and> eve_from (es ! i) = nodes ! i)"

definition edge_reach ::
  "(evidence_edge_fact \<Rightarrow> bool) \<Rightarrow> evidence_store \<Rightarrow> evidence_node_id \<Rightarrow> evidence_node_id \<Rightarrow> bool" where
  "edge_reach P store =
     (\<lambda>a b. \<exists>edge \<in> set (evo_edges (evt_output store)). P edge \<and> eve_from edge = a \<and> eve_to edge = b)\<^sup>*\<^sup>*"

lemma node_moves_iff:
  "evidence_store_ok store \<Longrightarrow>
    edge \<in> set (node_moves P store a) \<longleftrightarrow> edge \<in> set (evo_edges (evt_output store)) \<and> P edge \<and> eve_from edge = a"
  by (auto simp: node_moves_def ok_adjacent)

lemma node_run_iff:
  assumes "evidence_store_ok store"
  shows "config_run (node_moves P store) node_move a es = Some cs \<longleftrightarrow> cs = a # map eve_to es \<and>
    (\<forall>i < length es. es ! i \<in> set (evo_edges (evt_output store)) \<and> P (es ! i) \<and> eve_from (es ! i) = (a # map eve_to es) ! i)"
proof (induction es arbitrary: a cs)
  case (Cons edge es)
  have move: "Option.bind (node_move a edge) f = f (eve_to edge)" for f :: "nat \<Rightarrow> nat list option" by (simp add: node_move_def)
  have split: "(\<forall>i < Suc n. Q i) \<longleftrightarrow> Q 0 \<and> (\<forall>i < n. Q (Suc i))" for n and Q :: "nat \<Rightarrow> bool" by (rule All_less_Suc2)
  show ?case
    by (auto simp: node_moves_iff [OF assms] split move Cons.IH)
qed auto

lemma node_direct_run:
  assumes "evidence_store_ok store"
  shows "direct_run (node_moves P store) node_move (\<lambda>node. node = sink) a es cs \<and> last cs = sink \<longleftrightarrow> simple_path P store a sink cs es"
proof -
  have "x \<noteq> last cs" if "distinct cs" "x \<in> set (butlast cs)" for x
    using that by (metis append_butlast_last_id distinct_butlast distinct_append empty_iff in_set_conv_nth list.set(1) not_distinct_conv_prefix snoc_eq_iff_butlast butlast.simps(1))
  then show ?thesis
    unfolding direct_run_def simple_path_def node_run_iff [OF assms] by blast
qed

lemma node_config_step:
  "evidence_store_ok store \<Longrightarrow> (config_step (node_moves P store) node_move)\<^sup>*\<^sup>* = edge_reach P store"
proof -
  assume ok: "evidence_store_ok store"
  have "config_step (node_moves P store) node_move =
      (\<lambda>a b. \<exists>edge \<in> set (evo_edges (evt_output store)). P edge \<and> eve_from edge = a \<and> eve_to edge = b)"
    by (intro ext) (auto simp: config_step_def node_moves_iff [OF ok] node_move_def)
  then show ?thesis by (simp add: edge_reach_def)
qed

lemma frame_trail:
  "paths.trail sink P store f es = Some g \<Longrightarrow>
    ef_nodes g = ef_nodes f @ map eve_to es \<and> ef_edges g = ef_edges f @ map eve_id es"
proof (induction es arbitrary: g rule: rev_induct)
  case (snoc e es)
  from snoc.prems obtain h where h: "paths.trail sink P store f es = Some h" "frame_step h e = Some g"
    unfolding paths.trail_snoc by blast
  from h(2) have "ef_nodes g = ef_nodes h @ [eve_to e]" "ef_edges g = ef_edges h @ [eve_id e]"
    by (auto simp: frame_step_def split: if_splits)
  with snoc.IH [OF h(1)] show ?case by simp
qed simp

text \<open>The frames at the sink, from the frame at the source.\<close>

abbreviation source_frame :: "path_query \<Rightarrow> evidence_frame" where
  "source_frame query \<equiv>
     \<lparr> ef_node = pq_source query, ef_nodes = [pq_source query], ef_edges = [], ef_visited = {|pq_source query|} \<rparr>"

lemma ends_simple_paths:
  assumes "evidence_store_ok store"
  shows "(\<lambda>f. (ef_nodes f, ef_edges f)) ` paths.ends (pq_sink query) P store [source_frame query] =
    {(nodes, map eve_id es) | nodes es. simple_path P store (pq_source query) (pq_sink query) nodes es}"
proof (intro set_eqI iffI)
  fix x assume "x \<in> (\<lambda>f. (ef_nodes f, ef_edges f)) ` paths.ends (pq_sink query) P store [source_frame query]"
  then obtain g es where g: "x = (ef_nodes g, ef_edges g)" "ef_node g = pq_sink query"
    "paths.trail (pq_sink query) P store (source_frame query) es = Some g" by (auto simp: paths.ends_def)
  have "fset (ef_visited (source_frame query)) = {ef_node (source_frame query)}" by simp
  from paths.trail_run [OF this g(3)] obtain cs where
    "direct_run (node_moves P store) node_move (\<lambda>node. node = pq_sink query) (pq_source query) es cs" "ef_node g = last cs" by auto
  then have "simple_path P store (pq_source query) (pq_sink query) cs es" using node_direct_run [OF assms] g(2) by metis
  moreover from this have "ef_nodes g = cs" using frame_trail [OF g(3)] by (simp add: simple_path_def)
  moreover have "ef_edges g = map eve_id es" using frame_trail [OF g(3)] by simp
  ultimately show "x \<in> {(nodes, map eve_id es) | nodes es. simple_path P store (pq_source query) (pq_sink query) nodes es}"
    using g(1) by blast
next
  fix x assume "x \<in> {(nodes, map eve_id es) | nodes es. simple_path P store (pq_source query) (pq_sink query) nodes es}"
  then obtain nodes es where x: "x = (nodes, map eve_id es)" and path: "simple_path P store (pq_source query) (pq_sink query) nodes es"
    by blast
  have own: "fset (ef_visited (source_frame query)) = {ef_node (source_frame query)}" by simp
  from path have direct: "direct_run (node_moves P store) node_move (\<lambda>node. node = pq_sink query) (ef_node (source_frame query)) es nodes"
    and last: "last nodes = pq_sink query" using node_direct_run [OF assms, of P "pq_sink query"] by auto
  from paths.run_trail [OF own direct] obtain g where g: "paths.trail (pq_sink query) P store (source_frame query) es = Some g" by blast
  from paths.trail_run [OF own g] obtain cs where "direct_run (node_moves P store) node_move (\<lambda>node. node = pq_sink query)
      (ef_node (source_frame query)) es cs" "ef_node g = last cs" by blast
  moreover from this direct have "cs = nodes" by (simp add: direct_run_def)
  ultimately have "ef_node g = pq_sink query" using last by simp
  moreover have "x = (ef_nodes g, ef_edges g)" using frame_trail [OF g] path x by (simp add: simple_path_def)
  ultimately show "x \<in> (\<lambda>f. (ef_nodes f, ef_edges f)) ` paths.ends (pq_sink query) P store [source_frame query]"
    using g by (auto simp: paths.ends_def)
qed

lemma simple_path_exists:
  assumes "evidence_store_ok store"
  shows "(\<exists>nodes es. simple_path P store source sink nodes es) \<longleftrightarrow> edge_reach P store source sink"
proof
  assume "\<exists>nodes es. simple_path P store source sink nodes es"
  then obtain nodes es where path: "simple_path P store source sink nodes es" by blast
  then have "config_run (node_moves P store) node_move source es = Some nodes"
    by (auto simp: simple_path_def node_run_iff [OF assms])
  moreover have "nodes \<noteq> []" "last nodes = sink" using path by (auto simp: simple_path_def)
  then have "sink \<in> set nodes" using last_in_set by blast
  ultimately show "edge_reach P store source sink"
    using config_run_reaches unfolding node_config_step [OF assms, symmetric] by metis
next
  assume "edge_reach P store source sink"
  then have "(config_step (node_moves P store) node_move)\<^sup>*\<^sup>* source sink" unfolding node_config_step [OF assms] .
  from direct_run_exists [OF this, of "\<lambda>node. node = sink"] show "\<exists>nodes es. simple_path P store source sink nodes es"
    unfolding node_direct_run [OF assms] by blast
qed

section \<open>The answers\<close>

abbreviation path_steps :: "evidence_path \<Rightarrow> evidence_node_id list \<times> evidence_edge_id list" where
  "path_steps path \<equiv> (evp_nodes path, evp_edges path)"

abbreviation path_rank :: "evidence_path \<Rightarrow> (nat \<times> nat \<times> nat \<times> nat \<times> nat \<times> int \<times> int) \<times> string" where
  "path_rank path \<equiv> (score_key (evp_score path), evp_stable_key_text path)"

definition simple_paths ::
  "(evidence_edge_fact \<Rightarrow> bool) \<Rightarrow> evidence_store \<Rightarrow> evidence_node_id \<Rightarrow> evidence_node_id \<Rightarrow>
    (evidence_node_id list \<times> evidence_edge_id list) set" where
  "simple_paths P store source sink = {(nodes, map eve_id es) | nodes es. simple_path P store source sink nodes es}"

lemma find_paths_cases:
  obtains (refused) "pr_paths (find_paths store query) = []" "pr_omitted_regions (find_paths store query) \<noteq> []"
      "pr_status (find_paths store query) = Evs_BudgetExceeded"
  | (unavailable) "\<not> (node_available_for_path store (pq_source query) \<and> node_available_for_path store (pq_sink query))"
      "pr_paths (find_paths store query) = []" "pr_status (find_paths store query) \<noteq> Evs_Present"
  | (searched) found st where "node_available_for_path store (pq_source query)" "node_available_for_path store (pq_sink query)"
      "pr_paths (find_paths store query) = sort_key path_rank (ps_paths st)"
      "pr_omitted_regions (find_paths store query) = ps_omitted st" "pr_status (find_paths store query) = path_status st"
      "path_steps ` set (ps_paths st) = (\<lambda>f. (ef_nodes f, ef_edges f)) ` set found"
      "length (ps_paths st) \<le> pb_max_paths (pq_budget query)" "\<forall>f \<in> set found. frame_fits (pq_budget query) f"
      "set found \<subseteq> paths.ends (pq_sink query) (usable_edge store (pq_mode query)) store [source_frame query]"
      "ps_omitted st = [] \<Longrightarrow>
        set found = paths.ends (pq_sink query) (usable_edge store (pq_mode query)) store [source_frame query]"
      "ps_omitted st = [] \<Longrightarrow> \<not> ps_uncertain st \<Longrightarrow>
        set found = paths.ends (pq_sink query) (possible_edge (pq_mode query)) store [source_frame query]"
proof (cases "pb_max_paths (pq_budget query) = 0")
  case True
  then show ?thesis using refused by (simp add: find_paths_def)
next
  case False
  show ?thesis
  proof (cases "node_available_for_path store (pq_source query) \<and> node_available_for_path store (pq_sink query)")
    case True
    let ?st = "path_loop store query (path_start query)"
    have start: "pb_max_paths (pq_budget query) > 0" "frame_fits (pq_budget query) (source_frame query)"
      "ps_queue (path_start query) = [source_frame query]" "ps_paths (path_start query) = []"
      using False by (simp_all add: path_start_def frame_fits_def)
    obtain found where found: "ps_paths ?st = map (evidence_path_from_frame store) found"
      "length (ps_paths ?st) \<le> pb_max_paths (pq_budget query)" "\<forall>g \<in> set found. frame_fits (pq_budget query) g"
      "set found \<subseteq> paths.ends (pq_sink query) (usable_edge store (pq_mode query)) store [source_frame query]"
      "ps_omitted ?st = [] \<Longrightarrow> set found = paths.ends (pq_sink query) (usable_edge store (pq_mode query)) store [source_frame query]"
      "ps_omitted ?st = [] \<Longrightarrow> \<not> ps_uncertain ?st \<Longrightarrow>
        set found = paths.ends (pq_sink query) (possible_edge (pq_mode query)) store [source_frame query]"
      using path_loops.loop_lists [where store = store, OF start] by blast
    have "path_steps ` set (ps_paths ?st) = (\<lambda>f. (ef_nodes f, ef_edges f)) ` set found"
      by (simp add: found(1) image_image evidence_path_from_frame_def)
    from searched [OF _ _ _ _ _ this found(2-6)] show ?thesis using True False by (simp add: find_paths_def Let_def)
  next
    case unavail: False
    then show ?thesis using False unavailable by (simp add: find_paths_def unavailable_node_status_def)
  qed
qed

text \<open>
  C11: Every listed path is a simple path of usable edges from the source to the sink, within the limits on depth and
  nodes; there are at most as many as asked for, in the order of their rank.
\<close>

theorem evidence_paths_sound:
  assumes "evidence_store_from_output output interner = Checked store"
  shows "length (pr_paths (find_paths store query)) \<le> pb_max_paths (pq_budget query) \<and>
    sorted (map path_rank (pr_paths (find_paths store query))) \<and>
    (\<forall>path \<in> set (pr_paths (find_paths store query)). \<exists>es.
       simple_path (usable_edge store (pq_mode query)) store (pq_source query) (pq_sink query) (evp_nodes path) es \<and>
       evp_edges path = map eve_id es \<and> length es \<le> pb_max_depth (pq_budget query) \<and>
       length (evp_nodes path) \<le> max 1 (pb_max_nodes (pq_budget query)))"
proof (cases store query rule: find_paths_cases)
  case (searched found st)
  have ok: "evidence_store_ok store" by (rule from_output_ok(1) [OF assms])
  note found = searched(6-9) and ends = ends_simple_paths [OF ok, of query "usable_edge store (pq_mode query)"]
  have "\<exists>es. simple_path (usable_edge store (pq_mode query)) store (pq_source query) (pq_sink query) (evp_nodes path) es \<and>
       evp_edges path = map eve_id es \<and> length es \<le> pb_max_depth (pq_budget query) \<and>
       length (evp_nodes path) \<le> max 1 (pb_max_nodes (pq_budget query))" if "path \<in> set (ps_paths st)" for path
  proof -
    have "path_steps path \<in> (\<lambda>f. (ef_nodes f, ef_edges f)) ` set found" using that found(1) by blast
    then obtain f where f: "f \<in> set found" "evp_nodes path = ef_nodes f" "evp_edges path = ef_edges f" by auto
    then have "(ef_nodes f, ef_edges f) \<in> {(nodes, map eve_id es) | nodes es.
        simple_path (usable_edge store (pq_mode query)) store (pq_source query) (pq_sink query) nodes es}"
      using found(4) unfolding ends [symmetric] by blast
    then obtain es where "simple_path (usable_edge store (pq_mode query)) store (pq_source query) (pq_sink query) (ef_nodes f) es"
      "ef_edges f = map eve_id es" by blast
    moreover have "frame_fits (pq_budget query) f" using found(3) f(1) by blast
    ultimately show ?thesis using f(2,3) by (auto simp: frame_fits_def)
  qed
  then show ?thesis unfolding searched(3) using found(2) by simp
qed auto

text \<open>
  C12: Without an omitted region the answer is complete: it lists exactly the simple paths of usable edges between
  available ends, and lists none exactly when no walk of usable edges leads to the sink. An answer that is
  marked present also leaves no path open that an uncertain edge could add.
\<close>

theorem evidence_paths_complete:
  assumes "evidence_store_from_output output interner = Checked store"
    and "pr_omitted_regions (find_paths store query) = []"
  shows "path_steps ` set (pr_paths (find_paths store query)) =
      (if node_available_for_path store (pq_source query) \<and> node_available_for_path store (pq_sink query)
       then simple_paths (usable_edge store (pq_mode query)) store (pq_source query) (pq_sink query) else {}) \<and>
    (pr_paths (find_paths store query) \<noteq> [] \<longleftrightarrow>
       node_available_for_path store (pq_source query) \<and> node_available_for_path store (pq_sink query) \<and>
       edge_reach (usable_edge store (pq_mode query)) store (pq_source query) (pq_sink query)) \<and>
    (pr_status (find_paths store query) = Evs_Present \<longrightarrow> pr_paths (find_paths store query) \<noteq> [] \<and>
       path_steps ` set (pr_paths (find_paths store query)) =
         simple_paths (possible_edge (pq_mode query)) store (pq_source query) (pq_sink query))"
proof (cases store query rule: find_paths_cases)
  case refused
  then show ?thesis using assms(2) by simp
next
  case unavailable
  then show ?thesis by auto
next
  case (searched found st)
  have ok: "evidence_store_ok store" by (rule from_output_ok(1) [OF assms(1)])
  note ends = ends_simple_paths [OF ok, of query]
  have none: "ps_omitted st = []" using assms(2) searched(4) by simp
  have steps: "path_steps ` set (pr_paths (find_paths store query)) = (\<lambda>f. (ef_nodes f, ef_edges f)) ` set found"
    unfolding searched(3) using searched(6) by simp
  have usable: "path_steps ` set (pr_paths (find_paths store query)) =
      simple_paths (usable_edge store (pq_mode query)) store (pq_source query) (pq_sink query)"
    unfolding steps searched(10) [OF none] ends simple_paths_def ..
  have possible: "path_steps ` set (pr_paths (find_paths store query)) =
      simple_paths (possible_edge (pq_mode query)) store (pq_source query) (pq_sink query)" if "\<not> ps_uncertain st"
    unfolding steps searched(11) [OF none that] ends simple_paths_def ..
  have "pr_paths (find_paths store query) \<noteq> [] \<longleftrightarrow>
      simple_paths (usable_edge store (pq_mode query)) store (pq_source query) (pq_sink query) \<noteq> {}"
    unfolding usable [symmetric] by simp
  also have "\<dots> \<longleftrightarrow> edge_reach (usable_edge store (pq_mode query)) store (pq_source query) (pq_sink query)"
    unfolding simple_path_exists [OF ok, symmetric] simple_paths_def by blast
  finally have some: "pr_paths (find_paths store query) \<noteq> [] \<longleftrightarrow>
      edge_reach (usable_edge store (pq_mode query)) store (pq_source query) (pq_sink query)" .
  have present: "\<not> ps_uncertain st" "pr_paths (find_paths store query) \<noteq> []" if "pr_status (find_paths store query) = Evs_Present"
  proof -
    have full: "\<not> ps_uncertain st" "ps_paths st \<noteq> []"
      using that unfolding searched(5) path_status_def by (auto split: if_splits)
    then show "\<not> ps_uncertain st" by blast
    have "set (pr_paths (find_paths store query)) \<noteq> {}" unfolding searched(3) set_sort using full(2) by simp
    then show "pr_paths (find_paths store query) \<noteq> []" by force
  qed
  have both: "node_available_for_path store (pq_source query) \<and> node_available_for_path store (pq_sink query)"
    using searched(1,2) ..
  show ?thesis
  proof (intro conjI impI)
    show "path_steps ` set (pr_paths (find_paths store query)) =
      (if node_available_for_path store (pq_source query) \<and> node_available_for_path store (pq_sink query)
       then simple_paths (usable_edge store (pq_mode query)) store (pq_source query) (pq_sink query) else {})"
      unfolding if_P [OF both] by (rule usable)
    show "pr_paths (find_paths store query) \<noteq> [] \<longleftrightarrow>
       node_available_for_path store (pq_source query) \<and> node_available_for_path store (pq_sink query) \<and>
       edge_reach (usable_edge store (pq_mode query)) store (pq_source query) (pq_sink query)"
      using some both by blast
    assume now: "pr_status (find_paths store query) = Evs_Present"
    show "pr_paths (find_paths store query) \<noteq> []" by (rule present(2) [OF now])
    show "path_steps ` set (pr_paths (find_paths store query)) =
         simple_paths (possible_edge (pq_mode query)) store (pq_source query) (pq_sink query)"
      by (rule possible [OF present(1) [OF now]])
  qed
qed

end
