(* ===== verification/Evidence_Chop.thy ===== *)
theory Evidence_Chop
  imports Evidence_Paths_Correct
begin

text \<open>
  What \<open>chop\<close> promises. A chop lies between its ends, and is exactly what lies between them when no limit cuts the
  walk of either direction short.
\<close>

section \<open>Chops\<close>

definition usable_chop_edge :: "evidence_store \<Rightarrow> evidence_edge_fact \<Rightarrow> bool" where
  "usable_chop_edge store edge \<longleftrightarrow> \<not> unavailable_edge store edge \<and> chop_edge_allowed (eve_kind edge)"

definition possible_chop_edge :: "evidence_edge_fact \<Rightarrow> bool" where
  "possible_chop_edge edge \<longleftrightarrow> chop_edge_allowed (eve_kind edge) \<or> eve_kind edge = Eve_Unknown"

definition chop_step ::
  "(evidence_edge_fact \<Rightarrow> bool) \<Rightarrow> evidence_store \<Rightarrow> chop_direction \<Rightarrow> evidence_node_id \<Rightarrow> evidence_node_id \<Rightarrow> bool" where
  "chop_step P store direction a b \<longleftrightarrow> (\<exists>edge \<in> set (chop_edges store direction a). P edge \<and> chop_next direction edge = b)"

lemma reach_edge_effect:
  fixes st
  assumes "st' = reach_edge store direction budget depth edge st"
  shows "\<exists>new. cs_queue st' = cs_queue st @ new \<and> cs_seen st' = cs_seen st |\<union>| fset_of_list (map fst new) \<and>
    (\<forall>p \<in> set new. usable_chop_edge store edge \<and> fst p = chop_next direction edge) \<and>
    (\<not> cs_exceeded st' \<longrightarrow> \<not> cs_exceeded st \<and>
       (usable_chop_edge store edge \<longrightarrow> chop_next direction edge |\<in>| cs_seen st') \<and>
       (\<not> cs_uncertain st' \<longrightarrow> \<not> cs_uncertain st \<and> (possible_chop_edge edge \<longrightarrow> usable_chop_edge store edge)))"
proof -
  consider (exceeded) "eve_status edge = Evs_BudgetExceeded" | (unavailable) "eve_status edge \<noteq> Evs_BudgetExceeded" "unavailable_edge store edge"
    | (other) "\<not> unavailable_edge store edge" "\<not> chop_edge_allowed (eve_kind edge)" "eve_status edge \<noteq> Evs_BudgetExceeded"
    | (usable) "usable_chop_edge store edge" "eve_status edge \<noteq> Evs_BudgetExceeded"
    by (auto simp: usable_chop_edge_def)
  then show ?thesis
  proof cases
    case exceeded
    then have "st' = st \<lparr> cs_exceeded := True \<rparr>" by (simp add: assms reach_edge_def)
    then show ?thesis by (intro exI [of _ "[]"]) simp
  next
    case unavailable
    then have "st' = st \<lparr> cs_uncertain := True \<rparr>" "\<not> usable_chop_edge store edge"
      by (simp_all add: assms reach_edge_def usable_chop_edge_def)
    then show ?thesis by (intro exI [of _ "[]"]) simp
  next
    case other
    then have "st' = st" "\<not> usable_chop_edge store edge" "\<not> possible_chop_edge edge"
      by (simp_all add: assms reach_edge_def usable_chop_edge_def possible_chop_edge_def unavailable_edge_def)
    then show ?thesis by (intro exI [of _ "[]"]) simp
  next
    case usable
    then have parts: "\<not> unavailable_edge store edge" "chop_edge_allowed (eve_kind edge)" by (auto simp: usable_chop_edge_def)
    let ?t = "chop_next direction edge"
    show ?thesis
    proof (cases "pb_max_edges budget \<le> cs_expanded st")
      case True
      then have "st' = st \<lparr> cs_exceeded := True \<rparr>" using usable parts by (simp add: assms reach_edge_def)
      then show ?thesis by (intro exI [of _ "[]"]) simp
    next
      case False
      then have st': "st' = (if ?t |\<notin>| cs_seen st
          then st \<lparr> cs_expanded := cs_expanded st + 1, cs_seen := finsert ?t (cs_seen st), cs_queue := cs_queue st @ [(?t, depth + 1)] \<rparr>
          else st \<lparr> cs_expanded := cs_expanded st + 1 \<rparr>)" using usable parts by (simp add: assms reach_edge_def Let_def)
      show ?thesis
      proof (cases "?t |\<in>| cs_seen st")
        case True
        then show ?thesis using usable(1) by (intro exI [of _ "[]"]) (simp add: st')
      next
        case False
        then show ?thesis using usable(1) by (intro exI [of _ "[(?t, depth + 1)]"]) (simp add: st')
      qed
    qed
  qed
qed

lemma reach_fold_effect:
  fixes st
  assumes "st' = fold (reach_edge store direction budget depth) edges st"
  shows "\<exists>new. cs_queue st' = cs_queue st @ new \<and> cs_seen st' = cs_seen st |\<union>| fset_of_list (map fst new) \<and>
    (\<forall>p \<in> set new. \<exists>edge \<in> set edges. usable_chop_edge store edge \<and> fst p = chop_next direction edge) \<and>
    (\<not> cs_exceeded st' \<longrightarrow> \<not> cs_exceeded st \<and>
       (\<forall>edge \<in> set edges. usable_chop_edge store edge \<longrightarrow> chop_next direction edge |\<in>| cs_seen st') \<and>
       (\<not> cs_uncertain st' \<longrightarrow> \<not> cs_uncertain st \<and>
          (\<forall>edge \<in> set edges. possible_chop_edge edge \<longrightarrow> usable_chop_edge store edge)))"
  using assms
proof (induction edges arbitrary: st' rule: rev_induct)
  case (snoc edge edges)
  let ?st = "fold (reach_edge store direction budget depth) edges st"
  from snoc.IH [OF refl] obtain new where new: "cs_queue ?st = cs_queue st @ new"
    "cs_seen ?st = cs_seen st |\<union>| fset_of_list (map fst new)"
    "\<forall>p \<in> set new. \<exists>edge \<in> set edges. usable_chop_edge store edge \<and> fst p = chop_next direction edge"
    "\<not> cs_exceeded ?st \<Longrightarrow> \<not> cs_exceeded st \<and>
       (\<forall>edge \<in> set edges. usable_chop_edge store edge \<longrightarrow> chop_next direction edge |\<in>| cs_seen ?st)"
    "\<not> cs_exceeded ?st \<Longrightarrow> \<not> cs_uncertain ?st \<Longrightarrow> \<not> cs_uncertain st \<and>
       (\<forall>edge \<in> set edges. possible_chop_edge edge \<longrightarrow> usable_chop_edge store edge)" by blast
  have st': "st' = reach_edge store direction budget depth edge ?st" using snoc.prems by simp
  from reach_edge_effect [OF st'] obtain one where one: "cs_queue st' = cs_queue ?st @ one"
    "cs_seen st' = cs_seen ?st |\<union>| fset_of_list (map fst one)"
    "\<forall>p \<in> set one. usable_chop_edge store edge \<and> fst p = chop_next direction edge"
    "\<not> cs_exceeded st' \<Longrightarrow> \<not> cs_exceeded ?st \<and> (usable_chop_edge store edge \<longrightarrow> chop_next direction edge |\<in>| cs_seen st')"
    "\<not> cs_exceeded st' \<Longrightarrow> \<not> cs_uncertain st' \<Longrightarrow> \<not> cs_uncertain ?st \<and>
       (possible_chop_edge edge \<longrightarrow> usable_chop_edge store edge)" by blast
  have "cs_queue st' = cs_queue st @ (new @ one)" using new(1) one(1) by simp
  moreover have "cs_seen st' = cs_seen st |\<union>| fset_of_list (map fst (new @ one))" using new(2) one(2) by (simp add: funion_assoc)
  moreover have "\<forall>p \<in> set (new @ one). \<exists>edge \<in> set (edges @ [edge]). usable_chop_edge store edge \<and> fst p = chop_next direction edge"
    using new(3) one(3) by auto
  moreover have "\<not> cs_exceeded st' \<longrightarrow> \<not> cs_exceeded st \<and>
       (\<forall>edge \<in> set (edges @ [edge]). usable_chop_edge store edge \<longrightarrow> chop_next direction edge |\<in>| cs_seen st')"
    using new(4) one(2,4) by auto
  moreover have "\<not> cs_exceeded st' \<longrightarrow> \<not> cs_uncertain st' \<longrightarrow> \<not> cs_uncertain st \<and>
          (\<forall>edge \<in> set (edges @ [edge]). possible_chop_edge edge \<longrightarrow> usable_chop_edge store edge)"
    using new(5) one(4,5) by auto
  ultimately show ?case by blast
qed auto

text \<open>The walk of one direction stays within what the start reaches, and is closed when no limit is hit.\<close>

definition chop_inv :: "evidence_store \<Rightarrow> chop_direction \<Rightarrow> evidence_node_id \<Rightarrow> chop_search \<Rightarrow> bool" where
  "chop_inv store direction start st \<longleftrightarrow>
     start |\<in>| cs_seen st \<and> (\<forall>p \<in> set (cs_queue st). fst p |\<in>| cs_seen st) \<and>
     (\<forall>n. n |\<in>| cs_seen st \<longrightarrow> (chop_step (usable_chop_edge store) store direction)\<^sup>*\<^sup>* start n) \<and>
     (\<not> cs_exceeded st \<longrightarrow> (\<forall>n. n |\<in>| cs_seen st \<longrightarrow> n \<notin> fst ` set (cs_queue st) \<longrightarrow>
        (\<forall>edge \<in> set (chop_edges store direction n).
           (usable_chop_edge store edge \<longrightarrow> chop_next direction edge |\<in>| cs_seen st) \<and>
           (\<not> cs_uncertain st \<longrightarrow> possible_chop_edge edge \<longrightarrow> usable_chop_edge store edge))))"

lemma reach_node_inv:
  assumes inv: "chop_inv store direction start st" and queue: "cs_queue st = (node, depth) # queue"
    and st': "st' = reach_node store direction budget node depth (st \<lparr> cs_queue := queue \<rparr>)"
  shows "chop_inv store direction start st'"
proof (cases "fcard (cs_seen st) \<ge> pb_max_nodes budget \<or> depth \<ge> pb_max_depth budget")
  case True
  then have "st' = st \<lparr> cs_queue := queue, cs_exceeded := True \<rparr>" by (auto simp: st' reach_node_def)
  then show ?thesis using inv queue by (simp add: chop_inv_def)
next
  case False
  let ?step = "chop_step (usable_chop_edge store) store direction" and ?edges = "chop_edges store direction node"
  note parts = inv [unfolded chop_inv_def]
  have "st' = fold (reach_edge store direction budget depth) ?edges (st \<lparr> cs_queue := queue \<rparr>)"
    using False by (simp add: st' reach_node_def)
  from reach_fold_effect [OF this] obtain new where new: "cs_queue st' = queue @ new"
    "cs_seen st' = cs_seen st |\<union>| fset_of_list (map fst new)"
    "\<forall>p \<in> set new. \<exists>edge \<in> set ?edges. usable_chop_edge store edge \<and> fst p = chop_next direction edge"
    "\<not> cs_exceeded st' \<Longrightarrow> \<not> cs_exceeded st \<and>
       (\<forall>edge \<in> set ?edges. usable_chop_edge store edge \<longrightarrow> chop_next direction edge |\<in>| cs_seen st')"
    "\<not> cs_exceeded st' \<Longrightarrow> \<not> cs_uncertain st' \<Longrightarrow> \<not> cs_uncertain st \<and>
       (\<forall>edge \<in> set ?edges. possible_chop_edge edge \<longrightarrow> usable_chop_edge store edge)" by auto
  have node: "?step\<^sup>*\<^sup>* start node" using parts queue by auto
  have seen: "n |\<in>| cs_seen st' \<longleftrightarrow> n |\<in>| cs_seen st \<or> n \<in> fst ` set new" for n by (simp add: new(2) fset_of_list.rep_eq)
  have reach: "?step\<^sup>*\<^sup>* start n" if n: "n |\<in>| cs_seen st'" for n
  proof (cases "n |\<in>| cs_seen st")
    case False
    then have "n \<in> fst ` set new" using n unfolding seen by blast
    then obtain p where p: "p \<in> set new" "n = fst p" by blast
    then obtain edge where "edge \<in> set ?edges" "usable_chop_edge store edge" "n = chop_next direction edge" using new(3) by blast
    then have "?step node n" unfolding chop_step_def by blast
    with node show ?thesis by (rule rtranclp.rtrancl_into_rtrancl)
  qed (use parts in blast)
  have closed: "(usable_chop_edge store edge \<longrightarrow> chop_next direction edge |\<in>| cs_seen st') \<and>
      (\<not> cs_uncertain st' \<longrightarrow> possible_chop_edge edge \<longrightarrow> usable_chop_edge store edge)"
    if run: "\<not> cs_exceeded st'" and n: "n |\<in>| cs_seen st'" "n \<notin> fst ` set (cs_queue st')"
      and edge: "edge \<in> set (chop_edges store direction n)" for n edge
  proof (cases "n = node")
    case True
    with edge new(4,5) [OF run] show ?thesis by blast
  next
    case False
    have "n \<notin> fst ` set (cs_queue st)" "n |\<in>| cs_seen st" using n False by (auto simp: new(1) queue seen)
    then have "(usable_chop_edge store edge \<longrightarrow> chop_next direction edge |\<in>| cs_seen st) \<and>
        (\<not> cs_uncertain st \<longrightarrow> possible_chop_edge edge \<longrightarrow> usable_chop_edge store edge)"
      using parts edge new(4) [OF run] by blast
    then show ?thesis using seen new(5) [OF run] by blast
  qed
  have "start |\<in>| cs_seen st'" "\<forall>p \<in> set (cs_queue st'). fst p |\<in>| cs_seen st'" using parts queue by (auto simp: seen new(1))
  then show ?thesis unfolding chop_inv_def using reach closed by blast
qed

lemma reach_loop_inv:
  "chop_inv store direction start st \<Longrightarrow>
    chop_inv store direction start (reach_loop store direction budget st) \<and> cs_queue (reach_loop store direction budget st) = []"
proof (induction store direction budget st rule: reach_loop.induct)
  case (1 store direction budget st)
  show ?case
  proof (cases "cs_queue st")
    case Nil
    then show ?thesis using 1 by (simp add: reach_loop.simps [of _ _ _ st])
  next
    case (Cons p queue)
    obtain node depth where p: "p = (node, depth)" by (cases p)
    have run: "reach_loop store direction budget st =
        reach_loop store direction budget (reach_node store direction budget node depth (st \<lparr> cs_queue := queue \<rparr>))"
      by (subst reach_loop.simps) (simp add: Cons p)
    have "chop_inv store direction start (reach_node store direction budget node depth (st \<lparr> cs_queue := queue \<rparr>))"
      using reach_node_inv [OF 1(2) _ refl] Cons p by blast
    from 1(1) [OF Cons p [symmetric] this] show ?thesis unfolding run .
  qed
qed

lemma rtranclp_mono_on:
  assumes "R\<^sup>*\<^sup>* a b" "Q a" "\<And>x y. Q x \<Longrightarrow> R x y \<Longrightarrow> Q y"
  shows "Q b"
  using assms by (induction rule: rtranclp_induct) auto

lemma reachable_exact:
  assumes "st = reachable store start direction budget"
  shows "n |\<in>| cs_seen st \<Longrightarrow> (chop_step (usable_chop_edge store) store direction)\<^sup>*\<^sup>* start n"
    and "\<not> cs_exceeded st \<Longrightarrow> (chop_step (usable_chop_edge store) store direction)\<^sup>*\<^sup>* start n \<Longrightarrow> n |\<in>| cs_seen st"
    and "\<not> cs_exceeded st \<Longrightarrow> \<not> cs_uncertain st \<Longrightarrow> (chop_step possible_chop_edge store direction)\<^sup>*\<^sup>* start n \<Longrightarrow>
      n |\<in>| cs_seen st"
proof -
  have "chop_inv store direction start (chop_start start)" by (simp add: chop_inv_def chop_start_def)
  from reach_loop_inv [OF this, of budget] have inv: "chop_inv store direction start st" "cs_queue st = []"
    by (simp_all add: assms reachable_def)
  note parts = inv(1) [unfolded chop_inv_def inv(2)]
  show "n |\<in>| cs_seen st \<Longrightarrow> (chop_step (usable_chop_edge store) store direction)\<^sup>*\<^sup>* start n" using parts by blast
  have start: "start |\<in>| cs_seen st" using parts by blast
  show "n |\<in>| cs_seen st" if "\<not> cs_exceeded st" "(chop_step (usable_chop_edge store) store direction)\<^sup>*\<^sup>* start n"
    by (rule rtranclp_mono_on [OF that(2), of "\<lambda>n. n |\<in>| cs_seen st"]) (use parts that(1) start in \<open>auto simp: chop_step_def\<close>)
  show "n |\<in>| cs_seen st" if "\<not> cs_exceeded st" "\<not> cs_uncertain st" "(chop_step possible_chop_edge store direction)\<^sup>*\<^sup>* start n"
    by (rule rtranclp_mono_on [OF that(3), of "\<lambda>n. n |\<in>| cs_seen st"]) (use parts that(1,2) start in \<open>auto simp: chop_step_def\<close>)
qed

lemma chop_step_reach:
  assumes "evidence_store_ok store"
  shows "(chop_step P store Chop_Forward)\<^sup>*\<^sup>* a b \<longleftrightarrow> edge_reach P store a b"
    and "(chop_step P store Chop_Backward)\<^sup>*\<^sup>* b a \<longleftrightarrow> edge_reach P store a b"
proof -
  let ?R = "\<lambda>a b. \<exists>edge \<in> set (evo_edges (evt_output store)). P edge \<and> eve_from edge = a \<and> eve_to edge = b"
  have "chop_step P store Chop_Forward = ?R"
    by (intro ext) (auto simp: chop_step_def chop_edges_def chop_next_def ok_adjacent [OF assms])
  then show "(chop_step P store Chop_Forward)\<^sup>*\<^sup>* a b \<longleftrightarrow> edge_reach P store a b" by (simp add: edge_reach_def)
  have "chop_step P store Chop_Backward = ?R\<inverse>\<inverse>"
    by (intro ext) (auto simp: chop_step_def chop_edges_def chop_next_def ok_adjacent [OF assms])
  then show "(chop_step P store Chop_Backward)\<^sup>*\<^sup>* b a \<longleftrightarrow> edge_reach P store a b"
    by (simp add: edge_reach_def rtranclp_conversep)
qed

text \<open>
  C13: A chop contains only nodes on walks of usable edges inside functions from the source to the sink. Unless a limit
  was exceeded it contains all of them, and one that is marked present has missed none that an uncertain edge could add.
\<close>

theorem chop_exact:
  assumes "evidence_store_from_output output interner = Checked store"
  shows "set (cr_nodes (chop store query)) \<subseteq>
      {n. edge_reach (usable_chop_edge store) store (cq_source query) n \<and> edge_reach (usable_chop_edge store) store n (cq_sink query)} \<and>
    (cr_status (chop store query) \<noteq> Evs_BudgetExceeded \<longrightarrow> set (cr_nodes (chop store query)) =
      {n. edge_reach (usable_chop_edge store) store (cq_source query) n \<and> edge_reach (usable_chop_edge store) store n (cq_sink query)}) \<and>
    (cr_status (chop store query) = Evs_Present \<longrightarrow> cr_nodes (chop store query) \<noteq> [] \<and> set (cr_nodes (chop store query)) =
      {n. edge_reach possible_chop_edge store (cq_source query) n \<and> edge_reach possible_chop_edge store n (cq_sink query)})"
proof -
  have ok: "evidence_store_ok store" by (rule from_output_ok(1) [OF assms])
  let ?f = "reachable store (cq_source query) Chop_Forward (cq_budget query)"
  let ?b = "reachable store (cq_sink query) Chop_Backward (cq_budget query)"
  have nodes: "set (cr_nodes (chop store query)) = {n. n |\<in>| cs_seen ?f \<and> n |\<in>| cs_seen ?b}"
    by (auto simp: chop_def Let_def bt_elems_def sorted_list_of_fset.rep_eq)
  have status: "cr_status (chop store query) \<noteq> Evs_BudgetExceeded \<Longrightarrow> \<not> cs_exceeded ?f \<and> \<not> cs_exceeded ?b"
    "cr_status (chop store query) = Evs_Present \<Longrightarrow> \<not> cs_exceeded ?f \<and> \<not> cs_exceeded ?b \<and> \<not> cs_uncertain ?f \<and>
      \<not> cs_uncertain ?b \<and> cr_nodes (chop store query) \<noteq> []"
    by (auto simp: chop_def Let_def split: if_splits)
  note f = reachable_exact [where store = store and start = "cq_source query" and direction = Chop_Forward and budget = "cq_budget query", OF refl, unfolded chop_step_reach [OF ok]]
    and b = reachable_exact [where store = store and start = "cq_sink query" and direction = Chop_Backward and budget = "cq_budget query", OF refl, unfolded chop_step_reach [OF ok]]
  have "edge_reach possible_chop_edge store a c" if "edge_reach (usable_chop_edge store) store a c" for a c
    using that unfolding edge_reach_def
    by (rule rtranclp_mono [THEN predicate2D, rotated]) (auto simp: usable_chop_edge_def possible_chop_edge_def)
  then have present: "set (cr_nodes (chop store query)) =
      {n. edge_reach possible_chop_edge store (cq_source query) n \<and> edge_reach possible_chop_edge store n (cq_sink query)}"
    if "cr_status (chop store query) = Evs_Present" unfolding nodes using status(2) [OF that] f(1,3) b(1,3) by blast
  show ?thesis using nodes f(1,2) b(1,2) status present by blast
qed

end
