(* ===== verification/Interprocedural_Paths.thy ===== *)
theory Interprocedural_Paths
  imports Evidence_Paths
begin

text \<open>
  \<open>find_interprocedural_paths\<close> of \<open>slicing/interprocedural.rs\<close>: like \<open>find_paths\<close>, but a frame also keeps the stack of
  call sites it has entered, a return must match the last of them, and a frame may pass a node again with another
  stack. Availability, edge order and path text are the same helpers in both files and are stated in
  \<open>Evidence_Paths\<close>.
\<close>

section \<open>Queries and results\<close>

record icp_query =
  iq_source :: evidence_node_id
  iq_sink :: evidence_node_id
  iq_budget :: path_budget
  iq_depth :: nat

record icp_path =
  icp_nodes :: "evidence_node_id list"
  icp_edges :: "evidence_edge_id list"
  icp_score :: path_rank_score
  icp_text :: string

record icp_result =
  ir_paths :: "icp_path list"
  ir_omitted_regions :: "path_omitted_region list"
  ir_unknown_edges :: "evidence_edge_id list"
  ir_status :: evidence_status

type_synonym path_context = "call_site_id list"

record icp_frame =
  if_node :: evidence_node_id
  if_nodes :: "evidence_node_id list"
  if_edges :: "evidence_edge_id list"
  if_visited :: "(evidence_node_id \<times> path_context) fset"
  if_context :: path_context

section \<open>The search\<close>

text \<open>The context after an edge, and the regions that its computation omits.\<close>

definition transition_context ::
  "path_context \<Rightarrow> evidence_edge_fact \<Rightarrow> nat \<Rightarrow> path_omitted_region list \<Rightarrow> path_context option \<times> path_omitted_region list" where
  "transition_context context edge max_depth regions =
     (if eve_kind edge \<in> {Eve_ParameterIn, Eve_Call} then
        (case eve_call_site edge of
           None \<Rightarrow> (None, regions)
         | Some site \<Rightarrow>
             if length context \<ge> max_depth then (None, regions @ [omitted Omit_DepthLimit 0 1])
             else (Some (context @ [site]), regions))
      else if eve_kind edge \<in> {Eve_ParameterOut, Eve_Return} then
        (case eve_call_site edge of
           None \<Rightarrow> (None, regions)
         | Some site \<Rightarrow>
             if (if context = [] then None else Some (last context)) \<noteq> Some site then (None, regions)
             else (Some (butlast context), regions))
      else (Some context, regions))"

definition icp_path_from_frame :: "evidence_store \<Rightarrow> icp_frame \<Rightarrow> icp_path" where
  "icp_path_from_frame store frame =
     \<lparr> icp_nodes = if_nodes frame, icp_edges = if_edges frame, icp_score = rank_score_for_edges store (if_edges frame),
       icp_text = path_key_text store (if_edges frame) \<rparr>"

record icp_search =
  is_queue :: "icp_frame list"
  is_paths :: "icp_path list"
  is_omitted :: "path_omitted_region list"
  is_unknown :: "evidence_edge_id fset"
  is_expanded :: nat

definition icp_edge :: "evidence_store \<Rightarrow> icp_query \<Rightarrow> icp_frame \<Rightarrow> evidence_edge_fact \<Rightarrow> icp_search \<Rightarrow> icp_search" where
  "icp_edge store query frame edge st =
     (if eve_status edge = Evs_BudgetExceeded then
        st \<lparr> is_unknown := finsert (eve_id edge) (is_unknown st), is_omitted := is_omitted st @ [omitted Omit_EdgeLimit 0 1] \<rparr>
      else if unavailable_edge store edge then st \<lparr> is_unknown := finsert (eve_id edge) (is_unknown st) \<rparr>
      else if \<not> path_edge_allowed (eve_kind edge) Path_SourceToSink then st
      else if is_expanded st \<ge> pb_max_edges (iq_budget query) then
        st \<lparr> is_omitted := is_omitted st @ [omitted Omit_EdgeLimit 0 1] \<rparr>
      else
        (let st = st \<lparr> is_expanded := is_expanded st + 1 \<rparr>;
             (next_context, regions) = transition_context (if_context frame) edge (iq_depth query) (is_omitted st);
             st = st \<lparr> is_omitted := regions \<rparr>
         in case next_context of
              None \<Rightarrow> st
            | Some context \<Rightarrow>
                if (eve_to edge, context) |\<in>| if_visited frame then st
                else if length (if_nodes frame) \<ge> pb_max_nodes (iq_budget query) then
                  st \<lparr> is_omitted := is_omitted st @ [omitted Omit_NodeLimit 1 0] \<rparr>
                else st \<lparr> is_queue := is_queue st @
                  [\<lparr> if_node = eve_to edge, if_nodes = if_nodes frame @ [eve_to edge], if_edges = if_edges frame @ [eve_id edge],
                     if_visited = finsert (eve_to edge, context) (if_visited frame), if_context = context \<rparr>] \<rparr>))"

definition icp_expand :: "evidence_store \<Rightarrow> icp_query \<Rightarrow> icp_frame \<Rightarrow> icp_search \<Rightarrow> icp_search" where
  "icp_expand store query frame st =
     (if length (if_edges frame) \<ge> pb_max_depth (iq_budget query) then
        st \<lparr> is_omitted := is_omitted st @ [omitted Omit_DepthLimit 0 1] \<rparr>
      else fold (icp_edge store query frame) (outgoing_ranked_edges store (if_node frame)) st)"

definition icp_collect :: "evidence_store \<Rightarrow> icp_query \<Rightarrow> icp_frame \<Rightarrow> icp_search \<Rightarrow> icp_search" where
  "icp_collect store query frame st =
     (let st = st \<lparr> is_paths := is_paths st @ [icp_path_from_frame store frame] \<rparr> in
      if length (is_paths st) \<ge> pb_max_paths (iq_budget query) \<and> is_queue st \<noteq> [] then
        st \<lparr> is_omitted := is_omitted st @ [omitted Omit_PathCount 0 (length (is_queue st) mod 2 ^ 32)] \<rparr>
      else st)"

text \<open>The search ends: frames grow by one edge at a time, up to the depth limit.\<close>

definition icp_fuel :: "icp_query \<Rightarrow> icp_frame \<Rightarrow> nat" where
  "icp_fuel query frame = Suc (pb_max_depth (iq_budget query)) - length (if_edges frame)"

lemma icp_fold_queue:
  "\<exists>new. is_queue (fold (icp_edge store query frame) edges st) = is_queue st @ new \<and>
     (\<forall>f \<in> set new. length (if_edges f) = Suc (length (if_edges frame)))"
proof (induction edges arbitrary: st)
  case (Cons edge edges)
  have "\<exists>new. is_queue (icp_edge store query frame edge st) = is_queue st @ new \<and>
      (\<forall>f \<in> set new. length (if_edges f) = Suc (length (if_edges frame)))"
    by (simp add: icp_edge_def Let_def split: prod.split option.split)
  then obtain new where "is_queue (icp_edge store query frame edge st) = is_queue st @ new"
    "\<forall>f \<in> set new. length (if_edges f) = Suc (length (if_edges frame))" by blast
  moreover obtain rest where "is_queue (fold (icp_edge store query frame) edges (icp_edge store query frame edge st)) =
      is_queue (icp_edge store query frame edge st) @ rest"
    "\<forall>f \<in> set rest. length (if_edges f) = Suc (length (if_edges frame))"
    using Cons.IH by blast
  ultimately show ?case by (intro exI [of _ "new @ rest"]) auto
qed simp

lemma icp_expand_queue:
  "(is_queue (icp_expand store query frame (st \<lparr> is_queue := queue \<rparr>)), frame # queue) \<in> fuel_less (icp_fuel query)"
proof (cases "length (if_edges frame) \<ge> pb_max_depth (iq_budget query)")
  case True
  then show ?thesis by (simp add: icp_expand_def fuel_less_drop)
next
  case False
  obtain new where "is_queue (icp_expand store query frame (st \<lparr> is_queue := queue \<rparr>)) = queue @ new"
    "\<forall>f \<in> set new. length (if_edges f) = Suc (length (if_edges frame))"
    using False icp_fold_queue [of store query frame "outgoing_ranked_edges store (if_node frame)" "st \<lparr> is_queue := queue \<rparr>"]
    by (auto simp: icp_expand_def)
  moreover from this False have "\<forall>f \<in> set new. icp_fuel query f < icp_fuel query frame" by (auto simp: icp_fuel_def)
  ultimately show ?thesis using fuel_less_expand by metis
qed

function icp_loop :: "evidence_store \<Rightarrow> icp_query \<Rightarrow> icp_search \<Rightarrow> icp_search" where
  "icp_loop store query st =
     (case is_queue st of
        [] \<Rightarrow> st
      | frame # queue \<Rightarrow>
          (let st = st \<lparr> is_queue := queue \<rparr> in
           if if_node frame = iq_sink query then
             (if length (is_paths st) + 1 \<ge> pb_max_paths (iq_budget query) then icp_collect store query frame st
              else icp_loop store query (icp_collect store query frame st))
           else icp_loop store query (icp_expand store query frame st)))"
  by pat_completeness auto

termination
proof (relation "inv_image (mult less_than) (\<lambda>(store, query, st). image_mset (icp_fuel query) (mset (is_queue st)))", goal_cases)
  case 1
  show ?case by (simp add: wf_mult)
qed (use fuel_less_drop icp_expand_queue in \<open>auto simp: fuel_less_def icp_collect_def Let_def\<close>)

declare icp_loop.simps [simp del]

definition icp_start :: "icp_query \<Rightarrow> icp_search" where
  "icp_start query =
     \<lparr> is_queue = [\<lparr> if_node = iq_source query, if_nodes = [iq_source query], if_edges = [],
         if_visited = {|(iq_source query, [])|}, if_context = [] \<rparr>],
       is_paths = [], is_omitted = [], is_unknown = {||}, is_expanded = 0 \<rparr>"

definition icp_status :: "icp_search \<Rightarrow> evidence_status" where
  "icp_status st =
     (if is_omitted st \<noteq> [] then Evs_BudgetExceeded
      else if is_unknown st \<noteq> {||} \<or> is_paths st = [] then Evs_Unknown else Evs_Present)"

definition find_interprocedural_paths :: "evidence_store \<Rightarrow> icp_query \<Rightarrow> icp_result" where
  "find_interprocedural_paths store query =
     (if pb_max_paths (iq_budget query) = 0 then
        \<lparr> ir_paths = [], ir_omitted_regions = [omitted Omit_PathCount 0 1], ir_unknown_edges = [],
          ir_status = Evs_BudgetExceeded \<rparr>
      else if \<not> node_available_for_path store (iq_source query) \<or> \<not> node_available_for_path store (iq_sink query) then
        \<lparr> ir_paths = [], ir_omitted_regions = [], ir_unknown_edges = [],
          ir_status = unavailable_node_status store (iq_source query) (iq_sink query) \<rparr>
      else
        (let st = icp_loop store query (icp_start query)
         in \<lparr> ir_paths = sort_key (\<lambda>path. (score_key (icp_score path), icp_text path)) (is_paths st),
              ir_omitted_regions = is_omitted st, ir_unknown_edges = bt_elems (is_unknown st), ir_status = icp_status st \<rparr>))"

end
