(* ===== verification/Interprocedural_Correct.thy ===== *)
theory Interprocedural_Correct
  imports Interprocedural_Paths Evidence_Paths_Correct
begin

text \<open>
  What \<open>find_interprocedural_paths\<close> promises. Its configurations are a node with the stack of open call sites; every
  listed path is a realizable run to the sink within the limits, and without an omitted region all runs without
  repetition are listed and an empty answer means that no realizable run reaches the sink.
\<close>

section \<open>The search is a search through nodes and call stacks\<close>

text \<open>The stack after an edge, without a limit on its depth.\<close>

definition context_after :: "path_context \<Rightarrow> evidence_edge_fact \<Rightarrow> path_context option" where
  "context_after context edge =
     (if eve_kind edge \<in> {Eve_ParameterIn, Eve_Call} then map_option (\<lambda>site. context @ [site]) (eve_call_site edge)
      else if eve_kind edge \<in> {Eve_ParameterOut, Eve_Return} then
        (if context \<noteq> [] \<and> eve_call_site edge = Some (last context) then Some (butlast context) else None)
      else Some context)"

definition call_moves ::
  "(evidence_edge_fact \<Rightarrow> bool) \<Rightarrow> evidence_store \<Rightarrow> evidence_node_id \<times> path_context \<Rightarrow> evidence_edge_fact list" where
  "call_moves P store config = node_moves P store (fst config)"

definition call_move ::
  "evidence_node_id \<times> path_context \<Rightarrow> evidence_edge_fact \<Rightarrow> (evidence_node_id \<times> path_context) option" where
  "call_move config edge = map_option (Pair (eve_to edge)) (context_after (snd config) edge)"

definition icp_choices :: "(evidence_edge_fact \<Rightarrow> bool) \<Rightarrow> evidence_store \<Rightarrow> icp_frame \<Rightarrow> evidence_edge_fact list" where
  "icp_choices P store frame = filter P (outgoing_ranked_edges store (if_node frame))"

definition icp_step :: "icp_frame \<Rightarrow> evidence_edge_fact \<Rightarrow> icp_frame option" where
  "icp_step frame edge =
     (case context_after (if_context frame) edge of
        None \<Rightarrow> None
      | Some context \<Rightarrow>
          if (eve_to edge, context) |\<in>| if_visited frame then None
          else Some \<lparr> if_node = eve_to edge, if_nodes = if_nodes frame @ [eve_to edge], if_edges = if_edges frame @ [eve_id edge],
            if_visited = finsert (eve_to edge, context) (if_visited frame), if_context = context \<rparr>)"

interpretation icp: config_search "\<lambda>frame. if_node frame = sink" "icp_choices P store" icp_step "\<lambda>frame. length (if_edges frame)"
    "\<lambda>frame. (if_node frame, if_context frame)" "\<lambda>frame. fset (if_visited frame)" "call_moves P store" call_move
    "\<lambda>config. fst config = sink"
  for P store sink
  by unfold_locales
    (auto simp: icp_step_def call_move_def icp_choices_def call_moves_def node_moves_def outgoing_ranked_edges_def
      split: if_splits option.splits)

abbreviation icp_usable :: "evidence_store \<Rightarrow> evidence_edge_fact \<Rightarrow> bool" where
  "icp_usable store \<equiv> usable_edge store Path_SourceToSink"

abbreviation icp_possible :: "evidence_edge_fact \<Rightarrow> bool" where
  "icp_possible \<equiv> possible_edge Path_SourceToSink"

definition icp_chosen :: "icp_frame \<Rightarrow> (evidence_edge_fact \<Rightarrow> bool) \<Rightarrow> evidence_edge_fact list \<Rightarrow> icp_frame list" where
  "icp_chosen frame P edges = List.map_filter (icp_step frame) (filter P edges)"

lemma icp_chosen_simps [simp]:
  "icp_chosen frame P [] = []" "icp_chosen frame P (edges @ rest) = icp_chosen frame P edges @ icp_chosen frame P rest"
  by (simp_all add: icp_chosen_def List.map_filter_def)

definition icp_fits :: "icp_query \<Rightarrow> icp_frame \<Rightarrow> bool" where
  "icp_fits query frame \<longleftrightarrow>
     length (if_nodes frame) \<le> max 1 (pb_max_nodes (iq_budget query)) \<and> length (if_edges frame) \<le> pb_max_depth (iq_budget query) \<and>
     length (if_context frame) \<le> iq_depth query \<and> (\<forall>config. config |\<in>| if_visited frame \<longrightarrow> length (snd config) \<le> iq_depth query)"

text \<open>The computation of the context, with its limit, against the context without limit.\<close>

definition too_deep :: "path_context \<Rightarrow> evidence_edge_fact \<Rightarrow> nat \<Rightarrow> bool" where
  "too_deep context edge max_depth \<longleftrightarrow>
     eve_kind edge \<in> {Eve_ParameterIn, Eve_Call} \<and> eve_call_site edge \<noteq> None \<and> length context \<ge> max_depth"

lemma transition_context_eq:
  "transition_context context edge max_depth regions =
     (if too_deep context edge max_depth then (None, regions @ [omitted Omit_DepthLimit 0 1])
      else (context_after context edge, regions))"
  by (cases "eve_kind edge"; cases "eve_call_site edge") (auto simp: transition_context_def context_after_def too_deep_def)

lemma context_after_length:
  "context_after context edge = Some context' \<Longrightarrow> \<not> too_deep context edge max_depth \<Longrightarrow> length context \<le> max_depth \<Longrightarrow>
    length context' \<le> max_depth"
  by (cases "eve_kind edge"; cases "eve_call_site edge") (auto simp: context_after_def too_deep_def split: if_splits)

lemma icp_edge_effect:
  fixes st
  assumes "st' = icp_edge store query frame edge st"
  shows "\<exists>new. is_queue st' = is_queue st @ new \<and> set new \<subseteq> set (icp_chosen frame (icp_usable store) [edge]) \<and>
    (\<forall>f \<in> set new. length (if_nodes f) \<le> pb_max_nodes (iq_budget query) \<and> \<not> too_deep (if_context frame) edge (iq_depth query)) \<and>
    is_paths st' = is_paths st \<and>
    (is_omitted st' = [] \<longrightarrow> is_omitted st = [] \<and> new = icp_chosen frame (icp_usable store) [edge]) \<and>
    (is_omitted st' = [] \<and> is_unknown st' = {||} \<longrightarrow> is_unknown st = {||} \<and> (icp_usable store edge \<longleftrightarrow> icp_possible edge))"
proof (cases "icp_usable store edge")
  case False
  then show ?thesis
    unfolding assms
    by (auto simp: icp_edge_def usable_edge_def possible_edge_def unavailable_edge_def icp_chosen_def List.map_filter_def)
next
  case True
  then have kind: "\<not> unavailable_edge store edge" "path_edge_allowed (eve_kind edge) Path_SourceToSink"
    "eve_status edge \<noteq> Evs_BudgetExceeded" "icp_possible edge"
    by (auto simp: usable_edge_def possible_edge_def unavailable_edge_def)
  show ?thesis
  proof (cases "is_expanded st \<ge> pb_max_edges (iq_budget query)")
    case over: True
    then have "st' = st \<lparr> is_omitted := is_omitted st @ [omitted Omit_EdgeLimit 0 1] \<rparr>" using kind by (simp add: assms icp_edge_def)
    then show ?thesis by (intro exI [of _ "[]"]) simp
  next
    case room: False
    show ?thesis
    proof (cases "too_deep (if_context frame) edge (iq_depth query)")
      case True
      then have "is_queue st' = is_queue st" "is_paths st' = is_paths st" "is_omitted st' \<noteq> []" using kind room
        by (simp_all add: assms icp_edge_def Let_def transition_context_eq)
      then show ?thesis by (intro exI [of _ "[]"]) simp
    next
      case shallow: False
      let ?st = "st \<lparr> is_expanded := is_expanded st + 1 \<rparr>"
      have chosen: "icp_chosen frame (icp_usable store) [edge] = (case icp_step frame edge of None \<Rightarrow> [] | Some f \<Rightarrow> [f])"
        using True by (simp add: icp_chosen_def List.map_filter_def split: option.split)
      have st': "st' = (case icp_step frame edge of None \<Rightarrow> ?st | Some f \<Rightarrow>
          if length (if_nodes frame) \<ge> pb_max_nodes (iq_budget query) then ?st \<lparr> is_omitted := is_omitted st @ [omitted Omit_NodeLimit 1 0] \<rparr>
          else ?st \<lparr> is_queue := is_queue st @ [f] \<rparr>)"
        using kind room shallow
        by (simp add: assms icp_edge_def Let_def transition_context_eq icp_step_def split: option.split)
      have one: "length (if_nodes f) = Suc (length (if_nodes frame))" if "icp_step frame edge = Some f" for f
        using that by (auto simp: icp_step_def split: option.splits if_splits)
      show ?thesis
        unfolding chosen st' using shallow kind(4) True one by (cases "icp_step frame edge") auto
    qed
  qed
qed

lemma icp_fold_effect:
  assumes "st' = fold (icp_edge store query frame) edges st"
  shows "\<exists>new. is_queue st' = is_queue st @ new \<and> set new \<subseteq> set (icp_chosen frame (icp_usable store) edges) \<and>
    (\<forall>f \<in> set new. length (if_nodes f) \<le> pb_max_nodes (iq_budget query) \<and>
      (length (if_context frame) \<le> iq_depth query \<longrightarrow> length (if_context f) \<le> iq_depth query)) \<and> is_paths st' = is_paths st \<and>
    (is_omitted st' = [] \<longrightarrow> is_omitted st = [] \<and> new = icp_chosen frame (icp_usable store) edges) \<and>
    (is_omitted st' = [] \<and> is_unknown st' = {||} \<longrightarrow> is_unknown st = {||} \<and>
       (\<forall>edge \<in> set edges. icp_usable store edge \<longleftrightarrow> icp_possible edge))"
  using assms
proof (induction edges arbitrary: st' rule: rev_induct)
  case (snoc edge edges)
  let ?st = "fold (icp_edge store query frame) edges st"
  from snoc.IH [OF refl] obtain new where new: "is_queue ?st = is_queue st @ new"
    "set new \<subseteq> set (icp_chosen frame (icp_usable store) edges)"
    "\<forall>f \<in> set new. length (if_nodes f) \<le> pb_max_nodes (iq_budget query) \<and>
      (length (if_context frame) \<le> iq_depth query \<longrightarrow> length (if_context f) \<le> iq_depth query)" "is_paths ?st = is_paths st"
    "is_omitted ?st = [] \<Longrightarrow> is_omitted st = [] \<and> new = icp_chosen frame (icp_usable store) edges"
    "is_omitted ?st = [] \<Longrightarrow> is_unknown ?st = {||} \<Longrightarrow> is_unknown st = {||} \<and>
       (\<forall>edge \<in> set edges. icp_usable store edge \<longleftrightarrow> icp_possible edge)" by blast
  have st': "st' = icp_edge store query frame edge ?st" using snoc.prems by simp
  from icp_edge_effect [OF st'] obtain one where one: "is_queue st' = is_queue ?st @ one"
    "set one \<subseteq> set (icp_chosen frame (icp_usable store) [edge])"
    "\<forall>f \<in> set one. length (if_nodes f) \<le> pb_max_nodes (iq_budget query) \<and> \<not> too_deep (if_context frame) edge (iq_depth query)"
    "is_paths st' = is_paths ?st"
    "is_omitted st' = [] \<Longrightarrow> is_omitted ?st = [] \<and> one = icp_chosen frame (icp_usable store) [edge]"
    "is_omitted st' = [] \<Longrightarrow> is_unknown st' = {||} \<Longrightarrow> is_unknown ?st = {||} \<and> (icp_usable store edge \<longleftrightarrow> icp_possible edge)"
    by blast
  have deep: "length (if_context f) \<le> iq_depth query" if f: "f \<in> set one" "length (if_context frame) \<le> iq_depth query" for f
  proof -
    have "f \<in> set (icp_chosen frame (icp_usable store) [edge])" using f(1) one(2) by blast
    then have "icp_step frame edge = Some f" by (auto simp: icp_chosen_def set_map_filter_iff split: if_splits)
    then have "context_after (if_context frame) edge = Some (if_context f)" by (auto simp: icp_step_def split: option.splits if_splits)
    then show ?thesis using context_after_length one(3) f by blast
  qed
  have "is_queue st' = is_queue st @ (new @ one)" using new(1) one(1) by simp
  moreover have "set (new @ one) \<subseteq> set (icp_chosen frame (icp_usable store) (edges @ [edge]))" using new(2) one(2) by auto
  moreover have "\<forall>f \<in> set (new @ one). length (if_nodes f) \<le> pb_max_nodes (iq_budget query) \<and>
      (length (if_context frame) \<le> iq_depth query \<longrightarrow> length (if_context f) \<le> iq_depth query)" using new(3) one(3) deep by auto
  moreover have "is_omitted st' = [] \<longrightarrow> is_omitted st = [] \<and> new @ one = icp_chosen frame (icp_usable store) (edges @ [edge])"
    using new(5) one(5) by auto
  moreover have "is_omitted st' = [] \<and> is_unknown st' = {||} \<longrightarrow> is_unknown st = {||} \<and>
       (\<forall>edge \<in> set (edges @ [edge]). icp_usable store edge \<longleftrightarrow> icp_possible edge)"
    using new(6) one(5,6) by auto
  moreover have "is_paths st' = is_paths st" using new(4) one(4) by simp
  ultimately show ?case by blast
qed (auto simp: icp_chosen_def)

section \<open>The loop\<close>

definition icp_collect_first :: "evidence_store \<Rightarrow> icp_query \<Rightarrow> icp_search \<Rightarrow> icp_search" where
  "icp_collect_first store query st = icp_collect store query (hd (is_queue st)) (st \<lparr> is_queue := tl (is_queue st) \<rparr>)"

definition icp_expand_first :: "evidence_store \<Rightarrow> icp_query \<Rightarrow> icp_search \<Rightarrow> icp_search" where
  "icp_expand_first store query st = icp_expand store query (hd (is_queue st)) (st \<lparr> is_queue := tl (is_queue st) \<rparr>)"

lemma icp_expand_effect:
  assumes "st' = icp_expand store query frame st"
  shows "\<exists>new. is_queue st' = is_queue st @ new \<and> is_paths st' = is_paths st \<and>
    set new \<subseteq> set (List.map_filter (icp_step frame) (icp_choices (icp_usable store) store frame)) \<and>
    (\<forall>f \<in> set new. (icp_fits query frame \<longrightarrow> icp_fits query f) \<and> icp_fuel query f < icp_fuel query frame) \<and>
    (is_omitted st' = [] \<longrightarrow> is_omitted st = [] \<and>
       new = List.map_filter (icp_step frame) (icp_choices (icp_usable store) store frame)) \<and>
    (is_omitted st' = [] \<and> is_unknown st' = {||} \<longrightarrow> is_unknown st = {||} \<and>
       new = List.map_filter (icp_step frame) (icp_choices icp_possible store frame))"
proof (cases "length (if_edges frame) \<ge> pb_max_depth (iq_budget query)")
  case True
  then show ?thesis unfolding assms icp_expand_def by (intro exI [of _ "[]"]) simp
next
  case False
  let ?edges = "outgoing_ranked_edges store (if_node frame)"
  have st': "st' = fold (icp_edge store query frame) ?edges st" using False by (simp add: assms icp_expand_def)
  from icp_fold_effect [OF st'] obtain new where new: "is_queue st' = is_queue st @ new"
    "set new \<subseteq> set (icp_chosen frame (icp_usable store) ?edges)"
    "\<forall>f \<in> set new. length (if_nodes f) \<le> pb_max_nodes (iq_budget query) \<and>
      (length (if_context frame) \<le> iq_depth query \<longrightarrow> length (if_context f) \<le> iq_depth query)" "is_paths st' = is_paths st"
    "is_omitted st' = [] \<Longrightarrow> is_omitted st = [] \<and> new = icp_chosen frame (icp_usable store) ?edges"
    "is_omitted st' = [] \<Longrightarrow> is_unknown st' = {||} \<Longrightarrow> is_unknown st = {||} \<and>
       (\<forall>edge \<in> set ?edges. icp_usable store edge \<longleftrightarrow> icp_possible edge)" by blast
  have all: "icp_chosen frame P ?edges = List.map_filter (icp_step frame) (icp_choices P store frame)" for P
    by (simp add: icp_chosen_def icp_choices_def)
  have fits: "(icp_fits query frame \<longrightarrow> icp_fits query f) \<and> icp_fuel query f < icp_fuel query frame" if f: "f \<in> set new" for f
  proof -
    have "f \<in> set (icp_chosen frame (icp_usable store) ?edges)" using f new(2) by blast
    then obtain edge where "icp_step frame edge = Some f" by (auto simp: icp_chosen_def set_map_filter_iff)
    then have "length (if_edges f) = Suc (length (if_edges frame))"
      "if_visited f = finsert (if_node f, if_context f) (if_visited frame)"
      by (auto simp: icp_step_def split: option.splits if_splits)
    then show ?thesis using new(3) f False by (auto simp: icp_fits_def icp_fuel_def)
  qed
  have "icp_chosen frame (icp_usable store) ?edges = icp_chosen frame icp_possible ?edges"
    if "is_omitted st' = []" "is_unknown st' = {||}"
  proof -
    have "filter (icp_usable store) ?edges = filter icp_possible ?edges" using new(6) [OF that] by (intro filter_cong) auto
    then show ?thesis by (simp add: icp_chosen_def)
  qed
  with new fits show ?thesis unfolding all [symmetric] by (intro exI [of _ new]) blast
qed

interpretation icp_loops: frame_loop "\<lambda>frame. if_node frame = iq_sink query" "icp_choices (icp_usable store) store"
    "icp_choices icp_possible store" icp_step "\<lambda>frame. length (if_edges frame)" is_queue is_paths "icp_path_from_frame store"
    "\<lambda>st. is_omitted st = []" "\<lambda>st. is_unknown st = {||}" "icp_fits query" "pb_max_paths (iq_budget query)" "icp_fuel query"
    "icp_collect_first store query" "icp_expand_first store query" "icp_loop store query"
  for store query
proof unfold_locales
  show "set (icp_choices (icp_usable store) store f) \<subseteq> set (icp_choices icp_possible store f)" for f
    by (auto simp: icp_choices_def usable_edge_def possible_edge_def)
next
  fix st :: icp_search and f fs assume "is_queue st = f # fs"
  then show "is_queue (icp_collect_first store query st) = fs \<and>
      is_paths (icp_collect_first store query st) = is_paths st @ [icp_path_from_frame store f] \<and>
      (is_unknown (icp_collect_first store query st) = {||}) = (is_unknown st = {||}) \<and>
      (is_omitted (icp_collect_first store query st) = [] \<longrightarrow> is_omitted st = []) \<and>
      (pb_max_paths (iq_budget query) \<le> Suc (length (is_paths st)) \<and> is_omitted (icp_collect_first store query st) = [] \<longrightarrow> fs = [])"
    by (auto simp: icp_collect_first_def icp_collect_def Let_def)
next
  fix st :: icp_search and f fs assume queue: "is_queue st = f # fs"
  have "icp_expand_first store query st = icp_expand store query f (st \<lparr> is_queue := fs \<rparr>)"
    by (simp add: icp_expand_first_def queue)
  from icp_expand_effect [OF this] show "\<exists>new. is_queue (icp_expand_first store query st) = fs @ new \<and>
      is_paths (icp_expand_first store query st) = is_paths st \<and>
      set new \<subseteq> set (List.map_filter (icp_step f) (icp_choices (icp_usable store) store f)) \<and>
      (\<forall>g \<in> set new. (icp_fits query f \<longrightarrow> icp_fits query g) \<and> icp_fuel query g < icp_fuel query f) \<and>
      (is_omitted (icp_expand_first store query st) = [] \<longrightarrow> is_omitted st = [] \<and>
         new = List.map_filter (icp_step f) (icp_choices (icp_usable store) store f)) \<and>
      (is_omitted (icp_expand_first store query st) = [] \<and> is_unknown (icp_expand_first store query st) = {||} \<longrightarrow>
         is_unknown st = {||} \<and> new = List.map_filter (icp_step f) (icp_choices icp_possible store f))" by simp
next
  fix st :: icp_search
  show "icp_loop store query st = (case is_queue st of [] \<Rightarrow> st | f # fs \<Rightarrow>
      if if_node f = iq_sink query
      then if pb_max_paths (iq_budget query) \<le> Suc (length (is_paths st)) then icp_collect_first store query st
        else icp_loop store query (icp_collect_first store query st)
      else icp_loop store query (icp_expand_first store query st))"
    by (subst icp_loop.simps) (simp add: icp_collect_first_def icp_expand_first_def Let_def split: list.split)
qed

section \<open>Realizable paths\<close>

text \<open>
  The configurations that a sequence of edges passes: each edge leaves the node that the last one entered, and each
  return matches the call that is open.
\<close>

definition realizable_path ::
  "(evidence_edge_fact \<Rightarrow> bool) \<Rightarrow> evidence_store \<Rightarrow> evidence_node_id \<Rightarrow> evidence_node_id \<Rightarrow>
    (evidence_node_id \<times> path_context) list \<Rightarrow> evidence_edge_fact list \<Rightarrow> bool" where
  "realizable_path P store source sink configs es \<longleftrightarrow>
     configs \<noteq> [] \<and> hd configs = (source, []) \<and> length configs = Suc (length es) \<and> distinct configs \<and>
     fst (last configs) = sink \<and> sink \<notin> fst ` set (butlast configs) \<and>
     (\<forall>i < length es. es ! i \<in> set (evo_edges (evt_output store)) \<and> P (es ! i) \<and> eve_from (es ! i) = fst (configs ! i) \<and>
        eve_to (es ! i) = fst (configs ! Suc i) \<and> context_after (snd (configs ! i)) (es ! i) = Some (snd (configs ! Suc i)))"

definition call_reach ::
  "(evidence_edge_fact \<Rightarrow> bool) \<Rightarrow> evidence_store \<Rightarrow> evidence_node_id \<times> path_context \<Rightarrow> evidence_node_id \<times> path_context \<Rightarrow> bool" where
  "call_reach P store =
     (\<lambda>a b. \<exists>edge \<in> set (evo_edges (evt_output store)). P edge \<and> eve_from edge = fst a \<and> eve_to edge = fst b \<and>
        context_after (snd a) edge = Some (snd b))\<^sup>*\<^sup>*"

lemma call_move_iff: "call_move a edge = Some b \<longleftrightarrow> eve_to edge = fst b \<and> context_after (snd a) edge = Some (snd b)"
  by (cases b) (auto simp: call_move_def)

lemma call_run_iff:
  assumes ok: "evidence_store_ok store"
  shows "config_run (call_moves P store) call_move a es = Some cs \<longleftrightarrow>
    cs \<noteq> [] \<and> hd cs = a \<and> length cs = Suc (length es) \<and>
    (\<forall>i < length es. es ! i \<in> set (evo_edges (evt_output store)) \<and> P (es ! i) \<and> eve_from (es ! i) = fst (cs ! i) \<and>
       eve_to (es ! i) = fst (cs ! Suc i) \<and> context_after (snd (cs ! i)) (es ! i) = Some (snd (cs ! Suc i)))"
    (is "_ \<longleftrightarrow> ?run a es cs")
proof (induction es arbitrary: a cs)
  case Nil
  show ?case by (cases cs) auto
next
  case (Cons edge es)
  have moves: "edge \<in> set (call_moves P store a) \<longleftrightarrow> edge \<in> set (evo_edges (evt_output store)) \<and> P edge \<and> eve_from edge = fst a"
    by (simp add: call_moves_def node_moves_iff [OF ok])
  have "config_run (call_moves P store) call_move a (edge # es) = Some cs \<longleftrightarrow>
      edge \<in> set (call_moves P store a) \<and> (\<exists>b bs. call_move a edge = Some b \<and> ?run b es bs \<and> cs = a # bs)"
    by (auto simp: bind_eq_Some_conv Cons.IH)
  also have "\<dots> \<longleftrightarrow> ?run a (edge # es) cs"
  proof
    assume "edge \<in> set (call_moves P store a) \<and> (\<exists>b bs. call_move a edge = Some b \<and> ?run b es bs \<and> cs = a # bs)"
    then obtain b bs where b: "edge \<in> set (call_moves P store a)" "call_move a edge = Some b" "?run b es bs" "cs = a # bs" by blast
    then obtain rest where "bs = b # rest" by (cases bs) auto
    with b show "?run a (edge # es) cs" by (auto simp: moves call_move_iff All_less_Suc2)
  next
    assume run: "?run a (edge # es) cs"
    then obtain b rest where cs: "cs = a # b # rest" by (cases cs; cases "tl cs") auto
    with run have "edge \<in> set (call_moves P store a)" "call_move a edge = Some b" "?run b es (b # rest)"
      by (auto simp: moves call_move_iff All_less_Suc2)
    with cs show "edge \<in> set (call_moves P store a) \<and> (\<exists>b bs. call_move a edge = Some b \<and> ?run b es bs \<and> cs = a # bs)" by blast
  qed
  finally show ?case .
qed

lemma call_direct_run:
  assumes "evidence_store_ok store"
  shows "direct_run (call_moves P store) call_move (\<lambda>config. fst config = sink) (source, []) es cs \<and> fst (last cs) = sink \<longleftrightarrow>
    realizable_path P store source sink cs es"
proof -
  have "sink \<notin> fst ` set (butlast cs) \<longleftrightarrow> (\<forall>config \<in> set (butlast cs). fst config \<noteq> sink)" by auto
  then show ?thesis unfolding direct_run_def realizable_path_def call_run_iff [OF assms] by blast
qed

lemma call_config_step:
  assumes "evidence_store_ok store"
  shows "(config_step (call_moves P store) call_move)\<^sup>*\<^sup>* = call_reach P store"
proof -
  have "config_step (call_moves P store) call_move =
      (\<lambda>a b. \<exists>edge \<in> set (evo_edges (evt_output store)). P edge \<and> eve_from edge = fst a \<and> eve_to edge = fst b \<and>
        context_after (snd a) edge = Some (snd b))"
    by (intro ext) (auto simp: config_step_def call_moves_def node_moves_iff [OF assms] call_move_iff)
  then show ?thesis by (simp add: call_reach_def)
qed

lemma realizable_path_exists:
  assumes "evidence_store_ok store"
  shows "(\<exists>configs es. realizable_path P store source sink configs es) \<longleftrightarrow> (\<exists>context. call_reach P store (source, []) (sink, context))"
proof
  assume "\<exists>configs es. realizable_path P store source sink configs es"
  then obtain configs es where path: "realizable_path P store source sink configs es" by blast
  then have run: "config_run (call_moves P store) call_move (source, []) es = Some configs"
    unfolding realizable_path_def call_run_iff [OF assms] by blast
  have "last configs \<in> set configs" "last configs = (sink, snd (last configs))"
    using path by (auto simp: realizable_path_def prod_eq_iff)
  then show "\<exists>context. call_reach P store (source, []) (sink, context)"
    using config_run_reaches [OF run] unfolding call_config_step [OF assms] by metis
next
  assume "\<exists>context. call_reach P store (source, []) (sink, context)"
  then obtain sites where "(config_step (call_moves P store) call_move)\<^sup>*\<^sup>* (source, []) (sink, sites)"
    unfolding call_config_step [OF assms] ..
  from direct_run_exists [OF this, of "\<lambda>config. fst config = sink"] show "\<exists>configs es. realizable_path P store source sink configs es"
    unfolding call_direct_run [OF assms] by auto
qed

section \<open>The answers\<close>

abbreviation icp_steps :: "icp_path \<Rightarrow> evidence_node_id list \<times> evidence_edge_id list" where
  "icp_steps path \<equiv> (icp_nodes path, icp_edges path)"

abbreviation icp_rank :: "icp_path \<Rightarrow> (nat \<times> nat \<times> nat \<times> nat \<times> nat \<times> int \<times> int) \<times> string" where
  "icp_rank path \<equiv> (score_key (icp_score path), icp_text path)"

abbreviation icp_source_frame :: "icp_query \<Rightarrow> icp_frame" where
  "icp_source_frame query \<equiv>
     \<lparr> if_node = iq_source query, if_nodes = [iq_source query], if_edges = [], if_visited = {|(iq_source query, [])|}, if_context = [] \<rparr>"

definition realizable_paths ::
  "(evidence_edge_fact \<Rightarrow> bool) \<Rightarrow> evidence_store \<Rightarrow> evidence_node_id \<Rightarrow> evidence_node_id \<Rightarrow>
    (evidence_node_id list \<times> evidence_edge_id list) set" where
  "realizable_paths P store source sink =
     {(map fst configs, map eve_id es) | configs es. realizable_path P store source sink configs es}"

lemma icp_frame_trail:
  "icp.trail sink P store f es = Some g \<Longrightarrow>
    if_nodes g = if_nodes f @ map eve_to es \<and> if_edges g = if_edges f @ map eve_id es"
proof (induction es arbitrary: g rule: rev_induct)
  case (snoc e es)
  from snoc.prems obtain h where h: "icp.trail sink P store f es = Some h" "icp_step h e = Some g"
    unfolding icp.trail_snoc by blast
  from h(2) have "if_nodes g = if_nodes h @ [eve_to e]" "if_edges g = if_edges h @ [eve_id e]"
    by (auto simp: icp_step_def split: option.splits if_splits)
  with snoc.IH [OF h(1)] show ?case by simp
qed simp

lemma realizable_nodes: "realizable_path P store source sink configs es \<Longrightarrow> map fst configs = source # map eve_to es"
  unfolding realizable_path_def by (intro nth_equalityI) (auto simp: nth_Cons hd_conv_nth split: nat.split)

text \<open>A frame at the end of a trail from the source stands for a realizable path, and each such path has a frame.\<close>

lemma icp_end:
  assumes ok: "evidence_store_ok store" and g: "g \<in> icp.ends (iq_sink query) P store [icp_source_frame query]"
  shows "\<exists>configs es. realizable_path P store (iq_source query) (iq_sink query) configs es \<and> if_nodes g = map fst configs \<and>
    if_edges g = map eve_id es \<and> fset (if_visited g) = set configs"
proof -
  obtain es where trail: "if_node g = iq_sink query" "icp.trail (iq_sink query) P store (icp_source_frame query) es = Some g"
    using g by (auto simp: icp.ends_def)
  have own: "fset (if_visited (icp_source_frame query)) = {(if_node (icp_source_frame query), if_context (icp_source_frame query))}"
    by simp
  from icp.trail_run [OF own trail(2)] obtain cs where cs: "direct_run (call_moves P store) call_move
      (\<lambda>config. fst config = iq_sink query) (iq_source query, []) es cs" "(if_node g, if_context g) = last cs"
      "fset (if_visited g) = set cs" by auto
  have "fst (last cs) = iq_sink query" using cs(2) trail(1) by (metis fst_conv)
  then have path: "realizable_path P store (iq_source query) (iq_sink query) cs es"
    using cs(1) call_direct_run [OF ok] by blast
  moreover have "if_nodes g = map fst cs" "if_edges g = map eve_id es"
    using icp_frame_trail [OF trail(2)] realizable_nodes [OF path] by simp_all
  ultimately show ?thesis using cs(3) by blast
qed

lemma icp_ends:
  assumes ok: "evidence_store_ok store"
  shows "(\<lambda>f. (if_nodes f, if_edges f)) ` icp.ends (iq_sink query) P store [icp_source_frame query] =
    realizable_paths P store (iq_source query) (iq_sink query)"
proof (intro subset_antisym subsetI)
  fix x assume "x \<in> (\<lambda>f. (if_nodes f, if_edges f)) ` icp.ends (iq_sink query) P store [icp_source_frame query]"
  then obtain g where g: "x = (if_nodes g, if_edges g)" "g \<in> icp.ends (iq_sink query) P store [icp_source_frame query]" by blast
  from icp_end [OF ok g(2)] show "x \<in> realizable_paths P store (iq_source query) (iq_sink query)"
    unfolding g(1) realizable_paths_def by force
next
  fix x assume "x \<in> realizable_paths P store (iq_source query) (iq_sink query)"
  then obtain configs es where x: "x = (map fst configs, map eve_id es)"
    and path: "realizable_path P store (iq_source query) (iq_sink query) configs es" by (auto simp: realizable_paths_def)
  have own: "fset (if_visited (icp_source_frame query)) = {(if_node (icp_source_frame query), if_context (icp_source_frame query))}"
    by simp
  have direct: "direct_run (call_moves P store) call_move (\<lambda>config. fst config = iq_sink query)
      (if_node (icp_source_frame query), if_context (icp_source_frame query)) es configs" and last: "fst (last configs) = iq_sink query"
    using path call_direct_run [OF ok, of P "iq_sink query"] by auto
  from icp.run_trail [OF own direct] obtain g where g: "icp.trail (iq_sink query) P store (icp_source_frame query) es = Some g" by blast
  from icp.trail_run [OF own g] obtain cs where cs: "direct_run (call_moves P store) call_move (\<lambda>config. fst config = iq_sink query)
      (if_node (icp_source_frame query), if_context (icp_source_frame query)) es cs" "(if_node g, if_context g) = last cs" by blast
  have "cs = configs" using cs(1) direct by (simp add: direct_run_def)
  then have "if_node g = iq_sink query" using last cs(2) by (metis fst_conv)
  then have "g \<in> icp.ends (iq_sink query) P store [icp_source_frame query]" using g by (auto simp: icp.ends_def)
  moreover have "x = (if_nodes g, if_edges g)" using icp_frame_trail [OF g] realizable_nodes [OF path] x by simp
  ultimately show "x \<in> (\<lambda>f. (if_nodes f, if_edges f)) ` icp.ends (iq_sink query) P store [icp_source_frame query]" by blast
qed

lemma find_icp_cases:
  obtains (refused) "ir_paths (find_interprocedural_paths store query) = []"
      "ir_omitted_regions (find_interprocedural_paths store query) \<noteq> []"
  | (unavailable) "\<not> (node_available_for_path store (iq_source query) \<and> node_available_for_path store (iq_sink query))"
      "ir_paths (find_interprocedural_paths store query) = []" "ir_status (find_interprocedural_paths store query) \<noteq> Evs_Present"
  | (searched) found st where "node_available_for_path store (iq_source query)" "node_available_for_path store (iq_sink query)"
      "ir_paths (find_interprocedural_paths store query) = sort_key icp_rank (is_paths st)"
      "ir_omitted_regions (find_interprocedural_paths store query) = is_omitted st"
      "ir_status (find_interprocedural_paths store query) = icp_status st"
      "icp_steps ` set (is_paths st) = (\<lambda>f. (if_nodes f, if_edges f)) ` set found"
      "length (is_paths st) \<le> pb_max_paths (iq_budget query)" "\<forall>f \<in> set found. icp_fits query f"
      "set found \<subseteq> icp.ends (iq_sink query) (icp_usable store) store [icp_source_frame query]"
      "is_omitted st = [] \<Longrightarrow> set found = icp.ends (iq_sink query) (icp_usable store) store [icp_source_frame query]"
      "is_omitted st = [] \<Longrightarrow> is_unknown st = {||} \<Longrightarrow>
        set found = icp.ends (iq_sink query) icp_possible store [icp_source_frame query]"
proof (cases "pb_max_paths (iq_budget query) = 0")
  case True
  then show ?thesis using refused by (simp add: find_interprocedural_paths_def)
next
  case False
  show ?thesis
  proof (cases "node_available_for_path store (iq_source query) \<and> node_available_for_path store (iq_sink query)")
    case True
    let ?st = "icp_loop store query (icp_start query)"
    have start: "pb_max_paths (iq_budget query) > 0" "icp_fits query (icp_source_frame query)"
      "is_queue (icp_start query) = [icp_source_frame query]" "is_paths (icp_start query) = []"
      using False by (simp_all add: icp_start_def icp_fits_def)
    obtain found where found: "is_paths ?st = map (icp_path_from_frame store) found"
      "length (is_paths ?st) \<le> pb_max_paths (iq_budget query)" "\<forall>g \<in> set found. icp_fits query g"
      "set found \<subseteq> icp.ends (iq_sink query) (icp_usable store) store [icp_source_frame query]"
      "is_omitted ?st = [] \<Longrightarrow> set found = icp.ends (iq_sink query) (icp_usable store) store [icp_source_frame query]"
      "is_omitted ?st = [] \<Longrightarrow> is_unknown ?st = {||} \<Longrightarrow>
        set found = icp.ends (iq_sink query) icp_possible store [icp_source_frame query]"
      using icp_loops.loop_lists [where store = store, OF start] by blast
    have "icp_steps ` set (is_paths ?st) = (\<lambda>f. (if_nodes f, if_edges f)) ` set found"
      by (simp add: found(1) image_image icp_path_from_frame_def)
    moreover have "ir_paths (find_interprocedural_paths store query) = sort_key icp_rank (is_paths ?st)"
      "ir_omitted_regions (find_interprocedural_paths store query) = is_omitted ?st"
      "ir_status (find_interprocedural_paths store query) = icp_status ?st"
      using True False by (simp_all add: find_interprocedural_paths_def Let_def)
    ultimately show ?thesis using True found(2-6) by (intro searched [of ?st found]) blast+
  next
    case unavail: False
    then show ?thesis using False unavailable by (simp add: find_interprocedural_paths_def unavailable_node_status_def)
  qed
qed

text \<open>
  C9: Every listed path is realizable: its edges are usable and connect the source to the sink, every return matches
  the open call, no configuration repeats, and the depth of the stack, the number of edges and the number of
  paths respect their limits.
\<close>

theorem interprocedural_paths_realizable:
  assumes "evidence_store_from_output output interner = Checked store"
  shows "length (ir_paths (find_interprocedural_paths store query)) \<le> pb_max_paths (iq_budget query) \<and>
    sorted (map icp_rank (ir_paths (find_interprocedural_paths store query))) \<and>
    (\<forall>path \<in> set (ir_paths (find_interprocedural_paths store query)). \<exists>configs es.
       realizable_path (icp_usable store) store (iq_source query) (iq_sink query) configs es \<and>
       icp_nodes path = map fst configs \<and> icp_edges path = map eve_id es \<and> length es \<le> pb_max_depth (iq_budget query) \<and>
       (\<forall>config \<in> set configs. length (snd config) \<le> iq_depth query))"
proof (cases store query rule: find_icp_cases)
  case (searched found st)
  have ok: "evidence_store_ok store" by (rule from_output_ok(1) [OF assms])
  have "\<exists>configs es. realizable_path (icp_usable store) store (iq_source query) (iq_sink query) configs es \<and>
       icp_nodes path = map fst configs \<and> icp_edges path = map eve_id es \<and> length es \<le> pb_max_depth (iq_budget query) \<and>
       (\<forall>config \<in> set configs. length (snd config) \<le> iq_depth query)" if path: "path \<in> set (is_paths st)" for path
  proof -
    have "icp_steps path \<in> (\<lambda>f. (if_nodes f, if_edges f)) ` set found" using path searched(6) by blast
    then obtain f where f: "f \<in> set found" "icp_nodes path = if_nodes f" "icp_edges path = if_edges f" by auto
    then have "f \<in> icp.ends (iq_sink query) (icp_usable store) store [icp_source_frame query]" using searched(9) by blast
    from icp_end [OF ok this] obtain configs es where
      run: "realizable_path (icp_usable store) store (iq_source query) (iq_sink query) configs es"
      and g: "if_nodes f = map fst configs" "if_edges f = map eve_id es" "fset (if_visited f) = set configs" by blast
    have "icp_fits query f" using searched(8) f(1) by blast
    then have "length es \<le> pb_max_depth (iq_budget query)" "\<forall>config \<in> set configs. length (snd config) \<le> iq_depth query"
      using g by (auto simp: icp_fits_def)
    with run g f show ?thesis by metis
  qed
  then show ?thesis unfolding searched(3) using searched(7) by simp
qed auto

text \<open>
  C10: Without an omitted region the search is complete: it lists exactly the realizable paths of usable edges between
  available ends, and lists none exactly when no realizable run of any length reaches the sink. An answer that is
  marked present leaves open no path that an uncertain edge could add.
\<close>

theorem interprocedural_paths_complete:
  assumes "evidence_store_from_output output interner = Checked store"
    and "ir_omitted_regions (find_interprocedural_paths store query) = []"
  shows "icp_steps ` set (ir_paths (find_interprocedural_paths store query)) =
      (if node_available_for_path store (iq_source query) \<and> node_available_for_path store (iq_sink query)
       then realizable_paths (icp_usable store) store (iq_source query) (iq_sink query) else {}) \<and>
    (ir_paths (find_interprocedural_paths store query) \<noteq> [] \<longleftrightarrow>
       node_available_for_path store (iq_source query) \<and> node_available_for_path store (iq_sink query) \<and>
       (\<exists>context. call_reach (icp_usable store) store (iq_source query, []) (iq_sink query, context))) \<and>
    (ir_status (find_interprocedural_paths store query) = Evs_Present \<longrightarrow> ir_paths (find_interprocedural_paths store query) \<noteq> [] \<and>
       icp_steps ` set (ir_paths (find_interprocedural_paths store query)) =
         realizable_paths icp_possible store (iq_source query) (iq_sink query))"
proof (cases store query rule: find_icp_cases)
  case refused
  then show ?thesis using assms(2) by simp
next
  case unavailable
  then show ?thesis by auto
next
  case (searched found st)
  have ok: "evidence_store_ok store" by (rule from_output_ok(1) [OF assms(1)])
  have none: "is_omitted st = []" using assms(2) searched(4) by simp
  let ?paths = "ir_paths (find_interprocedural_paths store query)"
  have steps: "icp_steps ` set ?paths = (\<lambda>f. (if_nodes f, if_edges f)) ` set found" unfolding searched(3) using searched(6) by simp
  have usable: "icp_steps ` set ?paths = realizable_paths (icp_usable store) store (iq_source query) (iq_sink query)"
    unfolding steps searched(10) [OF none] icp_ends [OF ok] ..
  have possible: "icp_steps ` set ?paths = realizable_paths icp_possible store (iq_source query) (iq_sink query)"
    if "is_unknown st = {||}"
    unfolding steps searched(11) [OF none that] icp_ends [OF ok] ..
  have "?paths \<noteq> [] \<longleftrightarrow> realizable_paths (icp_usable store) store (iq_source query) (iq_sink query) \<noteq> {}"
    unfolding usable [symmetric] by simp
  also have "\<dots> \<longleftrightarrow> (\<exists>context. call_reach (icp_usable store) store (iq_source query, []) (iq_sink query, context))"
    unfolding realizable_path_exists [OF ok, symmetric] realizable_paths_def by blast
  finally have some: "?paths \<noteq> [] \<longleftrightarrow>
      (\<exists>context. call_reach (icp_usable store) store (iq_source query, []) (iq_sink query, context))" .
  have present: "is_unknown st = {||}" "?paths \<noteq> []" if now: "ir_status (find_interprocedural_paths store query) = Evs_Present"
  proof -
    have full: "is_unknown st = {||}" "is_paths st \<noteq> []"
      using now unfolding searched(5) icp_status_def by (auto split: if_splits)
    then show "is_unknown st = {||}" by blast
    have "set ?paths \<noteq> {}" unfolding searched(3) set_sort using full(2) by simp
    then show "?paths \<noteq> []" by force
  qed
  have both: "node_available_for_path store (iq_source query) \<and> node_available_for_path store (iq_sink query)"
    using searched(1,2) ..
  show ?thesis
    unfolding if_P [OF both] using usable some both present(2) possible [OF present(1)] by blast
qed

end
