(* ===== verification/Slice_Samples.thy ===== *)
theory Slice_Samples
  imports Slice_Local Evidence_Chop Interprocedural_Correct "HOL-Library.Code_Target_Nat"
begin

text \<open>
  The properties of stores and slices, and a small evidence graph on which the searches are run: a call into a
  function and its return, beside a direct flow. A two-node cycle shows an edge that a slice leaves out
  without saying so.
\<close>

section \<open>Evidence graphs\<close>

definition evidence_sample_node :: "nat \<Rightarrow> evidence_node_fact" where
  "evidence_sample_node i =
     \<lparr> evn_id = i, evn_kind = Evn_Operation, evn_language = Lang_Go, evn_file = None, evn_function = None, evn_body = None,
       evn_operation = None, evn_cfg_node = None, evn_place = None, evn_symbol = None, evn_reference = None,
       evn_call_site = None, evn_span = None, evn_status = Evs_Present, evn_precision = Evp_Syntax,
       evn_provenance = Evo_Native, evn_validation = Evv_Native, evn_confidence = Evc_High, evn_compact_label = None,
       evn_source_keys = [], evn_stable_key = i \<rparr>"

definition evidence_sample_edge :: "nat \<Rightarrow> nat \<Rightarrow> nat \<Rightarrow> evidence_edge_kind \<Rightarrow> call_site_id option \<Rightarrow> evidence_edge_fact" where
  "evidence_sample_edge i a b kind site =
     \<lparr> eve_id = i, eve_from = a, eve_to = b, eve_kind = kind, eve_query_mode = Evq_Path, eve_status = Evs_Present,
       eve_precision = Evp_Exact, eve_provenance = Evo_Native, eve_validation = Evv_Native, eve_confidence = Evc_High,
       eve_call_site = site, eve_summary_key = None, eve_expansion = Evx_None, eve_compact_label = None,
       eve_source_keys = [], eve_stable_key = 4 + i \<rparr>"

definition evidence_sample_interner :: interner_state where
  "evidence_sample_interner =
     (let texts = [''n0'', ''n1'', ''n2'', ''n3'', ''p0'', ''p1'', ''p2'', ''p3'']
      in \<lparr> keys = texts, ids = fmap_of_list (zip texts [0..<8]) \<rparr>)"

text \<open>Node 0 flows to node 3 directly, and through a call of the function with nodes 1 and 2.\<close>

definition call_output :: evidence_output where
  "call_output =
     \<lparr> evo_nodes = map evidence_sample_node [0, 1, 2, 3],
       evo_edges = [evidence_sample_edge 0 0 1 Eve_Call (Some 7), evidence_sample_edge 1 0 3 Eve_DataValue None,
         evidence_sample_edge 2 1 2 Eve_DataValue None, evidence_sample_edge 3 2 3 Eve_Return (Some 7)],
       evo_bundles = [\<lparr> evb_id = 0, evb_diagnostic_key = 0, evb_query_mode = Evq_Path, evb_status = Evs_Present,
         evb_precision = Evp_Exact, evb_provenance = Evo_Query, evb_validation = Evv_Native, evb_confidence = Evc_High,
         evb_entry_node = Some 0, evb_selected_paths = [0], evb_selected_slices = [], evb_replay_key = None,
         evb_stable_key = 4 \<rparr>],
       evo_paths = [\<lparr> epf_id = 0, epf_bundle = Some 0, epf_query_mode = Evq_Path, epf_nodes = [0, 3], epf_edges = [1],
         epf_rank = 0, epf_score = \<lparr> native_exact_edges = 1, unknown_edges = 0, unvalidated_edges = 0,
         model_or_heuristic_edges = 0, edge_count = 1 \<rparr>, epf_status = Evs_Present, epf_hidden_node_count = 0,
         epf_omitted_regions = [], epf_stable_key = 5 \<rparr>],
       evo_slices = [], evo_unknowns = [], evo_omitted_regions = [], evo_replay_keys = [] \<rparr>"

definition call_store :: evidence_store where
  "call_store = index_evidence call_output evidence_sample_interner"

definition cycle_output :: evidence_output where
  "cycle_output =
     \<lparr> evo_nodes = map evidence_sample_node [0, 1],
       evo_edges = [evidence_sample_edge 0 0 1 Eve_DataValue None, evidence_sample_edge 1 1 0 Eve_DataValue None],
       evo_bundles = [], evo_paths = [], evo_slices = [], evo_unknowns = [], evo_omitted_regions = [], evo_replay_keys = [] \<rparr>"

definition cycle_store :: evidence_store where
  "cycle_store = index_evidence cycle_output evidence_sample_interner"

lemma call_store_accepted: "evidence_store_from_output call_output evidence_sample_interner = Checked call_store"
  by code_simp

lemma cycle_store_accepted: "evidence_store_from_output cycle_output evidence_sample_interner = Checked cycle_store"
  by code_simp

definition slice_sample :: "edge_filter \<Rightarrow> slice_query" where
  "slice_sample edge_filter =
     \<lparr> sq_root = 0, sq_direction = Slice_Forward, sq_mode = Slice_ForwardImpact, sq_edge_filter = edge_filter,
       sq_budget = slice_budget_default \<rparr>"

definition shallow_slice :: slice_query where
  "shallow_slice = slice_sample Filter_FullLocal
     \<lparr> sq_budget := \<lparr> sb_max_nodes = 64, sb_max_edges = 96, sb_max_depth = 1 \<rparr> \<rparr>"

definition path_sample :: path_query where
  "path_sample = \<lparr> pq_source = 0, pq_sink = 3, pq_mode = Path_SourceToSink, pq_budget = path_budget_default \<rparr>"

definition chop_sample :: chop_query where
  "chop_sample = \<lparr> cq_source = 0, cq_sink = 3, cq_budget = path_budget_default \<rparr>"

definition icp_sample :: icp_query where
  "icp_sample = \<lparr> iq_source = 0, iq_sink = 3, iq_budget = path_budget_default, iq_depth = 4 \<rparr>"

lemma search_runs:
  "slice_limit_free (local_slice call_store (slice_sample Filter_FullLocal))"
  "slr_nodes (local_slice call_store (slice_sample Filter_FullLocal)) = [0, 1, 2, 3]"
  "pr_omitted_regions (find_paths call_store path_sample) = []"
  "map evp_nodes (pr_paths (find_paths call_store path_sample)) = [[0, 3], [0, 1, 2, 3]]"
  "pr_status (find_paths call_store path_sample) = Evs_Present"
  by code_simp+

lemma search_runs':
  "cr_nodes (chop call_store chop_sample) = [0, 3]"
  "cr_status (chop call_store chop_sample) = Evs_Present"
  "ir_omitted_regions (find_interprocedural_paths call_store icp_sample) = []"
  "map icp_edges (ir_paths (find_interprocedural_paths call_store icp_sample)) = [[1], [0, 2, 3]]"
  "ir_status (find_interprocedural_paths call_store icp_sample) = Evs_Present"
  by code_simp+

section \<open>Slices\<close>

text \<open>
  C14: A slice holds only nodes that its filter lets the root reach and only edges between its nodes, within its limits,
  and marks exactly the uncertain ones. When no limit was hit it holds every node that can be reached, and every
  edge that leaves one provided that it has no more nodes than levels of depth.
\<close>

theorem slice_exact:
  assumes "evidence_store_from_output output interner = Checked store"
  shows "set (slr_nodes (local_slice store query)) \<subseteq> {n. slice_reaches store query n} \<and>
    length (slr_nodes (local_slice store query)) \<le> max 1 (sb_max_nodes (sq_budget query)) \<and>
    length (slr_edges (local_slice store query)) \<le> sb_max_edges (sq_budget query) \<and>
    (\<forall>i \<in> set (slr_edges (local_slice store query)). \<exists>n edge. evidence_edge store i = Some edge \<and>
       slice_link store query n edge \<and> n \<in> set (slr_nodes (local_slice store query)) \<and>
       next_node edge (sq_direction query) \<in> set (slr_nodes (local_slice store query)) \<and>
       (i \<in> set (slr_unknown_edges (local_slice store query)) \<longleftrightarrow> uncertain_edge edge)) \<and>
    (slice_limit_free (local_slice store query) \<longrightarrow>
       set (slr_nodes (local_slice store query)) = {n. slice_reaches store query n} \<and>
       (length (slr_nodes (local_slice store query)) \<le> sb_max_depth (sq_budget query) \<longrightarrow>
          set (slr_edges (local_slice store query)) =
            {eve_id edge | n edge. slice_reaches store query n \<and> slice_link store query n edge}))"
proof -
  have ok: "evidence_store_ok store" by (rule from_output_ok(1) [OF assms])
  show ?thesis
    using slice_inside [OF ok, where query = query] slice_nodes_exact [OF ok, where query = query] by blast
qed

theorem slice_exact_witness: "set (slr_nodes (local_slice call_store (slice_sample Filter_FullLocal))) =
    {n. slice_reaches call_store (slice_sample Filter_FullLocal) n}"
  using slice_exact [OF call_store_accepted, of "slice_sample Filter_FullLocal"] search_runs(1) by blast

text \<open>A thin slice is part of the full slice from the same root.\<close>

lemma thin_slice_subset:
  assumes "evidence_store_ok store" "sq_edge_filter query = Filter_Thin"
    and "slice_limit_free (local_slice store (query \<lparr> sq_edge_filter := Filter_FullLocal \<rparr>))"
  shows "set (slr_nodes (local_slice store query)) \<subseteq> set (slr_nodes (local_slice store (query \<lparr> sq_edge_filter := Filter_FullLocal \<rparr>)))"
proof -
  let ?full = "query \<lparr> sq_edge_filter := Filter_FullLocal \<rparr>"
  have step: "slice_step store query a b \<Longrightarrow> slice_step store ?full a b" for a b
    using assms(2) by (auto simp: slice_step_def slice_link_def edge_allowed_def)
  have "slice_reaches store ?full n" if "slice_reaches store query n" for n
    using that rtranclp_mono [of "slice_step store query" "slice_step store ?full"] step by (auto simp: slice_reaches_def)
  then show ?thesis using slice_inside(1) [OF assms(1)] slice_nodes_exact(1) [OF assms(1,3)] by blast
qed

text \<open>
  C37: A slice that is marked present, without an omitted region, can miss an edge between two of its nodes: at the
  depth limit the walk looks only for new nodes, so an edge back to a node of the slice is dropped silently.
\<close>

theorem present_slice_misses_edge:
  "slr_status (local_slice cycle_store shallow_slice) = Evs_Present \<and>
   slr_omitted_regions (local_slice cycle_store shallow_slice) = [] \<and>
   slr_nodes (local_slice cycle_store shallow_slice) = [0, 1] \<and>
   slice_link cycle_store shallow_slice 1 (evidence_sample_edge 1 1 0 Eve_DataValue None) \<and>
   slr_edges (local_slice cycle_store shallow_slice) = [0]"
proof (intro conjI)
  show "slr_status (local_slice cycle_store shallow_slice) = Evs_Present"
    "slr_omitted_regions (local_slice cycle_store shallow_slice) = []"
    "slr_nodes (local_slice cycle_store shallow_slice) = [0, 1]"
    "slice_link cycle_store shallow_slice 1 (evidence_sample_edge 1 1 0 Eve_DataValue None)"
    "slr_edges (local_slice cycle_store shallow_slice) = [0]" by code_simp+
qed

section \<open>Witnesses of the other properties\<close>


theorem evidence_paths_sound_witness:
  "\<exists>path es. path \<in> set (pr_paths (find_paths call_store path_sample)) \<and>
     simple_path (usable_edge call_store Path_SourceToSink) call_store 0 3 (evp_nodes path) es"
proof -
  have "pr_paths (find_paths call_store path_sample) \<noteq> []" using search_runs(4) by auto
  then have "hd (pr_paths (find_paths call_store path_sample)) \<in> set (pr_paths (find_paths call_store path_sample))" by simp
  then show ?thesis using evidence_paths_sound [OF call_store_accepted, of path_sample] unfolding path_sample_def by fastforce
qed

theorem evidence_paths_complete_witness:
  "pr_paths (find_paths call_store path_sample) \<noteq> [] \<and>
   edge_reach (usable_edge call_store Path_SourceToSink) call_store 0 3"
proof -
  have "pr_paths (find_paths call_store path_sample) \<noteq> []" using search_runs(4) by auto
  then show ?thesis using evidence_paths_complete [OF call_store_accepted search_runs(3)] by (auto simp: path_sample_def)
qed

theorem chop_exact_witness:
  "set (cr_nodes (chop call_store chop_sample)) =
     {n. edge_reach possible_chop_edge call_store 0 n \<and> edge_reach possible_chop_edge call_store n 3}"
proof -
  have ends: "cq_source chop_sample = 0" "cq_sink chop_sample = 3" by (simp_all add: chop_sample_def)
  show ?thesis using chop_exact [OF call_store_accepted, of chop_sample] search_runs'(2) unfolding ends by blast
qed

theorem interprocedural_paths_realizable_witness:
  "\<exists>path configs es. path \<in> set (ir_paths (find_interprocedural_paths call_store icp_sample)) \<and>
     realizable_path (icp_usable call_store) call_store 0 3 configs es"
proof -
  have ends: "iq_source icp_sample = 0" "iq_sink icp_sample = 3" by (simp_all add: icp_sample_def)
  have "ir_paths (find_interprocedural_paths call_store icp_sample) \<noteq> []" using search_runs'(4) by auto
  then have "hd (ir_paths (find_interprocedural_paths call_store icp_sample)) \<in>
      set (ir_paths (find_interprocedural_paths call_store icp_sample))" by simp
  then show ?thesis
    using interprocedural_paths_realizable [OF call_store_accepted, of icp_sample] unfolding ends by blast
qed

theorem interprocedural_paths_complete_witness:
  "\<exists>context. call_reach (icp_usable call_store) call_store (0, []) (3, context)"
proof -
  have ends: "iq_source icp_sample = 0" "iq_sink icp_sample = 3" by (simp_all add: icp_sample_def)
  have "ir_paths (find_interprocedural_paths call_store icp_sample) \<noteq> []" using search_runs'(4) by auto
  then show ?thesis
    using interprocedural_paths_complete [OF call_store_accepted search_runs'(3)] unfolding ends by blast
qed

end
