(* ===== verification/Spec2Isabelle.thy ===== *)
theory Spec2Isabelle
  imports Domain_Solver Ifds Fact_Meta Stage_Samples Scc_Graph Cfg_Samples Evidence_Summary Slice_Samples
begin

text \<open>
  \<^bold>\<open>A verification development for polint's analysis core.\<close>

  Polint is a linter for Go and TypeScript repositories. Front ends lower source files to facts and to
  a small intermediate representation; a language-neutral core (\<open>src/crates/polint/src/analysis_neutral\<close>,
  \<open>analysis_api\<close>, \<open>ir\<close>) derives control flow, abstract values, points-to sets, aliases and taint paths from
  them; rules written against an SDK query the results. This library models the parts of the core whose
  answers the rules rest on. Every fact of the program carries a \<^emph>\<open>stable key\<close>, a text that names it
  independently of numbering, and most theorems here say that an engine computes what its declarative
  reading says and that what it numbers, sorts and interns on the way does not change that.

  \<^bold>\<open>How the parts interact.\<close> The interner turns key texts into ids; tasks intern into overlays that
  are absorbed at the end. The control-flow graphs of an output yield dominators, post-dominators and control
  dependence, derived in parallel. The facts of a function (places, operations, calls, control-flow edges) are
  the input of the domain solver, which runs a product of six abstract domains to a fixpoint over the
  control-flow graph. The same edges with the call graph form the interprocedural graph on which the
  taint search runs. Type, value and access-path facts yield points-to constraints; the points-to
  solver computes object sets from them; the alias provider answers queries from these sets. All
  outputs are put in a normal form (sorted by key text, renumbered by position) and indexed by stores.

  \<^bold>\<open>Modelling conventions.\<close> Structs are records and enums are datatypes with the constructors of the
  source. A \<open>BTreeMap\<close> or \<open>HashMap\<close> is a finite map, read in key order where the code iterates
  (\<open>bt_entries\<close>). Loops are recursive functions or folds; \<open>try_fold\<close> is a fold that may fail. A panic, a
  failed assertion or a checked conversion that fails is \<open>None\<close>. Ids are natural numbers where the code
  only compares and indexes them, and 64-bit words where it shifts them or truncates positions to them.
  The hash function of the key texts is third-party code: a parameter \<open>sha256\<close> of the definitions.

  \<^bold>\<open>Theories and sources.\<close>

  \<^item> \<open>Prelude\<close>: finite maps and sets in key order, \<open>try_fold\<close>, deduplication of vectors; the lemmas that all
    theories share.
  \<^item> \<open>Lattice\<close>, \<open>Core_Domains\<close>, \<open>Product_State\<close>: \<open>domains/lattice.rs\<close>, \<open>domains/core.rs\<close>, \<open>domains/state.rs\<close>.
    The locales \<open>abstract_domain\<close>, \<open>lub_domain\<close> and \<open>finite_height_domain\<close> state the contract (join, widening, reported
    changes, bounded height) and are interpreted on the six domains; the product inherits it.
    Joins are upper bounds and report change exactly when they change; any sequence of joins over a
    finite set of places changes a state a bounded number of times; the reduction between domains settles
    in one round.
  \<^item> \<open>Facts\<close>, \<open>Domain_Transfer\<close>, \<open>Domain_Results\<close>, \<open>Domain_Solver\<close>: the intermediate representation and
    \<open>domains/transfer.rs\<close>, \<open>domains/results.rs\<close>, \<open>domains/solver.rs\<close>. Operations preserve the invariant of
    states and touch only what they write; conditional edges refine; an unresolved call forgets. A run that
    empties its queue has computed a post-fixpoint of all transfer functions, and one that exhausts its
    iterations says so in every status.
  \<^item> \<open>Icfg\<close>, \<open>Ifds\<close>: \<open>ifds/mod.rs\<close>. The edges of the interprocedural graph are exactly those of
    the facts. Reported taint paths are realisable, with matching calls and returns; \<open>NotFound\<close> means that
    there is no chain of any length; the loop ends by a measure on depth and queue.
  \<^item> \<open>Stable_Key\<close>, \<open>Fact_Family\<close>, \<open>Key_Text\<close>, \<open>Fact_Meta\<close>: \<open>internal_core\<close>'s interner and overlays, the key
    text of \<open>stable_key.rs\<close>, the metadata store of \<open>analysis_api/metadata.rs\<close>. Interning round trips and is
    independent of the schedule; absorbing an overlay keeps every text; key texts are injective and
    independent of the order of parts; the metadata store is the map of last writes.
  \<^item> \<open>Points_To_Vars\<close>, \<open>Points_To\<close>, \<open>Points_To_Solver\<close>, \<open>Points_To_Exact\<close>, \<open>Points_To_Total\<close>: \<open>points_to/vars.rs\<close>,
    \<open>points_to/facts.rs\<close>, \<open>points_to/solver.rs\<close>. Tagged ids never collide. The difference-propagation solver is
    exact with respect to the inductive least solution \<open>least_pts\<close>, returns, and marks its result
    when a budget is hit.
  \<^item> \<open>Row_Order\<close>, \<open>Type_Value\<close>: the common sort-and-renumber step and the outputs and stores of \<open>types\<close>, \<open>values\<close>
    and \<open>access_paths\<close>. The locales \<open>row_family\<close> and \<open>plain_row_family\<close> state what normalisation needs of a row
    type; they are interpreted for all eight. Normal forms are fixed points, and values keep referring
    to the same allocations.
  \<^item> \<open>Points_To_Constraints\<close>, \<open>Points_To_Store\<close>, \<open>Aliases\<close>: \<open>points_to/constraints.rs\<close>, \<open>points_to/store.rs\<close>,
    \<open>aliases\<close>. The derived constraints have the closure of copies as their solution; alias answers are
    justified by the least solution; the pair budget and the operand order are exact.
  \<^item> \<open>Type_Value_Alias\<close>, \<open>Type_Value_Alias_Total\<close>, \<open>Stage_Samples\<close>: the composition of these parts in
    \<open>types/provider.rs\<close>. The stage returns on well-formed rows and keeps normalised rows where they are.
    The last theory decides alias queries for runs within the budget and runs the stage on a
    small program.

  \<^item> \<open>Tarjan\<close>, \<open>Tarjan_Correct\<close>, \<open>Scc_Graph\<close>: \<open>demand/scc.rs\<close>. The iterative component search returns exactly the
    strongly connected components, callees first; the component graph built from it has exact members,
    recursion flags and dependency sets.

  \<^item> \<open>Cfg_Graph\<close>: \<open>cfg/graph.rs\<close>. The graph of the index over all functions is the graph built alone, and its
    successor and predecessor lists are converses.
  \<^item> \<open>Dom_Array\<close>, \<open>Dom_Array_Correct\<close>, \<open>Dom_Tree\<close>, \<open>Rpo_Correct\<close>, \<open>Dom_Tree_Correct\<close>: the dominator trees of
    \<open>cfg/derived.rs\<close>. The reverse postorder lists the reachable blocks with edges that lead forward except to blocks
    still open; on such an order (locale \<open>rpo_graph\<close>) the iteration over the array of parents returns and its ancestors are
    exactly the dominators. The locale \<open>dual_walk\<close> asks that predecessors and successors of a walk agree; it
    is a sublocale of the former and holds for the walks of both directions.
  \<^item> \<open>Dominance\<close>, \<open>Postdominance\<close>, \<open>Control_Dependence\<close>: the rows of one function in \<open>cfg/derived.rs\<close>, against dominance,
    post-dominance and control dependence by paths. The runner of control dependence returns on every edge.
  \<^item> \<open>Parallel_Rows\<close>, \<open>Cfg_Derived\<close>, \<open>Cfg_Derived_Correct\<close>: \<open>derive_rows_per_graph\<close>, the four derivations, \<open>cfg/budget.rs\<close>
    and \<open>append_derived_rows\<close> of \<open>cfg/provider.rs\<close>. What a row type contributes is the locale \<open>derived_row\<close>, interpreted on the
    four fact types; parallel derivation is sequential derivation, and the facts of an output are exact.
  \<^item> \<open>Dominance_Bounds\<close>, \<open>Dominance_Budget\<close>, \<open>Cfg_Samples\<close>: the number of rows against the estimate of the budget, and two
    small functions on which the derivations are evaluated.

  \<^item> \<open>Evidence_Facts\<close>, \<open>Evidence_Store\<close>, \<open>Evidence_Summary\<close>: \<open>evidence/facts.rs\<close>, \<open>evidence/store.rs\<close> and the compressed steps of
    \<open>slicing/paths.rs\<close>. An accepted store has valid references and exact indexes, and its edges are those of the output.
  \<^item> \<open>Slice_Local\<close>: \<open>slicing/local.rs\<close>. A slice lies in what its filter lets the root reach and is all of it unless a
    limit was hit.
  \<^item> \<open>Frame_Search\<close>: the contract of a search over frames. The locales \<open>frame_search\<close>, \<open>config_search\<close> and \<open>frame_loop\<close> fix the
    goals, choices and steps of a search, the configuration its frames stand at, and the loop that runs it; they
    show once what such a loop collects and when that is everything. They are interpreted on both path searches.
  \<^item> \<open>Evidence_Paths\<close>, \<open>Evidence_Paths_Correct\<close>, \<open>Evidence_Chop\<close>: \<open>evidence/rank.rs\<close>, \<open>find_paths\<close> and \<open>chop\<close> of
    \<open>slicing/paths.rs\<close>. Paths are simple paths of usable edges, all of them when nothing is omitted; a chop is
    what lies between its ends.
  \<^item> \<open>Interprocedural_Paths\<close>, \<open>Interprocedural_Correct\<close>, \<open>Slice_Samples\<close>: \<open>slicing/interprocedural.rs\<close>. Paths match calls with
    returns, and an empty answer without omissions means that no realizable run exists. The last theory runs the
    searches on a small evidence graph.

  \<^bold>\<open>Bounds and fuel.\<close> The reduction of product states runs at most the number of rounds of the source, and
  one is shown to be enough. The domain solver has the iteration budget of the source, as a parameter; the
  taint search is a function with a termination measure and no fuel. The points-to loop is bounded by the step
  budget of the source; for \<open>n\<close> constraints, \<open>n\<close> objects per variable, \<open>n * n\<close> slots and \<open>(2 * n + n * n) * n\<close> steps
  are shown to be ample. The component search is a function with a lexicographic measure (unvisited nodes,
  edges left, frames), and so is the reverse postorder; the dominator iteration has no fuel and is shown to return
  by a measure on the array, the runner of control dependence because it stops at the first repeat. The walks over the evidence graph end because a
  node is queued once, the path searches because frames grow up to the depth limit. The alias provider answers at most 64 pairs and one more. The interner has
  2 ^ 32 ids; the theorems on runs assume room for the keys they can create.

  \<^bold>\<open>Findings.\<close> Eight theorems show behaviour the code cannot mean: joining a nil arm with an aggregate arm
  makes the non-nil edge unreachable; a filled path budget hides an earlier depth cut-off; rows of the
  metadata store's overflow map are hidden when the dense vector grows past them; merging the front
  ends redirects references to allocations; the field constraints derived from access paths have no effect;
  the estimate of the dominance budget is exceeded where blocks cannot reach an exit; there the immediate
  post-dominator rows do not determine the full relation; and a slice that is cut at its depth limit can be marked
  present although it misses an edge between its nodes.

  \<^bold>\<open>Not modelled.\<close> The front ends and their sidecar processes (\<open>go\<close>, \<open>ts\<close>), file system, git, cache and
  process handling, the command line, configuration and reporting, and the SDK that exposes results to
  rules: they are input and output of the modelled core. Of the core itself the lowering to control-flow
  graphs, call resolution, summaries, the demand engine, the provider and the renderers of evidence, and the kernel that
  schedules providers are not modelled: the modelled engines take their facts as input or are called by them. Nor are
  digests, provider manifests and the merge of extension facts.
\<close>

end
